(* ===== verification/C68k_Prelude.thy ===== *)
theory C68k_Prelude
  imports Main "HOL-Library.Word"
begin

text \<open>
  Shared vocabulary of the development: the names of the C integer types as words, byte strings,
  and the generic lemmas on lists, results and words that several components use.
\<close>

unbundle bit_operations_syntax

section \<open>Machine integers and byte strings of the host compiler\<close>

type_synonym u8 = "8 word"
type_synonym u16 = "16 word"
type_synonym u32 = "32 word"
type_synonym u64 = "64 word"

text \<open>A C string together with its length is a list of bytes.\<close>

type_synonym bytes = "u8 list"

definition bytes_of :: "string \<Rightarrow> bytes" where
  "bytes_of s = map (\<lambda>c. of_nat (of_char c)) s"

section \<open>Decimal numbers in generated text\<close>

text \<open>What \<open>%d\<close> and \<open>%ld\<close> print.\<close>

definition digit_char :: "nat \<Rightarrow> char" where
  "digit_char d = char_of (48 + d)"

fun show_nat :: "nat \<Rightarrow> string" where
  "show_nat n = (if n < 10 then [digit_char n] else show_nat (n div 10) @ [digit_char (n mod 10)])"

declare show_nat.simps [simp del]

definition show_int :: "int \<Rightarrow> string" where
  "show_int i = (if i < 0 then CHR ''-'' # show_nat (nat (- i)) else show_nat (nat i))"

section \<open>Results\<close>

text \<open>Fallible code returns \<open>'e + 'a\<close>, the error on the left.\<close>

fun bind_res :: "'e + 'a \<Rightarrow> ('a \<Rightarrow> 'e + 'b) \<Rightarrow> 'e + 'b" where
  "bind_res (Inl e) f = Inl e"
| "bind_res (Inr a) f = f a"

named_theorems res_simps "evaluation and inversion of results"

lemma bind_res_Inr_iff [res_simps]:
  "bind_res r f = Inr b \<longleftrightarrow> (\<exists>a. r = Inr a \<and> f a = Inr b)"
  by (cases r) auto

lemma bind_option_Some_iff [res_simps]:
  "Option.bind r f = Some b \<longleftrightarrow> (\<exists>a. r = Some a \<and> f a = Some b)"
  by (cases r) auto

section \<open>Lists\<close>

lemma length_filter_update_inc:
  assumes "j < length xs" and "\<not> P (xs ! j)" and "P y"
  shows "length (filter P (xs[j := y])) = Suc (length (filter P xs))"
  using assms
proof (induction xs arbitrary: j)
  case (Cons x xs)
  then show ?case by (cases j) auto
qed simp

lemma length_filter_update_same:
  assumes "j < length xs" and "P (xs ! j) \<longleftrightarrow> P y"
  shows "length (filter P (xs[j := y])) = length (filter P xs)"
  using assms
proof (induction xs arbitrary: j)
  case (Cons x xs)
  then show ?case by (cases j) auto
qed simp

lemma filter_length_lt_ex:
  assumes "length (filter P xs) < length xs"
  shows "\<exists>j < length xs. \<not> P (xs ! j)"
proof (rule ccontr)
  assume "\<not> ?thesis"
  then have "\<forall>x \<in> set xs. P x" by (auto simp: in_set_conv_nth)
  then have "filter P xs = xs" by simp
  with assms show False by simp
qed

lemma length_filter_mono:
  "(\<And>x. P x \<Longrightarrow> Q x) \<Longrightarrow> length (filter P xs) \<le> length (filter Q xs)"
  by (induction xs) (auto intro: le_SucI)

text \<open>The least index of a bounded range that satisfies a predicate.\<close>

lemma least_index:
  assumes "(d::nat) < n" and "P d"
  shows "\<exists>d' < n. P d' \<and> (\<forall>i < d'. \<not> P i) \<and> d' \<le> d"
proof (intro exI conjI allI impI)
  show "P (LEAST d. P d)" using assms(2) by (rule LeastI)
  show "(LEAST d. P d) \<le> d" using assms(2) by (rule Least_le)
  then show "(LEAST d. P d) < n" using assms(1) by simp
  fix i assume "i < (LEAST d. P d)"
  then show "\<not> P i" by (rule not_less_Least)
qed

section \<open>Words\<close>

lemma unat_add_of_nat_mod_pow2:
  fixes h :: u64
  assumes "n \<le> 64"
  shows "unat (h + of_nat i) mod 2 ^ n = (unat h + i) mod 2 ^ n"
proof -
  have d: "(2::nat) ^ n dvd 2 ^ 64" using assms by (rule le_imp_power_dvd)
  have "unat (h + of_nat i) = (unat h + i) mod 2 ^ 64"
    by (simp add: unat_word_ariths unat_of_nat mod_add_right_eq)
  then show ?thesis using d by (simp add: mod_mod_cancel)
qed

lemma uint_eq_sint:
  assumes "0 \<le> sint (b::u32)"
  shows "uint b = sint b"
proof -
  have "sint b < 2 ^ 31" using sint_lt [of b] by simp
  then show ?thesis using assms by (simp add: uint_sint take_bit_eq_mod)
qed

lemma unat_small_sint: "0 \<le> sint (b::u32) \<Longrightarrow> sint b < int n \<Longrightarrow> unat b < n"
  using uint_eq_sint [of b] by (simp add: unat_eq_nat_uint nat_less_iff)

lemma and_63: "(b::u32) AND 63 = take_bit 6 b"
  by (simp add: take_bit_eq_mask mask_eq_exp_minus_1)

end
