(* ===== verification/Hashmap.thy ===== *)
theory Hashmap
  imports C68k_Prelude
begin

text \<open>
  The open-addressing hash table of \<open>src/hashmap.c\<close>: FNV hash, linear probing modulo the
  capacity, tombstones for deleted entries, and a rehash that drops tombstones and doubles the
  bucket array. A key with its length is a byte list; the \<open>key\<close> pointer of an entry is
  \<open>NULL\<close>, the tombstone, or a real key. A \<open>void *\<close> value is an option (\<open>NULL\<close> is
  \<open>None\<close>). A map whose \<open>buckets\<close> pointer is \<open>NULL\<close> has the empty bucket list.
  \<open>used\<close> and \<open>capacity\<close> are C ints that never overflow while \<open>used \<le> max_used\<close>, which the
  invariant demands. \<open>unreachable()\<close> and a failed \<open>assert\<close> are error values.
\<close>

section \<open>State\<close>

datatype slot_key = NullKey | Tombstone | Key bytes

record 'v hash_entry =
  he_key :: slot_key
  he_val :: "'v option"

record 'v hashmap =
  buckets :: "'v hash_entry list"
  capacity :: nat
  used :: nat

datatype hm_error = Unreachable | Assert_failed

definition empty_entry :: "'v hash_entry" where
  "empty_entry = \<lparr>he_key = NullKey, he_val = None\<rparr>"

definition empty_hashmap :: "'v hashmap" where
  "empty_hashmap = \<lparr>buckets = [], capacity = 0, used = 0\<rparr>"

definition init_size :: nat where "init_size = 16"
definition high_watermark :: nat where "high_watermark = 70"
definition low_watermark :: nat where "low_watermark = 50"

section \<open>Operations\<close>

definition fnv_hash :: "bytes \<Rightarrow> u64" where
  "fnv_hash s = foldl (\<lambda>hash c. (hash * 0x100000001b3) XOR ucast c) 0xcbf29ce484222325 s"

text \<open>\<open>(hash + i) % map->capacity\<close>, the sum taken modulo \<open>2 ^ 64\<close>.\<close>

definition bucket_index :: "nat \<Rightarrow> u64 \<Rightarrow> nat \<Rightarrow> nat" where
  "bucket_index cap hash i = unat (hash + of_nat i) mod cap"

definition entry_live :: "'v hash_entry \<Rightarrow> bool" where
  "entry_live ent \<longleftrightarrow> he_key ent \<noteq> NullKey \<and> he_key ent \<noteq> Tombstone"

definition hm_match :: "'v hash_entry \<Rightarrow> bytes \<Rightarrow> bool" where
  "hm_match ent key \<longleftrightarrow> he_key ent = Key key"

text \<open>The probe loop of \<open>get_entry\<close>; the result is the index of the entry.\<close>

function get_loop :: "'v hash_entry list \<Rightarrow> nat \<Rightarrow> u64 \<Rightarrow> bytes \<Rightarrow> nat \<Rightarrow> hm_error + nat option" where
  "get_loop bs cap hash key i =
     (if i < cap then
        let j = bucket_index cap hash i; ent = bs ! j in
        if hm_match ent key then Inr (Some j)
        else if he_key ent = NullKey then Inr None
        else get_loop bs cap hash key (Suc i)
      else Inl Unreachable)"
  by pat_completeness auto
termination
  by (relation "measure (\<lambda>(bs, cap, hash, key, i). cap - i)") auto

definition get_entry :: "'v hashmap \<Rightarrow> bytes \<Rightarrow> hm_error + nat option" where
  "get_entry m key =
     (if buckets m = [] then Inr None
      else get_loop (buckets m) (capacity m) (fnv_hash key) key 0)"

definition hashmap_get2 :: "'v hashmap \<Rightarrow> bytes \<Rightarrow> hm_error + 'v option" where
  "hashmap_get2 m key =
     bind_res (get_entry m key)
       (\<lambda>r. Inr (case r of None \<Rightarrow> None | Some j \<Rightarrow> he_val (buckets m ! j)))"

definition hashmap_delete2 :: "'v hashmap \<Rightarrow> bytes \<Rightarrow> hm_error + 'v hashmap" where
  "hashmap_delete2 m key =
     bind_res (get_entry m key)
       (\<lambda>r. Inr (case r of None \<Rightarrow> m
                  | Some j \<Rightarrow> m\<lparr>buckets := (buckets m)[j := (buckets m ! j)\<lparr>he_key := Tombstone\<rparr>]\<rparr>))"

text \<open>The probe loop of \<open>get_or_insert_entry\<close>: the entry found, or claimed for the key.\<close>

function insert_loop :: "'v hashmap \<Rightarrow> u64 \<Rightarrow> bytes \<Rightarrow> nat \<Rightarrow> hm_error + 'v hashmap \<times> nat" where
  "insert_loop m hash key i =
     (if i < capacity m then
        let j = bucket_index (capacity m) hash i; ent = buckets m ! j in
        if hm_match ent key then Inr (m, j)
        else if he_key ent = Tombstone then
          Inr (m\<lparr>buckets := (buckets m)[j := ent\<lparr>he_key := Key key\<rparr>]\<rparr>, j)
        else if he_key ent = NullKey then
          Inr (m\<lparr>buckets := (buckets m)[j := ent\<lparr>he_key := Key key\<rparr>],
                 used := Suc (used m)\<rparr>, j)
        else insert_loop m hash key (Suc i)
      else Inl Unreachable)"
  by pat_completeness auto
termination
  by (relation "measure (\<lambda>(m, hash, key, i). capacity m - i)") auto

text \<open>The doubling loop of \<open>rehash\<close>.\<close>

function grow_cap :: "nat \<Rightarrow> nat \<Rightarrow> nat" where
  "grow_cap nkeys cap =
     (if 0 < cap \<and> low_watermark \<le> (nkeys * 100) div cap then grow_cap nkeys (cap * 2) else cap)"
  by pat_completeness auto
termination
proof (relation "measure (\<lambda>(nkeys, cap). 2 * nkeys + 1 - cap)")
  fix nkeys cap :: nat
  assume a: "0 < cap \<and> low_watermark \<le> (nkeys * 100) div cap"
  then have "low_watermark * cap \<le> nkeys * 100"
    by (metis div_times_less_eq_dividend le_trans mult_le_mono1)
  then show "((nkeys, cap * 2), nkeys, cap) \<in> measure (\<lambda>(nkeys, cap). 2 * nkeys + 1 - cap)"
    using a by (auto simp: low_watermark_def intro!: diff_less_mono2)
qed auto

declare get_loop.simps [simp del] insert_loop.simps [simp del] grow_cap.simps [simp del]

text \<open>
  \<open>rehash\<close> puts every live entry into a new table, and \<open>hashmap_put2\<close> may call \<open>rehash\<close>. The
  fuel counts these nested calls; \<open>put2_fuel_enough\<close> below shows that the inner call never
  rehashes, so that \<open>hashmap_put2\<close> runs with two levels.
\<close>

definition put_at :: "'v hashmap \<times> nat \<Rightarrow> 'v option \<Rightarrow> 'v hashmap" where
  "put_at r v = (case r of (m, j) \<Rightarrow>
     m\<lparr>buckets := (buckets m)[j := (buckets m ! j)\<lparr>he_val := v\<rparr>]\<rparr>)"

fun rehash_copy ::
  "('v hashmap \<Rightarrow> bytes \<Rightarrow> 'v option \<Rightarrow> hm_error + 'v hashmap)
   \<Rightarrow> 'v hash_entry list \<Rightarrow> 'v hashmap \<Rightarrow> hm_error + 'v hashmap" where
  "rehash_copy put [] m2 = Inr m2"
| "rehash_copy put (ent # ents) m2 =
     (case he_key ent of
        Key k \<Rightarrow> bind_res (put m2 k (he_val ent)) (rehash_copy put ents)
      | _ \<Rightarrow> rehash_copy put ents m2)"

definition rehash_with ::
  "('v hashmap \<Rightarrow> bytes \<Rightarrow> 'v option \<Rightarrow> hm_error + 'v hashmap)
   \<Rightarrow> 'v hashmap \<Rightarrow> hm_error + 'v hashmap" where
  "rehash_with put m =
     (let nkeys = length (filter entry_live (buckets m));
          cap = grow_cap nkeys (capacity m);
          map2 = \<lparr>buckets = replicate cap empty_entry, capacity = cap, used = 0\<rparr>
      in if cap = 0 then Inl Assert_failed
         else bind_res (rehash_copy put (buckets m) map2)
                (\<lambda>m2. if used m2 = nkeys then Inr m2 else Inl Assert_failed))"

definition get_or_insert_entry ::
  "('v hashmap \<Rightarrow> hm_error + 'v hashmap) \<Rightarrow> 'v hashmap \<Rightarrow> bytes \<Rightarrow> hm_error + 'v hashmap \<times> nat" where
  "get_or_insert_entry reh m key =
     bind_res
       (if buckets m = [] then
          Inr (m\<lparr>buckets := replicate init_size empty_entry, capacity := init_size\<rparr>)
        else if high_watermark \<le> (used m * 100) div capacity m then reh m
        else Inr m)
       (\<lambda>m1. insert_loop m1 (fnv_hash key) key 0)"

fun put2_fuel :: "nat \<Rightarrow> 'v hashmap \<Rightarrow> bytes \<Rightarrow> 'v option \<Rightarrow> hm_error + 'v hashmap" where
  "put2_fuel 0 m key v = Inl Unreachable"
| "put2_fuel (Suc n) m key v =
     bind_res (get_or_insert_entry (rehash_with (put2_fuel n)) m key) (\<lambda>r. Inr (put_at r v))"

declare put2_fuel.simps(2) [simp del]

definition hashmap_put2 :: "'v hashmap \<Rightarrow> bytes \<Rightarrow> 'v option \<Rightarrow> hm_error + 'v hashmap" where
  "hashmap_put2 = put2_fuel 2"

definition rehash :: "'v hashmap \<Rightarrow> hm_error + 'v hashmap" where
  "rehash = rehash_with hashmap_put2"

section \<open>Invariant and abstraction\<close>

definition max_used :: nat where "max_used = 2 ^ 24"

abbreviation key_at :: "'v hashmap \<Rightarrow> nat \<Rightarrow> slot_key" where
  "key_at m j \<equiv> he_key (buckets m ! j)"

abbreviation probe :: "'v hashmap \<Rightarrow> bytes \<Rightarrow> nat \<Rightarrow> nat" where
  "probe m k i \<equiv> bucket_index (capacity m) (fnv_hash k) i"

definition pow2_cap :: "nat \<Rightarrow> bool" where
  "pow2_cap cap \<longleftrightarrow> (\<exists>n. 4 \<le> n \<and> n \<le> 26 \<and> cap = 2 ^ n)"

definition hm_table :: "'v hashmap \<Rightarrow> bool" where
  "hm_table m \<longleftrightarrow> pow2_cap (capacity m) \<and> length (buckets m) = capacity m \<and>
     used m = length (filter (\<lambda>e. he_key e \<noteq> NullKey) (buckets m)) \<and> used m < capacity m"

text \<open>No \<open>NULL\<close> entry lies between the first probe of a stored key and its entry.\<close>

definition hm_reach :: "'v hashmap \<Rightarrow> bool" where
  "hm_reach m \<longleftrightarrow> (\<forall>j < capacity m. \<forall>k. key_at m j = Key k \<longrightarrow>
     (\<exists>i < capacity m. probe m k i = j \<and> (\<forall>i' < i. key_at m (probe m k i') \<noteq> NullKey)))"

definition hm_unique :: "'v hashmap \<Rightarrow> bool" where
  "hm_unique m \<longleftrightarrow> (\<forall>i < capacity m. \<forall>j < capacity m. \<forall>k.
     key_at m i = Key k \<longrightarrow> key_at m j = Key k \<longrightarrow> i = j)"

definition hm_no_tombstone :: "'v hashmap \<Rightarrow> bool" where
  "hm_no_tombstone m \<longleftrightarrow> (\<forall>e \<in> set (buckets m). he_key e \<noteq> Tombstone)"

definition hm_unallocated :: "'v hashmap \<Rightarrow> bool" where
  "hm_unallocated m \<longleftrightarrow> buckets m = [] \<and> capacity m = 0 \<and> used m = 0"

definition hm_ok :: "'v hashmap \<Rightarrow> bool" where
  "hm_ok m \<longleftrightarrow> hm_table m \<and> hm_reach m \<and> hm_unique m"

definition hm_inv :: "'v hashmap \<Rightarrow> bool" where
  "hm_inv m \<longleftrightarrow> hm_unallocated m \<or> hm_ok m"

text \<open>The finite map a table stands for: what \<open>get_entry\<close> finds.\<close>

definition hm_map :: "'v hashmap \<Rightarrow> bytes \<Rightarrow> 'v option option" where
  "hm_map m k = (case get_entry m k of Inr (Some j) \<Rightarrow> Some (he_val (buckets m ! j)) | _ \<Rightarrow> None)"

section \<open>Probe sequences\<close>

lemma pow2_cap_bounds: "pow2_cap cap \<Longrightarrow> 16 \<le> cap \<and> cap \<le> 2 ^ 26"
  unfolding pow2_cap_def using power_increasing [of 4 _ "2::nat"] power_increasing [of _ 26 "2::nat"]
  by fastforce

lemma bucket_index_less: "0 < cap \<Longrightarrow> bucket_index cap h i < cap"
  by (simp add: bucket_index_def)

lemma bucket_index_eq:
  assumes "pow2_cap cap"
  shows "bucket_index cap h i = (unat h + i) mod cap"
proof -
  from assms obtain n where "n \<le> 64" "cap = 2 ^ n" by (auto simp: pow2_cap_def)
  then show ?thesis by (simp add: bucket_index_def unat_add_of_nat_mod_pow2)
qed

lemma bucket_index_surj:
  assumes cap: "pow2_cap cap" and j: "j < cap"
  shows "\<exists>i < cap. bucket_index cap h i = j"
proof -
  let ?a = "unat h mod cap"
  let ?i = "(j + (cap - ?a)) mod cap"
  have a: "?a < cap" using j by simp
  have "(unat h + ?i) mod cap = (?a + (j + (cap - ?a))) mod cap"
    by (simp add: mod_add_left_eq mod_add_right_eq)
  also have "\<dots> = (j + cap) mod cap"
    using a by (intro arg_cong [where f = "\<lambda>x. x mod cap"]) arith
  also have "\<dots> = j" using j by simp
  finally have "bucket_index cap h ?i = j" by (simp add: bucket_index_eq [OF cap])
  moreover have "?i < cap" using j by simp
  ultimately show ?thesis by blast
qed

text \<open>
  What the tables need of a probe sequence: within the capacity it visits every bucket. Then any
  condition that holds of some bucket is met first at some step below the capacity.
\<close>

locale probe_sequence =
  fixes slot :: "nat \<Rightarrow> 'h \<Rightarrow> nat \<Rightarrow> nat"
    and ok_cap :: "nat \<Rightarrow> bool"
  assumes slot_less: "ok_cap cap \<Longrightarrow> slot cap h i < cap"
    and slot_surj: "ok_cap cap \<Longrightarrow> j < cap \<Longrightarrow> \<exists>i < cap. slot cap h i = j"
begin

lemma first_stop:
  assumes "ok_cap cap" and "j < cap" and "P j"
  shows "\<exists>d < cap. P (slot cap h d) \<and> (\<forall>i < d. \<not> P (slot cap h i))"
proof -
  obtain i where "i < cap" "slot cap h i = j" using slot_surj assms(1,2) by blast
  then have "i < cap" "P (slot cap h i)" using assms(3) by auto
  from least_index [where P = "\<lambda>i. P (slot cap h i)", OF this] show ?thesis by blast
qed

end

interpretation linear: probe_sequence bucket_index pow2_cap
proof
  fix cap j i :: nat and h :: u64
  assume c: "pow2_cap cap"
  then have "0 < cap" using pow2_cap_bounds by fastforce
  then show "bucket_index cap h i < cap" by (rule bucket_index_less)
  show "j < cap \<Longrightarrow> \<exists>i < cap. bucket_index cap h i = j" using c by (rule bucket_index_surj)
qed

lemma get_loop_hit:
  assumes "i \<le> d" and "d < cap"
    and "hm_match (bs ! bucket_index cap h d) k \<or> he_key (bs ! bucket_index cap h d) = NullKey"
    and "\<forall>i'. i \<le> i' \<and> i' < d \<longrightarrow> \<not> hm_match (bs ! bucket_index cap h i') k \<and>
           he_key (bs ! bucket_index cap h i') \<noteq> NullKey"
  shows "get_loop bs cap h k i =
    Inr (if hm_match (bs ! bucket_index cap h d) k then Some (bucket_index cap h d) else None)"
  using assms
proof (induction bs cap h k i rule: get_loop.induct)
  case (1 bs cap h k i)
  show ?case
  proof (cases "i = d")
    case True
    with "1.prems" show ?thesis by (auto simp: get_loop.simps [of bs cap h k d] Let_def)
  next
    case False
    with "1.prems"(1,4) have n: "\<not> hm_match (bs ! bucket_index cap h i) k"
      "he_key (bs ! bucket_index cap h i) \<noteq> NullKey" by auto
    have "get_loop bs cap h k (Suc i) =
      Inr (if hm_match (bs ! bucket_index cap h d) k then Some (bucket_index cap h d) else None)"
      using False "1.prems" n by (intro "1.IH" [OF _ refl refl]) auto
    with n "1.prems"(1,2) False show ?thesis
      by (simp add: get_loop.simps [of bs cap h k i] Let_def)
  qed
qed

definition insert_at :: "'v hashmap \<Rightarrow> bytes \<Rightarrow> nat \<Rightarrow> 'v hashmap" where
  "insert_at m k j =
     (case key_at m j of
        Key k' \<Rightarrow> m
      | Tombstone \<Rightarrow> m\<lparr>buckets := (buckets m)[j := (buckets m ! j)\<lparr>he_key := Key k\<rparr>]\<rparr>
      | NullKey \<Rightarrow> m\<lparr>buckets := (buckets m)[j := (buckets m ! j)\<lparr>he_key := Key k\<rparr>],
                     used := Suc (used m)\<rparr>)"

definition insert_stop :: "'v hashmap \<Rightarrow> bytes \<Rightarrow> nat \<Rightarrow> bool" where
  "insert_stop m k j \<longleftrightarrow> key_at m j = Key k \<or> \<not> entry_live (buckets m ! j)"

lemma insert_loop_hit:
  assumes "i \<le> d" and "d < capacity m"
    and "insert_stop m k (bucket_index (capacity m) h d)"
    and "\<forall>i'. i \<le> i' \<and> i' < d \<longrightarrow> \<not> insert_stop m k (bucket_index (capacity m) h i')"
  shows "insert_loop m h k i =
    Inr (insert_at m k (bucket_index (capacity m) h d), bucket_index (capacity m) h d)"
  using assms
proof (induction m h k i rule: insert_loop.induct)
  case (1 m h k i)
  show ?case
  proof (cases "i = d")
    case True
    with "1.prems" show ?thesis
      by (auto simp: insert_loop.simps [of m h k d] Let_def insert_stop_def insert_at_def
          hm_match_def entry_live_def split: slot_key.splits)
  next
    case False
    with "1.prems"(1,4) have n: "\<not> insert_stop m k (bucket_index (capacity m) h i)" by auto
    have "insert_loop m h k (Suc i) =
      Inr (insert_at m k (bucket_index (capacity m) h d), bucket_index (capacity m) h d)"
      using False "1.prems" n
      by (intro "1.IH" [OF _ refl refl]) (auto simp: insert_stop_def hm_match_def entry_live_def)
    with n "1.prems"(1,2) False show ?thesis
      by (simp add: insert_loop.simps [of m h k i] Let_def insert_stop_def hm_match_def
          entry_live_def)
  qed
qed

section \<open>Lookup\<close>

lemma hm_table_cap: "hm_table m \<Longrightarrow> pow2_cap (capacity m)"
  and hm_table_len: "hm_table m \<Longrightarrow> length (buckets m) = capacity m"
  and hm_table_pos: "hm_table m \<Longrightarrow> 16 \<le> capacity m"
  by (auto simp: hm_table_def dest: pow2_cap_bounds)

lemma hm_table_null_ex:
  assumes "hm_table m"
  shows "\<exists>j < capacity m. key_at m j = NullKey"
  using filter_length_lt_ex [of "\<lambda>e. he_key e \<noteq> NullKey" "buckets m"] assms
  by (auto simp: hm_table_def)

lemma get_entry_spec:
  assumes t: "hm_table m" and r: "hm_reach m"
  shows "(\<exists>j < capacity m. key_at m j = Key k \<and> get_entry m k = Inr (Some j)) \<or>
         (\<forall>j < capacity m. key_at m j \<noteq> Key k) \<and> get_entry m k = Inr None"
proof -
  let ?h = "fnv_hash k" and ?c = "capacity m"
  let ?P = "\<lambda>j. key_at m j = Key k \<or> key_at m j = NullKey"
  obtain j0 where j0: "j0 < ?c" "?P j0" using hm_table_null_ex [OF t] by blast
  from linear.first_stop [where P = ?P, OF hm_table_cap [OF t] j0] obtain d where
    d: "d < ?c" "?P (probe m k d)" "\<forall>i < d. \<not> ?P (probe m k i)" by blast
  have ne: "buckets m \<noteq> []" using hm_table_len [OF t] hm_table_pos [OF t] by auto
  have g: "get_entry m k = Inr (if key_at m (probe m k d) = Key k then Some (probe m k d) else None)"
    unfolding get_entry_def using ne d get_loop_hit [of 0 d ?c "buckets m" ?h k]
    by (auto simp: hm_match_def)
  have lt: "probe m k d < ?c" using linear.slot_less [OF hm_table_cap [OF t]] .
  show ?thesis
  proof (cases "key_at m (probe m k d) = Key k")
    case True
    with g lt show ?thesis by auto
  next
    case False
    have "key_at m j \<noteq> Key k" if "j < ?c" for j
    proof
      assume "key_at m j = Key k"
      with r that obtain i where i: "probe m k i = j" "\<forall>i' < i. key_at m (probe m k i') \<noteq> NullKey"
        unfolding hm_reach_def by blast
      with d False \<open>key_at m j = Key k\<close> show False by (metis linorder_neqE_nat)
    qed
    with g False show ?thesis by auto
  qed
qed

lemma hm_map_iff:
  assumes "hm_ok m"
  shows "hm_map m k = Some v \<longleftrightarrow>
    (\<exists>j < capacity m. key_at m j = Key k \<and> he_val (buckets m ! j) = v)"
proof -
  have t: "hm_table m" "hm_reach m" and u: "hm_unique m" using assms by (auto simp: hm_ok_def)
  from get_entry_spec [OF t, of k] show ?thesis
  proof
    assume "\<exists>j < capacity m. key_at m j = Key k \<and> get_entry m k = Inr (Some j)"
    then obtain j where "j < capacity m" "key_at m j = Key k" "get_entry m k = Inr (Some j)" by blast
    then show ?thesis using u by (auto simp: hm_map_def hm_unique_def)
  qed (auto simp: hm_map_def)
qed

lemma hm_map_None_iff:
  assumes "hm_ok m"
  shows "hm_map m k = None \<longleftrightarrow> (\<forall>j < capacity m. key_at m j \<noteq> Key k)"
  using hm_map_iff [OF assms, of k] by (metis option.exhaust option.distinct(1))

section \<open>Insertion into a table with room\<close>

text \<open>Where the probe loop of an insertion stops: at the entry of the key, or at a free bucket of
  its probe sequence while no bucket holds the key.\<close>

definition insert_spot :: "'v hashmap \<Rightarrow> bytes \<Rightarrow> nat \<Rightarrow> bool" where
  "insert_spot m k j \<longleftrightarrow> j < capacity m \<and>
     (\<exists>d < capacity m. probe m k d = j \<and> (\<forall>i < d. key_at m (probe m k i) \<noteq> NullKey)) \<and>
     (key_at m j = Key k \<or> \<not> entry_live (buckets m ! j) \<and> (\<forall>i < capacity m. key_at m i \<noteq> Key k))"

definition put_result :: "'v hashmap \<Rightarrow> bytes \<Rightarrow> 'v option \<Rightarrow> nat \<Rightarrow> 'v hashmap" where
  "put_result m k v j = m\<lparr>buckets := (buckets m)[j := \<lparr>he_key = Key k, he_val = v\<rparr>],
     used := (if key_at m j = NullKey then Suc (used m) else used m)\<rparr>"

lemma insert_loop_spot:
  assumes ok: "hm_ok m" and clean: "hm_map m k = None \<or> hm_no_tombstone m"
  shows "\<exists>j. insert_spot m k j \<and> insert_loop m (fnv_hash k) k 0 = Inr (insert_at m k j, j)"
proof -
  let ?c = "capacity m"
  have t: "hm_table m" and r: "hm_reach m" using ok by (auto simp: hm_ok_def)
  obtain j0 where "j0 < ?c" "key_at m j0 = NullKey" using hm_table_null_ex [OF t] by blast
  then have j0: "j0 < ?c" "insert_stop m k j0" by (auto simp: insert_stop_def entry_live_def)
  from linear.first_stop [where P = "insert_stop m k", OF hm_table_cap [OF t] j0] obtain d where
    d: "d < ?c" "insert_stop m k (probe m k d)" "\<forall>i < d. \<not> insert_stop m k (probe m k i)" by blast
  let ?j = "probe m k d"
  have lt: "?j < ?c" using linear.slot_less [OF hm_table_cap [OF t]] .
  have nn: "\<forall>i < d. key_at m (probe m k i) \<noteq> NullKey"
    using d(3) by (auto simp: insert_stop_def entry_live_def)
  have "key_at m i \<noteq> Key k" if i: "i < ?c" and nk: "key_at m ?j \<noteq> Key k" for i
  proof
    assume ik: "key_at m i = Key k"
    then have "hm_map m k \<noteq> None" using i hm_map_iff [OF ok] by fastforce
    then have "hm_no_tombstone m" using clean by auto
    then have "key_at m ?j = NullKey"
      using nk d(2) lt hm_table_len [OF t]
      by (auto simp: insert_stop_def entry_live_def hm_no_tombstone_def)
    moreover obtain e where "probe m k e = i" "\<forall>i' < e. key_at m (probe m k i') \<noteq> NullKey"
      using r i ik unfolding hm_reach_def by blast
    ultimately have "e \<le> d" using ik by (metis not_less)
    then have "e < d" using \<open>probe m k e = i\<close> ik nk by (metis le_neq_implies_less)
    then show False using d(3) \<open>probe m k e = i\<close> ik by (auto simp: insert_stop_def)
  qed
  then have "insert_spot m k ?j"
    unfolding insert_spot_def using lt d(1,2) nn by (auto simp: insert_stop_def)
  moreover have "insert_loop m (fnv_hash k) k 0 = Inr (insert_at m k ?j, ?j)"
    using insert_loop_hit [of 0 d m k "fnv_hash k"] d by simp
  ultimately show ?thesis by blast
qed

lemma entry_update_both:
  "(e::'v hash_entry)\<lparr>he_key := a, he_val := b\<rparr> = \<lparr>he_key = a, he_val = b\<rparr>"
  by (cases e) simp

lemma entry_update_val: "he_key (e::'v hash_entry) = a \<Longrightarrow> e\<lparr>he_val := b\<rparr> = \<lparr>he_key = a, he_val = b\<rparr>"
  by (cases e) simp

lemma put_at_insert_at:
  assumes "insert_spot m k j" and "length (buckets m) = capacity m"
  shows "put_at (insert_at m k j, j) v = put_result m k v j"
  using assms
  by (auto simp: put_at_def insert_at_def put_result_def insert_spot_def entry_live_def
      entry_update_both entry_update_val split: slot_key.splits)

lemma put_result_key:
  assumes "i < length (buckets m)"
  shows "key_at (put_result m k v j) i = (if i = j then Key k else key_at m i)"
    and "he_val (buckets (put_result m k v j) ! i) = (if i = j then v else he_val (buckets m ! i))"
  using assms by (auto simp: put_result_def nth_list_update)

lemma put_result_cap [simp]: "capacity (put_result m k v j) = capacity m"
  by (simp add: put_result_def)

lemma put_result_ok:
  assumes ok: "hm_ok m" and spot: "insert_spot m k j" and room: "Suc (used m) < capacity m"
  shows "hm_ok (put_result m k v j)"
proof -
  let ?m = "put_result m k v j"
  have t: "hm_table m" and r: "hm_reach m" and u: "hm_unique m" using ok by (auto simp: hm_ok_def)
  have len: "length (buckets m) = capacity m" using hm_table_len [OF t] .
  have j: "j < capacity m" using spot by (simp add: insert_spot_def)
  have key: "key_at ?m i = (if i = j then Key k else key_at m i)" if "i < capacity m" for i
    using put_result_key(1) that len by metis
  have lt: "probe m k' i < capacity m" for k' i using linear.slot_less [OF hm_table_cap [OF t]] .
  have "hm_table ?m"
  proof -
    have "length (filter (\<lambda>e. he_key e \<noteq> NullKey) (buckets ?m)) = used ?m"
      using t j len unfolding put_result_def hm_table_def
      by (auto simp: length_filter_update_inc length_filter_update_same)
    then show ?thesis using t room by (auto simp: hm_table_def put_result_def)
  qed
  moreover have "hm_reach ?m"
    unfolding hm_reach_def put_result_cap
  proof (intro allI impI)
    fix i k' assume i: "i < capacity m" and kk: "key_at ?m i = Key k'"
    have "\<exists>e < capacity m. probe m k' e = i \<and> (\<forall>i' < e. key_at m (probe m k' i') \<noteq> NullKey)"
    proof (cases "i = j")
      case True
      then have "k' = k" using kk key i by simp
      then show ?thesis using True spot by (auto simp: insert_spot_def)
    next
      case False
      then show ?thesis using kk key [OF i] r i unfolding hm_reach_def by auto
    qed
    then show "\<exists>e < capacity m. probe m k' e = i \<and>
        (\<forall>i' < e. key_at ?m (probe m k' i') \<noteq> NullKey)"
      using key lt by (metis slot_key.distinct(3))
  qed
  moreover have "hm_unique ?m"
    unfolding hm_unique_def put_result_cap
  proof (intro allI impI)
    fix i i' k' assume i: "i < capacity m" "i' < capacity m"
      and kk: "key_at ?m i = Key k'" "key_at ?m i' = Key k'"
    have uj: "a = j" if "a < capacity m" "key_at m a = Key k" for a
      using spot u that j unfolding insert_spot_def hm_unique_def by blast
    show "i = i'"
      using kk key i uj u unfolding hm_unique_def by (metis slot_key.inject)
  qed
  ultimately show ?thesis by (simp add: hm_ok_def)
qed

lemma put_result_map:
  assumes ok: "hm_ok m" and spot: "insert_spot m k j" and room: "Suc (used m) < capacity m"
  shows "hm_map (put_result m k v j) = (hm_map m)(k \<mapsto> v)"
proof (rule ext)
  fix k'
  let ?m = "put_result m k v j"
  have ok': "hm_ok ?m" using put_result_ok [OF assms] .
  have len: "length (buckets m) = capacity m" using ok by (auto simp: hm_ok_def dest: hm_table_len)
  have j: "j < capacity m" and jk: "key_at m j = Key k \<or> \<not> entry_live (buckets m ! j)"
    using spot by (auto simp: insert_spot_def)
  have "hm_map ?m k' = Some w \<longleftrightarrow> ((hm_map m)(k \<mapsto> v)) k' = Some w" for w
  proof (cases "k' = k")
    case True
    have "hm_map ?m k = Some v"
      using hm_map_iff [OF ok'] j len by (fastforce simp: put_result_key)
    with True show ?thesis by auto
  next
    case False
    have "hm_map ?m k' = Some w \<longleftrightarrow>
        (\<exists>i < capacity m. key_at ?m i = Key k' \<and> he_val (buckets ?m ! i) = w)"
      using hm_map_iff [OF ok'] by simp
    also have "\<dots> \<longleftrightarrow> (\<exists>i < capacity m. key_at m i = Key k' \<and> he_val (buckets m ! i) = w)"
      using False jk len
      by (intro ex_cong1) (auto simp: put_result_key entry_live_def split: if_splits)
    finally show ?thesis using False hm_map_iff [OF ok] by simp
  qed
  then show "hm_map ?m k' = ((hm_map m)(k \<mapsto> v)) k'"
    by (metis option.exhaust)
qed

lemma load_below_room:
  assumes "hm_table m" and "(used m * 100) div capacity m < high_watermark"
  shows "Suc (used m) < capacity m"
proof -
  have c: "16 \<le> capacity m" using hm_table_pos [OF assms(1)] .
  then have "used m * 100 < 70 * capacity m"
    using assms(2) by (simp add: high_watermark_def div_less_iff_less_mult)
  with c show ?thesis by linarith
qed

lemma put2_room:
  assumes ok: "hm_ok m" and clean: "hm_map m k = None \<or> hm_no_tombstone m"
    and load: "(used m * 100) div capacity m < high_watermark"
  shows "\<exists>j. insert_spot m k j \<and> put2_fuel (Suc n) m k v = Inr (put_result m k v j)"
proof -
  have len: "length (buckets m) = capacity m" and "0 < capacity m"
    using ok by (auto simp: hm_ok_def dest: hm_table_len hm_table_pos)
  obtain j where j: "insert_spot m k j" "insert_loop m (fnv_hash k) k 0 = Inr (insert_at m k j, j)"
    using insert_loop_spot [OF ok clean] by blast
  have "buckets m \<noteq> []" using len \<open>0 < capacity m\<close> by auto
  then have "get_or_insert_entry (rehash_with (put2_fuel n)) m k = Inr (insert_at m k j, j)"
    using j(2) load by (simp add: get_or_insert_entry_def)
  then show ?thesis using j(1) put_at_insert_at [OF j(1) len] by (auto simp: put2_fuel.simps(2))
qed

lemma put_result_no_tombstone:
  "hm_no_tombstone m \<Longrightarrow> hm_no_tombstone (put_result m k v j)"
  by (auto simp: hm_no_tombstone_def put_result_def dest!: set_update_subset_insert [THEN subsetD])

lemma put_result_used:
  assumes "insert_spot m k j" and "length (buckets m) = capacity m"
    and "hm_no_tombstone m" and "\<forall>i < capacity m. key_at m i \<noteq> Key k"
  shows "used (put_result m k v j) = Suc (used m)"
  using assms by (auto simp: put_result_def insert_spot_def entry_live_def hm_no_tombstone_def)

section \<open>Rehashing\<close>

definition fresh_table :: "nat \<Rightarrow> 'v hashmap" where
  "fresh_table cap = \<lparr>buckets = replicate cap empty_entry, capacity = cap, used = 0\<rparr>"

lemma fresh_table_ok:
  assumes "pow2_cap cap"
  shows "hm_ok (fresh_table cap :: 'v hashmap)" and "hm_no_tombstone (fresh_table cap :: 'v hashmap)"
    and "hm_map (fresh_table cap :: 'v hashmap) = Map.empty"
proof -
  have c: "16 \<le> cap" using pow2_cap_bounds [OF assms] by simp
  show ok: "hm_ok (fresh_table cap :: 'v hashmap)"
    using assms c
    by (auto simp: hm_ok_def hm_table_def hm_reach_def hm_unique_def fresh_table_def empty_entry_def)
  show "hm_no_tombstone (fresh_table cap :: 'v hashmap)"
    by (auto simp: hm_no_tombstone_def fresh_table_def empty_entry_def)
  have "hm_map (fresh_table cap :: 'v hashmap) k \<noteq> Some w" for k w
    using hm_map_iff [OF ok] by (auto simp: fresh_table_def empty_entry_def)
  then show "hm_map (fresh_table cap :: 'v hashmap) = Map.empty"
    by (intro ext) (metis option.exhaust)
qed

fun live_entries :: "'v hash_entry list \<Rightarrow> (bytes \<times> 'v option) list" where
  "live_entries [] = []"
| "live_entries (e # es) =
     (case he_key e of Key k \<Rightarrow> (k, he_val e) # live_entries es | _ \<Rightarrow> live_entries es)"

lemma length_live_entries: "length (live_entries es) = length (filter entry_live es)"
  by (induction es) (auto simp: entry_live_def split: slot_key.splits)

lemma set_live_entries:
  "(k, v) \<in> set (live_entries es) \<longleftrightarrow> (\<exists>e \<in> set es. he_key e = Key k \<and> he_val e = v)"
  by (induction es) (auto split: slot_key.splits)

lemma set_live_entries_nth:
  "(k, v) \<in> set (live_entries es) \<longleftrightarrow>
     (\<exists>j < length es. he_key (es ! j) = Key k \<and> he_val (es ! j) = v)"
  unfolding set_live_entries by (metis in_set_conv_nth)

lemma fst_live_entries: "k \<in> fst ` set (live_entries es) \<longleftrightarrow> (\<exists>e \<in> set es. he_key e = Key k)"
  by (induction es) (auto split: slot_key.splits)

lemma distinct_live_entries:
  assumes "\<forall>i < length es. \<forall>j < length es. \<forall>k.
    he_key (es ! i) = Key k \<longrightarrow> he_key (es ! j) = Key k \<longrightarrow> i = j"
  shows "distinct (map fst (live_entries es))"
  using assms
proof (induction es)
  case (Cons e es)
  have tl: "distinct (map fst (live_entries es))"
    using Cons.prems by (intro Cons.IH) (metis Suc_less_eq length_Cons nth_Cons_Suc nat.inject)
  have "k \<notin> fst ` set (live_entries es)" if "he_key e = Key k" for k
  proof
    assume "k \<in> fst ` set (live_entries es)"
    then obtain i where "i < length es" "he_key (es ! i) = Key k"
      by (auto simp: fst_live_entries in_set_conv_nth)
    then show False using Cons.prems that
      by (metis Suc_less_eq length_Cons nth_Cons_0 nth_Cons_Suc zero_less_Suc nat.distinct(1))
  qed
  with tl show ?case by (auto split: slot_key.splits)
qed simp

lemma map_of_live_entries:
  assumes "hm_ok m"
  shows "map_of (live_entries (buckets m)) = hm_map m"
proof (rule ext)
  fix k
  have u: "hm_unique m" and len: "length (buckets m) = capacity m"
    using assms by (auto simp: hm_ok_def dest: hm_table_len)
  have d: "distinct (map fst (live_entries (buckets m)))"
    using u len by (intro distinct_live_entries) (auto simp: hm_unique_def)
  have "map_of (live_entries (buckets m)) k = Some v \<longleftrightarrow> hm_map m k = Some v" for v
    using hm_map_iff [OF assms, of k v] len
    by (simp add: map_of_eq_Some_iff [OF d] set_live_entries_nth)
  then show "map_of (live_entries (buckets m)) k = hm_map m k" by (metis option.exhaust)
qed

lemma rehash_copy_ok:
  assumes "hm_ok m2" and "hm_no_tombstone m2"
    and "distinct (map fst (live_entries es))"
    and "\<forall>k \<in> fst ` set (live_entries es). hm_map m2 k = None"
    and "((used m2 + length (live_entries es)) * 100) div capacity m2 < high_watermark"
  shows "\<exists>m3. rehash_copy (put2_fuel (Suc n)) es m2 = Inr m3 \<and> hm_ok m3 \<and> hm_no_tombstone m3 \<and>
    capacity m3 = capacity m2 \<and> used m3 = used m2 + length (live_entries es) \<and>
    hm_map m3 = hm_map m2 ++ map_of (live_entries es)"
  using assms
proof (induction es arbitrary: m2)
  case Nil
  then show ?case by simp
next
  case (Cons e es)
  show ?case
  proof (cases "he_key e")
    case (Key k)
    let ?v = "he_val e"
    have le: "used m2 * 100 div capacity m2 < high_watermark"
      by (rule le_less_trans [OF div_le_mono Cons.prems(5)]) simp
    have abs: "hm_map m2 k = None" using Cons.prems(4) Key by simp
    have t: "hm_table m2" and len: "length (buckets m2) = capacity m2"
      using Cons.prems(1) by (auto simp: hm_ok_def dest: hm_table_len)
    obtain j where j: "insert_spot m2 k j"
      and put: "put2_fuel (Suc n) m2 k ?v = Inr (put_result m2 k ?v j)"
      using put2_room [OF Cons.prems(1) _ le] Cons.prems(2) by blast
    let ?m = "put_result m2 k ?v j"
    note room = load_below_room [OF t le]
    have nk: "\<forall>i < capacity m2. key_at m2 i \<noteq> Key k"
      using abs hm_map_None_iff [OF Cons.prems(1)] by simp
    have mp: "hm_map ?m = (hm_map m2)(k \<mapsto> ?v)" using put_result_map [OF Cons.prems(1) j room] .
    have u: "used ?m = Suc (used m2)" using put_result_used [OF j len Cons.prems(2) nk] .
    have kn: "k \<notin> fst ` set (live_entries es)" using Cons.prems(3) Key by auto
    have "\<exists>m3. rehash_copy (put2_fuel (Suc n)) es ?m = Inr m3 \<and> hm_ok m3 \<and> hm_no_tombstone m3 \<and>
      capacity m3 = capacity ?m \<and> used m3 = used ?m + length (live_entries es) \<and>
      hm_map m3 = hm_map ?m ++ map_of (live_entries es)"
    proof (rule Cons.IH)
      show "hm_ok ?m" using put_result_ok [OF Cons.prems(1) j room] .
      show "hm_no_tombstone ?m" using put_result_no_tombstone [OF Cons.prems(2)] .
      show "distinct (map fst (live_entries es))" using Cons.prems(3) Key by simp
      show "\<forall>k' \<in> fst ` set (live_entries es). hm_map ?m k' = None"
        using Cons.prems(4) Key kn by (auto simp: mp)
      show "(used ?m + length (live_entries es)) * 100 div capacity ?m < high_watermark"
        using Cons.prems(5) Key by (simp add: u)
    qed
    moreover have "hm_map ?m ++ map_of (live_entries es) =
        hm_map m2 ++ map_of (live_entries (e # es))"
    proof (rule ext)
      fix x
      have "map_of (live_entries es) k = None" using kn by (simp add: map_of_eq_None_iff)
      then show "(hm_map ?m ++ map_of (live_entries es)) x =
          (hm_map m2 ++ map_of (live_entries (e # es))) x"
        using Key by (cases "x = k") (simp_all add: mp map_add_def split: option.split)
    qed
    moreover have "length (live_entries (e # es)) = Suc (length (live_entries es))"
      using Key by simp
    moreover have "rehash_copy (put2_fuel (Suc n)) (e # es) m2 =
        rehash_copy (put2_fuel (Suc n)) es ?m"
      using Key put by simp
    ultimately show ?thesis using u by (simp del: live_entries.simps rehash_copy.simps)
  qed (use Cons in auto)
qed

lemma grow_cap_spec:
  assumes "pow2_cap cap" and "nkeys \<le> max_used"
  shows "pow2_cap (grow_cap nkeys cap) \<and> cap \<le> grow_cap nkeys cap \<and>
    (nkeys * 100) div grow_cap nkeys cap < low_watermark"
  using assms
proof (induction nkeys cap rule: grow_cap.induct)
  case (1 nkeys cap)
  show ?case
  proof (cases "low_watermark \<le> (nkeys * 100) div cap")
    case True
    have pos: "0 < cap" using pow2_cap_bounds [OF "1.prems"(1)] by simp
    have "low_watermark * cap \<le> nkeys * 100"
      using True by (metis div_times_less_eq_dividend le_trans mult_le_mono1)
    then have small: "cap \<le> 2 ^ 25" using "1.prems"(2) by (simp add: low_watermark_def max_used_def)
    from "1.prems"(1) obtain n where n: "4 \<le> n" "n \<le> 26" "cap = 2 ^ n" by (auto simp: pow2_cap_def)
    with small have "n \<le> 25" using power_increasing_iff [of "2::nat" n 25] by auto
    then have "pow2_cap (cap * 2)" using n unfolding pow2_cap_def
      by (intro exI [of _ "Suc n"]) simp
    then have "pow2_cap (grow_cap nkeys (cap * 2)) \<and> cap * 2 \<le> grow_cap nkeys (cap * 2) \<and>
        (nkeys * 100) div grow_cap nkeys (cap * 2) < low_watermark"
      using "1.IH" pos True "1.prems"(2) by blast
    moreover have "grow_cap nkeys cap = grow_cap nkeys (cap * 2)"
      using pos True by (simp add: grow_cap.simps [of nkeys cap])
    ultimately show ?thesis by simp
  next
    case False
    then show ?thesis using "1.prems"(1) by (simp add: grow_cap.simps [of nkeys cap])
  qed
qed

lemma live_le_used: "hm_table m \<Longrightarrow> length (filter entry_live (buckets m)) \<le> used m"
  by (auto simp: hm_table_def entry_live_def intro!: length_filter_mono)

lemma rehash_with_ok:
  assumes ok: "hm_ok m" and small: "used m \<le> max_used"
  shows "\<exists>m3. rehash_with (put2_fuel (Suc n)) m = Inr m3 \<and> hm_ok m3 \<and> hm_no_tombstone m3 \<and>
    hm_map m3 = hm_map m \<and> used m3 = length (filter entry_live (buckets m)) \<and>
    used m3 \<le> used m \<and> (used m3 * 100) div capacity m3 < low_watermark"
proof -
  let ?n = "length (filter entry_live (buckets m))"
  let ?cap = "grow_cap ?n (capacity m)"
  have t: "hm_table m" and u: "hm_unique m" and len: "length (buckets m) = capacity m"
    using ok by (auto simp: hm_ok_def dest: hm_table_len)
  have nle: "?n \<le> used m" using live_le_used [OF t] .
  then have cap: "pow2_cap ?cap" "(?n * 100) div ?cap < low_watermark"
    using grow_cap_spec [OF hm_table_cap [OF t], of ?n] small by simp_all
  have pos: "?cap \<noteq> 0" using pow2_cap_bounds [OF cap(1)] by simp
  have d: "distinct (map fst (live_entries (buckets m)))"
    using u len by (intro distinct_live_entries) (auto simp: hm_unique_def)
  note fr = fresh_table_ok [OF cap(1), where 'v = 'a]
  obtain m3 where m3: "rehash_copy (put2_fuel (Suc n)) (buckets m) (fresh_table ?cap) = Inr m3"
    "hm_ok m3" "hm_no_tombstone m3" "capacity m3 = ?cap" "used m3 = ?n"
    "hm_map m3 = map_of (live_entries (buckets m))"
    using rehash_copy_ok [OF fr(1,2) d, of n] fr(3) cap(2)
    by (auto simp: fresh_table_def length_live_entries low_watermark_def high_watermark_def)
  have "rehash_with (put2_fuel (Suc n)) m = Inr m3"
    using m3 pos by (simp add: rehash_with_def fresh_table_def Let_def)
  then show ?thesis using m3 map_of_live_entries [OF ok] nle cap(2) by auto
qed

section \<open>The operations on every table\<close>

lemma hm_unallocated_map: "hm_unallocated m \<Longrightarrow> hm_map m = Map.empty"
  by (auto simp: hm_unallocated_def hm_map_def get_entry_def)

lemma put2_alloc:
  assumes "hm_unallocated m"
  shows "put2_fuel (Suc n) m k v = put2_fuel (Suc n) (fresh_table init_size) k v"
proof -
  have "m\<lparr>buckets := replicate init_size empty_entry, capacity := init_size\<rparr> =
      fresh_table init_size"
    using assms by (simp add: hm_unallocated_def fresh_table_def)
  then show ?thesis
    using assms
    by (simp add: put2_fuel.simps(2) get_or_insert_entry_def hm_unallocated_def)
      (simp add: fresh_table_def init_size_def high_watermark_def)
qed

lemma pow2_cap_init: "pow2_cap init_size"
  unfolding pow2_cap_def init_size_def by (intro exI [of _ 4]) simp

lemma hm_ok_nonempty: "hm_ok m \<Longrightarrow> buckets m \<noteq> []"
  using hm_table_len [of m] hm_table_pos [of m] by (auto simp: hm_ok_def)

text \<open>Insertion as the callers see it, with any fuel of at least two levels.\<close>

lemma put2_spec:
  assumes inv: "hm_inv m" and small: "used m \<le> max_used"
    and clean: "hm_map m k = None \<or> hm_no_tombstone m"
  shows "\<exists>m'. put2_fuel (Suc (Suc n)) m k v = Inr m' \<and> hm_ok m' \<and>
    hm_map m' = (hm_map m)(k \<mapsto> v) \<and> used m' \<le> Suc (used m) \<and>
    (hm_no_tombstone m \<longrightarrow> hm_no_tombstone m')"
proof -
  have step: ?thesis if m1: "hm_ok m1" "(used m1 * 100) div capacity m1 < high_watermark"
      "hm_map m1 = hm_map m" "used m1 \<le> used m"
      "hm_no_tombstone m \<longrightarrow> hm_no_tombstone m1" "hm_map m1 k = None \<or> hm_no_tombstone m1"
      "put2_fuel (Suc (Suc n)) m k v = put2_fuel (Suc (Suc n)) m1 k v" for m1
  proof -
    obtain j where j: "insert_spot m1 k j"
      "put2_fuel (Suc (Suc n)) m1 k v = Inr (put_result m1 k v j)"
      using put2_room [OF m1(1,6,2)] by blast
    have room: "Suc (used m1) < capacity m1"
      using load_below_room m1(1,2) by (auto simp: hm_ok_def)
    have "used (put_result m1 k v j) \<le> Suc (used m1)" by (simp add: put_result_def)
    then show ?thesis
      using m1 j put_result_ok [OF m1(1) j(1) room] put_result_map [OF m1(1) j(1) room]
        put_result_no_tombstone [of m1 k v j] by auto
  qed
  consider (new) "hm_unallocated m" | (room) "hm_ok m" "(used m * 100) div capacity m < high_watermark"
    | (full) "hm_ok m" "high_watermark \<le> (used m * 100) div capacity m"
    using inv unfolding hm_inv_def by (metis not_le)
  then show ?thesis
  proof cases
    case new
    note fr = fresh_table_ok [OF pow2_cap_init, where 'v = 'a]
    show ?thesis
      by (rule step [OF fr(1)]) (use fr(2,3) new hm_unallocated_map [OF new] put2_alloc [OF new] in
        \<open>auto simp: fresh_table_def high_watermark_def\<close>)
  next
    case room
    then show ?thesis using clean by (intro step [of m]) auto
  next
    case full
    obtain m3 where m3: "rehash_with (put2_fuel (Suc n)) m = Inr m3" "hm_ok m3" "hm_no_tombstone m3"
      "hm_map m3 = hm_map m" "used m3 \<le> used m" "(used m3 * 100) div capacity m3 < low_watermark"
      using rehash_with_ok [OF full(1) small, of n] by blast
    have ne: "buckets m \<noteq> []" "buckets m3 \<noteq> []"
      using hm_ok_nonempty full(1) m3(2) by auto
    have load3: "(used m3 * 100) div capacity m3 < high_watermark"
      using m3(6) by (simp add: low_watermark_def high_watermark_def)
    have "put2_fuel (Suc (Suc n)) m k v = put2_fuel (Suc (Suc n)) m3 k v"
      using ne full(2) m3(1) load3 by (simp add: put2_fuel.simps(2) [of "Suc n"] get_or_insert_entry_def)
    then show ?thesis using m3 load3 by (intro step [of m3]) auto
  qed
qed

lemma hm_inv_ok: "hm_ok m \<Longrightarrow> hm_inv m"
  by (simp add: hm_inv_def)

lemma hashmap_put2_Inr:
  assumes "hm_inv m" and "used m \<le> max_used" and "hm_map m k = None \<or> hm_no_tombstone m"
  shows "\<exists>m'. hashmap_put2 m k v = Inr m' \<and> hm_ok m' \<and> hm_map m' = (hm_map m)(k \<mapsto> v) \<and>
    used m' \<le> Suc (used m) \<and> (hm_no_tombstone m \<longrightarrow> hm_no_tombstone m')"
  using put2_spec [OF assms, of 0 v] by (simp add: hashmap_put2_def numeral_2_eq_2)

lemma get_entry_total:
  assumes "hm_inv m"
  shows "(\<exists>j < capacity m. key_at m j = Key k \<and> get_entry m k = Inr (Some j)) \<or>
         hm_map m k = None \<and> get_entry m k = Inr None"
  using assms get_entry_spec [of m k]
  by (auto simp: hm_inv_def hm_ok_def hm_unallocated_def get_entry_def hm_map_def)

lemma delete2_spec:
  assumes inv: "hm_inv m"
  shows "\<exists>m'. hashmap_delete2 m k = Inr m' \<and> hm_inv m' \<and> hm_map m' = (hm_map m)(k := None) \<and>
    used m' = used m"
proof -
  from get_entry_total [OF inv, of k] show ?thesis
  proof
    assume "hm_map m k = None \<and> get_entry m k = Inr None"
    then show ?thesis using inv by (auto simp: hashmap_delete2_def fun_upd_idem)
  next
    assume "\<exists>j < capacity m. key_at m j = Key k \<and> get_entry m k = Inr (Some j)"
    then obtain j where j: "j < capacity m" "key_at m j = Key k" "get_entry m k = Inr (Some j)"
      by blast
    let ?m = "m\<lparr>buckets := (buckets m)[j := (buckets m ! j)\<lparr>he_key := Tombstone\<rparr>]\<rparr>"
    have ok: "hm_ok m" using inv j by (auto simp: hm_inv_def hm_unallocated_def)
    then have t: "hm_table m" and r: "hm_reach m" and u: "hm_unique m"
      and len: "length (buckets m) = capacity m" by (auto simp: hm_ok_def dest: hm_table_len)
    have key: "key_at ?m i = (if i = j then Tombstone else key_at m i)"
      and val: "he_val (buckets ?m ! i) = he_val (buckets m ! i)" if "i < capacity m" for i
      using that len j(1) by (auto simp: nth_list_update)
    have lt: "probe m k' i < capacity m" for k' i using linear.slot_less [OF hm_table_cap [OF t]] .
    have "length (filter (\<lambda>e. he_key e \<noteq> NullKey) (buckets ?m)) = used m"
      using t j len by (simp add: hm_table_def length_filter_update_same)
    then have "hm_table ?m" using t by (simp add: hm_table_def)
    moreover have "hm_reach ?m"
      unfolding hm_reach_def
    proof (intro allI impI)
      fix i k' assume "i < capacity ?m" and kk: "key_at ?m i = Key k'"
      then have i: "i < capacity m" by simp
      with kk key have "key_at m i = Key k'" by (metis slot_key.distinct(5))
      with r i obtain e where "e < capacity m" "probe m k' e = i"
        "\<forall>i' < e. key_at m (probe m k' i') \<noteq> NullKey" unfolding hm_reach_def by blast
      then show "\<exists>e < capacity ?m. probe ?m k' e = i \<and>
          (\<forall>i' < e. key_at ?m (probe ?m k' i') \<noteq> NullKey)"
        using key lt by (intro exI [of _ e]) auto
    qed
    moreover have "hm_unique ?m"
      unfolding hm_unique_def using u key unfolding hm_unique_def
      by (simp del: nth_list_update_eq)
    ultimately have ok': "hm_ok ?m" by (simp add: hm_ok_def)
    have "hm_map ?m k' = Some w \<longleftrightarrow> ((hm_map m)(k := None)) k' = Some w" for k' w
    proof (cases "k' = k")
      case True
      have "key_at ?m i \<noteq> Key k" if "i < capacity m" for i
        using key [OF that] u that j(1,2) unfolding hm_unique_def by auto
      then show ?thesis using True hm_map_iff [OF ok', of k w] by auto
    next
      case False
      have "(\<exists>i < capacity m. key_at ?m i = Key k' \<and> he_val (buckets ?m ! i) = w) \<longleftrightarrow>
          (\<exists>i < capacity m. key_at m i = Key k' \<and> he_val (buckets m ! i) = w)"
        using False j(2) key val by (metis slot_key.distinct(5) slot_key.inject)
      then show ?thesis using False hm_map_iff [OF ok', of k' w] hm_map_iff [OF ok, of k' w] by simp
    qed
    then have "hm_map ?m = (hm_map m)(k := None)" by (intro ext) (metis option.exhaust)
    then show ?thesis using j(3) ok' by (simp add: hashmap_delete2_def hm_inv_ok)
  qed
qed

section \<open>The table as a symbol table\<close>

text \<open>
  What the compiler's tables of names (keywords, macros, scopes, include guards) rely on: a
  table that is only inserted into behaves as a finite map, and every operation returns.
\<close>

locale symbol_table =
  fixes empty_tab :: 'm
    and put :: "'m \<Rightarrow> 'k \<Rightarrow> 'w \<Rightarrow> 'e + 'm"
    and get :: "'m \<Rightarrow> 'k \<Rightarrow> 'e + 'w option"
    and inv :: "'m \<Rightarrow> bool"
    and size_of :: "'m \<Rightarrow> nat"
    and limit :: nat
  assumes empty_inv: "inv empty_tab" and empty_get: "get empty_tab k = Inr None"
    and empty_size: "size_of empty_tab = 0"
    and put_ok: "inv m \<Longrightarrow> size_of m \<le> limit \<Longrightarrow>
      \<exists>m'. put m k w = Inr m' \<and> inv m' \<and> size_of m' \<le> Suc (size_of m) \<and>
        (\<forall>k'. get m' k' = (if k' = k then Inr (Some w) else get m k'))"
begin

lemma puts_get:
  assumes "inv m" and "size_of m + length kvs \<le> Suc limit"
  shows "\<exists>m'. foldl (\<lambda>r kv. bind_res r (\<lambda>m. put m (fst kv) (snd kv))) (Inr m) kvs = Inr m' \<and>
    inv m' \<and> size_of m' \<le> size_of m + length kvs \<and>
    (\<forall>k. get m' k = (case map_of (rev kvs) k of Some w \<Rightarrow> Inr (Some w) | None \<Rightarrow> get m k))"
  using assms
proof (induction kvs arbitrary: m)
  case (Cons kv kvs)
  obtain m1 where m1: "put m (fst kv) (snd kv) = Inr m1" "inv m1" "size_of m1 \<le> Suc (size_of m)"
    "\<forall>k'. get m1 k' = (if k' = fst kv then Inr (Some (snd kv)) else get m k')"
    using put_ok [OF Cons.prems(1), of "fst kv" "snd kv"] Cons.prems(2) by auto
  then obtain m' where "foldl (\<lambda>r kv. bind_res r (\<lambda>m. put m (fst kv) (snd kv))) (Inr m1) kvs = Inr m'"
    "inv m'" "size_of m' \<le> size_of m1 + length kvs"
    "\<forall>k. get m' k = (case map_of (rev kvs) k of Some w \<Rightarrow> Inr (Some w) | None \<Rightarrow> get m1 k)"
    using Cons.IH [of m1] Cons.prems(2) by auto
  then show ?case using m1 by (auto simp: map_add_def split: option.splits)
qed simp

lemma table_of_list:
  assumes "length kvs \<le> Suc limit"
  shows "\<exists>m'. foldl (\<lambda>r kv. bind_res r (\<lambda>m. put m (fst kv) (snd kv))) (Inr empty_tab) kvs = Inr m' \<and>
    inv m' \<and> (\<forall>k. get m' k = Inr (map_of (rev kvs) k))"
proof -
  have c: "(case x of Some w \<Rightarrow> Inr (Some w) | None \<Rightarrow> get empty_tab k) = Inr x"
    for x :: "'w option" and k
    by (cases x) (auto simp: empty_get)
  show ?thesis
    using puts_get [OF empty_inv, of kvs] assms by (auto simp: empty_size c)
qed

end

text \<open>Insert-only use of \<open>hashmap_put2\<close> with non-null values provides this contract.\<close>

definition hm_insert_only :: "'v hashmap \<Rightarrow> bool" where
  "hm_insert_only m \<longleftrightarrow> hm_inv m \<and> hm_no_tombstone m"

definition hashmap_put_val :: "'v hashmap \<Rightarrow> bytes \<Rightarrow> 'v \<Rightarrow> hm_error + 'v hashmap" where
  "hashmap_put_val m k v = hashmap_put2 m k (Some v)"

lemma get2_spec:
  assumes "hm_inv m"
  shows "hashmap_get2 m k = Inr (Option.bind (hm_map m k) (\<lambda>v. v))"
  using get_entry_total [OF assms, of k]
  by (auto simp: hashmap_get2_def hm_map_def)

interpretation names: symbol_table empty_hashmap hashmap_put_val hashmap_get2 hm_insert_only used
  max_used
proof
  show "hm_insert_only empty_hashmap"
    by (simp add: hm_insert_only_def hm_inv_def hm_unallocated_def empty_hashmap_def
        hm_no_tombstone_def)
  show "hashmap_get2 empty_hashmap k = Inr None" for k
    by (simp add: hashmap_get2_def get_entry_def empty_hashmap_def)
  show "used empty_hashmap = 0" by (simp add: empty_hashmap_def)
  fix m :: "'v hashmap" and k v
  assume "hm_insert_only m" and u: "used m \<le> max_used"
  then have i: "hm_inv m" "hm_no_tombstone m" by (auto simp: hm_insert_only_def)
  obtain m' where m': "hashmap_put2 m k (Some v) = Inr m'" "hm_ok m'"
    "hm_map m' = (hm_map m)(k \<mapsto> Some v)" "used m' \<le> Suc (used m)" "hm_no_tombstone m'"
    using hashmap_put2_Inr [OF i(1) u, of k "Some v"] i(2) by auto
  then show "\<exists>m'. hashmap_put_val m k v = Inr m' \<and> hm_insert_only m' \<and> used m' \<le> Suc (used m) \<and>
      (\<forall>k'. hashmap_get2 m' k' = (if k' = k then Inr (Some v) else hashmap_get2 m k'))"
    using i by (auto simp: hashmap_put_val_def hm_insert_only_def hm_inv_ok get2_spec)
qed

section \<open>Properties\<close>

text \<open>
  C8: inserting a key that is absent, or any key into a table without tombstones, where the table
  satisfies the invariant, returns (no probe loop runs off the table, no nested rehash, no failed
  assertion), keeps the invariant, and maps exactly the given key to the given value. The side
  condition is needed: a stored key behind a tombstone gets a second entry (see the
  property on redefining and deleting below).
\<close>

theorem hashmap_put2_correct:
  assumes "hm_inv m" and "used m \<le> max_used" and "hm_map m k = None \<or> hm_no_tombstone m"
  shows "\<exists>m'. hashmap_put2 m k v = Inr m' \<and> hm_inv m' \<and> hm_map m' = (hm_map m)(k \<mapsto> v) \<and>
    used m' \<le> Suc (used m) \<and> hashmap_get2 m' k = Inr v"
proof -
  obtain m' where m': "hashmap_put2 m k v = Inr m'" "hm_ok m'" "hm_map m' = (hm_map m)(k \<mapsto> v)"
    "used m' \<le> Suc (used m)" using hashmap_put2_Inr [OF assms, of v] by blast
  then show ?thesis using get2_spec [OF hm_inv_ok [OF m'(2)], of k] by (auto simp: hm_inv_ok)
qed

lemma empty_hashmap_inv: "hm_inv empty_hashmap" "hm_no_tombstone empty_hashmap"
  "used empty_hashmap = 0" "hm_map empty_hashmap = Map.empty"
  by (auto simp: hm_inv_def hm_unallocated_def empty_hashmap_def hm_no_tombstone_def hm_map_def
      get_entry_def)

theorem hashmap_put2_correct_witness:
  "\<exists>m'. hashmap_put2 (empty_hashmap :: nat hashmap) [97] (Some 7) = Inr m' \<and> hm_inv m' \<and>
     hm_map m' = Map.empty([97] \<mapsto> Some 7) \<and> used m' \<le> 1 \<and> hashmap_get2 m' [97] = Inr (Some 7)"
  using hashmap_put2_correct [of "empty_hashmap :: nat hashmap" "[97]" "Some 7"]
  by (simp add: empty_hashmap_inv)

text \<open>
  C9: deleting a key from a table that satisfies the invariant returns, keeps the invariant, removes
  exactly that key from the map and leaves the number of used buckets unchanged.
\<close>

theorem hashmap_delete2_correct:
  assumes "hm_inv m"
  shows "\<exists>m'. hashmap_delete2 m k = Inr m' \<and> hm_inv m' \<and> hm_map m' = (hm_map m)(k := None) \<and>
    used m' = used m"
  using delete2_spec [OF assms] .

definition demo_table :: "nat hashmap" where
  "demo_table = (case hashmap_put2 empty_hashmap [97] (Some 7) of Inr m \<Rightarrow> m | Inl e \<Rightarrow> empty_hashmap)"

lemma demo_table_inv: "hm_inv demo_table" "hm_map demo_table = Map.empty([97] \<mapsto> Some 7)"
  "used demo_table \<le> 1" "hm_ok demo_table"
  using hashmap_put2_Inr [of "empty_hashmap :: nat hashmap" "[97]" "Some 7"]
  by (auto simp: demo_table_def empty_hashmap_inv hm_inv_ok)

theorem hashmap_delete2_correct_witness:
  "\<exists>m'. hashmap_delete2 demo_table [97] = Inr m' \<and> hm_inv m' \<and> hm_map m' = Map.empty \<and>
     used m' = used demo_table"
  using hashmap_delete2_correct [OF demo_table_inv(1), of "[97]"] demo_table_inv(2) by simp

text \<open>
  C10: a rehash of a table that satisfies the invariant succeeds, keeps the map, drops every
  tombstone, counts exactly the live entries (so its assertion holds), and leaves a load below the
  low watermark.
\<close>

theorem rehash_correct:
  assumes "hm_ok m" and "used m \<le> max_used"
  shows "\<exists>m'. rehash m = Inr m' \<and> hm_ok m' \<and> hm_no_tombstone m' \<and> hm_map m' = hm_map m \<and>
    used m' = length (filter entry_live (buckets m)) \<and>
    (used m' * 100) div capacity m' < low_watermark"
  using rehash_with_ok [OF assms, of 1] by (auto simp: rehash_def hashmap_put2_def numeral_2_eq_2)

theorem rehash_correct_witness:
  "\<exists>m'. rehash demo_table = Inr m' \<and> hm_ok m' \<and> hm_no_tombstone m' \<and>
     hm_map m' = Map.empty([97] \<mapsto> Some 7) \<and>
     used m' = length (filter entry_live (buckets demo_table)) \<and>
     (used m' * 100) div capacity m' < low_watermark"
  using rehash_correct [of demo_table] demo_table_inv by (simp add: max_used_def)

definition stale_scenario :: "hm_error + nat option" where
  "stale_scenario =
     bind_res (hashmap_put2 empty_hashmap [97] (Some 1)) (\<lambda>m1.
     bind_res (hashmap_put2 m1 [113] (Some 2)) (\<lambda>m2.
     bind_res (hashmap_delete2 m2 [97]) (\<lambda>m3.
     bind_res (hashmap_put2 m3 [113] (Some 3)) (\<lambda>m4.
     bind_res (hashmap_delete2 m4 [113]) (\<lambda>m5. hashmap_get2 m5 [113])))))"

lemma fnv_hash_a_q:
  "fnv_hash [97] = 12638153115695167422" "fnv_hash [113] = 12638153115695167406"
  by (simp_all add: fnv_hash_def)

text \<open>The tables of the scenario: everything happens in the last two of the 16 buckets.\<close>

definition two_slots :: "nat hash_entry \<Rightarrow> nat hash_entry \<Rightarrow> nat \<Rightarrow> nat hashmap" where
  "two_slots a b u = \<lparr>buckets = replicate 14 empty_entry @ [a, b], capacity = 16, used = u\<rparr>"

lemma two_slots_sel [simp]:
  "buckets (two_slots a b u) \<noteq> []" "capacity (two_slots a b u) = 16" "used (two_slots a b u) = u"
  "buckets (two_slots a b u) ! 14 = a" "buckets (two_slots a b u) ! 15 = b"
  "two_slots a b u\<lparr>buckets := (buckets (two_slots a b u))[14 := c]\<rparr> = two_slots c b u"
  "two_slots a b u\<lparr>buckets := (buckets (two_slots a b u))[15 := c]\<rparr> = two_slots a c u"
  "two_slots a b u\<lparr>used := w\<rparr> = two_slots a b w"
  by (simp_all add: two_slots_def nth_append list_update_append)

lemma two_slots_alloc:
  "empty_hashmap\<lparr>buckets := replicate init_size empty_entry, capacity := init_size\<rparr> =
     two_slots empty_entry empty_entry 0"
  by (simp add: two_slots_def empty_hashmap_def init_size_def replicate_app_Cons_same
      numeral_eq_Suc)

lemma probe_a_q [simp]:
  "bucket_index 16 (fnv_hash [97]) 0 = 14" "bucket_index 16 (fnv_hash [113]) 0 = 14"
  "bucket_index 16 (fnv_hash [113]) (Suc 0) = 15"
  by (simp_all add: bucket_index_def fnv_hash_a_q)

lemma entry_upd [simp]:
  "empty_entry\<lparr>he_key := a, he_val := b\<rparr> = \<lparr>he_key = a, he_val = b\<rparr>"
  "he_key empty_entry = NullKey"
  by (simp_all add: empty_entry_def)

lemma hashmap_put2_Suc: "hashmap_put2 = put2_fuel (Suc (Suc 0))"
  by (simp add: hashmap_put2_def numeral_2_eq_2)

lemmas hashmap_eval = hashmap_put2_Suc put2_fuel.simps(2) get_or_insert_entry_def
  high_watermark_def hm_match_def put_at_def Let_def

lemma stale_step1:
  "hashmap_put2 empty_hashmap [97] (Some 1) =
     Inr (two_slots \<lparr>he_key = Key [97], he_val = Some 1\<rparr> empty_entry 1)"
  by (simp add: hashmap_eval two_slots_alloc insert_loop.simps [of _ "fnv_hash [97]" _ 0])
    (simp add: empty_hashmap_def)


lemma stale_step2:
  "hashmap_put2 (two_slots \<lparr>he_key = Key [97], he_val = Some 1\<rparr> empty_entry 1) [113] (Some 2) =
     Inr (two_slots \<lparr>he_key = Key [97], he_val = Some 1\<rparr> \<lparr>he_key = Key [113], he_val = Some 2\<rparr> (Suc 1))"
  by (simp add: hashmap_eval insert_loop.simps [of _ "fnv_hash [113]" _ 0]
      insert_loop.simps [of _ "fnv_hash [113]" _ "Suc 0"])

lemma stale_step3:
  "hashmap_delete2 (two_slots \<lparr>he_key = Key [97], he_val = v\<rparr> b u) [97] =
     Inr (two_slots \<lparr>he_key = Tombstone, he_val = v\<rparr> b u)"
  by (simp add: hashmap_delete2_def get_entry_def get_loop.simps [of _ _ "fnv_hash [97]" _ 0]
      hm_match_def Let_def)

text \<open>What a redefinition does to a table with room: it takes the first tombstone on the probe path
  of the key, if there is one before the entry of the key.\<close>

definition tombstone_before :: "'v hashmap \<Rightarrow> bytes \<Rightarrow> nat \<Rightarrow> bool" where
  "tombstone_before m k d \<longleftrightarrow> (\<exists>i < d. key_at m (probe m k i) = Tombstone)"

lemma mod_add_inj:
  assumes eq: "(h + x) mod c = (h + y) mod (c::nat)" and x: "x < c" and y: "y < c"
  shows "x = y"
proof -
  have less: "a = b" if "a \<le> b" "b < c" "(h + a) mod c = (h + b) mod c" for a b
  proof -
    have "c dvd b - a" using that(1,3) mod_eq_dvd_iff_nat [of "h + a" "h + b" c] by simp
    then show ?thesis using that(1,2) nat_dvd_not_less [of "b - a" c] by (cases "a = b") auto
  qed
  show ?thesis using less [of x y] less [of y x] eq x y by (metis nat_le_linear)
qed

lemma hm_path_to_key:
  assumes ok: "hm_ok m" and d: "d < capacity m" and k: "key_at m (probe m k d) = Key k"
    and i: "i < d"
  shows "key_at m (probe m k i) \<noteq> NullKey" and "key_at m (probe m k i) \<noteq> Key k"
proof -
  have t: "hm_table m" and r: "hm_reach m" and u: "hm_unique m" using ok by (auto simp: hm_ok_def)
  have cap: "pow2_cap (capacity m)" using hm_table_cap [OF t] .
  have lt: "probe m k x < capacity m" for x using linear.slot_less [OF cap] .
  have inj: "x = y" if xy: "probe m k x = probe m k y" "x < capacity m" "y < capacity m" for x y
    using mod_add_inj [of "unat (fnv_hash k)" x "capacity m" y] xy by (simp only: bucket_index_eq [OF cap])
  obtain e where e: "e < capacity m" "probe m k e = probe m k d"
    "\<forall>i' < e. key_at m (probe m k i') \<noteq> NullKey"
    using r lt k unfolding hm_reach_def by blast
  then have "e = d" using inj d by blast
  then show "key_at m (probe m k i) \<noteq> NullKey" using e(3) i by blast
  show "key_at m (probe m k i) \<noteq> Key k"
  proof
    assume "key_at m (probe m k i) = Key k"
    then have "probe m k i = probe m k d" using u lt k unfolding hm_unique_def by blast
    then show False using inj [of i d] d i by simp
  qed
qed

lemma put2_at_stop:
  assumes ok: "hm_ok m" and load: "(used m * 100) div capacity m < high_watermark"
    and e: "e < capacity m" "insert_stop m k (probe m k e)" "\<forall>i < e. \<not> insert_stop m k (probe m k i)"
    and nn: "key_at m (probe m k e) \<noteq> NullKey"
  shows "hashmap_put2 m k v =
    Inr (m\<lparr>buckets := (buckets m)[probe m k e := \<lparr>he_key = Key k, he_val = v\<rparr>]\<rparr>)"
proof -
  have lt: "probe m k e < length (buckets m)"
    using ok linear.slot_less [OF hm_table_cap] by (auto simp: hm_ok_def hm_table_len)
  have "insert_loop m (fnv_hash k) k 0 = Inr (insert_at m k (probe m k e), probe m k e)"
    using insert_loop_hit [of 0 e m k "fnv_hash k"] e by simp
  then have "hashmap_put2 m k v = Inr (put_at (insert_at m k (probe m k e), probe m k e) v)"
    using hm_ok_nonempty [OF ok] load
    by (simp add: hashmap_put2_def numeral_2_eq_2 put2_fuel.simps(2) get_or_insert_entry_def)
  then show ?thesis
    using e(2) nn lt
    by (auto simp: put_at_def insert_at_def insert_stop_def entry_live_def entry_update_both
        entry_update_val split: slot_key.splits)
qed

lemma get_entry_hit:
  assumes "e < capacity m" and "buckets m \<noteq> []" and "key_at m (probe m k e) = Key k"
    and "\<forall>i < e. key_at m (probe m k i) \<noteq> Key k \<and> key_at m (probe m k i) \<noteq> NullKey"
  shows "get_entry m k = Inr (Some (probe m k e))"
  using assms get_loop_hit [of 0 e "capacity m" "buckets m" "fnv_hash k" k]
  by (auto simp: get_entry_def hm_match_def)

text \<open>
  C24: redefining a key of a table that has room and then deleting it. After the redefinition a lookup
  gives the new value. The deletion makes the key disappear exactly when no tombstone lay before the entry of the
  key on its probe path; otherwise the redefinition has made a second entry of the key in the
  first of those tombstones, the deletion removes only that one, and a lookup finds the value the
  key had before the redefinition.
\<close>

theorem hashmap_redefine_then_delete:
  assumes ok: "hm_ok m" and load: "(used m * 100) div capacity m < high_watermark"
    and d: "d < capacity m" and kd: "key_at m (probe m k d) = Key k"
  shows "\<exists>m1 m2. hashmap_put2 m k v = Inr m1 \<and> hashmap_get2 m1 k = Inr v \<and>
    hashmap_delete2 m1 k = Inr m2 \<and>
    hashmap_get2 m2 k = Inr (if tombstone_before m k d then he_val (buckets m ! probe m k d) else None)"
proof -
  note cap = hm_table_cap [of m]
  have t: "hm_table m" and len: "length (buckets m) = capacity m" using ok by (auto simp: hm_ok_def hm_table_len)
  have lt: "probe m k i < capacity m" for i using linear.slot_less [OF cap [OF t]] .
  have ne: "buckets m \<noteq> []" using hm_ok_nonempty [OF ok] .
  have before: "key_at m (probe m k i) \<noteq> NullKey" "key_at m (probe m k i) \<noteq> Key k" if "i < d" for i
    using hm_path_to_key [OF ok d kd that] by auto
  have stop: "insert_stop m k (probe m k d)" using kd by (simp add: insert_stop_def)
  from least_index [where P = "\<lambda>i. insert_stop m k (probe m k i)", OF d stop] obtain e where
    e: "e < capacity m" "insert_stop m k (probe m k e)" "\<forall>i < e. \<not> insert_stop m k (probe m k i)"
    by blast
  have ed: "e \<le> d" using e(3) stop by (metis not_less)
  have tb: "tombstone_before m k d \<longleftrightarrow> e < d"
  proof
    assume "tombstone_before m k d"
    then obtain i where i: "i < d" "insert_stop m k (probe m k i)"
      by (auto simp: tombstone_before_def insert_stop_def entry_live_def)
    then show "e < d" using e(3) by (metis le_less_trans not_less)
  next
    assume "e < d"
    then have "key_at m (probe m k e) = Tombstone"
      using e(2) before [of e] by (auto simp: insert_stop_def entry_live_def split: slot_key.splits)
    then show "tombstone_before m k d" using \<open>e < d\<close> by (auto simp: tombstone_before_def)
  qed
  have nn: "key_at m (probe m k e) \<noteq> NullKey"
    using before(1) [of e] ed kd by (cases "e = d") auto
  let ?b = "probe m k e"
  let ?m1 = "m\<lparr>buckets := (buckets m)[?b := \<lparr>he_key = Key k, he_val = v\<rparr>]\<rparr>"
  let ?m2 = "m\<lparr>buckets := (buckets m)[?b := \<lparr>he_key = Tombstone, he_val = v\<rparr>]\<rparr>"
  have put: "hashmap_put2 m k v = Inr ?m1" using put2_at_stop [OF ok load e nn] .
  have g1: "get_entry ?m1 k = Inr (Some ?b)"
  proof -
    have nb: "?b \<noteq> probe m k i" if "i < e" for i using e(2,3) that by metis
    have "\<forall>i < e. key_at ?m1 (probe ?m1 k i) \<noteq> Key k \<and> key_at ?m1 (probe ?m1 k i) \<noteq> NullKey"
      using nb before ed by (simp add: nth_list_update)
    then show ?thesis
      using get_entry_hit [of e ?m1 k] e(1) ne lt [of e] len by simp
  qed
  have del: "hashmap_delete2 ?m1 k = Inr ?m2"
    using g1 lt [of e] len by (simp add: hashmap_delete2_def)
  have get2: "hashmap_get2 ?m2 k = Inr (if e < d then he_val (buckets m ! probe m k d) else None)"
  proof (cases "e < d")
    case True
    then have bd: "?b \<noteq> probe m k d" using before(2) [of e] kd by auto
    have "get_entry ?m2 k = Inr (Some (probe m k d))"
      using get_entry_hit [of d ?m2 k] d ne lt len before kd bd
      by (auto simp: nth_list_update)
    then show ?thesis using True bd by (simp add: hashmap_get2_def)
  next
    case False
    then have "e = d" using ed by simp
    then have "insert_spot m k ?b"
      using d kd before(1) lt by (auto simp: insert_spot_def)
    moreover have "put_result m k v ?b = ?m1" using nn by (simp add: put_result_def)
    ultimately have "hm_ok ?m1"
      using put_result_ok [OF ok _ load_below_room [OF t load]] by metis
    then obtain m' where m': "hashmap_delete2 ?m1 k = Inr m'" "hm_inv m'" "hm_map m' k = None"
      using delete2_spec [of ?m1 k] by (auto simp: hm_inv_ok)
    then show ?thesis using False del get2_spec [OF m'(2), of k] by simp
  qed
  show ?thesis
    using put get2 g1 del tb lt [of e] len by (auto simp: hashmap_get2_def)
qed

theorem hashmap_redefine_then_delete_witness: "stale_scenario = Inr (Some 2)"
proof -
  let ?m = "two_slots \<lparr>he_key = Tombstone, he_val = Some 1\<rparr> \<lparr>he_key = Key [113], he_val = Some 2\<rparr> (Suc 1) :: nat hashmap"
  have i1: "hm_ok (two_slots \<lparr>he_key = Key [97], he_val = Some (1::nat)\<rparr> empty_entry 1)"
      "hm_map (two_slots \<lparr>he_key = Key [97], he_val = Some (1::nat)\<rparr> empty_entry 1) = Map.empty([97] \<mapsto> Some 1)"
    using hashmap_put2_Inr [of "empty_hashmap :: nat hashmap" "[97]" "Some 1"] stale_step1
    by (auto simp: empty_hashmap_inv)
  have i2: "hm_ok (two_slots \<lparr>he_key = Key [97], he_val = Some 1\<rparr> \<lparr>he_key = Key [113], he_val = Some (2::nat)\<rparr> (Suc 1))"
    using hashmap_put2_Inr [OF hm_inv_ok [OF i1(1)], of "[113]" "Some 2"] i1(2) stale_step2
    by (auto simp: max_used_def)
  have i3: "hm_ok ?m"
    using delete2_spec [OF hm_inv_ok [OF i2], of "[97]"] stale_step3 [of "Some (1::nat)"]
    by (auto simp: hm_inv_def hm_unallocated_def)
  have "tombstone_before ?m [113] (Suc 0)" by (simp add: tombstone_before_def)
  then obtain m4 m5 where "hashmap_put2 ?m [113] (Some 3) = Inr m4" "hashmap_delete2 m4 [113] = Inr m5"
      "hashmap_get2 m5 [113] = Inr (Some 2)"
    using hashmap_redefine_then_delete [OF i3, of "Suc 0" "[113]" "Some 3"]
    by (auto simp: high_watermark_def)
  then show ?thesis
    by (simp only: stale_scenario_def stale_step1 stale_step2 stale_step3 bind_res.simps)
qed

text \<open>
  a list of definitions inserted into an empty table is looked up as the finite map of the list,
  later definitions of a key replacing earlier ones.
\<close>

theorem hashmap_of_list:
  assumes "length kvs \<le> Suc max_used"
  shows "\<exists>m. foldl (\<lambda>r kv. bind_res r (\<lambda>m. hashmap_put_val m (fst kv) (snd kv)))
      (Inr empty_hashmap) kvs = Inr m \<and>
    (\<forall>k. hashmap_get2 m k = Inr (map_of (rev kvs) k))"
  using names.table_of_list [OF assms] by blast

theorem hashmap_of_list_witness:
  "\<exists>m. foldl (\<lambda>r kv. bind_res r (\<lambda>m. hashmap_put_val m (fst kv) (snd kv)))
      (Inr empty_hashmap) [([97], 1), ([113], 2), ([97], 3::nat)] = Inr m \<and>
    hashmap_get2 m [97] = Inr (Some 3) \<and> hashmap_get2 m [98] = Inr None"
  using hashmap_of_list [of "[([97], 1), ([113], 2), ([97], 3::nat)]"]
  by (auto simp: max_used_def)

end
