(* ===== verification/C_Types.thy ===== *)
theory C_Types
  imports C68k_Prelude
begin

text \<open>
  The C types of the compiler (\<open>src/type.c\<close>, \<open>struct Type\<close> of \<open>src/chibicc.h\<close>): the big-endian
  ILP32 basic types of the 68000, the derived types, type compatibility and the usual arithmetic
  conversions. A \<open>Type *\<close> is a value that carries the address of its object (\<open>ty_id\<close>), because
  \<open>is_compatible\<close> compares addresses first; an allocation takes the address of the new object.
  The \<open>next\<close> chain of parameter types is a list. Struct members are not part of the model.
\<close>

section \<open>Data\<close>

datatype ty_kind =
  TY_VOID | TY_BOOL | TY_CHAR | TY_SHORT | TY_INT | TY_LONG | TY_FLOAT | TY_DOUBLE | TY_LDOUBLE
| TY_ENUM | TY_PTR | TY_FUNC | TY_ARRAY | TY_VLA | TY_STRUCT | TY_UNION

text \<open>The enumeration order of \<open>TypeKind\<close>: the code compares kinds with \<open><=\<close>.\<close>

primrec ty_kind_num :: "ty_kind \<Rightarrow> nat" where
  "ty_kind_num TY_VOID = 0" | "ty_kind_num TY_BOOL = 1" | "ty_kind_num TY_CHAR = 2"
| "ty_kind_num TY_SHORT = 3" | "ty_kind_num TY_INT = 4" | "ty_kind_num TY_LONG = 5"
| "ty_kind_num TY_FLOAT = 6" | "ty_kind_num TY_DOUBLE = 7" | "ty_kind_num TY_LDOUBLE = 8"
| "ty_kind_num TY_ENUM = 9" | "ty_kind_num TY_PTR = 10" | "ty_kind_num TY_FUNC = 11"
| "ty_kind_num TY_ARRAY = 12" | "ty_kind_num TY_VLA = 13" | "ty_kind_num TY_STRUCT = 14"
| "ty_kind_num TY_UNION = 15"

lemma ty_kind_num_inject: "ty_kind_num a = ty_kind_num b \<longleftrightarrow> a = b"
  by (cases a; cases b) simp_all

instantiation ty_kind :: linorder
begin

definition less_eq_ty_kind :: "ty_kind \<Rightarrow> ty_kind \<Rightarrow> bool" where
  "less_eq_ty_kind a b \<longleftrightarrow> ty_kind_num a \<le> ty_kind_num b"

definition less_ty_kind :: "ty_kind \<Rightarrow> ty_kind \<Rightarrow> bool" where
  "less_ty_kind a b \<longleftrightarrow> ty_kind_num a < ty_kind_num b"

instance
  by standard (auto simp: less_eq_ty_kind_def less_ty_kind_def ty_kind_num_inject)

end

datatype ctype = CType
  (ty_id: nat) (ty_kind: ty_kind) (ty_size: int) (ty_align: int) (ty_unsigned: bool)
  (ty_origin: "ctype option") (ty_base: "ctype option") (ty_array_len: int)
  (ty_return: "ctype option") (ty_params: "ctype list") (ty_variadic: bool)

definition new_type :: "nat \<Rightarrow> ty_kind \<Rightarrow> int \<Rightarrow> int \<Rightarrow> ctype" where
  "new_type i kind sz al = CType i kind sz al False None None 0 None [] False"

definition basic_type :: "nat \<Rightarrow> ty_kind \<Rightarrow> int \<Rightarrow> int \<Rightarrow> bool \<Rightarrow> ctype" where
  "basic_type i kind sz al uns = CType i kind sz al uns None None 0 None [] False"

text \<open>The static type objects; their addresses are 1 to 15.\<close>

definition ty_void :: ctype where "ty_void = basic_type 1 TY_VOID 1 1 False"
definition ty_bool :: ctype where "ty_bool = basic_type 2 TY_BOOL 1 1 False"
definition ty_char :: ctype where "ty_char = basic_type 3 TY_CHAR 1 1 False"
definition ty_short :: ctype where "ty_short = basic_type 4 TY_SHORT 2 2 False"
definition ty_int :: ctype where "ty_int = basic_type 5 TY_INT 4 2 False"
definition ty_long :: ctype where "ty_long = basic_type 6 TY_LONG 4 2 False"
definition ty_llong :: ctype where "ty_llong = basic_type 7 TY_LONG 8 2 False"
definition ty_uchar :: ctype where "ty_uchar = basic_type 8 TY_CHAR 1 1 True"
definition ty_ushort :: ctype where "ty_ushort = basic_type 9 TY_SHORT 2 2 True"
definition ty_uint :: ctype where "ty_uint = basic_type 10 TY_INT 4 2 True"
definition ty_ulong :: ctype where "ty_ulong = basic_type 11 TY_LONG 4 2 True"
definition ty_ullong :: ctype where "ty_ullong = basic_type 12 TY_LONG 8 2 True"
definition ty_float :: ctype where "ty_float = basic_type 13 TY_FLOAT 4 2 False"
definition ty_double :: ctype where "ty_double = basic_type 14 TY_DOUBLE 8 2 False"
definition ty_ldouble :: ctype where "ty_ldouble = basic_type 15 TY_LDOUBLE 8 2 False"

lemmas basic_types = ty_void_def ty_bool_def ty_char_def ty_short_def ty_int_def ty_long_def
  ty_llong_def ty_uchar_def ty_ushort_def ty_uint_def ty_ulong_def ty_ullong_def ty_float_def
  ty_double_def ty_ldouble_def basic_type_def

section \<open>Operations\<close>

definition is_integer :: "ctype \<Rightarrow> bool" where
  "is_integer ty \<longleftrightarrow> (let k = ty_kind ty in
     k = TY_BOOL \<or> k = TY_CHAR \<or> k = TY_SHORT \<or> k = TY_INT \<or> k = TY_LONG \<or> k = TY_ENUM)"

definition is_flonum :: "ctype \<Rightarrow> bool" where
  "is_flonum ty \<longleftrightarrow> ty_kind ty = TY_FLOAT \<or> ty_kind ty = TY_DOUBLE \<or> ty_kind ty = TY_LDOUBLE"

definition is_numeric :: "ctype \<Rightarrow> bool" where
  "is_numeric ty \<longleftrightarrow> is_integer ty \<or> is_flonum ty"

definition copy_type :: "nat \<Rightarrow> ctype \<Rightarrow> ctype" where
  "copy_type i ty = CType i (ty_kind ty) (ty_size ty) (ty_align ty) (ty_unsigned ty) (Some ty)
     (ty_base ty) (ty_array_len ty) (ty_return ty) (ty_params ty) (ty_variadic ty)"

definition pointer_to :: "nat \<Rightarrow> ctype \<Rightarrow> ctype" where
  "pointer_to i base = CType i TY_PTR 4 2 True None (Some base) 0 None [] False"

definition func_type :: "nat \<Rightarrow> ctype \<Rightarrow> ctype" where
  "func_type i return_ty = CType i TY_FUNC 1 1 False None None 0 (Some return_ty) [] False"

definition array_of :: "nat \<Rightarrow> ctype \<Rightarrow> int \<Rightarrow> ctype" where
  "array_of i base len =
     CType i TY_ARRAY (ty_size base * len) (ty_align base) False None (Some base) len None [] False"

definition vla_of :: "nat \<Rightarrow> ctype \<Rightarrow> ctype" where
  "vla_of i base = CType i TY_VLA 4 2 False None (Some base) 0 None [] False"

definition enum_type :: "nat \<Rightarrow> ctype" where
  "enum_type i = new_type i TY_ENUM 4 2"

definition struct_type :: "nat \<Rightarrow> ctype" where
  "struct_type i = new_type i TY_STRUCT 0 1"

lemma ctype_size_simps [simp]:
  "ty_origin t = Some o' \<Longrightarrow> size o' < size t"
  "ty_base t = Some b \<Longrightarrow> size b < size t"
  "ty_return t = Some r \<Longrightarrow> size r < size t"
  "size_list size (ty_params t) < size t"
  by (cases t; simp)+

text \<open>
  \<open>None\<close> is the dereference of a null \<open>base\<close> or \<open>return_ty\<close>, which types made by the
  constructors above never reach (\<open>is_compatible_total\<close>).
\<close>

function is_compatible :: "ctype \<Rightarrow> ctype \<Rightarrow> bool option"
  and compatible_params :: "ctype list \<Rightarrow> ctype list \<Rightarrow> bool option" where
  "is_compatible t1 t2 =
     (if ty_id t1 = ty_id t2 then Some True
      else case ty_origin t1 of
        Some o1 \<Rightarrow> is_compatible o1 t2
      | None \<Rightarrow>
        (case ty_origin t2 of
           Some o2 \<Rightarrow> is_compatible t1 o2
         | None \<Rightarrow>
           if ty_kind t1 \<noteq> ty_kind t2 then Some False
           else if ty_kind t1 \<in> {TY_CHAR, TY_SHORT, TY_INT, TY_LONG} then
             Some (ty_unsigned t1 = ty_unsigned t2)
           else if ty_kind t1 \<in> {TY_FLOAT, TY_DOUBLE, TY_LDOUBLE} then Some True
           else if ty_kind t1 = TY_PTR then
             (case (ty_base t1, ty_base t2) of
                (Some b1, Some b2) \<Rightarrow> is_compatible b1 b2 | _ \<Rightarrow> None)
           else if ty_kind t1 = TY_FUNC then
             (case (ty_return t1, ty_return t2) of
                (Some r1, Some r2) \<Rightarrow>
                  (case is_compatible r1 r2 of
                     None \<Rightarrow> None
                   | Some False \<Rightarrow> Some False
                   | Some True \<Rightarrow>
                       if ty_variadic t1 \<noteq> ty_variadic t2 then Some False
                       else compatible_params (ty_params t1) (ty_params t2))
              | _ \<Rightarrow> None)
           else if ty_kind t1 = TY_ARRAY then
             (case (ty_base t1, ty_base t2) of
                (Some b1, Some b2) \<Rightarrow>
                  (case is_compatible b1 b2 of
                     None \<Rightarrow> None
                   | Some False \<Rightarrow> Some False
                   | Some True \<Rightarrow>
                       Some (ty_array_len t1 < 0 \<and> ty_array_len t2 < 0 \<and>
                             ty_array_len t1 = ty_array_len t2))
              | _ \<Rightarrow> None)
           else Some False))"
| "compatible_params [] ps = Some (ps = [])"
| "compatible_params (p # ps) [] = Some False"
| "compatible_params (p # ps) (q # qs) =
     (case is_compatible p q of
        None \<Rightarrow> None
      | Some False \<Rightarrow> Some False
      | Some True \<Rightarrow> compatible_params ps qs)"
  by pat_completeness auto
termination
  by (relation "measure (case_sum (\<lambda>(t1, t2). size t1 + size t2)
        (\<lambda>(ps, qs). size_list size ps + size_list size qs))")
    (auto intro: add_strict_mono add_less_le_mono)

declare is_compatible.simps [simp del]

definition get_common_type :: "nat \<Rightarrow> ctype \<Rightarrow> ctype \<Rightarrow> ctype" where
  "get_common_type i ty1 ty2 =
     (case ty_base ty1 of
        Some b \<Rightarrow> pointer_to i b
      | None \<Rightarrow>
        if ty_kind ty1 = TY_FUNC then pointer_to i ty1
        else if ty_kind ty2 = TY_FUNC then pointer_to i ty2
        else if ty_kind ty1 = TY_LDOUBLE \<or> ty_kind ty2 = TY_LDOUBLE then ty_ldouble
        else if ty_kind ty1 = TY_DOUBLE \<or> ty_kind ty2 = TY_DOUBLE then ty_double
        else if ty_kind ty1 = TY_FLOAT \<or> ty_kind ty2 = TY_FLOAT then ty_float
        else
          let ty1 = (if ty_size ty1 < 4 then ty_int else ty1);
              ty2 = (if ty_size ty2 < 4 then ty_int else ty2)
          in if ty_size ty1 \<noteq> ty_size ty2 then (if ty_size ty1 < ty_size ty2 then ty2 else ty1)
             else if ty_unsigned ty2 then ty2 else ty1)"

section \<open>Properties\<close>

text \<open>The type at the end of a chain of copies.\<close>

function origin_root :: "ctype \<Rightarrow> ctype" where
  "origin_root t = (case ty_origin t of None \<Rightarrow> t | Some u \<Rightarrow> origin_root u)"
  by pat_completeness auto
termination
  by (relation "measure size") auto

declare origin_root.simps [simp del]

lemma origin_root_stop: "ty_origin (origin_root t) = None"
  by (induction t rule: origin_root.induct) (subst origin_root.simps, simp split: option.split)

lemma compatible_same_id: "ty_id t1 = ty_id t2 \<Longrightarrow> is_compatible t1 t2 = Some True"
  by (simp add: is_compatible.simps)

lemma compatible_with_root: "is_compatible (origin_root t) t = Some True"
proof (induction t rule: origin_root.induct)
  case (1 t)
  show ?case
  proof (cases "ty_origin t")
    case None
    then show ?thesis by (simp add: compatible_same_id origin_root.simps [of t])
  next
    case (Some u)
    then have root: "origin_root t = origin_root u" by (simp add: origin_root.simps [of t])
    have "is_compatible (origin_root u) u = Some True" using "1.IH" Some by simp
    then show ?thesis using Some origin_root_stop [of u]
      unfolding root by (subst is_compatible.simps) simp
  qed
qed

lemma compatible_same_root: "origin_root t1 = origin_root t2 \<Longrightarrow> is_compatible t1 t2 = Some True"
proof (induction t1 rule: origin_root.induct)
  case (1 t1)
  show ?case
  proof (cases "ty_origin t1")
    case None
    then have "origin_root t1 = t1" by (simp add: origin_root.simps)
    then show ?thesis using compatible_with_root [of t2] "1.prems" by simp
  next
    case (Some u)
    then have "is_compatible u t2 = Some True" using "1.IH" "1.prems" by (simp add: origin_root.simps [of t1])
    then show ?thesis using Some by (subst is_compatible.simps) simp
  qed
qed

lemma origin_root_copy [simp]: "origin_root (copy_type i t) = origin_root t"
  by (simp add: origin_root.simps [of "copy_type i t"]) (simp add: copy_type_def)

text \<open>
  A copy of a type, made for a declarator that is patched afterwards, is compatible with the
  original and with every other copy, in both argument orders and at any depth of copying.
\<close>

theorem copy_type_compatible:
  "is_compatible (copy_type i t) t = Some True \<and> is_compatible t (copy_type i t) = Some True \<and>
   is_compatible (copy_type i t) (copy_type j t) = Some True \<and>
   is_compatible (copy_type i (copy_type j t)) t = Some True"
  by (simp add: compatible_same_root)

text \<open>
  Two array types of the same element type and the same known length, declared separately, are
  judged incompatible: the test requires both lengths to be negative.
\<close>

theorem complete_arrays_incompatible:
  assumes "i \<noteq> j" and "0 \<le> n"
  shows "is_compatible (array_of i b n) (array_of j b n) = Some False"
  using assms by (subst is_compatible.simps) (simp add: array_of_def compatible_same_id)

lemma complete_arrays_incompatible_witness:
  "is_compatible (array_of 100 ty_int 4) (array_of 101 ty_int 4) = Some False"
  by (rule complete_arrays_incompatible) simp_all

text \<open>
  C23: The usual arithmetic conversions on the integer types: operands narrower than an int become a
  signed int; the common type has the size of the wider operand; it is unsigned when the wider
  operand is, and for operands of one size when either is.
\<close>

theorem common_integer_type:
  assumes "is_integer t1" "is_integer t2" "ty_base t1 = None" "ty_base t2 = None"
  defines "u1 \<equiv> 4 \<le> ty_size t1 \<and> ty_unsigned t1" and "u2 \<equiv> 4 \<le> ty_size t2 \<and> ty_unsigned t2"
    and "s1 \<equiv> max 4 (ty_size t1)" and "s2 \<equiv> max 4 (ty_size t2)"
  shows "is_integer (get_common_type i t1 t2) \<and> ty_size (get_common_type i t1 t2) = max s1 s2 \<and>
    ty_unsigned (get_common_type i t1 t2) =
      (if s1 < s2 then u2 else if s2 < s1 then u1 else u1 \<or> u2)"
proof -
  have k: "ty_kind t1 \<notin> {TY_FUNC, TY_LDOUBLE, TY_DOUBLE, TY_FLOAT}"
    "ty_kind t2 \<notin> {TY_FUNC, TY_LDOUBLE, TY_DOUBLE, TY_FLOAT}"
    using assms(1,2) by (auto simp: is_integer_def Let_def)
  have int: "is_integer ty_int" "ty_size ty_int = 4" "\<not> ty_unsigned ty_int"
    by (simp_all add: basic_types is_integer_def)
  show ?thesis using assms(1-4) k int
    by (auto simp: get_common_type_def Let_def u1_def u2_def s1_def s2_def)
qed

lemma common_integer_type_witness:
  "ty_size (get_common_type 50 ty_uchar ty_ushort) = 4 \<and>
   ty_unsigned (get_common_type 50 ty_uchar ty_ushort) = False"
  using common_integer_type [of ty_uchar ty_ushort 50] by (simp add: basic_types is_integer_def)

text \<open>
  Where int and long have the same size, the common type of an int and a long is the left
  operand's: int + long has type int, long + int has type long.
\<close>

theorem common_type_int_long:
  "get_common_type i ty_int ty_long = ty_int \<and> get_common_type i ty_long ty_int = ty_long \<and>
   get_common_type i ty_long ty_uint = ty_uint"
  by (simp add: get_common_type_def Let_def basic_types)

end
