(* ===== verification/Ast.thy ===== *)
theory Ast
  imports C_Types
begin

text \<open>
  The typed syntax tree the back end receives: \<open>Obj\<close>, \<open>NodeKind\<close> and \<open>Node\<close> of
  \<open>src/chibicc.h\<close>. An \<open>Obj *\<close> is the number of the object in an object table, since the back end
  compares these pointers and keeps the allocated register in the object. A \<open>Node *\<close> is a tree that
  carries the address of its object (\<open>nd_id\<close>), which the compound-assignment fold compares. The
  \<open>next\<close> chains of a body and of an argument list are lists. Fields that only the parser and the
  single-pass generator read are left out.
\<close>

type_synonym obj_id = nat

record obj =
  o_name :: string
  o_ty :: ctype
  o_is_local :: bool
  o_offset :: int

type_synonym objs = "obj_id \<Rightarrow> obj"

datatype (plugins only: code size) node_kind =
  ND_NULL_EXPR | ND_ADD | ND_SUB | ND_MUL | ND_DIV | ND_NEG | ND_MOD | ND_BITAND | ND_BITOR
| ND_BITXOR | ND_SHL | ND_SHR | ND_EQ | ND_NE | ND_LT | ND_LE | ND_ASSIGN | ND_COND | ND_COMMA
| ND_MEMBER | ND_ADDR | ND_DEREF | ND_NOT | ND_BITNOT | ND_LOGAND | ND_LOGOR | ND_RETURN | ND_IF
| ND_FOR | ND_DO | ND_SWITCH | ND_CASE | ND_BLOCK | ND_GOTO | ND_GOTO_EXPR | ND_LABEL
| ND_LABEL_VAL | ND_FUNCALL | ND_EXPR_STMT | ND_STMT_EXPR | ND_VAR | ND_VLA_PTR | ND_NUM | ND_CAST
| ND_MEMZERO | ND_ASM | ND_CAS | ND_EXCH

datatype (plugins only: code size) node = Node
  (nd_id: nat) (nd_kind: node_kind) (nd_ty: "ctype option")
  (nd_lhs: "node option") (nd_rhs: "node option")
  (nd_cond: "node option") (nd_then: "node option") (nd_els: "node option")
  (nd_init: "node option") (nd_inc: "node option")
  (nd_brk_label: string) (nd_cont_label: string)
  (nd_body: "node list") (nd_args: "node list")
  (nd_vla_mark: bool) (nd_bitfield: bool) (nd_ret_buffer: bool)
  (nd_label: "string option") (nd_unique_label: string)
  (nd_var: "obj_id option") (nd_val: int)

text \<open>A node as \<open>calloc\<close> leaves it, to be filled in by update.\<close>

definition node0 :: "node_kind \<Rightarrow> node" where
  "node0 k = Node 0 k None None None None None None None None [] [] [] [] False False False None [] None 0"

text \<open>The subtrees of a node are smaller: the termination of every walk over the tree.\<close>

lemma node_size_opt [simp]:
  "nd_lhs n = Some m \<Longrightarrow> size m < size n" "nd_rhs n = Some m \<Longrightarrow> size m < size n"
  "nd_cond n = Some m \<Longrightarrow> size m < size n" "nd_then n = Some m \<Longrightarrow> size m < size n"
  "nd_els n = Some m \<Longrightarrow> size m < size n" "nd_init n = Some m \<Longrightarrow> size m < size n"
  "nd_inc n = Some m \<Longrightarrow> size m < size n"
  by (cases n; simp)+

lemma node_size_body: "m \<in> set (nd_body n) \<Longrightarrow> size m < size n"
  and node_size_args: "m \<in> set (nd_args n) \<Longrightarrow> size m < size n"
  by (cases n; fastforce dest: size_list_estimation' [where f = size, OF _ order_refl])+

lemma node_size_lists [simp]:
  "size_list size (nd_body n) < size n" "size_list size (nd_args n) < size n"
  by (cases n; simp)+

lemma node_size_option [simp]:
  "size_option size (nd_lhs n) < Suc (size n)" "size_option size (nd_rhs n) < Suc (size n)"
  "size_option size (nd_cond n) < Suc (size n)" "size_option size (nd_then n) < Suc (size n)"
  "size_option size (nd_els n) < Suc (size n)" "size_option size (nd_init n) < Suc (size n)"
  "size_option size (nd_inc n) < Suc (size n)"
  by (cases n; simp add: option.size_gen split: option.split)+

end
