(* ===== verification/Ir.thy ===== *)
theory Ir
  imports Ast "HOL-Library.Monad_Syntax"
begin

text \<open>
  The intermediate representation of \<open>src/ir68k.c\<close> (phase OP4): expression trees, linear items, the
  test that a function body stays inside the supported subset (\<open>ty_ok\<close>, \<open>expr_ok\<close>, \<open>stmt_ok\<close>) and the
  lowering of the syntax tree (\<open>build_expr\<close>, \<open>lower_stmt\<close>). \<open>None\<close> is the dereference of a null
  pointer; the code's own "unreachable" results stay what they are, \<open>IE_NOP\<close>.
\<close>

section \<open>Expressions and items\<close>

text \<open>A value temporary is its register: it is chosen when the temporary is created.\<close>

type_synonym vtemp = nat

datatype (plugins only: code size) ir_expr =
  IE_NOP
| IE_NUM int int bool                         \<comment> \<open>val size uns\<close>
| IE_LEA bool int string obj_id               \<comment> \<open>is_local off name var\<close>
| IE_LOAD ir_expr int bool                    \<comment> \<open>a size uns\<close>
| IE_STORE ir_expr ir_expr int bool           \<comment> \<open>a b size uns\<close>
| IE_BINOP node_kind ir_expr ir_expr int bool bool  \<comment> \<open>op a b size uns ptradd\<close>
| IE_UNARY node_kind ir_expr int bool         \<comment> \<open>op a size uns\<close>
| IE_LOGAND ir_expr ir_expr
| IE_LOGOR ir_expr ir_expr
| IE_COND ir_expr ir_expr ir_expr int bool    \<comment> \<open>a b c size uns\<close>
| IE_COMMA ir_expr ir_expr int bool           \<comment> \<open>a b size uns\<close>
| IE_CAST ty_kind ir_expr int bool int bool   \<comment> \<open>op a size uns fsize funs\<close>
| IE_CALL "string option" "ir_expr option" "ir_expr list" int bool  \<comment> \<open>name a args size uns\<close>
| IE_MEMZERO obj_id int int                   \<comment> \<open>var off size\<close>
| IE_VDEF vtemp ir_expr int                   \<comment> \<open>vt a size\<close>
| IE_VUSE vtemp int                           \<comment> \<open>vt size\<close>

text \<open>The fields \<open>size\<close> and \<open>uns\<close> of an expression; \<open>calloc\<close> leaves the ones not set zero.\<close>

primrec ie_size :: "ir_expr \<Rightarrow> int" where
  "ie_size IE_NOP = 0" | "ie_size (IE_NUM v sz u) = sz" | "ie_size (IE_LEA l off nm v) = 0"
| "ie_size (IE_LOAD a sz u) = sz" | "ie_size (IE_STORE a b sz u) = sz"
| "ie_size (IE_BINOP op a b sz u p) = sz" | "ie_size (IE_UNARY op a sz u) = sz"
| "ie_size (IE_LOGAND a b) = 4" | "ie_size (IE_LOGOR a b) = 4" | "ie_size (IE_COND a b c sz u) = sz"
| "ie_size (IE_COMMA a b sz u) = sz" | "ie_size (IE_CAST op a sz u fs fu) = sz"
| "ie_size (IE_CALL nm a args sz u) = sz" | "ie_size (IE_MEMZERO v off sz) = sz"
| "ie_size (IE_VDEF t a sz) = sz" | "ie_size (IE_VUSE t sz) = sz"

primrec ie_uns :: "ir_expr \<Rightarrow> bool" where
  "ie_uns IE_NOP = False" | "ie_uns (IE_NUM v sz u) = u" | "ie_uns (IE_LEA l off nm v) = False"
| "ie_uns (IE_LOAD a sz u) = u" | "ie_uns (IE_STORE a b sz u) = u"
| "ie_uns (IE_BINOP op a b sz u p) = u" | "ie_uns (IE_UNARY op a sz u) = u"
| "ie_uns (IE_LOGAND a b) = False" | "ie_uns (IE_LOGOR a b) = False"
| "ie_uns (IE_COND a b c sz u) = u" | "ie_uns (IE_COMMA a b sz u) = u"
| "ie_uns (IE_CAST op a sz u fs fu) = u" | "ie_uns (IE_CALL nm a args sz u) = u"
| "ie_uns (IE_MEMZERO v off sz) = False" | "ie_uns (IE_VDEF t a sz) = False"
| "ie_uns (IE_VUSE t sz) = False"

datatype ir_item =
  II_LABEL string
| II_JMP string
| II_CBR ir_expr string bool                  \<comment> \<open>condition, target, when\<close>
| II_EVAL ir_expr
| II_RET "ir_expr option"
| II_NOP

section \<open>Eligibility\<close>

text \<open>Sequential conjunction of tests that may dereference a null pointer.\<close>

definition and_then :: "bool option \<Rightarrow> bool option \<Rightarrow> bool option" where
  "and_then a b = (case a of None \<Rightarrow> None | Some False \<Rightarrow> Some False | Some True \<Rightarrow> b)"

lemma and_then_True [simp]: "and_then a b = Some True \<longleftrightarrow> a = Some True \<and> b = Some True"
  by (auto simp: and_then_def split: option.splits bool.splits)

lemma and_then_cong [fundef_cong]:
  "a = a' \<Longrightarrow> (a' = Some True \<Longrightarrow> b = b') \<Longrightarrow> and_then a b = and_then a' b'"
  by (auto simp: and_then_def split: option.splits bool.splits)

definition ty_ok :: "ctype option \<Rightarrow> bool" where
  "ty_ok t = (case t of None \<Rightarrow> True
     | Some ty \<Rightarrow>
         ty_kind ty \<notin> {TY_FLOAT, TY_DOUBLE, TY_LDOUBLE, TY_STRUCT, TY_UNION, TY_VLA} \<and>
         \<not> (is_integer ty \<and> ty_size ty = 8))"

definition binop_kinds :: "node_kind set" where
  "binop_kinds = {ND_ADD, ND_SUB, ND_MUL, ND_DIV, ND_MOD, ND_BITAND, ND_BITOR, ND_BITXOR, ND_SHL,
     ND_SHR, ND_EQ, ND_NE, ND_LT, ND_LE}"

function expr_ok :: "objs \<Rightarrow> node option \<Rightarrow> bool option"
  and args_ok :: "objs \<Rightarrow> node list \<Rightarrow> bool option" where
  "expr_ok E None = Some True"
| "expr_ok E (Some n) =
     (if \<not> ty_ok (nd_ty n) then Some False
      else if nd_kind n \<in> {ND_NULL_EXPR, ND_NUM, ND_VAR, ND_MEMZERO} then Some True
      else if nd_kind n \<in> binop_kinds \<or> nd_kind n \<in> {ND_COMMA, ND_LOGAND, ND_LOGOR} then
        and_then (expr_ok E (nd_lhs n)) (expr_ok E (nd_rhs n))
      else if nd_kind n \<in> {ND_NEG, ND_BITNOT, ND_NOT, ND_ADDR, ND_DEREF, ND_CAST} then
        expr_ok E (nd_lhs n)
      else if nd_kind n = ND_ASSIGN then
        (case nd_lhs n of None \<Rightarrow> None
         | Some l \<Rightarrow>
             if nd_kind l = ND_VLA_PTR then Some False
             else if nd_kind l = ND_MEMBER \<and> nd_bitfield l then Some False
             else and_then (expr_ok E (Some l)) (expr_ok E (nd_rhs n)))
      else if nd_kind n = ND_COND then
        and_then (expr_ok E (nd_cond n)) (and_then (expr_ok E (nd_then n)) (expr_ok E (nd_els n)))
      else if nd_kind n = ND_FUNCALL then
        (if nd_ret_buffer n then Some False
         else case nd_lhs n of None \<Rightarrow> None
         | Some l \<Rightarrow>
             if nd_kind l = ND_VAR \<and>
                (case nd_var l of None \<Rightarrow> False
                 | Some v \<Rightarrow> o_name (E v) = ''alloca'' \<or> o_name (E v) = ''setjmp'') then Some False
             else and_then (args_ok E (nd_args n))
               (if nd_kind l = ND_VAR then
                  (case nd_ty l of None \<Rightarrow> None
                   | Some t \<Rightarrow> if ty_kind t = TY_FUNC then Some True else expr_ok E (Some l))
                else expr_ok E (Some l)))
      else Some False)"
| "args_ok E [] = Some True"
| "args_ok E (a # as) =
     (if \<not> ty_ok (nd_ty a) then Some False
      else case nd_ty a of None \<Rightarrow> None
      | Some t \<Rightarrow>
          if ty_kind t = TY_STRUCT \<or> ty_kind t = TY_UNION then Some False
          else and_then (expr_ok E (Some a)) (args_ok E as))"
  by pat_completeness auto
termination
by (relation "measure (case_sum (\<lambda>(E, n). size_option size n) (\<lambda>(E, ns). Suc (size_list size ns)))") auto

declare expr_ok.simps(2) [simp del]

function stmt_ok :: "objs \<Rightarrow> node option \<Rightarrow> bool option"
  and stmts_ok :: "objs \<Rightarrow> node list \<Rightarrow> bool option" where
  "stmt_ok E None = Some True"
| "stmt_ok E (Some n) =
     (if nd_kind n = ND_BLOCK then
        (if nd_vla_mark n then Some False else stmts_ok E (nd_body n))
      else if nd_kind n = ND_EXPR_STMT then expr_ok E (nd_lhs n)
      else if nd_kind n = ND_NULL_EXPR then Some True
      else if nd_kind n = ND_RETURN then
        (case nd_lhs n of None \<Rightarrow> Some True
         | Some l \<Rightarrow>
             (case nd_ty l of None \<Rightarrow> None
              | Some t \<Rightarrow> if ty_kind t = TY_STRUCT \<or> ty_kind t = TY_UNION then Some False
                         else expr_ok E (Some l)))
      else if nd_kind n = ND_IF then
        and_then (expr_ok E (nd_cond n)) (and_then (stmt_ok E (nd_then n)) (stmt_ok E (nd_els n)))
      else if nd_kind n = ND_FOR then
        (case nd_then n of None \<Rightarrow> None
         | Some b \<Rightarrow>
             if nd_kind b = ND_BLOCK \<and> nd_vla_mark b then Some False
             else and_then (stmt_ok E (nd_init n)) (and_then (expr_ok E (nd_cond n))
                    (and_then (expr_ok E (nd_inc n)) (stmt_ok E (Some b)))))
      else if nd_kind n = ND_DO then
        (case nd_then n of None \<Rightarrow> None
         | Some b \<Rightarrow>
             if nd_kind b = ND_BLOCK \<and> nd_vla_mark b then Some False
             else and_then (expr_ok E (nd_cond n)) (stmt_ok E (Some b)))
      else if nd_kind n = ND_GOTO then Some True
      else if nd_kind n = ND_LABEL then stmt_ok E (nd_lhs n)
      else Some False)"
| "stmts_ok E [] = Some True"
| "stmts_ok E (n # ns) = and_then (stmt_ok E (Some n)) (stmts_ok E ns)"
  by pat_completeness auto
termination
  by (relation "measure (case_sum (\<lambda>(E, n). size_option size n) (\<lambda>(E, ns). Suc (size_list size ns)))") auto

declare stmt_ok.simps(2) [simp del]

definition ir_body_eligible :: "objs \<Rightarrow> node option \<Rightarrow> bool option" where
  "ir_body_eligible E body = stmt_ok E body"

section \<open>Builder\<close>

text \<open>
  The compound-assignment fold map: entries (\<open>fa_tmp\<close>, \<open>fa_v\<close>, \<open>fa_init\<close>), the first and the last
  reset to \<open>NULL\<close> when the temporary escapes.
\<close>

type_synonym fold_map = "(obj_id option \<times> obj_id \<times> nat option) list"

definition foldable_alias :: "fold_map \<Rightarrow> node option \<Rightarrow> obj_id option" where
  "foldable_alias fm n = (case n of None \<Rightarrow> None
     | Some m \<Rightarrow> if nd_kind m \<noteq> ND_VAR then None
               else map_option (\<lambda>(t, v, i). v) (find (\<lambda>(t, v, i). t = nd_var m) fm))"

definition fa_is_init :: "fold_map \<Rightarrow> node \<Rightarrow> bool" where
  "fa_is_init fm addr \<longleftrightarrow> (\<exists>(t, v, i) \<in> set fm. i = Some (nd_id addr))"

definition build_lea :: "objs \<Rightarrow> obj_id \<Rightarrow> ir_expr" where
  "build_lea E v =
     (if o_is_local (E v) then IE_LEA True (o_offset (E v)) [] v
      else IE_LEA False 0 (o_name (E v)) v)"

definition is_decayed :: "ctype \<Rightarrow> bool" where
  "is_decayed t \<longleftrightarrow> ty_kind t = TY_ARRAY \<or> ty_kind t = TY_FUNC"

function build_addr :: "objs \<Rightarrow> fold_map \<Rightarrow> node option \<Rightarrow> ir_expr option"
  and build_expr :: "objs \<Rightarrow> fold_map \<Rightarrow> node option \<Rightarrow> ir_expr option"
  and build_args :: "objs \<Rightarrow> fold_map \<Rightarrow> node list \<Rightarrow> ir_expr list option" where
  "build_addr E fm None = None"
| "build_addr E fm (Some n) =
     (if nd_kind n = ND_VAR then map_option (build_lea E) (nd_var n)
      else if nd_kind n = ND_DEREF then
        (case foldable_alias fm (nd_lhs n) of
           Some v \<Rightarrow> Some (build_lea E v) | None \<Rightarrow> build_expr E fm (nd_lhs n))
      else if nd_kind n = ND_COMMA then
        do { a \<leftarrow> build_expr E fm (nd_lhs n); b \<leftarrow> build_addr E fm (nd_rhs n);
             Some (IE_COMMA a b 4 False) }
      else Some IE_NOP)"
| "build_expr E fm None = None"
| "build_expr E fm (Some n) =
     (if nd_kind n = ND_NULL_EXPR then Some IE_NOP
      else if nd_kind n = ND_NUM then
        do { t \<leftarrow> nd_ty n; Some (IE_NUM (nd_val n) (ty_size t) (ty_unsigned t)) }
      else if nd_kind n = ND_VAR then
        do { t \<leftarrow> nd_ty n; v \<leftarrow> nd_var n;
             Some (if is_decayed t then build_lea E v
                   else IE_LOAD (build_lea E v) (ty_size t) (ty_unsigned t)) }
      else if nd_kind n = ND_DEREF then
        do { t \<leftarrow> nd_ty n;
             if is_decayed t \<or> ty_kind t = TY_STRUCT \<or> ty_kind t = TY_UNION then
               build_expr E fm (nd_lhs n)
             else case foldable_alias fm (nd_lhs n) of
               Some v \<Rightarrow> Some (IE_LOAD (build_lea E v) (ty_size t) (ty_unsigned t))
             | None \<Rightarrow> do { a \<leftarrow> build_expr E fm (nd_lhs n);
                          Some (IE_LOAD a (ty_size t) (ty_unsigned t)) } }
      else if nd_kind n = ND_ADDR then build_addr E fm (nd_lhs n)
      else if nd_kind n = ND_ASSIGN then
        (case nd_lhs n of None \<Rightarrow> None
         | Some l \<Rightarrow>
             if nd_kind l = ND_VAR \<and> foldable_alias fm (Some l) \<noteq> None then Some IE_NOP
             else do { a \<leftarrow> build_addr E fm (Some l); b \<leftarrow> build_expr E fm (nd_rhs n); t \<leftarrow> nd_ty n;
                       Some (IE_STORE a b (ty_size t) (ty_unsigned t)) })
      else if nd_kind n = ND_COMMA then
        do { a \<leftarrow> build_expr E fm (nd_lhs n); b \<leftarrow> build_expr E fm (nd_rhs n);
             Some (IE_COMMA a b (ie_size b) (ie_uns b)) }
      else if nd_kind n = ND_CAST then
        do { a \<leftarrow> build_expr E fm (nd_lhs n); t \<leftarrow> nd_ty n; l \<leftarrow> nd_lhs n; f \<leftarrow> nd_ty l;
             Some (IE_CAST (ty_kind t) a (ty_size t) (ty_unsigned t) (ty_size f) (ty_unsigned f)) }
      else if nd_kind n = ND_COND then
        do { a \<leftarrow> build_expr E fm (nd_cond n); b \<leftarrow> build_expr E fm (nd_then n);
             c \<leftarrow> build_expr E fm (nd_els n); t \<leftarrow> nd_ty n;
             Some (IE_COND a b c (ty_size t) (ty_unsigned t)) }
      else if nd_kind n = ND_NOT then
        do { a \<leftarrow> build_expr E fm (nd_lhs n); Some (IE_UNARY ND_NOT a 4 False) }
      else if nd_kind n = ND_BITNOT \<or> nd_kind n = ND_NEG then
        do { a \<leftarrow> build_expr E fm (nd_lhs n); t \<leftarrow> nd_ty n;
             Some (IE_UNARY (nd_kind n) a (ty_size t) (ty_unsigned t)) }
      else if nd_kind n = ND_LOGAND \<or> nd_kind n = ND_LOGOR then
        do { a \<leftarrow> build_expr E fm (nd_lhs n); b \<leftarrow> build_expr E fm (nd_rhs n);
             Some (if nd_kind n = ND_LOGAND then IE_LOGAND a b else IE_LOGOR a b) }
      else if nd_kind n = ND_MEMZERO then
        do { v \<leftarrow> nd_var n; Some (IE_MEMZERO v (o_offset (E v)) (ty_size (o_ty (E v)))) }
      else if nd_kind n = ND_FUNCALL then
        do { l \<leftarrow> nd_lhs n;
             direct \<leftarrow> (if nd_kind l = ND_VAR
                        then map_option (\<lambda>t. ty_kind t = TY_FUNC) (nd_ty l) else Some False);
             (name, a) \<leftarrow> (if direct then map_option (\<lambda>v. (Some (o_name (E v)), None)) (nd_var l)
                           else map_option (\<lambda>a. (None, Some a)) (build_expr E fm (Some l)));
             args \<leftarrow> build_args E fm (nd_args n); t \<leftarrow> nd_ty n;
             Some (IE_CALL name a args (if ty_kind t = TY_VOID then 0 else ty_size t)
                     (ty_unsigned t)) }
      else if nd_kind n \<in> binop_kinds then
        do { a \<leftarrow> build_expr E fm (nd_lhs n); b \<leftarrow> build_expr E fm (nd_rhs n); t \<leftarrow> nd_ty n;
             l \<leftarrow> nd_lhs n; lt \<leftarrow> nd_ty l;
             Some (IE_BINOP (nd_kind n) a b (ty_size t) (ty_unsigned lt)
                     (nd_kind n = ND_ADD \<and> ty_base t \<noteq> None)) }
      else Some IE_NOP)"
| "build_args E fm [] = Some []"
| "build_args E fm (n # ns) =
     do { a \<leftarrow> build_expr E fm (Some n); as \<leftarrow> build_args E fm ns; Some (a # as) }"
  by pat_completeness auto
termination
  by (relation "measure (case_sum (\<lambda>(E, fm, n). size_option size n)
        (case_sum (\<lambda>(E, fm, n). size_option size n) (\<lambda>(E, fm, ns). Suc (size_list size ns))))")
    auto

declare build_addr.simps(2) [simp del] build_expr.simps(2) [simp del]

section \<open>Lowering of statements\<close>

text \<open>
  The item list grows at its end; the counter is \<open>cg_uid\<close>. The result is the items appended and the
  next value of the counter.
\<close>

definition uid_label :: "string \<Rightarrow> nat \<Rightarrow> string" where
  "uid_label prefix c = prefix @ show_nat c"

function lower_stmt :: "objs \<Rightarrow> fold_map \<Rightarrow> node option \<Rightarrow> nat \<Rightarrow> (ir_item list \<times> nat) option"
  and lower_stmts :: "objs \<Rightarrow> fold_map \<Rightarrow> node list \<Rightarrow> nat \<Rightarrow> (ir_item list \<times> nat) option" where
  "lower_stmt E fm None u = None"
| "lower_stmt E fm (Some n) u =
     (if nd_kind n = ND_BLOCK then lower_stmts E fm (nd_body n) u
      else if nd_kind n = ND_NULL_EXPR then Some ([], u)
      else if nd_kind n = ND_EXPR_STMT then
        do { e \<leftarrow> build_expr E fm (nd_lhs n); Some ([II_EVAL e], u) }
      else if nd_kind n = ND_RETURN then
        (case nd_lhs n of None \<Rightarrow> Some ([II_RET None], u)
         | Some l \<Rightarrow> do { e \<leftarrow> build_expr E fm (Some l); Some ([II_RET (Some e)], u) })
      else if nd_kind n = ND_IF then
        (let lelse = uid_label ''L_else_'' u; lend = uid_label ''L_end_'' u in
         do { c \<leftarrow> build_expr E fm (nd_cond n);
              (ts, u1) \<leftarrow> lower_stmt E fm (nd_then n) (Suc u);
              (es, u2) \<leftarrow> (case nd_els n of None \<Rightarrow> Some ([], u1) | Some m \<Rightarrow> lower_stmt E fm (Some m) u1);
              Some ([II_CBR c lelse False] @ ts @ [II_JMP lend, II_LABEL lelse] @ es @
                    [II_LABEL lend], u2) })
      else if nd_kind n = ND_FOR then
        (let lbegin = uid_label ''L_begin_'' u in
         do { (is, u1) \<leftarrow> (case nd_init n of None \<Rightarrow> Some ([], Suc u)
                          | Some m \<Rightarrow> lower_stmt E fm (Some m) (Suc u));
              cs \<leftarrow> (case nd_cond n of None \<Rightarrow> Some []
                    | Some m \<Rightarrow> do { c \<leftarrow> build_expr E fm (Some m);
                                   Some [II_CBR c (nd_brk_label n) False] });
              (bs, u2) \<leftarrow> lower_stmt E fm (nd_then n) u1;
              ns \<leftarrow> (case nd_inc n of None \<Rightarrow> Some []
                    | Some m \<Rightarrow> do { e \<leftarrow> build_expr E fm (Some m); Some [II_EVAL e] });
              Some (is @ [II_LABEL lbegin] @ cs @ bs @ [II_LABEL (nd_cont_label n)] @ ns @
                    [II_JMP lbegin, II_LABEL (nd_brk_label n)], u2) })
      else if nd_kind n = ND_DO then
        (let lbegin = uid_label ''L_begin_'' u in
         do { (bs, u1) \<leftarrow> lower_stmt E fm (nd_then n) (Suc u);
              c \<leftarrow> build_expr E fm (nd_cond n);
              Some ([II_LABEL lbegin] @ bs @ [II_LABEL (nd_cont_label n), II_CBR c lbegin True,
                    II_LABEL (nd_brk_label n)], u1) })
      else if nd_kind n = ND_GOTO then Some ([II_JMP (nd_unique_label n)], u)
      else if nd_kind n = ND_LABEL then
        do { (is, u1) \<leftarrow> lower_stmt E fm (nd_lhs n) u;
             Some (II_LABEL (nd_unique_label n) # is, u1) }
      else Some ([], u))"
| "lower_stmts E fm [] u = Some ([], u)"
| "lower_stmts E fm (n # ns) u =
     do { (is, u1) \<leftarrow> lower_stmt E fm (Some n) u; (js, u2) \<leftarrow> lower_stmts E fm ns u1;
          Some (is @ js, u2) }"
  by pat_completeness auto
termination
  by (relation "measure (case_sum (\<lambda>(E, fm, n, u). size_option size n)
        (\<lambda>(E, fm, ns, u). Suc (size_list size ns)))") auto

declare lower_stmt.simps(2) [simp del]

end
