(* ===== verification/Ir_Sem.thy ===== *)
theory Ir_Sem
  imports Ir "HOL-Library.Signed_Division"
begin

text \<open>
  The meaning of the intermediate representation: what an expression may compute on the 32-bit
  accumulator and the target memory, and how an item list runs. This is the specification the
  optimizer and the tile selector are verified against; it models C, whose operand order is
  unspecified, so an expression has a set of results. Memory is a function from 32-bit addresses to
  bytes, read and written big-endian. Callees, the addresses of globals and divisions that C leaves
  undefined are parameters (\<open>target\<close>).
\<close>

section \<open>State\<close>

type_synonym memory = "u32 \<Rightarrow> u8"

datatype callee = Direct string | Indirect u32

text \<open>\<open>tg_call\<close> runs a callee on its arguments; \<open>tg_undef\<close> is the result of an undefined division.\<close>

record target =
  tg_sym :: "string \<Rightarrow> u32"
  tg_call :: "callee \<Rightarrow> u32 list \<Rightarrow> memory \<Rightarrow> u32 \<times> memory"
  tg_undef :: "node_kind \<Rightarrow> bool \<Rightarrow> u32 \<Rightarrow> u32 \<Rightarrow> u32"

text \<open>
  \<open>st_reg\<close> holds the callee-saved registers by their code (2..7 for D2..D7, 10..13 for A2..A5),
  which promoted variables and value temporaries live in.
\<close>

record istate =
  st_mem :: memory
  st_reg :: "nat \<Rightarrow> u32"

definition ld16 :: "memory \<Rightarrow> u32 \<Rightarrow> u16" where
  "ld16 m p = push_bit 8 (ucast (m p)) OR ucast (m (p + 1))"

definition ld32 :: "memory \<Rightarrow> u32 \<Rightarrow> u32" where
  "ld32 m p = push_bit 16 (ucast (ld16 m p)) OR ucast (ld16 m (p + 2))"

definition st16 :: "memory \<Rightarrow> u32 \<Rightarrow> u16 \<Rightarrow> memory" where
  "st16 m p v = m(p := ucast (drop_bit 8 v), p + 1 := ucast v)"

definition st32 :: "memory \<Rightarrow> u32 \<Rightarrow> u32 \<Rightarrow> memory" where
  "st32 m p v = st16 (st16 m p (ucast (drop_bit 16 v))) (p + 2) (ucast v)"

definition load_val :: "int \<Rightarrow> bool \<Rightarrow> memory \<Rightarrow> u32 \<Rightarrow> u32" where
  "load_val sz uns m p =
     (if sz = 1 then (if uns then ucast (m p) else scast (m p))
      else if sz = 2 then (if uns then ucast (ld16 m p) else scast (ld16 m p))
      else ld32 m p)"

definition store_val :: "int \<Rightarrow> memory \<Rightarrow> u32 \<Rightarrow> u32 \<Rightarrow> memory" where
  "store_val sz m p v =
     (if sz = 1 then m(p := ucast v) else if sz = 2 then st16 m p (ucast v) else st32 m p v)"

definition zero_mem :: "memory \<Rightarrow> u32 \<Rightarrow> nat \<Rightarrow> memory" where
  "zero_mem m p n = (\<lambda>q. if unat (q - p) < n then 0 else m q)"

section \<open>Operators on 32-bit values\<close>

definition div_undef :: "bool \<Rightarrow> u32 \<Rightarrow> u32 \<Rightarrow> bool" where
  "div_undef uns a b \<longleftrightarrow> b = 0 \<or> \<not> uns \<and> a = 0x80000000 \<and> b = - 1"

definition div_val :: "bool \<Rightarrow> u32 \<Rightarrow> u32 \<Rightarrow> u32" where
  "div_val uns a b = (if uns then a div b else word_of_int (sint a sdiv sint b))"

definition mod_val :: "bool \<Rightarrow> u32 \<Rightarrow> u32 \<Rightarrow> u32" where
  "mod_val uns a b = (if uns then a mod b else word_of_int (sint a smod sint b))"

definition lt_val :: "bool \<Rightarrow> u32 \<Rightarrow> u32 \<Rightarrow> bool" where
  "lt_val uns a b = (if uns then a < b else a <s b)"

definition le_val :: "bool \<Rightarrow> u32 \<Rightarrow> u32 \<Rightarrow> bool" where
  "le_val uns a b = (if uns then a \<le> b else a \<le>s b)"

text \<open>A shift count in a register is taken modulo 64 by the 68000.\<close>

definition shift_count :: "u32 \<Rightarrow> nat" where
  "shift_count b = unat (b AND 63)"

definition rel_val :: "node_kind \<Rightarrow> bool \<Rightarrow> u32 \<Rightarrow> u32 \<Rightarrow> bool" where
  "rel_val op uns a b =
     (if op = ND_EQ then a = b else if op = ND_NE then a \<noteq> b
      else if op = ND_LT then lt_val uns a b else le_val uns a b)"

definition binop_val :: "target \<Rightarrow> node_kind \<Rightarrow> bool \<Rightarrow> u32 \<Rightarrow> u32 \<Rightarrow> u32" where
  "binop_val T op uns a b =
     (if op = ND_ADD then a + b
      else if op = ND_SUB then a - b
      else if op = ND_MUL then a * b
      else if op = ND_DIV then (if div_undef uns a b then tg_undef T op uns a b else div_val uns a b)
      else if op = ND_MOD then (if div_undef uns a b then tg_undef T op uns a b else mod_val uns a b)
      else if op = ND_BITAND then a AND b
      else if op = ND_BITOR then a OR b
      else if op = ND_BITXOR then a XOR b
      else if op = ND_SHL then push_bit (shift_count b) a
      else if op = ND_SHR then
        (if uns then drop_bit (shift_count b) a else signed_drop_bit (shift_count b) a)
      else of_bool (rel_val op uns a b))"

definition unary_val :: "node_kind \<Rightarrow> u32 \<Rightarrow> u32" where
  "unary_val op a = (if op = ND_NEG then - a else if op = ND_BITNOT then NOT a else of_bool (a = 0))"

definition narrow_val :: "int \<Rightarrow> bool \<Rightarrow> u32 \<Rightarrow> u32" where
  "narrow_val sz uns v =
     (if sz = 1 then (if uns then ucast (ucast v :: u8) else scast (ucast v :: u8))
      else if sz = 2 then (if uns then ucast (ucast v :: u16) else scast (ucast v :: u16))
      else v)"

definition cast_val :: "ty_kind \<Rightarrow> int \<Rightarrow> bool \<Rightarrow> u32 \<Rightarrow> u32" where
  "cast_val op sz uns v =
     (if op = TY_VOID then v else if op = TY_BOOL then of_bool (v \<noteq> 0) else narrow_val sz uns v)"

section \<open>Expressions\<close>

text \<open>
  A promotion \<open>\<rho>\<close> maps a variable to the code of its register, 0 for a variable in its frame slot.
  \<open>lea_reg\<close> is the register of the variable whose address an expression is.
\<close>

type_synonym promotion = "obj_id \<Rightarrow> nat"

fun lea_reg :: "promotion \<Rightarrow> ir_expr \<Rightarrow> nat" where
  "lea_reg \<rho> (IE_LEA is_local off name var) = (if is_local then \<rho> var else 0)"
| "lea_reg \<rho> _ = 0"

definition call_result :: "target \<Rightarrow> callee \<Rightarrow> u32 list \<Rightarrow> istate \<Rightarrow> u32 \<times> istate" where
  "call_result T f vs \<sigma> = (case tg_call T f vs (st_mem \<sigma>) of (r, m) \<Rightarrow> (r, \<sigma>\<lparr>st_mem := m\<rparr>))"

text \<open>
  \<open>evals T fp \<rho> e \<sigma>\<close> holds the possible (value, state) results; \<open>fp\<close> is the frame pointer A6. The
  operands of a binary operator, and the address and value of a store, may be evaluated in
  either order; arguments are evaluated from the last to the first. Expressions without a value
  leave any value in the accumulator.
\<close>

fun evals :: "target \<Rightarrow> u32 \<Rightarrow> promotion \<Rightarrow> ir_expr \<Rightarrow> istate \<Rightarrow> (u32 \<times> istate) set"
  and evals_args :: "target \<Rightarrow> u32 \<Rightarrow> promotion \<Rightarrow> ir_expr list \<Rightarrow> istate \<Rightarrow> (u32 list \<times> istate) set" where
  "evals T fp \<rho> IE_NOP \<sigma> = {(v, \<sigma>) | v. True}"
| "evals T fp \<rho> (IE_NUM n sz u) \<sigma> = {(word_of_int n, \<sigma>)}"
| "evals T fp \<rho> (IE_LEA is_local off name var) \<sigma> =
     {(if is_local then fp + word_of_int off else tg_sym T name, \<sigma>)}"
| "evals T fp \<rho> (IE_LOAD a sz u) \<sigma> =
     (if lea_reg \<rho> a \<noteq> 0 then {(st_reg \<sigma> (lea_reg \<rho> a), \<sigma>)}
      else (\<Union>(p, \<sigma>1) \<in> evals T fp \<rho> a \<sigma>. {(load_val sz u (st_mem \<sigma>1) p, \<sigma>1)}))"
| "evals T fp \<rho> (IE_STORE a b sz u) \<sigma> =
     (if lea_reg \<rho> a \<noteq> 0 then
        (\<Union>(v, \<sigma>1) \<in> evals T fp \<rho> b \<sigma>. {(v, \<sigma>1\<lparr>st_reg := (st_reg \<sigma>1)(lea_reg \<rho> a := v)\<rparr>)})
      else
        (\<Union>(p, \<sigma>1) \<in> evals T fp \<rho> a \<sigma>. \<Union>(v, \<sigma>2) \<in> evals T fp \<rho> b \<sigma>1.
           {(v, \<sigma>2\<lparr>st_mem := store_val sz (st_mem \<sigma>2) p v\<rparr>)}) \<union>
        (\<Union>(v, \<sigma>1) \<in> evals T fp \<rho> b \<sigma>. \<Union>(p, \<sigma>2) \<in> evals T fp \<rho> a \<sigma>1.
           {(v, \<sigma>2\<lparr>st_mem := store_val sz (st_mem \<sigma>2) p v\<rparr>)}))"
| "evals T fp \<rho> (IE_BINOP op a b sz u pa) \<sigma> =
     (\<Union>(x, \<sigma>1) \<in> evals T fp \<rho> a \<sigma>. \<Union>(y, \<sigma>2) \<in> evals T fp \<rho> b \<sigma>1. {(binop_val T op u x y, \<sigma>2)}) \<union>
     (\<Union>(y, \<sigma>1) \<in> evals T fp \<rho> b \<sigma>. \<Union>(x, \<sigma>2) \<in> evals T fp \<rho> a \<sigma>1. {(binop_val T op u x y, \<sigma>2)})"
| "evals T fp \<rho> (IE_UNARY op a sz u) \<sigma> = (\<Union>(x, \<sigma>1) \<in> evals T fp \<rho> a \<sigma>. {(unary_val op x, \<sigma>1)})"
| "evals T fp \<rho> (IE_LOGAND a b) \<sigma> =
     (\<Union>(x, \<sigma>1) \<in> evals T fp \<rho> a \<sigma>. if x = 0 then {(0, \<sigma>1)}
        else (\<Union>(y, \<sigma>2) \<in> evals T fp \<rho> b \<sigma>1. {(of_bool (y \<noteq> 0), \<sigma>2)}))"
| "evals T fp \<rho> (IE_LOGOR a b) \<sigma> =
     (\<Union>(x, \<sigma>1) \<in> evals T fp \<rho> a \<sigma>. if x \<noteq> 0 then {(1, \<sigma>1)}
        else (\<Union>(y, \<sigma>2) \<in> evals T fp \<rho> b \<sigma>1. {(of_bool (y \<noteq> 0), \<sigma>2)}))"
| "evals T fp \<rho> (IE_COND a b c sz u) \<sigma> =
     (\<Union>(x, \<sigma>1) \<in> evals T fp \<rho> a \<sigma>. if x \<noteq> 0 then evals T fp \<rho> b \<sigma>1 else evals T fp \<rho> c \<sigma>1)"
| "evals T fp \<rho> (IE_COMMA a b sz u) \<sigma> = (\<Union>(x, \<sigma>1) \<in> evals T fp \<rho> a \<sigma>. evals T fp \<rho> b \<sigma>1)"
| "evals T fp \<rho> (IE_CAST op a sz u fs fu) \<sigma> =
     (\<Union>(x, \<sigma>1) \<in> evals T fp \<rho> a \<sigma>. {(cast_val op sz u x, \<sigma>1)})"
| "evals T fp \<rho> (IE_CALL (Some nm) a args sz u) \<sigma> =
     (\<Union>(vs, \<sigma>1) \<in> evals_args T fp \<rho> args \<sigma>. {call_result T (Direct nm) vs \<sigma>1})"
| "evals T fp \<rho> (IE_CALL None (Some a) args sz u) \<sigma> =
     (\<Union>(vs, \<sigma>1) \<in> evals_args T fp \<rho> args \<sigma>. \<Union>(f, \<sigma>2) \<in> evals T fp \<rho> a \<sigma>1.
        {call_result T (Indirect f) vs \<sigma>2})"
| "evals T fp \<rho> (IE_CALL None None args sz u) \<sigma> =
     (\<Union>(vs, \<sigma>1) \<in> evals_args T fp \<rho> args \<sigma>. range (\<lambda>f. call_result T (Indirect f) vs \<sigma>1))"
| "evals T fp \<rho> (IE_MEMZERO var off sz) \<sigma> =
     (if \<rho> var \<noteq> 0 then {(v, \<sigma>\<lparr>st_reg := (st_reg \<sigma>)(\<rho> var := 0)\<rparr>) | v. True}
      else {(v, \<sigma>\<lparr>st_mem := zero_mem (st_mem \<sigma>) (fp + word_of_int off) (nat sz)\<rparr>) | v. True})"
| "evals T fp \<rho> (IE_VDEF t a sz) \<sigma> =
     (\<Union>(v, \<sigma>1) \<in> evals T fp \<rho> a \<sigma>.
        {(v, if t \<noteq> 0 then \<sigma>1\<lparr>st_reg := (st_reg \<sigma>1)(t := v)\<rparr> else \<sigma>1)})"
| "evals T fp \<rho> (IE_VUSE t sz) \<sigma> = (if t \<noteq> 0 then {(st_reg \<sigma> t, \<sigma>)} else {(v, \<sigma>) | v. True})"
| "evals_args T fp \<rho> [] \<sigma> = {([], \<sigma>)}"
| "evals_args T fp \<rho> (e # es) \<sigma> =
     (\<Union>(vs, \<sigma>1) \<in> evals_args T fp \<rho> es \<sigma>. \<Union>(v, \<sigma>2) \<in> evals T fp \<rho> e \<sigma>1. {(v # vs, \<sigma>2)})"

section \<open>Item lists\<close>

text \<open>A running configuration is at an item; a function ends by a return or at the last item.\<close>

datatype config = At nat istate | Done "u32 option" istate

fun label_index :: "ir_item list \<Rightarrow> string \<Rightarrow> nat option" where
  "label_index [] l = None"
| "label_index (it # its) l =
     (if it = II_LABEL l then Some 0 else map_option Suc (label_index its l))"

inductive item_step :: "target \<Rightarrow> u32 \<Rightarrow> promotion \<Rightarrow> ir_item list \<Rightarrow> config \<Rightarrow> config \<Rightarrow> bool"
  for T fp \<rho> P where
  step_label: "i < length P \<Longrightarrow> P ! i = II_LABEL l \<Longrightarrow> item_step T fp \<rho> P (At i \<sigma>) (At (Suc i) \<sigma>)"
| step_nop: "i < length P \<Longrightarrow> P ! i = II_NOP \<Longrightarrow> item_step T fp \<rho> P (At i \<sigma>) (At (Suc i) \<sigma>)"
| step_jmp: "i < length P \<Longrightarrow> P ! i = II_JMP l \<Longrightarrow> label_index P l = Some j \<Longrightarrow>
    item_step T fp \<rho> P (At i \<sigma>) (At j \<sigma>)"
| step_cbr_taken: "i < length P \<Longrightarrow> P ! i = II_CBR e l w \<Longrightarrow> (v, \<sigma>') \<in> evals T fp \<rho> e \<sigma> \<Longrightarrow>
    (v \<noteq> 0) = w \<Longrightarrow> label_index P l = Some j \<Longrightarrow> item_step T fp \<rho> P (At i \<sigma>) (At j \<sigma>')"
| step_cbr_fall: "i < length P \<Longrightarrow> P ! i = II_CBR e l w \<Longrightarrow> (v, \<sigma>') \<in> evals T fp \<rho> e \<sigma> \<Longrightarrow>
    (v \<noteq> 0) \<noteq> w \<Longrightarrow> item_step T fp \<rho> P (At i \<sigma>) (At (Suc i) \<sigma>')"
| step_eval: "i < length P \<Longrightarrow> P ! i = II_EVAL e \<Longrightarrow> (v, \<sigma>') \<in> evals T fp \<rho> e \<sigma> \<Longrightarrow>
    item_step T fp \<rho> P (At i \<sigma>) (At (Suc i) \<sigma>')"
| step_ret: "i < length P \<Longrightarrow> P ! i = II_RET (Some e) \<Longrightarrow> (v, \<sigma>') \<in> evals T fp \<rho> e \<sigma> \<Longrightarrow>
    item_step T fp \<rho> P (At i \<sigma>) (Done (Some v) \<sigma>')"
| step_ret_void: "i < length P \<Longrightarrow> P ! i = II_RET None \<Longrightarrow>
    item_step T fp \<rho> P (At i \<sigma>) (Done None \<sigma>)"
| step_end: "i = length P \<Longrightarrow> item_step T fp \<rho> P (At i \<sigma>) (Done None \<sigma>)"

inductive_simps item_step_At: "item_step T fp \<rho> P (At i \<sigma>) c"
inductive_cases item_step_AtE: "item_step T fp \<rho> P (At i \<sigma>) c"
inductive_cases item_step_DoneE [elim!]: "item_step T fp \<rho> P (Done r \<sigma>) c"

inductive item_steps :: "target \<Rightarrow> u32 \<Rightarrow> promotion \<Rightarrow> ir_item list \<Rightarrow> config \<Rightarrow> config \<Rightarrow> bool"
  for T fp \<rho> P where
  steps_refl: "item_steps T fp \<rho> P c c"
| steps_step: "item_steps T fp \<rho> P c c1 \<Longrightarrow> item_step T fp \<rho> P c1 c2 \<Longrightarrow> item_steps T fp \<rho> P c c2"

lemma item_steps_power: "(item_step T fp \<rho> its ^^ k) c c' \<Longrightarrow> item_steps T fp \<rho> its c c'"
  by (induction k arbitrary: c') (auto intro: item_steps.intros)

lemma UN_pair_iff: "r \<in> (\<Union>(x, y) \<in> A. B x y) \<longleftrightarrow> (\<exists>x y. (x, y) \<in> A \<and> r \<in> B x y)"
  by auto

lemma UN_pair_nonempty:
  "A \<noteq> {} \<Longrightarrow> (\<And>x y. B x y \<noteq> {}) \<Longrightarrow> (\<Union>(x, y) \<in> A. B x y) \<noteq> {}"
  by fastforce

lemma Un_nonempty: "A \<noteq> {} \<Longrightarrow> A \<union> B \<noteq> {}"
  by simp

lemma if_nonempty: "A \<noteq> {} \<Longrightarrow> B \<noteq> {} \<Longrightarrow> (if c then A else B) \<noteq> {}"
  by simp

lemma pairs_nonempty: "{(v, s) | v. True} \<noteq> {}"
  by simp

lemmas nonempty_intros = UN_pair_nonempty Un_nonempty if_nonempty pairs_nonempty insert_not_empty

lemma evals_args_nonempty:
  "(\<And>e \<sigma>. e \<in> set es \<Longrightarrow> evals T fp \<rho> e \<sigma> \<noteq> {}) \<Longrightarrow> evals_args T fp \<rho> es \<sigma> \<noteq> {}"
  by (induction es arbitrary: \<sigma>) (simp, unfold evals_args.simps, intro UN_pair_nonempty, auto)

text \<open>Every expression has a result: evaluation neither gets stuck nor diverges.\<close>

lemma evals_nonempty: "evals T fp \<rho> e \<sigma> \<noteq> {}"
proof (induction e arbitrary: \<sigma>)
  case (IE_CALL nm a args sz u)
  then have args: "evals_args T fp \<rho> args \<sigma> \<noteq> {}" for \<sigma> by (intro evals_args_nonempty) auto
  show ?case
  proof (cases nm)
    case nm: None
    show ?thesis
    proof (cases a)
      case None
      show ?thesis unfolding nm None evals.simps by (intro UN_pair_nonempty args) simp
    next
      case (Some f)
      show ?thesis unfolding nm Some evals.simps
        using IE_CALL.IH(1) Some by (intro UN_pair_nonempty args) simp_all
    qed
  next
    case (Some f)
    then show ?thesis unfolding Some evals.simps by (intro nonempty_intros args)
  qed
qed (unfold evals.simps; intro nonempty_intros; assumption)+

end
