(* ===== verification/Ir_Fold.thy ===== *)
theory Ir_Fold
  imports Ir_Sem
begin

text \<open>
  The expression folder of phase OP6 (\<open>ie_fold\<close> and its helpers in \<open>src/ir68k.c\<close>): constant folding
  and algebraic identities on expression trees, and the proof that a folded expression computes only
  results the original may compute. An \<open>int32_t\<close> is a 32-bit word, read by \<open>sint\<close> where the code
  compares or divides it as a signed number. The pointer comparisons \<open>x == y\<close> of \<open>ie_equal\<close> never
  hold for two operands of one node, since the builder allocates every node; they are left out.
\<close>

section \<open>Helpers\<close>

definition tk_is_integer :: "ty_kind \<Rightarrow> bool" where
  "tk_is_integer k \<longleftrightarrow> k = TY_BOOL \<or> (TY_CHAR \<le> k \<and> k \<le> TY_LONG) \<or> k = TY_ENUM"

fun ie_num :: "ir_expr \<Rightarrow> u32 option" where
  "ie_num (IE_NUM v sz u) = Some (word_of_int v)"
| "ie_num _ = None"

definition ie_num_new :: "u32 \<Rightarrow> int \<Rightarrow> bool \<Rightarrow> ir_expr" where
  "ie_num_new v sz uns = IE_NUM (sint v) (if sz \<noteq> 0 then sz else 4) uns"

fun ie_pure :: "ir_expr \<Rightarrow> bool" where
  "ie_pure (IE_CALL nm a args sz u) = False"
| "ie_pure (IE_STORE a b sz u) = False"
| "ie_pure (IE_MEMZERO v off sz) = False"
| "ie_pure (IE_VDEF t a sz) = False"
| "ie_pure (IE_LOAD a sz u) = ie_pure a"
| "ie_pure (IE_BINOP op a b sz u p) = (ie_pure a \<and> ie_pure b)"
| "ie_pure (IE_UNARY op a sz u) = ie_pure a"
| "ie_pure (IE_LOGAND a b) = (ie_pure a \<and> ie_pure b)"
| "ie_pure (IE_LOGOR a b) = (ie_pure a \<and> ie_pure b)"
| "ie_pure (IE_COND a b c sz u) = (ie_pure a \<and> ie_pure b \<and> ie_pure c)"
| "ie_pure (IE_COMMA a b sz u) = (ie_pure a \<and> ie_pure b)"
| "ie_pure (IE_CAST op a sz u fs fu) = ie_pure a"
| "ie_pure _ = True"

fun ie_trivial :: "ir_expr \<Rightarrow> bool" where
  "ie_trivial (IE_LOAD a sz u) = False"
| "ie_trivial (IE_STORE a b sz u) = False"
| "ie_trivial (IE_CALL nm a args sz u) = False"
| "ie_trivial (IE_MEMZERO v off sz) = False"
| "ie_trivial (IE_VDEF t a sz) = False"
| "ie_trivial (IE_VUSE t sz) = False"
| "ie_trivial (IE_BINOP op a b sz u p) = (ie_trivial a \<and> ie_trivial b)"
| "ie_trivial (IE_UNARY op a sz u) = ie_trivial a"
| "ie_trivial (IE_LOGAND a b) = (ie_trivial a \<and> ie_trivial b)"
| "ie_trivial (IE_LOGOR a b) = (ie_trivial a \<and> ie_trivial b)"
| "ie_trivial (IE_COND a b c sz u) = (ie_trivial a \<and> ie_trivial b \<and> ie_trivial c)"
| "ie_trivial (IE_COMMA a b sz u) = (ie_trivial a \<and> ie_trivial b)"
| "ie_trivial (IE_CAST op a sz u fs fu) = ie_trivial a"
| "ie_trivial _ = True"

fun ie_equal :: "ir_expr \<Rightarrow> ir_expr \<Rightarrow> bool" where
  "ie_equal (IE_NUM v sz u) y = (case y of IE_NUM v' sz' u' \<Rightarrow> v = v' | _ \<Rightarrow> False)"
| "ie_equal (IE_LEA l off nm v) y =
     (case y of IE_LEA l' off' nm' v' \<Rightarrow> v = v' \<and> l = l' \<and> off = off' \<and> nm = nm' | _ \<Rightarrow> False)"
| "ie_equal (IE_LOAD a sz u) y =
     (case y of IE_LOAD a' sz' u' \<Rightarrow> sz = sz' \<and> u = u' \<and> ie_equal a a' | _ \<Rightarrow> False)"
| "ie_equal (IE_CAST op a sz u fs fu) y =
     (case y of IE_CAST op' a' sz' u' fs' fu' \<Rightarrow>
        op = op' \<and> sz = sz' \<and> u = u' \<and> fs = fs' \<and> fu = fu' \<and> ie_equal a a' | _ \<Rightarrow> False)"
| "ie_equal (IE_UNARY op a sz u) y =
     (case y of IE_UNARY op' a' sz' u' \<Rightarrow> op = op' \<and> ie_equal a a' | _ \<Rightarrow> False)"
| "ie_equal (IE_BINOP op a b sz u p) y =
     (case y of IE_BINOP op' a' b' sz' u' p' \<Rightarrow>
        op = op' \<and> sz = sz' \<and> u = u' \<and> ie_equal a a' \<and> ie_equal b b' | _ \<Rightarrow> False)"
| "ie_equal _ _ = False"

definition fold_binop :: "node_kind \<Rightarrow> bool \<Rightarrow> u32 \<Rightarrow> u32 \<Rightarrow> u32 option" where
  "fold_binop op uns a b =
     (if op = ND_ADD then Some (a + b)
      else if op = ND_SUB then Some (a - b)
      else if op = ND_MUL then Some (a * b)
      else if op = ND_BITAND then Some (a AND b)
      else if op = ND_BITOR then Some (a OR b)
      else if op = ND_BITXOR then Some (a XOR b)
      else if op = ND_DIV then
        (if b = 0 then None
         else if uns then Some (a div b)
         else if sint a = - 2147483647 - 1 \<and> sint b = - 1 then None
         else Some (word_of_int (sint a sdiv sint b)))
      else if op = ND_MOD then
        (if b = 0 then None
         else if uns then Some (a mod b)
         else if sint a = - 2147483647 - 1 \<and> sint b = - 1 then None
         else Some (word_of_int (sint a smod sint b)))
      else if op = ND_SHL then
        (if sint b < 0 \<or> 31 < sint b then None else Some (push_bit (unat b) a))
      else if op = ND_SHR then
        (if sint b < 0 \<or> 31 < sint b then None
         else Some (if uns then drop_bit (unat b) a else signed_drop_bit (unat b) a))
      else if op = ND_EQ then Some (of_bool (a = b))
      else if op = ND_NE then Some (of_bool (a \<noteq> b))
      else if op = ND_LT then Some (of_bool (if uns then a < b else sint a < sint b))
      else if op = ND_LE then Some (of_bool (if uns then a \<le> b else sint a \<le> sint b))
      else None)"

definition ie_shl1 :: "int \<Rightarrow> bool \<Rightarrow> ir_expr \<Rightarrow> ir_expr" where
  "ie_shl1 sz uns x = IE_BINOP ND_SHL x (ie_num_new 1 4 False) sz uns False"

definition ie_binop_identity ::
  "node_kind \<Rightarrow> ir_expr \<Rightarrow> ir_expr \<Rightarrow> int \<Rightarrow> bool \<Rightarrow> bool \<Rightarrow> ir_expr" where
  "ie_binop_identity op a b sz uns pa =
     (let e = IE_BINOP op a b sz uns pa; ca = ie_num a; cb = ie_num b in
      if op = ND_ADD then
        (if cb = Some 0 then a else if ca = Some 0 then b
         else if ie_pure a \<and> ie_equal a b then ie_shl1 sz uns a else e)
      else if op = ND_SUB then (if cb = Some 0 then a else e)
      else if op = ND_MUL then
        (if cb = Some 1 then a else if ca = Some 1 then b
         else if cb = Some 0 \<and> ie_trivial a then ie_num_new 0 sz uns
         else if ca = Some 0 \<and> ie_trivial b then ie_num_new 0 sz uns else e)
      else if op = ND_BITAND then
        (if cb = Some (- 1) then a else if ca = Some (- 1) then b
         else if cb = Some 0 \<and> ie_trivial a then ie_num_new 0 sz uns
         else if ca = Some 0 \<and> ie_trivial b then ie_num_new 0 sz uns else e)
      else if op = ND_BITOR \<or> op = ND_BITXOR then
        (if cb = Some 0 then a else if ca = Some 0 then b else e)
      else if op = ND_SHL \<or> op = ND_SHR then (if cb = Some 0 then a else e)
      else e)"

section \<open>The folder\<close>

fun ie_fold :: "ir_expr \<Rightarrow> ir_expr" where
  "ie_fold (IE_CAST op a sz u fs fu) =
     (let a = ie_fold a; e = IE_CAST op a sz u fs fu in
      case ie_num a of None \<Rightarrow> e
      | Some ca \<Rightarrow>
          if op = TY_BOOL then ie_num_new (of_bool (ca \<noteq> 0)) sz u
          else if tk_is_integer op then
            ie_num_new
              (if sz = 1 then (if u then ucast (ucast ca :: u8) else scast (ucast ca :: u8))
               else if sz = 2 then (if u then ucast (ucast ca :: u16) else scast (ucast ca :: u16))
               else ca) sz u
          else e)"
| "ie_fold (IE_UNARY op a sz u) =
     (let a = ie_fold a; e = IE_UNARY op a sz u in
      case ie_num a of None \<Rightarrow> e
      | Some ca \<Rightarrow>
          if op = ND_NEG then ie_num_new (0 - ca) sz u
          else if op = ND_BITNOT then ie_num_new (NOT ca) sz u
          else if op = ND_NOT then ie_num_new (of_bool (ca = 0)) 4 False
          else e)"
| "ie_fold (IE_BINOP op a b sz u pa) =
     (let a = ie_fold a; b = ie_fold b in
      case (ie_num a, ie_num b) of
        (Some ca, Some cb) \<Rightarrow>
          (case fold_binop op u ca cb of
             Some r \<Rightarrow> ie_num_new r sz u | None \<Rightarrow> IE_BINOP op a b sz u pa)
      | _ \<Rightarrow> ie_binop_identity op a b sz u pa)"
| "ie_fold (IE_COND a b c sz u) =
     (let a = ie_fold a; b = ie_fold b; c = ie_fold c in
      case ie_num a of None \<Rightarrow> IE_COND a b c sz u | Some ca \<Rightarrow> if ca \<noteq> 0 then b else c)"
| "ie_fold (IE_LOGAND a b) =
     (let a = ie_fold a; b = ie_fold b in
      case ie_num a of None \<Rightarrow> IE_LOGAND a b
      | Some ca \<Rightarrow>
          if ca = 0 then ie_num_new 0 4 False
          else (case ie_num b of None \<Rightarrow> IE_LOGAND a b
                | Some cb \<Rightarrow> ie_num_new (of_bool (cb \<noteq> 0)) 4 False))"
| "ie_fold (IE_LOGOR a b) =
     (let a = ie_fold a; b = ie_fold b in
      case ie_num a of None \<Rightarrow> IE_LOGOR a b
      | Some ca \<Rightarrow>
          if ca \<noteq> 0 then ie_num_new 1 4 False
          else (case ie_num b of None \<Rightarrow> IE_LOGOR a b
                | Some cb \<Rightarrow> ie_num_new (of_bool (cb \<noteq> 0)) 4 False))"
| "ie_fold (IE_LOAD a sz u) = IE_LOAD (ie_fold a) sz u"
| "ie_fold (IE_STORE a b sz u) = IE_STORE (ie_fold a) (ie_fold b) sz u"
| "ie_fold (IE_COMMA a b sz u) = IE_COMMA (ie_fold a) (ie_fold b) sz u"
| "ie_fold (IE_CALL nm a args sz u) = IE_CALL nm (map_option ie_fold a) (map ie_fold args) sz u"
| "ie_fold (IE_VDEF t a sz) = IE_VDEF t (ie_fold a) sz"
| "ie_fold e = e"

section \<open>Correctness\<close>

text \<open>Nothing is promoted yet when the folder runs: every variable is in its frame slot.\<close>

abbreviation no_promo :: promotion where "no_promo \<equiv> \<lambda>_. 0"

lemma lea_reg_no_promo [simp]: "lea_reg no_promo e = 0"
  by (cases e) auto

definition refines :: "target \<Rightarrow> u32 \<Rightarrow> ir_expr \<Rightarrow> ir_expr \<Rightarrow> bool" where
  "refines T fp e' e \<longleftrightarrow> (\<forall>\<sigma>. evals T fp no_promo e' \<sigma> \<subseteq> evals T fp no_promo e \<sigma>)"

lemma refines_refl [simp]: "refines T fp e e"
  by (simp add: refines_def)

lemma refines_trans [trans]: "refines T fp a b \<Longrightarrow> refines T fp b c \<Longrightarrow> refines T fp a c"
  by (auto simp: refines_def)

lemma UN_pair_mono:
  "A \<subseteq> A' \<Longrightarrow> (\<And>x y. B x y \<subseteq> B' x y) \<Longrightarrow> (\<Union>(x, y) \<in> A. B x y) \<subseteq> (\<Union>(x, y) \<in> A'. B' x y)"
  by fastforce

lemma if_mono_sets: "A \<subseteq> A' \<Longrightarrow> B \<subseteq> B' \<Longrightarrow> (if c then A else B) \<subseteq> (if c then A' else B')"
  by auto

lemmas mono_intros = UN_pair_mono Un_mono if_mono_sets subset_refl

lemma evals_args_refines:
  "list_all2 (refines T fp) es' es \<Longrightarrow>
     evals_args T fp no_promo es' \<sigma> \<subseteq> evals_args T fp no_promo es \<sigma>"
proof (induction es' es arbitrary: \<sigma> rule: list_all2_induct)
  case (Cons e' es' e es)
  then show ?case unfolding evals_args.simps
    by (intro UN_pair_mono) (auto simp: refines_def)
qed simp

text \<open>Refinement is a congruence of every constructor.\<close>

named_theorems refine_cong

lemma refines_LOAD [refine_cong]: "refines T fp a' a \<Longrightarrow> refines T fp (IE_LOAD a' sz u) (IE_LOAD a sz u)"
  unfolding refines_def evals.simps lea_reg_no_promo by (auto intro!: mono_intros)

lemma refines_STORE [refine_cong]:
  "refines T fp a' a \<Longrightarrow> refines T fp b' b \<Longrightarrow> refines T fp (IE_STORE a' b' sz u) (IE_STORE a b sz u)"
  unfolding refines_def evals.simps lea_reg_no_promo by (intro allI mono_intros) auto

lemma refines_BINOP [refine_cong]:
  "refines T fp a' a \<Longrightarrow> refines T fp b' b \<Longrightarrow>
     refines T fp (IE_BINOP op a' b' sz u p) (IE_BINOP op a b sz u p)"
  unfolding refines_def evals.simps by (intro allI mono_intros) auto

lemma refines_UNARY [refine_cong]:
  "refines T fp a' a \<Longrightarrow> refines T fp (IE_UNARY op a' sz u) (IE_UNARY op a sz u)"
  unfolding refines_def evals.simps by (intro allI mono_intros) auto

lemma refines_LOGAND [refine_cong]:
  "refines T fp a' a \<Longrightarrow> refines T fp b' b \<Longrightarrow> refines T fp (IE_LOGAND a' b') (IE_LOGAND a b)"
  unfolding refines_def evals.simps by (intro allI mono_intros) auto

lemma refines_LOGOR [refine_cong]:
  "refines T fp a' a \<Longrightarrow> refines T fp b' b \<Longrightarrow> refines T fp (IE_LOGOR a' b') (IE_LOGOR a b)"
  unfolding refines_def evals.simps by (intro allI mono_intros) auto

lemma refines_COND [refine_cong]:
  "refines T fp a' a \<Longrightarrow> refines T fp b' b \<Longrightarrow> refines T fp c' c \<Longrightarrow>
     refines T fp (IE_COND a' b' c' sz u) (IE_COND a b c sz u)"
  unfolding refines_def evals.simps by (intro allI mono_intros) auto

lemma refines_COMMA [refine_cong]:
  "refines T fp a' a \<Longrightarrow> refines T fp b' b \<Longrightarrow> refines T fp (IE_COMMA a' b' sz u) (IE_COMMA a b sz u)"
  unfolding refines_def evals.simps by (intro allI mono_intros) auto

lemma refines_CAST [refine_cong]:
  "refines T fp a' a \<Longrightarrow> refines T fp (IE_CAST op a' sz u fs fu) (IE_CAST op a sz u fs fu)"
  unfolding refines_def evals.simps by (intro allI mono_intros) auto

lemma refines_VDEF [refine_cong]: "refines T fp a' a \<Longrightarrow> refines T fp (IE_VDEF t a' sz) (IE_VDEF t a sz)"
  unfolding refines_def evals.simps by (intro allI mono_intros) auto

lemma refines_CALL [refine_cong]:
  assumes "rel_option (refines T fp) a' a" and "list_all2 (refines T fp) es' es"
  shows "refines T fp (IE_CALL nm a' es' sz u) (IE_CALL nm a es sz u)"
proof -
  have args: "evals_args T fp no_promo es' \<sigma> \<subseteq> evals_args T fp no_promo es \<sigma>" for \<sigma>
    using evals_args_refines [OF assms(2)] .
  show ?thesis
  proof (cases nm)
    case nm: None
    show ?thesis
    proof (cases a)
      case None
      then have a': "a' = None" using assms(1) by simp
      show ?thesis unfolding refines_def nm None a' evals.simps
        by (intro allI UN_pair_mono args subset_refl)
    next
      case (Some f)
      then obtain f' where f: "a' = Some f'" "refines T fp f' f" using assms(1) by (cases a') auto
      show ?thesis using f(2) unfolding refines_def nm Some f(1) evals.simps
        by (intro allI UN_pair_mono args) auto
    qed
  next
    case (Some f)
    then show ?thesis unfolding refines_def Some evals.simps
      by (intro allI UN_pair_mono args subset_refl)
  qed
qed

section \<open>Facts about the helpers\<close>

lemma evals_num: "ie_num e = Some c \<Longrightarrow> evals T fp \<rho> e \<sigma> = {(c, \<sigma>)}"
  by (cases e) auto

lemma evals_num_new [simp]: "evals T fp \<rho> (ie_num_new v sz u) \<sigma> = {(v, \<sigma>)}"
  by (simp add: ie_num_new_def)

lemma trivial_state: "ie_trivial e \<Longrightarrow> (v, \<sigma>') \<in> evals T fp \<rho> e \<sigma> \<Longrightarrow> \<sigma>' = \<sigma>"
proof (induction e arbitrary: v \<sigma>' \<sigma>)
  case (IE_COND a b c sz u)
  then show ?case by (fastforce split: if_splits)
qed (fastforce split: if_splits)+

lemma trivial_const:
  assumes "ie_trivial e"
  shows "\<exists>v. (v, \<sigma>) \<in> evals T fp \<rho> e \<sigma>"
  using evals_nonempty [of T fp \<rho> e \<sigma>] trivial_state [OF assms] by fastforce

lemma ie_equal_lea_reg: "ie_equal a b \<Longrightarrow> lea_reg \<rho> a = lea_reg \<rho> b"
  by (cases a; cases b) simp_all

lemma ie_equal_evals: "ie_equal a b \<Longrightarrow> evals T fp \<rho> a \<sigma> = evals T fp \<rho> b \<sigma>"
proof (induction a b arbitrary: \<sigma> rule: ie_equal.induct)
  case (3 a sz u y)
  then obtain a' where y: "y = IE_LOAD a' sz u" "ie_equal a a'" by (cases y) auto
  then show ?case using "3.IH" [OF y(1)] ie_equal_lea_reg [OF y(2), of \<rho>] by simp
qed (auto split: ir_expr.splits)

lemma ie_equal_det: "ie_equal a b \<Longrightarrow> \<exists>v. evals T fp \<rho> a \<sigma> = {(v, \<sigma>)}"
proof (induction a arbitrary: b \<sigma>)
  case (IE_BINOP op a1 a2 sz u p)
  then obtain b1 b2 where "ie_equal a1 b1" "ie_equal a2 b2" by (auto split: ir_expr.splits)
  with IE_BINOP.IH obtain v w where
    "evals T fp \<rho> a1 \<sigma> = {(v, \<sigma>)}" "evals T fp \<rho> a2 \<sigma> = {(w, \<sigma>)}" by blast
  then show ?case by simp
next
  case (IE_LOAD a sz u)
  then obtain b' where "ie_equal a b'" by (auto split: ir_expr.splits)
  with IE_LOAD.IH obtain v where "evals T fp \<rho> a \<sigma> = {(v, \<sigma>)}" by blast
  then show ?case by simp
next
  case (IE_CAST op a sz u fs fu)
  then obtain b' where "ie_equal a b'" by (auto split: ir_expr.splits)
  with IE_CAST.IH obtain v where "evals T fp \<rho> a \<sigma> = {(v, \<sigma>)}" by blast
  then show ?case by simp
next
  case (IE_UNARY op a sz u)
  then obtain b' where "ie_equal a b'" by (auto split: ir_expr.splits)
  with IE_UNARY.IH obtain v where "evals T fp \<rho> a \<sigma> = {(v, \<sigma>)}" by blast
  then show ?case by simp
qed auto

lemma shift_count_small:
  assumes "0 \<le> sint b" "sint b \<le> 31"
  shows "shift_count b = unat b"
proof -
  have "unat b < 64" using unat_small_sint [of b 64] assms by simp
  then have "take_bit 6 (unat b) = unat b" by (intro take_bit_nat_eq_self) simp
  then show ?thesis by (simp only: shift_count_def and_63 unsigned_take_bit_eq)
qed

lemma div_undef_sint:
  "div_undef uns a b \<longleftrightarrow> b = 0 \<or> \<not> uns \<and> sint a = - 2147483647 - 1 \<and> sint b = - 1"
  using word_eq_iff_signed [of a "0x80000000"] word_eq_iff_signed [of b "- 1"]
  by (auto simp: div_undef_def)

lemma fold_binop_correct: "fold_binop op uns a b = Some r \<Longrightarrow> binop_val T op uns a b = r"
  by (cases op) (auto simp: fold_binop_def binop_val_def div_undef_sint div_val_def mod_val_def
      rel_val_def lt_val_def le_val_def shift_count_small word_sless_alt word_sle_eq not_less
      split: if_splits)

lemma shl1_double: "binop_val T ND_SHL u x 1 = x + x"
  by (simp add: binop_val_def shift_count_def flip: mult_2)

lemma evals_shl1:
  assumes "evals T fp \<rho> x \<sigma> = {(v, \<sigma>)}"
  shows "evals T fp \<rho> (ie_shl1 sz u x) \<sigma> = {(v + v, \<sigma>)}"
  using assms by (simp add: ie_shl1_def shl1_double)

text \<open>An operand that is a constant can be evaluated first or last: the other decides the result.\<close>

lemma evals_binop_const_right:
  assumes "ie_num b = Some c"
  shows "evals T fp \<rho> (IE_BINOP op a b sz u pa) \<sigma> =
    (\<lambda>(x, \<sigma>'). (binop_val T op u x c, \<sigma>')) ` evals T fp \<rho> a \<sigma>"
  by (auto simp: evals_num [OF assms] image_iff)

lemma evals_binop_const_left:
  assumes "ie_num a = Some c"
  shows "evals T fp \<rho> (IE_BINOP op a b sz u pa) \<sigma> =
    (\<lambda>(y, \<sigma>'). (binop_val T op u c y, \<sigma>')) ` evals T fp \<rho> b \<sigma>"
  by (auto simp: evals_num [OF assms] image_iff)

lemma neutral_right:
  assumes "ie_num b = Some c" and "\<And>x. binop_val T op u x c = x"
  shows "refines T fp a (IE_BINOP op a b sz u pa)"
  unfolding refines_def evals_binop_const_right [OF assms(1)] assms(2) by force

lemma neutral_left:
  assumes "ie_num a = Some c" and "\<And>y. binop_val T op u c y = y"
  shows "refines T fp b (IE_BINOP op a b sz u pa)"
  unfolding refines_def evals_binop_const_left [OF assms(1)] assms(2) by force

lemma absorb_right:
  assumes "ie_num b = Some c" and "\<And>x. binop_val T op u x c = 0" and "ie_trivial a"
  shows "refines T fp (ie_num_new 0 sz' u') (IE_BINOP op a b sz u pa)"
  unfolding refines_def evals_binop_const_right [OF assms(1)] assms(2)
  using trivial_const [OF assms(3), of _ T fp no_promo] by (force simp: image_iff)

lemma absorb_left:
  assumes "ie_num a = Some c" and "\<And>y. binop_val T op u c y = 0" and "ie_trivial b"
  shows "refines T fp (ie_num_new 0 sz' u') (IE_BINOP op a b sz u pa)"
  unfolding refines_def evals_binop_const_left [OF assms(1)] assms(2)
  using trivial_const [OF assms(3), of _ T fp no_promo] by (force simp: image_iff)

lemma double_shl1:
  assumes "ie_equal a b"
  shows "refines T fp (ie_shl1 sz u a) (IE_BINOP ND_ADD a b sz u pa)"
proof (unfold refines_def, intro allI)
  fix \<sigma>
  obtain v where v: "evals T fp no_promo a \<sigma> = {(v, \<sigma>)}" using ie_equal_det [OF assms] by blast
  then have "evals T fp no_promo b \<sigma> = {(v, \<sigma>)}" using ie_equal_evals [OF assms] by metis
  with v show "evals T fp no_promo (ie_shl1 sz u a) \<sigma> \<subseteq>
      evals T fp no_promo (IE_BINOP ND_ADD a b sz u pa) \<sigma>"
    by (simp add: evals_shl1 [OF v] binop_val_def)
qed

lemmas operand_rules = neutral_right neutral_left absorb_right absorb_left double_shl1

lemma identity_refines:
  "refines T fp (ie_binop_identity op a b sz u pa) (IE_BINOP op a b sz u pa)"
  by (cases op; simp add: ie_binop_identity_def Let_def split: if_split;
      (intro conjI impI)?; (elim conjE)?; (erule operand_rules | rule operand_rules)?;
      simp add: binop_val_def shift_count_def)

lemma cast_num_refines:
  assumes "ie_num a = Some ca"
  shows "op = TY_BOOL \<Longrightarrow>
      refines T fp (ie_num_new (of_bool (ca \<noteq> 0)) sz' u') (IE_CAST op a sz u fs fu)"
    and "tk_is_integer op \<Longrightarrow> op \<noteq> TY_BOOL \<Longrightarrow>
      refines T fp (ie_num_new (narrow_val sz u ca) sz' u') (IE_CAST op a sz u fs fu)"
  by (auto simp: refines_def evals_num [OF assms] cast_val_def tk_is_integer_def less_eq_ty_kind_def)

lemma fold_refines: "refines T fp (ie_fold e) e"
proof (induction e rule: ie_fold.induct)
  case (1 op a sz u fs fu)
  let ?a = "ie_fold a"
  have c: "refines T fp (IE_CAST op ?a sz u fs fu) (IE_CAST op a sz u fs fu)"
    using "1.IH" by (rule refine_cong)
  have "refines T fp (ie_fold (IE_CAST op a sz u fs fu)) (IE_CAST op ?a sz u fs fu)"
    using cast_num_refines [of ?a] by (auto simp: Let_def narrow_val_def split: option.split)
  then show ?case using c by (rule refines_trans)
next
  case (2 op a sz u)
  let ?a = "ie_fold a"
  have c: "refines T fp (IE_UNARY op ?a sz u) (IE_UNARY op a sz u)"
    using "2.IH" by (rule refine_cong)
  have "refines T fp (ie_fold (IE_UNARY op a sz u)) (IE_UNARY op ?a sz u)"
    by (auto simp: Let_def refines_def unary_val_def evals_num split: option.split)
  then show ?case using c by (rule refines_trans)
next
  case (3 op a b sz u pa)
  let ?a = "ie_fold a" and ?b = "ie_fold b"
  have c: "refines T fp (IE_BINOP op ?a ?b sz u pa) (IE_BINOP op a b sz u pa)"
    using "3.IH" by (auto intro: refine_cong)
  have two: "refines T fp (ie_num_new r sz u) (IE_BINOP op ?a ?b sz u pa)"
    if "ie_num ?a = Some x" "ie_num ?b = Some y" "fold_binop op u x y = Some r" for x y r
    using that by (simp add: refines_def evals_num fold_binop_correct)
  have "refines T fp (ie_fold (IE_BINOP op a b sz u pa)) (IE_BINOP op ?a ?b sz u pa)"
    unfolding ie_fold.simps Let_def by (auto split: option.split intro: identity_refines two)
  then show ?case using c by (rule refines_trans)
next
  case (4 a b c sz u)
  let ?a = "ie_fold a" and ?b = "ie_fold b" and ?c = "ie_fold c"
  have c: "refines T fp (IE_COND ?a ?b ?c sz u) (IE_COND a b c sz u)"
    using "4.IH" by (auto intro: refine_cong)
  have "refines T fp (ie_fold (IE_COND a b c sz u)) (IE_COND ?a ?b ?c sz u)"
    by (auto simp: Let_def refines_def evals_num split: option.split)
  then show ?case using c by (rule refines_trans)
next
  case (5 a b)
  let ?a = "ie_fold a" and ?b = "ie_fold b"
  have c: "refines T fp (IE_LOGAND ?a ?b) (IE_LOGAND a b)"
    using "5.IH" by (auto intro: refine_cong)
  have "refines T fp (ie_fold (IE_LOGAND a b)) (IE_LOGAND ?a ?b)"
    by (auto simp: Let_def refines_def evals_num split: option.split)
  then show ?case using c by (rule refines_trans)
next
  case (6 a b)
  let ?a = "ie_fold a" and ?b = "ie_fold b"
  have c: "refines T fp (IE_LOGOR ?a ?b) (IE_LOGOR a b)"
    using "6.IH" by (auto intro: refine_cong)
  have "refines T fp (ie_fold (IE_LOGOR a b)) (IE_LOGOR ?a ?b)"
    by (auto simp: Let_def refines_def evals_num split: option.split)
  then show ?case using c by (rule refines_trans)
next
  case (10 nm a args sz u)
  have "rel_option (refines T fp) (map_option ie_fold a) a"
    using "10.IH" by (cases a) auto
  moreover have "list_all2 (refines T fp) (map ie_fold args) args"
    using "10.IH" by (simp add: list_all2_conv_all_nth)
  ultimately show ?case by (simp add: refines_CALL)
qed (auto intro: refine_cong)

text \<open>
  C5: Constant folding is sound: every result and final state of a folded expression, calls, stores
  and both operand orders included, is one the expression itself may have.
\<close>

theorem ie_fold_correct:
  "evals T fp no_promo (ie_fold e) \<sigma> \<subseteq> evals T fp no_promo e \<sigma>"
  using fold_refines by (simp add: refines_def)

end
