(* ===== verification/Ir_Cfg.thy ===== *)
theory Ir_Cfg
  imports Ir_Sem
begin

text \<open>
  The control-flow graph of an item list (\<open>ir_build_cfg\<close> of \<open>src/ir68k.c\<close>): leaders, basic blocks as
  half-open item ranges, successor edges from the last item of each block and predecessor lists as
  their inverse. The lemmas say that the blocks partition the items, that control moves only
  along the edges, and that the predecessor lists are the inverted edges.
\<close>

section \<open>Construction\<close>

definition is_label :: "ir_item \<Rightarrow> bool" where
  "is_label it \<longleftrightarrow> (case it of II_LABEL l \<Rightarrow> True | _ \<Rightarrow> False)"

definition is_transfer :: "ir_item \<Rightarrow> bool" where
  "is_transfer it \<longleftrightarrow> (case it of II_JMP l \<Rightarrow> True | II_CBR e l w \<Rightarrow> True | II_RET e \<Rightarrow> True | _ \<Rightarrow> False)"

text \<open>\<open>lead[i]\<close>: the first item, every label, and the item after any transfer.\<close>

definition leader :: "ir_item list \<Rightarrow> nat \<Rightarrow> bool" where
  "leader P i \<longleftrightarrow> i = 0 \<or> is_label (P ! i) \<or> is_transfer (P ! (i - 1))"

function block_stop :: "(nat \<Rightarrow> bool) \<Rightarrow> nat \<Rightarrow> nat \<Rightarrow> nat" where
  "block_stop lead n j = (if j < n \<and> \<not> lead j then block_stop lead n (Suc j) else j)"
  by pat_completeness auto
termination
  by (relation "measure (\<lambda>(lead, n, j). n - j)") auto

declare block_stop.simps [simp del]

definition block_ranges :: "ir_item list \<Rightarrow> (nat \<times> nat) list" where
  "block_ranges P = map (\<lambda>i. (i, block_stop (leader P) (length P) (Suc i)))
     (filter (leader P) [0..<length P])"

definition block_of_label :: "ir_item list \<Rightarrow> (nat \<times> nat) list \<Rightarrow> string \<Rightarrow> nat option" where
  "block_of_label P rs name =
     find (\<lambda>b. list_ex (\<lambda>i. P ! i = II_LABEL name) [fst (rs ! b)..<snd (rs ! b)]) [0..<length rs]"

definition block_succ :: "ir_item list \<Rightarrow> (nat \<times> nat) list \<Rightarrow> nat \<Rightarrow> nat list" where
  "block_succ P rs b =
     (let next_b = (if b + 1 < length rs then [b + 1] else []);
          target = (\<lambda>l. case block_of_label P rs l of Some t \<Rightarrow> [t] | None \<Rightarrow> [])
      in case P ! (snd (rs ! b) - 1) of
        II_JMP l \<Rightarrow> target l
      | II_RET e \<Rightarrow> []
      | II_CBR e l w \<Rightarrow> target l @ next_b
      | _ \<Rightarrow> next_b)"

record ir_block =
  bl_start :: nat
  bl_end :: nat
  bl_succ :: "nat list"
  bl_pred :: "nat list"

text \<open>The predecessors of a block in the order the edges are inverted: by block, then by edge.\<close>

definition block_preds :: "nat list list \<Rightarrow> nat \<Rightarrow> nat list" where
  "block_preds ss t = concat (map (\<lambda>b. map (\<lambda>s. b) (filter (\<lambda>s. s = t) (ss ! b))) [0..<length ss])"

definition ir_build_cfg :: "ir_item list \<Rightarrow> ir_block list" where
  "ir_build_cfg P =
     (let rs = block_ranges P; ss = map (block_succ P rs) [0..<length rs]
      in map (\<lambda>b. \<lparr>bl_start = fst (rs ! b), bl_end = snd (rs ! b), bl_succ = ss ! b,
                   bl_pred = block_preds ss b\<rparr>) [0..<length rs])"

section \<open>Blocks partition the items\<close>

lemma block_stop_bounds: "j \<le> n \<Longrightarrow> j \<le> block_stop lead n j \<and> block_stop lead n j \<le> n"
proof (induction lead n j rule: block_stop.induct)
  case (1 lead n j)
  then show ?case by (cases "j < n \<and> \<not> lead j") (auto simp: block_stop.simps [of lead n j])
qed

lemma block_stop_inside: "j \<le> i \<Longrightarrow> i < block_stop lead n j \<Longrightarrow> \<not> lead i"
proof (induction lead n j rule: block_stop.induct)
  case (1 lead n j)
  show ?case
  proof (cases "j < n \<and> \<not> lead j")
    case True
    with 1 show ?thesis by (cases "i = j") (auto simp: block_stop.simps [of lead n j])
  next
    case False
    with 1 show ?thesis by (auto simp: block_stop.simps [of lead n j])
  qed
qed

lemma block_stop_end: "block_stop lead n j < n \<Longrightarrow> lead (block_stop lead n j)"
proof (induction lead n j rule: block_stop.induct)
  case (1 lead n j)
  then show ?case by (cases "j < n \<and> \<not> lead j") (auto simp: block_stop.simps [of lead n j])
qed

text \<open>The block an item lies in starts at the last leader at or before it.\<close>

definition block_start_of :: "ir_item list \<Rightarrow> nat \<Rightarrow> nat" where
  "block_start_of P i = Max {k. k \<le> i \<and> leader P k}"

lemma leader_0 [simp]: "leader P 0"
  by (simp add: leader_def)

lemma block_start_of_props:
  shows "block_start_of P i \<le> i" and "leader P (block_start_of P i)"
    and "block_start_of P i < k \<Longrightarrow> k \<le> i \<Longrightarrow> \<not> leader P k"
proof -
  let ?S = "{k. k \<le> i \<and> leader P k}"
  have f: "finite ?S" by simp
  have "0 \<in> ?S" by simp
  then have ne: "?S \<noteq> {}" by blast
  then have "Max ?S \<in> ?S" using f Max_in by blast
  then show "block_start_of P i \<le> i" "leader P (block_start_of P i)"
    by (auto simp: block_start_of_def)
  show "block_start_of P i < k \<Longrightarrow> k \<le> i \<Longrightarrow> \<not> leader P k"
  proof
    assume lt: "block_start_of P i < k" and "k \<le> i" "leader P k"
    then have "k \<in> ?S" by simp
    then have "k \<le> Max ?S" using Max_ge [OF f] by blast
    with lt show False by (simp add: block_start_of_def)
  qed
qed

lemma block_stop_reaches:
  assumes "\<forall>k. j \<le> k \<and> k \<le> i \<longrightarrow> \<not> lead k" and "i < n" and "j \<le> Suc i"
  shows "i < block_stop lead n j"
  using assms
proof (induction lead n j rule: block_stop.induct)
  case (1 lead n j)
  show ?case
  proof (cases "j \<le> i")
    case True
    then have j: "j < n \<and> \<not> lead j" using "1.prems" by auto
    then have "i < block_stop lead n (Suc j)" using "1.IH" "1.prems" True by auto
    with j show ?thesis by (simp add: block_stop.simps [of lead n j])
  next
    case False
    then have "j = Suc i" using "1.prems"(3) by simp
    then show ?thesis using block_stop_bounds [of j n lead] "1.prems"(2) by simp
  qed
qed

lemma in_block_ranges:
  "(s, e) \<in> set (block_ranges P) \<longleftrightarrow>
     s < length P \<and> leader P s \<and> e = block_stop (leader P) (length P) (Suc s)"
  by (auto simp: block_ranges_def)

lemma item_in_block:
  assumes "i < length P"
  shows "(block_start_of P i, block_stop (leader P) (length P) (Suc (block_start_of P i)))
      \<in> set (block_ranges P)"
    and "i < block_stop (leader P) (length P) (Suc (block_start_of P i))"
proof -
  note p = block_start_of_props [of P i]
  show "(block_start_of P i, block_stop (leader P) (length P) (Suc (block_start_of P i)))
      \<in> set (block_ranges P)"
    unfolding in_block_ranges using p(1,2) assms by simp
  show "i < block_stop (leader P) (length P) (Suc (block_start_of P i))"
    by (rule block_stop_reaches) (use assms p(1,3) in auto)
qed

abbreviation starts :: "ir_item list \<Rightarrow> nat list" where
  "starts P \<equiv> filter (leader P) [0..<length P]"

lemma length_ranges: "length (block_ranges P) = length (starts P)"
  by (simp add: block_ranges_def)

lemma fst_range: "b < length (block_ranges P) \<Longrightarrow> fst (block_ranges P ! b) = starts P ! b"
  by (simp add: block_ranges_def)

lemma snd_range:
  "b < length (block_ranges P) \<Longrightarrow>
     snd (block_ranges P ! b) = block_stop (leader P) (length P) (Suc (starts P ! b))"
  by (simp add: block_ranges_def)

lemma starts_strict: "a < b \<Longrightarrow> b < length (starts P) \<Longrightarrow> starts P ! a < starts P ! b"
  by (rule sorted_wrt_nth_less [OF sorted_wrt_filter [OF sorted_wrt_upt]])

lemma starts_mono: "a \<le> b \<Longrightarrow> b < length (starts P) \<Longrightarrow> starts P ! a \<le> starts P ! b"
  using starts_strict [of a b P] by (cases "a = b") auto

lemma starts_nth: "b < length (starts P) \<Longrightarrow> starts P ! b < length P \<and> leader P (starts P ! b)"
  using nth_mem [of b "starts P"] by auto

lemma range_next:
  assumes b: "Suc b < length (block_ranges P)"
  shows "snd (block_ranges P ! b) = fst (block_ranges P ! Suc b)"
proof -
  let ?L = "starts P" and ?n = "length P"
  let ?e = "block_stop (leader P) ?n (Suc (?L ! b))"
  have lt: "?L ! b < ?L ! Suc b" using starts_strict [of b "Suc b" P] b by (simp add: length_ranges)
  have nx: "?L ! Suc b < ?n" "leader P (?L ! Suc b)"
    using starts_nth [of "Suc b" P] b by (simp_all add: length_ranges)
  have bd: "Suc (?L ! b) \<le> ?e" "?e \<le> ?n"
    using block_stop_bounds [of "Suc (?L ! b)" ?n "leader P"] lt nx by auto
  have le: "?e \<le> ?L ! Suc b"
    using block_stop_inside [of "Suc (?L ! b)" "?L ! Suc b" "leader P" ?n] lt nx(2) by fastforce
  then have "leader P ?e" using nx(1) block_stop_end [of "leader P" ?n "Suc (?L ! b)"] by simp
  then have "?e \<in> set ?L" using le nx(1) by simp
  then obtain c where c: "c < length ?L" "?L ! c = ?e" unfolding in_set_conv_nth by blast
  have "b < c"
  proof (rule ccontr)
    assume "\<not> b < c"
    then have "?L ! c \<le> ?L ! b" using starts_mono [of c b P] b by (simp add: length_ranges)
    then show False using c bd(1) by simp
  qed
  then have "?L ! Suc b \<le> ?L ! c" using starts_mono [of "Suc b" c P] c(1) by simp
  then have "?e = ?L ! Suc b" using le c(2) by simp
  then show ?thesis using b by (simp add: fst_range snd_range)
qed

lemma range_last:
  assumes "Suc b = length (block_ranges P)"
  shows "snd (block_ranges P ! b) = length P"
proof (rule ccontr)
  let ?L = "starts P" and ?n = "length P"
  let ?e = "block_stop (leader P) ?n (Suc (?L ! b))"
  assume "snd (block_ranges P ! b) \<noteq> ?n"
  then have ne: "?e \<noteq> ?n" using assms snd_range [of b P] by simp
  have b: "b < length ?L" using assms by (simp add: length_ranges)
  have bd: "Suc (?L ! b) \<le> ?e" "?e < ?n"
    using block_stop_bounds [of "Suc (?L ! b)" ?n "leader P"] starts_nth [OF b] ne by auto
  then have "?e \<in> set ?L" using block_stop_end [of "leader P" ?n "Suc (?L ! b)"] by simp
  then obtain c where c: "c < length ?L" "?L ! c = ?e" unfolding in_set_conv_nth by blast
  then have "c \<le> b" using assms by (simp add: length_ranges)
  then have "?L ! c \<le> ?L ! b" using starts_mono [of c b P] b by simp
  then show False using c bd(1) by simp
qed

lemma length_cfg [simp]: "length (ir_build_cfg P) = length (block_ranges P)"
  by (simp add: ir_build_cfg_def Let_def)

lemma cfg_nth:
  assumes "b < length (block_ranges P)"
  shows "bl_start (ir_build_cfg P ! b) = fst (block_ranges P ! b)"
    and "bl_end (ir_build_cfg P ! b) = snd (block_ranges P ! b)"
    and "bl_succ (ir_build_cfg P ! b) = block_succ P (block_ranges P) b"
    and "bl_pred (ir_build_cfg P ! b) =
      block_preds (map (block_succ P (block_ranges P)) [0..<length (block_ranges P)]) b"
  using assms by (simp_all add: ir_build_cfg_def Let_def)

lemma block_bounds:
  assumes "b < length (block_ranges P)"
  shows "fst (block_ranges P ! b) < snd (block_ranges P ! b)"
    and "snd (block_ranges P ! b) \<le> length P"
    and "leader P (fst (block_ranges P ! b))"
    and "fst (block_ranges P ! b) < k \<Longrightarrow> k < snd (block_ranges P ! b) \<Longrightarrow> \<not> leader P k"
proof -
  have b: "b < length (starts P)" using assms by (simp add: length_ranges)
  note st = starts_nth [OF b]
  note bd = block_stop_bounds [of "Suc (starts P ! b)" "length P" "leader P"]
  show "fst (block_ranges P ! b) < snd (block_ranges P ! b)" "snd (block_ranges P ! b) \<le> length P"
    "leader P (fst (block_ranges P ! b))"
    using st bd assms by (auto simp: fst_range snd_range)
  show "fst (block_ranges P ! b) < k \<Longrightarrow> k < snd (block_ranges P ! b) \<Longrightarrow> \<not> leader P k"
    using block_stop_inside [of "Suc (starts P ! b)" k "leader P" "length P"] assms
    by (simp add: fst_range snd_range)
qed

section \<open>Labels\<close>

lemma label_index_Some:
  "label_index P l = Some j \<Longrightarrow> j < length P \<and> P ! j = II_LABEL l \<and> (\<forall>i < j. P ! i \<noteq> II_LABEL l)"
proof (induction P arbitrary: j)
  case (Cons it P)
  show ?case
  proof (cases "it = II_LABEL l")
    case False
    with Cons.prems obtain k where k: "label_index P l = Some k" "j = Suc k" by auto
    with Cons.IH [OF k(1)] False show ?thesis by (auto simp: less_Suc_eq_0_disj)
  qed (use Cons.prems in auto)
qed simp

lemma label_index_None: "label_index P l = None \<longleftrightarrow> II_LABEL l \<notin> set P"
  by (induction P) auto

lemma label_index_unique:
  "j < length P \<Longrightarrow> P ! j = II_LABEL l \<Longrightarrow> \<forall>i < j. P ! i \<noteq> II_LABEL l \<Longrightarrow> label_index P l = Some j"
proof (induction P arbitrary: j)
  case (Cons it P)
  then show ?case
  proof (cases j)
    case (Suc k)
    with Cons.prems have "P ! k = II_LABEL l" "k < length P" "\<forall>i < k. P ! i \<noteq> II_LABEL l" "it \<noteq> II_LABEL l"
      by auto
    with Cons.IH Suc show ?thesis by simp
  qed simp
qed simp

section \<open>Blocks, labels and edges\<close>

lemma upt_glue: "i \<le> j \<Longrightarrow> j \<le> k \<Longrightarrow> [i..<j] @ [j..<k] = [i..<k]"
  using upt_add_eq_append [of i j "k - j"] by simp

lemma ranges_empty [simp]: "block_ranges P = [] \<longleftrightarrow> P = []"
proof
  assume "block_ranges P = []"
  then have "starts P = []" by (simp add: block_ranges_def)
  then have "\<forall>i < length P. \<not> leader P i" by (simp add: filter_empty_conv)
  then show "P = []" using leader_0 [of P] by blast
qed (simp add: block_ranges_def)

lemma starts_0: "P \<noteq> [] \<Longrightarrow> starts P ! 0 = 0"
  by (cases P) (simp_all add: upt_rec [of 0])

lemma ranges_prefix:
  "k \<le> length (block_ranges P) \<Longrightarrow>
   concat (map (\<lambda>r. [fst r..<snd r]) (take k (block_ranges P))) =
     [0..<(if k < length (block_ranges P) then fst (block_ranges P ! k) else length P)]"
proof (induction k)
  case 0
  then show ?case by (cases "P = []") (simp_all add: fst_range starts_0)
next
  case (Suc k)
  let ?rs = "block_ranges P"
  have k: "k < length ?rs" using Suc.prems by simp
  have bd: "fst (?rs ! k) < snd (?rs ! k)" using block_bounds(1) [OF k] .
  have "concat (map (\<lambda>r. [fst r..<snd r]) (take (Suc k) ?rs)) =
      [0..<fst (?rs ! k)] @ [fst (?rs ! k)..<snd (?rs ! k)]"
    using Suc k by (simp add: take_Suc_conv_app_nth)
  also have "\<dots> = [0..<snd (?rs ! k)]"
    using bd by (simp add: upt_glue)
  also have "snd (?rs ! k) = (if Suc k < length ?rs then fst (?rs ! Suc k) else length P)"
    using range_next [of k P] range_last [of k P] Suc.prems by (cases "Suc k < length ?rs") auto
  finally show ?case .
qed

lemma cfg_ranges:
  "map (\<lambda>b. (bl_start b, bl_end b)) (ir_build_cfg P) = block_ranges P"
  by (rule nth_equalityI) (simp_all add: cfg_nth)

lemma leader_is_start:
  "i < length P \<Longrightarrow> leader P i \<Longrightarrow> \<exists>b < length (block_ranges P). fst (block_ranges P ! b) = i"
proof -
  assume "i < length P" "leader P i"
  then have "i \<in> set (starts P)" by simp
  then obtain b where "b < length (starts P)" "starts P ! b = i" unfolding in_set_conv_nth by blast
  then show ?thesis using fst_range [of b P] by (auto simp: length_ranges)
qed

lemma label_in_block:
  assumes "b < length (block_ranges P)" "fst (block_ranges P ! b) \<le> i" "i < snd (block_ranges P ! b)"
    and "is_label (P ! i)"
  shows "i = fst (block_ranges P ! b)"
  using block_bounds(4) [OF assms(1), of i] assms(2-4) by (force simp: leader_def)

lemma transfer_in_block:
  assumes "b < length (block_ranges P)" "fst (block_ranges P ! b) \<le> i" "i < snd (block_ranges P ! b)"
    and "is_transfer (P ! i)"
  shows "Suc i = snd (block_ranges P ! b)"
  using block_bounds(4) [OF assms(1), of "Suc i"] assms(2-4) by (force simp: leader_def)

lemma block_has_label:
  assumes "b < length (block_ranges P)"
  shows "list_ex (\<lambda>i. P ! i = II_LABEL l) [fst (block_ranges P ! b)..<snd (block_ranges P ! b)] \<longleftrightarrow>
    P ! fst (block_ranges P ! b) = II_LABEL l"
proof
  assume "list_ex (\<lambda>i. P ! i = II_LABEL l) [fst (block_ranges P ! b)..<snd (block_ranges P ! b)]"
  then obtain i where i: "P ! i = II_LABEL l" "fst (block_ranges P ! b) \<le> i" "i < snd (block_ranges P ! b)"
    by (auto simp: list_ex_iff)
  then have "i = fst (block_ranges P ! b)" by (intro label_in_block [OF assms]) (simp_all add: is_label_def)
  with i show "P ! fst (block_ranges P ! b) = II_LABEL l" by simp
qed (use block_bounds(1) [OF assms] in \<open>force simp: list_ex_iff\<close>)

lemma block_of_label_index:
  assumes "label_index P l = Some j"
  obtains t where "block_of_label P (block_ranges P) l = Some t" "t < length (block_ranges P)"
    "fst (block_ranges P ! t) = j"
proof -
  let ?rs = "block_ranges P"
  from label_index_Some [OF assms] have j: "j < length P" "P ! j = II_LABEL l" "\<And>i. i < j \<Longrightarrow> P ! i \<noteq> II_LABEL l"
    by auto
  then have "leader P j" by (simp add: leader_def is_label_def)
  then obtain t where t: "t < length ?rs" "fst (?rs ! t) = j" using leader_is_start j(1) by blast
  have "P ! fst (?rs ! i) \<noteq> II_LABEL l" if "i < t" for i
    using that j(3) [of "fst (?rs ! i)"] starts_strict [of i t P] t
    by (simp add: fst_range length_ranges)
  then have "block_of_label P ?rs l = Some t"
    unfolding block_of_label_def find_Some_iff
    using t j(2) block_has_label by (intro exI [of _ t]) auto
  with t that show ?thesis by blast
qed

lemma block_of_label_bound: "block_of_label P rs l = Some t \<Longrightarrow> t < length rs"
  by (auto simp: block_of_label_def find_Some_iff)

lemma succ_bound: "s \<in> set (block_succ P rs b) \<Longrightarrow> s < length rs"
  by (auto simp: block_succ_def Let_def block_of_label_bound split: ir_item.splits option.splits if_splits)

lemma block_preds_count:
  assumes "b < length ss"
  shows "count_list (block_preds ss t) b = count_list (ss ! b) t"
proof -
  have blk: "count_list (map (\<lambda>s. c) (filter (\<lambda>s. s = t) xs)) b = (if c = b then count_list xs t else 0)" for c xs
    by (induction xs) auto
  have "count_list (concat (map (\<lambda>c. map (\<lambda>s. c) (filter (\<lambda>s. s = t) (ss ! c))) [m..<n])) b =
      (if m \<le> b \<and> b < n then count_list (ss ! b) t else 0)" for m n
    by (induction n) (auto simp: blk count_list_append)
  from this [of 0 "length ss"] show ?thesis using assms by (simp add: block_preds_def)
qed

lemma step_edge:
  assumes st: "item_step T fp \<rho> P (At i \<sigma>) (At j \<sigma>')" and j: "j < length P"
    and b: "b < length (block_ranges P)" "fst (block_ranges P ! b) \<le> i" "i < snd (block_ranges P ! b)"
  shows "j = Suc i \<and> j < snd (block_ranges P ! b) \<or>
    (\<exists>s \<in> set (block_succ P (block_ranges P) b). j = fst (block_ranges P ! s))"
proof -
  let ?rs = "block_ranges P"
  have fall: "Suc i < snd (?rs ! b) \<or> Suc b < length ?rs \<and> Suc i = fst (?rs ! Suc b) \<and> i = snd (?rs ! b) - 1"
    if "j = Suc i"
  proof (cases "Suc i < snd (?rs ! b)")
    case False
    then have e: "snd (?rs ! b) = Suc i" using b by simp
    then have "snd (?rs ! b) \<noteq> length P" using j that by simp
    then have "Suc b < length ?rs" using range_last [of b P] b(1) by linarith
    then show ?thesis using range_next e by simp
  qed simp
  have last: "i = snd (?rs ! b) - 1" if "is_transfer (P ! i)"
    using transfer_in_block [OF b that] by simp
  from st show ?thesis
  proof (cases rule: item_step.cases)
    case (step_jmp l)
    then have i: "i = snd (?rs ! b) - 1" using last by (simp add: is_transfer_def)
    from step_jmp have "label_index P l = Some j" by simp
    then obtain t where "block_of_label P ?rs l = Some t" "fst (?rs ! t) = j"
      by (elim block_of_label_index)
    with step_jmp i show ?thesis by (auto simp: block_succ_def Let_def)
  next
    case (step_cbr_taken e l w v)
    then have i: "i = snd (?rs ! b) - 1" using last by (simp add: is_transfer_def)
    from step_cbr_taken have "label_index P l = Some j" by simp
    then obtain t where "block_of_label P ?rs l = Some t" "fst (?rs ! t) = j"
      by (elim block_of_label_index)
    with step_cbr_taken i show ?thesis by (auto simp: block_succ_def Let_def)
  qed (use fall in \<open>fastforce simp: block_succ_def Let_def\<close>)+
qed

section \<open>Properties\<close>

lemma cfg_ranges_concat:
  "concat (map (\<lambda>b. [bl_start b..<bl_end b]) (ir_build_cfg P)) = [0..<length P]"
proof -
  have "map (\<lambda>b. [bl_start b..<bl_end b]) (ir_build_cfg P) =
      map (\<lambda>r. [fst r..<snd r]) (map (\<lambda>b. (bl_start b, bl_end b)) (ir_build_cfg P))"
    by simp
  then have "concat (map (\<lambda>b. [bl_start b..<bl_end b]) (ir_build_cfg P)) =
      concat (map (\<lambda>r. [fst r..<snd r]) (take (length (block_ranges P)) (block_ranges P)))"
    unfolding cfg_ranges by simp
  also have "\<dots> = [0..<length P]" by (subst ranges_prefix) simp_all
  finally show ?thesis .
qed

text \<open>
  The basic blocks, in order, partition the item list: laid end to end their ranges are exactly
  the items 0, 1, .., n-1.
\<close>

theorem cfg_partition:
  "concat (map (\<lambda>b. [bl_start b..<bl_end b]) (ir_build_cfg P)) = [0..<length P]"
  by (rule cfg_ranges_concat)

text \<open>
  C13: A basic block is straight-line code: it is entered only at its first item (a label inside it
  is that item) and left only after its last (a jump, branch or return inside it is that item).
\<close>

theorem cfg_straight_line:
  assumes "b \<in> set (ir_build_cfg P)" "bl_start b \<le> i" "i < bl_end b"
  shows "(is_label (P ! i) \<longrightarrow> i = bl_start b) \<and> (is_transfer (P ! i) \<longrightarrow> Suc i = bl_end b)"
proof -
  from assms(1) obtain k where k: "k < length (block_ranges P)" "b = ir_build_cfg P ! k"
    unfolding in_set_conv_nth by auto
  show ?thesis
    using label_in_block [OF k(1)] transfer_in_block [OF k(1)] assms(2,3) k by (simp add: cfg_nth)
qed

text \<open>
  C14: Control flow follows the edges: a step from an item of a block that stays in the function goes
  to the next item of the same block or to the first item of a successor block.
\<close>

theorem cfg_edges_sound:
  assumes "item_step T fp \<rho> P (At i \<sigma>) (At j \<sigma>')" "j < length P"
    and "b \<in> set (ir_build_cfg P)" "bl_start b \<le> i" "i < bl_end b"
  shows "j = Suc i \<and> j < bl_end b \<or> (\<exists>s \<in> set (bl_succ b). j = bl_start (ir_build_cfg P ! s))"
proof -
  from assms(3) obtain k where k: "k < length (block_ranges P)" "b = ir_build_cfg P ! k"
    unfolding in_set_conv_nth by auto
  show ?thesis
    using step_edge [OF assms(1,2) k(1)] assms(4,5) succ_bound [of _ P "block_ranges P" k] k
    by (fastforce simp: cfg_nth)
qed

text \<open>
  The predecessor lists are the successor edges inverted, with multiplicity: block \<open>b\<close> occurs in
  the predecessors of \<open>t\<close> as often as \<open>t\<close> among the successors of \<open>b\<close>.
\<close>

theorem cfg_pred_inverts_succ:
  assumes "b < length (ir_build_cfg P)" "t < length (ir_build_cfg P)"
  shows "count_list (bl_pred (ir_build_cfg P ! t)) b = count_list (bl_succ (ir_build_cfg P ! b)) t"
  using assms block_preds_count [of b "map (block_succ P (block_ranges P)) [0..<length (block_ranges P)]" t]
  by (simp add: cfg_nth)

text \<open>An example: a loop with a conditional exit.\<close>

definition cfg_example :: "ir_item list" where
  "cfg_example = [II_LABEL ''top'', II_CBR (IE_NUM 0 4 False) ''out'' True, II_EVAL IE_NOP,
     II_JMP ''top'', II_LABEL ''out'', II_RET None]"

lemma cfg_example_blocks:
  "ir_build_cfg cfg_example =
     [\<lparr>bl_start = 0, bl_end = 2, bl_succ = [2, 1], bl_pred = [1]\<rparr>,
      \<lparr>bl_start = 2, bl_end = 4, bl_succ = [0], bl_pred = [0]\<rparr>,
      \<lparr>bl_start = 4, bl_end = 6, bl_succ = [], bl_pred = [0]\<rparr>]"
  by code_simp

lemma cfg_straight_line_witness:
  "is_transfer (cfg_example ! 3) \<and> Suc 3 = bl_end (ir_build_cfg cfg_example ! 1)"
  using cfg_straight_line [of "ir_build_cfg cfg_example ! 1" cfg_example 3]
  by (simp add: cfg_example_blocks) (simp add: cfg_example_def is_transfer_def)

lemma cfg_edges_sound_witness:
  "\<exists>s \<in> set (bl_succ (ir_build_cfg cfg_example ! 1)). 0 = bl_start (ir_build_cfg cfg_example ! s)"
proof -
  have len: "length cfg_example = 6" by (simp add: cfg_example_def)
  have "item_step undefined 0 (\<lambda>v. 0) cfg_example (At 3 undefined) (At 0 undefined)"
    by (rule step_jmp [of _ _ "''top''"]) (simp_all add: cfg_example_def)
  from cfg_edges_sound [OF this, of "ir_build_cfg cfg_example ! 1"] show ?thesis
    by (auto simp: cfg_example_blocks len)
qed

lemma cfg_pred_inverts_succ_witness:
  "count_list (bl_pred (ir_build_cfg cfg_example ! 2)) 0 = 1"
  using cfg_pred_inverts_succ [of 0 cfg_example 2] by (simp add: cfg_example_blocks)

end
