(* ===== verification/Ir_Opt.thy ===== *)
theory Ir_Opt
  imports Ir_Cfg Ir_Fold
begin

text \<open>
  Phase OP6 over the item list (\<open>op6_fold_exprs\<close>, \<open>op6_fold_branches\<close>, \<open>op6_dce_unreachable\<close>,
  \<open>op6_dce_dead_eval\<close> and \<open>ir_optimize\<close> of \<open>src/ir68k.c\<close>). Every pass keeps the length of the list, so
  the proof is a lockstep simulation: the optimized list makes only steps the original could make.
  The contract of a pass is the locale \<open>item_pass\<close>; a pass that rewrites each item on its own meets it
  by the simpler contract \<open>item_rewrite\<close>.
\<close>

section \<open>The passes\<close>

fun fold_item :: "ir_item \<Rightarrow> ir_item" where
  "fold_item (II_CBR e l w) = II_CBR (ie_fold e) l w"
| "fold_item (II_EVAL e) = II_EVAL (ie_fold e)"
| "fold_item (II_RET (Some e)) = II_RET (Some (ie_fold e))"
| "fold_item it = it"

definition op6_fold_exprs :: "ir_item list \<Rightarrow> ir_item list" where
  "op6_fold_exprs P = map fold_item P"

fun fold_branch :: "ir_item \<Rightarrow> ir_item" where
  "fold_branch (II_CBR e l w) =
     (case ie_num e of None \<Rightarrow> II_CBR e l w
      | Some c \<Rightarrow> if (c \<noteq> 0) = w then II_JMP l else II_NOP)"
| "fold_branch it = it"

definition op6_fold_branches :: "ir_item list \<Rightarrow> ir_item list" where
  "op6_fold_branches P = map fold_branch P"

text \<open>
  The reachability loop: \<open>seen\<close> and the stack, its top first. The bound test \<open>s < length seen\<close> is always
  true for the successors of a graph built by \<open>ir_build_cfg\<close>.
\<close>

fun push_succ :: "bool list \<times> nat list \<Rightarrow> nat \<Rightarrow> bool list \<times> nat list" where
  "push_succ (seen, stack) s =
     (if s < length seen \<and> \<not> seen ! s then (seen[s := True], s # stack) else (seen, stack))"

abbreviation unseen :: "bool list \<Rightarrow> nat" where
  "unseen seen \<equiv> length (filter Not seen)"

lemma unseen_update:
  "s < length seen \<Longrightarrow> \<not> seen ! s \<Longrightarrow> Suc (unseen (seen[s := True])) = unseen seen"
  by (induction seen arbitrary: s) (auto split: nat.split simp: nth_Cons)

lemma push_succ_measure:
  "push_succ (seen, stack) s = (seen', stack') \<Longrightarrow>
     unseen seen' + length stack' = unseen seen + length stack \<and> unseen seen' \<le> unseen seen"
  using unseen_update [of s seen] by (auto split: if_splits)

lemma push_succs_measure:
  "foldl push_succ (seen, stack) ss = (seen', stack') \<Longrightarrow>
     unseen seen' + length stack' = unseen seen + length stack \<and> unseen seen' \<le> unseen seen"
proof (induction ss arbitrary: seen stack)
  case (Cons s ss)
  obtain seen1 stack1 where p: "push_succ (seen, stack) s = (seen1, stack1)" by force
  show ?case using push_succ_measure [OF p] Cons.IH [of seen1 stack1] Cons.prems p by simp
qed simp

function reach_loop :: "ir_block list \<Rightarrow> bool list \<Rightarrow> nat list \<Rightarrow> bool list" where
  "reach_loop bs seen [] = seen"
| "reach_loop bs seen (b # stack) =
     (case foldl push_succ (seen, stack) (bl_succ (bs ! b)) of
        (seen', stack') \<Rightarrow> reach_loop bs seen' stack')"
  by pat_completeness auto
termination
  by (relation "measure (\<lambda>(bs, seen, stack). unseen seen + length stack)")
    (auto split: prod.split dest!: push_succs_measure)

declare reach_loop.simps(2) [simp del]

definition reached :: "ir_block list \<Rightarrow> bool list" where
  "reached bs = reach_loop bs ((replicate (length bs) False)[0 := True]) [0]"

definition op6_dce_unreachable :: "ir_block list \<Rightarrow> ir_item list \<Rightarrow> ir_item list" where
  "op6_dce_unreachable bs P =
     (if bs = [] then P
      else let seen = reached bs in
        map (\<lambda>i. if \<exists>b \<in> set [0..<length bs]. \<not> seen ! b \<and> bl_start (bs ! b) \<le> i \<and> i < bl_end (bs ! b)
                 then II_NOP else P ! i) [0..<length P])"

fun drop_dead_eval :: "ir_item \<Rightarrow> ir_item" where
  "drop_dead_eval (II_EVAL e) = (if ie_trivial e then II_NOP else II_EVAL e)"
| "drop_dead_eval it = it"

definition op6_dce_dead_eval :: "ir_item list \<Rightarrow> ir_item list" where
  "op6_dce_dead_eval P = map drop_dead_eval P"

definition ir_optimize :: "ir_item list \<Rightarrow> ir_item list" where
  "ir_optimize P =
     (let P1 = op6_fold_exprs P; P2 = op6_fold_branches P1
      in op6_dce_dead_eval (op6_dce_unreachable (ir_build_cfg P2) P2))"

section \<open>The reachability loop computes the reachable blocks\<close>

definition cfg_edge :: "ir_block list \<Rightarrow> (nat \<times> nat) set" where
  "cfg_edge bs = {(b, s). b < length bs \<and> s < length bs \<and> s \<in> set (bl_succ (bs ! b))}"

lemma push_succs_set:
  "foldl push_succ (seen, stack) ss = (seen', stack') \<Longrightarrow>
     length seen' = length seen \<and>
     (\<forall>b < length seen. seen' ! b \<longleftrightarrow> seen ! b \<or> b \<in> set ss) \<and>
     set stack' = set stack \<union> {b. b < length seen \<and> b \<in> set ss \<and> \<not> seen ! b}"
proof (induction ss arbitrary: seen stack)
  case (Cons s ss)
  obtain seen1 stack1 where p: "push_succ (seen, stack) s = (seen1, stack1)" by force
  show ?case using Cons.IH [of seen1 stack1] Cons.prems p
    by (auto simp: nth_list_update split: if_splits)
qed simp

lemma reach_loop_correct:
  assumes "length seen = length bs"
    and "\<forall>b < length bs. seen ! b \<longrightarrow> (0, b) \<in> (cfg_edge bs)\<^sup>*"
    and "\<forall>b \<in> set stack. b < length bs \<and> seen ! b"
    and "\<forall>b s. b < length bs \<and> seen ! b \<and> b \<notin> set stack \<and> (b, s) \<in> cfg_edge bs \<longrightarrow> seen ! s"
  shows "length (reach_loop bs seen stack) = length bs \<and>
    (\<forall>b < length bs. seen ! b \<longrightarrow> reach_loop bs seen stack ! b) \<and>
    (\<forall>b < length bs. reach_loop bs seen stack ! b \<longrightarrow> (0, b) \<in> (cfg_edge bs)\<^sup>*) \<and>
    (\<forall>b s. b < length bs \<and> reach_loop bs seen stack ! b \<and> (b, s) \<in> cfg_edge bs \<longrightarrow>
       reach_loop bs seen stack ! s)"
  using assms
proof (induction bs seen stack rule: reach_loop.induct)
  case (1 bs seen)
  then show ?case by simp
next
  case (2 bs seen b stack)
  obtain seen' stack' where p: "foldl push_succ (seen, stack) (bl_succ (bs ! b)) = (seen', stack')"
    by force
  note q = push_succs_set [OF p]
  have b: "b < length bs" "seen ! b" using "2.prems"(3) by auto
  then have r: "(0, b) \<in> (cfg_edge bs)\<^sup>*" using "2.prems"(2) by simp
  have "length seen' = length bs" using q "2.prems"(1) by simp
  moreover have "\<forall>c < length bs. seen' ! c \<longrightarrow> (0, c) \<in> (cfg_edge bs)\<^sup>*"
  proof (intro allI impI)
    fix c assume c: "c < length bs" "seen' ! c"
    then consider "seen ! c" | "(b, c) \<in> cfg_edge bs"
      using q b "2.prems"(1) by (auto simp: cfg_edge_def)
    then show "(0, c) \<in> (cfg_edge bs)\<^sup>*"
      using "2.prems"(2) c(1) r by cases (auto intro: rtrancl_into_rtrancl)
  qed
  moreover have "\<forall>c \<in> set stack'. c < length bs \<and> seen' ! c"
    using q "2.prems"(1,3) by auto
  moreover have "\<forall>c s. c < length bs \<and> seen' ! c \<and> c \<notin> set stack' \<and> (c, s) \<in> cfg_edge bs \<longrightarrow> seen' ! s"
  proof (intro allI impI)
    fix c s assume a: "c < length bs \<and> seen' ! c \<and> c \<notin> set stack' \<and> (c, s) \<in> cfg_edge bs"
    then have s: "s < length bs" "s \<in> set (bl_succ (bs ! c))" by (auto simp: cfg_edge_def)
    have "seen ! c" using a q "2.prems"(1) by auto
    show "seen' ! s"
    proof (cases "c = b")
      case True
      then show ?thesis using q s "2.prems"(1) by simp
    next
      case False
      then have "c \<notin> set (b # stack)" using a q by auto
      with "2.prems"(4) a \<open>seen ! c\<close> have "seen ! s" by blast
      then show ?thesis using q s "2.prems"(1) by simp
    qed
  qed
  ultimately have ih: "length (reach_loop bs seen' stack') = length bs \<and>
      (\<forall>b < length bs. seen' ! b \<longrightarrow> reach_loop bs seen' stack' ! b) \<and>
      (\<forall>b < length bs. reach_loop bs seen' stack' ! b \<longrightarrow> (0, b) \<in> (cfg_edge bs)\<^sup>*) \<and>
      (\<forall>b s. b < length bs \<and> reach_loop bs seen' stack' ! b \<and> (b, s) \<in> cfg_edge bs \<longrightarrow>
         reach_loop bs seen' stack' ! s)"
    using "2.IH" [OF p [symmetric]] by blast
  have eq: "reach_loop bs seen (b # stack) = reach_loop bs seen' stack'"
    by (simp add: reach_loop.simps p)
  show ?case unfolding eq using ih q "2.prems"(1) by auto
qed

lemma reached_iff:
  assumes "b < length bs"
  shows "reached bs ! b \<longleftrightarrow> (0, b) \<in> (cfg_edge bs)\<^sup>*"
proof -
  let ?init = "(replicate (length bs) False)[0 := True]"
  have i: "?init ! c \<longleftrightarrow> c = 0" if "c < length bs" for c using that by (cases c) auto
  have ne: "0 < length bs" using assms by linarith
  have "reach_loop bs ?init [0] = reached bs" by (simp add: reached_def)
  moreover have "length (reach_loop bs ?init [0]) = length bs \<and>
    (\<forall>b < length bs. ?init ! b \<longrightarrow> reach_loop bs ?init [0] ! b) \<and>
    (\<forall>b < length bs. reach_loop bs ?init [0] ! b \<longrightarrow> (0, b) \<in> (cfg_edge bs)\<^sup>*) \<and>
    (\<forall>b s. b < length bs \<and> reach_loop bs ?init [0] ! b \<and> (b, s) \<in> cfg_edge bs \<longrightarrow>
       reach_loop bs ?init [0] ! s)"
    by (rule reach_loop_correct) (use assms i [OF ne] i ne in auto)
  ultimately have r: "\<forall>b < length bs. ?init ! b \<longrightarrow> reached bs ! b"
    "\<forall>b < length bs. reached bs ! b \<longrightarrow> (0, b) \<in> (cfg_edge bs)\<^sup>*"
    "\<And>b s. b < length bs \<Longrightarrow> reached bs ! b \<Longrightarrow> (b, s) \<in> cfg_edge bs \<Longrightarrow> reached bs ! s"
    by auto
  have "reached bs ! c" if "(0, c) \<in> (cfg_edge bs)\<^sup>*" for c
    using that
  proof (induction rule: rtrancl_induct)
    case base
    show ?case using r(1) i [OF ne] ne by blast
  next
    case (step c d)
    then show ?case using r(3) [of c d] by (auto simp: cfg_edge_def)
  qed
  with r(2) assms show ?thesis by blast
qed


section \<open>What one item may do\<close>

datatype outcome = Next istate | Goto string istate | Return "u32 option" istate

fun outcomes :: "target \<Rightarrow> u32 \<Rightarrow> ir_item \<Rightarrow> istate \<Rightarrow> outcome set" where
  "outcomes T fp (II_LABEL l) \<sigma> = {Next \<sigma>}"
| "outcomes T fp II_NOP \<sigma> = {Next \<sigma>}"
| "outcomes T fp (II_JMP l) \<sigma> = {Goto l \<sigma>}"
| "outcomes T fp (II_CBR e l w) \<sigma> =
     (\<lambda>(v, \<sigma>'). if (v \<noteq> 0) = w then Goto l \<sigma>' else Next \<sigma>') ` evals T fp no_promo e \<sigma>"
| "outcomes T fp (II_EVAL e) \<sigma> = (\<lambda>(v, \<sigma>'). Next \<sigma>') ` evals T fp no_promo e \<sigma>"
| "outcomes T fp (II_RET (Some e)) \<sigma> = (\<lambda>(v, \<sigma>'). Return (Some v) \<sigma>') ` evals T fp no_promo e \<sigma>"
| "outcomes T fp (II_RET None) \<sigma> = {Return None \<sigma>}"

fun resume :: "ir_item list \<Rightarrow> nat \<Rightarrow> outcome \<Rightarrow> config option" where
  "resume P i (Next \<sigma>) = Some (At (Suc i) \<sigma>)"
| "resume P i (Goto l \<sigma>) = map_option (\<lambda>j. At j \<sigma>) (label_index P l)"
| "resume P i (Return r \<sigma>) = Some (Done r \<sigma>)"

lemma item_step_outcome:
  "item_step T fp no_promo P (At i \<sigma>) c \<longleftrightarrow>
     i < length P \<and> (\<exists>out \<in> outcomes T fp (P ! i) \<sigma>. resume P i out = Some c) \<or>
     i = length P \<and> c = Done None \<sigma>"
proof (cases "i < length P")
  case True
  show ?thesis
  proof (cases "P ! i")
    case (II_RET r)
    then show ?thesis using True by (cases r) (force simp: item_step_At image_iff)+
  qed (use True in \<open>auto simp: item_step_At image_iff split: if_splits\<close>, (blast | force)+)
qed (auto simp: item_step_At)

lemma outcomes_nonempty: "outcomes T fp it \<sigma> \<noteq> {}"
proof (cases it)
  case (II_RET r)
  then show ?thesis using evals_nonempty by (cases r) auto
qed (use evals_nonempty in auto)

text \<open>Every jump of a well-formed list names a label of the list; such a list never gets stuck.\<close>

fun item_target :: "ir_item \<Rightarrow> string option" where
  "item_target (II_JMP l) = Some l"
| "item_target (II_CBR e l w) = Some l"
| "item_target _ = None"

definition labels_ok :: "ir_item list \<Rightarrow> bool" where
  "labels_ok P \<longleftrightarrow>
     list_all (\<lambda>it. case item_target it of None \<Rightarrow> True | Some l \<Rightarrow> label_index P l \<noteq> None) P"

lemma labels_okD: "labels_ok P \<Longrightarrow> it \<in> set P \<Longrightarrow> item_target it = Some l \<Longrightarrow> label_index P l \<noteq> None"
  by (auto simp: labels_ok_def list_all_iff split: option.splits)

lemma outcome_target: "Goto l \<sigma>' \<in> outcomes T fp it \<sigma> \<Longrightarrow> item_target it = Some l"
  by (cases "(T, fp, it, \<sigma>)" rule: outcomes.cases) (auto split: if_splits)

lemma labels_ok_steps:
  assumes "labels_ok P" and "i \<le> length P"
  shows "\<exists>c. item_step T fp no_promo P (At i \<sigma>) c"
proof (cases "i < length P")
  case True
  obtain out where out: "out \<in> outcomes T fp (P ! i) \<sigma>" using outcomes_nonempty by blast
  have "resume P i out \<noteq> None"
    using labels_okD [OF assms(1), of "P ! i"] outcome_target out True by (cases out) auto
  then show ?thesis using out True by (auto simp: item_step_outcome)
qed (use assms(2) in \<open>auto simp: item_step_outcome\<close>)

lemma item_step_in_range:
  "item_step T fp \<rho> P (At i \<sigma>) (At j \<sigma>') \<Longrightarrow> i < length P \<and> j \<le> length P"
  by (auto simp: item_step_At dest: label_index_Some)

lemma item_steps_in_range:
  assumes "item_steps T fp \<rho> P (At 0 \<sigma>) (At i \<sigma>')"
  shows "i \<le> length P"
  using assms by (cases rule: item_steps.cases) (auto dest: item_step_in_range elim: item_step.cases)

section \<open>The contract of a pass\<close>

locale item_pass =
  fixes T :: target and fp :: u32 and pass :: "ir_item list \<Rightarrow> ir_item list"
  assumes keeps_length: "length (pass P) = length P"
    and keeps_labels: "labels_ok P \<Longrightarrow> labels_ok (pass P)"
    and sound_step: "item_steps T fp no_promo P (At 0 \<sigma>0) (At i \<sigma>) \<Longrightarrow>
      item_step T fp no_promo (pass P) (At i \<sigma>) c \<Longrightarrow> item_step T fp no_promo P (At i \<sigma>) c"
begin

lemma sound_steps:
  assumes "item_steps T fp no_promo (pass P) (At 0 \<sigma>) c"
  shows "item_steps T fp no_promo P (At 0 \<sigma>) c"
  using assms
proof (induction "At 0 \<sigma>" c rule: item_steps.induct)
  case steps_refl
  then show ?case by (rule item_steps.steps_refl)
next
  case (steps_step c1 c2)
  then obtain i \<sigma>1 where "c1 = At i \<sigma>1" by (cases c1) auto
  with steps_step sound_step show ?case by (blast intro: item_steps.steps_step)
qed

text \<open>The passes run in lockstep: the number of steps is the same.\<close>

lemma sound_power:
  assumes "(item_step T fp no_promo (pass P) ^^ k) (At 0 \<sigma>) c"
  shows "(item_step T fp no_promo P ^^ k) (At 0 \<sigma>) c"
  using assms
proof (induction k arbitrary: c)
  case (Suc k)
  then obtain c1 where c1: "(item_step T fp no_promo (pass P) ^^ k) (At 0 \<sigma>) c1" "item_step T fp no_promo (pass P) c1 c"
    by auto
  then obtain i \<sigma>1 where i: "c1 = At i \<sigma>1" by (cases c1) auto
  have "(item_step T fp no_promo P ^^ k) (At 0 \<sigma>) c1" by (rule Suc.IH [OF c1(1)])
  moreover from this have "item_steps T fp no_promo P (At 0 \<sigma>) (At i \<sigma>1)" unfolding i by (rule item_steps_power)
  ultimately show ?case using sound_step c1(2) i by auto
qed simp

end

text \<open>A pass that rewrites each item on its own: it keeps labels and only removes outcomes.\<close>

locale item_rewrite =
  fixes T :: target and fp :: u32 and tr :: "ir_item \<Rightarrow> ir_item"
  assumes rw_label: "tr it = II_LABEL l \<longleftrightarrow> it = II_LABEL l"
    and rw_target: "item_target (tr it) = Some l \<Longrightarrow> item_target it = Some l"
    and rw_outcomes: "outcomes T fp (tr it) \<sigma> \<subseteq> outcomes T fp it \<sigma>"
begin

lemma rw_label_index [simp]: "label_index (map tr P) l = label_index P l"
  by (induction P) (simp_all add: rw_label)

lemma rw_resume: "resume (map tr P) i out = resume P i out"
  by (cases out) simp_all

end

sublocale item_rewrite \<subseteq> item_pass T fp "map tr"
proof
  fix P \<sigma>0 i \<sigma> c
  show "length (map tr P) = length P" by simp
  show "labels_ok (map tr P)" if "labels_ok P"
    unfolding labels_ok_def list_all_iff
  proof
    fix it assume "it \<in> set (map tr P)"
    then obtain it0 where "it0 \<in> set P" "it = tr it0" by auto
    then show "case item_target it of None \<Rightarrow> True | Some l \<Rightarrow> label_index (map tr P) l \<noteq> None"
      using labels_okD [OF that] rw_target [of it0] by (auto split: option.split)
  qed
  show "item_step T fp no_promo (map tr P) (At i \<sigma>) c \<Longrightarrow> item_step T fp no_promo P (At i \<sigma>) c"
    using rw_outcomes [of "P ! i" \<sigma>, THEN subsetD]
    by (cases "i < length P") (auto simp: item_step_outcome rw_resume)
qed

lemma refines_outcomes:
  assumes "refines T fp e' e"
  shows "outcomes T fp (II_CBR e' l w) \<sigma> \<subseteq> outcomes T fp (II_CBR e l w) \<sigma>"
    and "outcomes T fp (II_EVAL e') \<sigma> \<subseteq> outcomes T fp (II_EVAL e) \<sigma>"
    and "outcomes T fp (II_RET (Some e')) \<sigma> \<subseteq> outcomes T fp (II_RET (Some e)) \<sigma>"
  using assms by (auto simp: refines_def image_mono)

interpretation folded: item_rewrite T fp fold_item for T fp
proof
  fix it l \<sigma>
  show "fold_item it = II_LABEL l \<longleftrightarrow> it = II_LABEL l" by (cases it rule: fold_item.cases) auto
  show "item_target (fold_item it) = Some l \<Longrightarrow> item_target it = Some l"
    by (cases it rule: fold_item.cases) auto
  show "outcomes T fp (fold_item it) \<sigma> \<subseteq> outcomes T fp it \<sigma>"
    by (cases it rule: fold_item.cases)
      (simp_all only: fold_item.simps refines_outcomes [OF fold_refines] subset_refl)
qed

interpretation branches: item_rewrite T fp fold_branch for T fp
proof
  fix it l \<sigma>
  show "fold_branch it = II_LABEL l \<longleftrightarrow> it = II_LABEL l" by (cases it) (auto split: option.splits)
  show "item_target (fold_branch it) = Some l \<Longrightarrow> item_target it = Some l"
    by (cases it) (auto split: option.splits if_splits)
  show "outcomes T fp (fold_branch it) \<sigma> \<subseteq> outcomes T fp it \<sigma>"
    by (cases it) (auto simp: evals_num split: option.splits)
qed

interpretation dead_evals: item_rewrite T fp drop_dead_eval for T fp
proof
  fix it l \<sigma>
  show "drop_dead_eval it = II_LABEL l \<longleftrightarrow> it = II_LABEL l" by (cases it) auto
  show "item_target (drop_dead_eval it) = Some l \<Longrightarrow> item_target it = Some l"
    by (cases it) (auto split: if_splits)
  show "outcomes T fp (drop_dead_eval it) \<sigma> \<subseteq> outcomes T fp it \<sigma>"
  proof (cases it)
    case (II_EVAL e)
    show ?thesis
    proof (cases "ie_trivial e")
      case True
      then obtain v where "(v, \<sigma>) \<in> evals T fp no_promo e \<sigma>" using trivial_const by blast
      then show ?thesis using II_EVAL True by force
    qed (simp add: II_EVAL)
  qed simp_all
qed

section \<open>Removing unreachable blocks\<close>

lemma block_unique:
  assumes "b < length (block_ranges P)" "fst (block_ranges P ! b) \<le> i" "i < snd (block_ranges P ! b)"
    and "c < length (block_ranges P)" "fst (block_ranges P ! c) \<le> i" "i < snd (block_ranges P ! c)"
  shows "b = c"
proof -
  let ?rs = "block_ranges P"
  have "\<not> fst (?rs ! b) < fst (?rs ! c)"
    using block_bounds(4) [OF assms(1), of "fst (?rs ! c)"] block_bounds(3) [OF assms(4)] assms(3,5) by linarith
  moreover have "\<not> fst (?rs ! c) < fst (?rs ! b)"
    using block_bounds(4) [OF assms(4), of "fst (?rs ! b)"] block_bounds(3) [OF assms(1)] assms(2,6) by linarith
  moreover have "\<not> b < c" "\<not> c < b" if "fst (?rs ! b) = fst (?rs ! c)"
    using starts_strict [of b c P] starts_strict [of c b P] that assms(1,4)
    by (auto simp: fst_range length_ranges)
  ultimately show ?thesis by linarith
qed

text \<open>Item \<open>i\<close> lies in a block that is reachable from the entry in the graph.\<close>

definition live_item :: "ir_item list \<Rightarrow> nat \<Rightarrow> bool" where
  "live_item P i \<longleftrightarrow> (\<exists>b < length (block_ranges P). fst (block_ranges P ! b) \<le> i \<and>
     i < snd (block_ranges P ! b) \<and> (0, b) \<in> (cfg_edge (ir_build_cfg P))\<^sup>*)"

abbreviation dce_items :: "ir_item list \<Rightarrow> ir_item list" where
  "dce_items P \<equiv> op6_dce_unreachable (ir_build_cfg P) P"

lemma cfg_empty [simp]: "ir_build_cfg P = [] \<longleftrightarrow> P = []"
  using length_cfg [of P] by (metis length_0_conv ranges_empty)

lemma in_some_block:
  assumes "i < length P"
  obtains b where "b < length (block_ranges P)" "fst (block_ranges P ! b) \<le> i" "i < snd (block_ranges P ! b)"
proof -
  from item_in_block [OF assms] block_start_of_props(1) [of P i]
  obtain s e where "(s, e) \<in> set (block_ranges P)" "s \<le> i" "i < e" by blast
  then obtain b where "b < length (block_ranges P)" "block_ranges P ! b = (s, e)"
    unfolding in_set_conv_nth by blast
  with \<open>s \<le> i\<close> \<open>i < e\<close> that show ?thesis by simp
qed

lemma length_dce [simp]: "length (op6_dce_unreachable bs P) = length P"
  by (simp add: op6_dce_unreachable_def Let_def)

lemma dce_nth:
  assumes i: "i < length P"
  shows "dce_items P ! i = (if live_item P i then P ! i else II_NOP)"
proof -
  let ?rs = "block_ranges P" and ?bs = "ir_build_cfg P"
  obtain b where b: "b < length ?rs" "fst (?rs ! b) \<le> i" "i < snd (?rs ! b)"
    using in_some_block [OF i] .
  have u: "c = b" if "c < length ?rs" "fst (?rs ! c) \<le> i" "i < snd (?rs ! c)" for c
    using block_unique [OF that b] .
  have dead: "(\<exists>c \<in> set [0..<length ?bs]. \<not> reached ?bs ! c \<and> bl_start (?bs ! c) \<le> i \<and> i < bl_end (?bs ! c))
      \<longleftrightarrow> \<not> reached ?bs ! b"
  proof -
    have e: "bl_start (?bs ! c) \<le> i \<and> i < bl_end (?bs ! c) \<longleftrightarrow> c = b" if "c < length ?rs" for c
      unfolding cfg_nth [OF that] using u [OF that] b(2,3) by blast
    have "b \<in> set [0..<length ?bs]" unfolding length_cfg using b(1) by simp
    moreover have "c < length ?rs" if "c \<in> set [0..<length ?bs]" for c
      using that unfolding length_cfg by simp
    ultimately show ?thesis using e e [OF b(1)] by blast
  qed
  have "b < length ?bs" unfolding length_cfg using b(1) .
  from reached_iff [OF this] have live: "live_item P i \<longleftrightarrow> reached ?bs ! b"
    unfolding live_item_def using b u by blast
  have ne: "?bs \<noteq> []" using i by auto
  show ?thesis
    unfolding op6_dce_unreachable_def Let_def live using i ne dead by simp
qed

lemma live_entry: "P \<noteq> [] \<Longrightarrow> live_item P 0"
proof -
  assume ne: "P \<noteq> []"
  then have l: "0 < length (block_ranges P)" by simp
  have "fst (block_ranges P ! 0) = 0" using fst_range [OF l] starts_0 [OF ne] by simp
  then show ?thesis unfolding live_item_def
    using l block_bounds(1) [OF l] by (intro exI [of _ 0]) simp
qed

lemma live_succ:
  assumes "b < length (block_ranges P)" "(0, b) \<in> (cfg_edge (ir_build_cfg P))\<^sup>*"
    and "s \<in> set (block_succ P (block_ranges P) b)"
  shows "live_item P (fst (block_ranges P ! s))"
proof -
  have s: "s < length (block_ranges P)" using succ_bound assms(3) .
  then have "(b, s) \<in> cfg_edge (ir_build_cfg P)" using assms by (simp add: cfg_edge_def cfg_nth)
  with assms(2) have "(0, s) \<in> (cfg_edge (ir_build_cfg P))\<^sup>*" by (rule rtrancl_into_rtrancl)
  then show ?thesis using s block_bounds(1) [OF s] by (auto simp: live_item_def)
qed

lemma live_target:
  assumes "i < length P" "live_item P i" "item_target (P ! i) = Some l" "label_index P l = Some j"
  shows "live_item P j"
proof -
  let ?rs = "block_ranges P"
  obtain b where b: "b < length ?rs" "fst (?rs ! b) \<le> i" "i < snd (?rs ! b)"
      "(0, b) \<in> (cfg_edge (ir_build_cfg P))\<^sup>*"
    using assms(2) unfolding live_item_def by blast
  have "is_transfer (P ! i)" using assms(3) by (cases "P ! i") (simp_all add: is_transfer_def)
  then have last: "snd (?rs ! b) - 1 = i" using transfer_in_block [OF b(1-3)] by simp
  obtain t where t: "block_of_label P ?rs l = Some t" "fst (?rs ! t) = j"
    using block_of_label_index [OF assms(4)] by blast
  then have "t \<in> set (block_succ P ?rs b)"
    using assms(3) last by (cases "P ! i") (simp_all add: block_succ_def Let_def)
  then show ?thesis using live_succ [OF b(1,4)] t(2) by blast
qed

lemma live_step:
  assumes "item_step T fp \<rho> P (At i \<sigma>) (At j \<sigma>')" "live_item P i" "j < length P"
  shows "live_item P j"
proof -
  obtain b where b: "b < length (block_ranges P)" "fst (block_ranges P ! b) \<le> i"
      "i < snd (block_ranges P ! b)" "(0, b) \<in> (cfg_edge (ir_build_cfg P))\<^sup>*"
    using assms(2) unfolding live_item_def by blast
  from step_edge [OF assms(1,3) b(1-3)] show ?thesis
    using b live_succ [OF b(1,4)] by (auto simp: live_item_def)
qed

lemma live_steps:
  assumes "item_steps T fp \<rho> P (At 0 \<sigma>0) (At i \<sigma>)" "i < length P"
  shows "live_item P i"
  using assms
proof (induction "At 0 \<sigma>0" "At i \<sigma>" arbitrary: i \<sigma> rule: item_steps.induct)
  case steps_refl
  then show ?case by (intro live_entry) auto
next
  case (steps_step c1)
  then obtain k \<sigma>1 where c1: "c1 = At k \<sigma>1" by (cases c1) auto
  with steps_step have k: "item_step T fp \<rho> P (At k \<sigma>1) (At i \<sigma>)" by simp
  then have "live_item P k" using steps_step c1 item_step_in_range by blast
  with live_step [OF k] steps_step.prems show ?case by blast
qed

lemma dce_label_index:
  assumes "label_index P l = Some j" "live_item P j"
  shows "label_index (dce_items P) l = Some j"
  using label_index_Some [OF assms(1)] assms(2)
  by (intro label_index_unique) (auto simp: dce_nth)

lemma dce_label_index_less: "label_index P l = None \<Longrightarrow> label_index (dce_items P) l = None"
  unfolding label_index_None by (auto simp: in_set_conv_nth dce_nth split: if_splits)

interpretation unreachable: item_pass T fp dce_items for T fp
proof
  fix P \<sigma>0 i \<sigma> c
  show "length (dce_items P) = length P" by simp
  show "labels_ok (dce_items P)" if ok: "labels_ok P"
    unfolding labels_ok_def list_all_iff
  proof
    fix it assume "it \<in> set (dce_items P)"
    then obtain i where i: "i < length P" "it = dce_items P ! i" by (auto simp: in_set_conv_nth)
    show "case item_target it of None \<Rightarrow> True | Some l \<Rightarrow> label_index (dce_items P) l \<noteq> None"
    proof (cases "item_target it")
      case (Some l)
      then have it: "live_item P i" "it = P ! i" using i by (auto simp: dce_nth split: if_splits)
      then obtain j where "label_index P l = Some j"
        using labels_okD [OF ok, of it l] i Some by auto
      then show ?thesis using dce_label_index live_target i(1) it Some by auto
    qed simp
  qed
  assume reach: "item_steps T fp no_promo P (At 0 \<sigma>0) (At i \<sigma>)"
    and step: "item_step T fp no_promo (dce_items P) (At i \<sigma>) c"
  show "item_step T fp no_promo P (At i \<sigma>) c"
  proof (cases "i < length P")
    case True
    have live: "live_item P i" using live_steps [OF reach True] .
    then obtain out where out: "out \<in> outcomes T fp (P ! i) \<sigma>" "resume (dce_items P) i out = Some c"
      using step True by (auto simp: item_step_outcome dce_nth)
    have "resume P i out = Some c"
    proof (cases out)
      case (Goto l \<sigma>')
      then have tgt: "item_target (P ! i) = Some l" using outcome_target out(1) by blast
      obtain j where j: "label_index P l = Some j"
        using out(2) Goto dce_label_index_less by (cases "label_index P l") auto
      then have "label_index (dce_items P) l = Some j"
        using dce_label_index live_target [OF True live tgt j] by blast
      then show ?thesis using out(2) Goto j by simp
    qed (use out(2) in simp_all)
    then show ?thesis using out(1) True by (auto simp: item_step_outcome)
  qed (use step in \<open>auto simp: item_step_outcome\<close>)
qed

section \<open>Properties\<close>

lemma ir_optimize_sound:
  assumes "item_steps T fp no_promo (ir_optimize P) (At 0 \<sigma>) c"
  shows "item_steps T fp no_promo P (At 0 \<sigma>) c"
  using assms unfolding ir_optimize_def Let_def op6_dce_dead_eval_def op6_fold_branches_def op6_fold_exprs_def
  by - (drule dead_evals.sound_steps, drule unreachable.sound_steps, drule branches.sound_steps,
      drule folded.sound_steps)

lemma ir_optimize_power:
  assumes "(item_step T fp no_promo (ir_optimize P) ^^ k) (At 0 \<sigma>) c"
  shows "(item_step T fp no_promo P ^^ k) (At 0 \<sigma>) c"
  using assms unfolding ir_optimize_def Let_def op6_dce_dead_eval_def op6_fold_branches_def op6_fold_exprs_def
  by - (drule dead_evals.sound_power, drule unreachable.sound_power, drule branches.sound_power,
      drule folded.sound_power)

lemma ir_optimize_labels: "labels_ok P \<Longrightarrow> labels_ok (ir_optimize P)"
  unfolding ir_optimize_def Let_def op6_dce_dead_eval_def op6_fold_branches_def op6_fold_exprs_def
  by (rule dead_evals.keeps_labels, rule unreachable.keeps_labels, rule branches.keeps_labels,
      rule folded.keeps_labels)

text \<open>
  C3: The optimizer is sound: every configuration that the optimized item list can reach from the
  entry, each intermediate state and the final one with its result, is one the original list can
  reach.
\<close>

theorem ir_optimize_refines:
  "{c. item_steps T fp no_promo (ir_optimize P) (At 0 \<sigma>) c} \<subseteq>
   {c. item_steps T fp no_promo P (At 0 \<sigma>) c}"
  using ir_optimize_sound by blast

text \<open>
  C4: The optimizer removes no needed code: when every jump of the list names one of its labels, the
  optimized list always has a next step, up to the return.
\<close>

theorem ir_optimize_progress:
  assumes "labels_ok P" and "item_steps T fp no_promo (ir_optimize P) (At 0 \<sigma>) (At i \<sigma>')"
  shows "\<exists>c. item_step T fp no_promo (ir_optimize P) (At i \<sigma>') c"
  using labels_ok_steps [OF ir_optimize_labels [OF assms(1)] item_steps_in_range [OF assms(2)]] .

text \<open>A conditional branch on a constant, dead code behind it and a foldable result.\<close>

definition opt_example :: "ir_item list" where
  "opt_example = [II_CBR (IE_BINOP ND_LT (IE_NUM 1 4 False) (IE_NUM 2 4 False) 4 False False) ''a'' True,
     II_EVAL (IE_STORE (IE_LEA True (- 4) [] 0) (IE_NUM 7 4 False) 4 False), II_LABEL ''a'',
     II_EVAL (IE_NUM 3 4 False),
     II_RET (Some (IE_BINOP ND_ADD (IE_NUM 2 4 False) (IE_NUM 3 4 False) 4 False False))]"

lemma opt_example_optimized:
  "ir_optimize opt_example =
     [II_JMP ''a'', II_NOP, II_LABEL ''a'', II_NOP, II_RET (Some (IE_NUM 5 4 False))]"
  by code_simp

lemma ir_optimize_progress_witness:
  "\<forall>T fp \<sigma>. \<exists>c. item_step T fp no_promo (ir_optimize opt_example) (At 2 \<sigma>) c"
proof (intro allI, rule ir_optimize_progress [of opt_example])
  fix T fp \<sigma>
  show "labels_ok opt_example" by code_simp
  have "item_step T fp no_promo (ir_optimize opt_example) (At 0 \<sigma>) (At 2 \<sigma>)"
    unfolding opt_example_optimized by (rule step_jmp [of _ _ "''a''"]) simp_all
  then show "item_steps T fp no_promo (ir_optimize opt_example) (At 0 \<sigma>) (At 2 \<sigma>)"
    by (rule item_steps.steps_step [OF item_steps.steps_refl])
qed

text \<open>
  C11: The reachability loop terminates and marks exactly the blocks that the successor edges reach
  from the entry block.
\<close>

theorem reached_exactly:
  "\<forall>b. b < length bs \<longrightarrow> reached bs ! b = ((0, b) \<in> (cfg_edge bs)\<^sup>*)"
  using reached_iff by blast

lemma reached_exactly_witness:
  "reached (ir_build_cfg cfg_example) ! 2 = ((0, 2) \<in> (cfg_edge (ir_build_cfg cfg_example))\<^sup>*)"
  using reached_exactly [of "ir_build_cfg cfg_example"] by (simp add: cfg_example_blocks)

text \<open>
  C12: Dead-code elimination keeps every item that a run may execute.
\<close>

theorem dce_keeps_executed:
  assumes "item_steps T fp \<rho> P (At 0 \<sigma>) (At i \<sigma>')" and "i < length P"
  shows "op6_dce_unreachable (ir_build_cfg P) P ! i = P ! i"
  using live_steps [OF assms] assms(2) by (simp add: dce_nth)

lemma dce_keeps_executed_witness:
  "op6_dce_unreachable (ir_build_cfg cfg_example) cfg_example ! 0 = cfg_example ! 0"
  by (rule dce_keeps_executed [OF item_steps.steps_refl]) (simp add: cfg_example_def)

end
