(* ===== verification/M68k.thy ===== *)
theory M68k
  imports Ir_Sem
begin

text \<open>
  The part of the MC68000 that the instruction selector of \<open>src/ir68k.c\<close> uses: the instructions with
  their assembler text as \<open>EMIT\<close> prints it, and a deterministic machine. A register is named by the
  code the compiler uses: 0 to 7 for D0 to D7, 8 to 15 for A0 to A7. The evaluation stack, which the
  code touches only by a push of D0, a pop and the removal of arguments, is a list of longwords
  beside the memory. Branch conditions are modelled after \<open>cmp\<close> and \<open>tst\<close>; other instructions leave
  the condition codes unknown and a branch on unknown codes is stuck, so that a run shows
  that the code never depends on them. Odd word addresses do not trap, and a frame displacement may have any
  size, while the processor has 16 bits for it.
\<close>

section \<open>Instructions\<close>

datatype width = SzB | SzW | SzL

datatype operand = Imm u32 | Reg nat | Frame int | Sym string | AtReg nat | PostInc nat | Indexed nat nat

datatype alu = Op_add | Op_sub | Op_and | Op_or | Op_eor

datatype shift = Sh_asl | Sh_lsr | Sh_asr

datatype cond = C_eq | C_ne | C_cs | C_cc | C_hi | C_ls | C_lt | C_ge | C_gt | C_le | C_pl

text \<open>
  Instructions without a destination operand act on D0. The number in the calls is the count of
  argument longwords; it is not part of the text and tells the model what the callee reads.
\<close>

datatype instr =
  I_label string
| I_moveq int nat
| I_loadimm int
| I_move width operand operand
| I_movea operand nat
| I_lea operand nat
| I_alu alu operand
| I_addq u32
| I_subq u32
| I_alui alu u32
| I_cmp operand
| I_tst
| I_scc cond
| I_bcc cond string
| I_bra string
| I_neg
| I_not
| I_extw
| I_extl
| I_shift shift operand
| I_clr width operand
| I_dbra nat string
| I_push
| I_pop nat
| I_addsp int
| I_jsr_rt string
| I_jsr_sym string nat
| I_jsr_ind nat nat

section \<open>Assembler text\<close>

definition reg_text :: "nat \<Rightarrow> string" where
  "reg_text r = (if r < 8 then ''d'' @ show_nat r else ''a'' @ show_nat (r - 8))"

text \<open>The parameter is \<open>cg_symref\<close>, which depends on the symbols of the module.\<close>

fun operand_text :: "(string \<Rightarrow> string) \<Rightarrow> operand \<Rightarrow> string" where
  "operand_text sr (Imm c) = ''#'' @ show_int (sint c)"
| "operand_text sr (Reg r) = reg_text r"
| "operand_text sr (Frame d) = show_int d @ ''(a6)''"
| "operand_text sr (Sym n) = sr n"
| "operand_text sr (AtReg r) = ''('' @ reg_text r @ '')''"
| "operand_text sr (PostInc r) = ''('' @ reg_text r @ '')+''"
| "operand_text sr (Indexed a i) = ''('' @ reg_text a @ '','' @ reg_text i @ ''.l)''"

fun width_text :: "width \<Rightarrow> string" where
  "width_text SzB = ''b''" | "width_text SzW = ''w''" | "width_text SzL = ''l''"

fun alu_text :: "alu \<Rightarrow> string" where
  "alu_text Op_add = ''add''" | "alu_text Op_sub = ''sub''" | "alu_text Op_and = ''and''"
| "alu_text Op_or = ''or''" | "alu_text Op_eor = ''eor''"

fun shift_text :: "shift \<Rightarrow> string" where
  "shift_text Sh_asl = ''asl.l''" | "shift_text Sh_lsr = ''lsr.l''" | "shift_text Sh_asr = ''asr.l''"

fun bcc_text :: "cond \<Rightarrow> string" where
  "bcc_text C_eq = ''beq''" | "bcc_text C_ne = ''bne''" | "bcc_text C_cs = ''bcs''"
| "bcc_text C_cc = ''bcc''" | "bcc_text C_hi = ''bhi''" | "bcc_text C_ls = ''bls''"
| "bcc_text C_lt = ''blt''" | "bcc_text C_ge = ''bge''" | "bcc_text C_gt = ''bgt''"
| "bcc_text C_le = ''ble''" | "bcc_text C_pl = ''bpl''"

fun scc_text :: "cond \<Rightarrow> string" where
  "scc_text C_eq = ''seq''" | "scc_text C_ne = ''sne''" | "scc_text C_cs = ''scs''"
| "scc_text C_cc = ''shs''" | "scc_text C_hi = ''shi''" | "scc_text C_ls = ''sls''"
| "scc_text C_lt = ''slt''" | "scc_text C_ge = ''sge''" | "scc_text C_gt = ''sgt''"
| "scc_text C_le = ''sle''" | "scc_text C_pl = ''spl''"

fun asm_text :: "(string \<Rightarrow> string) \<Rightarrow> instr \<Rightarrow> string" where
  "asm_text sr (I_label l) = l @ '':''"
| "asm_text sr (I_moveq n r) = ''  moveq #'' @ show_int n @ '','' @ reg_text r"
| "asm_text sr (I_loadimm n) = ''  move.l #'' @ show_int n @ '',d0''"
| "asm_text sr (I_move w a b) =
     ''  move.'' @ width_text w @ '' '' @ operand_text sr a @ '','' @ operand_text sr b"
| "asm_text sr (I_movea a r) = ''  movea.l '' @ operand_text sr a @ '','' @ reg_text r"
| "asm_text sr (I_lea a r) = ''  lea '' @ operand_text sr a @ '','' @ reg_text r"
| "asm_text sr (I_alu op a) = ''  '' @ alu_text op @ ''.l '' @ operand_text sr a @ '',d0''"
| "asm_text sr (I_addq c) = ''  addq.l #'' @ show_int (sint c) @ '',d0''"
| "asm_text sr (I_subq c) = ''  subq.l #'' @ show_int (sint c) @ '',d0''"
| "asm_text sr (I_alui op c) = ''  '' @ alu_text op @ ''i.l #'' @ show_int (sint c) @ '',d0''"
| "asm_text sr (I_cmp a) = ''  cmp.l '' @ operand_text sr a @ '',d0''"
| "asm_text sr I_tst = ''  tst.l d0''"
| "asm_text sr (I_scc c) = ''  '' @ scc_text c @ '' d0''"
| "asm_text sr (I_bcc c l) = ''  '' @ bcc_text c @ '' '' @ l"
| "asm_text sr (I_bra l) = ''  bra '' @ l"
| "asm_text sr I_neg = ''  neg.l d0''"
| "asm_text sr I_not = ''  not.l d0''"
| "asm_text sr I_extw = ''  ext.w d0''"
| "asm_text sr I_extl = ''  ext.l d0''"
| "asm_text sr (I_shift s a) = ''  '' @ shift_text s @ '' '' @ operand_text sr a @ '',d0''"
| "asm_text sr (I_clr w a) = ''  clr.'' @ width_text w @ '' '' @ operand_text sr a"
| "asm_text sr (I_dbra r l) = ''  dbra '' @ reg_text r @ '','' @ l"
| "asm_text sr I_push = ''  move.l d0,-(sp)''"
| "asm_text sr (I_pop r) = ''  move.l (sp)+,'' @ reg_text r"
| "asm_text sr (I_addsp n) = ''  adda.w #'' @ show_int n @ '',sp''"
| "asm_text sr (I_jsr_rt f) = ''  jsr '' @ f @ ''##''"
| "asm_text sr (I_jsr_sym f n) = ''  jsr '' @ sr f"
| "asm_text sr (I_jsr_ind r n) = ''  jsr ('' @ reg_text r @ '')''"

section \<open>The machine\<close>

record flags =
  f_n :: bool
  f_z :: bool
  f_v :: bool
  f_c :: bool

record mstate =
  m_reg :: "nat \<Rightarrow> u32"
  m_mem :: memory
  m_stack :: "u32 list"
  m_flags :: "flags option"

text \<open>
  The environment: the target (symbols and callees), the runtime helpers on D0 and D1, and the
  values a call leaves in the caller-saved registers D1, A0 and A1.
\<close>

record menv =
  me_target :: target
  me_rt :: "string \<Rightarrow> u32 \<Rightarrow> u32 \<Rightarrow> u32"
  me_scratch :: "mstate \<Rightarrow> nat \<Rightarrow> u32"

definition scratch_regs :: "nat set" where "scratch_regs = {1, 8, 9}"

fun cond_holds :: "cond \<Rightarrow> flags \<Rightarrow> bool" where
  "cond_holds C_eq f = f_z f" | "cond_holds C_ne f = (\<not> f_z f)"
| "cond_holds C_cs f = f_c f" | "cond_holds C_cc f = (\<not> f_c f)"
| "cond_holds C_hi f = (\<not> f_c f \<and> \<not> f_z f)" | "cond_holds C_ls f = (f_c f \<or> f_z f)"
| "cond_holds C_lt f = (f_n f \<noteq> f_v f)" | "cond_holds C_ge f = (f_n f = f_v f)"
| "cond_holds C_gt f = (f_n f = f_v f \<and> \<not> f_z f)" | "cond_holds C_le f = (f_n f \<noteq> f_v f \<or> f_z f)"
| "cond_holds C_pl f = (\<not> f_n f)"

definition cmp_flags :: "u32 \<Rightarrow> u32 \<Rightarrow> flags" where
  "cmp_flags dst src =
     \<lparr>f_n = sint (dst - src) < 0, f_z = (dst - src = 0),
      f_v = (sint (dst - src) \<noteq> sint dst - sint src), f_c = (uint dst < uint src)\<rparr>"

definition tst_flags :: "u32 \<Rightarrow> flags" where
  "tst_flags v = \<lparr>f_n = sint v < 0, f_z = (v = 0), f_v = False, f_c = False\<rparr>"

fun ea :: "menv \<Rightarrow> mstate \<Rightarrow> operand \<Rightarrow> u32 option" where
  "ea E s (Frame d) = Some (m_reg s 14 + word_of_int d)"
| "ea E s (Sym n) = Some (tg_sym (me_target E) n)"
| "ea E s (AtReg r) = Some (m_reg s r)"
| "ea E s (Indexed a i) = Some (m_reg s a + m_reg s i)"
| "ea E s _ = None"

text \<open>The operand's value; bytes and words are zero-extended.\<close>

fun low_part :: "width \<Rightarrow> u32 \<Rightarrow> u32" where
  "low_part SzB v = v AND 255" | "low_part SzW v = v AND 65535" | "low_part SzL v = v"

fun ld_width :: "width \<Rightarrow> memory \<Rightarrow> u32 \<Rightarrow> u32" where
  "ld_width SzB m p = ucast (m p)" | "ld_width SzW m p = ucast (ld16 m p)" | "ld_width SzL m p = ld32 m p"

fun st_width :: "width \<Rightarrow> memory \<Rightarrow> u32 \<Rightarrow> u32 \<Rightarrow> memory" where
  "st_width SzB m p v = m(p := ucast v)" | "st_width SzW m p v = st16 m p (ucast v)"
| "st_width SzL m p v = st32 m p v"

fun read_op :: "menv \<Rightarrow> mstate \<Rightarrow> width \<Rightarrow> operand \<Rightarrow> u32 option" where
  "read_op E s w (Imm c) = Some (low_part w c)"
| "read_op E s w (Reg r) = Some (low_part w (m_reg s r))"
| "read_op E s w a = map_option (ld_width w (m_mem s)) (ea E s a)"

text \<open>A byte or word move into a data register keeps the rest of the register.\<close>

fun merge_low :: "width \<Rightarrow> u32 \<Rightarrow> u32 \<Rightarrow> u32" where
  "merge_low SzB old v = (old AND NOT 255) OR (v AND 255)"
| "merge_low SzW old v = (old AND NOT 65535) OR (v AND 65535)"
| "merge_low SzL old v = v"

abbreviation set_reg :: "nat \<Rightarrow> u32 \<Rightarrow> mstate \<Rightarrow> mstate" where
  "set_reg r v s \<equiv> s\<lparr>m_reg := (m_reg s)(r := v)\<rparr>"

abbreviation no_flags :: "mstate \<Rightarrow> mstate" where
  "no_flags s \<equiv> s\<lparr>m_flags := None\<rparr>"

fun write_op :: "menv \<Rightarrow> mstate \<Rightarrow> width \<Rightarrow> operand \<Rightarrow> u32 \<Rightarrow> mstate option" where
  "write_op E s w (Reg r) v = (if r < 8 then Some (set_reg r (merge_low w (m_reg s r) v) s) else None)"
| "write_op E s w (Imm c) v = None"
| "write_op E s w (PostInc r) v =
     (if w = SzB then Some (set_reg r (m_reg s r + 1) (s\<lparr>m_mem := (m_mem s)(m_reg s r := ucast v)\<rparr>))
      else None)"
| "write_op E s w a v = map_option (\<lambda>p. s\<lparr>m_mem := st_width w (m_mem s) p v\<rparr>) (ea E s a)"

fun alu_val :: "alu \<Rightarrow> u32 \<Rightarrow> u32 \<Rightarrow> u32" where
  "alu_val Op_add d v = d + v" | "alu_val Op_sub d v = d - v" | "alu_val Op_and d v = d AND v"
| "alu_val Op_or d v = d OR v" | "alu_val Op_eor d v = d XOR v"

fun shift_val :: "shift \<Rightarrow> nat \<Rightarrow> u32 \<Rightarrow> u32" where
  "shift_val Sh_asl n v = push_bit n v" | "shift_val Sh_lsr n v = drop_bit n v"
| "shift_val Sh_asr n v = signed_drop_bit n v"

text \<open>EOR takes a data register only; AND and OR take no address register.\<close>

fun alu_operand_ok :: "alu \<Rightarrow> operand \<Rightarrow> bool" where
  "alu_operand_ok Op_eor (Reg r) = (r < 8)"
| "alu_operand_ok Op_eor a = False"
| "alu_operand_ok Op_and (Reg r) = (r < 8)"
| "alu_operand_ok Op_or (Reg r) = (r < 8)"
| "alu_operand_ok _ a = True"

text \<open>An immediate count is 1 to 8; a count in a register is taken modulo 64.\<close>

fun shift_amount :: "mstate \<Rightarrow> operand \<Rightarrow> nat option" where
  "shift_amount s (Imm c) = (if 1 \<le> c \<and> c \<le> 8 then Some (unat c) else None)"
| "shift_amount s (Reg r) = Some (shift_count (m_reg s r))"
| "shift_amount s _ = None"

definition on_d0 :: "(u32 \<Rightarrow> u32) \<Rightarrow> mstate \<Rightarrow> mstate option" where
  "on_d0 f s = Some (no_flags (set_reg 0 (f (m_reg s 0)) s))"

text \<open>
  A callee returns in D0 and may change the memory and the caller-saved registers; it keeps the
  others and the stack.
\<close>

definition after_call :: "menv \<Rightarrow> mstate \<Rightarrow> u32 \<Rightarrow> memory \<Rightarrow> mstate" where
  "after_call E s r m =
     s\<lparr>m_reg := (\<lambda>k. if k = 0 then r else if k \<in> scratch_regs then me_scratch E s k else m_reg s k),
       m_mem := m, m_flags := None\<rparr>"

definition do_call :: "menv \<Rightarrow> mstate \<Rightarrow> callee \<Rightarrow> nat \<Rightarrow> mstate option" where
  "do_call E s f n =
     (if n \<le> length (m_stack s) then
        (case tg_call (me_target E) f (take n (m_stack s)) (m_mem s) of (r, m) \<Rightarrow> Some (after_call E s r m))
      else None)"

fun effect :: "menv \<Rightarrow> instr \<Rightarrow> mstate \<Rightarrow> mstate option" where
  "effect E (I_label l) s = Some s"
| "effect E (I_moveq n r) s =
     (if - 128 \<le> n \<and> n \<le> 127 \<and> r < 8 then Some (no_flags (set_reg r (word_of_int n) s)) else None)"
| "effect E (I_loadimm n) s = Some (no_flags (set_reg 0 (word_of_int n) s))"
| "effect E (I_move w a b) s =
     (case read_op E s w a of None \<Rightarrow> None | Some v \<Rightarrow> map_option no_flags (write_op E s w b v))"
| "effect E (I_movea a r) s = map_option (\<lambda>v. set_reg r v s) (read_op E s SzL a)"
| "effect E (I_lea a r) s = map_option (\<lambda>p. set_reg r p s) (ea E s a)"
| "effect E (I_alu op a) s =
     (if \<not> alu_operand_ok op a then None
      else case read_op E s SzL a of None \<Rightarrow> None | Some v \<Rightarrow> on_d0 (\<lambda>d. alu_val op d v) s)"
| "effect E (I_addq c) s = (if 1 \<le> c \<and> c \<le> 8 then on_d0 (\<lambda>d. d + c) s else None)"
| "effect E (I_subq c) s = (if 1 \<le> c \<and> c \<le> 8 then on_d0 (\<lambda>d. d - c) s else None)"
| "effect E (I_alui op c) s = on_d0 (\<lambda>d. alu_val op d c) s"
| "effect E (I_cmp a) s =
     map_option (\<lambda>v. s\<lparr>m_flags := Some (cmp_flags (m_reg s 0) v)\<rparr>) (read_op E s SzL a)"
| "effect E I_tst s = Some (s\<lparr>m_flags := Some (tst_flags (m_reg s 0))\<rparr>)"
| "effect E (I_scc c) s =
     (case m_flags s of None \<Rightarrow> None
      | Some f \<Rightarrow> Some (set_reg 0 (merge_low SzB (m_reg s 0) (if cond_holds c f then 255 else 0)) s))"
| "effect E I_neg s = on_d0 (\<lambda>d. - d) s"
| "effect E I_not s = on_d0 (\<lambda>d. NOT d) s"
| "effect E I_extw s = on_d0 (\<lambda>d. merge_low SzW d (scast (ucast d :: u8))) s"
| "effect E I_extl s = on_d0 (\<lambda>d. scast (ucast d :: u16)) s"
| "effect E (I_shift sh a) s =
     (case shift_amount s a of None \<Rightarrow> None | Some n \<Rightarrow> on_d0 (shift_val sh n) s)"
| "effect E (I_clr w a) s = map_option no_flags (write_op E s w a 0)"
| "effect E I_push s = Some (no_flags (s\<lparr>m_stack := m_reg s 0 # m_stack s\<rparr>))"
| "effect E (I_pop r) s =
     (case m_stack s of [] \<Rightarrow> None | v # st \<Rightarrow> Some (no_flags (set_reg r v (s\<lparr>m_stack := st\<rparr>))))"
| "effect E (I_addsp n) s =
     (let k = sint (word_of_int n :: u16) in
      if 0 \<le> k \<and> k mod 4 = 0 \<and> nat k div 4 \<le> length (m_stack s)
      then Some (s\<lparr>m_stack := drop (nat k div 4) (m_stack s)\<rparr>) else None)"
| "effect E (I_jsr_rt f) s = Some (after_call E s (me_rt E f (m_reg s 0) (m_reg s 1)) (m_mem s))"
| "effect E (I_jsr_sym f n) s = do_call E s (Direct f) n"
| "effect E (I_jsr_ind r n) s = do_call E s (Indirect (m_reg s r)) n"
| "effect E _ s = None"

fun find_label :: "instr list \<Rightarrow> string \<Rightarrow> nat option" where
  "find_label [] l = None"
| "find_label (i # is) l = (if i = I_label l then Some 0 else map_option Suc (find_label is l))"

definition jump :: "instr list \<Rightarrow> string \<Rightarrow> mstate \<Rightarrow> (nat \<times> mstate) option" where
  "jump P l s = map_option (\<lambda>j. (j, s)) (find_label P l)"

text \<open>One step; None when the machine is stuck or past the end of the program.\<close>

fun m_step :: "menv \<Rightarrow> instr list \<Rightarrow> nat \<times> mstate \<Rightarrow> (nat \<times> mstate) option" where
  "m_step E P (pc, s) =
     (if length P \<le> pc then None
      else case P ! pc of
        I_bra l \<Rightarrow> jump P l s
      | I_bcc c l \<Rightarrow>
          (case m_flags s of None \<Rightarrow> None
           | Some f \<Rightarrow> if cond_holds c f then jump P l s else Some (Suc pc, s))
      | I_dbra r l \<Rightarrow>
          (let s' = set_reg r (merge_low SzW (m_reg s r) (m_reg s r - 1)) s
           in if (ucast (m_reg s r) :: u16) = 0 then Some (Suc pc, s') else jump P l s')
      | i \<Rightarrow> map_option (\<lambda>s'. (Suc pc, s')) (effect E i s))"

declare m_step.simps [simp del]

definition m_runs :: "menv \<Rightarrow> instr list \<Rightarrow> nat \<times> mstate \<Rightarrow> nat \<times> mstate \<Rightarrow> bool" where
  "m_runs E P = (\<lambda>c c'. m_step E P c = Some c')\<^sup>*\<^sup>*"

end
