(* ===== verification/Ir_Tile.thy ===== *)
theory Ir_Tile
  imports M68k Ir_Fold
begin

text \<open>
  The instruction selector of \<open>src/ir68k.c\<close> (\<open>ir_expr\<close>, \<open>ir_cond\<close>, \<open>ir_binop\<close>, \<open>ir_call\<close>, \<open>ir_memzero\<close>,
  \<open>ir_emit_item\<close> and their helpers). Each function returns the instructions it emits, in order, and
  the next value of the label counter \<open>cg_uid\<close>. A helper that may decline (a C function returning
  false before it emits anything) returns an option. \<open>opt\<close> is \<open>opt_level\<close>, \<open>\<rho>\<close> the register promotion.
\<close>

section \<open>Small helpers\<close>

definition is_pow2_32 :: "u32 \<Rightarrow> bool" where
  "is_pow2_32 v \<longleftrightarrow> v \<noteq> 0 \<and> v AND (v - 1) = 0"

text \<open>The loop of \<open>ctz32\<close> stops within 32 rounds on the nonzero words it is called on.\<close>

primrec ctz_loop :: "nat \<Rightarrow> u32 \<Rightarrow> nat" where
  "ctz_loop 0 v = 0"
| "ctz_loop (Suc k) v = (if v AND 1 = 0 then Suc (ctz_loop k (drop_bit 1 v)) else 0)"

definition ctz32 :: "u32 \<Rightarrow> nat" where
  "ctz32 v = ctz_loop 32 v"

definition add_imm :: "u32 \<Rightarrow> instr list" where
  "add_imm c =
     (if c = 0 then []
      else if 1 \<le> sint c \<and> sint c \<le> 8 then [I_addq c]
      else if - 8 \<le> sint c \<and> sint c \<le> - 1 then [I_subq (- c)]
      else [I_alu Op_add (Imm c)])"

definition shift_by :: "shift \<Rightarrow> nat \<Rightarrow> instr list" where
  "shift_by sh n =
     (if n = 0 then []
      else if n \<le> 8 then [I_shift sh (Imm (of_nat n))]
      else [I_moveq (int n) 1, I_shift sh (Reg 1)])"

datatype rel = R_LT | R_LE | R_EQ | R_NE | R_GT | R_GE

definition rel_of :: "node_kind \<Rightarrow> rel" where
  "rel_of op = (if op = ND_LT then R_LT else if op = ND_LE then R_LE else if op = ND_EQ then R_EQ else R_NE)"

fun rel_negate :: "rel \<Rightarrow> rel" where
  "rel_negate R_LT = R_GE" | "rel_negate R_GE = R_LT" | "rel_negate R_LE = R_GT"
| "rel_negate R_GT = R_LE" | "rel_negate R_EQ = R_NE" | "rel_negate R_NE = R_EQ"

fun rel_swap :: "rel \<Rightarrow> rel" where
  "rel_swap R_LT = R_GT" | "rel_swap R_GT = R_LT" | "rel_swap R_LE = R_GE"
| "rel_swap R_GE = R_LE" | "rel_swap r = r"

fun bcc_mnem :: "rel \<Rightarrow> bool \<Rightarrow> cond" where
  "bcc_mnem R_EQ u = C_eq" | "bcc_mnem R_NE u = C_ne"
| "bcc_mnem R_LT u = (if u then C_cs else C_lt)" | "bcc_mnem R_LE u = (if u then C_ls else C_le)"
| "bcc_mnem R_GT u = (if u then C_hi else C_gt)" | "bcc_mnem R_GE u = (if u then C_cc else C_ge)"

definition is_commutative :: "node_kind \<Rightarrow> bool" where
  "is_commutative op \<longleftrightarrow> op = ND_ADD \<or> op = ND_MUL \<or> op = ND_BITAND \<or> op = ND_BITOR \<or> op = ND_BITXOR \<or>
     op = ND_EQ \<or> op = ND_NE"

text \<open>\<open>ie_const\<close> and \<open>ie_simple_lval\<close> look through integer casts that keep the 32 bits.\<close>

fun ie_const :: "ir_expr \<Rightarrow> u32 option" where
  "ie_const (IE_CAST op a sz u fs fu) = (if tk_is_integer op \<and> 4 \<le> sz then ie_const a else None)"
| "ie_const (IE_NUM v sz u) = (if sz < 4 then None else Some (word_of_int v))"
| "ie_const _ = None"

definition reg_is_addr :: "nat \<Rightarrow> bool" where
  "reg_is_addr r \<longleftrightarrow> 8 \<le> r"

text \<open>The size of the load and its operand.\<close>

fun ie_simple_lval :: "promotion \<Rightarrow> ir_expr \<Rightarrow> (int \<times> operand) option" where
  "ie_simple_lval \<rho> (IE_CAST op a sz u fs fu) =
     (if tk_is_integer op \<and> sz = 4 then ie_simple_lval \<rho> a else None)"
| "ie_simple_lval \<rho> (IE_LOAD (IE_LEA is_local off name var) sz u) =
     (let r = lea_reg \<rho> (IE_LEA is_local off name var) in
      if reg_is_addr r then None
      else Some (sz, if r \<noteq> 0 then Reg r else if is_local then Frame off else Sym name))"
| "ie_simple_lval \<rho> _ = None"

fun ie_simple_var_base :: "ir_expr \<Rightarrow> bool" where
  "ie_simple_var_base (IE_CAST op a sz u fs fu) = ie_simple_var_base a"
| "ie_simple_var_base (IE_LEA is_local off name var) = True"
| "ie_simple_var_base (IE_LOAD (IE_LEA is_local off name var) sz u) = True"
| "ie_simple_var_base _ = False"

definition load_imm :: "int \<Rightarrow> instr list" where
  "load_imm v = (if - 128 \<le> v \<and> v \<le> 127 then [I_moveq v 0] else [I_loadimm v])"

definition cast_int_narrow :: "int \<Rightarrow> bool \<Rightarrow> instr list" where
  "cast_int_narrow sz uns =
     (if sz = 1 then (if uns then [I_alui Op_and 255] else [I_extw, I_extl])
      else if sz = 2 then (if uns then [I_alui Op_and 65535] else [I_extl])
      else [])"

definition emit_load_from_a0 :: "int \<Rightarrow> bool \<Rightarrow> instr list" where
  "emit_load_from_a0 sz uns =
     (if sz = 1 then
        (if uns then [I_moveq 0 0, I_move SzB (AtReg 8) (Reg 0)]
         else [I_move SzB (AtReg 8) (Reg 0), I_extw, I_extl])
      else if sz = 2 then
        (if uns then [I_moveq 0 0, I_move SzW (AtReg 8) (Reg 0)]
         else [I_move SzW (AtReg 8) (Reg 0), I_extl])
      else [I_move SzL (AtReg 8) (Reg 0)])"

section \<open>Binary operators\<close>

text \<open>The condition of the \<open>scc\<close> that materializes a relation, and the two instructions.\<close>

definition scc_of :: "node_kind \<Rightarrow> bool \<Rightarrow> cond" where
  "scc_of op u = (if op = ND_EQ then C_eq else if op = ND_NE then C_ne
     else if op = ND_LT then (if u then C_cs else C_lt) else (if u then C_ls else C_le))"

definition materialize :: "cond \<Rightarrow> instr list" where
  "materialize cc = [I_scc cc, I_alui Op_and 1]"

text \<open>
  \<open>ir_const_binop\<close> evaluates its operand and then emits a tail that depends on the constant; two of
  the tails take a label number before the operand is evaluated. The result is whether they do, and
  the tail for label number \<open>lc\<close>.
\<close>

definition const_tile :: "nat \<Rightarrow> node_kind \<Rightarrow> bool \<Rightarrow> u32 \<Rightarrow> nat \<Rightarrow> (bool \<times> instr list) option" where
  "const_tile opt op u c lc =
     (if op = ND_ADD then Some (False, add_imm c)
      else if op = ND_SUB then Some (False, add_imm (- c))
      else if op = ND_BITAND then Some (False, [I_alui Op_and c])
      else if op = ND_BITOR then Some (False, [I_alui Op_or c])
      else if op = ND_BITXOR then Some (False, [I_alui Op_eor c])
      else if op = ND_EQ \<or> op = ND_NE \<or> op = ND_LT \<or> op = ND_LE then
        Some (False, I_cmp (Imm c) # materialize (scc_of op u))
      else if op = ND_SHL then
        (if sint c < 1 \<or> 31 < sint c then None else Some (False, shift_by Sh_asl (unat c)))
      else if op = ND_SHR then
        (if sint c < 1 \<or> 31 < sint c then None
         else Some (False, shift_by (if u then Sh_lsr else Sh_asr) (unat c)))
      else if op = ND_MUL then
        (if c = 0 \<or> c = 1 \<or> c = - 1 \<or> is_pow2_32 c then
           Some (False, if c = 0 then [I_moveq 0 0] else if c = - 1 then [I_neg]
                        else if c \<noteq> 1 then shift_by Sh_asl (ctz32 c) else [])
         else if 2 \<le> opt \<and> 3 \<le> sint c \<and> is_pow2_32 (c - 1) \<and> ctz32 (c - 1) \<le> 8 then
           Some (False, [I_move SzL (Reg 0) (Reg 1), I_shift Sh_asl (Imm (of_nat (ctz32 (c - 1)))),
                         I_alu Op_add (Reg 1)])
         else if 2 \<le> opt \<and> 3 \<le> sint c \<and> is_pow2_32 (c + 1) \<and> ctz32 (c + 1) \<le> 8 then
           Some (False, [I_move SzL (Reg 0) (Reg 1), I_shift Sh_asl (Imm (of_nat (ctz32 (c + 1)))),
                         I_alu Op_sub (Reg 1)])
         else None)
      else if op = ND_DIV then
        (if u \<and> is_pow2_32 c then Some (False, shift_by Sh_lsr (ctz32 c))
         else if 2 \<le> opt \<and> \<not> u \<and> 2 \<le> sint c \<and> is_pow2_32 c then
           Some (True, [I_tst, I_bcc C_pl (uid_label ''L_sdiv_'' lc)] @ add_imm (c - 1) @
                       [I_label (uid_label ''L_sdiv_'' lc)] @ shift_by Sh_asr (ctz32 c))
         else None)
      else if op = ND_MOD then
        (if u \<and> is_pow2_32 c then Some (False, [I_alui Op_and (c - 1)])
         else if 2 \<le> opt \<and> \<not> u \<and> 2 \<le> sint c \<and> is_pow2_32 c then
           Some (True, [I_tst, I_bcc C_pl (uid_label ''L_smod_'' lc), I_neg, I_alui Op_and (c - 1), I_neg,
                        I_bra (uid_label ''L_smodx_'' lc), I_label (uid_label ''L_smod_'' lc),
                        I_alui Op_and (c - 1), I_label (uid_label ''L_smodx_'' lc)])
         else None)
      else None)"

definition const_tile_left :: "nat \<Rightarrow> node_kind \<Rightarrow> bool \<Rightarrow> u32 \<Rightarrow> nat \<Rightarrow> (bool \<times> instr list) option" where
  "const_tile_left opt op u c lc =
     (if is_commutative op then const_tile opt op u c lc
      else if op = ND_LT \<or> op = ND_LE then
        Some (False, I_cmp (Imm c) # materialize
          (if op = ND_LT then (if u then C_hi else C_gt) else (if u then C_cc else C_ge)))
      else None)"

definition mem_tile :: "promotion \<Rightarrow> node_kind \<Rightarrow> bool \<Rightarrow> ir_expr \<Rightarrow> instr list option" where
  "mem_tile \<rho> op u b =
     (case ie_simple_lval \<rho> b of None \<Rightarrow> None
      | Some (sz, x) \<Rightarrow>
          if sz \<noteq> 4 then None
          else if op = ND_ADD then Some [I_alu Op_add x]
          else if op = ND_SUB then Some [I_alu Op_sub x]
          else if op = ND_BITAND then Some [I_alu Op_and x]
          else if op = ND_BITOR then Some [I_alu Op_or x]
          else if op = ND_EQ \<or> op = ND_NE \<or> op = ND_LT \<or> op = ND_LE then
            Some (I_cmp x # materialize (scc_of op u))
          else None)"

text \<open>
  The specializations that \<open>ir_binop\<close> tries in turn: whether the evaluated operand is the right one,
  whether a label number is taken, and the tail.
\<close>

definition binop_plan ::
  "nat \<Rightarrow> promotion \<Rightarrow> node_kind \<Rightarrow> bool \<Rightarrow> ir_expr \<Rightarrow> ir_expr \<Rightarrow> nat \<Rightarrow> (bool \<times> bool \<times> instr list) option" where
  "binop_plan opt \<rho> op u a b n =
     (case (case ie_const b of None \<Rightarrow> None | Some c \<Rightarrow> const_tile opt op u c n) of
        Some (k, t) \<Rightarrow> Some (False, k, t)
      | None \<Rightarrow>
          (case (case ie_const a of None \<Rightarrow> None | Some c \<Rightarrow> const_tile_left opt op u c n) of
             Some (k, t) \<Rightarrow> Some (True, k, t)
           | None \<Rightarrow> map_option (\<lambda>t. (False, False, t)) (mem_tile \<rho> op u b)))"

definition rt_name :: "node_kind \<Rightarrow> bool \<Rightarrow> string" where
  "rt_name op u =
     (if op = ND_MUL then ''__mulsi3''
      else if op = ND_DIV then (if u then ''__udivsi3'' else ''__divsi3'')
      else (if u then ''__umodsi3'' else ''__modsi3''))"

text \<open>The generic case: the left operand in D0, the right one in D1.\<close>

definition op_tail :: "node_kind \<Rightarrow> bool \<Rightarrow> instr list" where
  "op_tail op u =
     (if op = ND_ADD then [I_alu Op_add (Reg 1)]
      else if op = ND_SUB then [I_alu Op_sub (Reg 1)]
      else if op = ND_MUL \<or> op = ND_DIV \<or> op = ND_MOD then [I_jsr_rt (rt_name op u)]
      else if op = ND_BITAND then [I_alu Op_and (Reg 1)]
      else if op = ND_BITOR then [I_alu Op_or (Reg 1)]
      else if op = ND_BITXOR then [I_alu Op_eor (Reg 1)]
      else if op = ND_EQ \<or> op = ND_NE \<or> op = ND_LT \<or> op = ND_LE then
        I_cmp (Reg 1) # materialize (scc_of op u)
      else if op = ND_SHL then [I_shift Sh_asl (Reg 1)]
      else if op = ND_SHR then [I_shift (if u then Sh_lsr else Sh_asr) (Reg 1)]
      else [])"

section \<open>Indexed loads, memory clearing, register moves\<close>

definition indexed_parts :: "int \<Rightarrow> ir_expr \<Rightarrow> (ir_expr \<times> ir_expr) option" where
  "indexed_parts sz a =
     (case a of IE_BINOP op x y s u pa \<Rightarrow>
        if sz = 4 \<and> op = ND_ADD \<and> pa \<and> ie_simple_var_base x then Some (x, y) else None
      | _ \<Rightarrow> None)"

lemma indexed_parts_size [termination_simp]:
  "indexed_parts sz a = Some (x, y) \<Longrightarrow> size x < size a \<and> size y < size a"
  by (cases a) (auto simp: indexed_parts_def split: if_splits)

text \<open>The unrolled clears; the loop variable \<open>p\<close> is the count already cleared.\<close>

function clr_longs :: "int \<Rightarrow> int \<Rightarrow> int \<Rightarrow> instr list \<times> int" where
  "clr_longs off sz p =
     (if 4 \<le> sz - p then (case clr_longs off sz (p + 4) of (cs, q) \<Rightarrow> (I_clr SzL (Frame (off + p)) # cs, q))
      else ([], p))"
  by pat_completeness auto
termination
  by (relation "measure (\<lambda>(off, sz, p). nat (sz - p))") auto

declare clr_longs.simps [simp del]

definition clr_unrolled :: "int \<Rightarrow> int \<Rightarrow> instr list" where
  "clr_unrolled off sz =
     (case clr_longs off sz 0 of (cs, p) \<Rightarrow>
        (let ws = (if 2 \<le> sz - p then [I_clr SzW (Frame (off + p))] else []);
             p1 = (if 2 \<le> sz - p then p + 2 else p)
         in cs @ ws @ (if 1 \<le> sz - p1 then [I_clr SzB (Frame (off + p1))] else [])))"

definition tile_memzero :: "nat \<Rightarrow> promotion \<Rightarrow> obj_id \<Rightarrow> int \<Rightarrow> int \<Rightarrow> nat \<Rightarrow> instr list \<times> nat" where
  "tile_memzero opt \<rho> var off sz n =
     (if \<rho> var \<noteq> 0 then
        ([if reg_is_addr (\<rho> var) then I_movea (Imm 0) (\<rho> var) else I_moveq 0 (\<rho> var)], n)
      else if 1 \<le> opt \<and> sz \<le> 16 \<and> even off then (clr_unrolled off sz, n)
      else ([I_lea (Frame off) 8, I_move SzW (Imm (word_of_int (sz - 1))) (Reg 1),
             I_label (uid_label ''L_memzero_'' n), I_clr SzB (PostInc 8),
             I_dbra 1 (uid_label ''L_memzero_'' n)], Suc n))"

definition move_to :: "nat \<Rightarrow> instr" where
  "move_to r = (if reg_is_addr r then I_movea (Reg 0) r else I_move SzL (Reg 0) (Reg r))"

definition store_width :: "int \<Rightarrow> width" where
  "store_width sz = (if sz = 1 then SzB else if sz = 2 then SzW else SzL)"

text \<open>The operand of a direct store (the address is an \<open>IE_LEA\<close>, the size at most 4).\<close>

fun direct_store :: "ir_expr \<Rightarrow> int \<Rightarrow> operand option" where
  "direct_store (IE_LEA is_local off name var) sz =
     (if sz \<le> 4 then Some (if is_local then Frame off else Sym name) else None)"
| "direct_store _ sz = None"

text \<open>
  The comparison that \<open>ir_cond\<close> emits for a relation: the evaluated operand is the right one, the
  instruction and the relation that holds of D0 and the compared operand; None for the general case.
\<close>

definition cond_plan :: "promotion \<Rightarrow> node_kind \<Rightarrow> ir_expr \<Rightarrow> ir_expr \<Rightarrow> (bool \<times> instr \<times> rel) option" where
  "cond_plan \<rho> op a b =
     (case ie_const b of
        Some c \<Rightarrow> Some (False, I_cmp (Imm c), rel_of op)
      | None \<Rightarrow>
          (case ie_const a of
             Some c \<Rightarrow> Some (True, I_cmp (Imm c), rel_swap (rel_of op))
           | None \<Rightarrow>
               (case ie_simple_lval \<rho> b of
                  Some (sz, x) \<Rightarrow> if sz = 4 then Some (False, I_cmp x, rel_of op) else None
                | None \<Rightarrow> None)))"

section \<open>The selector\<close>

function (sequential) tile_expr :: "nat \<Rightarrow> promotion \<Rightarrow> ir_expr \<Rightarrow> nat \<Rightarrow> instr list \<times> nat"
  and tile_cond :: "nat \<Rightarrow> promotion \<Rightarrow> ir_expr \<Rightarrow> string \<Rightarrow> bool \<Rightarrow> nat \<Rightarrow> instr list \<times> nat"
  and tile_args :: "nat \<Rightarrow> promotion \<Rightarrow> ir_expr list \<Rightarrow> nat \<Rightarrow> instr list \<times> nat" where
  "tile_expr opt \<rho> IE_NOP n = ([], n)"
| "tile_expr opt \<rho> (IE_NUM v sz u) n = (load_imm v, n)"
| "tile_expr opt \<rho> (IE_LEA is_local off name var) n =
     ([I_lea (if is_local then Frame off else Sym name) 8, I_move SzL (Reg 8) (Reg 0)], n)"
| "tile_expr opt \<rho> (IE_LOAD a sz u) n =
     (if lea_reg \<rho> a \<noteq> 0 then ([I_move SzL (Reg (lea_reg \<rho> a)) (Reg 0)], n)
      else case indexed_parts sz a of
        Some (x, y) \<Rightarrow>
          (let (cy, n1) = tile_expr opt \<rho> y n; (cx, n2) = tile_expr opt \<rho> x n1
           in (cy @ [I_move SzL (Reg 0) (Reg 1)] @ cx @
               [I_movea (Reg 0) 8, I_move SzL (Indexed 8 1) (Reg 0)], n2))
      | None \<Rightarrow>
          (let (ca, n1) = tile_expr opt \<rho> a n
           in (ca @ [I_movea (Reg 0) 8] @ emit_load_from_a0 sz u, n1)))"
| "tile_expr opt \<rho> (IE_STORE a b sz u) n =
     (if lea_reg \<rho> a \<noteq> 0 then
        (let (cb, n1) = tile_expr opt \<rho> b n in (cb @ [move_to (lea_reg \<rho> a)], n1))
      else case direct_store a sz of
        Some x \<Rightarrow>
          (let (cb, n1) = tile_expr opt \<rho> b n in (cb @ [I_move (store_width sz) (Reg 0) x], n1))
      | None \<Rightarrow>
          (let (ca, n1) = tile_expr opt \<rho> a n; (cb, n2) = tile_expr opt \<rho> b n1
           in (ca @ [I_push] @ cb @ [I_pop 9, I_move (store_width sz) (Reg 0) (AtReg 9)], n2)))"
| "tile_expr opt \<rho> (IE_BINOP op a b sz u pa) n =
     (case binop_plan opt \<rho> op u a b n of
        Some (right, k, t) \<Rightarrow>
          (let (c, n1) = (if right then tile_expr opt \<rho> b (if k then Suc n else n)
                          else tile_expr opt \<rho> a (if k then Suc n else n))
           in (c @ t, n1))
      | None \<Rightarrow>
          (let (cb, n1) = tile_expr opt \<rho> b n; (ca, n2) = tile_expr opt \<rho> a n1
           in (cb @ [I_push] @ ca @ [I_pop 1] @ op_tail op u, n2)))"
| "tile_expr opt \<rho> (IE_UNARY op a sz u) n =
     (let (ca, n1) = tile_expr opt \<rho> a n
      in (ca @ (if op = ND_NEG then [I_neg] else if op = ND_BITNOT then [I_not]
                else I_tst # materialize C_eq), n1))"
| "tile_expr opt \<rho> (IE_LOGAND a b) n =
     (let lf = uid_label ''L_false_'' n; le = uid_label ''L_end_'' n;
          (ca, n1) = tile_expr opt \<rho> a (Suc n); (cb, n2) = tile_expr opt \<rho> b n1
      in (ca @ [I_tst, I_bcc C_eq lf] @ cb @ [I_tst, I_bcc C_eq lf, I_moveq 1 0, I_bra le,
          I_label lf, I_moveq 0 0, I_label le], n2))"
| "tile_expr opt \<rho> (IE_LOGOR a b) n =
     (let lt = uid_label ''L_true_'' n; le = uid_label ''L_end_'' n;
          (ca, n1) = tile_expr opt \<rho> a (Suc n); (cb, n2) = tile_expr opt \<rho> b n1
      in (ca @ [I_tst, I_bcc C_ne lt] @ cb @ [I_tst, I_bcc C_ne lt, I_moveq 0 0, I_bra le,
          I_label lt, I_moveq 1 0, I_label le], n2))"
| "tile_expr opt \<rho> (IE_COND a b c sz u) n =
     (let ll = uid_label ''L_else_'' n; le = uid_label ''L_end_'' n;
          (ca, n1) = tile_cond opt \<rho> a ll False (Suc n); (cb, n2) = tile_expr opt \<rho> b n1;
          (cc, n3) = tile_expr opt \<rho> c n2
      in (ca @ cb @ [I_bra le, I_label ll] @ cc @ [I_label le], n3))"
| "tile_expr opt \<rho> (IE_COMMA a b sz u) n =
     (let (ca, n1) = tile_expr opt \<rho> a n; (cb, n2) = tile_expr opt \<rho> b n1 in (ca @ cb, n2))"
| "tile_expr opt \<rho> (IE_CAST op a sz u fs fu) n =
     (let (ca, n1) = tile_expr opt \<rho> a n
      in (ca @ (if op = TY_VOID then [] else if op = TY_BOOL then I_tst # materialize C_ne
                else cast_int_narrow sz u), n1))"
| "tile_expr opt \<rho> (IE_CALL nm a args sz u) n =
     (let (cs, n1) = tile_args opt \<rho> args n;
          (cf, n2) = (case nm of
             Some f \<Rightarrow> ([I_jsr_sym f (length args)], n1)
           | None \<Rightarrow>
               (case a of
                  Some f \<Rightarrow>
                    (let (ca, n2) = tile_expr opt \<rho> f n1
                     in (ca @ [I_movea (Reg 0) 8, I_jsr_ind 8 (length args)], n2))
                | None \<Rightarrow> ([], n1)))
      in (cs @ cf @ (if args = [] then [] else [I_addsp (4 * int (length args))]), n2))"
| "tile_expr opt \<rho> (IE_MEMZERO var off sz) n = tile_memzero opt \<rho> var off sz n"
| "tile_expr opt \<rho> (IE_VDEF t a sz) n =
     (let (ca, n1) = tile_expr opt \<rho> a n in (ca @ (if t \<noteq> 0 then [move_to t] else []), n1))"
| "tile_expr opt \<rho> (IE_VUSE t sz) n = (if t \<noteq> 0 then [I_move SzL (Reg t) (Reg 0)] else [], n)"
| "tile_cond opt \<rho> (IE_UNARY op a sz u) l w n =
     (if op = ND_NOT then tile_cond opt \<rho> a l (\<not> w) n
      else let (ca, n1) = tile_expr opt \<rho> (IE_UNARY op a sz u) n
           in (ca @ [I_tst, I_bcc (if w then C_ne else C_eq) l], n1))"
| "tile_cond opt \<rho> (IE_LOGAND a b) l w n =
     (if w then
        (let skip = uid_label ''L_condskip_'' n;
             (ca, n1) = tile_cond opt \<rho> a skip False (Suc n); (cb, n2) = tile_cond opt \<rho> b l True n1
         in (ca @ cb @ [I_label skip], n2))
      else
        (let (ca, n1) = tile_cond opt \<rho> a l False n; (cb, n2) = tile_cond opt \<rho> b l False n1
         in (ca @ cb, n2)))"
| "tile_cond opt \<rho> (IE_LOGOR a b) l w n =
     (if w then
        (let (ca, n1) = tile_cond opt \<rho> a l True n; (cb, n2) = tile_cond opt \<rho> b l True n1
         in (ca @ cb, n2))
      else
        (let skip = uid_label ''L_condskip_'' n;
             (ca, n1) = tile_cond opt \<rho> a skip True (Suc n); (cb, n2) = tile_cond opt \<rho> b l False n1
         in (ca @ cb @ [I_label skip], n2)))"
| "tile_cond opt \<rho> (IE_BINOP op a b sz u pa) l w n =
     (if op = ND_EQ \<or> op = ND_NE \<or> op = ND_LT \<or> op = ND_LE then
        (case cond_plan \<rho> op a b of
           Some (right, i, r) \<Rightarrow>
             (let (c, n1) = (if right then tile_expr opt \<rho> b n else tile_expr opt \<rho> a n)
              in (c @ [i, I_bcc (bcc_mnem (if w then r else rel_negate r) u) l], n1))
         | None \<Rightarrow>
             (let (cb, n1) = tile_expr opt \<rho> b n; (ca, n2) = tile_expr opt \<rho> a n1
              in (cb @ [I_push] @ ca @ [I_pop 1, I_cmp (Reg 1),
                    I_bcc (bcc_mnem (if w then rel_of op else rel_negate (rel_of op)) u) l], n2)))
      else let (ca, n1) = tile_expr opt \<rho> (IE_BINOP op a b sz u pa) n
           in (ca @ [I_tst, I_bcc (if w then C_ne else C_eq) l], n1))"
| "tile_cond opt \<rho> e l w n =
     (let (ca, n1) = tile_expr opt \<rho> e n
      in (ca @ [I_tst, I_bcc (if w then C_ne else C_eq) l], n1))"
| "tile_args opt \<rho> [] n = ([], n)"
| "tile_args opt \<rho> (x # xs) n =
     (let (cs, n1) = tile_args opt \<rho> xs n; (c, n2) = tile_expr opt \<rho> x n1
      in (cs @ c @ [I_push], n2))"
  by pat_completeness auto
termination
  by (relation "measure (case_sum (\<lambda>(opt, \<rho>, e, n). 2 * size e)
        (case_sum (\<lambda>(opt, \<rho>, e, l, w, n). 2 * size e + 1) (\<lambda>(opt, \<rho>, es, n). 2 * size_list size es)))")
    (auto dest: indexed_parts_size split: if_splits)

definition emit_item :: "nat \<Rightarrow> promotion \<Rightarrow> string \<Rightarrow> ir_item \<Rightarrow> nat \<Rightarrow> instr list \<times> nat" where
  "emit_item opt \<rho> fn it n =
     (case it of
        II_LABEL l \<Rightarrow> ([I_label l], n)
      | II_NOP \<Rightarrow> ([], n)
      | II_JMP l \<Rightarrow> ([I_bra l], n)
      | II_CBR e l w \<Rightarrow> tile_cond opt \<rho> e l w n
      | II_EVAL e \<Rightarrow> tile_expr opt \<rho> e n
      | II_RET None \<Rightarrow> ([I_bra (''L_return_'' @ fn)], n)
      | II_RET (Some e) \<Rightarrow>
          (let (c, n1) = tile_expr opt \<rho> e n in (c @ [I_bra (''L_return_'' @ fn)], n1)))"

primrec emit_items :: "nat \<Rightarrow> promotion \<Rightarrow> string \<Rightarrow> ir_item list \<Rightarrow> nat \<Rightarrow> instr list \<times> nat" where
  "emit_items opt \<rho> fn [] n = ([], n)"
| "emit_items opt \<rho> fn (it # its) n =
     (let (c, n1) = emit_item opt \<rho> fn it n; (cs, n2) = emit_items opt \<rho> fn its n1 in (c @ cs, n2))"

end
