(* ===== verification/Tile_Arith.thy ===== *)
theory Tile_Arith
  imports Ir_Tile
begin

text \<open>
  Arithmetic behind the tiles: powers of two and their exponents, strength-reduced multiplication,
  division and remainder, narrowing, and the condition codes of a comparison.
\<close>

section \<open>Powers of two\<close>

lemma and_pred_nat_even: "even n \<Longrightarrow> 0 < n \<Longrightarrow> n AND (n - 1) = 2 * ((n div 2) AND (n div 2 - 1))" for n :: nat
proof -
  assume n: "even n" "0 < n"
  have "(n - 1) div 2 = n div 2 - 1" using n by (auto elim!: evenE)
  then show ?thesis by (subst and_rec) (use n in auto)
qed

lemma and_pred_nat_odd: "odd n \<Longrightarrow> n AND (n - 1) = n - 1" for n :: nat
proof -
  assume n: "odd n"
  then have "(n - 1) div 2 = n div 2" "even (n - 1)" "2 * (n div 2) = n - 1" by (auto elim!: oddE)
  then show ?thesis by (subst and_rec) (simp add: n)
qed

lemma pow2_nat:
  "0 < n \<Longrightarrow> n AND (n - 1) = 0 \<Longrightarrow> n < 2 ^ k \<Longrightarrow> \<exists>j < k. n = 2 ^ j" for n :: nat
proof (induction k arbitrary: n)
  case (Suc k)
  show ?case
  proof (cases "even n")
    case True
    then have "0 < n div 2" "(n div 2) AND (n div 2 - 1) = 0" "n div 2 < 2 ^ k"
      using Suc.prems and_pred_nat_even [OF True] by (auto elim!: evenE)
    from Suc.IH [OF this] obtain j where "j < k" "n div 2 = 2 ^ j" by blast
    then show ?thesis using True by (intro exI [of _ "Suc j"]) (auto elim!: evenE)
  next
    case False
    then have "n = 1" using Suc.prems and_pred_nat_odd [OF False] by simp
    then show ?thesis by (intro exI [of _ 0]) simp
  qed
qed simp

lemma is_pow2_32_exp: "is_pow2_32 v \<Longrightarrow> \<exists>j < 32. v = push_bit j 1"
proof -
  assume "is_pow2_32 v"
  then have v: "v \<noteq> 0" "v AND (v - 1) = 0" by (simp_all add: is_pow2_32_def)
  have n0: "0 < unat v" using v(1) by (simp add: unat_gt_0)
  have "unat (v - 1) = unat v - 1" using n0 by (simp add: unat_sub_if_size word_le_nat_alt unat_1 Suc_leI)
  then have "unat v AND (unat v - 1) = unat (v AND (v - 1))" by (simp add: unsigned_and_eq \<open>unat (v - 1) = unat v - 1\<close>)
  also have "\<dots> = 0" using v(2) by simp
  finally have a: "unat v AND (unat v - 1) = 0" .
  have "unat v < 2 ^ 32" using unsigned_less [of v, where ?'a = nat] by simp
  from pow2_nat [OF n0 a this] obtain j where j: "j < 32" "unat v = 2 ^ j" by blast
  have "v = of_nat (unat v)" by simp
  then have "v = 2 ^ j" unfolding j(2) by simp
  with j(1) show ?thesis by (auto simp: push_bit_eq_mult)
qed

lemma ctz_loop_push: "j < k \<Longrightarrow> j < 32 \<Longrightarrow> ctz_loop k (push_bit j 1) = j"
proof (induction k arbitrary: j)
  case (Suc k)
  show ?case
  proof (cases j)
    case 0
    then show ?thesis by simp
  next
    case (Suc i)
    have "push_bit (Suc i) (1::u32) AND 1 = 0" by (rule bit_eqI) (auto simp: bit_simps)
    moreover have "drop_bit 1 (push_bit (Suc i) (1::u32)) = push_bit i 1"
      by (rule bit_eqI) (use Suc.prems Suc in \<open>auto simp: bit_simps\<close>)
    ultimately show ?thesis using Suc Suc.prems Suc.IH [of i] by simp
  qed
qed simp

lemma ctz32_push: "j < 32 \<Longrightarrow> ctz32 (push_bit j 1) = j"
  unfolding ctz32_def by (rule ctz_loop_push) simp_all

lemma is_pow2_32_ctz: "is_pow2_32 v \<Longrightarrow> ctz32 v < 32 \<and> v = push_bit (ctz32 v) 1"
  using is_pow2_32_exp ctz32_push by metis

lemma pow2_ctz_eq: "is_pow2_32 v \<Longrightarrow> ctz32 v < 32" "is_pow2_32 v \<Longrightarrow> v = 2 ^ ctz32 v"
  using is_pow2_32_ctz [of v] by (simp_all add: push_bit_eq_mult)

section \<open>Multiplication, division and remainder by a power of two\<close>

lemma mult_pow2: "x * 2 ^ k = push_bit k (x :: u32)"
  by (simp add: push_bit_eq_mult mult.commute)

lemma udiv_pow2: "k < 32 \<Longrightarrow> (x :: u32) div 2 ^ k = drop_bit k x"
  by (simp add: drop_bit_eq_div)

lemma umod_pow2: "k < 32 \<Longrightarrow> (x :: u32) mod 2 ^ k = x AND (2 ^ k - 1)"
  by (simp add: take_bit_eq_mask [symmetric] mask_eq_exp_minus_1 [symmetric] take_bit_eq_mod)

lemma int_pow2_less: "k < 31 \<Longrightarrow> (2::int) ^ k < 2147483648"
  using power_strict_increasing [of k 31 "2::int"] by simp

lemma signed_take_small: "0 \<le> v \<Longrightarrow> v < 2147483648 \<Longrightarrow> signed_take_bit 31 v = v" for v :: int
  by (rule signed_take_bit_int_eq_self) simp_all

lemma sint_pow2: "k < 31 \<Longrightarrow> sint (2 ^ k :: u32) = 2 ^ k"
proof -
  assume k: "k < 31"
  have "signed_take_bit 31 ((2::int) ^ k) = 2 ^ k"
    by (rule signed_take_small) (simp_all add: int_pow2_less [OF k])
  then have "sint (word_of_int (2 ^ k) :: u32) = 2 ^ k" unfolding signed_of_int by simp
  then show ?thesis by simp
qed

lemma pow2_signed_exp: "is_pow2_32 c \<Longrightarrow> 2 \<le> sint c \<Longrightarrow> 1 \<le> ctz32 c \<and> ctz32 c < 31"
proof -
  assume a: "is_pow2_32 c" "2 \<le> sint c"
  have "ctz32 c \<noteq> 31"
  proof
    assume "ctz32 c = 31"
    then have "c = 2 ^ 31" using pow2_ctz_eq(2) [OF a(1)] by simp
    then show False using a(2) by simp
  qed
  moreover have "ctz32 c \<noteq> 0"
  proof
    assume "ctz32 c = 0"
    then have "c = 1" using pow2_ctz_eq(2) [OF a(1)] by simp
    then show False using a(2) by simp
  qed
  ultimately show ?thesis using pow2_ctz_eq(1) [OF a(1)] by linarith
qed

text \<open>Truncating division by a positive power of two, by an arithmetic shift of an adjusted dividend.\<close>

lemma ceil_div: "0 < d \<Longrightarrow> (x + d - 1) div d = - ((- x) div d)" for x d :: int
proof -
  assume d: "0 < d"
  let ?q = "(- x) div d" and ?r = "(- x) mod d"
  have e: "- x = ?q * d + ?r" by simp
  have "0 \<le> ?r" "?r < d" using d by simp_all
  then have "0 \<le> d - 1 - ?r" "d - 1 - ?r < d" by simp_all
  then have z: "(d - 1 - ?r) div d = 0" by simp
  have "x + d - 1 = (d - 1 - ?r) + (- ?q) * d" using e by (simp add: algebra_simps)
  then have "(x + d - 1) div d = (- ?q) + (d - 1 - ?r) div d"
    using d by (metis add.commute div_mult_self1 less_irrefl)
  with z show ?thesis by simp
qed

lemma word_eq_of_sint: "sint w = k \<Longrightarrow> w = word_of_int k" for w :: u32
  by (drule sym) simp

lemma word_eq_of_uint: "uint w = k \<Longrightarrow> w = word_of_int k" for w :: u32
  by (drule sym) simp

lemma sdiv_pow2_nonneg:
  assumes "k < 31" "0 \<le> sint x"
  shows "signed_drop_bit k x = (word_of_int (sint x sdiv sint (2 ^ k :: u32)) :: u32)"
proof -
  have "sint (signed_drop_bit k x) = sint x div 2 ^ k"
    by (simp add: sint_signed_drop_bit_eq drop_bit_eq_div)
  moreover have "sint x sdiv sint (2 ^ k :: u32) = sint x div 2 ^ k"
    using assms by (simp add: sint_pow2 signed_divide_int_def sgn_if)
  ultimately have "sint (signed_drop_bit k x) = sint x sdiv sint (2 ^ k :: u32)" by simp
  then show ?thesis by (rule word_eq_of_sint)
qed

lemma sint_add_small:
  assumes "sint (x::u32) < 0" "0 \<le> sint (y::u32)"
  shows "sint (x + y) = sint x + sint y"
proof -
  have "- (2 ^ 31) \<le> sint x" "sint y < 2 ^ 31" using sint_ge [of x] sint_lt [of y] by simp_all
  then have "signed_take_bit 31 (sint x + sint y) = sint x + sint y"
    using assms by (intro signed_take_bit_int_eq_self) simp_all
  then show ?thesis by (simp add: sint_word_ariths(1))
qed

lemma sdiv_pow2_neg:
  assumes "k < 31" "sint x < 0"
  shows "signed_drop_bit k (x + (2 ^ k - 1)) = (word_of_int (sint x sdiv sint (2 ^ k :: u32)) :: u32)"
proof -
  have "(1::int) \<le> 2 ^ k" "(2::int) ^ k < 2147483648" using int_pow2_less [OF assms(1)] by simp_all
  then have y: "sint (2 ^ k - 1 :: u32) = 2 ^ k - 1"
    by (simp add: sint_word_ariths(2) sint_pow2 [OF assms(1)]) (rule signed_take_small, simp_all)
  then have "sint (x + (2 ^ k - 1)) = sint x + (2 ^ k - 1)"
    using sint_add_small [OF assms(2), of "2 ^ k - 1"] by simp
  then have "sint (signed_drop_bit k (x + (2 ^ k - 1))) = (sint x + 2 ^ k - 1) div 2 ^ k"
    by (simp add: sint_signed_drop_bit_eq drop_bit_eq_div add_diff_eq)
  also have "\<dots> = - ((- sint x) div 2 ^ k)" by (rule ceil_div) simp
  also have "\<dots> = sint x sdiv sint (2 ^ k :: u32)"
    using assms by (simp add: sint_pow2 signed_divide_int_def sgn_if)
  finally show ?thesis by (rule word_eq_of_sint)
qed

lemma uint_and_mask: "uint (x AND (2 ^ k - 1)) = uint (x :: u32) mod 2 ^ k"
proof -
  have "uint (x AND (2 ^ k - 1)) = uint (take_bit k x)"
    by (simp add: mask_eq_exp_minus_1 [symmetric] take_bit_eq_mask)
  also have "\<dots> = take_bit k (uint x)" by (rule unsigned_take_bit_eq)
  finally show ?thesis by (simp add: take_bit_eq_mod)
qed

lemma smod_pow2_nonneg:
  assumes "k < 31" "0 \<le> sint x"
  shows "x AND (2 ^ k - 1) = (word_of_int (sint x smod sint (2 ^ k :: u32)) :: u32)"
proof -
  have "sint x smod sint (2 ^ k :: u32) = sint x mod 2 ^ k"
    using assms by (simp add: sint_pow2 smod_int_alt_def sgn_if)
  also have "\<dots> = uint x mod 2 ^ k" using uint_eq_sint [OF assms(2)] by simp
  also have "\<dots> = uint (x AND (2 ^ k - 1))" by (simp add: uint_and_mask)
  finally show ?thesis by (metis word_eq_of_uint)
qed

lemma smod_pow2_neg:
  assumes "k < 31" "sint x < 0"
  shows "- ((- x) AND (2 ^ k - 1)) = (word_of_int (sint x smod sint (2 ^ k :: u32)) :: u32)"
proof -
  have d: "(2::int) ^ k dvd 2 ^ 32" using assms(1) by (intro le_imp_power_dvd) simp
  have "- x = word_of_int (- sint x)" by simp
  then have "uint (- x) = uint (word_of_int (- sint x) :: u32)" by (rule arg_cong)
  also have "\<dots> = (- sint x) mod 2 ^ 32" unfolding uint_word_of_int by simp
  finally have "uint (- x) = (- sint x) mod 2 ^ 32" .
  then have "uint (- x) mod 2 ^ k = (- sint x) mod 2 ^ k" using d by (simp add: mod_mod_cancel)
  then have "uint ((- x) AND (2 ^ k - 1)) = (- sint x) mod 2 ^ k"
    using uint_and_mask [of "- x" k] by simp
  then have "(- x) AND (2 ^ k - 1) = word_of_int ((- sint x) mod 2 ^ k)" by (rule word_eq_of_uint)
  then show ?thesis using assms by (simp add: sint_pow2 smod_int_alt_def sgn_if)
qed


section \<open>Conditions\<close>

text \<open>The relation a branch condition stands for, on D0 and the compared operand.\<close>

fun rel_holds :: "rel \<Rightarrow> bool \<Rightarrow> u32 \<Rightarrow> u32 \<Rightarrow> bool" where
  "rel_holds R_LT u a b = lt_val u a b" | "rel_holds R_LE u a b = le_val u a b"
| "rel_holds R_EQ u a b = (a = b)" | "rel_holds R_NE u a b = (a \<noteq> b)"
| "rel_holds R_GT u a b = lt_val u b a" | "rel_holds R_GE u a b = le_val u b a"

text \<open>After a comparison, N differs from V exactly when the signed difference is negative.\<close>

lemma sint_diff_sign:
  "(sint (a - b) < 0) \<noteq> (sint (a - b) \<noteq> sint a - sint b) \<longleftrightarrow> sint a < sint (b :: u32)"
proof -
  have bd: "- 2147483648 \<le> sint a" "sint a < 2147483648" "- 2147483648 \<le> sint b" "sint b < 2147483648"
    using sint_ge [of a] sint_lt [of a] sint_ge [of b] sint_lt [of b] by simp_all
  have d: "sint (a - b) = (sint a - sint b + 2147483648) mod 4294967296 - 2147483648"
    using int_word_sint [of "sint a - sint b", where ?'a = 32] by simp
  show ?thesis
  proof (cases "sint a - sint b < - 2147483648")
    case True
    have "(sint a - sint b + 2147483648) mod 4294967296 =
        (sint a - sint b + 2147483648 + 4294967296) mod 4294967296" by (rule mod_add_self2 [symmetric])
    also have "\<dots> = sint a - sint b + 2147483648 + 4294967296"
      by (rule mod_pos_pos_trivial) (use bd True in linarith)+
    finally have "(sint a - sint b + 2147483648) mod 4294967296 = sint a - sint b + 2147483648 + 4294967296" .
    then show ?thesis using d bd True by linarith
  next
    case low: False
    show ?thesis
    proof (cases "sint a - sint b < 2147483648")
      case True
      then have "(sint a - sint b + 2147483648) mod 4294967296 = sint a - sint b + 2147483648"
        using low by (intro mod_pos_pos_trivial) linarith+
      then show ?thesis using d by linarith
    next
      case False
      have "(sint a - sint b + 2147483648) mod 4294967296 = (sint a - sint b + 2147483648 - 4294967296) mod 4294967296"
        using mod_add_self2 [of "sint a - sint b + 2147483648 - 4294967296" 4294967296] by (simp add: algebra_simps)
      also have "\<dots> = sint a - sint b + 2147483648 - 4294967296"
        by (rule mod_pos_pos_trivial) (use bd False in linarith)+
      finally show ?thesis using d bd False by linarith
    qed
  qed
qed

lemma sint_same: "sint a = sint b \<longleftrightarrow> a = (b :: u32)"
  using signed_word_eqI by blast

lemma cond_cmp [simp]:
  "cond_holds C_eq (cmp_flags a b) = (a = b)" "cond_holds C_ne (cmp_flags a b) = (a \<noteq> b)"
  "cond_holds C_cs (cmp_flags a b) = (a < b)" "cond_holds C_cc (cmp_flags a b) = (b \<le> a)"
  "cond_holds C_hi (cmp_flags a b) = (b < a)" "cond_holds C_ls (cmp_flags a b) = (a \<le> b)"
  "cond_holds C_lt (cmp_flags a b) = (sint a < sint b)" "cond_holds C_ge (cmp_flags a b) = (sint b \<le> sint a)"
  "cond_holds C_gt (cmp_flags a b) = (sint b < sint a)" "cond_holds C_le (cmp_flags a b) = (sint a \<le> sint b)"
  using sint_diff_sign [of a b] sint_same [of a b] by (auto simp: cmp_flags_def word_less_def [symmetric])

lemmas signed_rels = lt_val_def le_val_def word_sle_eq word_sless_alt

lemma bcc_mnem_holds [simp]: "cond_holds (bcc_mnem r u) (cmp_flags a b) = rel_holds r u a b"
  by (cases r) (simp_all add: signed_rels del: cond_holds.simps)

lemma rel_negate_holds [simp]: "rel_holds (rel_negate r) u a b = (\<not> rel_holds r u a b)"
  by (cases r) (auto simp: signed_rels)

lemma rel_swap_holds [simp]: "rel_holds (rel_swap r) u a b = rel_holds r u b a"
  by (cases r) auto

definition is_rel :: "node_kind \<Rightarrow> bool" where
  "is_rel op \<longleftrightarrow> op = ND_EQ \<or> op = ND_NE \<or> op = ND_LT \<or> op = ND_LE"

lemma rel_of_holds: "is_rel op \<Longrightarrow> rel_holds (rel_of op) u a b = rel_val op u a b"
  by (auto simp: is_rel_def rel_of_def rel_val_def)

lemma scc_of_holds: "is_rel op \<Longrightarrow> cond_holds (scc_of op u) (cmp_flags a b) = rel_val op u a b"
  unfolding is_rel_def
  by (elim disjE) (simp_all add: scc_of_def rel_val_def signed_rels del: cond_holds.simps)

lemma binop_val_rel: "is_rel op \<Longrightarrow> binop_val T op u a b = of_bool (rel_val op u a b)"
  unfolding is_rel_def by (elim disjE) (simp_all add: binop_val_def)

lemma binop_val_comm: "is_commutative op \<Longrightarrow> binop_val T op u a b = binop_val T op u b a"
  unfolding is_commutative_def
  by (elim disjE) (simp_all add: binop_val_def rel_val_def ac_simps eq_commute [of a b])

section \<open>Narrowing\<close>

lemma ext_word_long: "scast (ucast (merge_low SzW d (scast (ucast d :: u8))) :: u16) = (scast (ucast d :: u8) :: u32)"
proof -
  have m: "(65535::u32) = mask 16" by (simp add: mask_eq_exp_minus_1)
  show ?thesis unfolding merge_low.simps m
    by (rule bit_word_eqI) (auto simp: bit_simps min_def split: if_splits)
qed

lemma and_255: "d AND 255 = ucast (ucast (d :: u32) :: u8)"
proof (rule bit_word_eqI)
  fix n assume "n < LENGTH(32)"
  have m: "(255::u32) = mask 8" by (simp add: mask_eq_exp_minus_1)
  show "bit (d AND 255) n = bit (ucast (ucast d :: u8) :: u32) n" unfolding m by (auto simp: bit_simps)
qed

lemma and_65535: "d AND 65535 = ucast (ucast (d :: u32) :: u16)"
proof (rule bit_word_eqI)
  fix n assume "n < LENGTH(32)"
  have m: "(65535::u32) = mask 16" by (simp add: mask_eq_exp_minus_1)
  show "bit (d AND 65535) n = bit (ucast (ucast d :: u16) :: u32) n" unfolding m by (auto simp: bit_simps)
qed

lemma ucast_merge_byte: "(ucast (merge_low SzB old v) :: u8) = ucast v"
proof -
  have m: "(255::u32) = mask 8" by (simp add: mask_eq_exp_minus_1)
  show ?thesis unfolding merge_low.simps m by (rule bit_word_eqI) (auto simp: bit_simps)
qed

lemma ucast_merge_word: "(ucast (merge_low SzW old v) :: u16) = ucast v"
proof -
  have m: "(65535::u32) = mask 16" by (simp add: mask_eq_exp_minus_1)
  show ?thesis unfolding merge_low.simps m by (rule bit_word_eqI) (auto simp: bit_simps)
qed

lemma merge_zero [simp]:
  "merge_low SzB 0 v = ucast (ucast v :: u8)" "merge_low SzW 0 v = ucast (ucast v :: u16)"
  by (simp_all add: and_255 and_65535)

lemma scc_and_1: "merge_low SzB old (if p then 255 else 0) AND 1 = of_bool p"
proof -
  have m: "(255::u32) = mask 8" by (simp add: mask_eq_exp_minus_1)
  show ?thesis unfolding merge_low.simps m by (rule bit_word_eqI) (auto simp: bit_simps)
qed

end
