(* ===== verification/Tile_Run.thy ===== *)
theory Tile_Run
  imports Tile_Arith
begin

text \<open>
  Running emitted code: code placed at an address of a program, straight-line execution, jumps to
  labels, and the effect of the tails that the selector appends to the code of an operand.
\<close>

section \<open>Runs\<close>

lemma m_runs_refl [simp]: "m_runs E P c c"
  by (simp add: m_runs_def)

lemma m_runs_trans: "m_runs E P a b \<Longrightarrow> m_runs E P b c \<Longrightarrow> m_runs E P a c"
  unfolding m_runs_def by (rule rtranclp_trans)

lemma m_runs_step: "m_step E P a = Some b \<Longrightarrow> m_runs E P b c \<Longrightarrow> m_runs E P a c"
  unfolding m_runs_def by (rule converse_rtranclp_into_rtranclp)

lemma m_runs_one: "m_step E P a = Some b \<Longrightarrow> m_runs E P a b"
  by (erule m_runs_step) simp

primrec code_at :: "instr list \<Rightarrow> nat \<Rightarrow> instr list \<Rightarrow> bool" where
  "code_at P pc [] \<longleftrightarrow> True"
| "code_at P pc (i # is) \<longleftrightarrow> pc < length P \<and> P ! pc = i \<and> code_at P (Suc pc) is"

lemma code_at_append [simp]: "code_at P pc (a @ b) \<longleftrightarrow> code_at P pc a \<and> code_at P (pc + length a) b"
  by (induction a arbitrary: pc) auto

lemma code_at_self: "code_at (pre @ c @ post) (length pre) c"
proof (induction c arbitrary: pre)
  case (Cons i c)
  from Cons.IH [of "pre @ [i]"] show ?case by (simp add: nth_append)
qed simp

text \<open>Straight-line code: no jump, no branch.\<close>

primrec exec :: "menv \<Rightarrow> instr list \<Rightarrow> mstate \<Rightarrow> mstate option" where
  "exec E [] s = Some s"
| "exec E (i # is) s = (case effect E i s of None \<Rightarrow> None | Some s' \<Rightarrow> exec E is s')"

lemma exec_append: "exec E (a @ b) s = (case exec E a s of None \<Rightarrow> None | Some s' \<Rightarrow> exec E b s')"
  by (induction a arbitrary: s) (auto split: option.splits)

lemma m_step_effect:
  "pc < length P \<Longrightarrow> effect E (P ! pc) s = Some s' \<Longrightarrow> m_step E P (pc, s) = Some (Suc pc, s')"
  by (cases "P ! pc") (simp_all add: m_step.simps)

lemma exec_runs: "code_at P pc is \<Longrightarrow> exec E is s = Some s' \<Longrightarrow> m_runs E P (pc, s) (pc + length is, s')"
proof (induction "is" arbitrary: pc s)
  case (Cons i "is")
  from Cons.prems obtain s1 where s1: "effect E i s = Some s1" "exec E is s1 = Some s'"
    by (auto split: option.splits)
  have "m_step E P (pc, s) = Some (Suc pc, s1)" using Cons.prems s1 by (intro m_step_effect) auto
  moreover have "m_runs E P (Suc pc, s1) (Suc pc + length is, s')" 
    using Cons.IH [of "Suc pc" s1] Cons.prems s1(2) by simp
  ultimately show ?case by (auto intro: m_runs_step)
qed simp

section \<open>Labels\<close>

definition labels_of :: "instr list \<Rightarrow> string list" where
  "labels_of c = concat (map (\<lambda>i. case i of I_label l \<Rightarrow> [l] | _ \<Rightarrow> []) c)"

lemma labels_of_simps [simp]:
  "labels_of [] = []" "labels_of (a @ b) = labels_of a @ labels_of b"
  "labels_of (I_label l # c) = l # labels_of c"
  by (simp_all add: labels_of_def)

lemma labels_of_Cons: "labels_of (i # c) = (case i of I_label l \<Rightarrow> [l] | _ \<Rightarrow> []) @ labels_of c"
  by (simp add: labels_of_def)

lemma label_in_labels: "i < length P \<Longrightarrow> P ! i = I_label l \<Longrightarrow> l \<in> set (labels_of P)"
proof (induction P arbitrary: i)
  case (Cons j P)
  then show ?case by (cases i) (auto simp: labels_of_Cons)
qed simp

lemma find_label_at:
  "distinct (labels_of P) \<Longrightarrow> i < length P \<Longrightarrow> P ! i = I_label l \<Longrightarrow> find_label P l = Some i"
proof (induction P arbitrary: i)
  case (Cons j P)
  show ?case
  proof (cases i)
    case 0
    then show ?thesis using Cons.prems by simp
  next
    case (Suc k)
    then have k: "k < length P" "P ! k = I_label l" using Cons.prems by auto
    then have "l \<in> set (labels_of P)" by (rule label_in_labels)
    then have "j \<noteq> I_label l" using Cons.prems(1) by auto
    moreover have "distinct (labels_of P)" using Cons.prems(1) by (simp add: labels_of_Cons)
    ultimately show ?thesis using Cons.IH [OF _ k] Suc by simp
  qed
qed simp

section \<open>State correspondence\<close>

definition saved_regs :: "nat set" where "saved_regs = {2, 3, 4, 5, 6, 7, 10, 11, 12, 13}"

definition agree :: "u32 \<Rightarrow> istate \<Rightarrow> mstate \<Rightarrow> bool" where
  "agree fp \<sigma> s \<longleftrightarrow> m_mem s = st_mem \<sigma> \<and> m_reg s 14 = fp \<and> (\<forall>r \<in> saved_regs. m_reg s r = st_reg \<sigma> r)"

text \<open>Only D0, D1, A0 and A1 and the condition codes differ.\<close>

definition keeps :: "mstate \<Rightarrow> mstate \<Rightarrow> bool" where
  "keeps s s' \<longleftrightarrow> m_mem s' = m_mem s \<and> m_stack s' = m_stack s \<and>
     (\<forall>r. r \<notin> {0, 1, 8, 9} \<longrightarrow> m_reg s' r = m_reg s r)"

lemma keeps_refl [simp]: "keeps s s"
  by (simp add: keeps_def)

lemma keeps_trans: "keeps a b \<Longrightarrow> keeps b c \<Longrightarrow> keeps a c"
  by (auto simp: keeps_def)

lemma agree_keeps: "agree fp \<sigma> s \<Longrightarrow> keeps s s' \<Longrightarrow> agree fp \<sigma> s'"
  unfolding agree_def keeps_def saved_regs_def by auto

section \<open>Tails\<close>

lemmas exec_simps = on_d0_def keeps_def Let_def

lemma exec_add_imm: "\<exists>s'. exec E (add_imm c) s = Some s' \<and> m_reg s' 0 = m_reg s 0 + c \<and> keeps s s'"
proof -
  have q: "1 \<le> c \<and> c \<le> 8" if "1 \<le> sint c" "sint c \<le> 8"
    using that uint_eq_sint [of c] by (simp add: word_le_def)
  have n: "1 \<le> - c \<and> - c \<le> 8" if "- 8 \<le> sint c" "sint c \<le> - 1"
  proof -
    have "sint (- c) = signed_take_bit 31 (- sint c)" by (simp add: sint_word_ariths(4))
    also have "\<dots> = - sint c" using that by (intro signed_take_small) linarith+
    finally have e: "sint (- c) = - sint c" .
    then have "uint (- c) = - sint c" using that uint_eq_sint [of "- c"] by linarith
    with that show ?thesis by (simp add: word_le_def)
  qed
  show ?thesis using q n by (auto simp: add_imm_def exec_simps)
qed

lemma shift_count_int: "n < 64 \<Longrightarrow> shift_count (word_of_int (int n)) = n"
proof -
  assume n: "n < 64"
  have "(word_of_int (int n) :: u32) AND 63 = of_nat (take_bit 6 n)"
    by (simp add: and_63 of_nat_take_bit flip: of_nat_take_bit)
  then show ?thesis using n by (simp add: shift_count_def take_bit_eq_mod unat_of_nat)
qed

lemma exec_shift_by:
  assumes "n < 64"
  shows "\<exists>s'. exec E (shift_by sh n) s = Some s' \<and> m_reg s' 0 = shift_val sh n (m_reg s 0) \<and> keeps s s'"
proof -
  have z: "shift_val sh 0 v = v" for v by (cases sh) simp_all
  have i: "1 \<le> (of_nat n :: u32) \<and> (of_nat n :: u32) \<le> 8 \<and> unat (of_nat n :: u32) = n" if "n \<noteq> 0" "n \<le> 8"
    using that by (simp add: word_le_nat_alt unat_of_nat)
  have c: "shift_count (of_nat n) = n" using shift_count_int [OF assms] by simp
  show ?thesis using z i c assms by (auto simp: shift_by_def exec_simps)
qed

lemma exec_materialize:
  assumes "m_flags s = Some f"
  shows "\<exists>s'. exec E (materialize cc) s = Some s' \<and> m_reg s' 0 = of_bool (cond_holds cc f) \<and> keeps s s'"
  using assms scc_and_1 by (simp add: materialize_def exec_simps del: merge_low.simps)

lemma exec_cmp_materialize:
  assumes "read_op E s SzL x = Some v"
  shows "\<exists>s'. exec E (I_cmp x # materialize cc) s = Some s' \<and>
    m_reg s' 0 = of_bool (cond_holds cc (cmp_flags (m_reg s 0) v)) \<and> keeps s s'"
proof -
  let ?t = "s\<lparr>m_flags := Some (cmp_flags (m_reg s 0) v)\<rparr>"
  have "effect E (I_cmp x) s = Some ?t" using assms by simp
  moreover obtain s' where "exec E (materialize cc) ?t = Some s'"
    "m_reg s' 0 = of_bool (cond_holds cc (cmp_flags (m_reg s 0) v))" "keeps ?t s'"
    using exec_materialize [of ?t "cmp_flags (m_reg s 0) v" E cc] by auto
  ultimately show ?thesis by (auto simp: keeps_def)
qed

lemma exec_tst_materialize:
  "\<exists>s'. exec E (I_tst # materialize cc) s = Some s' \<and>
    m_reg s' 0 = of_bool (cond_holds cc (tst_flags (m_reg s 0))) \<and> keeps s s'"
proof -
  let ?t = "s\<lparr>m_flags := Some (tst_flags (m_reg s 0))\<rparr>"
  obtain s' where "exec E (materialize cc) ?t = Some s'"
    "m_reg s' 0 = of_bool (cond_holds cc (tst_flags (m_reg s 0)))" "keeps ?t s'"
    using exec_materialize [of ?t "tst_flags (m_reg s 0)" E cc] by auto
  then show ?thesis by (auto simp: keeps_def)
qed

lemma tst_conditions [simp]:
  "cond_holds C_eq (tst_flags v) = (v = 0)" "cond_holds C_ne (tst_flags v) = (v \<noteq> 0)"
  "cond_holds C_pl (tst_flags v) = (0 \<le> sint v)"
  by (simp_all add: tst_flags_def not_less)

declare cond_holds.simps [simp del]

lemma exec_narrow:
  "\<exists>s'. exec E (cast_int_narrow sz u) s = Some s' \<and> m_reg s' 0 = narrow_val sz u (m_reg s 0) \<and> keeps s s'"
  by (auto simp: cast_int_narrow_def narrow_val_def exec_simps and_255 and_65535 ext_word_long
      simp del: merge_low.simps)

lemma ucast_up_down [simp]:
  "(ucast (ucast (b :: u8) :: u32) :: u8) = b" "(ucast (ucast (h :: u16) :: u32) :: u16) = h"
  by (rule bit_word_eqI; auto simp: bit_simps)+

lemma scast_byte_word_long [simp]: "(scast (ucast (scast (b :: u8) :: u32) :: u16) :: u32) = scast b"
  by (rule bit_word_eqI) (auto simp: bit_simps min_def split: if_splits)

lemma exec_load_a0:
  "\<exists>s'. exec E (emit_load_from_a0 sz u) s = Some s' \<and>
     m_reg s' 0 = load_val sz u (m_mem s) (m_reg s 8) \<and> keeps s s'"
  by (auto simp: emit_load_from_a0_def load_val_def exec_simps ext_word_long ucast_merge_byte ucast_merge_word
      simp del: merge_low.simps(1,2))

lemma exec_load_imm:
  "\<exists>s'. exec E (load_imm v) s = Some s' \<and> m_reg s' 0 = word_of_int v \<and> keeps s s'"
  by (auto simp: load_imm_def exec_simps)

text \<open>A conditional or unconditional branch, taken or not.\<close>

lemma bcc_taken:
  assumes "code_at P pc [I_bcc cc l]" "m_flags s = Some f" "cond_holds cc f" "find_label P l = Some j"
  shows "m_runs E P (pc, s) (j, s)"
  using assms by (intro m_runs_one) (simp add: m_step.simps jump_def)

lemma bcc_not_taken:
  assumes "code_at P pc [I_bcc cc l]" "m_flags s = Some f" "\<not> cond_holds cc f"
  shows "m_runs E P (pc, s) (Suc pc, s)"
  using assms by (intro m_runs_one) (simp add: m_step.simps)

lemma bra_runs:
  assumes "code_at P pc [I_bra l]" "find_label P l = Some j"
  shows "m_runs E P (pc, s) (j, s)"
  using assms by (intro m_runs_one) (simp add: m_step.simps jump_def)

text \<open>\<open>tst\<close> followed by a branch, from D0.\<close>

lemma tst_bcc_runs:
  assumes "code_at P pc [I_tst, I_bcc cc l]" "cond_holds cc (tst_flags (m_reg s 0)) \<Longrightarrow> find_label P l = Some j"
  shows "\<exists>s'. m_runs E P (pc, s) (if cond_holds cc (tst_flags (m_reg s 0)) then j else pc + 2, s') \<and>
    m_reg s' 0 = m_reg s 0 \<and> keeps s s'"
proof -
  let ?t = "s\<lparr>m_flags := Some (tst_flags (m_reg s 0))\<rparr>"
  have k: "m_reg ?t 0 = m_reg s 0 \<and> keeps s ?t" by (simp add: keeps_def)
  have 1: "m_runs E P (pc, s) (Suc pc, ?t)" using assms(1) by (intro m_runs_one m_step_effect) auto
  show ?thesis
  proof (cases "cond_holds cc (tst_flags (m_reg s 0))")
    case True
    have "m_runs E P (Suc pc, ?t) (j, ?t)"
      by (rule bcc_taken) (use assms True in auto)
    with 1 have "m_runs E P (pc, s) (j, ?t)" by (rule m_runs_trans)
    with k True show ?thesis by (intro exI [of _ ?t]) simp
  next
    case False
    have "m_runs E P (Suc pc, ?t) (Suc (Suc pc), ?t)"
      by (rule bcc_not_taken) (use assms False in auto)
    with 1 have "m_runs E P (pc, s) (Suc (Suc pc), ?t)" by (rule m_runs_trans)
    with k False show ?thesis by (intro exI [of _ ?t]) simp
  qed
qed

lemma label_found: "distinct (labels_of P) \<Longrightarrow> code_at P pc [I_label l] \<Longrightarrow> find_label P l = Some pc"
  by (auto intro: find_label_at)

lemma div_undef_pow2: "2 \<le> sint c \<Longrightarrow> \<not> div_undef False a c"
  by (auto simp: div_undef_def)

lemma sdiv_tail_runs:
  assumes t: "t = [I_tst, I_bcc C_pl l] @ add_imm (c - 1) @ [I_label l] @ shift_by Sh_asr (ctz32 c)"
    and at: "code_at P pc t" and d: "distinct (labels_of P)" and c: "2 \<le> sint c" "is_pow2_32 c"
  shows "\<exists>s'. m_runs E P (pc, s) (pc + length t, s') \<and> m_reg s' 0 = div_val False (m_reg s 0) c \<and> keeps s s'"
proof -
  let ?x = "m_reg s 0" and ?j = "pc + 2 + length (add_imm (c - 1))" and ?k = "ctz32 c"
  have k: "?k < 31" "c = 2 ^ ?k" using pow2_signed_exp [OF c(2,1)] pow2_ctz_eq(2) [OF c(2)] by auto
  have lab: "find_label P l = Some ?j" by (rule label_found [OF d]) (use at t in \<open>auto simp: numeral_2_eq_2\<close>)
  have at1: "code_at P pc [I_tst, I_bcc C_pl l]" "code_at P (pc + 2) (add_imm (c - 1))"
    "code_at P ?j (I_label l # shift_by Sh_asr ?k)"
    using at t by (auto simp: numeral_2_eq_2)
  obtain s1 where s1: "m_runs E P (pc, s) (if 0 \<le> sint ?x then ?j else pc + 2, s1)"
    "m_reg s1 0 = ?x" "keeps s s1"
    using tst_bcc_runs [OF at1(1), of s ?j E] lab by auto
  have "\<exists>s2. m_runs E P (pc, s) (?j, s2) \<and> keeps s s2 \<and>
      m_reg s2 0 = (if 0 \<le> sint ?x then ?x else ?x + (c - 1))"
  proof (cases "0 \<le> sint ?x")
    case True
    then show ?thesis using s1 by auto
  next
    case False
    obtain s2 where s2: "exec E (add_imm (c - 1)) s1 = Some s2" "m_reg s2 0 = ?x + (c - 1)" "keeps s1 s2"
      using exec_add_imm [of E "c - 1" s1] s1(2) by auto
    have "m_runs E P (pc + 2, s1) (?j, s2)" using exec_runs [OF at1(2) s2(1)] .
    then show ?thesis using s1 s2 False m_runs_trans keeps_trans by fastforce
  qed
  then obtain s2 where s2: "m_runs E P (pc, s) (?j, s2)" "keeps s s2"
      "m_reg s2 0 = (if 0 \<le> sint ?x then ?x else ?x + (c - 1))" by blast
  obtain s3 where s3: "exec E (shift_by Sh_asr ?k) s2 = Some s3" "m_reg s3 0 = signed_drop_bit ?k (m_reg s2 0)"
    "keeps s2 s3" using exec_shift_by [of ?k E Sh_asr s2] k(1) by auto
  have "m_runs E P (?j, s2) (?j + length (I_label l # shift_by Sh_asr ?k), s3)"
    by (rule exec_runs [OF at1(3)]) (simp add: s3(1))
  from m_runs_trans [OF s2(1) this] have "m_runs E P (pc, s) (pc + length t, s3)"
    by (simp add: t add.assoc)
  moreover have "m_reg s3 0 = div_val False ?x c"
    using sdiv_pow2_nonneg [OF k(1), of ?x] sdiv_pow2_neg [OF k(1), of ?x] s3(2) s2(3) k(2)
    by (auto simp: div_val_def)
  ultimately show ?thesis using keeps_trans [OF s2(2) s3(3)] by blast
qed

lemma smod_tail_runs:
  assumes t: "t = [I_tst, I_bcc C_pl l, I_neg, I_alui Op_and (c - 1), I_neg, I_bra lx, I_label l,
      I_alui Op_and (c - 1), I_label lx]"
    and at: "code_at P pc t" and d: "distinct (labels_of P)" and c: "2 \<le> sint c" "is_pow2_32 c"
  shows "\<exists>s'. m_runs E P (pc, s) (pc + length t, s') \<and> m_reg s' 0 = mod_val False (m_reg s 0) c \<and> keeps s s'"
proof -
  let ?x = "m_reg s 0" and ?k = "ctz32 c"
  have k: "?k < 31" "c = 2 ^ ?k" using pow2_signed_exp [OF c(2,1)] pow2_ctz_eq(2) [OF c(2)] by auto
  have lab: "find_label P l = Some (pc + 6)" "find_label P lx = Some (pc + 8)"
    by (rule label_found [OF d]; use at t in \<open>simp add: eval_nat_numeral\<close>)+
  have len: "length t = 9" unfolding t by simp
  have at1: "code_at P pc [I_tst, I_bcc C_pl l]" "code_at P (pc + 2) [I_neg, I_alui Op_and (c - 1), I_neg]"
    "code_at P (pc + 5) [I_bra lx]" "code_at P (pc + 6) [I_label l, I_alui Op_and (c - 1), I_label lx]"
    "code_at P (pc + 8) [I_label lx]"
    using at t by (auto simp: eval_nat_numeral)
  obtain s1 where s1: "m_runs E P (pc, s) (if 0 \<le> sint ?x then pc + 6 else pc + 2, s1)"
    "m_reg s1 0 = ?x" "keeps s s1"
    using tst_bcc_runs [OF at1(1), of s "pc + 6" E] lab by auto
  show ?thesis
  proof (cases "0 \<le> sint ?x")
    case True
    obtain s2 where s2: "exec E [I_label l, I_alui Op_and (c - 1), I_label lx] s1 = Some s2"
      "m_reg s2 0 = ?x AND (c - 1)" "keeps s1 s2" using s1(2) by (auto simp: exec_simps)
    have "m_runs E P (pc + 6, s1) (pc + 9, s2)" using exec_runs [OF at1(4) s2(1)] by (simp add: eval_nat_numeral)
    moreover have "m_runs E P (pc, s) (pc + 6, s1)" using s1(1) True by simp
    ultimately have "m_runs E P (pc, s) (pc + length t, s2)" 
      unfolding len by (rule m_runs_trans [rotated])
    moreover have "m_reg s2 0 = mod_val False ?x c"
      using smod_pow2_nonneg [OF k(1) True] s2(2) k(2) by (simp add: mod_val_def)
    ultimately show ?thesis using keeps_trans [OF s1(3) s2(3)] by blast
  next
    case False
    obtain s2 where s2: "exec E [I_neg, I_alui Op_and (c - 1), I_neg] s1 = Some s2"
      "m_reg s2 0 = - ((- ?x) AND (c - 1))" "keeps s1 s2" using s1(2) by (auto simp: exec_simps)
    have "m_runs E P (pc + 2, s1) (pc + 5, s2)" using exec_runs [OF at1(2) s2(1)] by (simp add: eval_nat_numeral)
    moreover have "m_runs E P (pc + 5, s2) (pc + 8, s2)" by (rule bra_runs [OF at1(3) lab(2)])
    moreover have "m_runs E P (pc + 8, s2) (pc + 9, s2)" using exec_runs [OF at1(5), of E s2 s2] by (simp add: add.commute)
    moreover have "m_runs E P (pc, s) (pc + 2, s1)" using s1(1) False by simp
    ultimately have "m_runs E P (pc, s) (pc + 9, s2)" by (meson m_runs_trans)
    then have "m_runs E P (pc, s) (pc + length t, s2)" by (simp add: len)
    moreover have "m_reg s2 0 = mod_val False ?x c"
      using smod_pow2_neg [OF k(1), of ?x] False s2(2) k(2) by (simp add: mod_val_def)
    ultimately show ?thesis using keeps_trans [OF s1(3) s2(3)] by blast
  qed
qed

end
