(* ===== verification/Tile_Tail.thy ===== *)
theory Tile_Tail
  imports Tile_Run
begin

text \<open>
  The tails of the selector compute the operator: constant operands with their strength reductions
  (\<open>ir_const_binop\<close>, \<open>ir_const_binop_left\<close>), memory operands (\<open>ir_mem_binop\<close>), the generic instruction,
  and the clearing of a local (\<open>ir_memzero\<close>).
\<close>

section \<open>Constant operands\<close>


text \<open>A tail is correct for a function of D0 when it computes it and keeps the rest.\<close>

definition tail_ok :: "menv \<Rightarrow> instr list \<Rightarrow> nat \<Rightarrow> instr list \<Rightarrow> mstate \<Rightarrow> u32 \<Rightarrow> bool" where
  "tail_ok E P pc t s v \<longleftrightarrow>
     (\<exists>s'. m_runs E P (pc, s) (pc + length t, s') \<and> m_reg s' 0 = v \<and> keeps s s')"

lemma tail_exec:
  "code_at P pc t \<Longrightarrow> \<exists>s'. exec E t s = Some s' \<and> m_reg s' 0 = v \<and> keeps s s' \<Longrightarrow> tail_ok E P pc t s v"
  unfolding tail_ok_def using exec_runs by blast

lemma const_tile_rel:
  assumes "is_rel op" "code_at P pc (I_cmp (Imm c) # materialize (scc_of op u))"
  shows "tail_ok E P pc (I_cmp (Imm c) # materialize (scc_of op u)) s (binop_val T op u (m_reg s 0) c)"
  using exec_cmp_materialize [of E s "Imm c" c "scc_of op u"] assms(1)
  by (intro tail_exec [OF assms(2)]) (simp add: binop_val_rel scc_of_holds)

lemma unat_shift_const: "\<not> (sint c < 1 \<or> 31 < sint c) \<Longrightarrow> unat c < 32 \<and> shift_count c = unat c"
proof -
  assume a: "\<not> (sint c < 1 \<or> 31 < sint c)"
  then have "uint c = sint c" by (intro uint_eq_sint) simp
  with a have n: "unat c < 32" by (simp add: unat_eq_nat_uint nat_less_iff)
  then have "shift_count (word_of_int (int (unat c))) = unat c" by (intro shift_count_int) simp
  with n show ?thesis by simp
qed

lemma exec_mul_step:
  assumes "n \<le> 8" "1 \<le> n" "op = Op_add \<or> op = Op_sub"
  shows "\<exists>s'. exec E [I_move SzL (Reg 0) (Reg 1), I_shift Sh_asl (Imm (of_nat n)), I_alu op (Reg 1)] s = Some s' \<and>
    m_reg s' 0 = alu_val op (push_bit n (m_reg s 0)) (m_reg s 0) \<and> keeps s s'"
proof -
  have i: "1 \<le> (of_nat n :: u32) \<and> (of_nat n :: u32) \<le> 8 \<and> unat (of_nat n :: u32) = n"
    using assms(1,2) by (simp add: word_le_nat_alt unat_of_nat)
  show ?thesis using i assms(3) by (auto simp: exec_simps)
qed

lemma ctz_pos: "is_pow2_32 c \<Longrightarrow> c \<noteq> 1 \<Longrightarrow> 1 \<le> ctz32 c"
  using pow2_ctz_eq(2) [of c] by (cases "ctz32 c") auto

lemma const_tile_mul:
  assumes t: "const_tile opt ND_MUL u c lc = Some (k, t)" and at: "code_at P pc t"
  shows "tail_ok E P pc t s (m_reg s 0 * c)"
proof -
  let ?x = "m_reg s 0"
  consider (zero) "c = 0" "t = [I_moveq 0 0]" | (one) "c = 1" "t = []" | (neg) "c = - 1" "t = [I_neg]"
    | (pow) "is_pow2_32 c" "t = shift_by Sh_asl (ctz32 c)"
    | (plus) "is_pow2_32 (c - 1)" "ctz32 (c - 1) \<le> 8" "3 \<le> sint c"
      "t = [I_move SzL (Reg 0) (Reg 1), I_shift Sh_asl (Imm (of_nat (ctz32 (c - 1)))), I_alu Op_add (Reg 1)]"
    | (minus) "is_pow2_32 (c + 1)" "ctz32 (c + 1) \<le> 8" "3 \<le> sint c"
      "t = [I_move SzL (Reg 0) (Reg 1), I_shift Sh_asl (Imm (of_nat (ctz32 (c + 1)))), I_alu Op_sub (Reg 1)]"
    using t by (auto simp: const_tile_def split: if_splits)
  then show ?thesis
  proof cases
    case zero
    then show ?thesis by (intro tail_exec [OF at]) (simp add: exec_simps)
  next
    case one
    then show ?thesis by (intro tail_exec [OF at]) simp
  next
    case neg
    then show ?thesis by (intro tail_exec [OF at]) (simp add: exec_simps)
  next
    case pow
    then show ?thesis
      using exec_shift_by [of "ctz32 c" E Sh_asl s] pow2_ctz_eq [of c] mult_pow2 [of ?x "ctz32 c"]
      by (intro tail_exec [OF at]) auto
  next
    case plus
    have "c - 1 \<noteq> 1" using plus(3) by auto
    then have n: "1 \<le> ctz32 (c - 1)" using ctz_pos plus(1) by blast
    have "c = 2 ^ ctz32 (c - 1) + 1" using pow2_ctz_eq(2) [OF plus(1)] by (simp add: algebra_simps)
    then have "?x * c = ?x * (2 ^ ctz32 (c - 1) + 1)" by simp
    also have "\<dots> = push_bit (ctz32 (c - 1)) ?x + ?x" by (simp add: algebra_simps mult_pow2)
    finally show ?thesis
      using exec_mul_step [OF plus(2) n, of Op_add E s] plus(4) by (intro tail_exec [OF at]) simp
  next
    case minus
    have "c + 1 \<noteq> 1" using minus(3) by auto
    then have n: "1 \<le> ctz32 (c + 1)" using ctz_pos minus(1) by blast
    have "c = 2 ^ ctz32 (c + 1) - 1" using pow2_ctz_eq(2) [OF minus(1)] by (simp add: algebra_simps)
    then have "?x * c = ?x * (2 ^ ctz32 (c + 1) - 1)" by simp
    also have "\<dots> = push_bit (ctz32 (c + 1)) ?x - ?x" by (simp add: algebra_simps mult_pow2)
    finally show ?thesis
      using exec_mul_step [OF minus(2) n, of Op_sub E s] minus(4) by (intro tail_exec [OF at]) simp
  qed
qed

lemma div_undef_unsigned_pow2: "is_pow2_32 c \<Longrightarrow> \<not> div_undef True a c"
  by (auto simp: div_undef_def is_pow2_32_def)

lemma const_tile_div:
  assumes t: "const_tile opt ND_DIV u c lc = Some (k, t)" and at: "code_at P pc t" and d: "distinct (labels_of P)"
  shows "tail_ok E P pc t s (binop_val T ND_DIV u (m_reg s 0) c)"
proof -
  consider (uns) "u" "is_pow2_32 c" "t = shift_by Sh_lsr (ctz32 c)"
    | (sgn) "\<not> u" "2 \<le> sint c" "is_pow2_32 c"
      "t = [I_tst, I_bcc C_pl (uid_label ''L_sdiv_'' lc)] @ add_imm (c - 1) @
        [I_label (uid_label ''L_sdiv_'' lc)] @ shift_by Sh_asr (ctz32 c)"
    using t by (auto simp: const_tile_def split: if_splits)
  then show ?thesis
  proof cases
    case uns
    have "m_reg s 0 div c = drop_bit (ctz32 c) (m_reg s 0)"
      using udiv_pow2 [of "ctz32 c"] pow2_ctz_eq [OF uns(2)] by metis
    then show ?thesis
      using exec_shift_by [of "ctz32 c" E Sh_lsr s] pow2_ctz_eq [OF uns(2)] uns div_undef_unsigned_pow2
      by (intro tail_exec [OF at]) (auto simp: binop_val_def div_val_def)
  next
    case sgn
    from sdiv_tail_runs [OF sgn(4) at d sgn(2,3)] show ?thesis
      using sgn(1) div_undef_pow2 [OF sgn(2)] by (simp add: tail_ok_def binop_val_def)
  qed
qed

lemma const_tile_mod:
  assumes t: "const_tile opt ND_MOD u c lc = Some (k, t)" and at: "code_at P pc t" and d: "distinct (labels_of P)"
  shows "tail_ok E P pc t s (binop_val T ND_MOD u (m_reg s 0) c)"
proof -
  consider (uns) "u" "is_pow2_32 c" "t = [I_alui Op_and (c - 1)]"
    | (sgn) "\<not> u" "2 \<le> sint c" "is_pow2_32 c"
      "t = [I_tst, I_bcc C_pl (uid_label ''L_smod_'' lc), I_neg, I_alui Op_and (c - 1), I_neg,
            I_bra (uid_label ''L_smodx_'' lc), I_label (uid_label ''L_smod_'' lc),
            I_alui Op_and (c - 1), I_label (uid_label ''L_smodx_'' lc)]"
    using t by (auto simp: const_tile_def split: if_splits)
  then show ?thesis
  proof cases
    case uns
    have "m_reg s 0 mod c = m_reg s 0 AND (c - 1)"
      using umod_pow2 [of "ctz32 c"] pow2_ctz_eq [OF uns(2)] by metis
    then show ?thesis
      using uns div_undef_unsigned_pow2
      by (intro tail_exec [OF at]) (auto simp: exec_simps binop_val_def mod_val_def)
  next
    case sgn
    from smod_tail_runs [OF sgn(4) at d sgn(2,3)] show ?thesis
      using sgn(1) div_undef_pow2 [OF sgn(2)] by (simp add: tail_ok_def binop_val_def)
  qed
qed

lemma const_tile_ok:
  assumes t: "const_tile opt op u c lc = Some (k, t)" and at: "code_at P pc t" and d: "distinct (labels_of P)"
  shows "tail_ok E P pc t s (binop_val T op u (m_reg s 0) c)"
proof -
  consider "op = ND_ADD" | "op = ND_SUB" | "op \<in> {ND_BITAND, ND_BITOR, ND_BITXOR}" | "is_rel op"
    | "op = ND_SHL" | "op = ND_SHR" | "op = ND_MUL" | "op = ND_DIV" | "op = ND_MOD"
    using t by (auto simp: const_tile_def is_rel_def split: if_splits)
  then show ?thesis
  proof cases
    case 1
    then show ?thesis using t exec_add_imm [of E c s]
      by (intro tail_exec [OF at]) (simp add: const_tile_def binop_val_def)
  next
    case 2
    then show ?thesis using t exec_add_imm [of E "- c" s]
      by (intro tail_exec [OF at]) (simp add: const_tile_def binop_val_def)
  next
    case 3
    then show ?thesis using t
      by (intro tail_exec [OF at]) (auto simp: const_tile_def binop_val_def exec_simps)
  next
    case 4
    then have "t = I_cmp (Imm c) # materialize (scc_of op u)" using t
      unfolding is_rel_def by (elim disjE) (simp_all add: const_tile_def)
    then show ?thesis using const_tile_rel [OF 4] at by simp
  next
    case 5
    then have c: "\<not> (sint c < 1 \<or> 31 < sint c)" "t = shift_by Sh_asl (unat c)"
      using t by (auto simp: const_tile_def split: if_splits)
    show ?thesis using unat_shift_const [OF c(1)] exec_shift_by [of "unat c" E Sh_asl s] 5 c(2)
      by (intro tail_exec [OF at]) (simp add: binop_val_def)
  next
    case 6
    then have c: "\<not> (sint c < 1 \<or> 31 < sint c)" "t = shift_by (if u then Sh_lsr else Sh_asr) (unat c)"
      using t by (auto simp: const_tile_def split: if_splits)
    show ?thesis using unat_shift_const [OF c(1)] exec_shift_by [of "unat c" E "if u then Sh_lsr else Sh_asr" s] 6 c(2)
      by (intro tail_exec [OF at]) (cases u; simp add: binop_val_def)
  next
    case 7
    then show ?thesis using const_tile_mul t at by (simp add: binop_val_def)
  next
    case 8
    then show ?thesis using const_tile_div t at d by simp
  next
    case 9
    then show ?thesis using const_tile_mod t at d by simp
  qed
qed

lemma const_tile_left_ok:
  assumes t: "const_tile_left opt op u c lc = Some (k, t)" and at: "code_at P pc t" and d: "distinct (labels_of P)"
  shows "tail_ok E P pc t s (binop_val T op u c (m_reg s 0))"
proof (cases "is_commutative op")
  case True
  then show ?thesis
    using const_tile_ok [OF _ at d, of opt op u c lc k E s T] t binop_val_comm [of op T u c]
    by (simp add: const_tile_left_def)
next
  case False
  then have op: "op = ND_LT \<or> op = ND_LE"
    and te: "t = I_cmp (Imm c) # materialize (if op = ND_LT then (if u then C_hi else C_gt) else (if u then C_cc else C_ge))"
    using t by (auto simp: const_tile_left_def split: if_splits)
  let ?cc = "if op = ND_LT then (if u then C_hi else C_gt) else (if u then C_cc else C_ge)"
  have "is_rel op" using op by (auto simp: is_rel_def)
  then have "binop_val T op u c (m_reg s 0) = of_bool (cond_holds ?cc (cmp_flags (m_reg s 0) c))"
    using op by (auto simp: binop_val_rel rel_val_def signed_rels)
  then show ?thesis
    using exec_cmp_materialize [of E s "Imm c" c ?cc] te by (intro tail_exec [OF at]) simp
qed

section \<open>Well-formed expressions\<close>

text \<open>
  What the proofs assume of an expression. The builder and the allocator see to the operators of the right
  kinds, a callee for every call and registers of the pool for promoted variables and temporaries. The
  bounds on the size of a cleared object are an assumption: \<open>ir_memzero\<close> prints its 16-bit count for any size,
  so an empty object, or one of more than 65536 bytes, is left out.
\<close>

definition reg_ok :: "nat \<Rightarrow> bool" where
  "reg_ok r \<longleftrightarrow> r = 0 \<or> r \<in> saved_regs"

fun wf_expr :: "promotion \<Rightarrow> ir_expr \<Rightarrow> bool" where
  "wf_expr \<rho> (IE_LEA is_local off name var) = (is_local \<longrightarrow> reg_ok (\<rho> var))"
| "wf_expr \<rho> (IE_LOAD a sz u) = wf_expr \<rho> a"
| "wf_expr \<rho> (IE_STORE a b sz u) = (wf_expr \<rho> a \<and> wf_expr \<rho> b)"
| "wf_expr \<rho> (IE_BINOP op a b sz u pa) = (op \<in> binop_kinds \<and> wf_expr \<rho> a \<and> wf_expr \<rho> b)"
| "wf_expr \<rho> (IE_UNARY op a sz u) = wf_expr \<rho> a"
| "wf_expr \<rho> (IE_LOGAND a b) = (wf_expr \<rho> a \<and> wf_expr \<rho> b)"
| "wf_expr \<rho> (IE_LOGOR a b) = (wf_expr \<rho> a \<and> wf_expr \<rho> b)"
| "wf_expr \<rho> (IE_COND a b c sz u) = (wf_expr \<rho> a \<and> wf_expr \<rho> b \<and> wf_expr \<rho> c)"
| "wf_expr \<rho> (IE_COMMA a b sz u) = (wf_expr \<rho> a \<and> wf_expr \<rho> b)"
| "wf_expr \<rho> (IE_CAST op a sz u fs fu) = ((op = TY_BOOL \<longrightarrow> sz < 4) \<and> wf_expr \<rho> a)"
| "wf_expr \<rho> (IE_CALL nm a args sz u) =
     ((nm \<noteq> None \<or> a \<noteq> None) \<and> length args < 8192 \<and> (\<forall>f \<in> set_option a. wf_expr \<rho> f) \<and>
      (\<forall>x \<in> set args. wf_expr \<rho> x))"
| "wf_expr \<rho> (IE_MEMZERO var off sz) = (reg_ok (\<rho> var) \<and> 1 \<le> sz \<and> sz \<le> 65536)"
| "wf_expr \<rho> (IE_VDEF t a sz) = (reg_ok t \<and> wf_expr \<rho> a)"
| "wf_expr \<rho> (IE_VUSE t sz) = reg_ok t"
| "wf_expr \<rho> e = True"

lemma saved_not_scratch: "r \<in> saved_regs \<Longrightarrow> r \<notin> {0, 1, 8, 9, 14}"
  by (auto simp: saved_regs_def)

lemma reg_ok_lea: "wf_expr \<rho> e \<Longrightarrow> reg_ok (lea_reg \<rho> e)"
  by (cases e) (auto simp: reg_ok_def)

lemma reg_ok_saved: "reg_ok r \<Longrightarrow> r \<noteq> 0 \<Longrightarrow> r \<in> saved_regs"
  by (simp add: reg_ok_def)

section \<open>Constants and simple operands\<close>

lemma tk_cast_val: "tk_is_integer op \<Longrightarrow> 4 \<le> sz \<Longrightarrow> op \<noteq> TY_BOOL \<Longrightarrow> cast_val op sz u v = v"
  by (auto simp: tk_is_integer_def cast_val_def narrow_val_def less_eq_ty_kind_def)

lemma ie_const_evals:
  "ie_const e = Some c \<Longrightarrow> wf_expr \<rho> e \<Longrightarrow> evals T fp \<rho> e \<sigma> = {(c, \<sigma>)}"
proof (induction e)
  case (IE_CAST op a sz u fs fu)
  then have "tk_is_integer op" "4 \<le> sz" "op \<noteq> TY_BOOL" "ie_const a = Some c" "wf_expr \<rho> a"
    by (auto split: if_splits)
  then show ?case using IE_CAST.IH tk_cast_val by simp
qed (auto split: if_splits)

lemma simple_lval_evals:
  "ie_simple_lval \<rho> e = Some (4, x) \<Longrightarrow> wf_expr \<rho> e \<Longrightarrow> agree fp \<sigma> s \<Longrightarrow>
   \<exists>v. read_op E s SzL x = Some v \<and> evals (me_target E) fp \<rho> e \<sigma> = {(v, \<sigma>)} \<and>
       (\<forall>op \<in> {Op_add, Op_sub, Op_and, Op_or}. alu_operand_ok op x)"
proof (induction \<rho> e rule: ie_simple_lval.induct)
  case (1 \<rho> op a sz u fs fu)
  then have "tk_is_integer op" "sz = 4" "op \<noteq> TY_BOOL" "ie_simple_lval \<rho> a = Some (4, x)" "wf_expr \<rho> a"
    by (auto split: if_splits)
  then show ?case using "1.IH" "1.prems"(3) tk_cast_val by simp
next
  case (2 \<rho> is_local off name var sz u)
  let ?r = "lea_reg \<rho> (IE_LEA is_local off name var)"
  have x: "x = (if ?r \<noteq> 0 then Reg ?r else if is_local then Frame off else Sym name)" "\<not> reg_is_addr ?r" "sz = 4"
    using "2.prems"(1) by (auto simp: Let_def split: if_splits)
  show ?case
  proof (cases "?r = 0")
    case True
    then have "read_op E s SzL x = Some (ld32 (st_mem \<sigma>) (if is_local then fp + word_of_int off else tg_sym (me_target E) name))"
      using x(1) "2.prems"(3) by (auto simp: agree_def)
    then show ?thesis using True x by (auto simp: load_val_def)
  next
    case False
    have "?r \<in> saved_regs" using reg_ok_lea [of \<rho> "IE_LEA is_local off name var"] "2.prems"(2) False
      by (simp add: reg_ok_def)
    then have "read_op E s SzL x = Some (st_reg \<sigma> ?r)" using x(1) False "2.prems"(3) by (simp add: agree_def)
    then show ?thesis using False x by (auto simp: reg_is_addr_def)
  qed
qed auto

lemma mem_tile_ok:
  assumes t: "mem_tile \<rho> op u b = Some t" and at: "code_at P pc t" and "wf_expr \<rho> b" "agree fp \<sigma> s"
  shows "\<exists>v. (v, \<sigma>) \<in> evals (me_target E) fp \<rho> b \<sigma> \<and> tail_ok E P pc t s (binop_val T op u (m_reg s 0) v)"
proof -
  obtain x where x: "ie_simple_lval \<rho> b = Some (4, x)"
    using t by (auto simp: mem_tile_def split: option.splits if_splits)
  obtain v where v: "read_op E s SzL x = Some v" "evals (me_target E) fp \<rho> b \<sigma> = {(v, \<sigma>)}"
    "\<forall>op \<in> {Op_add, Op_sub, Op_and, Op_or}. alu_operand_ok op x"
    using simple_lval_evals [OF x assms(3,4)] by blast
  have "tail_ok E P pc t s (binop_val T op u (m_reg s 0) v)"
  proof (cases "is_rel op")
    case True
    then have "t = I_cmp x # materialize (scc_of op u)" using t x
      unfolding is_rel_def by (elim disjE) (simp_all add: mem_tile_def)
    then show ?thesis
      using exec_cmp_materialize [OF v(1), of "scc_of op u"] True
      by (intro tail_exec [OF at]) (simp add: binop_val_rel scc_of_holds)
  next
    case False
    then show ?thesis using t x v(1,3)
      by (intro tail_exec [OF at])
        (auto simp: mem_tile_def is_rel_def binop_val_def exec_simps split: if_splits)
  qed
  with v(2) show ?thesis by auto
qed

section \<open>The generic operator\<close>

text \<open>The runtime helpers compute the operator of D0 and D1.\<close>

definition runtime_ok :: "menv \<Rightarrow> bool" where
  "runtime_ok E \<longleftrightarrow> (\<forall>op \<in> {ND_MUL, ND_DIV, ND_MOD}. \<forall>u a b.
     me_rt E (rt_name op u) a b = binop_val (me_target E) op u a b)"

lemma op_tail_ok:
  assumes "op \<in> binop_kinds" "runtime_ok E" and at: "code_at P pc (op_tail op u)"
  shows "tail_ok E P pc (op_tail op u) s (binop_val (me_target E) op u (m_reg s 0) (m_reg s 1))"
proof -
  consider "op \<in> {ND_ADD, ND_SUB, ND_BITAND, ND_BITOR, ND_BITXOR, ND_SHL, ND_SHR}"
    | "op \<in> {ND_MUL, ND_DIV, ND_MOD}" | "is_rel op"
    using assms(1) by (auto simp: binop_kinds_def is_rel_def)
  then show ?thesis
  proof cases
    case 1
    have "\<exists>s'. exec E (op_tail op u) s = Some s' \<and>
        m_reg s' 0 = binop_val (me_target E) op u (m_reg s 0) (m_reg s 1) \<and> keeps s s'"
      using 1 by (elim insertE emptyE; cases u; simp add: op_tail_def binop_val_def exec_simps)
    then show ?thesis by (rule tail_exec [OF at])
  next
    case 2
    then have t: "op_tail op u = [I_jsr_rt (rt_name op u)]" by (auto simp: op_tail_def)
    have "me_rt E (rt_name op u) (m_reg s 0) (m_reg s 1) = binop_val (me_target E) op u (m_reg s 0) (m_reg s 1)"
      using assms(2) 2 by (auto simp: runtime_ok_def)
    then show ?thesis
      by (intro tail_exec [OF at]) (auto simp: t after_call_def scratch_regs_def exec_simps)
  next
    case 3
    then have t: "op_tail op u = I_cmp (Reg 1) # materialize (scc_of op u)"
      unfolding is_rel_def by (elim disjE) (simp_all add: op_tail_def)
    show ?thesis
      using exec_cmp_materialize [of E s "Reg 1" "m_reg s 1" "scc_of op u"] 3
      by (intro tail_exec [OF at]) (simp add: t binop_val_rel scc_of_holds)
  qed
qed

section \<open>Clearing memory\<close>

lemma zero_mem_0 [simp]: "zero_mem m p 0 = m"
  by (simp add: zero_mem_def)

lemma zero_mem_add:
  assumes "a + b \<le> 4294967296"
  shows "zero_mem (zero_mem m p a) (p + of_nat a) b = zero_mem m p (a + b)"
proof (rule ext)
  fix q
  let ?d = "q - p"
  have "unat (q - (p + of_nat a)) = unat ?d - a" if "a \<le> unat ?d"
  proof -
    have u: "unat (of_nat a :: u32) = a" using that unsigned_less [of ?d, where ?'a = nat]
      by (simp add: unat_of_nat)
    then have "(of_nat a :: u32) \<le> ?d" using that by (simp add: word_le_nat_alt)
    then have "unat (?d - of_nat a) = unat ?d - unat (of_nat a :: u32)" by (rule unat_sub)
    then show ?thesis using u by (simp add: algebra_simps)
  qed
  then show "zero_mem (zero_mem m p a) (p + of_nat a) b q = zero_mem m p (a + b) q"
    by (cases "a \<le> unat ?d") (auto simp: zero_mem_def)
qed

lemma zero_mem_1: "m(p := 0) = zero_mem m p 1"
  by (rule ext) (auto simp: zero_mem_def unat_eq_0 less_Suc_eq)

lemma st_width_zero:
  "st_width SzB m p 0 = zero_mem m p 1" "st_width SzW m p 0 = zero_mem m p 2" "st_width SzL m p 0 = zero_mem m p 4"
proof -
  show b: "st_width SzB m p 0 = zero_mem m p 1" by (simp add: zero_mem_1)
  have w: "st16 m p 0 = zero_mem m p 2" for m p
    using zero_mem_add [of 1 1 m p] by (simp add: st16_def zero_mem_1 numeral_2_eq_2)
  show "st_width SzW m p 0 = zero_mem m p 2" by (simp add: w)
  show "st_width SzL m p 0 = zero_mem m p 4"
    using zero_mem_add [of 2 2 m p] by (simp add: st32_def w)
qed

text \<open>\<open>s'\<close> is \<open>s\<close> with \<open>n\<close> bytes cleared at \<open>p\<close>.\<close>

definition cleared :: "mstate \<Rightarrow> u32 \<Rightarrow> nat \<Rightarrow> mstate \<Rightarrow> bool" where
  "cleared s p n s' \<longleftrightarrow> m_mem s' = zero_mem (m_mem s) p n \<and> m_stack s' = m_stack s \<and>
     (\<forall>r. r \<notin> {0, 1, 8, 9} \<longrightarrow> m_reg s' r = m_reg s r)"

lemma exec_clr_frame:
  "\<exists>s'. exec E [I_clr w (Frame off)] s = Some s' \<and>
     cleared s (m_reg s 14 + word_of_int off) (case w of SzB \<Rightarrow> 1 | SzW \<Rightarrow> 2 | SzL \<Rightarrow> 4) s'"
  using st_width_zero by (cases w) (simp_all add: cleared_def del: st_width.simps)

lemma cleared_step:
  assumes "cleared s (m_reg s 14 + word_of_int off) a s1"
    and "cleared s1 (m_reg s1 14 + word_of_int (off + int a)) b s2" and "a + b \<le> 4294967296"
  shows "cleared s (m_reg s 14 + word_of_int off) (a + b) s2"
  using assms zero_mem_add [OF assms(3), of "m_mem s" "m_reg s 14 + word_of_int off"]
  by (auto simp: cleared_def add.assoc)

lemma cleared_0: "cleared s p 0 s"
  by (simp add: cleared_def)

text \<open>Clears of a prefix: from \<open>p\<close> cleared bytes to \<open>q\<close>.\<close>

lemma exec_clr_longs:
  "clr_longs off sz p = (cs, q) \<Longrightarrow> 0 \<le> p \<Longrightarrow> p \<le> sz \<Longrightarrow> sz \<le> 65536 \<Longrightarrow>
   cleared s0 (m_reg s0 14 + word_of_int off) (nat p) s \<Longrightarrow>
   \<exists>s'. exec E cs s = Some s' \<and> cleared s0 (m_reg s0 14 + word_of_int off) (nat q) s' \<and>
     p \<le> q \<and> q \<le> sz \<and> sz - q < 4"
proof (induction off sz p arbitrary: cs q s rule: clr_longs.induct)
  case (1 off sz p)
  show ?case
  proof (cases "4 \<le> sz - p")
    case True
    obtain cs1 q1 where c1: "clr_longs off sz (p + 4) = (cs1, q1)" by fastforce
    then have cs: "cs = I_clr SzL (Frame (off + p)) # cs1" "q = q1"
      using "1.prems"(1) True by (simp_all add: clr_longs.simps [of off sz p])
    obtain s1 where s1: "exec E [I_clr SzL (Frame (off + p))] s = Some s1"
      "cleared s (m_reg s 14 + word_of_int (off + p)) 4 s1"
      using exec_clr_frame [of E SzL "off + p" s] by auto
    have "cleared s0 (m_reg s0 14 + word_of_int off) (nat p + 4) s1"
      by (rule cleared_step [OF "1.prems"(5)]) (use s1(2) "1.prems" in \<open>simp_all add: algebra_simps\<close>)
    then have "cleared s0 (m_reg s0 14 + word_of_int off) (nat (p + 4)) s1"
      using "1.prems"(2) by (simp add: nat_add_distrib)
    from "1.IH" [OF True c1 _ _ "1.prems"(4) this] True "1.prems"(2) obtain s2 where
      "exec E cs1 s1 = Some s2" "cleared s0 (m_reg s0 14 + word_of_int off) (nat q) s2"
      "p + 4 \<le> q" "q \<le> sz" "sz - q < 4" unfolding cs(2) by auto
    moreover have "exec E cs s = exec E cs1 s1" using s1(1) cs(1) by (auto split: option.splits)
    ultimately show ?thesis by auto
  next
    case False
    then show ?thesis using "1.prems" by (simp add: clr_longs.simps [of off sz p])
  qed
qed

lemma exec_clr_opt:
  assumes "cleared s0 (m_reg s0 14 + word_of_int off) (nat p) s" "0 \<le> p" "p \<le> 65536"
    and "n = (case w of SzB \<Rightarrow> 1 | SzW \<Rightarrow> 2 | SzL \<Rightarrow> 4)"
  shows "\<exists>s'. exec E [I_clr w (Frame (off + p))] s = Some s' \<and>
    cleared s0 (m_reg s0 14 + word_of_int off) (nat (p + int n)) s'"
proof -
  obtain s1 where s1: "exec E [I_clr w (Frame (off + p))] s = Some s1"
    "cleared s (m_reg s 14 + word_of_int (off + p)) n s1"
    using exec_clr_frame [of E w "off + p" s] assms(4) by blast
  have "n \<le> 4" using assms(4) by (cases w) auto
  then have "cleared s0 (m_reg s0 14 + word_of_int off) (nat p + n) s1"
    by (intro cleared_step [OF assms(1)]) (use s1(2) assms(2,3) in simp_all)
  with s1(1) assms(2) show ?thesis by (simp add: nat_add_distrib)
qed

lemma exec_clr_if:
  assumes "cleared s0 (m_reg s0 14 + word_of_int off) (nat p) s" "0 \<le> p" "p \<le> 65536"
    and "k = (case w of SzB \<Rightarrow> 1 | SzW \<Rightarrow> 2 | SzL \<Rightarrow> 4)"
  shows "\<exists>s'. exec E (if b then [I_clr w (Frame (off + p))] else []) s = Some s' \<and>
    cleared s0 (m_reg s0 14 + word_of_int off) (nat (if b then p + k else p)) s'"
proof (cases b)
  case True
  have "k = int (case w of SzB \<Rightarrow> 1 | SzW \<Rightarrow> 2 | SzL \<Rightarrow> 4)" using assms(4) by (cases w) simp_all
  then show ?thesis using exec_clr_opt [OF assms(1-3) refl, of E w] True by simp
qed (use assms(1) in simp)

lemma exec_clr_unrolled:
  assumes "0 \<le> sz" "sz \<le> 65536"
  shows "\<exists>s'. exec E (clr_unrolled off sz) s = Some s' \<and>
    cleared s (m_reg s 14 + word_of_int off) (nat sz) s'"
proof -
  obtain cs p where c: "clr_longs off sz 0 = (cs, p)" by fastforce
  obtain s1 where s1: "exec E cs s = Some s1" "cleared s (m_reg s 14 + word_of_int off) (nat p) s1"
    "0 \<le> p" "p \<le> sz" "sz - p < 4"
    using exec_clr_longs [OF c _ assms, of s s E] cleared_0 by auto
  define p1 where "p1 = (if 2 \<le> sz - p then p + 2 else p)"
  define ws where "ws = (if 2 \<le> sz - p then [I_clr SzW (Frame (off + p))] else [])"
  define bs where "bs = (if 1 \<le> sz - p1 then [I_clr SzB (Frame (off + p1))] else [])"
  have e: "clr_unrolled off sz = cs @ ws @ bs"
    by (simp add: clr_unrolled_def c Let_def p1_def ws_def bs_def)
  obtain s2 where s2: "exec E ws s1 = Some s2" "cleared s (m_reg s 14 + word_of_int off) (nat p1) s2"
    using exec_clr_if [OF s1(2,3), of 2 SzW E "2 \<le> sz - p"] s1 assms(2) unfolding ws_def p1_def by auto
  have p1: "0 \<le> p1" "p1 \<le> 65536" "sz - p1 \<le> 1" "p1 \<le> sz" using s1 assms(2) by (auto simp: p1_def)
  obtain s3 where "exec E bs s2 = Some s3"
    "cleared s (m_reg s 14 + word_of_int off) (nat (if 1 \<le> sz - p1 then p1 + 1 else p1)) s3"
    using exec_clr_if [OF s2(2) p1(1,2), of 1 SzB E "1 \<le> sz - p1"] unfolding bs_def by auto
  moreover have "(if 1 \<le> sz - p1 then p1 + 1 else p1) = sz" using p1 by auto
  ultimately show ?thesis using s1(1) s2(1) by (simp add: e exec_append)
qed

text \<open>The byte loop: a count of \<open>n\<close> in the low word of D1 clears \<open>n + 1\<close> bytes.\<close>

lemma word_pred_low: "(ucast (r - 1 :: u32) :: u16) = ucast r - 1"
proof -
  have "uint (ucast (r - 1) :: u16) = uint (ucast r - 1 :: u16)"
    by (simp add: uint_word_ariths unsigned_ucast_eq take_bit_eq_mod mod_mod_cancel mod_diff_left_eq)
  then show ?thesis by (rule unsigned_word_eqI)
qed

lemma clear_loop_runs:
  assumes at: "code_at P pc [I_label l, I_clr SzB (PostInc 8), I_dbra 1 l]" and d: "distinct (labels_of P)"
  shows "(ucast (m_reg s 1) :: u16) = of_nat n \<Longrightarrow> n < 65536 \<Longrightarrow>
    \<exists>s'. m_runs E P (pc, s) (pc + 3, s') \<and> cleared s (m_reg s 8) (Suc n) s'"
proof (induction n arbitrary: s)
  case (0 s)
  let ?c = "no_flags (set_reg 8 (m_reg s 8 + 1) (s\<lparr>m_mem := (m_mem s)(m_reg s 8 := 0)\<rparr>))"
  let ?d = "set_reg 1 (merge_low SzW (m_reg s 1) (m_reg s 1 - 1)) ?c"
  have "exec E [I_label l, I_clr SzB (PostInc 8)] s = Some ?c" by simp
  from exec_runs [OF _ this, of P pc] at have "m_runs E P (pc, s) (pc + 2, ?c)" by simp
  moreover have "m_step E P (pc + 2, ?c) = Some (pc + 3, ?d)"
    using at 0 by (simp add: m_step.simps Let_def)
  then have "m_runs E P (pc + 2, ?c) (pc + 3, ?d)" by (rule m_runs_one)
  ultimately have "m_runs E P (pc, s) (pc + 3, ?d)" by (rule m_runs_trans)
  then show ?case by (intro exI [of _ ?d]) (simp add: cleared_def zero_mem_1)
next
  case (Suc n s)
  let ?c = "no_flags (set_reg 8 (m_reg s 8 + 1) (s\<lparr>m_mem := (m_mem s)(m_reg s 8 := 0)\<rparr>))"
  let ?d = "set_reg 1 (merge_low SzW (m_reg s 1) (m_reg s 1 - 1)) ?c"
  have lab: "find_label P l = Some pc" using label_found [OF d, of pc l] at by simp
  have "exec E [I_label l, I_clr SzB (PostInc 8)] s = Some ?c" by simp
  from exec_runs [OF _ this, of P pc] at have 1: "m_runs E P (pc, s) (pc + 2, ?c)" by simp
  have "(of_nat (Suc n) :: u16) \<noteq> 0"
  proof
    assume "(of_nat (Suc n) :: u16) = 0"
    then have "unat (of_nat (Suc n) :: u16) = 0" by simp
    then show False using Suc.prems(2) by (simp add: unat_of_nat del: of_nat_Suc)
  qed
  then have "m_step E P (pc + 2, ?c) = Some (pc, ?d)"
    using at Suc.prems(1) lab by (simp add: m_step.simps Let_def jump_def)
  then have 2: "m_runs E P (pc + 2, ?c) (pc, ?d)" by (rule m_runs_one)
  have "(ucast (m_reg ?d 1) :: u16) = of_nat n"
    using Suc.prems(1) by (simp add: ucast_merge_word word_pred_low del: merge_low.simps)
  from Suc.IH [OF this] Suc.prems(2) obtain s' where s':
    "m_runs E P (pc, ?d) (pc + 3, s')" "cleared ?d (m_reg ?d 8) (Suc n) s'" by auto
  have "m_runs E P (pc, s) (pc + 3, s')" using m_runs_trans [OF m_runs_trans [OF 1 2] s'(1)] .
  moreover have "cleared s (m_reg s 8) (Suc (Suc n)) s'"
    using s'(2) zero_mem_add [of 1 "Suc n" "m_mem s" "m_reg s 8"] Suc.prems(2)
    by (auto simp: cleared_def zero_mem_1 simp del: merge_low.simps)
  ultimately show ?case by blast
qed

lemma agree_cleared:
  "agree fp \<sigma> s \<Longrightarrow> cleared s p n s' \<Longrightarrow> agree fp (\<sigma>\<lparr>st_mem := zero_mem (st_mem \<sigma>) p n\<rparr>) s'"
  unfolding agree_def cleared_def using saved_not_scratch by auto

end
