(* ===== verification/Tile_Correct.thy ===== *)
theory Tile_Correct
  imports Tile_Tail
begin

text \<open>
  The instruction selector is correct: the emitted code of an expression, run on the machine, leaves
  in D0 and in the state a result that the semantics allows, and the emitted branch goes the way
  the condition says. Every run terminates: the statements say that the end of the code is reached.
\<close>

section \<open>Reaching an address\<close>

definition reaches ::
  "menv \<Rightarrow> instr list \<Rightarrow> u32 \<Rightarrow> nat \<Rightarrow> mstate \<Rightarrow> nat \<Rightarrow> u32 \<Rightarrow> u32 list \<Rightarrow> istate \<Rightarrow> bool" where
  "reaches E P fp pc s pc' v st \<sigma>' \<longleftrightarrow>
     (\<exists>s'. m_runs E P (pc, s) (pc', s') \<and> m_reg s' 0 = v \<and> m_stack s' = st \<and> agree fp \<sigma>' s')"

lemma reaches_trans:
  assumes "reaches E P fp pc s pc1 v1 st1 \<sigma>1"
    and "\<And>s1. m_reg s1 0 = v1 \<Longrightarrow> m_stack s1 = st1 \<Longrightarrow> agree fp \<sigma>1 s1 \<Longrightarrow> reaches E P fp pc1 s1 pc2 v2 st2 \<sigma>2"
  shows "reaches E P fp pc s pc2 v2 st2 \<sigma>2"
proof -
  obtain s1 where s1: "m_runs E P (pc, s) (pc1, s1)" "m_reg s1 0 = v1" "m_stack s1 = st1" "agree fp \<sigma>1 s1"
    using assms(1) unfolding reaches_def by blast
  from assms(2) [OF s1(2-4)] show ?thesis
    unfolding reaches_def using m_runs_trans [OF s1(1)] by blast
qed

lemma reaches_after:
  "m_runs E P (pc, s) (pc1, s1) \<Longrightarrow> reaches E P fp pc1 s1 pc' v st \<sigma> \<Longrightarrow> reaches E P fp pc s pc' v st \<sigma>"
  unfolding reaches_def using m_runs_trans by blast

lemma reaches_exec:
  assumes "code_at P pc t" "exec E t s = Some s'" "m_reg s' 0 = v" "m_stack s' = st" "agree fp \<sigma> s'"
    and "pc' = pc + length t"
  shows "reaches E P fp pc s pc' v st \<sigma>"
  using assms exec_runs unfolding reaches_def by blast

lemma reaches_tail:
  assumes "tail_ok E P pc t s v" "agree fp \<sigma> s" "pc' = pc + length t" "st = m_stack s"
  shows "reaches E P fp pc s pc' v st \<sigma>"
  using assms agree_keeps unfolding reaches_def tail_ok_def keeps_def by blast

lemma reaches_tail_exec:
  assumes "code_at P pc t" "\<exists>s'. exec E t s = Some s' \<and> m_reg s' 0 = v \<and> keeps s s'"
    and "agree fp \<sigma> s" "pc' = pc + length t" "st = m_stack s"
  shows "reaches E P fp pc s pc' v st \<sigma>"
  using reaches_tail [OF tail_exec [OF assms(1,2)] assms(3-5)] .

lemma reaches_here: "m_reg s 0 = v \<Longrightarrow> m_stack s = st \<Longrightarrow> agree fp \<sigma> s \<Longrightarrow> reaches E P fp pc s pc v st \<sigma>"
  unfolding reaches_def using m_runs_refl by blast

lemma reaches_step:
  assumes "code_at P pc [i]" "effect E i s = Some s'" "m_reg s' 0 = v" "m_stack s' = st" "agree fp \<sigma> s'"
  shows "reaches E P fp pc s (Suc pc) v st \<sigma>"
  using assms by (intro reaches_exec [of _ _ "[i]"]) auto

lemma reaches_bra:
  assumes "code_at P pc [I_bra l]" "find_label P l = Some j" "m_reg s 0 = v" "m_stack s = st" "agree fp \<sigma> s"
  shows "reaches E P fp pc s j v st \<sigma>"
  using bra_runs [OF assms(1,2)] assms(3-5) unfolding reaches_def by blast

lemma agree_flags [simp]: "agree fp \<sigma> (no_flags s) = agree fp \<sigma> s"
  by (simp add: agree_def)

lemma agree_flags' [simp]: "agree fp \<sigma> (s\<lparr>m_flags := f\<rparr>) = agree fp \<sigma> s"
  by (simp add: agree_def)

lemma agree_stack [simp]: "agree fp \<sigma> (s\<lparr>m_stack := st\<rparr>) = agree fp \<sigma> s"
  by (simp add: agree_def)

lemma agree_stack_flags [simp]: "agree fp \<sigma> (s\<lparr>m_stack := st, m_flags := f\<rparr>) = agree fp \<sigma> s"
  by (simp add: agree_def)

lemma agree_scratch [simp]: "r \<in> {0, 1, 8, 9} \<Longrightarrow> agree fp \<sigma> (set_reg r v s) = agree fp \<sigma> s"
  unfolding agree_def using saved_not_scratch by (auto 4 4)

lemma reaches_push:
  assumes "code_at P pc [I_push]" "agree fp \<sigma> s" "v = m_reg s 0" "st = m_stack s"
  shows "reaches E P fp pc s (Suc pc) v (v # st) \<sigma>"
  by (rule reaches_step [OF assms(1), of E s "no_flags (s\<lparr>m_stack := m_reg s 0 # m_stack s\<rparr>)"])
    (use assms(2-4) in simp_all)

text \<open>\<open>tst\<close> and a branch, taken when D0's truth is \<open>w\<close>.\<close>

lemma reaches_test:
  assumes "code_at P pc [I_tst, I_bcc (if w then C_ne else C_eq) l]" "agree fp \<sigma> s"
    and "(m_reg s 0 \<noteq> 0) = w \<Longrightarrow> find_label P l = Some j"
  shows "reaches E P fp pc s (if (m_reg s 0 \<noteq> 0) = w then j else pc + 2) (m_reg s 0) (m_stack s) \<sigma>"
proof -
  let ?cc = "if w then C_ne else C_eq"
  have c: "cond_holds ?cc (tst_flags (m_reg s 0)) \<longleftrightarrow> (m_reg s 0 \<noteq> 0) = w" by auto
  obtain s' where "m_runs E P (pc, s) (if cond_holds ?cc (tst_flags (m_reg s 0)) then j else pc + 2, s')"
    "m_reg s' 0 = m_reg s 0" "keeps s s'"
    using tst_bcc_runs [OF assms(1), of s j E] assms(3) c by blast
  then show ?thesis unfolding reaches_def c using agree_keeps [OF assms(2)] keeps_def by blast
qed

section \<open>Correct code for expressions, conditions and argument lists\<close>

definition expr_sim :: "menv \<Rightarrow> instr list \<Rightarrow> u32 \<Rightarrow> promotion \<Rightarrow> ir_expr \<Rightarrow> nat \<Rightarrow> instr list \<Rightarrow> bool" where
  "expr_sim E P fp \<rho> e pc t \<longleftrightarrow> (\<forall>s \<sigma>. agree fp \<sigma> s \<longrightarrow>
     (\<exists>v \<sigma>'. (v, \<sigma>') \<in> evals (me_target E) fp \<rho> e \<sigma> \<and> reaches E P fp pc s (pc + length t) v (m_stack s) \<sigma>'))"

definition cond_sim ::
  "menv \<Rightarrow> instr list \<Rightarrow> u32 \<Rightarrow> promotion \<Rightarrow> ir_expr \<Rightarrow> nat \<Rightarrow> instr list \<Rightarrow> bool \<Rightarrow> nat \<Rightarrow> bool" where
  "cond_sim E P fp \<rho> e pc t w j \<longleftrightarrow> (\<forall>s \<sigma>. agree fp \<sigma> s \<longrightarrow>
     (\<exists>v d \<sigma>'. (v, \<sigma>') \<in> evals (me_target E) fp \<rho> e \<sigma> \<and>
        reaches E P fp pc s (if (v \<noteq> 0) = w then j else pc + length t) d (m_stack s) \<sigma>'))"

definition args_sim :: "menv \<Rightarrow> instr list \<Rightarrow> u32 \<Rightarrow> promotion \<Rightarrow> ir_expr list \<Rightarrow> nat \<Rightarrow> instr list \<Rightarrow> bool" where
  "args_sim E P fp \<rho> es pc t \<longleftrightarrow> (\<forall>s \<sigma>. agree fp \<sigma> s \<longrightarrow>
     (\<exists>vs d \<sigma>'. (vs, \<sigma>') \<in> evals_args (me_target E) fp \<rho> es \<sigma> \<and> length vs = length es \<and>
        reaches E P fp pc s (pc + length t) d (vs @ m_stack s) \<sigma>'))"

lemma expr_simD:
  assumes "expr_sim E P fp \<rho> e pc t" "agree fp \<sigma> s"
  obtains v \<sigma>' where "(v, \<sigma>') \<in> evals (me_target E) fp \<rho> e \<sigma>"
    "reaches E P fp pc s (pc + length t) v (m_stack s) \<sigma>'"
  using assms unfolding expr_sim_def by blast

lemma cond_simD:
  assumes "cond_sim E P fp \<rho> e pc t w j" "agree fp \<sigma> s"
  obtains v d \<sigma>' where "(v, \<sigma>') \<in> evals (me_target E) fp \<rho> e \<sigma>"
    "reaches E P fp pc s (if (v \<noteq> 0) = w then j else pc + length t) d (m_stack s) \<sigma>'"
  using assms unfolding cond_sim_def by blast

text \<open>An expression whose last step is a tail on the value of its only operand.\<close>

lemma sim_unary:
  assumes "expr_sim E P fp \<rho> a pc c"
    and "\<And>s. tail_ok E P (pc + length c) t s (f (m_reg s 0))"
    and "\<And>v \<sigma> \<sigma>'. (v, \<sigma>') \<in> evals (me_target E) fp \<rho> a \<sigma> \<Longrightarrow> (f v, \<sigma>') \<in> evals (me_target E) fp \<rho> e \<sigma>"
  shows "expr_sim E P fp \<rho> e pc (c @ t)"
  unfolding expr_sim_def
proof (intro allI impI)
  fix s \<sigma> assume "agree fp \<sigma> s"
  with assms(1) obtain v \<sigma>' where v: "(v, \<sigma>') \<in> evals (me_target E) fp \<rho> a \<sigma>"
    "reaches E P fp pc s (pc + length c) v (m_stack s) \<sigma>'" by (rule expr_simD)
  have "reaches E P fp pc s (pc + length (c @ t)) (f v) (m_stack s) \<sigma>'"
  proof (rule reaches_trans [OF v(2)])
    fix s1 assume s1: "m_reg s1 0 = v" "m_stack s1 = m_stack s" "agree fp \<sigma>' s1"
    show "reaches E P fp (pc + length c) s1 (pc + length (c @ t)) (f v) (m_stack s) \<sigma>'"
      by (rule reaches_tail [of E P _ t]) (use assms(2) [of s1] s1 in simp_all)
  qed
  with assms(3) [OF v(1)] show "\<exists>v \<sigma>'. (v, \<sigma>') \<in> evals (me_target E) fp \<rho> e \<sigma> \<and>
      reaches E P fp pc s (pc + length (c @ t)) v (m_stack s) \<sigma>'" by blast
qed

text \<open>The left operand is evaluated last, the right one waits on the stack.\<close>

lemma sim_two_operands:
  assumes "expr_sim E P fp \<rho> b pc cb" "expr_sim E P fp \<rho> a (pc + length cb + 1) ca"
    and at: "code_at P (pc + length cb) [I_push]" "code_at P (pc + length cb + 1 + length ca) [I_pop r]"
    and r: "r \<in> {1, 9}" and ag: "agree fp \<sigma> s"
  obtains x y \<sigma>1 \<sigma>2 where "(y, \<sigma>1) \<in> evals (me_target E) fp \<rho> b \<sigma>" "(x, \<sigma>2) \<in> evals (me_target E) fp \<rho> a \<sigma>1"
    "\<And>pc' v \<sigma>3. (\<And>s1. m_reg s1 0 = x \<Longrightarrow> m_reg s1 r = y \<Longrightarrow> m_stack s1 = m_stack s \<Longrightarrow> agree fp \<sigma>2 s1 \<Longrightarrow>
        reaches E P fp (pc + length cb + 1 + length ca + 1) s1 pc' v (m_stack s) \<sigma>3) \<Longrightarrow>
      reaches E P fp pc s pc' v (m_stack s) \<sigma>3"
proof -
  from assms(1) ag obtain y \<sigma>1 where y: "(y, \<sigma>1) \<in> evals (me_target E) fp \<rho> b \<sigma>"
    "reaches E P fp pc s (pc + length cb) y (m_stack s) \<sigma>1" by (rule expr_simD)
  have y2: "reaches E P fp pc s (Suc (pc + length cb)) y (y # m_stack s) \<sigma>1"
    by (rule reaches_trans [OF y(2)]) (use at(1) in \<open>auto intro: reaches_push\<close>)
  then obtain s1 where s1: "m_runs E P (pc, s) (Suc (pc + length cb), s1)" "m_stack s1 = y # m_stack s" "agree fp \<sigma>1 s1"
    unfolding reaches_def by blast
  from assms(2) s1(3) obtain x \<sigma>2 where x: "(x, \<sigma>2) \<in> evals (me_target E) fp \<rho> a \<sigma>1"
    "reaches E P fp (pc + length cb + 1) s1 (pc + length cb + 1 + length ca) x (m_stack s1) \<sigma>2" by (rule expr_simD)
  show thesis
  proof (rule that [OF y(1) x(1)])
    fix pc' v \<sigma>3
    assume k: "\<And>s1. m_reg s1 0 = x \<Longrightarrow> m_reg s1 r = y \<Longrightarrow> m_stack s1 = m_stack s \<Longrightarrow> agree fp \<sigma>2 s1 \<Longrightarrow>
        reaches E P fp (pc + length cb + 1 + length ca + 1) s1 pc' v (m_stack s) \<sigma>3"
    have "reaches E P fp (pc + length cb + 1) s1 pc' v (m_stack s) \<sigma>3"
    proof (rule reaches_trans [OF x(2)])
      fix s2 assume s2: "m_reg s2 0 = x" "m_stack s2 = m_stack s1" "agree fp \<sigma>2 s2"
      let ?s3 = "no_flags (set_reg r y (s2\<lparr>m_stack := m_stack s\<rparr>))"
      have "effect E (I_pop r) s2 = Some ?s3" using s2(2) s1(2) by simp
      then have "exec E [I_pop r] s2 = Some ?s3" by simp
      from exec_runs [OF at(2) this]
      have run: "m_runs E P (pc + length cb + 1 + length ca, s2) (pc + length cb + 1 + length ca + 1, ?s3)" by simp
      have "agree fp \<sigma>2 ?s3" using r s2(3) saved_not_scratch by (auto simp: agree_def)
      then have "reaches E P fp (pc + length cb + 1 + length ca + 1) ?s3 pc' v (m_stack s) \<sigma>3"
        using k [of ?s3] r s2(1) by auto
      with run show "reaches E P fp (pc + length cb + 1 + length ca) s2 pc' v (m_stack s) \<sigma>3"
        by (rule reaches_after)
    qed
    with s1(1) show "reaches E P fp pc s pc' v (m_stack s) \<sigma>3" by (simp add: reaches_after)
  qed
qed

section \<open>Leaves, loads and stores\<close>

lemma sim_leaf:
  assumes "\<And>s \<sigma>. agree fp \<sigma> s \<Longrightarrow> \<exists>v \<sigma>'. (v, \<sigma>') \<in> evals (me_target E) fp \<rho> e \<sigma> \<and>
      reaches E P fp pc s (pc + length t) v (m_stack s) \<sigma>'"
  shows "expr_sim E P fp \<rho> e pc t"
  using assms by (simp add: expr_sim_def)

text \<open>A tail that may change the state: \<open>f\<close> and \<open>g\<close> give the value and the state after it.\<close>

lemma sim_then:
  assumes "expr_sim E P fp \<rho> a pc c"
    and "\<And>s \<sigma>1. agree fp \<sigma>1 s \<Longrightarrow>
      reaches E P fp (pc + length c) s (pc + length c + length t) (f (m_reg s 0) \<sigma>1) (m_stack s) (g (m_reg s 0) \<sigma>1)"
    and "\<And>v \<sigma> \<sigma>1. (v, \<sigma>1) \<in> evals (me_target E) fp \<rho> a \<sigma> \<Longrightarrow> (f v \<sigma>1, g v \<sigma>1) \<in> evals (me_target E) fp \<rho> e \<sigma>"
  shows "expr_sim E P fp \<rho> e pc (c @ t)"
proof (rule sim_leaf)
  fix s \<sigma> assume "agree fp \<sigma> s"
  with assms(1) obtain v \<sigma>1 where v: "(v, \<sigma>1) \<in> evals (me_target E) fp \<rho> a \<sigma>"
    "reaches E P fp pc s (pc + length c) v (m_stack s) \<sigma>1" by (rule expr_simD)
  have "reaches E P fp pc s (pc + length (c @ t)) (f v \<sigma>1) (m_stack s) (g v \<sigma>1)"
  proof (rule reaches_trans [OF v(2)])
    fix s1 assume "m_reg s1 0 = v" "m_stack s1 = m_stack s" "agree fp \<sigma>1 s1"
    then show "reaches E P fp (pc + length c) s1 (pc + length (c @ t)) (f v \<sigma>1) (m_stack s) (g v \<sigma>1)"
      using assms(2) [of \<sigma>1 s1] by (simp add: add.assoc)
  qed
  with assms(3) [OF v(1)] show "\<exists>v \<sigma>'. (v, \<sigma>') \<in> evals (me_target E) fp \<rho> e \<sigma> \<and>
      reaches E P fp pc s (pc + length (c @ t)) v (m_stack s) \<sigma>'" by blast
qed

lemma sim_NOP: "expr_sim E P fp \<rho> IE_NOP pc []"
proof (rule sim_leaf)
  fix s \<sigma> assume a: "agree fp \<sigma> s"
  have "(m_reg s 0, \<sigma>) \<in> evals (me_target E) fp \<rho> IE_NOP \<sigma>" by simp
  moreover have "reaches E P fp pc s (pc + length []) (m_reg s 0) (m_stack s) \<sigma>" using a by (simp add: reaches_here)
  ultimately show "\<exists>v \<sigma>'. (v, \<sigma>') \<in> evals (me_target E) fp \<rho> IE_NOP \<sigma> \<and>
      reaches E P fp pc s (pc + length []) v (m_stack s) \<sigma>'" by blast
qed

lemma sim_NUM: "code_at P pc (load_imm v) \<Longrightarrow> expr_sim E P fp \<rho> (IE_NUM v sz u) pc (load_imm v)"
  by (rule sim_leaf) (use exec_load_imm in \<open>auto intro: reaches_tail_exec\<close>)

lemma sim_LEA:
  assumes "code_at P pc t" "t = [I_lea (if is_local then Frame off else Sym name) 8, I_move SzL (Reg 8) (Reg 0)]"
  shows "expr_sim E P fp \<rho> (IE_LEA is_local off name var) pc t"
proof (rule sim_leaf)
  fix s \<sigma> assume a: "agree fp \<sigma> s"
  let ?p = "if is_local then fp + word_of_int off else tg_sym (me_target E) name"
  have "\<exists>s'. exec E t s = Some s' \<and> m_reg s' 0 = ?p \<and> keeps s s'"
    using a by (auto simp: assms(2) exec_simps agree_def)
  then have "reaches E P fp pc s (pc + length t) ?p (m_stack s) \<sigma>"
    by (rule reaches_tail_exec [OF assms(1)]) (use a in simp_all)
  then show "\<exists>v \<sigma>'. (v, \<sigma>') \<in> evals (me_target E) fp \<rho> (IE_LEA is_local off name var) \<sigma> \<and>
      reaches E P fp pc s (pc + length t) v (m_stack s) \<sigma>'" by auto
qed

lemma agree_saved: "agree fp \<sigma> s \<Longrightarrow> r \<in> saved_regs \<Longrightarrow> m_reg s r = st_reg \<sigma> r"
  by (simp add: agree_def)

text \<open>Reading a register into D0.\<close>

lemma reaches_read_reg:
  assumes "code_at P pc [I_move SzL (Reg r) (Reg 0)]" "r \<in> saved_regs" "agree fp \<sigma> s"
  shows "reaches E P fp pc s (Suc pc) (st_reg \<sigma> r) (m_stack s) \<sigma>"
  by (rule reaches_step [OF assms(1), of E s "no_flags (set_reg 0 (m_reg s r) s)"])
    (use assms(2,3) in \<open>simp_all add: agree_saved\<close>)

lemma reaches_write_reg:
  assumes "code_at P pc [move_to r]" "r \<in> saved_regs" "agree fp \<sigma> s"
  shows "reaches E P fp pc s (Suc pc) (m_reg s 0) (m_stack s) (\<sigma>\<lparr>st_reg := (st_reg \<sigma>)(r := m_reg s 0)\<rparr>)"
proof -
  have r: "r \<noteq> 0" "r \<noteq> 14" using saved_not_scratch [OF assms(2)] by auto
  define s' where "s' = (if reg_is_addr r then set_reg r (m_reg s 0) s else no_flags (set_reg r (m_reg s 0) s))"
  have "effect E (move_to r) s = Some s'" by (auto simp: move_to_def s'_def reg_is_addr_def)
  moreover have "agree fp (\<sigma>\<lparr>st_reg := (st_reg \<sigma>)(r := m_reg s 0)\<rparr>) s'"
    using assms(3) r by (auto simp: agree_def s'_def)
  ultimately show ?thesis using r by (intro reaches_step [OF assms(1)]) (auto simp: s'_def)
qed

lemma sim_VUSE:
  assumes "reg_ok t" "code_at P pc c" "c = (if t \<noteq> 0 then [I_move SzL (Reg t) (Reg 0)] else [])"
  shows "expr_sim E P fp \<rho> (IE_VUSE t sz) pc c"
proof (rule sim_leaf)
  fix s \<sigma> assume a: "agree fp \<sigma> s"
  show "\<exists>v \<sigma>'. (v, \<sigma>') \<in> evals (me_target E) fp \<rho> (IE_VUSE t sz) \<sigma> \<and>
      reaches E P fp pc s (pc + length c) v (m_stack s) \<sigma>'"
  proof (cases "t = 0")
    case True
    then show ?thesis using a assms(3) by (auto intro: reaches_here)
  next
    case False
    then show ?thesis using reaches_read_reg [of P pc t fp \<sigma> s E] assms a by (auto simp: reg_ok_def)
  qed
qed

lemma sim_LOAD_reg:
  assumes "lea_reg \<rho> a \<noteq> 0" "wf_expr \<rho> a" "code_at P pc [I_move SzL (Reg (lea_reg \<rho> a)) (Reg 0)]"
  shows "expr_sim E P fp \<rho> (IE_LOAD a sz u) pc [I_move SzL (Reg (lea_reg \<rho> a)) (Reg 0)]"
proof (rule sim_leaf)
  fix s \<sigma> assume a: "agree fp \<sigma> s"
  have "lea_reg \<rho> a \<in> saved_regs" using reg_ok_lea [OF assms(2)] assms(1) by (simp add: reg_ok_def)
  from reaches_read_reg [OF assms(3) this a, of E] assms(1)
  show "\<exists>v \<sigma>'. (v, \<sigma>') \<in> evals (me_target E) fp \<rho> (IE_LOAD a sz u) \<sigma> \<and>
      reaches E P fp pc s (pc + length [I_move SzL (Reg (lea_reg \<rho> a)) (Reg 0)]) v (m_stack s) \<sigma>'" by auto
qed

lemma sim_LOAD:
  assumes "lea_reg \<rho> a = 0" "expr_sim E P fp \<rho> a pc c"
    and at: "code_at P (pc + length c) ([I_movea (Reg 0) 8] @ emit_load_from_a0 sz u)"
  shows "expr_sim E P fp \<rho> (IE_LOAD a sz u) pc (c @ [I_movea (Reg 0) 8] @ emit_load_from_a0 sz u)"
proof (rule sim_then [OF assms(2), where f = "\<lambda>v \<sigma>. load_val sz u (st_mem \<sigma>) v" and g = "\<lambda>v \<sigma>. \<sigma>"])
  fix s \<sigma>1 assume a: "agree fp \<sigma>1 s"
  let ?t = "set_reg 8 (m_reg s 0) s"
  obtain s' where "exec E (emit_load_from_a0 sz u) ?t = Some s'"
    "m_reg s' 0 = load_val sz u (m_mem s) (m_reg s 0)" "keeps ?t s'"
    using exec_load_a0 [of E sz u ?t] by auto
  then have "\<exists>s'. exec E ([I_movea (Reg 0) 8] @ emit_load_from_a0 sz u) s = Some s' \<and>
      m_reg s' 0 = load_val sz u (st_mem \<sigma>1) (m_reg s 0) \<and> keeps s s'"
    using a by (auto simp: keeps_def agree_def)
  then show "reaches E P fp (pc + length c) s (pc + length c + length ([I_movea (Reg 0) 8] @ emit_load_from_a0 sz u))
      (load_val sz u (st_mem \<sigma>1) (m_reg s 0)) (m_stack s) \<sigma>1"
    by (rule reaches_tail_exec [OF at]) (use a in simp_all)
next
  fix v \<sigma> \<sigma>1 assume "(v, \<sigma>1) \<in> evals (me_target E) fp \<rho> a \<sigma>"
  then show "(load_val sz u (st_mem \<sigma>1) v, \<sigma>1) \<in> evals (me_target E) fp \<rho> (IE_LOAD a sz u) \<sigma>"
    using assms(1) by force
qed

text \<open>The base of an indexed load leaves D1 alone.\<close>

lemma exec_narrow_d1:
  "exec E (cast_int_narrow sz u) s = Some s' \<Longrightarrow> m_reg s' 1 = m_reg s 1"
  by (auto simp: cast_int_narrow_def exec_simps split: if_splits)

lemma exec_tst_d1: "exec E (I_tst # materialize cc) s = Some s' \<Longrightarrow> m_reg s' 1 = m_reg s 1"
  by (auto simp: materialize_def exec_simps)

lemma exec_load_d1: "exec E (emit_load_from_a0 sz u) s = Some s' \<Longrightarrow> m_reg s' 1 = m_reg s 1"
  by (auto simp: emit_load_from_a0_def exec_simps split: if_splits)

lemma base_exec:
  "ie_simple_var_base x \<Longrightarrow> wf_expr \<rho> x \<Longrightarrow> agree fp \<sigma> s \<Longrightarrow>
   \<exists>s'. exec E (fst (tile_expr opt \<rho> x n)) s = Some s' \<and> m_reg s' 1 = m_reg s 1 \<and> keeps s s' \<and>
     (m_reg s' 0, \<sigma>) \<in> evals (me_target E) fp \<rho> x \<sigma>"
proof (induction x rule: ie_simple_var_base.induct)
  case (1 op a sz u fs fu)
  let ?t = "if op = TY_VOID then [] else if op = TY_BOOL then I_tst # materialize C_ne else cast_int_narrow sz u"
  obtain s1 where s1: "exec E (fst (tile_expr opt \<rho> a n)) s = Some s1" "m_reg s1 1 = m_reg s 1" "keeps s s1"
    "(m_reg s1 0, \<sigma>) \<in> evals (me_target E) fp \<rho> a \<sigma>" using 1 by auto
  have "\<exists>s2. exec E ?t s1 = Some s2 \<and> m_reg s2 1 = m_reg s1 1 \<and> keeps s1 s2 \<and>
      m_reg s2 0 = cast_val op sz u (m_reg s1 0)"
    using exec_tst_materialize [of E C_ne s1] exec_narrow [of E sz u s1] exec_narrow_d1 exec_tst_d1
    by (auto simp: cast_val_def simp del: exec.simps(2))
  then obtain s2 where s2: "exec E ?t s1 = Some s2" "m_reg s2 1 = m_reg s1 1" "keeps s1 s2"
      "m_reg s2 0 = cast_val op sz u (m_reg s1 0)" by blast
  have "fst (tile_expr opt \<rho> (IE_CAST op a sz u fs fu) n) = fst (tile_expr opt \<rho> a n) @ ?t"
    by (simp split: prod.split)
  moreover have "(m_reg s2 0, \<sigma>) \<in> evals (me_target E) fp \<rho> (IE_CAST op a sz u fs fu) \<sigma>" using s1(4) s2(4) by force
  ultimately show ?case using s1 s2 keeps_trans by (auto simp: exec_append)
next
  case (2 is_local off name var)
  then show ?case by (auto simp: exec_simps agree_def)
next
  case (3 is_local off name var sz u)
  let ?a = "IE_LEA is_local off name var"
  show ?case
  proof (cases "lea_reg \<rho> ?a = 0")
    case True
    let ?p = "if is_local then fp + word_of_int off else tg_sym (me_target E) name"
    let ?s1 = "set_reg 8 ?p (no_flags (set_reg 0 ?p (set_reg 8 ?p s)))"
    obtain s2 where s2: "exec E (emit_load_from_a0 sz u) ?s1 = Some s2"
      "m_reg s2 0 = load_val sz u (m_mem s) ?p" "keeps ?s1 s2"
      using exec_load_a0 [of E sz u ?s1] by auto
    have "tile_expr opt \<rho> (IE_LOAD ?a sz u) n =
       ([I_lea (if is_local then Frame off else Sym name) 8, I_move SzL (Reg 8) (Reg 0), I_movea (Reg 0) 8] @
         emit_load_from_a0 sz u, n)" using True by (simp add: indexed_parts_def)
    moreover have "exec E ([I_lea (if is_local then Frame off else Sym name) 8, I_move SzL (Reg 8) (Reg 0),
        I_movea (Reg 0) 8]) s = Some ?s1" using "3.prems"(3) by (simp add: agree_def)
    ultimately have "exec E (fst (tile_expr opt \<rho> (IE_LOAD ?a sz u) n)) s = Some s2"
      using s2(1) by (simp only: fst_conv exec_append option.case)
    moreover have "m_reg s2 1 = m_reg s 1" using exec_load_d1 [OF s2(1)] by simp
    moreover have "keeps s s2" using s2(3) by (simp add: keeps_def)
    moreover have "(m_reg s2 0, \<sigma>) \<in> evals (me_target E) fp \<rho> (IE_LOAD ?a sz u) \<sigma>"
      using s2(2) True "3.prems"(3) by (simp add: agree_def)
    ultimately show ?thesis by blast
  next
    case False
    then have "lea_reg \<rho> ?a \<in> saved_regs" using reg_ok_lea [of \<rho> ?a] "3.prems"(2) by (simp add: reg_ok_def)
    then show ?thesis using False "3.prems"(3) by (simp add: exec_simps agree_def)
  qed
qed simp_all

lemma sim_indexed:
  assumes "indexed_parts sz a = Some (x, y)" "wf_expr \<rho> a" "expr_sim E P fp \<rho> y pc cy"
    and cx: "cx = fst (tile_expr opt \<rho> x n)"
    and at: "code_at P (pc + length cy) ([I_move SzL (Reg 0) (Reg 1)] @ cx @ [I_movea (Reg 0) 8, I_move SzL (Indexed 8 1) (Reg 0)])"
  shows "expr_sim E P fp \<rho> (IE_LOAD a sz u) pc
    (cy @ [I_move SzL (Reg 0) (Reg 1)] @ cx @ [I_movea (Reg 0) 8, I_move SzL (Indexed 8 1) (Reg 0)])"
    (is "expr_sim E P fp \<rho> _ pc (cy @ ?t)")
proof -
  from assms(1,2) obtain s0 u0 where a: "a = IE_BINOP ND_ADD x y s0 u0 True" "sz = 4" "ie_simple_var_base x"
    "wf_expr \<rho> x" by (cases a) (auto simp: indexed_parts_def split: if_splits)
  show ?thesis
  proof (rule sim_leaf)
    fix s \<sigma> assume "agree fp \<sigma> s"
    with assms(3) obtain i \<sigma>1 where i: "(i, \<sigma>1) \<in> evals (me_target E) fp \<rho> y \<sigma>"
      "reaches E P fp pc s (pc + length cy) i (m_stack s) \<sigma>1" by (rule expr_simD)
    obtain s1 where s1: "m_runs E P (pc, s) (pc + length cy, s1)" "m_reg s1 0 = i" "m_stack s1 = m_stack s" "agree fp \<sigma>1 s1"
      using i(2) unfolding reaches_def by blast
    let ?s2 = "no_flags (set_reg 1 i s1)"
    have "agree fp \<sigma>1 ?s2" using s1(4) by simp
    from base_exec [OF a(3,4) this, of E opt n] obtain s3 where s3: "exec E cx ?s2 = Some s3"
      "m_reg s3 1 = i" "keeps ?s2 s3" "(m_reg s3 0, \<sigma>1) \<in> evals (me_target E) fp \<rho> x \<sigma>1"
      unfolding cx by auto
    let ?v = "ld32 (st_mem \<sigma>1) (m_reg s3 0 + i)"
    let ?s4 = "no_flags (set_reg 0 ?v (set_reg 8 (m_reg s3 0) s3))"
    have m: "m_mem s3 = st_mem \<sigma>1" using s3(3) s1(4) by (simp add: keeps_def agree_def)
    have e1: "exec E [I_move SzL (Reg 0) (Reg 1)] s1 = Some ?s2" using s1(2) by simp
    have e2: "exec E [I_movea (Reg 0) 8, I_move SzL (Indexed 8 1) (Reg 0)] s3 = Some ?s4"
      using s3(2) m by simp
    have "exec E ?t s1 = Some ?s4" by (simp only: exec_append e1 s3(1) e2 option.case)
    moreover have "keeps s1 ?s4" using s3(3) by (simp add: keeps_def)
    ultimately have "reaches E P fp (pc + length cy) s1 (pc + length (cy @ ?t)) ?v (m_stack s1) \<sigma>1"
      by (intro reaches_tail_exec [OF at]) (use s1(4) in simp_all)
    then have r: "reaches E P fp pc s (pc + length (cy @ ?t)) ?v (m_stack s) \<sigma>1"
      unfolding s1(3) by (rule reaches_after [OF s1(1)])
    have "binop_val (me_target E) ND_ADD u0 (m_reg s3 0) i = m_reg s3 0 + i" by (simp add: binop_val_def)
    then have "(m_reg s3 0 + i, \<sigma>1) \<in> evals (me_target E) fp \<rho> a \<sigma>"
      unfolding a(1) evals.simps using i(1) s3(4) by fastforce
    then have "(?v, \<sigma>1) \<in> evals (me_target E) fp \<rho> (IE_LOAD a sz u) \<sigma>"
      unfolding evals.simps a(2) by (force simp: load_val_def a(1))
    with r show "\<exists>v \<sigma>'. (v, \<sigma>') \<in> evals (me_target E) fp \<rho> (IE_LOAD a sz u) \<sigma> \<and>
        reaches E P fp pc s (pc + length (cy @ ?t)) v (m_stack s) \<sigma>'" by blast
  qed
qed

lemma ucast_low [simp]: "(ucast (v AND 255 :: u32) :: u8) = ucast v" "(ucast (v AND 65535 :: u32) :: u16) = ucast v"
  by (simp_all add: and_255 and_65535)

lemma st_width_store [simp]: "st_width (store_width sz) m p (low_part (store_width sz) v) = store_val sz m p v"
  by (simp add: store_width_def store_val_def)

text \<open>A store of D0 to memory at \<open>p\<close>.\<close>

lemma reaches_store:
  assumes "code_at P pc [I_move (store_width sz) (Reg 0) x]" "ea E s x = Some p" "agree fp \<sigma> s"
    and x: "\<And>r. x \<noteq> Reg r" "\<And>r. x \<noteq> PostInc r" "\<And>c. x \<noteq> Imm c"
  shows "reaches E P fp pc s (Suc pc) (m_reg s 0) (m_stack s) (\<sigma>\<lparr>st_mem := store_val sz (st_mem \<sigma>) p (m_reg s 0)\<rparr>)"
proof -
  let ?s' = "no_flags (s\<lparr>m_mem := store_val sz (m_mem s) p (m_reg s 0)\<rparr>)"
  have "write_op E s (store_width sz) x (low_part (store_width sz) (m_reg s 0)) =
      Some (s\<lparr>m_mem := store_val sz (m_mem s) p (m_reg s 0)\<rparr>)"
    using assms(2) x by (cases x) simp_all
  then have e: "effect E (I_move (store_width sz) (Reg 0) x) s = Some ?s'" by simp
  have ag: "agree fp (\<sigma>\<lparr>st_mem := store_val sz (st_mem \<sigma>) p (m_reg s 0)\<rparr>) ?s'"
    using assms(3) by (simp add: agree_def)
  show ?thesis by (rule reaches_step [OF assms(1) e _ _ ag]) simp_all
qed

lemma sim_STORE_reg:
  assumes "lea_reg \<rho> a \<noteq> 0" "wf_expr \<rho> a" "expr_sim E P fp \<rho> b pc cb"
    and at: "code_at P (pc + length cb) [move_to (lea_reg \<rho> a)]"
  shows "expr_sim E P fp \<rho> (IE_STORE a b sz u) pc (cb @ [move_to (lea_reg \<rho> a)])"
proof (rule sim_then [OF assms(3), where f = "\<lambda>v \<sigma>. v" and g = "\<lambda>v \<sigma>. \<sigma>\<lparr>st_reg := (st_reg \<sigma>)(lea_reg \<rho> a := v)\<rparr>"])
  fix s \<sigma>1 assume a: "agree fp \<sigma>1 s"
  have "lea_reg \<rho> a \<in> saved_regs" using reg_ok_lea [OF assms(2)] assms(1) by (simp add: reg_ok_def)
  from reaches_write_reg [OF at this a, of E]
  show "reaches E P fp (pc + length cb) s (pc + length cb + length [move_to (lea_reg \<rho> a)]) (m_reg s 0) (m_stack s)
      (\<sigma>1\<lparr>st_reg := (st_reg \<sigma>1)(lea_reg \<rho> a := m_reg s 0)\<rparr>)" by simp
next
  fix v \<sigma> \<sigma>1 assume "(v, \<sigma>1) \<in> evals (me_target E) fp \<rho> b \<sigma>"
  then show "(v, \<sigma>1\<lparr>st_reg := (st_reg \<sigma>1)(lea_reg \<rho> a := v)\<rparr>) \<in> evals (me_target E) fp \<rho> (IE_STORE a b sz u) \<sigma>"
    using assms(1) by force
qed

lemma direct_store_cases:
  assumes "direct_store a sz = Some x"
  obtains is_local off name var where "a = IE_LEA is_local off name var" "x = (if is_local then Frame off else Sym name)"
  using assms by (cases "(a, sz)" rule: direct_store.cases) (auto split: if_splits)

lemma sim_STORE_direct:
  assumes "lea_reg \<rho> a = 0" "direct_store a sz = Some x" "expr_sim E P fp \<rho> b pc cb"
    and at: "code_at P (pc + length cb) [I_move (store_width sz) (Reg 0) x]"
  shows "expr_sim E P fp \<rho> (IE_STORE a b sz u) pc (cb @ [I_move (store_width sz) (Reg 0) x])"
proof -
  from assms(2) obtain is_local off name var where a: "a = IE_LEA is_local off name var"
    "x = (if is_local then Frame off else Sym name)" by (rule direct_store_cases)
  define p where "p = (if is_local then fp + word_of_int off else tg_sym (me_target E) name)"
  show ?thesis
  proof (rule sim_then [OF assms(3), where f = "\<lambda>v \<sigma>. v" and g = "\<lambda>v \<sigma>. \<sigma>\<lparr>st_mem := store_val sz (st_mem \<sigma>) p v\<rparr>"])
    fix s \<sigma>1 assume ag: "agree fp \<sigma>1 s"
    then have "ea E s x = Some p" by (auto simp: a(2) p_def agree_def)
    from reaches_store [OF at this ag] a(2)
    show "reaches E P fp (pc + length cb) s (pc + length cb + length [I_move (store_width sz) (Reg 0) x]) (m_reg s 0)
        (m_stack s) (\<sigma>1\<lparr>st_mem := store_val sz (st_mem \<sigma>1) p (m_reg s 0)\<rparr>)" by auto
  next
    fix v \<sigma> \<sigma>1 assume "(v, \<sigma>1) \<in> evals (me_target E) fp \<rho> b \<sigma>"
    then show "(v, \<sigma>1\<lparr>st_mem := store_val sz (st_mem \<sigma>1) p v\<rparr>) \<in> evals (me_target E) fp \<rho> (IE_STORE a b sz u) \<sigma>"
      using assms(1) by (force simp: a(1) p_def)
  qed
qed

lemma sim_STORE:
  assumes "lea_reg \<rho> a = 0" "expr_sim E P fp \<rho> a pc ca" "expr_sim E P fp \<rho> b (pc + length ca + 1) cb"
    and at: "code_at P (pc + length ca) ([I_push] @ cb @ [I_pop 9, I_move (store_width sz) (Reg 0) (AtReg 9)])"
  shows "expr_sim E P fp \<rho> (IE_STORE a b sz u) pc (ca @ [I_push] @ cb @ [I_pop 9, I_move (store_width sz) (Reg 0) (AtReg 9)])"
proof (rule sim_leaf)
  fix s \<sigma> assume ag: "agree fp \<sigma> s"
  have at': "code_at P (pc + length ca) [I_push]" "code_at P (pc + length ca + 1 + length cb) [I_pop 9]"
    "code_at P (pc + length ca + 1 + length cb + 1) [I_move (store_width sz) (Reg 0) (AtReg 9)]" using at by simp_all
  obtain v p \<sigma>1 \<sigma>2 where e: "(p, \<sigma>1) \<in> evals (me_target E) fp \<rho> a \<sigma>" "(v, \<sigma>2) \<in> evals (me_target E) fp \<rho> b \<sigma>1"
    and k: "\<And>pc' w \<sigma>3. (\<And>s1. m_reg s1 0 = v \<Longrightarrow> m_reg s1 9 = p \<Longrightarrow> m_stack s1 = m_stack s \<Longrightarrow> agree fp \<sigma>2 s1 \<Longrightarrow>
        reaches E P fp (pc + length ca + 1 + length cb + 1) s1 pc' w (m_stack s) \<sigma>3) \<Longrightarrow>
      reaches E P fp pc s pc' w (m_stack s) \<sigma>3"
    by (rule sim_two_operands [OF assms(2,3) at'(1,2) _ ag]) auto
  have "reaches E P fp pc s (Suc (pc + length ca + 1 + length cb + 1)) v (m_stack s)
      (\<sigma>2\<lparr>st_mem := store_val sz (st_mem \<sigma>2) p v\<rparr>)"
  proof (rule k)
    fix s1 assume s1: "m_reg s1 0 = v" "m_reg s1 9 = p" "m_stack s1 = m_stack s" "agree fp \<sigma>2 s1"
    from reaches_store [OF at'(3) _ s1(4)] s1
    show "reaches E P fp (pc + length ca + 1 + length cb + 1) s1 (Suc (pc + length ca + 1 + length cb + 1)) v (m_stack s)
        (\<sigma>2\<lparr>st_mem := store_val sz (st_mem \<sigma>2) p v\<rparr>)" by auto
  qed
  moreover have "(v, \<sigma>2\<lparr>st_mem := store_val sz (st_mem \<sigma>2) p v\<rparr>) \<in> evals (me_target E) fp \<rho> (IE_STORE a b sz u) \<sigma>"
    using e assms(1) by force
  ultimately show "\<exists>v \<sigma>'. (v, \<sigma>') \<in> evals (me_target E) fp \<rho> (IE_STORE a b sz u) \<sigma> \<and>
      reaches E P fp pc s (pc + length (ca @ [I_push] @ cb @ [I_pop 9, I_move (store_width sz) (Reg 0) (AtReg 9)])) v (m_stack s) \<sigma>'"
    by (intro exI conjI) (assumption, simp add: add.assoc)
qed

lemma sim_VDEF:
  assumes "reg_ok t" "expr_sim E P fp \<rho> a pc c" "code_at P (pc + length c) d" "d = (if t \<noteq> 0 then [move_to t] else [])"
  shows "expr_sim E P fp \<rho> (IE_VDEF t a sz) pc (c @ d)"
proof (rule sim_then [OF assms(2), where f = "\<lambda>v \<sigma>. v"
      and g = "\<lambda>v \<sigma>. if t \<noteq> 0 then \<sigma>\<lparr>st_reg := (st_reg \<sigma>)(t := v)\<rparr> else \<sigma>"])
  fix s \<sigma>1 assume a: "agree fp \<sigma>1 s"
  show "reaches E P fp (pc + length c) s (pc + length c + length d) (m_reg s 0) (m_stack s)
      (if t \<noteq> 0 then \<sigma>1\<lparr>st_reg := (st_reg \<sigma>1)(t := m_reg s 0)\<rparr> else \<sigma>1)"
  proof (cases "t = 0")
    case True
    then show ?thesis using a assms(4) by (simp add: reaches_here)
  next
    case False
    then show ?thesis using reaches_write_reg [of P "pc + length c" t fp \<sigma>1 s E] assms(1,3,4) a by (simp add: reg_ok_def)
  qed
qed force

lemma low_word_of_int: "0 \<le> k \<Longrightarrow> (ucast (word_of_int k :: u32) :: u16) = of_nat (nat k)"
proof -
  assume "0 \<le> k"
  then have "(of_nat (nat k) :: u16) = word_of_int k" by simp
  moreover have "(ucast (word_of_int k :: u32) :: u16) = word_of_int k"
    by (rule bit_word_eqI) (auto simp: bit_simps)
  ultimately show ?thesis by simp
qed

lemma sim_MEMZERO:
  assumes "reg_ok (\<rho> var)" "1 \<le> sz" "sz \<le> 65536" "t = fst (tile_memzero opt \<rho> var off sz n)" "code_at P pc t"
    and d: "distinct (labels_of P)"
  shows "expr_sim E P fp \<rho> (IE_MEMZERO var off sz) pc t"
proof (rule sim_leaf)
  fix s \<sigma> assume a: "agree fp \<sigma> s"
  let ?p = "fp + word_of_int off"
  let ?\<sigma>m = "\<sigma>\<lparr>st_mem := zero_mem (st_mem \<sigma>) ?p (nat sz)\<rparr>"
  have fp: "m_reg s 14 = fp" using a by (simp add: agree_def)
  consider (reg) "\<rho> var \<noteq> 0" | (unroll) "\<rho> var = 0" "t = clr_unrolled off sz"
    | (loop) "\<rho> var = 0" "t = [I_lea (Frame off) 8, I_move SzW (Imm (word_of_int (sz - 1))) (Reg 1),
        I_label (uid_label ''L_memzero_'' n), I_clr SzB (PostInc 8), I_dbra 1 (uid_label ''L_memzero_'' n)]"
    using assms(4) by (auto simp: tile_memzero_def split: if_splits)
  then show "\<exists>v \<sigma>'. (v, \<sigma>') \<in> evals (me_target E) fp \<rho> (IE_MEMZERO var off sz) \<sigma> \<and>
      reaches E P fp pc s (pc + length t) v (m_stack s) \<sigma>'"
  proof cases
    case reg
    let ?r = "\<rho> var"
    have r: "?r \<in> saved_regs" using assms(1) reg by (simp add: reg_ok_def)
    then have r': "?r \<noteq> 0" "?r \<noteq> 14" using saved_not_scratch by auto
    let ?s' = "if reg_is_addr ?r then set_reg ?r 0 s else no_flags (set_reg ?r 0 s)"
    have "exec E t s = Some ?s'" using assms(4) reg by (auto simp: tile_memzero_def reg_is_addr_def)
    moreover have "agree fp (\<sigma>\<lparr>st_reg := (st_reg \<sigma>)(?r := 0)\<rparr>) ?s'" using a r' by (auto simp: agree_def)
    ultimately have "reaches E P fp pc s (pc + length t) (m_reg s 0) (m_stack s) (\<sigma>\<lparr>st_reg := (st_reg \<sigma>)(?r := 0)\<rparr>)"
      by (intro reaches_exec [OF assms(5)]) (use r' in auto)
    with reg show ?thesis by auto
  next
    case unroll
    obtain s' where s': "exec E t s = Some s'" "cleared s ?p (nat sz) s'"
      using exec_clr_unrolled [of sz E off s] assms(2,3) unroll(2) fp by auto
    have "m_stack s' = m_stack s" using s'(2) by (simp add: cleared_def)
    then have "reaches E P fp pc s (pc + length t) (m_reg s' 0) (m_stack s) ?\<sigma>m"
      by (intro reaches_exec [OF assms(5) s'(1) refl _ agree_cleared [OF a s'(2)] refl])
    with unroll(1) show ?thesis by auto
  next
    case loop
    let ?s1 = "no_flags (set_reg 1 (merge_low SzW (m_reg s 1) (low_part SzW (word_of_int (sz - 1)))) (set_reg 8 ?p s))"
    have "exec E [I_lea (Frame off) 8, I_move SzW (Imm (word_of_int (sz - 1))) (Reg 1)] s = Some ?s1"
      using fp by (simp del: merge_low.simps low_part.simps)
    from exec_runs [OF _ this, of P pc] have 1: "m_runs E P (pc, s) (pc + 2, ?s1)"
      using assms(5) loop(2) by simp
    have at: "code_at P (pc + 2) [I_label (uid_label ''L_memzero_'' n), I_clr SzB (PostInc 8), I_dbra 1 (uid_label ''L_memzero_'' n)]"
      using assms(5) loop(2) by simp
    have cnt: "(ucast (m_reg ?s1 1) :: u16) = of_nat (nat (sz - 1))"
      using low_word_of_int [of "sz - 1"] assms(2) by (simp add: ucast_merge_word del: merge_low.simps)
    have nb: "nat (sz - 1) < 65536" using assms(2,3) by linarith
    have r8: "m_reg ?s1 8 = ?p" by simp
    obtain s' where s': "m_runs E P (pc + 2, ?s1) (pc + 2 + 3, s')" "cleared ?s1 ?p (Suc (nat (sz - 1))) s'"
      using clear_loop_runs [OF at d cnt nb, of E] unfolding r8 by blast
    have "Suc (nat (sz - 1)) = nat sz" using assms(2) by simp
    then have "cleared s ?p (nat sz) s'" using s'(2) by (simp add: cleared_def)
    then have "agree fp ?\<sigma>m s'" "m_stack s' = m_stack s" using agree_cleared [OF a] by (auto simp: cleared_def)
    moreover have "m_runs E P (pc, s) (pc + length t, s')"
    proof -
      have e: "pc + length t = pc + 2 + 3" using loop(2) by simp
      show ?thesis unfolding e by (rule m_runs_trans [OF 1 s'(1)])
    qed
    ultimately have "reaches E P fp pc s (pc + length t) (m_reg s' 0) (m_stack s) ?\<sigma>m" by (auto simp: reaches_def)
    with loop(1) show ?thesis by auto
  qed
qed

end
