(* ===== verification/Tile_Flow.thy ===== *)
theory Tile_Flow
  imports Tile_Correct
begin

text \<open>
  Operators, short-circuit evaluation, conditions, calls: the rest of the selector's cases, each with
  the correctness of its parts as a premise.
\<close>

section \<open>Operators\<close>

lemma sim_BINOP_plan:
  assumes plan: "binop_plan opt \<rho> op u a b n = Some (right, k, t)" and wf: "wf_expr \<rho> a" "wf_expr \<rho> b"
    and sim: "expr_sim E P fp \<rho> (if right then b else a) pc c"
    and at: "code_at P (pc + length c) t" and d: "distinct (labels_of P)"
  shows "expr_sim E P fp \<rho> (IE_BINOP op a b sz u pa) pc (c @ t)"
proof -
  let ?T = "me_target E"
  consider (const) cv where "ie_const b = Some cv" "const_tile opt op u cv n = Some (k, t)" "\<not> right"
    | (left) cv where "ie_const a = Some cv" "const_tile_left opt op u cv n = Some (k, t)" "right"
    | (mem) "mem_tile \<rho> op u b = Some t" "\<not> right"
    using plan by (auto simp: binop_plan_def split: option.splits)
  then show ?thesis
  proof cases
    case const
    show ?thesis
    proof (rule sim_unary [where f = "\<lambda>v. binop_val ?T op u v cv"])
      show "expr_sim E P fp \<rho> a pc c" using sim const(3) by simp
      show "tail_ok E P (pc + length c) t s (binop_val ?T op u (m_reg s 0) cv)" for s
        using const_tile_ok [OF const(2) at d] .
      show "(binop_val ?T op u v cv, \<sigma>') \<in> evals ?T fp \<rho> (IE_BINOP op a b sz u pa) \<sigma>"
        if "(v, \<sigma>') \<in> evals ?T fp \<rho> a \<sigma>" for v \<sigma> \<sigma>'
        using that ie_const_evals [OF const(1) wf(2)] by force
    qed
  next
    case left
    show ?thesis
    proof (rule sim_unary [where f = "\<lambda>v. binop_val ?T op u cv v"])
      show "expr_sim E P fp \<rho> b pc c" using sim left(3) by simp
      show "tail_ok E P (pc + length c) t s (binop_val ?T op u cv (m_reg s 0))" for s
        using const_tile_left_ok [OF left(2) at d] .
      show "(binop_val ?T op u cv v, \<sigma>') \<in> evals ?T fp \<rho> (IE_BINOP op a b sz u pa) \<sigma>"
        if "(v, \<sigma>') \<in> evals ?T fp \<rho> b \<sigma>" for v \<sigma> \<sigma>'
        using that ie_const_evals [OF left(1) wf(1)] by force
    qed
  next
    case mem
    show ?thesis
    proof (rule sim_leaf)
      fix s \<sigma> assume ag: "agree fp \<sigma> s"
      have "expr_sim E P fp \<rho> a pc c" using sim mem(2) by simp
      from this ag obtain x \<sigma>1 where x: "(x, \<sigma>1) \<in> evals ?T fp \<rho> a \<sigma>"
        "reaches E P fp pc s (pc + length c) x (m_stack s) \<sigma>1" by (rule expr_simD)
      obtain s1 where s1: "m_runs E P (pc, s) (pc + length c, s1)" "m_reg s1 0 = x" "m_stack s1 = m_stack s" "agree fp \<sigma>1 s1"
        using x(2) unfolding reaches_def by blast
      obtain y where y: "(y, \<sigma>1) \<in> evals ?T fp \<rho> b \<sigma>1" "tail_ok E P (pc + length c) t s1 (binop_val ?T op u x y)"
        using mem_tile_ok [OF mem(1) at wf(2) s1(4)] s1(2) by blast
      have "reaches E P fp pc s (pc + length (c @ t)) (binop_val ?T op u x y) (m_stack s) \<sigma>1"
        by (rule reaches_after [OF s1(1) reaches_tail [OF y(2) s1(4)]]) (simp_all add: s1(3))
      moreover have "(binop_val ?T op u x y, \<sigma>1) \<in> evals ?T fp \<rho> (IE_BINOP op a b sz u pa) \<sigma>"
        using x(1) y(1) by force
      ultimately show "\<exists>v \<sigma>'. (v, \<sigma>') \<in> evals ?T fp \<rho> (IE_BINOP op a b sz u pa) \<sigma> \<and>
          reaches E P fp pc s (pc + length (c @ t)) v (m_stack s) \<sigma>'" by blast
    qed
  qed
qed

lemma sim_BINOP:
  assumes "op \<in> binop_kinds" "runtime_ok E"
    and sims: "expr_sim E P fp \<rho> b pc cb" "expr_sim E P fp \<rho> a (pc + length cb + 1) ca"
    and at: "code_at P (pc + length cb) ([I_push] @ ca @ [I_pop 1] @ op_tail op u)"
  shows "expr_sim E P fp \<rho> (IE_BINOP op a b sz u pa) pc (cb @ [I_push] @ ca @ [I_pop 1] @ op_tail op u)"
    (is "expr_sim _ _ _ _ ?e _ ?t")
proof (rule sim_leaf)
  fix s \<sigma> assume ag: "agree fp \<sigma> s"
  let ?q = "pc + length cb + 1 + length ca + 1"
  have at': "code_at P (pc + length cb) [I_push]" "code_at P (pc + length cb + 1 + length ca) [I_pop 1]"
    "code_at P ?q (op_tail op u)" using at by simp_all
  have len: "pc + length ?t = ?q + length (op_tail op u)" by simp
  obtain x y \<sigma>1 \<sigma>2 where e: "(y, \<sigma>1) \<in> evals (me_target E) fp \<rho> b \<sigma>" "(x, \<sigma>2) \<in> evals (me_target E) fp \<rho> a \<sigma>1"
    and k: "\<And>pc' w \<sigma>3. (\<And>s1. m_reg s1 0 = x \<Longrightarrow> m_reg s1 1 = y \<Longrightarrow> m_stack s1 = m_stack s \<Longrightarrow> agree fp \<sigma>2 s1 \<Longrightarrow>
        reaches E P fp ?q s1 pc' w (m_stack s) \<sigma>3) \<Longrightarrow> reaches E P fp pc s pc' w (m_stack s) \<sigma>3"
    by (rule sim_two_operands [OF sims at'(1,2) _ ag]) auto
  have "reaches E P fp pc s (pc + length ?t) (binop_val (me_target E) op u x y) (m_stack s) \<sigma>2"
  proof (rule k)
    fix s1 assume s1: "m_reg s1 0 = x" "m_reg s1 1 = y" "m_stack s1 = m_stack s" "agree fp \<sigma>2 s1"
    from op_tail_ok [OF assms(1,2) at'(3), of s1] s1
    show "reaches E P fp ?q s1 (pc + length ?t) (binop_val (me_target E) op u x y) (m_stack s) \<sigma>2"
      unfolding len by (intro reaches_tail) simp_all
  qed
  moreover have "(binop_val (me_target E) op u x y, \<sigma>2) \<in> evals (me_target E) fp \<rho> ?e \<sigma>" using e by force
  ultimately show "\<exists>v \<sigma>'. (v, \<sigma>') \<in> evals (me_target E) fp \<rho> ?e \<sigma> \<and>
      reaches E P fp pc s (pc + length ?t) v (m_stack s) \<sigma>'" by blast
qed

lemma sim_UNARY:
  assumes "expr_sim E P fp \<rho> a pc c" and at: "code_at P (pc + length c) t"
    and t: "t = (if op = ND_NEG then [I_neg] else if op = ND_BITNOT then [I_not] else I_tst # materialize C_eq)"
  shows "expr_sim E P fp \<rho> (IE_UNARY op a sz u) pc (c @ t)"
proof (rule sim_unary [OF assms(1), where f = "unary_val op"])
  show "tail_ok E P (pc + length c) t s (unary_val op (m_reg s 0))" for s
  proof (rule tail_exec [OF at])
    consider "op = ND_NEG" | "op = ND_BITNOT" | "op \<noteq> ND_NEG" "op \<noteq> ND_BITNOT" by blast
    then show "\<exists>s'. exec E t s = Some s' \<and> m_reg s' 0 = unary_val op (m_reg s 0) \<and> keeps s s'"
    proof cases
      case 3
      then show ?thesis using exec_tst_materialize [of E C_eq s] by (simp add: t unary_val_def del: exec.simps(2))
    qed (simp_all add: t unary_val_def exec_simps)
  qed
qed force

lemma sim_CAST:
  assumes "expr_sim E P fp \<rho> a pc c" and at: "code_at P (pc + length c) t"
    and t: "t = (if op = TY_VOID then [] else if op = TY_BOOL then I_tst # materialize C_ne else cast_int_narrow sz u)"
  shows "expr_sim E P fp \<rho> (IE_CAST op a sz u fs fu) pc (c @ t)"
proof (rule sim_unary [OF assms(1), where f = "cast_val op sz u"])
  show "tail_ok E P (pc + length c) t s (cast_val op sz u (m_reg s 0))" for s
    using exec_tst_materialize [of E C_ne s] exec_narrow [of E sz u s]
    by (intro tail_exec [OF at]) (simp add: t cast_val_def del: exec.simps(2))
qed force

section \<open>Control flow\<close>

lemma sim_COMMA:
  assumes "expr_sim E P fp \<rho> a pc ca" "expr_sim E P fp \<rho> b (pc + length ca) cb"
  shows "expr_sim E P fp \<rho> (IE_COMMA a b sz u) pc (ca @ cb)"
proof (rule sim_leaf)
  fix s \<sigma> assume "agree fp \<sigma> s"
  with assms(1) obtain v \<sigma>1 where v: "(v, \<sigma>1) \<in> evals (me_target E) fp \<rho> a \<sigma>"
    "reaches E P fp pc s (pc + length ca) v (m_stack s) \<sigma>1" by (rule expr_simD)
  obtain s1 where s1: "m_runs E P (pc, s) (pc + length ca, s1)" "m_stack s1 = m_stack s" "agree fp \<sigma>1 s1"
    using v(2) unfolding reaches_def by blast
  from assms(2) s1(3) obtain w \<sigma>2 where w: "(w, \<sigma>2) \<in> evals (me_target E) fp \<rho> b \<sigma>1"
    "reaches E P fp (pc + length ca) s1 (pc + length ca + length cb) w (m_stack s1) \<sigma>2" by (rule expr_simD)
  have "reaches E P fp pc s (pc + length (ca @ cb)) w (m_stack s) \<sigma>2"
    using reaches_after [OF s1(1) w(2)] s1(2) by (simp add: add.assoc)
  with v(1) w(1) show "\<exists>v \<sigma>'. (v, \<sigma>') \<in> evals (me_target E) fp \<rho> (IE_COMMA a b sz u) \<sigma> \<and>
      reaches E P fp pc s (pc + length (ca @ cb)) v (m_stack s) \<sigma>'" by force
qed

text \<open>The value of an expression decides a branch.\<close>

lemma cond_test:
  assumes "expr_sim E P fp \<rho> e pc c" "code_at P (pc + length c) [I_tst, I_bcc (if w then C_ne else C_eq) l]"
    and "find_label P l = Some j"
  shows "cond_sim E P fp \<rho> e pc (c @ [I_tst, I_bcc (if w then C_ne else C_eq) l]) w j"
  unfolding cond_sim_def
proof (intro allI impI)
  fix s \<sigma> assume "agree fp \<sigma> s"
  with assms(1) obtain v \<sigma>1 where v: "(v, \<sigma>1) \<in> evals (me_target E) fp \<rho> e \<sigma>"
    "reaches E P fp pc s (pc + length c) v (m_stack s) \<sigma>1" by (rule expr_simD)
  let ?j = "if (v \<noteq> 0) = w then j else pc + length (c @ [I_tst, I_bcc (if w then C_ne else C_eq) l])"
  have "reaches E P fp pc s ?j v (m_stack s) \<sigma>1"
  proof (rule reaches_trans [OF v(2)])
    fix s1 assume s1: "m_reg s1 0 = v" "m_stack s1 = m_stack s" "agree fp \<sigma>1 s1"
    have len: "pc + length (c @ [I_tst, I_bcc (if w then C_ne else C_eq) l]) = pc + length c + 2" by simp
    from reaches_test [OF assms(2) s1(3) assms(3), of E]
    show "reaches E P fp (pc + length c) s1 ?j v (m_stack s) \<sigma>1" unfolding len s1(1,2) .
  qed
  with v(1) show "\<exists>v d \<sigma>'. (v, \<sigma>') \<in> evals (me_target E) fp \<rho> e \<sigma> \<and>
      reaches E P fp pc s (if (v \<noteq> 0) = w then j else pc + length (c @ [I_tst, I_bcc (if w then C_ne else C_eq) l])) d (m_stack s) \<sigma>'"
    by blast
qed

lemma cond_NOT: "cond_sim E P fp \<rho> a pc c (\<not> w) j \<Longrightarrow> cond_sim E P fp \<rho> (IE_UNARY ND_NOT a sz u) pc c w j"
  unfolding cond_sim_def
proof (intro allI impI)
  fix s \<sigma>
  assume "\<forall>s \<sigma>. agree fp \<sigma> s \<longrightarrow> (\<exists>v d \<sigma>'. (v, \<sigma>') \<in> evals (me_target E) fp \<rho> a \<sigma> \<and>
      reaches E P fp pc s (if (v \<noteq> 0) = (\<not> w) then j else pc + length c) d (m_stack s) \<sigma>')" "agree fp \<sigma> s"
  then obtain v d \<sigma>' where v: "(v, \<sigma>') \<in> evals (me_target E) fp \<rho> a \<sigma>"
    "reaches E P fp pc s (if (v \<noteq> 0) = (\<not> w) then j else pc + length c) d (m_stack s) \<sigma>'" by blast
  have "(of_bool (v = 0), \<sigma>') \<in> evals (me_target E) fp \<rho> (IE_UNARY ND_NOT a sz u) \<sigma>"
    using v(1) by (force simp: unary_val_def)
  moreover have "((of_bool (v = 0) :: u32) \<noteq> 0) = w \<longleftrightarrow> (v \<noteq> 0) = (\<not> w)" by auto
  then have "reaches E P fp pc s (if ((of_bool (v = 0) :: u32) \<noteq> 0) = w then j else pc + length c) d (m_stack s) \<sigma>'"
    using v(2) by simp
  ultimately show "\<exists>v d \<sigma>'. (v, \<sigma>') \<in> evals (me_target E) fp \<rho> (IE_UNARY ND_NOT a sz u) \<sigma> \<and>
      reaches E P fp pc s (if (v \<noteq> 0) = w then j else pc + length c) d (m_stack s) \<sigma>'"
    by blast
qed

text \<open>Two conditions in a row; the second is reached when the first one falls through.\<close>

lemma cond_seq:
  assumes "cond_sim E P fp \<rho> a pc ca wa ja" "cond_sim E P fp \<rho> b (pc + length ca) cb wb jb" "agree fp \<sigma> s"
  obtains (first) x \<sigma>1 d where "(x, \<sigma>1) \<in> evals (me_target E) fp \<rho> a \<sigma>" "(x \<noteq> 0) = wa"
      "reaches E P fp pc s ja d (m_stack s) \<sigma>1"
  | (second) x y \<sigma>1 \<sigma>2 d where "(x, \<sigma>1) \<in> evals (me_target E) fp \<rho> a \<sigma>" "(x \<noteq> 0) \<noteq> wa"
      "(y, \<sigma>2) \<in> evals (me_target E) fp \<rho> b \<sigma>1"
      "reaches E P fp pc s (if (y \<noteq> 0) = wb then jb else pc + length (ca @ cb)) d (m_stack s) \<sigma>2"
proof -
  from assms(1,3) obtain x d \<sigma>1 where x: "(x, \<sigma>1) \<in> evals (me_target E) fp \<rho> a \<sigma>"
    "reaches E P fp pc s (if (x \<noteq> 0) = wa then ja else pc + length ca) d (m_stack s) \<sigma>1" by (rule cond_simD)
  show thesis
  proof (cases "(x \<noteq> 0) = wa")
    case True
    with x first show thesis by auto
  next
    case False
    then obtain s1 where s1: "m_runs E P (pc, s) (pc + length ca, s1)" "m_stack s1 = m_stack s" "agree fp \<sigma>1 s1"
      using x(2) unfolding reaches_def by auto
    from assms(2) s1(3) obtain y e \<sigma>2 where y: "(y, \<sigma>2) \<in> evals (me_target E) fp \<rho> b \<sigma>1"
      "reaches E P fp (pc + length ca) s1 (if (y \<noteq> 0) = wb then jb else pc + length ca + length cb) e (m_stack s1) \<sigma>2"
      by (rule cond_simD)
    have len: "pc + length (ca @ cb) = pc + length ca + length cb" by simp
    from reaches_after [OF s1(1) y(2)] have "reaches E P fp pc s (if (y \<noteq> 0) = wb then jb else pc + length (ca @ cb)) e (m_stack s) \<sigma>2"
      unfolding len s1(2) .
    with x(1) False y(1) show thesis by (rule second)
  qed
qed

lemma reaches_label:
  "code_at P pc [I_label l] \<Longrightarrow> m_reg s 0 = v \<Longrightarrow> m_stack s = st \<Longrightarrow> agree fp \<sigma> s \<Longrightarrow>
   reaches E P fp pc s (Suc pc) v st \<sigma>"
  by (rule reaches_step [of P pc "I_label l" E s s]) simp_all

lemma reaches_label_after:
  assumes "reaches E P fp pc s q v st \<sigma>" "code_at P q [I_label l]"
  shows "reaches E P fp pc s (Suc q) v st \<sigma>"
  by (rule reaches_trans [OF assms(1)]) (rule reaches_label [OF assms(2)])

text \<open>
  A condition over two: the first one jumps past the second, to the label after it, when it already
  decides the value.
\<close>

lemma cond_skip:
  assumes sims: "cond_sim E P fp \<rho> a pc ca (\<not> w) (pc + length ca + length cb)"
      "cond_sim E P fp \<rho> b (pc + length ca) cb w j"
    and at: "code_at P (pc + length ca + length cb) [I_label l]"
    and skip: "\<And>x \<sigma> \<sigma>1. (x, \<sigma>1) \<in> evals (me_target E) fp \<rho> a \<sigma> \<Longrightarrow> (x \<noteq> 0) \<noteq> w \<Longrightarrow>
      (of_bool (\<not> w), \<sigma>1) \<in> evals (me_target E) fp \<rho> e \<sigma>"
    and go: "\<And>x y \<sigma> \<sigma>1 \<sigma>2. (x, \<sigma>1) \<in> evals (me_target E) fp \<rho> a \<sigma> \<Longrightarrow> (x \<noteq> 0) = w \<Longrightarrow>
      (y, \<sigma>2) \<in> evals (me_target E) fp \<rho> b \<sigma>1 \<Longrightarrow> (of_bool (y \<noteq> 0), \<sigma>2) \<in> evals (me_target E) fp \<rho> e \<sigma>"
  shows "cond_sim E P fp \<rho> e pc (ca @ cb @ [I_label l]) w j"
  unfolding cond_sim_def
proof (intro allI impI)
  fix s \<sigma> assume ag: "agree fp \<sigma> s"
  have len: "pc + length (ca @ cb @ [I_label l]) = Suc (pc + length ca + length cb)"
    "pc + length (ca @ cb) = pc + length ca + length cb" by simp_all
  let ?goal = "\<exists>v d \<sigma>'. (v, \<sigma>') \<in> evals (me_target E) fp \<rho> e \<sigma> \<and>
      reaches E P fp pc s (if (v \<noteq> 0) = w then j else Suc (pc + length ca + length cb)) d (m_stack s) \<sigma>'"
  have ?goal
  proof (cases rule: cond_seq [OF sims ag, case_names first second])
    case (first x \<sigma>1 d)
    have "(of_bool (\<not> w), \<sigma>1) \<in> evals (me_target E) fp \<rho> e \<sigma>" using first(1,2) by (intro skip) auto
    moreover have "reaches E P fp pc s (if (of_bool (\<not> w) \<noteq> (0::u32)) = w then j else Suc (pc + length ca + length cb)) d (m_stack s) \<sigma>1"
      using reaches_label_after [OF first(3) at] by (cases w) simp_all
    ultimately show ?goal by blast
  next
    case (second x y \<sigma>1 \<sigma>2 d)
    have "(of_bool (y \<noteq> 0), \<sigma>2) \<in> evals (me_target E) fp \<rho> e \<sigma>" using second(2) by (intro go [OF second(1) _ second(3)]) auto
    moreover have "reaches E P fp pc s (if (of_bool (y \<noteq> 0) \<noteq> (0::u32)) = w then j else Suc (pc + length ca + length cb)) d (m_stack s) \<sigma>2"
      using second(4) reaches_label_after [OF _ at, of E fp pc s d "m_stack s" \<sigma>2] unfolding len(2)
      by (cases "(y \<noteq> 0) = w") simp_all
    ultimately show ?goal by blast
  qed
  then show "\<exists>v d \<sigma>'. (v, \<sigma>') \<in> evals (me_target E) fp \<rho> e \<sigma> \<and>
      reaches E P fp pc s (if (v \<noteq> 0) = w then j else pc + length (ca @ cb @ [I_label l])) d (m_stack s) \<sigma>'"
    unfolding len(1) .
qed

text \<open>Both conditions jump to the target.\<close>

lemma cond_both:
  assumes sims: "cond_sim E P fp \<rho> a pc ca w j" "cond_sim E P fp \<rho> b (pc + length ca) cb w j"
    and skip: "\<And>x \<sigma> \<sigma>1. (x, \<sigma>1) \<in> evals (me_target E) fp \<rho> a \<sigma> \<Longrightarrow> (x \<noteq> 0) = w \<Longrightarrow>
      (of_bool w, \<sigma>1) \<in> evals (me_target E) fp \<rho> e \<sigma>"
    and go: "\<And>x y \<sigma> \<sigma>1 \<sigma>2. (x, \<sigma>1) \<in> evals (me_target E) fp \<rho> a \<sigma> \<Longrightarrow> (x \<noteq> 0) \<noteq> w \<Longrightarrow>
      (y, \<sigma>2) \<in> evals (me_target E) fp \<rho> b \<sigma>1 \<Longrightarrow> (of_bool (y \<noteq> 0), \<sigma>2) \<in> evals (me_target E) fp \<rho> e \<sigma>"
  shows "cond_sim E P fp \<rho> e pc (ca @ cb) w j"
  unfolding cond_sim_def
proof (intro allI impI)
  fix s \<sigma> assume ag: "agree fp \<sigma> s"
  show "\<exists>v d \<sigma>'. (v, \<sigma>') \<in> evals (me_target E) fp \<rho> e \<sigma> \<and>
      reaches E P fp pc s (if (v \<noteq> 0) = w then j else pc + length (ca @ cb)) d (m_stack s) \<sigma>'" (is ?goal)
  proof (cases rule: cond_seq [OF sims ag, case_names first second])
    case (first x \<sigma>1 d)
    have "(of_bool w, \<sigma>1) \<in> evals (me_target E) fp \<rho> e \<sigma>" using skip [OF first(1,2)] .
    moreover have "reaches E P fp pc s (if (of_bool w \<noteq> (0::u32)) = w then j else pc + length (ca @ cb)) d (m_stack s) \<sigma>1"
      using first(3) by (cases w) simp_all
    ultimately show ?goal by blast
  next
    case (second x y \<sigma>1 \<sigma>2 d)
    have "(of_bool (y \<noteq> 0), \<sigma>2) \<in> evals (me_target E) fp \<rho> e \<sigma>" using go [OF second(1,2,3)] .
    moreover have "reaches E P fp pc s (if (of_bool (y \<noteq> 0) \<noteq> (0::u32)) = w then j else pc + length (ca @ cb)) d (m_stack s) \<sigma>2"
      using second(4) by (cases "y = 0") simp_all
    ultimately show ?goal by blast
  qed
qed

lemma logand_evals:
  "(x, \<sigma>1) \<in> evals T fp \<rho> a \<sigma> \<Longrightarrow> x = 0 \<Longrightarrow> (0, \<sigma>1) \<in> evals T fp \<rho> (IE_LOGAND a b) \<sigma>"
  "(x, \<sigma>1) \<in> evals T fp \<rho> a \<sigma> \<Longrightarrow> x \<noteq> 0 \<Longrightarrow> (y, \<sigma>2) \<in> evals T fp \<rho> b \<sigma>1 \<Longrightarrow>
   (of_bool (y \<noteq> 0), \<sigma>2) \<in> evals T fp \<rho> (IE_LOGAND a b) \<sigma>"
  by (force split: if_splits)+

lemma logor_evals:
  "(x, \<sigma>1) \<in> evals T fp \<rho> a \<sigma> \<Longrightarrow> x \<noteq> 0 \<Longrightarrow> (1, \<sigma>1) \<in> evals T fp \<rho> (IE_LOGOR a b) \<sigma>"
  "(x, \<sigma>1) \<in> evals T fp \<rho> a \<sigma> \<Longrightarrow> x = 0 \<Longrightarrow> (y, \<sigma>2) \<in> evals T fp \<rho> b \<sigma>1 \<Longrightarrow>
   (of_bool (y \<noteq> 0), \<sigma>2) \<in> evals T fp \<rho> (IE_LOGOR a b) \<sigma>"
  by (force split: if_splits)+

section \<open>Comparisons that branch\<close>

lemma cmp_branch:
  assumes "code_at P pc [I_cmp x, I_bcc (bcc_mnem r u) l]" "read_op E s SzL x = Some v"
    and "agree fp \<sigma> s" "find_label P l = Some j"
  shows "reaches E P fp pc s (if rel_holds r u (m_reg s 0) v then j else pc + 2) (m_reg s 0) (m_stack s) \<sigma>"
proof -
  let ?t = "s\<lparr>m_flags := Some (cmp_flags (m_reg s 0) v)\<rparr>"
  have 1: "m_runs E P (pc, s) (Suc pc, ?t)" using assms(1,2) by (intro m_runs_one m_step_effect) auto
  have b: "code_at P (Suc pc) [I_bcc (bcc_mnem r u) l]" using assms(1) by simp
  have "m_runs E P (Suc pc, ?t) (if rel_holds r u (m_reg s 0) v then j else pc + 2, ?t)"
    using bcc_taken [OF b, of ?t _ j E] bcc_not_taken [OF b, of ?t _ E] assms(4) by simp
  from m_runs_trans [OF 1 this] show ?thesis using assms(3) by (auto simp: reaches_def)
qed

lemma rel_goal:
  assumes "is_rel op"
  shows "rel_holds (if w then rel_of op else rel_negate (rel_of op)) u x y \<longleftrightarrow> (binop_val T op u x y \<noteq> 0) = w"
  using assms by (simp add: binop_val_rel rel_of_holds)

lemma rel_goal_swap:
  assumes "is_rel op"
  shows "rel_holds (if w then rel_swap (rel_of op) else rel_negate (rel_swap (rel_of op))) u y x \<longleftrightarrow>
    (binop_val T op u x y \<noteq> 0) = w"
  using assms by (simp add: binop_val_rel rel_of_holds)

lemma cond_BINOP_plan:
  assumes op: "is_rel op" and plan: "cond_plan \<rho> op a b = Some (right, i, r)" and wf: "wf_expr \<rho> a" "wf_expr \<rho> b"
    and sim: "expr_sim E P fp \<rho> (if right then b else a) pc c"
    and at: "code_at P (pc + length c) [i, I_bcc (bcc_mnem (if w then r else rel_negate r) u) l]"
    and j: "find_label P l = Some j"
  shows "cond_sim E P fp \<rho> (IE_BINOP op a b sz u pa) pc
    (c @ [i, I_bcc (bcc_mnem (if w then r else rel_negate r) u) l]) w j"
  unfolding cond_sim_def
proof (intro allI impI)
  fix s \<sigma> assume ag: "agree fp \<sigma> s"
  let ?T = "me_target E" and ?e = "IE_BINOP op a b sz u pa" and ?r = "if w then r else rel_negate r"
  from sim ag obtain x \<sigma>1 where x: "(x, \<sigma>1) \<in> evals ?T fp \<rho> (if right then b else a) \<sigma>"
    "reaches E P fp pc s (pc + length c) x (m_stack s) \<sigma>1" by (rule expr_simD)
  obtain s1 where s1: "m_runs E P (pc, s) (pc + length c, s1)" "m_reg s1 0 = x" "m_stack s1 = m_stack s" "agree fp \<sigma>1 s1"
    using x(2) unfolding reaches_def by blast
  have "\<exists>y v k. i = I_cmp k \<and> read_op E s1 SzL k = Some y \<and> (v, \<sigma>1) \<in> evals ?T fp \<rho> ?e \<sigma> \<and>
      (rel_holds ?r u x y \<longleftrightarrow> (v \<noteq> 0) = w)"
  proof -
    consider (const) cv where "ie_const b = Some cv" "i = I_cmp (Imm cv)" "r = rel_of op" "\<not> right"
      | (left) cv where "ie_const a = Some cv" "i = I_cmp (Imm cv)" "r = rel_swap (rel_of op)" "right"
      | (mem) k where "ie_simple_lval \<rho> b = Some (4, k)" "i = I_cmp k" "r = rel_of op" "\<not> right"
      using plan by (auto simp: cond_plan_def split: option.splits if_splits)
    then show ?thesis
    proof cases
      case const
      have "(binop_val ?T op u x cv, \<sigma>1) \<in> evals ?T fp \<rho> ?e \<sigma>"
        using x(1) const(4) ie_const_evals [OF const(1) wf(2)] by force
      moreover have "rel_holds ?r u x cv = ((binop_val ?T op u x cv \<noteq> 0) = w)" unfolding const(3) by (rule rel_goal [OF op])
      moreover have "read_op E s1 SzL (Imm cv) = Some cv" by simp
      ultimately show ?thesis using const(2) by blast
    next
      case left
      have "(binop_val ?T op u cv x, \<sigma>1) \<in> evals ?T fp \<rho> ?e \<sigma>"
        using x(1) left(4) ie_const_evals [OF left(1) wf(1)] by force
      moreover have "rel_holds ?r u x cv = ((binop_val ?T op u cv x \<noteq> 0) = w)" unfolding left(3) by (rule rel_goal_swap [OF op])
      moreover have "read_op E s1 SzL (Imm cv) = Some cv" by simp
      ultimately show ?thesis using left(2) by blast
    next
      case mem
      obtain y where y: "read_op E s1 SzL k = Some y" "evals ?T fp \<rho> b \<sigma>1 = {(y, \<sigma>1)}"
        using simple_lval_evals [OF mem(1) wf(2) s1(4), of E] by blast
      have "(binop_val ?T op u x y, \<sigma>1) \<in> evals ?T fp \<rho> ?e \<sigma>" using x(1) mem(4) y(2) by force
      moreover have "rel_holds ?r u x y = ((binop_val ?T op u x y \<noteq> 0) = w)" unfolding mem(3) by (rule rel_goal [OF op])
      ultimately show ?thesis using mem(2) y(1) by blast
    qed
  qed
  then obtain y v k where y: "i = I_cmp k" "read_op E s1 SzL k = Some y" "(v, \<sigma>1) \<in> evals ?T fp \<rho> ?e \<sigma>"
    "rel_holds ?r u x y \<longleftrightarrow> (v \<noteq> 0) = w" by blast
  have len: "pc + length (c @ [i, I_bcc (bcc_mnem ?r u) l]) = pc + length c + 2" by simp
  have "reaches E P fp (pc + length c) s1 (if rel_holds ?r u (m_reg s1 0) y then j else pc + length c + 2) (m_reg s1 0) (m_stack s1) \<sigma>1"
    by (rule cmp_branch [OF _ y(2) s1(4) j]) (use at y(1) in simp)
  from reaches_after [OF s1(1) this] have "reaches E P fp pc s (if (v \<noteq> 0) = w then j else pc + length c + 2) x (m_stack s) \<sigma>1"
    unfolding s1(2,3) y(4) .
  with y(3) show "\<exists>v d \<sigma>'. (v, \<sigma>') \<in> evals ?T fp \<rho> ?e \<sigma> \<and>
      reaches E P fp pc s (if (v \<noteq> 0) = w then j else pc + length (c @ [i, I_bcc (bcc_mnem ?r u) l])) d (m_stack s) \<sigma>'"
    unfolding len by blast
qed

lemma cond_BINOP:
  assumes op: "is_rel op"
    and sims: "expr_sim E P fp \<rho> b pc cb" "expr_sim E P fp \<rho> a (pc + length cb + 1) ca"
    and r: "r = (if w then rel_of op else rel_negate (rel_of op))"
    and at: "code_at P (pc + length cb) ([I_push] @ ca @ [I_pop 1, I_cmp (Reg 1), I_bcc (bcc_mnem r u) l])"
    and j: "find_label P l = Some j"
  shows "cond_sim E P fp \<rho> (IE_BINOP op a b sz u pa) pc
    (cb @ [I_push] @ ca @ [I_pop 1, I_cmp (Reg 1), I_bcc (bcc_mnem r u) l]) w j"
    (is "cond_sim _ _ _ _ ?e _ ?t _ _")
  unfolding cond_sim_def
proof (intro allI impI)
  fix s \<sigma> assume ag: "agree fp \<sigma> s"
  let ?q = "pc + length cb + 1 + length ca + 1" and ?T = "me_target E"
  have at': "code_at P (pc + length cb) [I_push]" "code_at P (pc + length cb + 1 + length ca) [I_pop 1]"
    "code_at P ?q [I_cmp (Reg 1), I_bcc (bcc_mnem r u) l]" using at by simp_all
  have len: "pc + length ?t = ?q + 2" by simp
  obtain x y \<sigma>1 \<sigma>2 where e: "(y, \<sigma>1) \<in> evals ?T fp \<rho> b \<sigma>" "(x, \<sigma>2) \<in> evals ?T fp \<rho> a \<sigma>1"
    and k: "\<And>pc' w \<sigma>3. (\<And>s1. m_reg s1 0 = x \<Longrightarrow> m_reg s1 1 = y \<Longrightarrow> m_stack s1 = m_stack s \<Longrightarrow> agree fp \<sigma>2 s1 \<Longrightarrow>
        reaches E P fp ?q s1 pc' w (m_stack s) \<sigma>3) \<Longrightarrow> reaches E P fp pc s pc' w (m_stack s) \<sigma>3"
    by (rule sim_two_operands [OF sims at'(1,2) _ ag]) auto
  let ?v = "binop_val ?T op u x y"
  have "reaches E P fp pc s (if (?v \<noteq> 0) = w then j else ?q + 2) x (m_stack s) \<sigma>2"
  proof (rule k)
    fix s1 assume s1: "m_reg s1 0 = x" "m_reg s1 1 = y" "m_stack s1 = m_stack s" "agree fp \<sigma>2 s1"
    have "read_op E s1 SzL (Reg 1) = Some y" using s1(2) by simp
    from cmp_branch [OF at'(3) this s1(4) j]
    show "reaches E P fp ?q s1 (if (?v \<noteq> 0) = w then j else ?q + 2) x (m_stack s) \<sigma>2"
      unfolding s1(1,3) r rel_goal [OF op, of w u x y ?T] .
  qed
  moreover have "(?v, \<sigma>2) \<in> evals ?T fp \<rho> ?e \<sigma>" using e by force
  ultimately show "\<exists>v d \<sigma>'. (v, \<sigma>') \<in> evals ?T fp \<rho> ?e \<sigma> \<and>
      reaches E P fp pc s (if (v \<noteq> 0) = w then j else pc + length ?t) d (m_stack s) \<sigma>'"
    unfolding len by blast
qed

section \<open>Values of conditions\<close>

text \<open>The tail of \<open>&&\<close> and \<open>||\<close>: one value by fall-through, the other one at the label.\<close>

lemma choice_tail:
  assumes at: "code_at P q [I_moveq x 0, I_bra le, I_label l, I_moveq y 0, I_label le]"
    and d: "distinct (labels_of P)" and "- 128 \<le> x" "x \<le> 127" "- 128 \<le> y" "y \<le> 127" and ag: "agree fp \<sigma> s"
  shows "reaches E P fp q s (q + 5) (word_of_int x) (m_stack s) \<sigma>"
    and "reaches E P fp (q + 2) s (q + 5) (word_of_int y) (m_stack s) \<sigma>"
proof -
  let ?s1 = "no_flags (set_reg 0 (word_of_int x) s)" and ?s2 = "no_flags (set_reg 0 (word_of_int y) s)"
  have le: "find_label P le = Some (q + 4)" by (rule label_found [OF d]) (use at in \<open>simp add: numeral_eq_Suc\<close>)
  have "exec E [I_moveq x 0] s = Some ?s1" using assms(3,4) by simp
  from exec_runs [OF _ this, of P q] at have 1: "m_runs E P (q, s) (q + 1, ?s1)" by simp
  have 2: "m_runs E P (q + 1, ?s1) (q + 4, ?s1)" by (rule bra_runs [OF _ le]) (use at in simp)
  have "exec E [I_label le] ?s1 = Some ?s1" by simp
  from exec_runs [OF _ this, of P "q + 4"] at have 3: "m_runs E P (q + 4, ?s1) (q + 5, ?s1)"
    by (simp add: numeral_eq_Suc)
  from m_runs_trans [OF m_runs_trans [OF 1 2] 3] ag
  show "reaches E P fp q s (q + 5) (word_of_int x) (m_stack s) \<sigma>" by (force simp: reaches_def)
  have "exec E [I_label l, I_moveq y 0, I_label le] s = Some ?s2" using assms(5,6) by simp
  from exec_runs [OF _ this, of P "q + 2"] at have "m_runs E P (q + 2, s) (q + 5, ?s2)"
    by (simp add: numeral_eq_Suc)
  with ag show "reaches E P fp (q + 2) s (q + 5) (word_of_int y) (m_stack s) \<sigma>" by (force simp: reaches_def)
qed

lemma sim_shortcircuit:
  assumes at: "code_at P (pc + length ca + length cb) [I_moveq x 0, I_bra le, I_label l, I_moveq y 0, I_label le]"
    and d: "distinct (labels_of P)" and xy: "x = of_bool (\<not> w)" "y = of_bool w"
    and e: "cond_sim E P fp \<rho> e pc (ca @ cb) w (pc + length ca + length cb + 2)"
    and val: "\<And>v \<sigma> \<sigma>1. (v, \<sigma>1) \<in> evals (me_target E) fp \<rho> e \<sigma> \<Longrightarrow> v = of_bool (v \<noteq> 0)"
  shows "expr_sim E P fp \<rho> e pc (ca @ cb @ [I_moveq x 0, I_bra le, I_label l, I_moveq y 0, I_label le])"
    (is "expr_sim _ _ _ _ _ _ ?t")
proof (rule sim_leaf)
  fix s \<sigma> assume ag: "agree fp \<sigma> s"
  let ?q = "pc + length ca + length cb"
  have len: "pc + length ?t = ?q + 5" by simp
  from e ag obtain v c \<sigma>' where v: "(v, \<sigma>') \<in> evals (me_target E) fp \<rho> e \<sigma>"
    "reaches E P fp pc s (if (v \<noteq> 0) = w then ?q + 2 else pc + length (ca @ cb)) c (m_stack s) \<sigma>'"
    by (rule cond_simD)
  have r: "- 128 \<le> x \<and> x \<le> 127 \<and> - 128 \<le> y \<and> y \<le> 127" using xy by (cases w) simp_all
  have len2: "pc + length (ca @ cb) = ?q" by simp
  have "reaches E P fp pc s (?q + 5) v (m_stack s) \<sigma>'"
  proof (rule reaches_trans [OF v(2)])
    fix s1 assume s1: "m_stack s1 = m_stack s" "agree fp \<sigma>' s1"
    have "v = (if (v \<noteq> 0) = w then word_of_int y else word_of_int x)" using val [OF v(1)] xy by (cases w) auto
    then show "reaches E P fp (if (v \<noteq> 0) = w then ?q + 2 else pc + length (ca @ cb)) s1 (?q + 5) v (m_stack s) \<sigma>'"
      using choice_tail [OF at d _ _ _ _ s1(2), of E] r s1(1) unfolding len2 by (cases "(v \<noteq> 0) = w") simp_all
  qed
  with v(1) have "\<exists>v. (v, \<sigma>') \<in> evals (me_target E) fp \<rho> e \<sigma> \<and> reaches E P fp pc s (?q + 5) v (m_stack s) \<sigma>'" by blast
  then show "\<exists>v \<sigma>'. (v, \<sigma>') \<in> evals (me_target E) fp \<rho> e \<sigma> \<and>
      reaches E P fp pc s (pc + length ?t) v (m_stack s) \<sigma>'" unfolding len by blast
qed

lemma sim_COND:
  assumes a: "cond_sim E P fp \<rho> a pc ca False (pc + length ca + length cb + 1)"
    and b: "expr_sim E P fp \<rho> b (pc + length ca) cb"
    and c: "expr_sim E P fp \<rho> c (pc + length ca + length cb + 2) cc"
    and at: "code_at P (pc + length ca + length cb) ([I_bra le, I_label ll] @ cc @ [I_label le])"
    and d: "distinct (labels_of P)"
  shows "expr_sim E P fp \<rho> (IE_COND a b c sz u) pc (ca @ cb @ [I_bra le, I_label ll] @ cc @ [I_label le])"
    (is "expr_sim _ _ _ _ ?e _ ?t")
proof (rule sim_leaf)
  fix s \<sigma> assume ag: "agree fp \<sigma> s"
  let ?q = "pc + length ca + length cb" and ?T = "me_target E"
  let ?stop = "?q + 2 + length cc"
  have len: "pc + length ?t = Suc ?stop" by simp
  have at': "code_at P ?q [I_bra le]" "code_at P (?q + 1) [I_label ll]" "code_at P ?stop [I_label le]" using at by simp_all
  have le: "find_label P le = Some ?stop" using label_found [OF d at'(3)] .
  from a ag obtain v h \<sigma>1 where v: "(v, \<sigma>1) \<in> evals ?T fp \<rho> a \<sigma>"
    "reaches E P fp pc s (if (v \<noteq> 0) = False then ?q + 1 else pc + length ca) h (m_stack s) \<sigma>1"
    by (rule cond_simD)
  have "\<exists>x \<sigma>2. (x, \<sigma>2) \<in> (if v \<noteq> 0 then evals ?T fp \<rho> b \<sigma>1 else evals ?T fp \<rho> c \<sigma>1) \<and>
      reaches E P fp pc s ?stop x (m_stack s) \<sigma>2"
  proof (cases "v = 0")
    case True
    then obtain s1 where s1: "m_runs E P (pc, s) (?q + 1, s1)" "m_reg s1 0 = h" "m_stack s1 = m_stack s" "agree fp \<sigma>1 s1"
      using v(2) unfolding reaches_def by auto
    have lab: "m_runs E P (?q + 1, s1) (?q + 2, s1)" using exec_runs [OF at'(2), of E s1 s1] by simp
    from c s1(4) obtain x \<sigma>2 where x: "(x, \<sigma>2) \<in> evals ?T fp \<rho> c \<sigma>1" "reaches E P fp (?q + 2) s1 ?stop x (m_stack s1) \<sigma>2"
      by (rule expr_simD)
    from reaches_after [OF m_runs_trans [OF s1(1) lab] x(2)] x(1) True s1(3) show ?thesis by auto
  next
    case False
    then obtain s1 where s1: "m_runs E P (pc, s) (pc + length ca, s1)" "m_stack s1 = m_stack s" "agree fp \<sigma>1 s1"
      using v(2) unfolding reaches_def by auto
    from b s1(3) obtain x \<sigma>2 where x: "(x, \<sigma>2) \<in> evals ?T fp \<rho> b \<sigma>1" "reaches E P fp (pc + length ca) s1 ?q x (m_stack s1) \<sigma>2"
      by (rule expr_simD)
    have "reaches E P fp (pc + length ca) s1 ?stop x (m_stack s) \<sigma>2"
      by (rule reaches_trans [OF x(2)]) (use reaches_bra [OF at'(1) le] s1(2) in auto)
    from reaches_after [OF s1(1) this] x(1) False show ?thesis by auto
  qed
  then obtain x \<sigma>2 where x: "(x, \<sigma>2) \<in> evals ?T fp \<rho> ?e \<sigma>" "reaches E P fp pc s ?stop x (m_stack s) \<sigma>2"
    using v(1) by force
  from reaches_label_after [OF x(2) at'(3)] x(1)
  show "\<exists>v \<sigma>'. (v, \<sigma>') \<in> evals ?T fp \<rho> ?e \<sigma> \<and> reaches E P fp pc s (pc + length ?t) v (m_stack s) \<sigma>'"
    unfolding len by blast
qed

section \<open>Calls\<close>

lemma args_nil: "args_sim E P fp \<rho> [] pc []"
  unfolding args_sim_def by (auto intro: reaches_here)

lemma args_cons:
  assumes "args_sim E P fp \<rho> es pc cs" "expr_sim E P fp \<rho> e (pc + length cs) c"
    and at: "code_at P (pc + length cs + length c) [I_push]"
  shows "args_sim E P fp \<rho> (e # es) pc (cs @ c @ [I_push])"
  unfolding args_sim_def
proof (intro allI impI)
  fix s \<sigma> assume ag: "agree fp \<sigma> s"
  let ?T = "me_target E"
  obtain vs d \<sigma>1 where vs: "(vs, \<sigma>1) \<in> evals_args ?T fp \<rho> es \<sigma>" "length vs = length es"
    "reaches E P fp pc s (pc + length cs) d (vs @ m_stack s) \<sigma>1"
    using assms(1) ag unfolding args_sim_def by blast
  obtain s1 where s1: "m_runs E P (pc, s) (pc + length cs, s1)" "m_stack s1 = vs @ m_stack s" "agree fp \<sigma>1 s1"
    using vs(3) unfolding reaches_def by blast
  from assms(2) s1(3) obtain v \<sigma>2 where v: "(v, \<sigma>2) \<in> evals ?T fp \<rho> e \<sigma>1"
    "reaches E P fp (pc + length cs) s1 (pc + length cs + length c) v (m_stack s1) \<sigma>2" by (rule expr_simD)
  have "reaches E P fp (pc + length cs) s1 (Suc (pc + length cs + length c)) v (v # m_stack s1) \<sigma>2"
    by (rule reaches_trans [OF v(2)]) (use at in \<open>auto intro: reaches_push\<close>)
  from reaches_after [OF s1(1) this]
  have "reaches E P fp pc s (pc + length (cs @ c @ [I_push])) v ((v # vs) @ m_stack s) \<sigma>2"
    using s1(2) by (simp add: add.assoc)
  moreover have "(v # vs, \<sigma>2) \<in> evals_args ?T fp \<rho> (e # es) \<sigma>" using vs(1) v(1) by force
  moreover have "length (v # vs) = length (e # es)" using vs(2) by simp
  ultimately show "\<exists>vs d \<sigma>'. (vs, \<sigma>') \<in> evals_args ?T fp \<rho> (e # es) \<sigma> \<and> length vs = length (e # es) \<and>
      reaches E P fp pc s (pc + length (cs @ c @ [I_push])) d (vs @ m_stack s) \<sigma>'" by blast
qed

lemma do_call_agree:
  assumes "agree fp \<sigma> s" "m_stack s = vs @ st" "call_result (me_target E) f vs \<sigma> = (r, \<sigma>')"
  shows "\<exists>s'. do_call E s f (length vs) = Some s' \<and> m_reg s' 0 = r \<and> m_stack s' = vs @ st \<and> agree fp \<sigma>' s'"
proof -
  obtain m where m: "tg_call (me_target E) f vs (st_mem \<sigma>) = (r, m)" "\<sigma>' = \<sigma>\<lparr>st_mem := m\<rparr>"
    using assms(3) by (auto simp: call_result_def split: prod.splits)
  have "m_mem s = st_mem \<sigma>" using assms(1) by (simp add: agree_def)
  then have "do_call E s f (length vs) = Some (after_call E s r m)"
    using assms(2) m(1) by (simp add: do_call_def)
  moreover have "agree fp \<sigma>' (after_call E s r m)"
    using assms(1) saved_not_scratch by (auto simp: agree_def after_call_def m(2) scratch_regs_def)
  ultimately show ?thesis using assms(2) by (simp add: after_call_def)
qed

lemma addsp_count: "k < 8192 \<Longrightarrow> sint (word_of_int (4 * int k) :: u16) = 4 * int k"
proof -
  assume "k < 8192"
  then have "signed_take_bit 15 (4 * int k) = 4 * int k" by (intro signed_take_bit_int_eq_self) simp_all
  then show ?thesis unfolding signed_of_int by simp
qed

lemma reaches_addsp:
  assumes at: "code_at P pc t" "t = (if args = [] then [] else [I_addsp (4 * int (length args))])"
    and "length args < 8192" "length vs = length args" "m_stack s = vs @ st" "agree fp \<sigma> s"
  shows "reaches E P fp pc s (pc + length t) (m_reg s 0) st \<sigma>"
proof (rule reaches_exec [OF at(1)])
  show "exec E t s = Some (s\<lparr>m_stack := st\<rparr>)"
    using assms(2-5) addsp_count [OF assms(3)] by (auto simp: Let_def)
qed (use assms(6) in simp_all)

lemma sim_CALL:
  assumes args: "args_sim E P fp \<rho> args pc cs" "length args < 8192"
    and call: "\<And>s \<sigma> vs. agree fp \<sigma> s \<Longrightarrow> length vs = length args \<Longrightarrow> m_stack s = vs @ drop (length args) (m_stack s) \<Longrightarrow>
      \<exists>f \<sigma>1 r \<sigma>2. (f, \<sigma>1) \<in> F \<sigma> \<and> call_result (me_target E) f vs \<sigma>1 = (r, \<sigma>2) \<and>
        reaches E P fp (pc + length cs) s (pc + length cs + length cf) r (vs @ drop (length args) (m_stack s)) \<sigma>2"
    and at: "code_at P (pc + length cs + length cf) ca" "ca = (if args = [] then [] else [I_addsp (4 * int (length args))])"
    and e: "\<And>vs f \<sigma> \<sigma>1 \<sigma>2. (vs, \<sigma>1) \<in> evals_args (me_target E) fp \<rho> args \<sigma> \<Longrightarrow> (f, \<sigma>2) \<in> F \<sigma>1 \<Longrightarrow>
      call_result (me_target E) f vs \<sigma>2 \<in> evals (me_target E) fp \<rho> e \<sigma>"
  shows "expr_sim E P fp \<rho> e pc (cs @ cf @ ca)"
proof (rule sim_leaf)
  fix s \<sigma> assume ag: "agree fp \<sigma> s"
  obtain vs d \<sigma>1 where vs: "(vs, \<sigma>1) \<in> evals_args (me_target E) fp \<rho> args \<sigma>" "length vs = length args"
    "reaches E P fp pc s (pc + length cs) d (vs @ m_stack s) \<sigma>1"
    using args(1) ag unfolding args_sim_def by blast
  obtain s1 where s1: "m_runs E P (pc, s) (pc + length cs, s1)" "m_stack s1 = vs @ m_stack s" "agree fp \<sigma>1 s1"
    using vs(3) unfolding reaches_def by blast
  have sts: "drop (length args) (m_stack s1) = m_stack s" using s1(2) vs(2) by simp
  obtain f \<sigma>2 r \<sigma>3 where f: "(f, \<sigma>2) \<in> F \<sigma>1" "call_result (me_target E) f vs \<sigma>2 = (r, \<sigma>3)"
    "reaches E P fp (pc + length cs) s1 (pc + length cs + length cf) r (vs @ m_stack s) \<sigma>3"
    using call [OF s1(3) vs(2)] s1(2) unfolding sts by blast
  have "reaches E P fp pc s (pc + length cs + length cf + length ca) r (m_stack s) \<sigma>3"
    by (rule reaches_trans [OF reaches_after [OF s1(1) f(3)]])
      (use reaches_addsp [OF at args(2) vs(2)] in auto)
  moreover have "(r, \<sigma>3) \<in> evals (me_target E) fp \<rho> e \<sigma>" using e [OF vs(1) f(1)] f(2) by simp
  ultimately show "\<exists>v \<sigma>'. (v, \<sigma>') \<in> evals (me_target E) fp \<rho> e \<sigma> \<and>
      reaches E P fp pc s (pc + length (cs @ cf @ ca)) v (m_stack s) \<sigma>'" by (auto simp: add.assoc)
qed

text \<open>The two forms of a call.\<close>

lemma sim_CALL_direct:
  assumes args: "args_sim E P fp \<rho> args pc cs" "length args < 8192"
    and at: "code_at P (pc + length cs) ([I_jsr_sym nm (length args)] @ ca)"
    and ca: "ca = (if args = [] then [] else [I_addsp (4 * int (length args))])"
  shows "expr_sim E P fp \<rho> (IE_CALL (Some nm) a args sz u) pc (cs @ [I_jsr_sym nm (length args)] @ ca)"
proof (rule sim_CALL [OF args _ _ ca, where F = "\<lambda>\<sigma>. {(Direct nm, \<sigma>)}"])
  fix s \<sigma> and vs :: "u32 list"
  assume a: "agree fp \<sigma> s" "length vs = length args" "m_stack s = vs @ drop (length args) (m_stack s)"
  obtain r \<sigma>2 where r: "call_result (me_target E) (Direct nm) vs \<sigma> = (r, \<sigma>2)" by fastforce
  obtain s' where s': "do_call E s (Direct nm) (length vs) = Some s'" "m_reg s' 0 = r"
      "m_stack s' = vs @ drop (length args) (m_stack s)" "agree fp \<sigma>2 s'"
    using do_call_agree [OF a(1,3) r] by blast
  have "code_at P (pc + length cs) [I_jsr_sym nm (length args)]" using at by simp
  then have "reaches E P fp (pc + length cs) s (Suc (pc + length cs)) r (vs @ drop (length args) (m_stack s)) \<sigma>2"
    by (rule reaches_step) (use s' a(2) in auto)
  with r show "\<exists>f \<sigma>1 r \<sigma>2. (f, \<sigma>1) \<in> {(Direct nm, \<sigma>)} \<and> call_result (me_target E) f vs \<sigma>1 = (r, \<sigma>2) \<and>
      reaches E P fp (pc + length cs) s (pc + length cs + length [I_jsr_sym nm (length args)]) r
        (vs @ drop (length args) (m_stack s)) \<sigma>2" by simp
qed (use at in force)+

lemma sim_CALL_indirect:
  assumes args: "args_sim E P fp \<rho> args pc cs" "length args < 8192"
    and f: "expr_sim E P fp \<rho> a (pc + length cs) cf"
    and at: "code_at P (pc + length cs) (cf @ [I_movea (Reg 0) 8, I_jsr_ind 8 (length args)] @ ca)"
    and ca: "ca = (if args = [] then [] else [I_addsp (4 * int (length args))])"
  shows "expr_sim E P fp \<rho> (IE_CALL None (Some a) args sz u) pc
    (cs @ (cf @ [I_movea (Reg 0) 8, I_jsr_ind 8 (length args)]) @ ca)"
proof (rule sim_CALL [OF args _ _ ca, where F = "\<lambda>\<sigma>. {(Indirect p, \<sigma>1) | p \<sigma>1. (p, \<sigma>1) \<in> evals (me_target E) fp \<rho> a \<sigma>}"])
  fix s \<sigma> and vs :: "u32 list"
  assume a: "agree fp \<sigma> s" "length vs = length args" "m_stack s = vs @ drop (length args) (m_stack s)"
  let ?st = "drop (length args) (m_stack s)" and ?q = "pc + length cs + length cf"
  from f a(1) obtain p \<sigma>1 where p: "(p, \<sigma>1) \<in> evals (me_target E) fp \<rho> a \<sigma>"
    "reaches E P fp (pc + length cs) s ?q p (m_stack s) \<sigma>1" by (rule expr_simD)
  obtain s1 where s1: "m_runs E P (pc + length cs, s) (?q, s1)" "m_reg s1 0 = p" "m_stack s1 = vs @ ?st" "agree fp \<sigma>1 s1"
    using p(2) a(3) unfolding reaches_def by metis
  let ?s2 = "set_reg 8 p s1"
  obtain r \<sigma>2 where r: "call_result (me_target E) (Indirect p) vs \<sigma>1 = (r, \<sigma>2)" by fastforce
  have "agree fp \<sigma>1 ?s2" "m_stack ?s2 = vs @ ?st" using s1(3,4) by simp_all
  from do_call_agree [OF this r] obtain s' where s': "do_call E ?s2 (Indirect p) (length vs) = Some s'" "m_reg s' 0 = r"
      "m_stack s' = vs @ ?st" "agree fp \<sigma>2 s'" by blast
  have x: "exec E [I_movea (Reg 0) 8, I_jsr_ind 8 (length args)] s1 = Some s'"
    using s1(2) s'(1) a(2) by simp
  have "code_at P ?q [I_movea (Reg 0) 8, I_jsr_ind 8 (length args)]" using at by simp
  from reaches_exec [OF this x s'(2,3,4) refl]
  have "reaches E P fp ?q s1 (?q + 2) r (vs @ ?st) \<sigma>2" by simp
  from reaches_after [OF s1(1) this] p(1) r
  show "\<exists>f \<sigma>1 r \<sigma>2. (f, \<sigma>1) \<in> {(Indirect p, \<sigma>1) | p \<sigma>1. (p, \<sigma>1) \<in> evals (me_target E) fp \<rho> a \<sigma>} \<and>
      call_result (me_target E) f vs \<sigma>1 = (r, \<sigma>2) \<and>
      reaches E P fp (pc + length cs) s
        (pc + length cs + length (cf @ [I_movea (Reg 0) 8, I_jsr_ind 8 (length args)])) r (vs @ ?st) \<sigma>2"
    by (intro exI [of _ "Indirect p"] exI [of _ \<sigma>1] exI [of _ r] exI [of _ \<sigma>2]) (simp add: add.assoc)
next
  show "code_at P (pc + length cs + length (cf @ [I_movea (Reg 0) 8, I_jsr_ind 8 (length args)])) ca"
    using at by (simp add: add.assoc)
qed force+

end
