(* ===== verification/Tile_Main.thy ===== *)
theory Tile_Main
  imports Tile_Flow
begin

text \<open>
  The induction over the selector: every case of \<open>ir_expr\<close>, \<open>ir_cond\<close> and \<open>ir_call\<close>, then the items of
  a function body, and the emitted body as a refinement of the item list.
\<close>

section \<open>Each case of the selector\<close>

definition expr_tiled :: "menv \<Rightarrow> instr list \<Rightarrow> u32 \<Rightarrow> nat \<Rightarrow> promotion \<Rightarrow> ir_expr \<Rightarrow> nat \<Rightarrow> bool" where
  "expr_tiled E P fp opt \<rho> e n \<longleftrightarrow>
     (\<forall>pc. code_at P pc (fst (tile_expr opt \<rho> e n)) \<longrightarrow> expr_sim E P fp \<rho> e pc (fst (tile_expr opt \<rho> e n)))"

definition cond_tiled ::
  "menv \<Rightarrow> instr list \<Rightarrow> u32 \<Rightarrow> nat \<Rightarrow> promotion \<Rightarrow> ir_expr \<Rightarrow> string \<Rightarrow> bool \<Rightarrow> nat \<Rightarrow> bool" where
  "cond_tiled E P fp opt \<rho> e l w n \<longleftrightarrow>
     (\<forall>pc j. code_at P pc (fst (tile_cond opt \<rho> e l w n)) \<longrightarrow> find_label P l = Some j \<longrightarrow>
        cond_sim E P fp \<rho> e pc (fst (tile_cond opt \<rho> e l w n)) w j)"

definition args_tiled :: "menv \<Rightarrow> instr list \<Rightarrow> u32 \<Rightarrow> nat \<Rightarrow> promotion \<Rightarrow> ir_expr list \<Rightarrow> nat \<Rightarrow> bool" where
  "args_tiled E P fp opt \<rho> es n \<longleftrightarrow>
     (\<forall>pc. code_at P pc (fst (tile_args opt \<rho> es n)) \<longrightarrow> args_sim E P fp \<rho> es pc (fst (tile_args opt \<rho> es n)))"

lemma expr_tiledD:
  "expr_tiled E P fp opt \<rho> e n \<Longrightarrow> tile_expr opt \<rho> e n = (c, m) \<Longrightarrow> code_at P pc c \<Longrightarrow> expr_sim E P fp \<rho> e pc c"
  by (auto simp: expr_tiled_def)

lemma expr_tiledI:
  "tile_expr opt \<rho> e n = (c, m) \<Longrightarrow> (\<And>pc. code_at P pc c \<Longrightarrow> expr_sim E P fp \<rho> e pc c) \<Longrightarrow> expr_tiled E P fp opt \<rho> e n"
  by (auto simp: expr_tiled_def)

lemma cond_tiledD:
  "cond_tiled E P fp opt \<rho> e l w n \<Longrightarrow> tile_cond opt \<rho> e l w n = (c, m) \<Longrightarrow> code_at P pc c \<Longrightarrow>
   find_label P l = Some j \<Longrightarrow> cond_sim E P fp \<rho> e pc c w j"
  by (auto simp: cond_tiled_def)

lemma cond_tiledI:
  "tile_cond opt \<rho> e l w n = (c, m) \<Longrightarrow>
   (\<And>pc j. code_at P pc c \<Longrightarrow> find_label P l = Some j \<Longrightarrow> cond_sim E P fp \<rho> e pc c w j) \<Longrightarrow>
   cond_tiled E P fp opt \<rho> e l w n"
  by (auto simp: cond_tiled_def)

lemma args_tiledD:
  "args_tiled E P fp opt \<rho> es n \<Longrightarrow> tile_args opt \<rho> es n = (c, m) \<Longrightarrow> code_at P pc c \<Longrightarrow> args_sim E P fp \<rho> es pc c"
  by (auto simp: args_tiled_def)

lemma args_tiledI:
  "tile_args opt \<rho> es n = (c, m) \<Longrightarrow> (\<And>pc. code_at P pc c \<Longrightarrow> args_sim E P fp \<rho> es pc c) \<Longrightarrow> args_tiled E P fp opt \<rho> es n"
  by (auto simp: args_tiled_def)

lemma tiled_LOAD:
  assumes wf: "wf_expr \<rho> a"
    and a: "lea_reg \<rho> a = 0 \<Longrightarrow> indexed_parts sz a = None \<Longrightarrow> expr_tiled E P fp opt \<rho> a n"
    and y: "\<And>x y. lea_reg \<rho> a = 0 \<Longrightarrow> indexed_parts sz a = Some (x, y) \<Longrightarrow> expr_tiled E P fp opt \<rho> y n"
  shows "expr_tiled E P fp opt \<rho> (IE_LOAD a sz u) n"
proof -
  consider (reg) "lea_reg \<rho> a \<noteq> 0" | (plain) "lea_reg \<rho> a = 0" "indexed_parts sz a = None"
    | (indexed) x y where "lea_reg \<rho> a = 0" "indexed_parts sz a = Some (x, y)"
    by (cases "indexed_parts sz a") auto
  then show ?thesis
  proof cases
    case reg
    then show ?thesis by (intro expr_tiledI) (auto intro: sim_LOAD_reg [OF _ wf, simplified])
  next
    case plain
    obtain c m where c: "tile_expr opt \<rho> a n = (c, m)" by fastforce
    show ?thesis
    proof (rule expr_tiledI)
      show "tile_expr opt \<rho> (IE_LOAD a sz u) n = (c @ [I_movea (Reg 0) 8] @ emit_load_from_a0 sz u, m)"
        using plain c by simp
      fix pc assume "code_at P pc (c @ [I_movea (Reg 0) 8] @ emit_load_from_a0 sz u)"
      then show "expr_sim E P fp \<rho> (IE_LOAD a sz u) pc (c @ [I_movea (Reg 0) 8] @ emit_load_from_a0 sz u)"
        by (intro sim_LOAD [OF plain(1) expr_tiledD [OF a [OF plain] c]]) simp_all
    qed
  next
    case indexed
    obtain cy m where cy: "tile_expr opt \<rho> y n = (cy, m)" by fastforce
    obtain cx k where cx: "tile_expr opt \<rho> x m = (cx, k)" by fastforce
    let ?t = "[I_move SzL (Reg 0) (Reg 1)] @ cx @ [I_movea (Reg 0) 8, I_move SzL (Indexed 8 1) (Reg 0)]"
    show ?thesis
    proof (rule expr_tiledI)
      show "tile_expr opt \<rho> (IE_LOAD a sz u) n = (cy @ ?t, k)" using indexed cy cx by simp
      fix pc assume "code_at P pc (cy @ ?t)"
      then show "expr_sim E P fp \<rho> (IE_LOAD a sz u) pc (cy @ ?t)"
        by (intro sim_indexed [OF indexed(2) wf expr_tiledD [OF y [OF indexed] cy], where n = m and opt = opt])
          (simp_all add: cx)
    qed
  qed
qed

lemma tiled_STORE:
  assumes wf: "wf_expr \<rho> a"
    and b: "lea_reg \<rho> a \<noteq> 0 \<or> direct_store a sz \<noteq> None \<Longrightarrow> expr_tiled E P fp opt \<rho> b n"
    and a: "lea_reg \<rho> a = 0 \<Longrightarrow> direct_store a sz = None \<Longrightarrow> expr_tiled E P fp opt \<rho> a n"
    and b': "\<And>ca m. lea_reg \<rho> a = 0 \<Longrightarrow> direct_store a sz = None \<Longrightarrow> tile_expr opt \<rho> a n = (ca, m) \<Longrightarrow>
      expr_tiled E P fp opt \<rho> b m"
  shows "expr_tiled E P fp opt \<rho> (IE_STORE a b sz u) n"
proof -
  obtain cb k where cb: "tile_expr opt \<rho> b n = (cb, k)" by fastforce
  consider (reg) "lea_reg \<rho> a \<noteq> 0" | (dir) x where "lea_reg \<rho> a = 0" "direct_store a sz = Some x"
    | (gen) "lea_reg \<rho> a = 0" "direct_store a sz = None" by (cases "direct_store a sz") auto
  then show ?thesis
  proof cases
    case reg
    show ?thesis
    proof (rule expr_tiledI)
      show "tile_expr opt \<rho> (IE_STORE a b sz u) n = (cb @ [move_to (lea_reg \<rho> a)], k)" using reg cb by simp
      fix pc assume "code_at P pc (cb @ [move_to (lea_reg \<rho> a)])"
      then show "expr_sim E P fp \<rho> (IE_STORE a b sz u) pc (cb @ [move_to (lea_reg \<rho> a)])"
        using expr_tiledD [OF b cb] reg by (intro sim_STORE_reg [OF reg wf]) auto
    qed
  next
    case dir
    show ?thesis
    proof (rule expr_tiledI)
      show "tile_expr opt \<rho> (IE_STORE a b sz u) n = (cb @ [I_move (store_width sz) (Reg 0) x], k)" using dir cb by simp
      fix pc assume "code_at P pc (cb @ [I_move (store_width sz) (Reg 0) x])"
      then show "expr_sim E P fp \<rho> (IE_STORE a b sz u) pc (cb @ [I_move (store_width sz) (Reg 0) x])"
        using expr_tiledD [OF b cb] dir by (intro sim_STORE_direct [OF dir]) auto
    qed
  next
    case gen
    obtain ca m where ca: "tile_expr opt \<rho> a n = (ca, m)" by fastforce
    obtain cb k where cb: "tile_expr opt \<rho> b m = (cb, k)" by fastforce
    let ?t = "ca @ [I_push] @ cb @ [I_pop 9, I_move (store_width sz) (Reg 0) (AtReg 9)]"
    show ?thesis
    proof (rule expr_tiledI)
      show "tile_expr opt \<rho> (IE_STORE a b sz u) n = (?t, k)" using gen ca cb by simp
      fix pc assume "code_at P pc ?t"
      then show "expr_sim E P fp \<rho> (IE_STORE a b sz u) pc ?t"
        by (intro sim_STORE [OF gen(1) expr_tiledD [OF a [OF gen] ca] expr_tiledD [OF b' [OF gen ca] cb]]) simp_all
    qed
  qed
qed

lemma tiled_BINOP:
  assumes wf: "op \<in> binop_kinds" "wf_expr \<rho> a" "wf_expr \<rho> b" and rt: "runtime_ok E" and d: "distinct (labels_of P)"
    and b: "binop_plan opt \<rho> op u a b n = None \<Longrightarrow> expr_tiled E P fp opt \<rho> b n"
    and a: "\<And>cb m. binop_plan opt \<rho> op u a b n = None \<Longrightarrow> tile_expr opt \<rho> b n = (cb, m) \<Longrightarrow> expr_tiled E P fp opt \<rho> a m"
    and p: "\<And>right k t. binop_plan opt \<rho> op u a b n = Some (right, k, t) \<Longrightarrow>
      expr_tiled E P fp opt \<rho> (if right then b else a) (if k then Suc n else n)"
  shows "expr_tiled E P fp opt \<rho> (IE_BINOP op a b sz u pa) n"
proof (cases "binop_plan opt \<rho> op u a b n")
  case None
  obtain cb m where cb: "tile_expr opt \<rho> b n = (cb, m)" by fastforce
  obtain ca k where ca: "tile_expr opt \<rho> a m = (ca, k)" by fastforce
  let ?t = "cb @ [I_push] @ ca @ [I_pop 1] @ op_tail op u"
  show ?thesis
  proof (rule expr_tiledI)
    show "tile_expr opt \<rho> (IE_BINOP op a b sz u pa) n = (?t, k)" using None ca cb by simp
    fix pc assume "code_at P pc ?t"
    then show "expr_sim E P fp \<rho> (IE_BINOP op a b sz u pa) pc ?t"
      by (intro sim_BINOP [OF wf(1) rt expr_tiledD [OF b [OF None] cb] expr_tiledD [OF a [OF None cb] ca]]) simp_all
  qed
next
  case (Some plan)
  obtain right k t where pl: "plan = (right, k, t)" by (cases plan)
  obtain c m where c: "tile_expr opt \<rho> (if right then b else a) (if k then Suc n else n) = (c, m)" by fastforce
  show ?thesis
  proof (rule expr_tiledI)
    show "tile_expr opt \<rho> (IE_BINOP op a b sz u pa) n = (c @ t, m)" using Some pl c by (cases right; simp)
    fix pc assume at: "code_at P pc (c @ t)"
    show "expr_sim E P fp \<rho> (IE_BINOP op a b sz u pa) pc (c @ t)"
      by (rule sim_BINOP_plan [OF Some [unfolded pl] wf(2,3) expr_tiledD [OF p [OF Some [unfolded pl]] c] _ d])
        (use at in simp_all)
  qed
qed

lemma tiled_UNARY:
  assumes "expr_tiled E P fp opt \<rho> a n"
  shows "expr_tiled E P fp opt \<rho> (IE_UNARY op a sz u) n"
proof -
  obtain c m where c: "tile_expr opt \<rho> a n = (c, m)" by fastforce
  let ?t = "if op = ND_NEG then [I_neg] else if op = ND_BITNOT then [I_not] else I_tst # materialize C_eq"
  show ?thesis
  proof (rule expr_tiledI)
    show "tile_expr opt \<rho> (IE_UNARY op a sz u) n = (c @ ?t, m)" using c by simp
    fix pc assume "code_at P pc (c @ ?t)"
    then show "expr_sim E P fp \<rho> (IE_UNARY op a sz u) pc (c @ ?t)"
      unfolding code_at_append by (elim conjE) (rule sim_UNARY [OF expr_tiledD [OF assms c] _ refl])
  qed
qed

lemma tiled_CAST:
  assumes "expr_tiled E P fp opt \<rho> a n"
  shows "expr_tiled E P fp opt \<rho> (IE_CAST op a sz u fs fu) n"
proof -
  obtain c m where c: "tile_expr opt \<rho> a n = (c, m)" by fastforce
  let ?t = "if op = TY_VOID then [] else if op = TY_BOOL then I_tst # materialize C_ne else cast_int_narrow sz u"
  show ?thesis
  proof (rule expr_tiledI)
    show "tile_expr opt \<rho> (IE_CAST op a sz u fs fu) n = (c @ ?t, m)" using c by simp
    fix pc assume "code_at P pc (c @ ?t)"
    then show "expr_sim E P fp \<rho> (IE_CAST op a sz u fs fu) pc (c @ ?t)"
      unfolding code_at_append by (elim conjE) (rule sim_CAST [OF expr_tiledD [OF assms c] _ refl])
  qed
qed

lemma tiled_COMMA:
  assumes "expr_tiled E P fp opt \<rho> a n"
    and "\<And>ca m. tile_expr opt \<rho> a n = (ca, m) \<Longrightarrow> expr_tiled E P fp opt \<rho> b m"
  shows "expr_tiled E P fp opt \<rho> (IE_COMMA a b sz u) n"
proof -
  obtain ca m where ca: "tile_expr opt \<rho> a n = (ca, m)" by fastforce
  obtain cb k where cb: "tile_expr opt \<rho> b m = (cb, k)" by fastforce
  show ?thesis
  proof (rule expr_tiledI)
    show "tile_expr opt \<rho> (IE_COMMA a b sz u) n = (ca @ cb, k)" using ca cb by simp
    fix pc assume "code_at P pc (ca @ cb)"
    then show "expr_sim E P fp \<rho> (IE_COMMA a b sz u) pc (ca @ cb)"
      by (intro sim_COMMA [OF expr_tiledD [OF assms(1) ca] expr_tiledD [OF assms(2) [OF ca] cb]]) simp_all
  qed
qed

text \<open>The two short-circuit operators share their code, up to the truth value that decides early.\<close>

lemma sim_logical:
  assumes a: "expr_tiled E P fp opt \<rho> a k" "tile_expr opt \<rho> a k = (ca, m)"
    and b: "expr_tiled E P fp opt \<rho> b m" "tile_expr opt \<rho> b m = (cb, m')"
    and t: "t = ca @ [I_tst, I_bcc cc l] @ cb @ [I_tst, I_bcc cc l, I_moveq x 0, I_bra le, I_label l, I_moveq y 0, I_label le]"
    and cc: "cc = (if w then C_ne else C_eq)" "x = of_bool (\<not> w)" "y = of_bool w"
    and d: "distinct (labels_of P)" and at: "code_at P pc t"
    and skip: "\<And>v \<sigma> \<sigma>1. (v, \<sigma>1) \<in> evals (me_target E) fp \<rho> a \<sigma> \<Longrightarrow> (v \<noteq> 0) = w \<Longrightarrow>
      (of_bool w, \<sigma>1) \<in> evals (me_target E) fp \<rho> e \<sigma>"
    and go: "\<And>v u \<sigma> \<sigma>1 \<sigma>2. (v, \<sigma>1) \<in> evals (me_target E) fp \<rho> a \<sigma> \<Longrightarrow> (v \<noteq> 0) \<noteq> w \<Longrightarrow>
      (u, \<sigma>2) \<in> evals (me_target E) fp \<rho> b \<sigma>1 \<Longrightarrow> (of_bool (u \<noteq> 0), \<sigma>2) \<in> evals (me_target E) fp \<rho> e \<sigma>"
    and val: "\<And>v \<sigma> \<sigma>1. (v, \<sigma>1) \<in> evals (me_target E) fp \<rho> e \<sigma> \<Longrightarrow> v = of_bool (v \<noteq> 0)"
  shows "expr_sim E P fp \<rho> e pc t"
proof -
  let ?ca = "ca @ [I_tst, I_bcc cc l]" and ?cb = "cb @ [I_tst, I_bcc cc l]"
  let ?q = "pc + length ?ca + length ?cb"
  have t': "t = ?ca @ ?cb @ [I_moveq x 0, I_bra le, I_label l, I_moveq y 0, I_label le]" by (simp add: t)
  have at': "code_at P pc ?ca" "code_at P (pc + length ?ca) ?cb"
    "code_at P ?q [I_moveq x 0, I_bra le, I_label l, I_moveq y 0, I_label le]"
    using at unfolding t' code_at_append by (simp_all only: add.assoc)
  have lab: "find_label P l = Some (?q + 2)" by (rule label_found [OF d]) (use at'(3) in \<open>simp add: numeral_2_eq_2\<close>)
  have "cond_sim E P fp \<rho> a pc ?ca w (?q + 2)"
    unfolding cc(1) by (rule cond_test [OF expr_tiledD [OF a]]) (use at'(1) lab in \<open>simp_all add: cc(1)\<close>)
  moreover have "cond_sim E P fp \<rho> b (pc + length ?ca) ?cb w (?q + 2)"
    unfolding cc(1) by (rule cond_test [OF expr_tiledD [OF b]]) (use at'(2) lab in \<open>simp_all add: cc(1)\<close>)
  ultimately have "cond_sim E P fp \<rho> e pc (?ca @ ?cb) w (?q + 2)" by (rule cond_both [OF _ _ skip go])
  from sim_shortcircuit [OF at'(3) d cc(2,3) this val] show ?thesis unfolding t' by simp
qed

lemma tiled_LOGAND:
  assumes "expr_tiled E P fp opt \<rho> a (Suc n)" "distinct (labels_of P)"
    and "\<And>ca m. tile_expr opt \<rho> a (Suc n) = (ca, m) \<Longrightarrow> expr_tiled E P fp opt \<rho> b m"
  shows "expr_tiled E P fp opt \<rho> (IE_LOGAND a b) n"
proof -
  obtain ca m where ca: "tile_expr opt \<rho> a (Suc n) = (ca, m)" by fastforce
  obtain cb k where cb: "tile_expr opt \<rho> b m = (cb, k)" by fastforce
  let ?lf = "uid_label ''L_false_'' n" and ?le = "uid_label ''L_end_'' n"
  let ?t = "ca @ [I_tst, I_bcc C_eq ?lf] @ cb @ [I_tst, I_bcc C_eq ?lf, I_moveq 1 0, I_bra ?le, I_label ?lf,
    I_moveq 0 0, I_label ?le]"
  show ?thesis
  proof (rule expr_tiledI)
    show "tile_expr opt \<rho> (IE_LOGAND a b) n = (?t, k)" using ca cb by (simp add: Let_def)
    fix pc assume at: "code_at P pc ?t"
    show "expr_sim E P fp \<rho> (IE_LOGAND a b) pc ?t"
      by (rule sim_logical [OF assms(1) ca assms(3) [OF ca] cb refl _ _ _ assms(2) at, where w = False])
        (use logand_evals in \<open>auto split: if_splits\<close>)
  qed
qed

lemma tiled_LOGOR:
  assumes "expr_tiled E P fp opt \<rho> a (Suc n)" "distinct (labels_of P)"
    and "\<And>ca m. tile_expr opt \<rho> a (Suc n) = (ca, m) \<Longrightarrow> expr_tiled E P fp opt \<rho> b m"
  shows "expr_tiled E P fp opt \<rho> (IE_LOGOR a b) n"
proof -
  obtain ca m where ca: "tile_expr opt \<rho> a (Suc n) = (ca, m)" by fastforce
  obtain cb k where cb: "tile_expr opt \<rho> b m = (cb, k)" by fastforce
  let ?lt = "uid_label ''L_true_'' n" and ?le = "uid_label ''L_end_'' n"
  let ?t = "ca @ [I_tst, I_bcc C_ne ?lt] @ cb @ [I_tst, I_bcc C_ne ?lt, I_moveq 0 0, I_bra ?le, I_label ?lt,
    I_moveq 1 0, I_label ?le]"
  show ?thesis
  proof (rule expr_tiledI)
    show "tile_expr opt \<rho> (IE_LOGOR a b) n = (?t, k)" using ca cb by (simp add: Let_def)
    fix pc assume at: "code_at P pc ?t"
    show "expr_sim E P fp \<rho> (IE_LOGOR a b) pc ?t"
      by (rule sim_logical [OF assms(1) ca assms(3) [OF ca] cb refl _ _ _ assms(2) at, where w = True])
        (use logor_evals in \<open>auto split: if_splits\<close>)
  qed
qed

lemma tiled_COND:
  assumes d: "distinct (labels_of P)" and a: "cond_tiled E P fp opt \<rho> a (uid_label ''L_else_'' n) False (Suc n)"
    and b: "\<And>ca m. tile_cond opt \<rho> a (uid_label ''L_else_'' n) False (Suc n) = (ca, m) \<Longrightarrow> expr_tiled E P fp opt \<rho> b m"
    and c: "\<And>ca m cb k. tile_cond opt \<rho> a (uid_label ''L_else_'' n) False (Suc n) = (ca, m) \<Longrightarrow>
      tile_expr opt \<rho> b m = (cb, k) \<Longrightarrow> expr_tiled E P fp opt \<rho> c k"
  shows "expr_tiled E P fp opt \<rho> (IE_COND a b c sz u) n"
proof -
  let ?ll = "uid_label ''L_else_'' n" and ?le = "uid_label ''L_end_'' n"
  obtain ca m where ca: "tile_cond opt \<rho> a ?ll False (Suc n) = (ca, m)" by fastforce
  obtain cb k where cb: "tile_expr opt \<rho> b m = (cb, k)" by fastforce
  obtain cc i where cc: "tile_expr opt \<rho> c k = (cc, i)" by fastforce
  let ?t = "ca @ cb @ [I_bra ?le, I_label ?ll] @ cc @ [I_label ?le]"
  show ?thesis
  proof (rule expr_tiledI)
    show "tile_expr opt \<rho> (IE_COND a b c sz u) n = (?t, i)" using ca cb cc by (simp add: Let_def)
    fix pc assume at: "code_at P pc ?t"
    let ?q = "pc + length ca + length cb"
    have lab: "find_label P ?ll = Some (?q + 1)" by (rule label_found [OF d]) (use at in simp)
    show "expr_sim E P fp \<rho> (IE_COND a b c sz u) pc ?t"
      by (rule sim_COND [OF cond_tiledD [OF a ca _ lab] expr_tiledD [OF b [OF ca] cb] expr_tiledD [OF c [OF ca cb] cc] _ d])
        (use at in simp_all)
  qed
qed

lemma tiled_CALL:
  assumes "args_tiled E P fp opt \<rho> args n" "length args < 8192" "nm \<noteq> None \<or> a \<noteq> None"
    and f: "\<And>f cs m. nm = None \<Longrightarrow> a = Some f \<Longrightarrow> tile_args opt \<rho> args n = (cs, m) \<Longrightarrow> expr_tiled E P fp opt \<rho> f m"
  shows "expr_tiled E P fp opt \<rho> (IE_CALL nm a args sz u) n"
proof -
  obtain cs m where cs: "tile_args opt \<rho> args n = (cs, m)" by fastforce
  let ?ca = "if args = [] then [] else [I_addsp (4 * int (length args))]"
  show ?thesis
  proof (cases nm)
    case (Some g)
    let ?t = "cs @ [I_jsr_sym g (length args)] @ ?ca"
    show ?thesis
    proof (rule expr_tiledI)
      show "tile_expr opt \<rho> (IE_CALL nm a args sz u) n = (?t, m)" using cs Some by simp
      fix pc assume "code_at P pc ?t"
      then show "expr_sim E P fp \<rho> (IE_CALL nm a args sz u) pc ?t"
        unfolding Some code_at_append
        by (intro sim_CALL_direct [OF args_tiledD [OF assms(1) cs] assms(2) _ refl]) (simp_all add: add.assoc)
    qed
  next
    case None
    with assms(3) obtain g where g: "a = Some g" by auto
    obtain cg k where cg: "tile_expr opt \<rho> g m = (cg, k)" by fastforce
    let ?t = "cs @ (cg @ [I_movea (Reg 0) 8, I_jsr_ind 8 (length args)]) @ ?ca"
    show ?thesis
    proof (rule expr_tiledI)
      show "tile_expr opt \<rho> (IE_CALL nm a args sz u) n = (?t, k)" using cs None g cg by simp
      fix pc assume at: "code_at P pc ?t"
      show "expr_sim E P fp \<rho> (IE_CALL nm a args sz u) pc ?t"
        unfolding None g
        by (rule sim_CALL_indirect [OF args_tiledD [OF assms(1) cs] assms(2) expr_tiledD [OF f [OF None g cs] cg] _ refl])
          (use at in \<open>simp_all add: add.assoc\<close>)
    qed
  qed
qed

lemma tiled_args_cons:
  assumes "args_tiled E P fp opt \<rho> es n"
    and "\<And>cs m. tile_args opt \<rho> es n = (cs, m) \<Longrightarrow> expr_tiled E P fp opt \<rho> e m"
  shows "args_tiled E P fp opt \<rho> (e # es) n"
proof -
  obtain cs m where cs: "tile_args opt \<rho> es n = (cs, m)" by fastforce
  obtain c k where c: "tile_expr opt \<rho> e m = (c, k)" by fastforce
  show ?thesis
  proof (rule args_tiledI)
    show "tile_args opt \<rho> (e # es) n = (cs @ c @ [I_push], k)" using cs c by simp
    fix pc assume "code_at P pc (cs @ c @ [I_push])"
    then show "args_sim E P fp \<rho> (e # es) pc (cs @ c @ [I_push])"
      by (intro args_cons [OF args_tiledD [OF assms(1) cs] expr_tiledD [OF assms(2) [OF cs] c]]) simp_all
  qed
qed

lemma tiled_VDEF:
  assumes "expr_tiled E P fp opt \<rho> a n" "reg_ok t"
  shows "expr_tiled E P fp opt \<rho> (IE_VDEF t a sz) n"
proof -
  obtain c m where c: "tile_expr opt \<rho> a n = (c, m)" by fastforce
  let ?d = "if t \<noteq> 0 then [move_to t] else []"
  show ?thesis
  proof (rule expr_tiledI)
    show "tile_expr opt \<rho> (IE_VDEF t a sz) n = (c @ ?d, m)" using c by simp
    fix pc assume "code_at P pc (c @ ?d)"
    then show "expr_sim E P fp \<rho> (IE_VDEF t a sz) pc (c @ ?d)"
      unfolding code_at_append by (elim conjE) (rule sim_VDEF [OF assms(2) expr_tiledD [OF assms(1) c] _ refl])
  qed
qed

section \<open>Conditions\<close>

lemma tiled_test:
  assumes "expr_tiled E P fp opt \<rho> e n"
    and t: "tile_cond opt \<rho> e l w n =
      (let (c, m) = tile_expr opt \<rho> e n in (c @ [I_tst, I_bcc (if w then C_ne else C_eq) l], m))"
  shows "cond_tiled E P fp opt \<rho> e l w n"
proof -
  obtain c m where c: "tile_expr opt \<rho> e n = (c, m)" by fastforce
  show ?thesis
  proof (rule cond_tiledI)
    show "tile_cond opt \<rho> e l w n = (c @ [I_tst, I_bcc (if w then C_ne else C_eq) l], m)" using c t by simp
    fix pc j assume "code_at P pc (c @ [I_tst, I_bcc (if w then C_ne else C_eq) l])" "find_label P l = Some j"
    then show "cond_sim E P fp \<rho> e pc (c @ [I_tst, I_bcc (if w then C_ne else C_eq) l]) w j"
      unfolding code_at_append by (elim conjE) (rule cond_test [OF expr_tiledD [OF assms(1) c]])
  qed
qed

lemma tiled_cond_UNARY:
  assumes "op = ND_NOT \<Longrightarrow> cond_tiled E P fp opt \<rho> a l (\<not> w) n"
    and "op \<noteq> ND_NOT \<Longrightarrow> expr_tiled E P fp opt \<rho> (IE_UNARY op a sz u) n"
  shows "cond_tiled E P fp opt \<rho> (IE_UNARY op a sz u) l w n"
proof (cases "op = ND_NOT")
  case True
  from assms(1) [OF this] show ?thesis
    using cond_NOT True by (auto simp: cond_tiled_def)
next
  case False
  from tiled_test [OF assms(2) [OF False]] False show ?thesis by simp
qed

text \<open>The four combinations of an operator and a truth value, in two pairs.\<close>

lemma tiled_cond_both:
  assumes a: "cond_tiled E P fp opt \<rho> a l w n"
    and b: "\<And>ca m. tile_cond opt \<rho> a l w n = (ca, m) \<Longrightarrow> cond_tiled E P fp opt \<rho> b l w m"
    and t: "tile_cond opt \<rho> e l w n =
      (let (ca, m) = tile_cond opt \<rho> a l w n; (cb, k) = tile_cond opt \<rho> b l w m in (ca @ cb, k))"
    and skip: "\<And>x \<sigma> \<sigma>1. (x, \<sigma>1) \<in> evals (me_target E) fp \<rho> a \<sigma> \<Longrightarrow> (x \<noteq> 0) = w \<Longrightarrow>
      (of_bool w, \<sigma>1) \<in> evals (me_target E) fp \<rho> e \<sigma>"
    and go: "\<And>x y \<sigma> \<sigma>1 \<sigma>2. (x, \<sigma>1) \<in> evals (me_target E) fp \<rho> a \<sigma> \<Longrightarrow> (x \<noteq> 0) \<noteq> w \<Longrightarrow>
      (y, \<sigma>2) \<in> evals (me_target E) fp \<rho> b \<sigma>1 \<Longrightarrow> (of_bool (y \<noteq> 0), \<sigma>2) \<in> evals (me_target E) fp \<rho> e \<sigma>"
  shows "cond_tiled E P fp opt \<rho> e l w n"
proof -
  obtain ca m where ca: "tile_cond opt \<rho> a l w n = (ca, m)" by fastforce
  obtain cb k where cb: "tile_cond opt \<rho> b l w m = (cb, k)" by fastforce
  show ?thesis
  proof (rule cond_tiledI)
    show "tile_cond opt \<rho> e l w n = (ca @ cb, k)" using t ca cb by simp
    fix pc j assume at: "code_at P pc (ca @ cb)" and j: "find_label P l = Some j"
    show "cond_sim E P fp \<rho> e pc (ca @ cb) w j"
      by (rule cond_both [OF cond_tiledD [OF a ca _ j] cond_tiledD [OF b [OF ca] cb _ j] skip go]) (use at in simp_all)
  qed
qed

lemma tiled_cond_skip:
  assumes d: "distinct (labels_of P)" and a: "cond_tiled E P fp opt \<rho> a sk (\<not> w) n'"
    and b: "\<And>ca m. tile_cond opt \<rho> a sk (\<not> w) n' = (ca, m) \<Longrightarrow> cond_tiled E P fp opt \<rho> b l w m"
    and t: "tile_cond opt \<rho> e l w n =
      (let (ca, m) = tile_cond opt \<rho> a sk (\<not> w) n'; (cb, k) = tile_cond opt \<rho> b l w m in (ca @ cb @ [I_label sk], k))"
    and skip: "\<And>x \<sigma> \<sigma>1. (x, \<sigma>1) \<in> evals (me_target E) fp \<rho> a \<sigma> \<Longrightarrow> (x \<noteq> 0) \<noteq> w \<Longrightarrow>
      (of_bool (\<not> w), \<sigma>1) \<in> evals (me_target E) fp \<rho> e \<sigma>"
    and go: "\<And>x y \<sigma> \<sigma>1 \<sigma>2. (x, \<sigma>1) \<in> evals (me_target E) fp \<rho> a \<sigma> \<Longrightarrow> (x \<noteq> 0) = w \<Longrightarrow>
      (y, \<sigma>2) \<in> evals (me_target E) fp \<rho> b \<sigma>1 \<Longrightarrow> (of_bool (y \<noteq> 0), \<sigma>2) \<in> evals (me_target E) fp \<rho> e \<sigma>"
  shows "cond_tiled E P fp opt \<rho> e l w n"
proof -
  obtain ca m where ca: "tile_cond opt \<rho> a sk (\<not> w) n' = (ca, m)" by fastforce
  obtain cb k where cb: "tile_cond opt \<rho> b l w m = (cb, k)" by fastforce
  show ?thesis
  proof (rule cond_tiledI)
    show "tile_cond opt \<rho> e l w n = (ca @ cb @ [I_label sk], k)" using t ca cb by simp
    fix pc j assume at: "code_at P pc (ca @ cb @ [I_label sk])" and j: "find_label P l = Some j"
    have at': "code_at P (pc + length ca + length cb) [I_label sk]" using at by simp
    show "cond_sim E P fp \<rho> e pc (ca @ cb @ [I_label sk]) w j"
      by (rule cond_skip [OF cond_tiledD [OF a ca _ label_found [OF d at']] cond_tiledD [OF b [OF ca] cb _ j] at' skip go])
        (use at in simp_all)
  qed
qed

lemma tiled_cond_LOGAND:
  assumes d: "distinct (labels_of P)"
    and "w \<Longrightarrow> cond_tiled E P fp opt \<rho> a (uid_label ''L_condskip_'' n) False (Suc n)"
    and "\<And>ca m. w \<Longrightarrow> tile_cond opt \<rho> a (uid_label ''L_condskip_'' n) False (Suc n) = (ca, m) \<Longrightarrow>
      cond_tiled E P fp opt \<rho> b l True m"
    and "\<not> w \<Longrightarrow> cond_tiled E P fp opt \<rho> a l False n"
    and "\<And>ca m. \<not> w \<Longrightarrow> tile_cond opt \<rho> a l False n = (ca, m) \<Longrightarrow> cond_tiled E P fp opt \<rho> b l False m"
  shows "cond_tiled E P fp opt \<rho> (IE_LOGAND a b) l w n"
proof (cases w)
  case True
  have w: "w = True" using True by simp
  show ?thesis unfolding w
  proof (rule tiled_cond_skip [OF d, where n' = "Suc n" and sk = "uid_label ''L_condskip_'' n" and a = a and b = b])
    show "(of_bool (\<not> True), \<sigma>1) \<in> evals (me_target E) fp \<rho> (IE_LOGAND a b) \<sigma>"
      if "(x, \<sigma>1) \<in> evals (me_target E) fp \<rho> a \<sigma>" "(x \<noteq> 0) \<noteq> True" for x \<sigma> \<sigma>1
      using logand_evals(1) [OF that(1), of b] that(2) by (simp del: evals.simps)
    show "(of_bool (y \<noteq> 0), \<sigma>2) \<in> evals (me_target E) fp \<rho> (IE_LOGAND a b) \<sigma>"
      if "(x, \<sigma>1) \<in> evals (me_target E) fp \<rho> a \<sigma>" "(x \<noteq> 0) = True" "(y, \<sigma>2) \<in> evals (me_target E) fp \<rho> b \<sigma>1"
      for x y \<sigma> \<sigma>1 \<sigma>2
      using logand_evals(2) [OF that(1) _ that(3)] that(2) by (simp del: evals.simps)
  qed (use assms(2,3) True in \<open>simp_all add: Let_def\<close>)
next
  case False
  have w: "w = False" using False by simp
  show ?thesis unfolding w
  proof (rule tiled_cond_both [where a = a and b = b])
    show "(of_bool (False), \<sigma>1) \<in> evals (me_target E) fp \<rho> (IE_LOGAND a b) \<sigma>"
      if "(x, \<sigma>1) \<in> evals (me_target E) fp \<rho> a \<sigma>" "(x \<noteq> 0) = False" for x \<sigma> \<sigma>1
      using logand_evals(1) [OF that(1), of b] that(2) by (simp del: evals.simps)
    show "(of_bool (y \<noteq> 0), \<sigma>2) \<in> evals (me_target E) fp \<rho> (IE_LOGAND a b) \<sigma>"
      if "(x, \<sigma>1) \<in> evals (me_target E) fp \<rho> a \<sigma>" "(x \<noteq> 0) \<noteq> False" "(y, \<sigma>2) \<in> evals (me_target E) fp \<rho> b \<sigma>1"
      for x y \<sigma> \<sigma>1 \<sigma>2
      using logand_evals(2) [OF that(1) _ that(3)] that(2) by (simp del: evals.simps)
  qed (use assms(4,5) False in \<open>simp_all add: Let_def\<close>)
qed

lemma tiled_cond_LOGOR:
  assumes d: "distinct (labels_of P)"
    and "w \<Longrightarrow> cond_tiled E P fp opt \<rho> a l True n"
    and "\<And>ca m. w \<Longrightarrow> tile_cond opt \<rho> a l True n = (ca, m) \<Longrightarrow> cond_tiled E P fp opt \<rho> b l True m"
    and "\<not> w \<Longrightarrow> cond_tiled E P fp opt \<rho> a (uid_label ''L_condskip_'' n) True (Suc n)"
    and "\<And>ca m. \<not> w \<Longrightarrow> tile_cond opt \<rho> a (uid_label ''L_condskip_'' n) True (Suc n) = (ca, m) \<Longrightarrow>
      cond_tiled E P fp opt \<rho> b l False m"
  shows "cond_tiled E P fp opt \<rho> (IE_LOGOR a b) l w n"
proof (cases w)
  case True
  have w: "w = True" using True by simp
  show ?thesis unfolding w
  proof (rule tiled_cond_both [where a = a and b = b])
    show "(of_bool (True), \<sigma>1) \<in> evals (me_target E) fp \<rho> (IE_LOGOR a b) \<sigma>"
      if "(x, \<sigma>1) \<in> evals (me_target E) fp \<rho> a \<sigma>" "(x \<noteq> 0) = True" for x \<sigma> \<sigma>1
      using logor_evals(1) [OF that(1), of b] that(2) by (simp del: evals.simps)
    show "(of_bool (y \<noteq> 0), \<sigma>2) \<in> evals (me_target E) fp \<rho> (IE_LOGOR a b) \<sigma>"
      if "(x, \<sigma>1) \<in> evals (me_target E) fp \<rho> a \<sigma>" "(x \<noteq> 0) \<noteq> True" "(y, \<sigma>2) \<in> evals (me_target E) fp \<rho> b \<sigma>1"
      for x y \<sigma> \<sigma>1 \<sigma>2
      using logor_evals(2) [OF that(1) _ that(3)] that(2) by (simp del: evals.simps)
  qed (use assms(2,3) True in \<open>simp_all add: Let_def\<close>)
next
  case False
  have w: "w = False" using False by simp
  show ?thesis unfolding w
  proof (rule tiled_cond_skip [OF d, where n' = "Suc n" and sk = "uid_label ''L_condskip_'' n" and a = a and b = b])
    show "(of_bool (\<not> False), \<sigma>1) \<in> evals (me_target E) fp \<rho> (IE_LOGOR a b) \<sigma>"
      if "(x, \<sigma>1) \<in> evals (me_target E) fp \<rho> a \<sigma>" "(x \<noteq> 0) \<noteq> False" for x \<sigma> \<sigma>1
      using logor_evals(1) [OF that(1), of b] that(2) by (simp del: evals.simps)
    show "(of_bool (y \<noteq> 0), \<sigma>2) \<in> evals (me_target E) fp \<rho> (IE_LOGOR a b) \<sigma>"
      if "(x, \<sigma>1) \<in> evals (me_target E) fp \<rho> a \<sigma>" "(x \<noteq> 0) = False" "(y, \<sigma>2) \<in> evals (me_target E) fp \<rho> b \<sigma>1"
      for x y \<sigma> \<sigma>1 \<sigma>2
      using logor_evals(2) [OF that(1) _ that(3)] that(2) by (simp del: evals.simps)
  qed (use assms(4,5) False in \<open>simp_all add: Let_def\<close>)
qed

lemma tiled_cond_BINOP:
  assumes wf: "wf_expr \<rho> a" "wf_expr \<rho> b"
    and b: "is_rel op \<Longrightarrow> cond_plan \<rho> op a b = None \<Longrightarrow> expr_tiled E P fp opt \<rho> b n"
    and a: "\<And>cb m. is_rel op \<Longrightarrow> cond_plan \<rho> op a b = None \<Longrightarrow> tile_expr opt \<rho> b n = (cb, m) \<Longrightarrow> expr_tiled E P fp opt \<rho> a m"
    and p: "\<And>right i r. is_rel op \<Longrightarrow> cond_plan \<rho> op a b = Some (right, i, r) \<Longrightarrow>
      expr_tiled E P fp opt \<rho> (if right then b else a) n"
    and e: "\<not> is_rel op \<Longrightarrow> expr_tiled E P fp opt \<rho> (IE_BINOP op a b sz u pa) n"
  shows "cond_tiled E P fp opt \<rho> (IE_BINOP op a b sz u pa) l w n"
proof (cases "is_rel op")
  case False
  from tiled_test [OF e [OF False]] False show ?thesis by (simp add: is_rel_def)
next
  case rel: True
  show ?thesis
  proof (cases "cond_plan \<rho> op a b")
    case None
    obtain cb m where cb: "tile_expr opt \<rho> b n = (cb, m)" by fastforce
    obtain ca k where ca: "tile_expr opt \<rho> a m = (ca, k)" by fastforce
    let ?t = "cb @ [I_push] @ ca @ [I_pop 1, I_cmp (Reg 1), I_bcc (bcc_mnem (if w then rel_of op else rel_negate (rel_of op)) u) l]"
    show ?thesis
    proof (rule cond_tiledI)
      show "tile_cond opt \<rho> (IE_BINOP op a b sz u pa) l w n = (?t, k)" using rel None ca cb by (simp add: is_rel_def)
      fix pc j assume at: "code_at P pc ?t" and j: "find_label P l = Some j"
      show "cond_sim E P fp \<rho> (IE_BINOP op a b sz u pa) pc ?t w j"
        by (rule cond_BINOP [OF rel expr_tiledD [OF b [OF rel None] cb] expr_tiledD [OF a [OF rel None cb] ca] refl _ j])
          (use at in simp_all)
    qed
  next
    case (Some plan)
    obtain right i r where pl: "plan = (right, i, r)" by (cases plan)
    obtain c m where c: "tile_expr opt \<rho> (if right then b else a) n = (c, m)" by fastforce
    let ?t = "c @ [i, I_bcc (bcc_mnem (if w then r else rel_negate r) u) l]"
    show ?thesis
    proof (rule cond_tiledI)
      show "tile_cond opt \<rho> (IE_BINOP op a b sz u pa) l w n = (?t, m)"
        using rel Some pl c by (cases right; simp add: is_rel_def)
      fix pc j assume at: "code_at P pc ?t" and j: "find_label P l = Some j"
      show "cond_sim E P fp \<rho> (IE_BINOP op a b sz u pa) pc ?t w j"
        by (rule cond_BINOP_plan [OF rel Some [unfolded pl] wf expr_tiledD [OF p [OF rel Some [unfolded pl]] c] _ j])
          (use at in simp_all)
    qed
  qed
qed

section \<open>The selector\<close>

lemma indexed_parts_wf: "indexed_parts sz a = Some (x, y) \<Longrightarrow> wf_expr \<rho> a \<Longrightarrow> wf_expr \<rho> x \<and> wf_expr \<rho> y"
  by (cases a) (auto simp: indexed_parts_def split: if_splits)

lemma is_rel_iff: "op = ND_EQ \<or> op = ND_NE \<or> op = ND_LT \<or> op = ND_LE \<longleftrightarrow> is_rel op"
  by (simp add: is_rel_def)

lemma tiled_leaf:
  assumes "distinct (labels_of P)"
  shows "expr_tiled E P fp opt \<rho> IE_NOP n" "expr_tiled E P fp opt \<rho> (IE_NUM v sz u) n"
    "expr_tiled E P fp opt \<rho> (IE_LEA is_local off name var) n"
    "reg_ok (\<rho> var) \<Longrightarrow> 1 \<le> sz \<Longrightarrow> sz \<le> 65536 \<Longrightarrow> expr_tiled E P fp opt \<rho> (IE_MEMZERO var off sz) n"
    "reg_ok t \<Longrightarrow> expr_tiled E P fp opt \<rho> (IE_VUSE t sz) n"
  unfolding expr_tiled_def
  using sim_NOP sim_NUM sim_LEA [OF _ refl] sim_MEMZERO [OF _ _ _ refl _ assms] sim_VUSE [OF _ _ refl] by auto

lemma tiled:
  assumes d: "distinct (labels_of P)" and rt: "runtime_ok E"
  shows "wf_expr \<rho> e \<Longrightarrow> expr_tiled E P fp opt \<rho> e n"
    and "wf_expr \<rho> e' \<Longrightarrow> cond_tiled E P fp opt \<rho> e' l w n"
    and "\<forall>x \<in> set es. wf_expr \<rho> x \<Longrightarrow> args_tiled E P fp opt \<rho> es n"
proof (induction opt \<rho> e n and opt \<rho> e' l w n and opt \<rho> es n rule: tile_expr_tile_cond_tile_args.induct)
  case (4 opt \<rho> a sz u n)
  show ?case
    by (rule tiled_LOAD) (use 4 indexed_parts_wf in auto)
next
  case (5 opt \<rho> a b sz u n)
  show ?case
    by (rule tiled_STORE; cases "lea_reg \<rho> a = 0") (use 5 in auto)
next
  case (6 opt \<rho> op a b sz u pa n)
  show ?case
    by (rule tiled_BINOP [OF _ _ _ rt d]) (use 6 in auto)
next
  case (8 opt \<rho> a b n)
  show ?case
    by (rule tiled_LOGAND [OF _ d]) (use 8 in auto)
next
  case (9 opt \<rho> a b n)
  show ?case
    by (rule tiled_LOGOR [OF _ d]) (use 9 in auto)
next
  case (10 opt \<rho> a b c sz u n)
  show ?case
    by (rule tiled_COND [OF d]) (use 10 in auto)
next
  case (11 opt \<rho> a b sz u n)
  show ?case
    by (rule tiled_COMMA) (use 11 in auto)
next
  case (13 opt \<rho> nm a args sz u n)
  show ?case
    by (rule tiled_CALL) (use 13 in auto)
next
  case (17 opt \<rho> op a sz u l w n)
  show ?case
    by (rule tiled_cond_UNARY) (use 17 in auto)
next
  case (18 opt \<rho> a b l w n)
  show ?case
    by (rule tiled_cond_LOGAND [OF d]) (use 18 in auto)
next
  case (19 opt \<rho> a b l w n)
  show ?case
    by (rule tiled_cond_LOGOR [OF d]) (use 19 in auto)
next
  case (20 opt \<rho> op a b sz u pa l w n)
  show ?case
    by (rule tiled_cond_BINOP) (use 20 in \<open>auto simp: is_rel_iff\<close>)
qed (auto intro!: tiled_leaf [OF d] tiled_UNARY tiled_CAST tiled_VDEF tiled_test args_tiledI args_nil tiled_args_cons simp del: wf_expr.simps simp: wf_expr.simps)

end
