(* ===== verification/Tile_Labels.thy ===== *)
theory Tile_Labels
  imports Tile_Tail
begin

text \<open>
  The labels of emitted code: every number that \<open>cg_uid\<close> hands out is used for one tile, so the labels
  of a function body are distinct and the branches of the tiles are not captured by other labels.
\<close>

section \<open>Decimal numbers\<close>

definition digit_val :: "char \<Rightarrow> nat" where "digit_val c = of_char c - 48"

definition is_digit :: "char \<Rightarrow> bool" where "is_digit c \<longleftrightarrow> (48::nat) \<le> of_char c \<and> of_char c \<le> (57::nat)"

lemma digit_char_val: "n < 10 \<Longrightarrow> digit_val (digit_char n) = n \<and> is_digit (digit_char n)"
  by (simp add: digit_char_def digit_val_def is_digit_def)

lemma show_nat_digits: "c \<in> set (show_nat n) \<Longrightarrow> is_digit c"
proof (induction n rule: show_nat.induct)
  case (1 n)
  then show ?case by (cases "n < 10") (auto simp: show_nat.simps [of n] digit_char_val)
qed

lemma show_nat_val: "foldl (\<lambda>k c. 10 * k + digit_val c) 0 (show_nat n) = n"
proof (induction n rule: show_nat.induct)
  case (1 n)
  then show ?case by (cases "n < 10") (auto simp: show_nat.simps [of n] digit_char_val)
qed

lemma show_nat_inject: "show_nat a = show_nat b \<longleftrightarrow> a = b"
  using show_nat_val by metis

text \<open>A generated label determines its prefix and its number, as no prefix ends in a digit.\<close>

lemma uid_label_inject:
  assumes "uid_label p a = uid_label q b" "p \<noteq> []" "q \<noteq> []" "\<not> is_digit (last p)" "\<not> is_digit (last q)"
  shows "p = q \<and> a = b"
proof -
  have t: "takeWhile is_digit (rev (uid_label r k)) = rev (show_nat k)" if "r \<noteq> []" "\<not> is_digit (last r)" for r k
  proof -
    have "takeWhile is_digit (rev (show_nat k) @ rev r) = rev (show_nat k) @ takeWhile is_digit (rev r)"
      using show_nat_digits by (intro takeWhile_append2) simp
    moreover have "takeWhile is_digit (rev r) = []" using that by (cases r rule: rev_cases) simp_all
    ultimately show ?thesis by (simp add: uid_label_def)
  qed
  have "rev (show_nat a) = rev (show_nat b)" using t [OF assms(2,4), of a] t [OF assms(3,5), of b] assms(1) by simp
  then have "a = b" by (simp add: show_nat_inject)
  then show ?thesis using assms(1) by (simp add: uid_label_def)
qed

section \<open>The labels of the emitted code\<close>

definition tile_prefixes :: "string set" where
  "tile_prefixes = {''L_false_'', ''L_true_'', ''L_end_'', ''L_else_'', ''L_condskip_'', ''L_sdiv_'',
     ''L_smod_'', ''L_smodx_'', ''L_memzero_''}"

definition gen_labels :: "nat \<Rightarrow> nat \<Rightarrow> string set" where
  "gen_labels n m = {uid_label p k | p k. p \<in> tile_prefixes \<and> n \<le> k \<and> k < m}"

lemma tile_uid_inject:
  "p \<in> tile_prefixes \<Longrightarrow> q \<in> tile_prefixes \<Longrightarrow> uid_label p a = uid_label q b \<longleftrightarrow> p = q \<and> a = b"
proof -
  assume "p \<in> tile_prefixes" "q \<in> tile_prefixes"
  then have "p \<noteq> [] \<and> \<not> is_digit (last p)" "q \<noteq> [] \<and> \<not> is_digit (last q)"
    by (auto simp: tile_prefixes_def is_digit_def)
  then show ?thesis using uid_label_inject [of p a q b] by auto
qed

lemma gen_labels_disjoint: "m \<le> k \<Longrightarrow> gen_labels n m \<inter> gen_labels k j = {}"
  by (auto simp: gen_labels_def tile_uid_inject)

lemma gen_labels_mono: "n \<le> n' \<Longrightarrow> m' \<le> m \<Longrightarrow> gen_labels n' m' \<subseteq> gen_labels n m"
  unfolding gen_labels_def by fastforce

lemma gen_labelsI: "p \<in> tile_prefixes \<Longrightarrow> n \<le> k \<Longrightarrow> k < m \<Longrightarrow> uid_label p k \<in> gen_labels n m"
  by (auto simp: gen_labels_def)

text \<open>Code with its own labels, all of them generated from the numbers it took.\<close>

definition fresh_code :: "nat \<Rightarrow> instr list \<Rightarrow> nat \<Rightarrow> bool" where
  "fresh_code n c m \<longleftrightarrow> n \<le> m \<and> distinct (labels_of c) \<and> set (labels_of c) \<subseteq> gen_labels n m"

lemma fresh_nil [simp]: "labels_of c = [] \<Longrightarrow> fresh_code n c n"
  by (simp add: fresh_code_def)

lemma fresh_append: "fresh_code n a m \<Longrightarrow> fresh_code m b k \<Longrightarrow> fresh_code n (a @ b) k"
  unfolding fresh_code_def using gen_labels_disjoint [of m m n k] gen_labels_mono [of n n m k] gen_labels_mono [of n m k k]
  by auto

lemma fresh_labels: "fresh_code n c m \<Longrightarrow> labels_of d = labels_of c \<Longrightarrow> fresh_code n d m"
  by (simp add: fresh_code_def)

text \<open>Code that takes the number \<open>n\<close> for labels of its own, placed around the code of the operands.\<close>

lemma fresh_around:
  assumes "fresh_code (Suc n) c m" "labels_of d = xs @ labels_of c @ ys" "distinct (xs @ ys)"
    and "set (xs @ ys) \<subseteq> gen_labels n (Suc n)"
  shows "fresh_code n d m"
proof -
  have "set (xs @ ys) \<inter> set (labels_of c) = {}"
    using assms(1,4) gen_labels_disjoint [of "Suc n" "Suc n" n m] unfolding fresh_code_def by blast
  then show ?thesis
    using assms gen_labels_mono [of n n "Suc n" m] gen_labels_mono [of n "Suc n" m m] unfolding fresh_code_def by auto
qed

section \<open>Every tile is fresh\<close>

lemma no_labels [simp]:
  "labels_of (add_imm c) = []" "labels_of (shift_by sh k) = []" "labels_of (materialize cc) = []"
  "labels_of (load_imm v) = []" "labels_of (cast_int_narrow sz u) = []" "labels_of (emit_load_from_a0 sz u) = []"
  "labels_of (op_tail op u) = []"
  by (simp_all add: add_imm_def shift_by_def materialize_def load_imm_def cast_int_narrow_def emit_load_from_a0_def
      op_tail_def labels_of_Cons)

lemma labels_const_tile:
  "const_tile opt op u c n = Some (k, t) \<Longrightarrow>
   if k then distinct (labels_of t) \<and> set (labels_of t) \<subseteq> gen_labels n (Suc n) else labels_of t = []"
  by (auto simp: const_tile_def labels_of_Cons tile_uid_inject tile_prefixes_def Let_def intro!: gen_labelsI split: if_splits)

lemma labels_const_tile_left:
  "const_tile_left opt op u c n = Some (k, t) \<Longrightarrow>
   if k then distinct (labels_of t) \<and> set (labels_of t) \<subseteq> gen_labels n (Suc n) else labels_of t = []"
  using labels_const_tile [of opt op u c n k t]
  by (auto simp: const_tile_left_def labels_of_Cons split: if_splits)

lemma labels_mem_tile: "mem_tile \<rho> op u b = Some t \<Longrightarrow> labels_of t = []"
  by (auto simp: mem_tile_def labels_of_Cons split: option.splits if_splits)

lemma labels_binop_plan:
  "binop_plan opt \<rho> op u a b n = Some (right, k, t) \<Longrightarrow>
   if k then distinct (labels_of t) \<and> set (labels_of t) \<subseteq> gen_labels n (Suc n) else labels_of t = []"
  using labels_const_tile labels_const_tile_left labels_mem_tile
  by (fastforce simp: binop_plan_def split: option.splits)

lemma fresh_plan:
  assumes "binop_plan opt \<rho> op u a b n = Some (right, k, t)" "fresh_code (if k then Suc n else n) c m"
  shows "fresh_code n (c @ t) m"
proof (cases k)
  case True
  show ?thesis by (rule fresh_around [of n c m _ "[]" "labels_of t"])
      (use assms(2) labels_binop_plan [OF assms(1)] True in simp_all)
next
  case False
  then show ?thesis using fresh_labels [of n c m "c @ t"] assms(2) labels_binop_plan [OF assms(1)] by simp
qed

lemma fresh_MEMZERO: "fresh_code n (fst (tile_memzero opt \<rho> var off sz n)) (snd (tile_memzero opt \<rho> var off sz n))"
proof -
  have l: "labels_of (fst (clr_longs off sz p)) = []" for p
  proof (induction off sz p rule: clr_longs.induct)
    case (1 off sz p)
    then show ?case by (auto simp: clr_longs.simps [of off sz p] labels_of_Cons split: prod.splits)
  qed
  have u: "labels_of (clr_unrolled off sz) = []"
    using l [of 0] by (auto simp: clr_unrolled_def Let_def labels_of_Cons split: prod.splits)
  have "uid_label ''L_memzero_'' n \<in> gen_labels n (Suc n)" by (rule gen_labelsI) (simp_all add: tile_prefixes_def)
  then show ?thesis using u by (simp add: tile_memzero_def labels_of_Cons) (simp add: fresh_code_def labels_of_Cons)
qed

text \<open>Two parts in a row, with labels of the tile itself after them.\<close>

lemma fresh_pair:
  assumes "fresh_code (Suc n) ca m" "fresh_code m cb k" "labels_of t = labels_of ca @ labels_of cb @ map (\<lambda>p. uid_label p n) ps"
    and "distinct ps" "set ps \<subseteq> tile_prefixes"
  shows "fresh_code n t k"
proof (rule fresh_around [OF fresh_append [OF assms(1,2)], of _ "[]"])
  show "labels_of t = [] @ labels_of (ca @ cb) @ map (\<lambda>p. uid_label p n) ps" using assms(3) by simp
  have "inj_on (\<lambda>p. uid_label p n) (set ps)" using assms(5) tile_uid_inject by (intro inj_onI) blast
  then show "distinct ([] @ map (\<lambda>p. uid_label p n) ps)" using assms(4) by (simp add: distinct_map)
  show "set ([] @ map (\<lambda>p. uid_label p n) ps) \<subseteq> gen_labels n (Suc n)" using assms(5) by (auto intro: gen_labelsI)
qed

lemma fresh_tiles:
  "fresh_code n (fst (tile_expr opt \<rho> e n)) (snd (tile_expr opt \<rho> e n))"
  "fresh_code n (fst (tile_cond opt \<rho> e' l w n)) (snd (tile_cond opt \<rho> e' l w n))"
  "fresh_code n (fst (tile_args opt \<rho> es n)) (snd (tile_args opt \<rho> es n))"
proof (induction opt \<rho> e n and opt \<rho> e' l w n and opt \<rho> es n rule: tile_expr_tile_cond_tile_args.induct)
  case (4 opt \<rho> a sz u n)
  show ?case
  proof (cases "indexed_parts sz a")
    case None
    then show ?thesis using 4(1) by (auto simp: fresh_code_def labels_of_Cons split: prod.splits)
  next
    case (Some xy)
    obtain x y where xy: "xy = (x, y)" by fastforce
    obtain cy m where cy: "tile_expr opt \<rho> y n = (cy, m)" by fastforce
    obtain cx k where cx: "tile_expr opt \<rho> x m = (cx, k)" by fastforce
    show ?thesis
    proof (cases "lea_reg \<rho> a = 0")
      case True
      have "fresh_code n cy m" using 4(2) [OF _ Some xy [symmetric]] True cy by simp
      moreover have "fresh_code m cx k" using 4(3) [OF _ Some xy [symmetric] refl cy [symmetric]] True cx by simp
      ultimately have "fresh_code n (cy @ cx) k" by (rule fresh_append)
      then show ?thesis using True Some xy cy cx by (auto simp: fresh_code_def labels_of_Cons)
    qed (simp add: labels_of_Cons)
  qed
next
  case (5 opt \<rho> a b sz u n)
  obtain cb k where cb: "tile_expr opt \<rho> b n = (cb, k)" by fastforce
  have mv: "labels_of [move_to r] = []" for r by (simp add: move_to_def labels_of_Cons)
  consider "lea_reg \<rho> a \<noteq> 0" | x where "lea_reg \<rho> a = 0" "direct_store a sz = Some x"
    | "lea_reg \<rho> a = 0" "direct_store a sz = None" by fastforce
  then show ?case
  proof cases
    case 1
    then show ?thesis using 5(1) cb mv by (auto simp: fresh_code_def labels_of_Cons)
  next
    case 2
    then show ?thesis using 5(4) cb by (auto simp: fresh_code_def labels_of_Cons)
  next
    case 3
    obtain ca m where ca: "tile_expr opt \<rho> a n = (ca, m)" by fastforce
    obtain cb k where cb: "tile_expr opt \<rho> b m = (cb, k)" by fastforce
    have "fresh_code n ca m" using 5(2) 3 ca by simp
    moreover have "fresh_code m cb k" using 5(3) [OF _ _ refl ca [symmetric]] 3 cb by simp
    ultimately have "fresh_code n (ca @ cb) k" by (rule fresh_append)
    then show ?thesis using 3 ca cb by (auto simp: fresh_code_def labels_of_Cons)
  qed
next
  case (6 opt \<rho> op a b sz u pa n)
  show ?case
  proof (cases "binop_plan opt \<rho> op u a b n")
    case None
    obtain cb m where cb: "tile_expr opt \<rho> b n = (cb, m)" by fastforce
    obtain ca k where ca: "tile_expr opt \<rho> a m = (ca, k)" by fastforce
    have "fresh_code n cb m" using 6(1) None cb by simp
    moreover have "fresh_code m ca k" using 6(2) [OF None refl cb [symmetric]] ca by simp
    ultimately have "fresh_code n (cb @ ca) k" by (rule fresh_append)
    then show ?thesis using None ca cb by (auto simp: fresh_code_def labels_of_Cons)
  next
    case (Some plan)
    obtain right k t where p: "plan = (right, k, t)" by (cases plan)
    show ?thesis using 6 Some fresh_plan [OF Some [unfolded p]] p by (auto split: prod.splits)
  qed
next
  case (8 opt \<rho> a b n)
  obtain ca m where ca: "tile_expr opt \<rho> a (Suc n) = (ca, m)" by fastforce
  obtain cb k where cb: "tile_expr opt \<rho> b m = (cb, k)" by fastforce
  show ?case
    by (simp add: ca cb Let_def, rule fresh_pair [of n ca m cb k _ "[''L_false_'', ''L_end_'']"])
      (use 8 ca cb in \<open>simp_all add: labels_of_Cons tile_prefixes_def\<close>)
next
  case (9 opt \<rho> a b n)
  obtain ca m where ca: "tile_expr opt \<rho> a (Suc n) = (ca, m)" by fastforce
  obtain cb k where cb: "tile_expr opt \<rho> b m = (cb, k)" by fastforce
  show ?case
    by (simp add: ca cb Let_def, rule fresh_pair [of n ca m cb k _ "[''L_true_'', ''L_end_'']"])
      (use 9 ca cb in \<open>simp_all add: labels_of_Cons tile_prefixes_def\<close>)
next
  case (10 opt \<rho> a b c sz u n)
  let ?ll = "uid_label ''L_else_'' n" and ?le = "uid_label ''L_end_'' n"
  obtain ca m where ca: "tile_cond opt \<rho> a ?ll False (Suc n) = (ca, m)" by fastforce
  obtain cb k where cb: "tile_expr opt \<rho> b m = (cb, k)" by fastforce
  obtain cc i where cc: "tile_expr opt \<rho> c k = (cc, i)" by fastforce
  have f: "fresh_code (Suc n) ca m" "fresh_code m cb k" "fresh_code k cc i"
    using 10 [OF refl refl] ca cb cc by auto
  let ?t = "ca @ cb @ [I_bra ?le, I_label ?ll] @ cc @ [I_label ?le]"
  have own: "?ll \<noteq> ?le" "{?ll, ?le} \<subseteq> gen_labels n (Suc n)"
    by (auto simp: tile_uid_inject tile_prefixes_def intro!: gen_labelsI)
  have f3: "fresh_code (Suc n) (ca @ cb @ cc) i" using fresh_append [OF f(1) fresh_append [OF f(2,3)]] .
  have i: "Suc n \<le> i" using f3 by (simp add: fresh_code_def)
  have "?ll \<notin> gen_labels (Suc n) i \<and> ?le \<notin> gen_labels (Suc n) i"
    using own(2) gen_labels_disjoint [of "Suc n" "Suc n" n i] by auto
  then have "?ll \<notin> set (labels_of (ca @ cb @ cc)) \<and> ?le \<notin> set (labels_of (ca @ cb @ cc))"
    using f3 unfolding fresh_code_def by blast
  then have "distinct (labels_of ?t)" using f3 own(1) by (auto simp: fresh_code_def labels_of_Cons)
  moreover have "set (labels_of ?t) = set (labels_of (ca @ cb @ cc)) \<union> {?ll, ?le}" by (auto simp: labels_of_Cons)
  then have "set (labels_of ?t) \<subseteq> gen_labels n i"
    using f3 own(2) gen_labels_mono [of n n "Suc n" i] gen_labels_mono [of n "Suc n" i i] i
    unfolding fresh_code_def by auto
  ultimately have "fresh_code n ?t i" using i by (simp add: fresh_code_def)
  then show ?case by (simp add: ca cb cc Let_def)
next
  case (14 opt \<rho> var off sz n)
  show ?case using fresh_MEMZERO by simp
next
  case (18 opt \<rho> a b l w n)
  show ?case
  proof (cases w)
    case True
    let ?sk = "uid_label ''L_condskip_'' n"
    obtain ca m where ca: "tile_cond opt \<rho> a ?sk False (Suc n) = (ca, m)" by fastforce
    obtain cb k where cb: "tile_cond opt \<rho> b l True m = (cb, k)" by fastforce
    show ?thesis
      by (simp add: True ca cb Let_def, rule fresh_pair [of n ca m cb k _ "[''L_condskip_'']"])
        (use 18 True ca cb in \<open>simp_all add: labels_of_Cons tile_prefixes_def\<close>)
  qed (use 18 in \<open>auto intro!: fresh_append split: prod.splits\<close>)
next
  case (19 opt \<rho> a b l w n)
  show ?case
  proof (cases w)
    case False
    let ?sk = "uid_label ''L_condskip_'' n"
    obtain ca m where ca: "tile_cond opt \<rho> a ?sk True (Suc n) = (ca, m)" by fastforce
    obtain cb k where cb: "tile_cond opt \<rho> b l False m = (cb, k)" by fastforce
    show ?thesis
      by (simp add: False ca cb Let_def, rule fresh_pair [of n ca m cb k _ "[''L_condskip_'']"])
        (use 19 False ca cb in \<open>simp_all add: labels_of_Cons tile_prefixes_def\<close>)
  qed (use 19 in \<open>auto intro!: fresh_append split: prod.splits\<close>)
next
  case (13 opt \<rho> nm a args sz u n)
  obtain cs m where cs: "tile_args opt \<rho> args n = (cs, m)" by fastforce
  have f: "fresh_code n cs m" using 13(1) cs by simp
  show ?case
  proof (cases "nm = None \<and> a \<noteq> None")
    case True
    then obtain g where g: "a = Some g" by auto
    obtain cg k where cg: "tile_expr opt \<rho> g m = (cg, k)" by fastforce
    have "fresh_code m cg k" using 13(2) [OF refl cs [symmetric] _ g] True cg by simp
    with f have "fresh_code n (cs @ cg) k" by (rule fresh_append)
    then show ?thesis using True g cs cg by (auto simp: fresh_code_def labels_of_Cons)
  next
    case False
    then show ?thesis using f cs by (cases nm) (auto simp: fresh_code_def labels_of_Cons)
  qed
next
  case (20 opt \<rho> op a b sz u pa l w n)
  show ?case
  proof (cases "op = ND_EQ \<or> op = ND_NE \<or> op = ND_LT \<or> op = ND_LE")
    case rel: True
    show ?thesis
    proof (cases "cond_plan \<rho> op a b")
      case None
      obtain cb m where cb: "tile_expr opt \<rho> b n = (cb, m)" by fastforce
      obtain ca k where ca: "tile_expr opt \<rho> a m = (ca, k)" by fastforce
      have "fresh_code n cb m" using 20(1) rel None cb by simp
      moreover have "fresh_code m ca k" using 20(2) [OF rel None refl cb [symmetric]] ca by simp
      ultimately have "fresh_code n (cb @ ca) k" by (rule fresh_append)
      then show ?thesis using None rel ca cb by (simp add: fresh_code_def labels_of_Cons)
    next
      case (Some plan)
      obtain right i r where p: "plan = (right, i, r)" by (cases plan)
      have i: "labels_of [i, I_bcc cc l] = []" for cc
        using Some p by (auto simp: cond_plan_def labels_of_Cons split: option.splits if_splits)
      obtain c m where c: "tile_expr opt \<rho> (if right then b else a) n = (c, m)" by fastforce
      have "fresh_code n c m" using 20(3,4) rel Some p c by (cases right) auto
      then show ?thesis using rel Some p c i by (cases right; simp add: fresh_code_def)
    qed
  next
    case False
    then show ?thesis using 20(5) by (auto simp: fresh_code_def labels_of_Cons split: prod.splits)
  qed
next
  case (7 opt \<rho> op a sz u n)
  then show ?case by (auto simp: fresh_code_def labels_of_Cons split: prod.splits)
next
  case (11 opt \<rho> a b sz u n)
  then show ?case by (auto intro!: fresh_append split: prod.splits)
next
  case (12 opt \<rho> op a sz u fs fu n)
  then show ?case by (auto simp: fresh_code_def labels_of_Cons split: prod.splits)
next
  case (15 opt \<rho> t a sz n)
  then show ?case by (auto simp: fresh_code_def labels_of_Cons move_to_def split: prod.splits)
next
  case (23 opt \<rho> x xs n)
  obtain cs m where cs: "tile_args opt \<rho> xs n = (cs, m)" by fastforce
  obtain c k where c: "tile_expr opt \<rho> x m = (c, k)" by fastforce
  have "fresh_code n cs m" using 23(1) cs by simp
  moreover have "fresh_code m c k" using 23(2) [OF refl cs [symmetric]] c by simp
  ultimately have "fresh_code n (cs @ c) k" by (rule fresh_append)
  then show ?case using cs c by (auto simp: fresh_code_def labels_of_Cons)
qed (auto simp: fresh_code_def labels_of_Cons split: prod.splits)

end
