(* ===== verification/Tile_Emit.thy ===== *)
theory Tile_Emit
  imports Tile_Main Tile_Labels Ir_Opt
begin

text \<open>
  A function body: the items are emitted in order (\<open>ir_emit_built\<close>) and the code runs as the item list
  does.
\<close>

section \<open>Emission by blocks\<close>

text \<open>\<open>ir_emit_built\<close> walks the blocks of the graph; they partition the items, so the result is the list's.\<close>

primrec emit_blocks :: "nat \<Rightarrow> promotion \<Rightarrow> string \<Rightarrow> ir_item list \<Rightarrow> ir_block list \<Rightarrow> nat \<Rightarrow> instr list \<times> nat" where
  "emit_blocks opt \<rho> fn its [] n = ([], n)"
| "emit_blocks opt \<rho> fn its (b # bs) n =
     (let (c, m) = emit_items opt \<rho> fn (take (bl_end b - bl_start b) (drop (bl_start b) its)) n;
          (cs, k) = emit_blocks opt \<rho> fn its bs m
      in (c @ cs, k))"

lemma emit_items_append:
  "emit_items opt \<rho> fn (a @ b) n =
     (let (c, m) = emit_items opt \<rho> fn a n; (d, k) = emit_items opt \<rho> fn b m in (c @ d, k))"
  by (induction a arbitrary: n) (simp_all add: Let_def split: prod.splits)

lemma emit_blocks_items:
  "emit_blocks opt \<rho> fn its bs n =
     emit_items opt \<rho> fn (concat (map (\<lambda>b. take (bl_end b - bl_start b) (drop (bl_start b) its)) bs)) n"
  by (induction bs arbitrary: n) (simp_all add: emit_items_append)

lemma slice_nth: "(\<And>i. i \<in> set [s..<e] \<Longrightarrow> i < length xs) \<Longrightarrow> take (e - s) (drop s xs) = map ((!) xs) [s..<e]"
proof (cases "s < e")
  case True
  assume b: "\<And>i. i \<in> set [s..<e] \<Longrightarrow> i < length xs"
  have "e - 1 \<in> set [s..<e]" using True by auto
  from b [OF this] have "e \<le> length xs" by simp
  then show ?thesis by (intro nth_equalityI) auto
qed simp

lemma slices_concat:
  "(\<And>i. i \<in> set (concat (map (\<lambda>b. [bl_start b..<bl_end b]) bs)) \<Longrightarrow> i < length xs) \<Longrightarrow>
   concat (map (\<lambda>b. take (bl_end b - bl_start b) (drop (bl_start b) xs)) bs) =
   map ((!) xs) (concat (map (\<lambda>b. [bl_start b..<bl_end b]) bs))"
proof (induction bs)
  case (Cons b bs)
  have "take (bl_end b - bl_start b) (drop (bl_start b) xs) = map ((!) xs) [bl_start b..<bl_end b]"
    by (rule slice_nth) (use Cons.prems in auto)
  then show ?case using Cons by simp
qed simp

text \<open>The blocks are those of the list before the optimizer, which rewrites items in place.\<close>

lemma emit_blocks_cfg:
  assumes "length its = length P"
  shows "emit_blocks opt \<rho> fn its (ir_build_cfg P) n = emit_items opt \<rho> fn its n"
proof -
  have c: "concat (map (\<lambda>b. [bl_start b..<bl_end b]) (ir_build_cfg P)) = [0..<length P]" by (rule cfg_ranges_concat)
  have "concat (map (\<lambda>b. take (bl_end b - bl_start b) (drop (bl_start b) its)) (ir_build_cfg P)) =
      map ((!) its) [0..<length P]"
    using slices_concat [of "ir_build_cfg P" its, unfolded c] assms by simp
  also have "\<dots> = its" using assms map_nth [of its] by simp
  finally show ?thesis by (simp add: emit_blocks_items)
qed

section \<open>Items in the code\<close>

definition item_pos :: "nat \<Rightarrow> promotion \<Rightarrow> string \<Rightarrow> ir_item list \<Rightarrow> nat \<Rightarrow> nat \<Rightarrow> nat" where
  "item_pos opt \<rho> fn its n i = length (fst (emit_items opt \<rho> fn (take i its) n))"

lemma item_code:
  assumes "code_at P pc (fst (emit_items opt \<rho> fn its n))" "i < length its"
  shows "\<exists>m. code_at P (pc + item_pos opt \<rho> fn its n i) (fst (emit_item opt \<rho> fn (its ! i) m)) \<and>
    item_pos opt \<rho> fn its n (Suc i) = item_pos opt \<rho> fn its n i + length (fst (emit_item opt \<rho> fn (its ! i) m))"
proof -
  obtain c m where c: "emit_items opt \<rho> fn (take i its) n = (c, m)" by fastforce
  obtain d k where d: "emit_item opt \<rho> fn (its ! i) m = (d, k)" by fastforce
  obtain r j where r: "emit_items opt \<rho> fn (drop (Suc i) its) k = (r, j)" by fastforce
  have s: "emit_items opt \<rho> fn (take (Suc i) its) n = (c @ d, k)"
    using assms(2) c d by (simp add: take_Suc_conv_app_nth emit_items_append)
  have "emit_items opt \<rho> fn (take (Suc i) its @ drop (Suc i) its) n = ((c @ d) @ r, j)"
    unfolding emit_items_append s using r by simp
  then have "fst (emit_items opt \<rho> fn its n) = c @ d @ r" by simp
  then have "code_at P (pc + length c) d" using assms(1) by simp
  then show ?thesis using c d s by (intro exI [of _ m]) (simp add: item_pos_def)
qed

lemma item_pos_end: "item_pos opt \<rho> fn its n (length its) = length (fst (emit_items opt \<rho> fn its n))"
  by (simp add: item_pos_def)

lemma item_label:
  assumes d: "distinct (labels_of P)" and at: "code_at P pc (fst (emit_items opt \<rho> fn its n))"
    and "label_index its l = Some j"
  shows "find_label P l = Some (pc + item_pos opt \<rho> fn its n j)"
proof -
  have j: "j < length its" "its ! j = II_LABEL l" using label_index_Some [OF assms(3)] by auto
  from item_code [OF at j(1)] j(2) have "code_at P (pc + item_pos opt \<rho> fn its n j) [I_label l]"
    by (auto simp: emit_item_def)
  then show ?thesis by (rule label_found [OF d])
qed

section \<open>One item\<close>

definition wf_item :: "promotion \<Rightarrow> ir_item \<Rightarrow> bool" where
  "wf_item \<rho> it = (case it of II_CBR e l w \<Rightarrow> wf_expr \<rho> e | II_EVAL e \<Rightarrow> wf_expr \<rho> e | II_RET (Some e) \<Rightarrow> wf_expr \<rho> e
     | _ \<Rightarrow> True)"

text \<open>The machine is at a configuration: item positions are mapped by \<open>pos\<close>, the return is at \<open>pend\<close>.\<close>

fun at_config :: "u32 \<Rightarrow> (nat \<Rightarrow> nat) \<Rightarrow> nat \<Rightarrow> u32 list \<Rightarrow> config \<Rightarrow> nat \<times> mstate \<Rightarrow> bool" where
  "at_config fp pos pend st (At i \<sigma>) (pc, s) \<longleftrightarrow> pc = pos i \<and> agree fp \<sigma> s \<and> m_stack s = st"
| "at_config fp pos pend st (Done r \<sigma>) (pc, s) \<longleftrightarrow>
     pc = pend \<and> agree fp \<sigma> s \<and> m_stack s = st \<and> (\<forall>v \<in> set_option r. m_reg s 0 = v)"

text \<open>The code of one item runs the item.\<close>

lemma item_sim:
  assumes d: "distinct (labels_of P)" and rt: "runtime_ok E"
    and at: "code_at P pc (fst (emit_items opt \<rho> fn its n))"
    and ret: "find_label P (''L_return_'' @ fn) = Some pend"
    and wf: "wf_item \<rho> (its ! i)" and i: "i < length its"
    and lab: "\<And>l. item_target (its ! i) = Some l \<Longrightarrow> label_index its l \<noteq> None"
    and pos: "pos = (\<lambda>j. pc + item_pos opt \<rho> fn its n j)"
    and ag: "agree fp \<sigma> s"
  shows "\<exists>cfg c. item_step (me_target E) fp \<rho> its (At i \<sigma>) cfg \<and> m_runs E P (pos i, s) c \<and>
    at_config fp pos pend (m_stack s) cfg c"
proof -
  obtain m where m: "code_at P (pos i) (fst (emit_item opt \<rho> fn (its ! i) m))"
    "pos (Suc i) = pos i + length (fst (emit_item opt \<rho> fn (its ! i) m))"
    using item_code [OF at i] unfolding pos by (auto simp: add.assoc)
  have target: "find_label P l = Some (pos j)" if "label_index its l = Some j" for l j
    unfolding pos by (rule item_label [OF d at that])
  have expr: "expr_sim E P fp \<rho> e (pos i) (fst (tile_expr opt \<rho> e m))"
    if "wf_expr \<rho> e" "code_at P (pos i) (fst (tile_expr opt \<rho> e m))" for e
    using tiled(1) [OF d rt that(1)] that(2) unfolding expr_tiled_def by blast
  have fin: "\<exists>cfg c. item_step (me_target E) fp \<rho> its (At i \<sigma>) cfg \<and> m_runs E P (pos i, s) c \<and>
      at_config fp pos pend (m_stack s) cfg c"
    if "item_step (me_target E) fp \<rho> its (At i \<sigma>) cfg" "reaches E P fp (pos i) s q v (m_stack s) \<sigma>'"
      "\<And>s'. m_reg s' 0 = v \<Longrightarrow> m_stack s' = m_stack s \<Longrightarrow> agree fp \<sigma>' s' \<Longrightarrow> at_config fp pos pend (m_stack s) cfg (q, s')"
    for q v \<sigma>' cfg
    using that unfolding reaches_def by blast
  show ?thesis
  proof (cases "its ! i")
    case (II_LABEL l)
    have "reaches E P fp (pos i) s (pos (Suc i)) (m_reg s 0) (m_stack s) \<sigma>"
      using reaches_label [of P "pos i" l s _ _ fp \<sigma> E] m ag II_LABEL by (simp add: emit_item_def)
    then show ?thesis by (rule fin [OF step_label [OF i II_LABEL]]) simp_all
  next
    case II_NOP
    have "reaches E P fp (pos i) s (pos (Suc i)) (m_reg s 0) (m_stack s) \<sigma>"
      using m ag II_NOP by (simp add: emit_item_def reaches_here)
    then show ?thesis by (rule fin [OF step_nop [OF i II_NOP]]) simp_all
  next
    case (II_JMP l)
    obtain j where j: "label_index its l = Some j" using lab [of l] II_JMP by auto
    have "reaches E P fp (pos i) s (pos j) (m_reg s 0) (m_stack s) \<sigma>"
      using reaches_bra [OF _ target [OF j] refl refl ag, of "pos i" E] m II_JMP by (simp add: emit_item_def)
    then show ?thesis by (rule fin [OF step_jmp [OF i II_JMP j]]) simp_all
  next
    case (II_CBR e l w)
    obtain j where j: "label_index its l = Some j" using lab [of l] II_CBR by auto
    have "cond_sim E P fp \<rho> e (pos i) (fst (tile_cond opt \<rho> e l w m)) w (pos j)"
      using tiled(2) [OF d rt, of \<rho> e fp opt l w m] wf m(1) target [OF j] II_CBR
      unfolding cond_tiled_def by (simp add: wf_item_def emit_item_def)
    from this ag obtain v x \<sigma>' where v: "(v, \<sigma>') \<in> evals (me_target E) fp \<rho> e \<sigma>"
      "reaches E P fp (pos i) s (if (v \<noteq> 0) = w then pos j else pos i + length (fst (tile_cond opt \<rho> e l w m))) x (m_stack s) \<sigma>'"
      by (rule cond_simD)
    have n: "pos i + length (fst (tile_cond opt \<rho> e l w m)) = pos (Suc i)" using m(2) II_CBR by (simp add: emit_item_def)
    show ?thesis
    proof (cases "(v \<noteq> 0) = w")
      case True
      show ?thesis by (rule fin [OF step_cbr_taken [OF i II_CBR v(1) True j] v(2)]) (use True in simp)
    next
      case False
      show ?thesis by (rule fin [OF step_cbr_fall [OF i II_CBR v(1) False] v(2)]) (use False n in simp)
    qed
  next
    case (II_EVAL e)
    have "expr_sim E P fp \<rho> e (pos i) (fst (tile_expr opt \<rho> e m))"
      using expr [of e] wf m(1) II_EVAL by (simp add: wf_item_def emit_item_def)
    from this ag obtain v \<sigma>' where v: "(v, \<sigma>') \<in> evals (me_target E) fp \<rho> e \<sigma>"
      "reaches E P fp (pos i) s (pos i + length (fst (tile_expr opt \<rho> e m))) v (m_stack s) \<sigma>'" by (rule expr_simD)
    have n: "pos i + length (fst (tile_expr opt \<rho> e m)) = pos (Suc i)" using m(2) II_EVAL by (simp add: emit_item_def)
    show ?thesis by (rule fin [OF step_eval [OF i II_EVAL v(1)] v(2)]) (simp add: n)
  next
    case (II_RET r)
    show ?thesis
    proof (cases r)
      case None
      have "reaches E P fp (pos i) s pend (m_reg s 0) (m_stack s) \<sigma>"
        using reaches_bra [OF _ ret refl refl ag, of "pos i" E] m II_RET None by (simp add: emit_item_def)
      moreover have "its ! i = II_RET None" using II_RET None by simp
      ultimately show ?thesis by (intro fin [OF step_ret_void [OF i]]) simp_all
    next
      case (Some e)
      obtain c k where c: "tile_expr opt \<rho> e m = (c, k)" by fastforce
      have at': "code_at P (pos i) c" "code_at P (pos i + length c) [I_bra (''L_return_'' @ fn)]"
        using m(1) II_RET Some c by (simp_all add: emit_item_def)
      have "expr_sim E P fp \<rho> e (pos i) c" using expr [of e] wf at'(1) II_RET Some c by (simp add: wf_item_def)
      from this ag obtain v \<sigma>' where v: "(v, \<sigma>') \<in> evals (me_target E) fp \<rho> e \<sigma>"
        "reaches E P fp (pos i) s (pos i + length c) v (m_stack s) \<sigma>'" by (rule expr_simD)
      have "reaches E P fp (pos i) s pend v (m_stack s) \<sigma>'"
        by (rule reaches_trans [OF v(2)]) (use reaches_bra [OF at'(2) ret] in auto)
      moreover have "its ! i = II_RET (Some e)" using II_RET Some by simp
      ultimately show ?thesis by (intro fin [OF step_ret [OF i _ v(1)]]) simp_all
    qed
  qed
qed

section \<open>A function body\<close>

definition item_labels :: "ir_item list \<Rightarrow> string list" where
  "item_labels its = concat (map (\<lambda>it. case it of II_LABEL l \<Rightarrow> [l] | _ \<Rightarrow> []) its)"

lemma item_labels_simps [simp]:
  "item_labels [] = []" "item_labels (it # its) = (case it of II_LABEL l \<Rightarrow> [l] | _ \<Rightarrow> []) @ item_labels its"
  by (simp_all add: item_labels_def)

text \<open>
  The body as \<open>codegen\<close> places it: the code of the blocks and the return label. At \<open>-O3\<close> the blocks are
  those that \<open>ir_optimize\<close> rebuilds after folding the branches.
\<close>

definition body_items :: "nat \<Rightarrow> ir_item list \<Rightarrow> ir_item list" where
  "body_items opt P = (if 3 \<le> opt then ir_optimize P else P)"

definition emit_body :: "nat \<Rightarrow> promotion \<Rightarrow> string \<Rightarrow> ir_item list \<Rightarrow> nat \<Rightarrow> instr list" where
  "emit_body opt \<rho> fn P n =
     (let bs = ir_build_cfg (if 3 \<le> opt then op6_fold_branches (op6_fold_exprs P) else P)
      in fst (emit_blocks opt \<rho> fn (body_items opt P) bs n) @ [I_label (''L_return_'' @ fn)])"

lemma length_body_items: "length (body_items opt P) = length P"
  by (simp add: body_items_def ir_optimize_def Let_def op6_dce_dead_eval_def op6_dce_unreachable_def
      op6_fold_branches_def op6_fold_exprs_def)

lemma emit_body_items:
  "emit_body opt \<rho> fn P n = fst (emit_items opt \<rho> fn (body_items opt P) n) @ [I_label (''L_return_'' @ fn)]"
proof -
  have "length (body_items opt P) = length (if 3 \<le> opt then op6_fold_branches (op6_fold_exprs P) else P)"
    by (simp add: length_body_items op6_fold_branches_def op6_fold_exprs_def)
  from emit_blocks_cfg [OF this] show ?thesis by (simp add: emit_body_def Let_def)
qed

text \<open>The item labels must differ from the labels generated from the number \<open>n\<close> on.\<close>

definition unused_from :: "nat \<Rightarrow> string \<Rightarrow> bool" where
  "unused_from n l \<longleftrightarrow> (\<forall>m. l \<notin> gen_labels n m)"

definition labels_fresh :: "string \<Rightarrow> nat \<Rightarrow> ir_item list \<Rightarrow> bool" where
  "labels_fresh fn n its \<longleftrightarrow> distinct (item_labels its) \<and> (\<forall>l \<in> set (item_labels its). unused_from n l) \<and>
     ''L_return_'' @ fn \<notin> set (item_labels its)"

lemma unused_mono: "unused_from n l \<Longrightarrow> n \<le> m \<Longrightarrow> unused_from m l"
  using gen_labels_mono unfolding unused_from_def by blast

lemma emit_item_labels:
  assumes "emit_item opt \<rho> fn it n = (c, m)"
  shows "if \<exists>l. it = II_LABEL l then m = n \<and> labels_of c = item_labels [it] else fresh_code n c m"
proof (cases it)
  case (II_CBR e l w)
  then show ?thesis using assms fresh_tiles(2) [of n opt \<rho> e l w] by (simp add: emit_item_def)
next
  case (II_EVAL e)
  then show ?thesis using assms fresh_tiles(1) [of n opt \<rho> e] by (simp add: emit_item_def)
next
  case (II_RET r)
  then show ?thesis using assms fresh_tiles(1) [of n opt \<rho> "the r"]
    by (cases r) (auto simp: emit_item_def fresh_code_def labels_of_Cons split: prod.splits)
qed (use assms in \<open>auto simp: emit_item_def labels_of_Cons\<close>)

lemma emit_items_labels:
  "emit_items opt \<rho> fn its n = (c, m) \<Longrightarrow> distinct (item_labels its) \<Longrightarrow> \<forall>l \<in> set (item_labels its). unused_from n l \<Longrightarrow>
   n \<le> m \<and> distinct (labels_of c) \<and> set (labels_of c) \<subseteq> set (item_labels its) \<union> gen_labels n m"
proof (induction its arbitrary: n c)
  case (Cons it its)
  obtain c1 k where c1: "emit_item opt \<rho> fn it n = (c1, k)" by fastforce
  obtain c2 where c2: "emit_items opt \<rho> fn its k = (c2, m)" "c = c1 @ c2"
    using Cons.prems(1) c1 by (auto split: prod.splits)
  note one = emit_item_labels [OF c1]
  have nk: "n \<le> k" using one by (auto simp: fresh_code_def split: if_splits)
  have rest: "distinct (item_labels its)" "\<forall>l \<in> set (item_labels its). unused_from k l"
    using Cons.prems(2,3) unused_mono [OF _ nk] by auto
  have IH: "k \<le> m \<and> distinct (labels_of c2) \<and> set (labels_of c2) \<subseteq> set (item_labels its) \<union> gen_labels k m"
    by (rule Cons.IH [OF c2(1) rest])
  show ?case
  proof (cases "\<exists>l. it = II_LABEL l")
    case True
    then obtain l where l: "it = II_LABEL l" by blast
    then have "labels_of c1 = [l]" "k = n" using one by auto
    moreover have "l \<notin> gen_labels n m" "l \<notin> set (item_labels its)" using Cons.prems(2,3) l by (auto simp: unused_from_def)
    ultimately show ?thesis using IH l c2(2) by auto
  next
    case False
    then have f: "fresh_code n c1 k" using one by simp
    have "set (item_labels its) \<inter> gen_labels n k = {}" using Cons.prems(3) by (auto simp: unused_from_def)
    moreover have "gen_labels n k \<inter> gen_labels k m = {}" by (rule gen_labels_disjoint) simp
    ultimately have "set (labels_of c1) \<inter> set (labels_of c2) = {}" using f IH unfolding fresh_code_def by blast
    moreover have "set (labels_of c1) \<subseteq> gen_labels n m" "gen_labels k m \<subseteq> gen_labels n m"
      using f IH nk gen_labels_mono [of n n k m] gen_labels_mono [of n k m m] unfolding fresh_code_def by auto
    ultimately show ?thesis using f IH c2(2) nk unfolding fresh_code_def by auto
  qed
qed simp

lemma return_label_unused: "unused_from n (''L_return_'' @ fn)"
  by (auto simp: unused_from_def gen_labels_def uid_label_def tile_prefixes_def)

lemma emit_body_distinct:
  assumes "labels_fresh fn n (body_items opt P)"
  shows "distinct (labels_of (emit_body opt \<rho> fn P n))"
proof -
  obtain c m where c: "emit_items opt \<rho> fn (body_items opt P) n = (c, m)" by fastforce
  from emit_items_labels [OF c] assms have "distinct (labels_of c)"
    "set (labels_of c) \<subseteq> set (item_labels (body_items opt P)) \<union> gen_labels n m" by (auto simp: labels_fresh_def)
  moreover have "''L_return_'' @ fn \<notin> gen_labels n m" using return_label_unused by (simp add: unused_from_def)
  ultimately show ?thesis using assms by (auto simp: emit_body_items c labels_fresh_def)
qed

section \<open>Running a body\<close>

lemma item_step_range: "item_step T fp \<rho> its (At i \<sigma>) (At j \<sigma>') \<Longrightarrow> i < length its \<and> j \<le> length its"
  by (rule item_step_in_range)

definition body_pos :: "nat \<Rightarrow> promotion \<Rightarrow> string \<Rightarrow> ir_item list \<Rightarrow> nat \<Rightarrow> nat \<Rightarrow> nat" where
  "body_pos opt \<rho> fn P n = item_pos opt \<rho> fn (body_items opt P) n"

lemma body_sim:
  assumes fresh: "labels_fresh fn n (body_items opt P)" and lab: "labels_ok (body_items opt P)"
    and rt: "runtime_ok E" and wf: "\<forall>it \<in> set (body_items opt P). wf_item \<rho> it"
    and at: "at_config fp (body_pos opt \<rho> fn P n) (length (emit_body opt \<rho> fn P n) - 1) st (At i \<sigma>) c"
    and i: "i \<le> length (body_items opt P)"
  shows "\<exists>cfg c'. item_step (me_target E) fp \<rho> (body_items opt P) (At i \<sigma>) cfg \<and>
    m_runs E (emit_body opt \<rho> fn P n) c c' \<and>
    at_config fp (body_pos opt \<rho> fn P n) (length (emit_body opt \<rho> fn P n) - 1) st cfg c'"
proof -
  let ?its = "body_items opt P" and ?code = "emit_body opt \<rho> fn P n"
  let ?cs = "fst (emit_items opt \<rho> fn ?its n)" and ?pend = "length ?code - 1"
  have code: "?code = ?cs @ [I_label (''L_return_'' @ fn)]" by (rule emit_body_items)
  have d: "distinct (labels_of ?code)" by (rule emit_body_distinct [OF fresh])
  have pend: "?pend = length ?cs" by (simp add: code)
  have a: "code_at ?code 0 ?cs" using code_at_self [of "[]" ?cs "[I_label (''L_return_'' @ fn)]"] code by simp
  have "code_at ?code (length ?cs) [I_label (''L_return_'' @ fn)]"
    using code_at_self [of ?cs "[I_label (''L_return_'' @ fn)]" "[]"] code by simp
  then have ret: "find_label ?code (''L_return_'' @ fn) = Some ?pend" unfolding pend by (rule label_found [OF d])
  obtain pc s where c: "c = (pc, s)" by fastforce
  from at c have s: "pc = body_pos opt \<rho> fn P n i" "agree fp \<sigma> s" "m_stack s = st" by auto
  show ?thesis
  proof (cases "i < length ?its")
    case True
    have it: "wf_item \<rho> (?its ! i)" using wf True by simp
    have l: "label_index ?its l \<noteq> None" if "item_target (?its ! i) = Some l" for l
      using labels_okD [OF lab _ that] True by simp
    have pos: "body_pos opt \<rho> fn P n = (\<lambda>j. 0 + item_pos opt \<rho> fn ?its n j)" by (simp add: body_pos_def)
    from item_sim [OF d rt a ret it True l pos s(2)] show ?thesis using c s by auto
  next
    case False
    then have "i = length ?its" using i by simp
    then have "item_step (me_target E) fp \<rho> ?its (At i \<sigma>) (Done None \<sigma>)" "pc = ?pend"
      using s(1) by (auto intro: step_end simp: body_pos_def item_pos_end code)
    then show ?thesis using c s by (intro exI [of _ "Done None \<sigma>"] exI [of _ c]) simp
  qed
qed

text \<open>After any number of item steps the machine is there, or the body has returned.\<close>

lemma body_runs:
  assumes fresh: "labels_fresh fn n (body_items opt P)" and lab: "labels_ok (body_items opt P)"
    and rt: "runtime_ok E" and wf: "\<forall>it \<in> set (body_items opt P). wf_item \<rho> it"
    and ag: "agree fp \<sigma> s"
  defines "reach \<equiv> \<lambda>cfg. \<exists>c. m_runs E (emit_body opt \<rho> fn P n) (0, s) c \<and>
      at_config fp (body_pos opt \<rho> fn P n) (length (emit_body opt \<rho> fn P n) - 1) (m_stack s) cfg c"
  shows "(\<exists>r \<sigma>'. item_steps (me_target E) fp \<rho> (body_items opt P) (At 0 \<sigma>) (Done r \<sigma>') \<and> reach (Done r \<sigma>')) \<or>
    (\<exists>i \<sigma>'. (item_step (me_target E) fp \<rho> (body_items opt P) ^^ k) (At 0 \<sigma>) (At i \<sigma>') \<and>
       i \<le> length (body_items opt P) \<and> reach (At i \<sigma>'))"
proof (induction k)
  case 0
  have "m_runs E (emit_body opt \<rho> fn P n) (0, s) (0, s)" by simp
  then have "reach (At 0 \<sigma>)" using ag unfolding reach_def by (force simp: body_pos_def item_pos_def)
  then show ?case by auto
next
  case (Suc k)
  show ?case
  proof (cases "\<exists>r \<sigma>'. item_steps (me_target E) fp \<rho> (body_items opt P) (At 0 \<sigma>) (Done r \<sigma>') \<and> reach (Done r \<sigma>')")
    case False
    with Suc obtain i \<sigma>' where i: "(item_step (me_target E) fp \<rho> (body_items opt P) ^^ k) (At 0 \<sigma>) (At i \<sigma>')"
      "i \<le> length (body_items opt P)" "reach (At i \<sigma>')" by blast
    then obtain c where c: "m_runs E (emit_body opt \<rho> fn P n) (0, s) c"
      "at_config fp (body_pos opt \<rho> fn P n) (length (emit_body opt \<rho> fn P n) - 1) (m_stack s) (At i \<sigma>') c"
      unfolding reach_def by blast
    obtain cfg c' where cfg: "item_step (me_target E) fp \<rho> (body_items opt P) (At i \<sigma>') cfg"
      "m_runs E (emit_body opt \<rho> fn P n) c c'"
      "at_config fp (body_pos opt \<rho> fn P n) (length (emit_body opt \<rho> fn P n) - 1) (m_stack s) cfg c'"
      using body_sim [OF fresh lab rt wf c(2) i(2)] by blast
    have r: "reach cfg" unfolding reach_def using m_runs_trans [OF c(1) cfg(2)] cfg(3) by blast
    have st: "(item_step (me_target E) fp \<rho> (body_items opt P) ^^ Suc k) (At 0 \<sigma>) cfg" using i(1) cfg(1) by auto
    show ?thesis
    proof (cases cfg)
      case (At j \<sigma>'')
      then show ?thesis using r st item_step_in_range [of _ _ _ _ i \<sigma>' j \<sigma>''] cfg(1) by blast
    next
      case (Done r' \<sigma>'')
      then show ?thesis using r item_steps_power [OF st] by blast
    qed
  qed blast
qed

section \<open>The optimizer keeps what the selector needs\<close>

lemma wf_num [simp]: "wf_expr \<rho> (ie_num_new v sz u)"
  by (simp add: ie_num_new_def)

lemma wf_identity: "wf_expr \<rho> a \<Longrightarrow> wf_expr \<rho> b \<Longrightarrow> op \<in> binop_kinds \<Longrightarrow> wf_expr \<rho> (ie_binop_identity op a b sz u pa)"
  by (simp add: ie_binop_identity_def Let_def ie_shl1_def) (simp add: binop_kinds_def)

lemma wf_fold: "wf_expr \<rho> e \<Longrightarrow> wf_expr \<rho> (ie_fold e)"
proof (induction e rule: ie_fold.induct)
  case (3 op a b sz u pa)
  then show ?case by (auto simp: Let_def wf_identity split: option.split)
qed (auto simp: Let_def split: option.split)

lemma wf_fold_item: "wf_item \<rho> it \<Longrightarrow> wf_item \<rho> (fold_item it)"
  by (cases it rule: fold_item.cases) (auto simp: wf_item_def wf_fold)

lemma wf_fold_branch: "wf_item \<rho> it \<Longrightarrow> wf_item \<rho> (fold_branch it)"
  by (cases it) (auto simp: wf_item_def split: option.splits)

lemma wf_drop_dead: "wf_item \<rho> it \<Longrightarrow> wf_item \<rho> (drop_dead_eval it)"
  by (cases it) (auto simp: wf_item_def)

lemma unreachable_items: "it \<in> set (op6_dce_unreachable bs P) \<Longrightarrow> it = II_NOP \<or> it \<in> set P"
  by (auto simp: op6_dce_unreachable_def Let_def split: if_splits)

lemma wf_body_items:
  assumes "\<forall>it \<in> set P. wf_item \<rho> it"
  shows "\<forall>it \<in> set (body_items opt P). wf_item \<rho> it"
proof -
  have P2: "wf_item \<rho> it" if "it \<in> set (op6_fold_branches (op6_fold_exprs P))" for it
    using that assms wf_fold_item wf_fold_branch by (auto simp: op6_fold_branches_def op6_fold_exprs_def)
  have "wf_item \<rho> it" if "it \<in> set (op6_dce_unreachable bs (op6_fold_branches (op6_fold_exprs P)))" for it bs
    using unreachable_items [OF that] P2 by (auto simp: wf_item_def)
  then show ?thesis using assms wf_drop_dead
    by (auto simp: body_items_def ir_optimize_def Let_def op6_dce_dead_eval_def)
qed

text \<open>Passes that map items keep the labels; the dead-code pass may drop some.\<close>

lemma no_item_label: "\<forall>l. it \<noteq> II_LABEL l \<Longrightarrow> (case it of II_LABEL l \<Rightarrow> [l] | _ \<Rightarrow> []) = []"
  by (cases it) simp_all

lemma item_labels_map: "(\<And>it l. f it = II_LABEL l \<longleftrightarrow> it = II_LABEL l) \<Longrightarrow> item_labels (map f P) = item_labels P"
proof (induction P)
  case (Cons it P)
  have "(case f it of II_LABEL l \<Rightarrow> [l] | _ \<Rightarrow> []) = (case it of II_LABEL l \<Rightarrow> [l] | _ \<Rightarrow> [])"
  proof (cases "\<exists>l. it = II_LABEL l")
    case True
    then obtain l where "it = II_LABEL l" by blast
    moreover from this have "f it = II_LABEL l" using Cons.prems by blast
    ultimately show ?thesis by simp
  next
    case False
    then have "\<forall>l. f it \<noteq> II_LABEL l" "\<forall>l. it \<noteq> II_LABEL l" using Cons.prems by blast+
    then show ?thesis by (simp add: no_item_label)
  qed
  moreover have "item_labels (map f P) = item_labels P" using Cons by blast
  ultimately show ?case by simp
qed simp

lemma item_labels_append [simp]: "item_labels (a @ b) = item_labels a @ item_labels b"
  by (simp add: item_labels_def)

lemma item_labels_dropped:
  assumes "length Q = length P" "\<forall>i < length P. Q ! i = P ! i \<or> Q ! i = II_NOP" "distinct (item_labels P)"
  shows "distinct (item_labels Q) \<and> set (item_labels Q) \<subseteq> set (item_labels P)"
  using assms
proof (induction Q P rule: list_induct2)
  case (Cons q Q p P)
  have "\<forall>i < length P. Q ! i = P ! i \<or> Q ! i = II_NOP" using Cons.prems(1) by (auto dest: spec [of _ "Suc _"])
  then have IH: "distinct (item_labels Q) \<and> set (item_labels Q) \<subseteq> set (item_labels P)"
    using Cons.IH Cons.prems(2) by simp
  have "q = p \<or> q = II_NOP" using Cons.prems(1) by auto
  then show ?case using IH Cons.prems(2) by (cases p) auto
qed simp

lemma labels_fresh_body:
  assumes "labels_fresh fn n P"
  shows "labels_fresh fn n (body_items opt P)"
proof (cases "3 \<le> opt")
  case True
  let ?P2 = "op6_fold_branches (op6_fold_exprs P)"
  have "fold_item it = II_LABEL l \<longleftrightarrow> it = II_LABEL l" for it l by (cases it rule: fold_item.cases) auto
  moreover have "fold_branch it = II_LABEL l \<longleftrightarrow> it = II_LABEL l" for it l
    by (cases it) (auto split: option.splits)
  moreover have dd: "drop_dead_eval it = II_LABEL l \<longleftrightarrow> it = II_LABEL l" for it l by (cases it) auto
  ultimately have P2: "item_labels ?P2 = item_labels P"
    by (simp add: op6_fold_branches_def op6_fold_exprs_def item_labels_map)
  define Q where "Q = op6_dce_unreachable (ir_build_cfg ?P2) ?P2"
  have "length Q = length ?P2" "\<forall>i < length ?P2. Q ! i = ?P2 ! i \<or> Q ! i = II_NOP"
    by (auto simp: Q_def op6_dce_unreachable_def Let_def)
  from item_labels_dropped [OF this] assms P2
  have "distinct (item_labels Q) \<and> set (item_labels Q) \<subseteq> set (item_labels P)" by (simp add: labels_fresh_def)
  moreover have "item_labels (op6_dce_dead_eval Q) = item_labels Q"
    unfolding op6_dce_dead_eval_def by (rule item_labels_map [OF dd])
  moreover have "body_items opt P = op6_dce_dead_eval Q" using True by (simp add: body_items_def ir_optimize_def Let_def Q_def)
  ultimately show ?thesis using assms by (auto simp: labels_fresh_def)
qed (use assms in \<open>simp add: body_items_def\<close>)

section \<open>Correct compilation of a body\<close>

text \<open>A run of the code that follows the item list: it returns, or it goes on for ever.\<close>

definition follows :: "menv \<Rightarrow> instr list \<Rightarrow> u32 \<Rightarrow> promotion \<Rightarrow> ir_item list \<Rightarrow> istate \<Rightarrow> mstate \<Rightarrow> bool" where
  "follows E code fp \<rho> its \<sigma> s \<longleftrightarrow>
     (\<exists>r \<sigma>' s'. item_steps (me_target E) fp \<rho> its (At 0 \<sigma>) (Done r \<sigma>') \<and>
        m_runs E code (0, s) (length code - 1, s') \<and> agree fp \<sigma>' s' \<and> m_stack s' = m_stack s \<and>
        (\<forall>v \<in> set_option r. m_reg s' 0 = v)) \<or>
     (\<forall>k. \<exists>i \<sigma>' pc s'. (item_step (me_target E) fp \<rho> its ^^ k) (At 0 \<sigma>) (At i \<sigma>') \<and>
        m_runs E code (0, s) (pc, s') \<and> agree fp \<sigma>' s' \<and> m_stack s' = m_stack s)"

lemma body_follows:
  assumes "labels_fresh fn n P" "labels_ok (body_items opt P)" "runtime_ok E" "\<forall>it \<in> set P. wf_item \<rho> it" "agree fp \<sigma> s"
  shows "follows E (emit_body opt \<rho> fn P n) fp \<rho> (body_items opt P) \<sigma> s"
proof -
  note sim = body_runs [OF labels_fresh_body [OF assms(1)] assms(2,3) wf_body_items [OF assms(4)] assms(5)]
  show ?thesis
  proof (cases "\<exists>r \<sigma>'. item_steps (me_target E) fp \<rho> (body_items opt P) (At 0 \<sigma>) (Done r \<sigma>') \<and>
      (\<exists>c. m_runs E (emit_body opt \<rho> fn P n) (0, s) c \<and> at_config fp (body_pos opt \<rho> fn P n)
        (length (emit_body opt \<rho> fn P n) - 1) (m_stack s) (Done r \<sigma>') c)")
    case True
    then obtain r \<sigma>' c where "item_steps (me_target E) fp \<rho> (body_items opt P) (At 0 \<sigma>) (Done r \<sigma>')"
      "m_runs E (emit_body opt \<rho> fn P n) (0, s) c"
      "at_config fp (body_pos opt \<rho> fn P n) (length (emit_body opt \<rho> fn P n) - 1) (m_stack s) (Done r \<sigma>') c" by blast
    then show ?thesis unfolding follows_def by (intro disjI1) (cases c, auto)
  next
    case False
    have "\<exists>i \<sigma>' pc s'. (item_step (me_target E) fp \<rho> (body_items opt P) ^^ k) (At 0 \<sigma>) (At i \<sigma>') \<and>
        m_runs E (emit_body opt \<rho> fn P n) (0, s) (pc, s') \<and> agree fp \<sigma>' s' \<and> m_stack s' = m_stack s" for k
    proof -
      obtain i \<sigma>' c where "(item_step (me_target E) fp \<rho> (body_items opt P) ^^ k) (At 0 \<sigma>) (At i \<sigma>')"
        "m_runs E (emit_body opt \<rho> fn P n) (0, s) c"
        "at_config fp (body_pos opt \<rho> fn P n) (length (emit_body opt \<rho> fn P n) - 1) (m_stack s) (At i \<sigma>') c"
        using sim [of k] False by blast
      then show ?thesis by (cases c) auto
    qed
    then show ?thesis unfolding follows_def by blast
  qed
qed

lemma follows_optimized:
  assumes "follows E code fp no_promo (ir_optimize P) \<sigma> s"
  shows "follows E code fp no_promo P \<sigma> s"
  using assms ir_optimize_sound ir_optimize_power unfolding follows_def by meson

lemma body_labels_ok: "labels_ok P \<Longrightarrow> labels_ok (body_items opt P)"
  by (simp add: body_items_def ir_optimize_labels)

section \<open>Properties\<close>

text \<open>
  C1: The back end is correct at every optimization level, for a function without promoted variables:
  the code that \<open>ir_optimize\<close>, the instruction selector and the emission by blocks produce, run from its
  first instruction, either returns, at the return label, with the stack as it was and with a memory
  and a value in D0 that the item list before the optimizer allows, or it runs for ever along an
  infinite run of that list.
\<close>

theorem compile_body_correct:
  assumes "labels_fresh fn n P" and "labels_ok P" and "runtime_ok E"
    and "\<forall>it \<in> set P. wf_item no_promo it" and "agree fp \<sigma> s"
  shows "follows E (emit_body opt no_promo fn P n) fp no_promo P \<sigma> s"
proof -
  have "follows E (emit_body opt no_promo fn P n) fp no_promo (body_items opt P) \<sigma> s"
    by (rule body_follows [OF assms(1) body_labels_ok [OF assms(2)] assms(3-5)])
  then show ?thesis using follows_optimized by (cases "3 \<le> opt") (simp_all add: body_items_def)
qed

text \<open>
  C2: The selector is correct for every promotion of variables and temporaries to callee-saved
  registers: the emitted body follows its item list, read with the promoted variables in their registers.
\<close>

theorem emit_body_correct:
  assumes "labels_fresh fn n P" and "labels_ok P" and "runtime_ok E"
    and "\<forall>it \<in> set P. wf_item \<rho> it" and "agree fp \<sigma> s"
  shows "follows E (emit_body opt \<rho> fn P n) fp \<rho> (body_items opt P) \<sigma> s"
  by (rule body_follows [OF assms(1) body_labels_ok [OF assms(2)] assms(3-5)])

text \<open>
  C7: No two labels of an emitted body are the same, whatever the items: the label counter never hands
  a number out twice for the same prefix, and the prefixes keep the names apart.
\<close>

theorem body_labels_distinct:
  assumes "labels_fresh fn n P"
  shows "distinct (labels_of (emit_body opt \<rho> fn P n))"
  by (rule emit_body_distinct [OF labels_fresh_body [OF assms]])

section \<open>An example\<close>

text \<open>A target without globals and callees, and the runtime helpers by their names.\<close>

definition demo_target :: target where
  "demo_target = \<lparr>tg_sym = (\<lambda>n. 0), tg_call = (\<lambda>f vs m. (0, m)), tg_undef = (\<lambda>op u a b. 0)\<rparr>"

definition demo_rt :: "string \<Rightarrow> u32 \<Rightarrow> u32 \<Rightarrow> u32" where
  "demo_rt f a b =
     (if f = ''__mulsi3'' then binop_val demo_target ND_MUL False a b
      else if f = ''__divsi3'' then binop_val demo_target ND_DIV False a b
      else if f = ''__udivsi3'' then binop_val demo_target ND_DIV True a b
      else if f = ''__modsi3'' then binop_val demo_target ND_MOD False a b
      else binop_val demo_target ND_MOD True a b)"

definition demo_env :: menv where
  "demo_env = \<lparr>me_target = demo_target, me_rt = demo_rt, me_scratch = (\<lambda>s r. 0)\<rparr>"

lemma demo_runtime: "runtime_ok demo_env"
  by (simp add: runtime_ok_def demo_env_def demo_rt_def rt_name_def binop_val_def)

definition demo_state :: "u32 \<Rightarrow> istate \<Rightarrow> mstate" where
  "demo_state fp \<sigma> = \<lparr>m_reg = (\<lambda>r. if r = 14 then fp else st_reg \<sigma> r), m_mem = st_mem \<sigma>, m_stack = [], m_flags = None\<rparr>"

lemma demo_agree: "agree fp \<sigma> (demo_state fp \<sigma>)"
  by (simp add: agree_def demo_state_def saved_regs_def)

text \<open>The items of \<open>int sgn(int x) { if (x < 0) return -(x / x); return x % 2 + 3 * 4; }\<close>, with \<open>x\<close> at -4.\<close>

definition demo_x :: ir_expr where "demo_x = IE_LOAD (IE_LEA True (- 4) [] 0) 4 False"

definition demo_items :: "ir_item list" where
  "demo_items =
     [II_CBR (IE_BINOP ND_LT demo_x (IE_NUM 0 4 False) 4 False False) ''L_else_0'' False,
      II_RET (Some (IE_UNARY ND_NEG (IE_BINOP ND_DIV demo_x demo_x 4 False False) 4 False)),
      II_LABEL ''L_else_0'',
      II_RET (Some (IE_BINOP ND_ADD (IE_BINOP ND_MOD demo_x (IE_NUM 2 4 False) 4 False False)
        (IE_BINOP ND_MUL (IE_NUM 3 4 False) (IE_NUM 4 4 False) 4 False False) 4 False False))]"

lemma demo_fresh: "labels_fresh ''sgn'' 1 demo_items"
proof -
  have "''L_else_0'' = uid_label ''L_else_'' 0" by code_simp
  then have "''L_else_0'' \<notin> gen_labels 1 m" for m
    by (auto simp: gen_labels_def tile_uid_inject tile_prefixes_def)
  then show ?thesis by (simp add: labels_fresh_def demo_items_def unused_from_def)
qed

lemma demo_wf: "\<forall>it \<in> set demo_items. wf_item \<rho> it" if "reg_ok (\<rho> 0)"
  using that by (simp add: demo_items_def wf_item_def demo_x_def binop_kinds_def)

lemma demo_labels: "labels_ok demo_items"
  by (simp add: labels_ok_def demo_items_def)

lemma compile_body_correct_witness:
  "\<forall>opt fp \<sigma>. follows demo_env (emit_body opt no_promo ''sgn'' demo_items 1) fp no_promo demo_items \<sigma> (demo_state fp \<sigma>)"
  by (intro allI compile_body_correct demo_fresh demo_labels demo_runtime demo_wf demo_agree) (simp add: reg_ok_def)

lemma emit_body_correct_witness:
  "\<forall>opt fp \<sigma>. follows demo_env (emit_body opt (\<lambda>_. 2) ''sgn'' demo_items 1) fp (\<lambda>_. 2) (body_items opt demo_items) \<sigma>
     (demo_state fp \<sigma>)"
  by (intro allI emit_body_correct demo_fresh demo_labels demo_runtime demo_wf demo_agree)
    (simp add: reg_ok_def saved_regs_def)

lemma body_labels_distinct_witness: "\<forall>opt \<rho>. distinct (labels_of (emit_body opt \<rho> ''sgn'' demo_items 1))"
  by (intro allI body_labels_distinct demo_fresh)

text \<open>
  C6: Strength reduction is exact: when \<open>ir_const_binop\<close> takes a tile for an operation with a constant
  operand (shifts for a multiplication, a biased shift for a signed division, a masked negation for a
  signed remainder, quick adds, ...) the tile computes the C operator on every 32-bit value, overflow
  and negative operands included, and changes no other saved register, no memory and no stack.
\<close>

theorem strength_reduction_exact:
  assumes "const_tile opt op u c lc = Some (k, t)"
  shows "\<exists>s'. m_runs E t (0, s) (length t, s') \<and> m_reg s' 0 = binop_val (me_target E) op u (m_reg s 0) c \<and> keeps s s'"
proof -
  have "distinct (labels_of t)" using labels_const_tile [OF assms] by (cases k) auto
  moreover have "code_at t 0 t" using code_at_self [of "[]" t "[]"] by simp
  ultimately show ?thesis using const_tile_ok [OF assms, of t 0 E s] by (simp add: tail_ok_def)
qed

lemma strength_reduction_exact_witness:
  "\<forall>E s. \<exists>s'. m_runs E (snd (the (const_tile 2 ND_DIV False 8 0))) (0, s)
     (length (snd (the (const_tile 2 ND_DIV False 8 0))), s') \<and>
     m_reg s' 0 = binop_val (me_target E) ND_DIV False (m_reg s 0) 8 \<and> keeps s s'"
proof (intro allI)
  fix E s
  have "const_tile 2 ND_DIV False 8 0 = Some (fst (the (const_tile 2 ND_DIV False 8 0)), snd (the (const_tile 2 ND_DIV False 8 0)))"
    by code_simp
  from strength_reduction_exact [OF this]
  show "\<exists>s'. m_runs E (snd (the (const_tile 2 ND_DIV False 8 0))) (0, s)
     (length (snd (the (const_tile 2 ND_DIV False 8 0))), s') \<and>
     m_reg s' 0 = binop_val (me_target E) ND_DIV False (m_reg s 0) 8 \<and> keeps s s'" .
qed

end
