(* ===== verification/Ra_Collect.thy ===== *)
theory Ra_Collect
  imports Ir
begin

text \<open>
  What the register allocator of \<open>src/ir68k.c\<close> collects before a body is lowered (\<open>ir_prep_regs\<close>): the
  map of the compound-assignment temporaries (\<open>fa_find\<close>, \<open>fa_count\<close>), the candidate variables
  (\<open>ra_add_cand\<close>) with their uses, and the variables whose address is taken (\<open>ra_walk\<close>). The C code
  keeps these in static arrays of 256 entries; here they are lists, and the tests of the bounds are
  kept.
\<close>

section \<open>The function under compilation\<close>

record func =
  fn_name :: string
  fn_params :: "obj_id list"
  fn_locals :: "obj_id list"
  fn_va_area :: "obj_id option"
  fn_alloca_bottom :: "obj_id option"
  fn_uses_returns_twice :: bool
  fn_body :: "node option"

section \<open>Compound-assignment temporaries\<close>

text \<open>\<open>ND_CAST\<close>s are peeled off an address, \<open>ND_MEMBER\<close>s off the operand of \<open>&\<close>.\<close>

function peel :: "node_kind \<Rightarrow> node option \<Rightarrow> node option" where
  "peel k None = None"
| "peel k (Some n) = (if nd_kind n = k then peel k (nd_lhs n) else Some n)"
  by pat_completeness auto
termination
  by (relation "measure (\<lambda>(k, n). size_option size n)") auto

definition is_local_scalar :: "objs \<Rightarrow> obj_id \<Rightarrow> bool" where
  "is_local_scalar E v \<longleftrightarrow> o_is_local (E v) \<and> o_name (E v) \<noteq> [] \<and> ty_size (o_ty (E v)) = 4 \<and>
     (is_integer (o_ty (E v)) \<or> ty_kind (o_ty (E v)) = TY_PTR)"

text \<open>The entry that a node \<open>(tmp = (T) &x, _)\<close> gives.\<close>

definition fa_entry :: "objs \<Rightarrow> node \<Rightarrow> (obj_id \<times> obj_id \<times> nat) option" where
  "fa_entry E n =
     (if nd_kind n \<noteq> ND_COMMA then None
      else (case nd_lhs n of None \<Rightarrow> None
      | Some as \<Rightarrow>
          if nd_kind as \<noteq> ND_ASSIGN then None
          else (case (nd_lhs as, peel ND_CAST (nd_rhs as)) of
            (Some l, Some addr) \<Rightarrow>
              (if nd_kind l = ND_VAR \<and> nd_kind addr = ND_ADDR then
                 (case nd_lhs addr of None \<Rightarrow> None
                 | Some x \<Rightarrow>
                     if nd_kind x \<noteq> ND_VAR then None
                     else (case (nd_var l, nd_var x) of
                       (Some tmp, Some v) \<Rightarrow>
                         (if o_is_local (E tmp) \<and> o_name (E tmp) = [] \<and> ty_kind (o_ty (E tmp)) = TY_PTR \<and>
                             is_local_scalar E v
                          then Some (tmp, v, nd_id addr) else None)
                     | _ \<Rightarrow> None))
               else None)
          | _ \<Rightarrow> None)))"

definition fa_record :: "objs \<Rightarrow> node \<Rightarrow> fold_map \<Rightarrow> fold_map" where
  "fa_record E n fm =
     (case fa_entry E n of None \<Rightarrow> fm
      | Some (tmp, v, a) \<Rightarrow> if length fm < 256 then fm @ [(Some tmp, v, Some a)] else fm)"

function fa_find :: "objs \<Rightarrow> node option \<Rightarrow> fold_map \<Rightarrow> fold_map"
  and fa_finds :: "objs \<Rightarrow> node list \<Rightarrow> fold_map \<Rightarrow> fold_map" where
  "fa_find E None fm = fm"
| "fa_find E (Some n) fm =
     (let fm = fa_record E n fm;
          fm = fa_find E (nd_lhs n) fm; fm = fa_find E (nd_rhs n) fm; fm = fa_find E (nd_cond n) fm;
          fm = fa_find E (nd_then n) fm; fm = fa_find E (nd_els n) fm; fm = fa_find E (nd_init n) fm;
          fm = fa_find E (nd_inc n) fm; fm = fa_finds E (nd_body n) fm
      in fa_finds E (nd_args n) fm)"
| "fa_finds E [] fm = fm"
| "fa_finds E (n # ns) fm = fa_finds E ns (fa_find E (Some n) fm)"
  by pat_completeness auto
termination
  by (relation "measure (case_sum (\<lambda>(E, n, fm). size_option size n) (\<lambda>(E, ns, fm). Suc (size_list size ns)))") auto

declare fa_find.simps(2) [simp del]

definition fa_index :: "fold_map \<Rightarrow> obj_id option \<Rightarrow> nat option" where
  "fa_index fm tmp = find (\<lambda>i. fst (fm ! i) = tmp) [0..<length fm]"

text \<open>The counters \<open>fa_ref\<close> and \<open>fa_deref\<close>, one pair per entry of the map.\<close>

type_synonym fa_tally = "(nat \<times> nat) list"

definition count_ref :: "fold_map \<Rightarrow> obj_id option \<Rightarrow> fa_tally \<Rightarrow> fa_tally" where
  "count_ref fm v c = (case fa_index fm v of None \<Rightarrow> c | Some i \<Rightarrow> c[i := (Suc (fst (c ! i)), snd (c ! i))])"

definition count_deref :: "fold_map \<Rightarrow> obj_id option \<Rightarrow> fa_tally \<Rightarrow> fa_tally" where
  "count_deref fm v c = (case fa_index fm v of None \<Rightarrow> c | Some i \<Rightarrow> c[i := (fst (c ! i), Suc (snd (c ! i)))])"

function fa_count :: "fold_map \<Rightarrow> node option \<Rightarrow> fa_tally \<Rightarrow> fa_tally"
  and fa_counts :: "fold_map \<Rightarrow> node list \<Rightarrow> fa_tally \<Rightarrow> fa_tally" where
  "fa_count fm None c = c"
| "fa_count fm (Some n) c =
     (let c = (case nd_lhs n of None \<Rightarrow> c
               | Some l \<Rightarrow> if nd_kind n = ND_DEREF \<and> nd_kind l = ND_VAR then count_deref fm (nd_var l) c else c);
          c = (if nd_kind n = ND_VAR then count_ref fm (nd_var n) c else c);
          c = fa_count fm (nd_lhs n) c; c = fa_count fm (nd_rhs n) c; c = fa_count fm (nd_cond n) c;
          c = fa_count fm (nd_then n) c; c = fa_count fm (nd_els n) c; c = fa_count fm (nd_init n) c;
          c = fa_count fm (nd_inc n) c; c = fa_counts fm (nd_body n) c
      in fa_counts fm (nd_args n) c)"
| "fa_counts fm [] c = c"
| "fa_counts fm (n # ns) c = fa_counts fm ns (fa_count fm (Some n) c)"
  by pat_completeness auto
termination
  by (relation "measure (case_sum (\<lambda>(fm, n, c). size_option size n) (\<lambda>(fm, ns, c). Suc (size_list size ns)))") auto

declare fa_count.simps(2) [simp del]

text \<open>A temporary that is used other than by its initialization and by \<open>*tmp\<close> escapes and is dropped.\<close>

definition fa_drop :: "fold_map \<Rightarrow> fa_tally \<Rightarrow> fold_map" where
  "fa_drop fm c = map (\<lambda>i. if fst (c ! i) \<noteq> 1 + snd (c ! i) then (None, fst (snd (fm ! i)), None) else fm ! i) [0..<length fm]"

section \<open>Candidates and address-taken variables\<close>

record ra_cand =
  rc_var :: obj_id
  rc_uses :: nat
  rc_loopuses :: nat

text \<open>The walk's state: \<open>ra_cand\<close> and \<open>ra_addr\<close>.\<close>

type_synonym ra_state = "ra_cand list \<times> obj_id list"

definition ra_cand_index :: "ra_cand list \<Rightarrow> obj_id option \<Rightarrow> nat option" where
  "ra_cand_index cs v = find (\<lambda>i. Some (rc_var (cs ! i)) = v) [0..<length cs]"

definition ra_addr_taken :: "obj_id list \<Rightarrow> obj_id \<Rightarrow> bool" where
  "ra_addr_taken ad v \<longleftrightarrow> list_ex (\<lambda>w. w = v) ad"

definition ra_note_addr :: "node option \<Rightarrow> obj_id list \<Rightarrow> obj_id list" where
  "ra_note_addr n ad =
     (case peel ND_MEMBER n of None \<Rightarrow> ad
      | Some m \<Rightarrow>
          (case nd_var m of None \<Rightarrow> ad
           | Some v \<Rightarrow> if nd_kind m = ND_VAR \<and> length ad < 256 then ad @ [v] else ad))"

definition ra_use :: "nat \<Rightarrow> obj_id option \<Rightarrow> ra_cand list \<Rightarrow> ra_cand list" where
  "ra_use depth v cs =
     (case ra_cand_index cs v of None \<Rightarrow> cs
      | Some i \<Rightarrow> cs[i := (cs ! i)\<lparr>rc_uses := Suc (rc_uses (cs ! i)),
          rc_loopuses := rc_loopuses (cs ! i) + (if depth \<noteq> 0 then 1 else 0)\<rparr>])"

function ra_walk :: "fold_map \<Rightarrow> nat \<Rightarrow> node option \<Rightarrow> ra_state \<Rightarrow> ra_state"
  and ra_walks :: "fold_map \<Rightarrow> nat \<Rightarrow> node list \<Rightarrow> ra_state \<Rightarrow> ra_state" where
  "ra_walk fm d None st = st"
| "ra_walk fm d (Some n) (cs, ad) =
     (if nd_kind n = ND_DEREF \<and> foldable_alias fm (nd_lhs n) \<noteq> None then
        (ra_use d (foldable_alias fm (nd_lhs n)) cs, ad)
      else if nd_kind n = ND_ADDR \<and> fa_is_init fm n then (cs, ad)
      else
        (let ad = (if nd_kind n = ND_ADDR then ra_note_addr (nd_lhs n) ad else ad);
             cs = (if nd_kind n = ND_VAR then ra_use d (nd_var n) cs else cs)
         in if nd_kind n = ND_FOR then
              (let st = ra_walk fm d (nd_init n) (cs, ad); st = ra_walk fm (Suc d) (nd_cond n) st;
                   st = ra_walk fm (Suc d) (nd_inc n) st
               in ra_walk fm (Suc d) (nd_then n) st)
            else if nd_kind n = ND_DO then
              (let st = ra_walk fm (Suc d) (nd_cond n) (cs, ad) in ra_walk fm (Suc d) (nd_then n) st)
            else
              (let st = ra_walk fm d (nd_lhs n) (cs, ad); st = ra_walk fm d (nd_rhs n) st;
                   st = ra_walk fm d (nd_cond n) st; st = ra_walk fm d (nd_then n) st;
                   st = ra_walk fm d (nd_els n) st; st = ra_walk fm d (nd_init n) st;
                   st = ra_walk fm d (nd_inc n) st; st = ra_walks fm d (nd_body n) st
               in ra_walks fm d (nd_args n) st)))"
| "ra_walks fm d [] st = st"
| "ra_walks fm d (n # ns) st = ra_walks fm d ns (ra_walk fm d (Some n) st)"
  by pat_completeness auto
termination
  by (relation "measure (case_sum (\<lambda>(fm, d, n, st). size_option size n) (\<lambda>(fm, d, ns, st). Suc (size_list size ns)))") auto

declare ra_walk.simps(2) [simp del]

definition ra_add_cand :: "objs \<Rightarrow> func \<Rightarrow> obj_id \<Rightarrow> ra_cand list \<Rightarrow> ra_cand list" where
  "ra_add_cand E fn v cs =
     (if 256 \<le> length cs \<or> Some v = fn_va_area fn \<or> Some v = fn_alloca_bottom fn then cs
      else if o_name (E v) = [] then cs
      else if ty_size (o_ty (E v)) \<noteq> 4 \<or> \<not> (is_integer (o_ty (E v)) \<or> ty_kind (o_ty (E v)) = TY_PTR) then cs
      else cs @ [\<lparr>rc_var = v, rc_uses = 0, rc_loopuses = 0\<rparr>])"

text \<open>The registers are reset (a promotion of nothing); the result is the fold map and the walk's state.\<close>

definition ir_prep_regs :: "bool \<Rightarrow> objs \<Rightarrow> func \<Rightarrow> fold_map \<times> ra_state" where
  "ir_prep_regs opt_regalloc E fn =
     (if \<not> opt_regalloc \<or> fn_uses_returns_twice fn then ([], [], [])
      else
        (let fm = fa_find E (fn_body fn) []; fm = fa_drop fm (fa_count fm (fn_body fn) (replicate (length fm) (0, 0)));
             cs = fold (ra_add_cand E fn) (fn_params fn) []; cs = fold (ra_add_cand E fn) (fn_locals fn) cs
         in (fm, ra_walk fm 0 (fn_body fn) (cs, []))))"

section \<open>What the walk counts\<close>

text \<open>The references of a tree in the order of the walk: a use, inside a loop or not, or an address.\<close>

datatype ra_ref = Use obj_id bool | Addr obj_id

definition addr_ref :: "node option \<Rightarrow> ra_ref list" where
  "addr_ref n = (case peel ND_MEMBER n of Some m \<Rightarrow> if nd_kind m = ND_VAR then (case nd_var m of Some v \<Rightarrow> [Addr v] | None \<Rightarrow> []) else []
     | None \<Rightarrow> [])"

definition use_ref :: "bool \<Rightarrow> obj_id option \<Rightarrow> ra_ref list" where
  "use_ref lp v = (case v of Some v \<Rightarrow> [Use v lp] | None \<Rightarrow> [])"

function ra_refs :: "fold_map \<Rightarrow> bool \<Rightarrow> node option \<Rightarrow> ra_ref list"
  and ra_refss :: "fold_map \<Rightarrow> bool \<Rightarrow> node list \<Rightarrow> ra_ref list" where
  "ra_refs fm lp None = []"
| "ra_refs fm lp (Some n) =
     (if nd_kind n = ND_DEREF \<and> foldable_alias fm (nd_lhs n) \<noteq> None then use_ref lp (foldable_alias fm (nd_lhs n))
      else if nd_kind n = ND_ADDR \<and> fa_is_init fm n then []
      else
        (if nd_kind n = ND_ADDR then addr_ref (nd_lhs n) else []) @
        (if nd_kind n = ND_VAR then use_ref lp (nd_var n) else []) @
        (if nd_kind n = ND_FOR then
           ra_refs fm lp (nd_init n) @ ra_refs fm True (nd_cond n) @ ra_refs fm True (nd_inc n) @ ra_refs fm True (nd_then n)
         else if nd_kind n = ND_DO then ra_refs fm True (nd_cond n) @ ra_refs fm True (nd_then n)
         else
           ra_refs fm lp (nd_lhs n) @ ra_refs fm lp (nd_rhs n) @ ra_refs fm lp (nd_cond n) @ ra_refs fm lp (nd_then n) @
           ra_refs fm lp (nd_els n) @ ra_refs fm lp (nd_init n) @ ra_refs fm lp (nd_inc n) @
           ra_refss fm lp (nd_body n) @ ra_refss fm lp (nd_args n)))"
| "ra_refss fm lp [] = []"
| "ra_refss fm lp (n # ns) = ra_refs fm lp (Some n) @ ra_refss fm lp ns"
  by pat_completeness auto
termination
  by (relation "measure (case_sum (\<lambda>(fm, lp, n). size_option size n) (\<lambda>(fm, lp, ns). Suc (size_list size ns)))") auto

declare ra_refs.simps(2) [simp del]

fun ref_uses :: "ra_ref list \<Rightarrow> (obj_id \<times> bool) list" where
  "ref_uses [] = []"
| "ref_uses (Use v lp # rs) = (v, lp) # ref_uses rs"
| "ref_uses (Addr v # rs) = ref_uses rs"

fun ref_addrs :: "ra_ref list \<Rightarrow> obj_id list" where
  "ref_addrs [] = []"
| "ref_addrs (Use v lp # rs) = ref_addrs rs"
| "ref_addrs (Addr v # rs) = v # ref_addrs rs"

lemma ref_append [simp]:
  "ref_uses (a @ b) = ref_uses a @ ref_uses b" "ref_addrs (a @ b) = ref_addrs a @ ref_addrs b"
  by (induction a rule: ref_uses.induct) simp_all

lemma ref_use_ref [simp]:
  "ref_uses (use_ref lp (Some v)) = [(v, lp)]" "ref_uses (use_ref lp None) = []"
  by (simp_all add: use_ref_def)

lemma addrs_use_ref [simp]: "ref_addrs (use_ref lp w) = []"
  by (cases w) (simp_all add: use_ref_def)

lemma uses_addr_ref [simp]: "ref_uses (addr_ref n) = []"
proof (cases "peel ND_MEMBER n")
  case (Some m)
  then show ?thesis by (cases "nd_var m") (simp_all add: addr_ref_def)
qed (simp add: addr_ref_def)

definition count_use :: "obj_id \<times> bool \<Rightarrow> ra_cand list \<Rightarrow> ra_cand list" where
  "count_use r cs = ra_use (of_bool (snd r)) (Some (fst r)) cs"

lemma ra_use_depth: "ra_use d v cs = ra_use (of_bool (d \<noteq> 0)) v cs"
  by (simp add: ra_use_def split: option.split)

lemma ra_use_None [simp]: "ra_use d None cs = cs"
proof -
  have "ra_cand_index cs None = None" by (simp add: ra_cand_index_def find_None_iff)
  then show ?thesis by (simp add: ra_use_def)
qed

lemma fold_use_ref: "fold count_use (ref_uses (use_ref lp v)) cs = ra_use (of_bool lp) v cs"
  by (cases v) (simp_all add: count_use_def)

lemma note_addr: "ra_note_addr n (take 256 ad) = take 256 (ad @ ref_addrs (addr_ref n))"
  by (auto simp: ra_note_addr_def addr_ref_def split: option.split)

text \<open>The walk counts each use once and notes the addresses in order, up to 256 of them.\<close>

lemma ra_walk_refs:
  "d \<noteq> 0 \<longleftrightarrow> lp \<Longrightarrow> ra_walk fm d n (cs, take 256 ad) =
     (fold count_use (ref_uses (ra_refs fm lp n)) cs, take 256 (ad @ ref_addrs (ra_refs fm lp n)))"
  "d \<noteq> 0 \<longleftrightarrow> lp \<Longrightarrow> ra_walks fm d ns (cs, take 256 ad) =
     (fold count_use (ref_uses (ra_refss fm lp ns)) cs, take 256 (ad @ ref_addrs (ra_refss fm lp ns)))"
proof (induction fm lp n and fm lp ns arbitrary: cs ad d and cs ad d rule: ra_refs_ra_refss.induct)
  case (2 fm lp n)
  note IH = 2(1-15) and d = 2(16)
  have u: "fold count_use (ref_uses (use_ref lp v)) cs = ra_use d v cs" for v and cs :: "ra_cand list"
    using d by (cases lp) (simp_all add: fold_use_ref ra_use_depth [of d])
  show ?case
  proof (cases "(nd_kind n = ND_DEREF \<and> foldable_alias fm (nd_lhs n) \<noteq> None) \<or> (nd_kind n = ND_ADDR \<and> fa_is_init fm n)")
    case True
    then show ?thesis using u by (auto simp: ra_walk.simps(2) ra_refs.simps(2))
  next
    case False
    then have f: "\<not> (nd_kind n = ND_DEREF \<and> foldable_alias fm (nd_lhs n) \<noteq> None)" "\<not> (nd_kind n = ND_ADDR \<and> fa_is_init fm n)"
      by blast+
    define ad1 where "ad1 = (if nd_kind n = ND_ADDR then ad @ ref_addrs (addr_ref (nd_lhs n)) else ad)"
    define cs1 where "cs1 = (if nd_kind n = ND_VAR then ra_use d (nd_var n) cs else cs)"
    have ad: "(if nd_kind n = ND_ADDR then ra_note_addr (nd_lhs n) (take 256 ad) else take 256 ad) = take 256 ad1"
      by (simp add: ad1_def note_addr del: take_append)
    note unf = ra_walk.simps(2) [of fm d n cs "take 256 ad"] ra_refs.simps(2) [of fm lp n]
    note unf = unf [unfolded if_not_P [OF f(1)] if_not_P [OF f(2)]]
    consider (For) "nd_kind n = ND_FOR" | (Do) "nd_kind n = ND_DO" | (other) "nd_kind n \<noteq> ND_FOR" "nd_kind n \<noteq> ND_DO" by blast
    then show ?thesis
    proof cases
      case For
      then show ?thesis using IH(1-4) [OF f For] d
        by (simp add: unf del: take_append)
    next
      case Do
      then show ?thesis using IH(5,6) [OF f _ Do] d
        by (simp add: unf del: take_append)
    next
      case other
      show ?thesis using IH(7-) [OF f other] d
        by (simp add: unf other ad Let_def del: take_append) (auto simp: ad1_def u simp del: take_append)
    qed
  qed
qed (simp_all del: take_append)

text \<open>A variable can be listed twice (the locals of a function contain its parameters): only its first
  entry is counted.\<close>

definition first_entry :: "ra_cand list \<Rightarrow> nat \<Rightarrow> bool" where
  "first_entry cs i \<longleftrightarrow> (\<forall>k < i. rc_var (cs ! k) \<noteq> rc_var (cs ! i))"

lemma cand_index:
  assumes "first_entry cs i" "i < length cs"
  shows "ra_cand_index cs (Some (rc_var (cs ! i))) = Some i"
  using assms by (auto simp: ra_cand_index_def first_entry_def find_Some_iff)

lemma cand_index_Some: "ra_cand_index cs v = Some i \<Longrightarrow> i < length cs \<and> v = Some (rc_var (cs ! i))"
  by (auto simp: ra_cand_index_def find_Some_iff)

lemma ra_use_vars [simp]: "map rc_var (ra_use d v cs) = map rc_var cs"
proof (cases "ra_cand_index cs v")
  case (Some i)
  then have "i < length cs" using cand_index_Some by blast
  then have "(map rc_var cs)[i := rc_var (cs ! i)] = map rc_var cs" by (metis length_map list_update_id nth_map)
  then show ?thesis using Some by (simp add: ra_use_def map_update)
qed (simp add: ra_use_def)

lemma length_ra_use [simp]: "length (ra_use d v cs) = length cs"
  using ra_use_vars [of d v cs] by (metis length_map)

lemma cand_index_first: "ra_cand_index cs v = Some i \<Longrightarrow> first_entry cs i"
  by (auto simp: ra_cand_index_def first_entry_def find_Some_iff)

lemma first_entry_vars:
  assumes "map rc_var cs' = map rc_var cs" "i < length cs"
  shows "first_entry cs' i \<longleftrightarrow> first_entry cs i"
proof -
  have "rc_var (cs' ! k) = rc_var (cs ! k)" if "k < length cs" for k
    using assms(1) that by (metis length_map nth_map)
  then show ?thesis using assms(2) by (simp add: first_entry_def)
qed

lemma ra_use_counts:
  assumes "i < length cs"
  shows "rc_uses (ra_use d (Some v) cs ! i) =
      rc_uses (cs ! i) + of_bool (first_entry cs i \<and> v = rc_var (cs ! i)) \<and>
    rc_loopuses (ra_use d (Some v) cs ! i) =
      rc_loopuses (cs ! i) + of_bool (first_entry cs i \<and> v = rc_var (cs ! i) \<and> d \<noteq> 0)"
proof (cases "first_entry cs i \<and> v = rc_var (cs ! i)")
  case True
  then show ?thesis using cand_index [of cs i] assms by (simp add: ra_use_def)
next
  case False
  then have n: "ra_cand_index cs (Some v) \<noteq> Some i" using cand_index_Some cand_index_first by fastforce
  have "ra_use d (Some v) cs ! i = cs ! i"
    using n by (auto simp: ra_use_def split: option.split)
  then show ?thesis using False by auto
qed

lemma count_use_vars: "map rc_var (fold count_use us cs) = map rc_var cs"
  by (induction us arbitrary: cs) (simp_all add: count_use_def)

lemma count_uses:
  assumes "i < length cs"
  shows "rc_uses (fold count_use us cs ! i) = rc_uses (cs ! i) +
      (if first_entry cs i then length (filter (\<lambda>r. fst r = rc_var (cs ! i)) us) else 0) \<and>
    rc_loopuses (fold count_use us cs ! i) = rc_loopuses (cs ! i) +
      (if first_entry cs i then length (filter (\<lambda>r. fst r = rc_var (cs ! i) \<and> snd r) us) else 0)"
  using assms
proof (induction us arbitrary: cs)
  case (Cons u us)
  have v: "map rc_var (count_use u cs) = map rc_var cs" by (simp add: count_use_def)
  have vi: "rc_var (count_use u cs ! i) = rc_var (cs ! i)"
    using v Cons.prems by (metis length_map nth_map)
  have l: "i < length (count_use u cs)" using Cons.prems by (simp add: count_use_def)
  note c = ra_use_counts [OF Cons.prems, of "of_bool (snd u)" "fst u"]
  show ?case
    using Cons.IH [OF l] v vi c first_entry_vars [OF v Cons.prems] by (auto simp: count_use_def)
qed simp

lemma prep_walk: "ra_walk fm 0 n (cs, []) =
    (fold count_use (ref_uses (ra_refs fm False n)) cs, take 256 (ref_addrs (ra_refs fm False n)))"
  using ra_walk_refs(1) [of 0 False fm n cs "[]"] by simp

section \<open>Candidates\<close>

text \<open>The variables \<open>ra_add_cand\<close> takes: named scalars of 4 bytes, other than the two the function keeps
  for itself.\<close>

definition cand_var :: "objs \<Rightarrow> func \<Rightarrow> obj_id \<Rightarrow> bool" where
  "cand_var E fn v \<longleftrightarrow> Some v \<noteq> fn_va_area fn \<and> Some v \<noteq> fn_alloca_bottom fn \<and> o_name (E v) \<noteq> [] \<and>
     ty_size (o_ty (E v)) = 4 \<and> (is_integer (o_ty (E v)) \<or> ty_kind (o_ty (E v)) = TY_PTR)"

abbreviation new_cand :: "obj_id \<Rightarrow> ra_cand" where
  "new_cand v \<equiv> \<lparr>rc_var = v, rc_uses = 0, rc_loopuses = 0\<rparr>"

lemma add_cands:
  "length cs \<le> 256 \<Longrightarrow>
   fold (ra_add_cand E fn) vs cs = cs @ map new_cand (take (256 - length cs) (filter (cand_var E fn) vs))"
proof (induction vs arbitrary: cs)
  case (Cons v vs)
  have "ra_add_cand E fn v cs = (if length cs < 256 \<and> cand_var E fn v then cs @ [new_cand v] else cs)"
    by (auto simp: ra_add_cand_def cand_var_def)
  then show ?case using Cons by (auto simp: take_Cons' not_less)
qed simp

section \<open>Main theorems\<close>

text \<open>
  C21: what \<open>ir_prep_regs\<close> collects for a function. The candidates are the named scalars of 4 bytes among the
  parameters and the locals in that order, at most 256 entries; a variable in both lists is entered twice. The
  first entry of a variable counts the references to it in the body, through the folded compound-assignment
  temporaries too, and those inside loops; a later entry of it counts nothing. The recorded addresses
  are the first 256 addresses taken in the order of the walk.
\<close>

theorem ir_prep_regs_counts:
  assumes "ir_prep_regs True E fn = (fm, cs, ad)" and "\<not> fn_uses_returns_twice fn"
  shows "map rc_var cs = take 256 (filter (cand_var E fn) (fn_params fn @ fn_locals fn)) \<and>
    (\<forall>i < length cs.
       rc_uses (cs ! i) = (if first_entry cs i
         then length (filter (\<lambda>r. fst r = rc_var (cs ! i)) (ref_uses (ra_refs fm False (fn_body fn)))) else 0) \<and>
       rc_loopuses (cs ! i) = (if first_entry cs i
         then length (filter (\<lambda>r. fst r = rc_var (cs ! i) \<and> snd r) (ref_uses (ra_refs fm False (fn_body fn)))) else 0)) \<and>
    ad = take 256 (ref_addrs (ra_refs fm False (fn_body fn)))"
proof -
  define vs where "vs = take 256 (filter (cand_var E fn) (fn_params fn @ fn_locals fn))"
  let ?us = "ref_uses (ra_refs fm False (fn_body fn))"
  have cands: "fold (ra_add_cand E fn) (fn_locals fn) (fold (ra_add_cand E fn) (fn_params fn) []) = map new_cand vs"
    by (simp add: add_cands vs_def min_def)
  have cs: "cs = fold count_use ?us (map new_cand vs)" and ad: "ad = take 256 (ref_addrs (ra_refs fm False (fn_body fn)))"
    using assms by (auto simp: ir_prep_regs_def Let_def cands prep_walk)
  have vars: "map rc_var cs = vs" using cs by (simp add: count_use_vars comp_def)
  have "rc_uses (cs ! i) = (if first_entry cs i then length (filter (\<lambda>r. fst r = rc_var (cs ! i)) ?us) else 0) \<and>
      rc_loopuses (cs ! i) = (if first_entry cs i then length (filter (\<lambda>r. fst r = rc_var (cs ! i) \<and> snd r) ?us) else 0)"
    if i: "i < length cs" for i
  proof -
    have l: "i < length vs" using i vars by (metis length_map)
    have "rc_var (cs ! i) = vs ! i" using vars i by (metis nth_map)
    moreover have "first_entry cs i \<longleftrightarrow> first_entry (map new_cand vs) i"
      using vars l by (intro first_entry_vars) (simp_all add: comp_def)
    ultimately show ?thesis using count_uses [of i "map new_cand vs" ?us] l cs by (simp add: o_def)
  qed
  then show ?thesis using vars ad unfolding vs_def by blast
qed

text \<open>A variable, its address, and a loop over an expression.\<close>

definition var_node :: "obj_id \<Rightarrow> node" where
  "var_node v = Node 0 ND_VAR None None None None None None None None [] [] [] [] False False False None [] (Some v) 0"

definition addr_node :: "obj_id \<Rightarrow> node" where
  "addr_node v = Node 0 ND_ADDR None (Some (var_node v)) None None None None None None [] [] [] [] False False False None [] None 0"

definition loop_node :: "node \<Rightarrow> node" where
  "loop_node b = Node 0 ND_FOR None None None None (Some b) None None None [] [] [] [] False False False None [] None 0"

definition block_node :: "node list \<Rightarrow> node" where
  "block_node ns = Node 0 ND_BLOCK None None None None None None None None [] [] ns [] False False False None [] None 0"

lemma ra_refs_nodes [simp]:
  "ra_refs fm lp (Some (var_node v)) = [Use v lp]"
  "fa_is_init fm (addr_node v) = False \<Longrightarrow> ra_refs fm lp (Some (addr_node v)) = [Addr v, Use v lp]"
  "ra_refs fm lp (Some (loop_node b)) = ra_refs fm True (Some b)"
  "ra_refs fm lp (Some (block_node ns)) = ra_refss fm lp ns"
  by (simp_all add: ra_refs.simps(2) var_node_def addr_node_def loop_node_def block_node_def use_ref_def addr_ref_def)

definition int_objs :: objs where
  "int_objs v = \<lparr>o_name = ''x'', o_ty = ty_int, o_is_local = True, o_offset = 0\<rparr>"

definition loop_fn :: func where
  "loop_fn = \<lparr>fn_name = ''f'', fn_params = [7], fn_locals = [3, 7], fn_va_area = None, fn_alloca_bottom = None,
     fn_uses_returns_twice = False, fn_body = Some (loop_node (block_node [var_node 7, addr_node 3]))\<rparr>"

lemma ir_prep_regs_counts_witness:
  "case ir_prep_regs True int_objs loop_fn of (fm, cs, ad) \<Rightarrow>
     map rc_var cs = [7, 3, 7] \<and> map rc_loopuses cs = [1, 1, 0] \<and> ad = [3]"
proof -
  obtain fm cs ad where p: "ir_prep_regs True int_objs loop_fn = (fm, cs, ad)" by (metis prod_cases3)
  have "fst (ir_prep_regs True int_objs loop_fn) = []" by code_simp
  then have fm: "fm = []" using p by simp
  have i: "\<not> fa_is_init [] (addr_node 3)" by code_simp
  have r: "fn_body loop_fn = Some (loop_node (block_node [var_node 7, addr_node 3]))" "\<not> fn_uses_returns_twice loop_fn"
    by (simp_all add: loop_fn_def)
  note c = ir_prep_regs_counts [OF p r(2), unfolded fm r(1)]
  have k: "cand_var int_objs loop_fn v" for v
    by (simp add: cand_var_def int_objs_def loop_fn_def ty_int_def basic_type_def new_type_def is_integer_def)
  have "fn_params loop_fn = [7]" "fn_locals loop_fn = [3, 7]" by (simp_all add: loop_fn_def)
  then have v: "map rc_var cs = [7, 3, 7]" using c k by simp
  then have l: "length cs = 3" by (metis length_map length_Cons list.size(3) numeral_3_eq_3)
  have n: "rc_var (cs ! 0) = 7" "rc_var (cs ! 1) = 3" "rc_var (cs ! 2) = 7"
    using v l by (auto simp: map_eq_Cons_conv)
  have f: "first_entry cs 0" "first_entry cs 1" "\<not> first_entry cs 2"
    using n by (auto simp: first_entry_def less_Suc_eq numeral_2_eq_2)
  have "rc_loopuses (cs ! 0) = 1" "rc_loopuses (cs ! 1) = 1" "rc_loopuses (cs ! 2) = 0"
    using c l f n i by simp_all
  then have "map rc_loopuses cs = [1, 1, 0]"
    using l by (auto simp: list_eq_iff_nth_eq less_Suc_eq numeral_3_eq_3 numeral_2_eq_2)
  moreover have "ad = [3]" using c i by (simp)
  ultimately show ?thesis using p v by simp
qed

text \<open>
  the 257th address is lost. In a body that takes the address of one variable 256 times and then that of
  another, the other is treated as if its address was never taken, and is a candidate for a register.
\<close>

theorem ra_addr_overflow:
  "case ra_walk [] 0 (Some (block_node (replicate 256 (addr_node 0) @ [addr_node 1, loop_node (var_node 1)])))
       ([\<lparr>rc_var = 1, rc_uses = 0, rc_loopuses = 0\<rparr>], []) of (cs, ad) \<Rightarrow>
     Addr 1 \<in> set (ra_refs [] False (Some (block_node (replicate 256 (addr_node 0) @ [addr_node 1, loop_node (var_node 1)])))) \<and>
     1 \<le> rc_loopuses (cs ! 0) \<and> \<not> ra_addr_taken ad 1"
proof -
  have a: "\<not> fa_is_init [] (addr_node v)" for v by (simp add: fa_is_init_def)
  have app: "ra_refss [] False (xs @ ys) = ra_refss [] False xs @ ra_refss [] False ys" for xs ys by (induction xs) auto
  have rep: "ref_addrs (ra_refss [] False (replicate k (addr_node 0))) = replicate k 0"
    "ref_uses (ra_refss [] False (replicate k (addr_node 0))) = replicate k (0, False)" for k
    using a by (induction k) auto
  have f: "(count_use (0, False) ^^ k) [\<lparr>rc_var = Suc 0, rc_uses = 0, rc_loopuses = 0\<rparr>] = [\<lparr>rc_var = Suc 0, rc_uses = 0, rc_loopuses = 0\<rparr>]" for k
    by (induction k) (simp_all add: count_use_def ra_use_def ra_cand_index_def)
  show ?thesis
    by (simp add: prep_walk app rep a f count_use_def ra_use_def ra_cand_index_def ra_addr_taken_def list_ex_iff)
qed

end
