(* ===== verification/Ra_Live.thy ===== *)
theory Ra_Live
  imports Ra_Collect Ir_Cfg
begin

text \<open>
  Global liveness and interference of the register allocator (\<open>ra_ev_walk\<close>, \<open>ra_liveness\<close> of
  \<open>src/ir68k.c\<close>). A set of candidates is a bit vector of eight words (\<open>RaSet\<close>), as in the code; the
  lemmas relate it to the set of candidate numbers it stands for. The fixpoint loop is a partial
  function, and it is proved to return.
\<close>

section \<open>Bit sets\<close>

type_synonym ra_set = "u32 list"

definition ra_set_zero :: ra_set where
  "ra_set_zero = replicate 8 0"

definition ra_set_add :: "ra_set \<Rightarrow> nat \<Rightarrow> ra_set" where
  "ra_set_add s i = s[i div 32 := s ! (i div 32) OR push_bit (i mod 32) 1]"

definition ra_set_del :: "ra_set \<Rightarrow> nat \<Rightarrow> ra_set" where
  "ra_set_del s i = s[i div 32 := s ! (i div 32) AND NOT (push_bit (i mod 32) 1)]"

definition ra_set_has :: "ra_set \<Rightarrow> nat \<Rightarrow> bool" where
  "ra_set_has s i \<longleftrightarrow> drop_bit (i mod 32) (s ! (i div 32)) AND 1 \<noteq> 0"

text \<open>\<open>d |= s\<close> and whether a bit was newly set, word by word.\<close>

definition ra_set_or :: "ra_set \<Rightarrow> ra_set \<Rightarrow> ra_set \<times> bool" where
  "ra_set_or d s =
     foldl (\<lambda>(d, ch) i. let n = d ! i OR s ! i in if n \<noteq> d ! i then (d[i := n], True) else (d, ch)) (d, False) [0..<8]"

text \<open>The loop \<open>ni[w] &= ~def[b][w]\<close>.\<close>

definition ra_set_minus :: "ra_set \<Rightarrow> ra_set \<Rightarrow> ra_set" where
  "ra_set_minus d s = foldl (\<lambda>d i. d[i := d ! i AND NOT (s ! i)]) d [0..<8]"

definition ra_conf_add :: "nat \<Rightarrow> nat \<Rightarrow> ra_set list \<Rightarrow> ra_set list" where
  "ra_conf_add i j C =
     (if i \<noteq> j then (let C = C[i := ra_set_add (C ! i) j] in C[j := ra_set_add (C ! j) i]) else C)"

section \<open>Uses and definitions\<close>

definition ra_colorable :: "ra_state \<Rightarrow> nat \<Rightarrow> bool" where
  "ra_colorable st i \<longleftrightarrow> 1 \<le> rc_loopuses (fst st ! i) \<and> \<not> ra_addr_taken (snd st) (rc_var (fst st ! i))"

definition ra_cand_of_var :: "ra_state \<Rightarrow> obj_id option \<Rightarrow> nat option" where
  "ra_cand_of_var st v =
     (case v of None \<Rightarrow> None
      | Some w \<Rightarrow> (case ra_cand_index (fst st) (Some w) of None \<Rightarrow> None
                 | Some i \<Rightarrow> if ra_colorable st i then Some i else None))"

definition ra_cand_of_lea :: "ra_state \<Rightarrow> ir_expr \<Rightarrow> nat option" where
  "ra_cand_of_lea st e = (case e of IE_LEA is_local off name v \<Rightarrow> if is_local then ra_cand_of_var st (Some v) else None | _ \<Rightarrow> None)"

text \<open>An event: the candidate and 0 for a use, 1 for a must-def, 2 for a may-def.\<close>

type_synonym ra_ev = "nat \<times> nat"

definition ra_ev_push :: "nat option \<Rightarrow> nat \<Rightarrow> ra_ev list \<Rightarrow> ra_ev list" where
  "ra_ev_push ci k evs = (case ci of None \<Rightarrow> evs | Some i \<Rightarrow> if length evs < 4096 then evs @ [(i, k)] else evs)"

fun ra_ev_walk :: "ra_state \<Rightarrow> ir_expr \<Rightarrow> bool \<Rightarrow> ra_ev list \<Rightarrow> ra_ev list"
  and ra_ev_args :: "ra_state \<Rightarrow> ir_expr list \<Rightarrow> bool \<Rightarrow> ra_ev list \<Rightarrow> ra_ev list" where
  "ra_ev_walk st (IE_LOAD a sz u) c evs =
     (case ra_cand_of_lea st a of Some i \<Rightarrow> ra_ev_push (Some i) 0 evs | None \<Rightarrow> ra_ev_walk st a c evs)"
| "ra_ev_walk st (IE_STORE a b sz u) c evs =
     (case ra_cand_of_lea st a of
        Some i \<Rightarrow> ra_ev_push (Some i) (if c then 2 else 1) (ra_ev_walk st b c evs)
      | None \<Rightarrow> ra_ev_walk st b c (ra_ev_walk st a c evs))"
| "ra_ev_walk st (IE_MEMZERO v off sz) c evs = ra_ev_push (ra_cand_of_var st (Some v)) (if c then 2 else 1) evs"
| "ra_ev_walk st (IE_COND a b d sz u) c evs = ra_ev_walk st d True (ra_ev_walk st b True (ra_ev_walk st a c evs))"
| "ra_ev_walk st (IE_LOGAND a b) c evs = ra_ev_walk st b True (ra_ev_walk st a c evs)"
| "ra_ev_walk st (IE_LOGOR a b) c evs = ra_ev_walk st b True (ra_ev_walk st a c evs)"
| "ra_ev_walk st (IE_VDEF t a sz) c evs = ra_ev_walk st a c evs"
| "ra_ev_walk st (IE_VUSE t sz) c evs = evs"
| "ra_ev_walk st (IE_CALL nm a args sz u) c evs =
     ra_ev_args st args c (case a of None \<Rightarrow> evs | Some f \<Rightarrow> ra_ev_walk st f c evs)"
| "ra_ev_walk st (IE_BINOP op a b sz u pa) c evs = ra_ev_walk st b c (ra_ev_walk st a c evs)"
| "ra_ev_walk st (IE_COMMA a b sz u) c evs = ra_ev_walk st b c (ra_ev_walk st a c evs)"
| "ra_ev_walk st (IE_UNARY op a sz u) c evs = ra_ev_walk st a c evs"
| "ra_ev_walk st (IE_CAST op a sz u fs fu) c evs = ra_ev_walk st a c evs"
| "ra_ev_walk st IE_NOP c evs = evs"
| "ra_ev_walk st (IE_NUM n sz u) c evs = evs"
| "ra_ev_walk st (IE_LEA is_local off name v) c evs = evs"
| "ra_ev_args st [] c evs = evs"
| "ra_ev_args st (x # xs) c evs = ra_ev_args st xs c (ra_ev_walk st x c evs)"

fun item_expr :: "ir_item \<Rightarrow> ir_expr option" where
  "item_expr (II_CBR e l w) = Some e"
| "item_expr (II_EVAL e) = Some e"
| "item_expr (II_RET r) = r"
| "item_expr _ = None"

text \<open>The events of an item, from an empty buffer.\<close>

definition item_events :: "ra_state \<Rightarrow> ir_item \<Rightarrow> ra_ev list" where
  "item_events st it = (case item_expr it of None \<Rightarrow> [] | Some e \<Rightarrow> ra_ev_walk st e False [])"

definition block_events :: "ra_state \<Rightarrow> ir_item list \<Rightarrow> ir_block \<Rightarrow> ra_ev list" where
  "block_events st its b = concat (map (\<lambda>i. item_events st (its ! i)) [bl_start b..<bl_end b])"

section \<open>Liveness\<close>

text \<open>One event of the forward pass over a block: (use, def, defined).\<close>

definition use_def_step :: "ra_set \<times> ra_set \<times> ra_set \<Rightarrow> ra_ev \<Rightarrow> ra_set \<times> ra_set \<times> ra_set" where
  "use_def_step S ev =
     (case (S, ev) of ((use, df, defined), (ci, k)) \<Rightarrow>
        if k = 0 then (if \<not> ra_set_has defined ci then ra_set_add use ci else use, df, defined)
        else if k = 1 then (use, ra_set_add df ci, ra_set_add defined ci)
        else (use, df, defined))"

definition block_use_def :: "ra_ev list \<Rightarrow> ra_set \<times> ra_set" where
  "block_use_def evs =
     (case foldl use_def_step (ra_set_zero, ra_set_zero, ra_set_zero) evs of (use, df, defined) \<Rightarrow> (use, df))"

text \<open>One block of the backward pass; the state is (in, out, changed).\<close>

type_synonym live_state = "ra_set list \<times> ra_set list \<times> bool"

definition live_block :: "ir_block list \<Rightarrow> ra_set list \<Rightarrow> ra_set list \<Rightarrow> live_state \<Rightarrow> nat \<Rightarrow> live_state" where
  "live_block bs use df S b =
     (case S of (inn, out, ch) \<Rightarrow>
        (let o' = foldl (\<lambda>o' s. fst (ra_set_or o' (inn ! s))) ra_set_zero (bl_succ (bs ! b));
             ni = fst (ra_set_or (ra_set_minus o' (df ! b)) (use ! b))
         in case ra_set_or (inn ! b) ni of (n, c) \<Rightarrow> (inn[b := n], out[b := o'], ch \<or> c)))"

definition live_pass :: "ir_block list \<Rightarrow> ra_set list \<Rightarrow> ra_set list \<Rightarrow> ra_set list \<times> ra_set list \<Rightarrow> live_state" where
  "live_pass bs use df S =
     (case S of (inn, out) \<Rightarrow> foldl (live_block bs use df) (inn, out, False) (rev [0..<length bs]))"

partial_function (option) live_loop ::
  "ir_block list \<Rightarrow> ra_set list \<Rightarrow> ra_set list \<Rightarrow> ra_set list \<times> ra_set list \<Rightarrow> (ra_set list \<times> ra_set list) option" where
  "live_loop bs use df S =
     (case live_pass bs use df S of (inn, out, ch) \<Rightarrow>
        if ch then live_loop bs use df (inn, out) else Some (inn, out))"

declare live_loop.simps [code]

section \<open>Interference\<close>

text \<open>One event of the backward walk; the state is (live, conf). \<open>n\<close> is the number of candidates.\<close>

definition conf_step :: "nat \<Rightarrow> ra_ev \<Rightarrow> ra_set \<times> ra_set list \<Rightarrow> ra_set \<times> ra_set list" where
  "conf_step n ev S =
     (case (ev, S) of ((ci, k), (live, C)) \<Rightarrow>
        if k = 0 then (ra_set_add live ci, C)
        else (if k = 1 then ra_set_del live ci else live,
              foldl (\<lambda>C j. if j \<noteq> ci \<and> ra_set_has live j then ra_conf_add ci j C else C) C [0..<n]))"

definition conf_block :: "nat \<Rightarrow> ra_ev list \<Rightarrow> ra_set \<Rightarrow> ra_set list \<Rightarrow> ra_set list" where
  "conf_block n evs live C = snd (foldr (conf_step n) evs (live, C))"

definition conf_entry :: "nat \<Rightarrow> ra_set \<Rightarrow> ra_set list \<Rightarrow> ra_set list" where
  "conf_entry n live C =
     foldl (\<lambda>C i. if ra_set_has live i
                  then foldl (\<lambda>C j. if ra_set_has live j then ra_conf_add i j C else C) C [Suc i..<n] else C) C [0..<n]"

text \<open>The interference matrix; the first \<open>ra_ncand\<close> rows are cleared, the others are not looked at.\<close>

definition ra_liveness :: "ra_state \<Rightarrow> ir_item list \<Rightarrow> ir_block list \<Rightarrow> ra_set list option" where
  "ra_liveness st its bs =
     (let n = length (fst st); evs = map (block_events st its) bs;
          ud = map block_use_def evs; use = map fst ud; df = map snd ud;
          z = replicate (length bs) ra_set_zero
      in case live_loop bs use df (z, z) of None \<Rightarrow> None
         | Some (inn, out) \<Rightarrow>
             (let C = foldl (\<lambda>C b. conf_block n (evs ! b) (out ! b) C) (replicate 256 ra_set_zero) [0..<length bs]
              in Some (if bs = [] then C else conf_entry n (inn ! 0) C)))"

definition ra_interfere :: "ra_set list \<Rightarrow> nat \<Rightarrow> nat \<Rightarrow> bool" where
  "ra_interfere C i j = ra_set_has (C ! i) j"

section \<open>Bit sets as sets of numbers\<close>

definition set_ok :: "ra_set \<Rightarrow> bool" where "set_ok s \<longleftrightarrow> length s = 8"

definition ra_abs :: "ra_set \<Rightarrow> nat set" where "ra_abs s = {i. i < 256 \<and> ra_set_has s i}"

lemma has_bit: "ra_set_has s i \<longleftrightarrow> bit (s ! (i div 32)) (i mod 32)"
  by (simp add: ra_set_has_def bit_iff_odd_drop_bit and_one_eq odd_iff_mod_2_eq_one)

lemma word_index: "i < 256 \<Longrightarrow> i div 32 < 8" for i :: nat
  by (simp add: less_mult_imp_div_less)

lemma abs_mem: "i \<in> ra_abs s \<longleftrightarrow> i < 256 \<and> bit (s ! (i div 32)) (i mod 32)"
  by (simp add: ra_abs_def has_bit)

lemma abs_bound: "ra_abs s \<subseteq> {..<256}"
  by (auto simp: ra_abs_def)

lemma abs_finite [simp]: "finite (ra_abs s)"
  by (rule finite_subset [OF abs_bound]) simp

lemma set_zero [simp]: "set_ok ra_set_zero" "ra_abs ra_set_zero = {}"
  by (auto simp: set_ok_def ra_set_zero_def abs_mem word_index)

lemma same_bit: "i div 32 = j div 32 \<Longrightarrow> i mod 32 = j mod 32 \<Longrightarrow> i = j" for i j :: nat
  by (metis div_mult_mod_eq)

lemma set_add [simp]:
  assumes "set_ok s" "i < 256"
  shows "set_ok (ra_set_add s i)" "ra_abs (ra_set_add s i) = insert i (ra_abs s)"
proof -
  show "set_ok (ra_set_add s i)" using assms by (simp add: set_ok_def ra_set_add_def)
  have "j \<in> ra_abs (ra_set_add s i) \<longleftrightarrow> j \<in> insert i (ra_abs s)" for j
    using assms word_index [of i] same_bit [of i j]
    by (auto simp: abs_mem ra_set_add_def set_ok_def nth_list_update bit_simps)
  then show "ra_abs (ra_set_add s i) = insert i (ra_abs s)" by blast
qed

lemma set_del [simp]:
  assumes "set_ok s" "i < 256"
  shows "set_ok (ra_set_del s i)" "ra_abs (ra_set_del s i) = ra_abs s - {i}"
proof -
  show "set_ok (ra_set_del s i)" using assms by (simp add: set_ok_def ra_set_del_def)
  have "j \<in> ra_abs (ra_set_del s i) \<longleftrightarrow> j \<in> ra_abs s - {i}" for j
    using assms word_index [of i] same_bit [of i j]
    by (auto simp: abs_mem ra_set_del_def set_ok_def nth_list_update bit_simps)
  then show "ra_abs (ra_set_del s i) = ra_abs s - {i}" by blast
qed

lemma has_abs: "i < 256 \<Longrightarrow> ra_set_has s i \<longleftrightarrow> i \<in> ra_abs s"
  by (simp add: ra_abs_def)

lemma upt8: "[0..<8] = [0, 1, 2, 3, 4, 5, 6, 7::nat]"
  by (simp add: upt_rec)

text \<open>The word loops act on the word lists element by element.\<close>

lemma foldl_update:
  "n \<le> length d \<Longrightarrow> foldl (\<lambda>d i. d[i := f (d ! i) i]) d [0..<n] = map (\<lambda>i. if i < n then f (d ! i) i else d ! i) [0..<length d]"
proof (induction n)
  case 0
  then show ?case by (simp add: map_nth)
next
  case (Suc n)
  have "foldl (\<lambda>d i. d[i := f (d ! i) i]) d [0..<Suc n] =
      (map (\<lambda>i. if i < n then f (d ! i) i else d ! i) [0..<length d])[n := f (d ! n) n]"
    using Suc by simp
  also have "\<dots> = map (\<lambda>i. if i < Suc n then f (d ! i) i else d ! i) [0..<length d]"
    using Suc.prems by (intro nth_equalityI) (auto simp: nth_list_update less_Suc_eq)
  finally show ?case .
qed

lemma set_minus [simp]:
  assumes "set_ok d"
  shows "set_ok (ra_set_minus d s)" "ra_abs (ra_set_minus d s) = ra_abs d - ra_abs s"
proof -
  have e: "ra_set_minus d s = map (\<lambda>i. d ! i AND NOT (s ! i)) [0..<8]"
    using foldl_update [of 8 d "\<lambda>w i. w AND NOT (s ! i)"] assms by (simp add: ra_set_minus_def set_ok_def)
  then show "set_ok (ra_set_minus d s)" by (simp add: set_ok_def)
  have "i \<in> ra_abs (ra_set_minus d s) \<longleftrightarrow> i \<in> ra_abs d - ra_abs s" for i
    using word_index [of i] by (auto simp: e abs_mem bit_simps)
  then show "ra_abs (ra_set_minus d s) = ra_abs d - ra_abs s" by blast
qed

lemma or_loop:
  "n \<le> length d \<Longrightarrow> foldl (\<lambda>(d, ch) i. let m = d ! i OR s ! i in if m \<noteq> d ! i then (d[i := m], True) else (d, ch)) (d, False) [0..<n] =
    (map (\<lambda>i. if i < n then d ! i OR s ! i else d ! i) [0..<length d], \<exists>i < n. d ! i OR s ! i \<noteq> d ! i)"
proof (induction n)
  case 0
  then show ?case by (simp add: map_nth)
next
  case (Suc n)
  let ?f = "\<lambda>(d, ch) i. let m = d ! i OR s ! i in if m \<noteq> d ! i then (d[i := m], True) else (d, ch)"
  let ?m = "\<lambda>n. map (\<lambda>i. if i < n then d ! i OR s ! i else d ! i) [0..<length d]"
  have u: "(?m n)[n := d ! n OR s ! n] = ?m (Suc n)" "d ! n OR s ! n = d ! n \<Longrightarrow> ?m n = ?m (Suc n)"
    using Suc.prems by (auto intro!: nth_equalityI simp: nth_list_update less_Suc_eq)
  have "foldl ?f (d, False) [0..<Suc n] = ?f (?m n, \<exists>i < n. d ! i OR s ! i \<noteq> d ! i) n" using Suc by simp
  also have "\<dots> = (?m (Suc n), \<exists>i < Suc n. d ! i OR s ! i \<noteq> d ! i)"
    using u Suc.prems by (auto simp: Let_def less_Suc_eq)
  finally show ?case .
qed

lemma set_or:
  assumes "set_ok d"
  shows "set_ok (fst (ra_set_or d s))" "ra_abs (fst (ra_set_or d s)) = ra_abs d \<union> ra_abs s"
    "snd (ra_set_or d s) \<longleftrightarrow> fst (ra_set_or d s) \<noteq> d"
proof -
  have e: "ra_set_or d s = (map (\<lambda>i. d ! i OR s ! i) [0..<8], \<exists>i < 8. d ! i OR s ! i \<noteq> d ! i)"
    using or_loop [of 8 d s] assms by (simp add: ra_set_or_def set_ok_def)
  show "set_ok (fst (ra_set_or d s))" by (simp add: e set_ok_def)
  have "i \<in> ra_abs (fst (ra_set_or d s)) \<longleftrightarrow> i \<in> ra_abs d \<union> ra_abs s" for i
    using word_index [of i] by (auto simp: e abs_mem bit_simps)
  then show "ra_abs (fst (ra_set_or d s)) = ra_abs d \<union> ra_abs s" by blast
  show "snd (ra_set_or d s) \<longleftrightarrow> fst (ra_set_or d s) \<noteq> d"
    using assms by (auto simp: e set_ok_def list_eq_iff_nth_eq)
qed

text \<open>Two vectors of the same set are the same words.\<close>

lemma abs_inject:
  assumes "set_ok a" "set_ok b" "ra_abs a = ra_abs b"
  shows "a = b"
proof (rule nth_equalityI)
  show "length a = length b" using assms by (simp add: set_ok_def)
  fix w assume "w < length a"
  then have w: "w < 8" using assms by (simp add: set_ok_def)
  show "a ! w = b ! w"
  proof (rule bit_word_eqI)
    fix n assume "n < LENGTH(32)"
    then have n: "n < 32" by simp
    have i: "32 * w + n < 256" "(32 * w + n) div 32 = w" "(32 * w + n) mod 32 = n" using w n by auto
    have "32 * w + n \<in> ra_abs a \<longleftrightarrow> 32 * w + n \<in> ra_abs b" using assms(3) by simp
    then show "bit (a ! w) n \<longleftrightarrow> bit (b ! w) n" using i by (simp add: abs_mem)
  qed
qed

lemma set_or_changed: "set_ok d \<Longrightarrow> set_ok s \<Longrightarrow> snd (ra_set_or d s) \<longleftrightarrow> \<not> ra_abs s \<subseteq> ra_abs d"
  using set_or [of d s] abs_inject [of "fst (ra_set_or d s)" d] by auto

section \<open>The block summaries\<close>

text \<open>The live set before a run of events, from the live set after it.\<close>

fun live_before :: "ra_ev list \<Rightarrow> nat set \<Rightarrow> nat set" where
  "live_before [] L = L"
| "live_before ((c, k) # es) L =
     (if k = 0 then insert c (live_before es L) else if k = 1 then live_before es L - {c} else live_before es L)"

definition events_ok :: "nat \<Rightarrow> ra_ev list \<Rightarrow> bool" where "events_ok n evs \<longleftrightarrow> (\<forall>ev \<in> set evs. fst ev < n)"

lemma events_ok_simps [simp]: "events_ok n []" "events_ok n (ev # es) \<longleftrightarrow> fst ev < n \<and> events_ok n es"
  "events_ok n (xs @ ys) \<longleftrightarrow> events_ok n xs \<and> events_ok n ys"
  by (auto simp: events_ok_def)

lemma live_before_mono: "A \<subseteq> B \<Longrightarrow> live_before es A \<subseteq> live_before es B"
proof (induction es)
  case (Cons ev es)
  then show ?case by (cases ev) (auto simp: subset_iff)
qed simp

lemma live_before_bound: "events_ok n es \<Longrightarrow> L \<subseteq> {..<n} \<Longrightarrow> live_before es L \<subseteq> {..<n}"
proof (induction es)
  case (Cons ev es)
  then show ?case by (cases ev) (auto simp: subset_iff)
qed simp

lemma use_def_step [simp]:
  "use_def_step (u, d, e) (c, 0) = ((if ra_set_has e c then u else ra_set_add u c), d, e)"
  "use_def_step (u, d, e) (c, Suc 0) = (u, ra_set_add d c, ra_set_add e c)"
  "k \<noteq> 0 \<Longrightarrow> k \<noteq> Suc 0 \<Longrightarrow> use_def_step (u, d, e) (c, k) = (u, d, e)"
  by (simp_all add: use_def_step_def)

lemma use_def_fold:
  assumes "events_ok 256 evs" "set_ok u" "set_ok d" "foldl use_def_step (u, d, d) evs = (u', d', e)"
  shows "set_ok u' \<and> set_ok d' \<and>
    ra_abs u' \<union> (L - ra_abs d') = ra_abs u \<union> (live_before evs L - ra_abs d)"
  using assms
proof (induction evs arbitrary: u d)
  case (Cons ev evs)
  obtain c k where ev: "ev = (c, k)" by force
  have c: "c < 256" and evs: "events_ok 256 evs" using Cons.prems(1) ev by auto
  consider "k = 0" | "k = 1" | "k \<noteq> 0" "k \<noteq> 1" by blast
  then show ?case
  proof cases
    case 1
    let ?u = "if ra_set_has d c then u else ra_set_add u c"
    have "foldl use_def_step (?u, d, d) evs = (u', d', e)" using Cons.prems(4) ev 1 by simp
    from Cons.IH [OF evs _ Cons.prems(3) this] show ?thesis using ev 1 c Cons.prems(2)
      by (auto simp: has_abs split: if_splits)
  next
    case 2
    have "foldl use_def_step (u, ra_set_add d c, ra_set_add d c) evs = (u', d', e)"
      using Cons.prems(4) ev 2 by simp
    from Cons.IH [OF evs Cons.prems(2) _ this] show ?thesis using ev 2 c Cons.prems(3) by auto
  next
    case 3
    have "foldl use_def_step (u, d, d) evs = (u', d', e)" using Cons.prems(4) ev 3 by simp
    from Cons.IH [OF evs Cons.prems(2,3) this] show ?thesis using ev 3 by auto
  qed
qed auto

lemma block_use_def:
  assumes "events_ok 256 evs" "block_use_def evs = (u, d)"
  shows "set_ok u" "set_ok d" "ra_abs u \<union> (L - ra_abs d) = live_before evs L"
proof -
  obtain e where "foldl use_def_step (ra_set_zero, ra_set_zero, ra_set_zero) evs = (u, d, e)"
    using assms(2) by (auto simp: block_use_def_def split: prod.splits)
  from use_def_fold [OF assms(1) _ _ this]
  show "set_ok u" "set_ok d" "ra_abs u \<union> (L - ra_abs d) = live_before evs L" by auto
qed

section \<open>The dataflow equations\<close>

definition sets_ok :: "nat \<Rightarrow> ra_set list \<Rightarrow> bool" where
  "sets_ok n S \<longleftrightarrow> length S = n \<and> (\<forall>b < n. set_ok (S ! b))"

definition succs_ok :: "ir_block list \<Rightarrow> bool" where
  "succs_ok bs \<longleftrightarrow> (\<forall>b \<in> set bs. \<forall>s \<in> set (bl_succ b). s < length bs)"

text \<open>The union of a list of sets of \<open>inn\<close>; the transfer function of block \<open>b\<close>.\<close>

definition live_union :: "ra_set list \<Rightarrow> nat list \<Rightarrow> nat set" where
  "live_union inn ss = (\<Union>s \<in> set ss. ra_abs (inn ! s))"

definition live_in :: "ir_block list \<Rightarrow> ra_set list \<Rightarrow> ra_set list \<Rightarrow> ra_set list \<Rightarrow> nat \<Rightarrow> nat set" where
  "live_in bs use df inn b = ra_abs (use ! b) \<union> (live_union inn (bl_succ (bs ! b)) - ra_abs (df ! b))"

lemma sets_okD: "sets_ok n S \<Longrightarrow> length S = n" "sets_ok n S \<Longrightarrow> b < n \<Longrightarrow> set_ok (S ! b)"
  by (auto simp: sets_ok_def)

lemma sets_ok_update: "sets_ok n S \<Longrightarrow> set_ok s \<Longrightarrow> sets_ok n (S[b := s])"
  by (cases "b < n") (auto simp: sets_ok_def nth_list_update list_update_beyond)

lemma union_fold:
  "set_ok o' \<Longrightarrow> set_ok (foldl (\<lambda>o' s. fst (ra_set_or o' (inn ! s))) o' ss) \<and>
    ra_abs (foldl (\<lambda>o' s. fst (ra_set_or o' (inn ! s))) o' ss) = ra_abs o' \<union> live_union inn ss"
  by (induction ss arbitrary: o') (auto simp: live_union_def set_or)

lemma live_block_step:
  assumes ok: "sets_ok n inn" "sets_ok n out" and n: "n = length bs" "b < n"
    and r: "live_block bs use df (inn, out, ch) b = (inn', out', ch')"
  shows "sets_ok n inn'" "sets_ok n out'"
    "ra_abs (inn' ! b) = ra_abs (inn ! b) \<union> live_in bs use df inn b"
    "\<And>c. c \<noteq> b \<Longrightarrow> inn' ! c = inn ! c"
    "ra_abs (out' ! b) = live_union inn (bl_succ (bs ! b))"
    "\<And>c. c \<noteq> b \<Longrightarrow> out' ! c = out ! c"
    "ch' \<longleftrightarrow> ch \<or> inn' \<noteq> inn"
proof -
  let ?o = "foldl (\<lambda>o' s. fst (ra_set_or o' (inn ! s))) ra_set_zero (bl_succ (bs ! b))"
  let ?ni = "fst (ra_set_or (ra_set_minus ?o (df ! b)) (use ! b))"
  have o: "set_ok ?o" "ra_abs ?o = live_union inn (bl_succ (bs ! b))"
    using union_fold [of ra_set_zero inn "bl_succ (bs ! b)"] by auto
  have ni: "set_ok ?ni" "ra_abs ?ni = live_in bs use df inn b"
    using o by (auto simp: set_or live_in_def)
  let ?r = "ra_set_or (inn ! b) ?ni"
  have e: "inn' = inn[b := fst ?r]" "out' = out[b := ?o]" "ch' \<longleftrightarrow> ch \<or> snd ?r"
    using r by (simp_all add: live_block_def Let_def case_prod_beta)
  have i: "set_ok (inn ! b)" "length inn = n" "length out = n" using ok n by (auto simp: sets_okD)
  note s = set_or [OF i(1), of ?ni]
  show "sets_ok n inn'" "sets_ok n out'" using e ok o s by (simp_all add: sets_ok_update)
  show "ra_abs (inn' ! b) = ra_abs (inn ! b) \<union> live_in bs use df inn b" using e s ni i n by simp
  show "ra_abs (out' ! b) = live_union inn (bl_succ (bs ! b))" using e o i n by simp
  show "inn' ! c = inn ! c" "out' ! c = out ! c" if "c \<noteq> b" for c using e that by simp_all
  have "inn[b := fst ?r] = inn \<longleftrightarrow> fst ?r = inn ! b" using list_update_same_conv [of b inn "fst ?r"] i n by auto
  then show "ch' \<longleftrightarrow> ch \<or> inn' \<noteq> inn" using e s by auto
qed

section \<open>The fixpoint loop\<close>

definition flow_of :: "ir_block list \<Rightarrow> ra_set list \<Rightarrow> ra_set list \<Rightarrow> (nat \<Rightarrow> nat set) \<Rightarrow> nat \<Rightarrow> nat set" where
  "flow_of bs use df L b = ra_abs (use ! b) \<union> ((\<Union>s \<in> set (bl_succ (bs ! b)). L s) - ra_abs (df ! b))"

text \<open>Below every solution, and below its own image.\<close>

definition live_below :: "ir_block list \<Rightarrow> ra_set list \<Rightarrow> ra_set list \<Rightarrow> ra_set list \<Rightarrow> bool" where
  "live_below bs use df inn \<longleftrightarrow>
     (\<forall>b < length bs. ra_abs (inn ! b) \<subseteq> live_in bs use df inn b) \<and>
     (\<forall>L. (\<forall>b < length bs. flow_of bs use df L b \<subseteq> L b) \<longrightarrow> (\<forall>b < length bs. ra_abs (inn ! b) \<subseteq> L b))"

definition live_total :: "ra_set list \<Rightarrow> nat" where
  "live_total inn = (\<Sum>b < length inn. card (ra_abs (inn ! b)))"

lemma live_total_bound: "live_total inn \<le> 256 * length inn"
proof -
  have "card (ra_abs s) \<le> 256" for s using card_mono [OF _ abs_bound [of s]] by simp
  then have "live_total inn \<le> (\<Sum>b < length inn. 256)" unfolding live_total_def by (intro sum_mono) auto
  then show ?thesis by simp
qed

lemma live_in_mono:
  assumes "b < length bs" "succs_ok bs" "\<And>c. c < length bs \<Longrightarrow> ra_abs (inn ! c) \<subseteq> ra_abs (inn' ! c)"
  shows "live_in bs use df inn b \<subseteq> live_in bs use df inn' b"
proof -
  have "s < length bs" if "s \<in> set (bl_succ (bs ! b))" for s using assms(1,2) that by (auto simp: succs_ok_def)
  then show ?thesis using assms(3) by (auto simp: live_in_def live_union_def)
qed

lemma live_in_below:
  assumes "b < length bs" "succs_ok bs" "\<And>c. c < length bs \<Longrightarrow> ra_abs (inn ! c) \<subseteq> L c"
  shows "live_in bs use df inn b \<subseteq> flow_of bs use df L b"
proof -
  have "s < length bs" if "s \<in> set (bl_succ (bs ! b))" for s using assms(1,2) that by (auto simp: succs_ok_def)
  then show ?thesis using assms(3) by (auto simp: live_in_def live_union_def flow_of_def)
qed

lemma live_total_step:
  assumes "length inn' = length inn" "\<And>c. c < length inn \<Longrightarrow> ra_abs (inn ! c) \<subseteq> ra_abs (inn' ! c)"
  shows "live_total inn \<le> live_total inn'"
    "c < length inn \<Longrightarrow> ra_abs (inn ! c) \<noteq> ra_abs (inn' ! c) \<Longrightarrow> live_total inn < live_total inn'"
proof -
  have m: "card (ra_abs (inn ! c)) \<le> card (ra_abs (inn' ! c))" if "c < length inn" for c
    using assms(2) [OF that] by (intro card_mono) auto
  then show "live_total inn \<le> live_total inn'" using assms(1) unfolding live_total_def by (auto intro: sum_mono)
  assume c: "c < length inn" "ra_abs (inn ! c) \<noteq> ra_abs (inn' ! c)"
  have "card (ra_abs (inn ! c)) < card (ra_abs (inn' ! c))"
    using assms(2) [OF c(1)] c(2) by (intro psubset_card_mono) auto
  then show "live_total inn < live_total inn'"
    using m c(1) assms(1) unfolding live_total_def by (auto intro: sum_strict_mono_ex1)
qed

lemma live_block_below:
  assumes "succs_ok bs" "sets_ok (length bs) inn" "sets_ok (length bs) out" "b < length bs"
    and below: "live_below bs use df inn" and r: "live_block bs use df (inn, out, ch) b = (inn', out', ch')"
  shows "live_below bs use df inn'" "\<And>c. c < length bs \<Longrightarrow> ra_abs (inn ! c) \<subseteq> ra_abs (inn' ! c)"
proof -
  note s = live_block_step [OF assms(2,3) refl assms(4) r]
  show mono: "ra_abs (inn ! c) \<subseteq> ra_abs (inn' ! c)" if "c < length bs" for c
    using s(3,4) that by (cases "c = b") auto
  have "ra_abs (inn' ! c) \<subseteq> live_in bs use df inn' c" if c: "c < length bs" for c
  proof -
    have "ra_abs (inn' ! c) \<subseteq> live_in bs use df inn c"
      using s(3) s(4) [of c] below c by (cases "c = b") (auto simp: live_below_def)
    also have "\<dots> \<subseteq> live_in bs use df inn' c" using live_in_mono [OF c assms(1) mono] .
    finally show ?thesis .
  qed
  moreover have "ra_abs (inn' ! c) \<subseteq> L c"
    if L: "\<forall>b < length bs. flow_of bs use df L b \<subseteq> L b" and c: "c < length bs" for L c
  proof -
    have old: "ra_abs (inn ! d) \<subseteq> L d" if "d < length bs" for d using below L that by (auto simp: live_below_def)
    have "live_in bs use df inn c \<subseteq> L c" using live_in_below [where use = use and df = df, OF c assms(1) old] L c by blast
    then show ?thesis using s(3) s(4) [of c] old [OF c] by (cases "c = b") auto
  qed
  ultimately show "live_below bs use df inn'" by (auto simp: live_below_def)
qed

lemma live_fold:
  assumes "succs_ok bs" "sets_ok (length bs) inn" "sets_ok (length bs) out" "\<forall>b \<in> set xs. b < length bs"
    and "live_below bs use df inn" and "foldl (live_block bs use df) (inn, out, ch) xs = (inn', out', ch')"
  shows "sets_ok (length bs) inn' \<and> sets_ok (length bs) out' \<and> live_below bs use df inn' \<and>
    live_total inn \<le> live_total inn' \<and> (ch' \<longrightarrow> ch \<or> live_total inn < live_total inn') \<and>
    (\<not> ch' \<longrightarrow> inn' = inn \<and> (\<forall>b < length bs. b \<in> set xs \<or> out' ! b = out ! b) \<and>
       (\<forall>b \<in> set xs. live_in bs use df inn b \<subseteq> ra_abs (inn ! b) \<and> ra_abs (out' ! b) = live_union inn (bl_succ (bs ! b)))) \<and>
    (ch \<longrightarrow> ch')"
  using assms(2-)
proof (induction xs arbitrary: inn out ch)
  case (Cons b xs)
  obtain i o' c where r: "live_block bs use df (inn, out, ch) b = (i, o', c)" by (metis prod_cases3)
  have b: "b < length bs" using Cons.prems(3) by simp
  note s = live_block_step [OF Cons.prems(1,2) refl b r]
  note m = live_block_below [OF assms(1) Cons.prems(1,2) b Cons.prems(4) r]
  have len: "length i = length inn" "length inn = length bs" using s(1) Cons.prems(1) by (auto simp: sets_okD)
  have t: "live_total inn \<le> live_total i" using live_total_step(1) [OF len(1)] m(2) len by simp
  have t': "live_total inn < live_total i" if "i \<noteq> inn"
  proof -
    have "i ! b \<noteq> inn ! b" using that len s(4) by (metis nth_equalityI)
    then have "ra_abs (inn ! b) \<noteq> ra_abs (i ! b)" using abs_inject s(1) Cons.prems(1) b by (metis sets_okD(2))
    then show ?thesis using live_total_step(2) [OF len(1)] m(2) len b by simp
  qed
  have rest: "foldl (live_block bs use df) (i, o', c) xs = (inn', out', ch')" using Cons.prems(5) r by simp
  have "\<forall>b \<in> set xs. b < length bs" using Cons.prems(3) by simp
  note ih = Cons.IH [OF s(1,2) this m(1) rest]
  have "live_in bs use df inn b \<subseteq> ra_abs (i ! b)" using s(3) by simp
  with ih t t' s(5-7) b show ?case by (auto split: if_splits)
qed auto

text \<open>The least solution of the dataflow equations.\<close>

definition live_least :: "ir_block list \<Rightarrow> ra_set list \<Rightarrow> ra_set list \<Rightarrow> ra_set list \<Rightarrow> ra_set list \<Rightarrow> bool" where
  "live_least bs use df inn out \<longleftrightarrow>
     sets_ok (length bs) inn \<and> sets_ok (length bs) out \<and>
     (\<forall>b < length bs. ra_abs (out ! b) = (\<Union>s \<in> set (bl_succ (bs ! b)). ra_abs (inn ! s)) \<and>
        ra_abs (inn ! b) = ra_abs (use ! b) \<union> (ra_abs (out ! b) - ra_abs (df ! b))) \<and>
     (\<forall>L. (\<forall>b < length bs. flow_of bs use df L b \<subseteq> L b) \<longrightarrow> (\<forall>b < length bs. ra_abs (inn ! b) \<subseteq> L b))"

lemma live_loop_least:
  assumes "succs_ok bs" "sets_ok (length bs) inn" "sets_ok (length bs) out" "live_below bs use df inn"
  shows "\<exists>inn' out'. live_loop bs use df (inn, out) = Some (inn', out') \<and> live_least bs use df inn' out'"
  using assms(2-)
proof (induction "256 * length bs - live_total inn" arbitrary: inn out rule: less_induct)
  case less
  obtain i o' ch where r: "live_pass bs use df (inn, out) = (i, o', ch)" by (metis prod_cases3)
  then have f: "foldl (live_block bs use df) (inn, out, False) (rev [0..<length bs]) = (i, o', ch)"
    by (simp add: live_pass_def)
  have l: "\<forall>b \<in> set (rev [0..<length bs]). b < length bs" by simp
  note p = live_fold [OF assms(1) less.prems(1,2) l less.prems(3) f]
  show ?case
  proof (cases ch)
    case True
    have len: "length i = length bs" using p by (auto simp: sets_okD)
    have "256 * length bs - live_total i < 256 * length bs - live_total inn"
      using p True live_total_bound [of i] len by auto
    from less.hyps [OF this, of o'] p have
      "\<exists>inn' out'. live_loop bs use df (i, o') = Some (inn', out') \<and> live_least bs use df inn' out'" by blast
    then show ?thesis using r True by (auto simp: live_loop.simps)
  next
    case False
    have "live_loop bs use df (inn, out) = Some (i, o')" using r False by (simp add: live_loop.simps)
    moreover have "live_least bs use df i o'"
    proof -
      have i: "i = inn" using p False by blast
      have out: "ra_abs (o' ! b) = live_union inn (bl_succ (bs ! b))" "ra_abs (inn ! b) = live_in bs use df inn b"
        if "b < length bs" for b
      proof -
        have "ra_abs (inn ! b) \<subseteq> live_in bs use df inn b" using less.prems(3) that unfolding live_below_def by blast
        moreover have "live_in bs use df inn b \<subseteq> ra_abs (inn ! b) \<and> ra_abs (o' ! b) = live_union inn (bl_succ (bs ! b))"
          using p False that by simp
        ultimately show "ra_abs (o' ! b) = live_union inn (bl_succ (bs ! b))" "ra_abs (inn ! b) = live_in bs use df inn b"
          by blast+
      qed
      have "\<forall>L. (\<forall>b < length bs. flow_of bs use df L b \<subseteq> L b) \<longrightarrow> (\<forall>b < length bs. ra_abs (inn ! b) \<subseteq> L b)"
        using less.prems(3) unfolding live_below_def by blast
      then show ?thesis unfolding live_least_def i using out p less.prems(1)
        by (simp add: live_in_def live_union_def)
    qed
    ultimately show ?thesis by blast
  qed
qed

lemma live_below_zero: "length bs = n \<Longrightarrow> live_below bs use df (replicate n ra_set_zero)"
  by (simp add: live_below_def)

lemma sets_ok_zero [simp]: "sets_ok n (replicate n ra_set_zero)"
  by (simp add: sets_ok_def)

section \<open>Liveness along paths\<close>

text \<open>Candidate \<open>j\<close> is live at event \<open>k\<close> of block \<open>b\<close> when some path from there reads it before a store
  that is certain to happen.\<close>

inductive live_at :: "ir_block list \<Rightarrow> ra_ev list list \<Rightarrow> nat \<Rightarrow> nat \<Rightarrow> nat \<Rightarrow> bool"
  for bs :: "ir_block list" and evs :: "ra_ev list list" and j :: nat where
  live_use: "k < length (evs ! b) \<Longrightarrow> evs ! b ! k = (j, 0) \<Longrightarrow> live_at bs evs j b k"
| live_next: "k < length (evs ! b) \<Longrightarrow> evs ! b ! k \<noteq> (j, 1) \<Longrightarrow> live_at bs evs j b (Suc k) \<Longrightarrow> live_at bs evs j b k"
| live_succ: "k = length (evs ! b) \<Longrightarrow> s \<in> set (bl_succ (bs ! b)) \<Longrightarrow> live_at bs evs j s 0 \<Longrightarrow> live_at bs evs j b k"

lemma live_before_drop:
  "k < length es \<Longrightarrow> j \<in> live_before (drop k es) L \<longleftrightarrow>
     es ! k = (j, 0) \<or> es ! k \<noteq> (j, 1) \<and> j \<in> live_before (drop (Suc k) es) L"
  by (cases "es ! k") (auto simp: Cons_nth_drop_Suc [symmetric])

lemma live_at_backward:
  assumes "\<And>b s. s \<in> set (bl_succ (bs ! b)) \<Longrightarrow> b < length bs \<Longrightarrow> j \<in> I s \<Longrightarrow> live_at bs evs j s 0"
    and "b < length bs" "k \<le> length (evs ! b)"
    and "j \<in> live_before (drop k (evs ! b)) (\<Union>s \<in> set (bl_succ (bs ! b)). I s)"
  shows "live_at bs evs j b k"
  using assms(3,4)
proof (induction "length (evs ! b) - k" arbitrary: k)
  case 0
  then have k: "k = length (evs ! b)" by simp
  then obtain s where "s \<in> set (bl_succ (bs ! b))" "j \<in> I s" using 0 by auto
  with k assms(1,2) show ?case by (blast intro: live_succ)
next
  case (Suc d)
  then have k: "k < length (evs ! b)" "d = length (evs ! b) - Suc k" by simp_all
  have "live_at bs evs j b (Suc k)" if "j \<in> live_before (drop (Suc k) (evs ! b)) (\<Union>s \<in> set (bl_succ (bs ! b)). I s)"
    using Suc.hyps(1) [of "Suc k"] k that by simp
  with Suc.prems(2) live_before_drop [OF k(1)] k show ?case by (blast intro: live_use live_next)
qed

lemma live_at_forward:
  assumes "succs_ok bs" "length evs = length bs"
    and "\<And>b. b < length bs \<Longrightarrow> live_before (evs ! b) (\<Union>s \<in> set (bl_succ (bs ! b)). I s) \<subseteq> I b"
  shows "live_at bs evs j b k \<Longrightarrow> b < length bs \<Longrightarrow>
    j \<in> live_before (drop k (evs ! b)) (\<Union>s \<in> set (bl_succ (bs ! b)). I s)"
proof (induction rule: live_at.induct)
  case (live_succ k b s)
  have "s < length bs" using live_succ assms(1) by (auto simp: succs_ok_def)
  then show ?case using live_succ assms(3) [of s] by auto
qed (auto simp: live_before_drop)

text \<open>A least solution over the block summaries is liveness along paths.\<close>

lemma least_is_live_at:
  assumes bs: "succs_ok bs" "length evs = length bs" and ev: "\<And>b. b < length bs \<Longrightarrow> events_ok 256 (evs ! b)"
    and ud: "use = map (fst \<circ> block_use_def) evs" "df = map (snd \<circ> block_use_def) evs"
    and least: "live_least bs use df inn out" and b: "b < length bs"
  shows "k \<le> length (evs ! b) \<Longrightarrow> j \<in> live_before (drop k (evs ! b)) (ra_abs (out ! b)) \<longleftrightarrow> live_at bs evs j b k"
    "j \<in> ra_abs (inn ! b) \<longleftrightarrow> live_at bs evs j b 0"
proof -
  have tr: "ra_abs (use ! c) \<union> (X - ra_abs (df ! c)) = live_before (evs ! c) X" if "c < length bs" for c X
    using block_use_def(3) [OF ev [OF that], of "use ! c" "df ! c"] that bs(2) by (simp add: ud prod_eq_iff)
  have out: "ra_abs (out ! c) = (\<Union>s \<in> set (bl_succ (bs ! c)). ra_abs (inn ! s))" if "c < length bs" for c
    using least that by (simp add: live_least_def)
  have inn: "ra_abs (inn ! c) = live_before (evs ! c) (ra_abs (out ! c))" if "c < length bs" for c
    using least that tr [OF that] by (simp add: live_least_def)
  let ?L = "\<lambda>b. {j. live_at bs evs j b 0}"
  have "flow_of bs use df ?L c \<subseteq> ?L c" if c: "c < length bs" for c
    unfolding flow_of_def tr [OF c] using live_at_backward [of bs _ ?L evs c 0, OF _ c] by auto
  then have below: "ra_abs (inn ! c) \<subseteq> ?L c" if "c < length bs" for c
    using least that unfolding live_least_def by blast
  have sb: "s < length bs" if "s \<in> set (bl_succ (bs ! c))" "c < length bs" for s c
    using bs(1) that by (auto simp: succs_ok_def)
  have iff: "j \<in> live_before (drop k (evs ! b)) (ra_abs (out ! b)) \<longleftrightarrow> live_at bs evs j b k" if "k \<le> length (evs ! b)" for k
  proof
    assume "j \<in> live_before (drop k (evs ! b)) (ra_abs (out ! b))"
    then show "live_at bs evs j b k"
      using live_at_backward [of bs j "\<lambda>s. ra_abs (inn ! s)" evs b k] b that below sb unfolding out [OF b] by blast
  next
    assume "live_at bs evs j b k"
    then show "j \<in> live_before (drop k (evs ! b)) (ra_abs (out ! b))"
      using live_at_forward [of bs evs "\<lambda>s. ra_abs (inn ! s)" j b k] b bs inn out by simp
  qed
  then show "k \<le> length (evs ! b) \<Longrightarrow> j \<in> live_before (drop k (evs ! b)) (ra_abs (out ! b)) \<longleftrightarrow> live_at bs evs j b k" .
  show "j \<in> ra_abs (inn ! b) \<longleftrightarrow> live_at bs evs j b 0" using iff [of 0] inn [OF b] by simp
qed

section \<open>The interference matrix\<close>

definition conf_rel :: "ra_set list \<Rightarrow> (nat \<times> nat) set" where
  "conf_rel C = {(i, j). i < 256 \<and> j \<in> ra_abs (C ! i)}"

lemma conf_add:
  assumes "sets_ok 256 C" "i < 256" "j < 256"
  shows "sets_ok 256 (ra_conf_add i j C)"
    "conf_rel (ra_conf_add i j C) = conf_rel C \<union> (if i \<noteq> j then {(i, j), (j, i)} else {})"
proof -
  have i: "set_ok (ra_set_add (C ! i) j)" "set_ok (ra_set_add (C ! j) i)" "length C = 256"
    using assms by (simp_all add: sets_okD)
  show "sets_ok 256 (ra_conf_add i j C)" using assms(1) i by (simp add: ra_conf_add_def Let_def sets_ok_update)
  have "k < 256 \<Longrightarrow> ra_abs (ra_conf_add i j C ! k) =
      ra_abs (C ! k) \<union> (if i \<noteq> j \<and> k = i then {j} else if i \<noteq> j \<and> k = j then {i} else {})" for k
    using assms i by (simp add: ra_conf_add_def Let_def nth_list_update sets_okD)
  then show "conf_rel (ra_conf_add i j C) = conf_rel C \<union> (if i \<noteq> j then {(i, j), (j, i)} else {})"
    using assms(2,3) by (auto simp: conf_rel_def split: if_splits)
qed

lemma conf_fold:
  assumes "sets_ok 256 C" "i < 256" "\<forall>j \<in> set js. j < 256"
  shows "sets_ok 256 (foldl (\<lambda>C j. if P j then ra_conf_add i j C else C) C js) \<and>
    conf_rel (foldl (\<lambda>C j. if P j then ra_conf_add i j C else C) C js) =
      conf_rel C \<union> {(a, b). a \<noteq> b \<and> (a = i \<and> b \<in> set js \<and> P b \<or> b = i \<and> a \<in> set js \<and> P a)}"
  using assms
proof (induction js arbitrary: C)
  case (Cons j js)
  let ?C = "if P j then ra_conf_add i j C else C"
  have c: "sets_ok 256 ?C" "conf_rel ?C = conf_rel C \<union> (if P j \<and> i \<noteq> j then {(i, j), (j, i)} else {})"
    using Cons.prems conf_add [of C i j] by auto
  show ?case using Cons.IH [OF c(1) Cons.prems(2)] Cons.prems(3) c(2) by auto
qed auto

text \<open>Pairs of a stored candidate and one that is live after the store.\<close>

fun clobbers :: "nat \<Rightarrow> ra_ev list \<Rightarrow> nat set \<Rightarrow> (nat \<times> nat) set" where
  "clobbers n [] L = {}"
| "clobbers n ((c, k) # es) L =
     clobbers n es L \<union> (if k = 0 then {} else {(i, j). i = c \<and> j \<noteq> c \<and> j < n \<and> j \<in> live_before es L})"

lemma clobbers_iff: "(i, j) \<in> clobbers n es L \<longleftrightarrow>
    i \<noteq> j \<and> j < n \<and> (\<exists>k < length es. fst (es ! k) = i \<and> snd (es ! k) \<noteq> 0 \<and> j \<in> live_before (drop (Suc k) es) L)"
proof (induction es)
  case (Cons ev es)
  obtain c k where ev: "ev = (c, k)" by force
  show ?case unfolding ev using Cons by (auto simp: Ex_less_Suc2 split: if_splits)
qed simp

lemma conf_step [simp]:
  "conf_step n (c, k) (live, C) =
     (if k = 0 then (ra_set_add live c, C)
      else (if k = 1 then ra_set_del live c else live,
            foldl (\<lambda>C j. if j \<noteq> c \<and> ra_set_has live j then ra_conf_add c j C else C) C [0..<n]))"
  by (simp add: conf_step_def)

lemma conf_foldr:
  assumes "n \<le> 256" "events_ok n evs" "set_ok live" "sets_ok 256 C"
  shows "set_ok (fst (foldr (conf_step n) evs (live, C))) \<and> sets_ok 256 (snd (foldr (conf_step n) evs (live, C))) \<and>
    ra_abs (fst (foldr (conf_step n) evs (live, C))) = live_before evs (ra_abs live) \<and>
    conf_rel (snd (foldr (conf_step n) evs (live, C))) =
      conf_rel C \<union> clobbers n evs (ra_abs live) \<union> (clobbers n evs (ra_abs live))\<inverse>"
  using assms(2)
proof (induction evs)
  case Nil
  then show ?case using assms by simp
next
  case (Cons ev evs)
  obtain c k where ev: "ev = (c, k)" by force
  obtain l D where r: "foldr (conf_step n) evs (live, C) = (l, D)" by force
  have c: "c < n" "c < 256" "events_ok n evs" using Cons.prems ev assms(1) by auto
  have ih: "set_ok l" "sets_ok 256 D" "ra_abs l = live_before evs (ra_abs live)"
    "conf_rel D = conf_rel C \<union> clobbers n evs (ra_abs live) \<union> (clobbers n evs (ra_abs live))\<inverse>"
    using Cons.IH [OF c(3)] r by simp_all
  show ?case
  proof (cases "k = 0")
    case True
    then show ?thesis using ev r ih c by simp
  next
    case False
    have js: "\<forall>j \<in> set [0..<n]. j < 256" using assms(1) by simp
    have has: "j < n \<Longrightarrow> ra_set_has l j \<longleftrightarrow> j \<in> live_before evs (ra_abs live)" for j
      using has_abs [of j l] ih(3) assms(1) by simp
    note f = conf_fold [OF ih(2) c(2) js, of "\<lambda>j. j \<noteq> c \<and> ra_set_has l j"]
    have p: "{(a, b). a \<noteq> b \<and> (a = c \<and> b \<in> set [0..<n] \<and> b \<noteq> c \<and> ra_set_has l b \<or> b = c \<and> a \<in> set [0..<n] \<and> a \<noteq> c \<and> ra_set_has l a)} =
      {(i, j). i = c \<and> j \<noteq> c \<and> j < n \<and> j \<in> live_before evs (ra_abs live)} \<union>
      {(i, j). i = c \<and> j \<noteq> c \<and> j < n \<and> j \<in> live_before evs (ra_abs live)}\<inverse>"
      using has by auto
    have k1: "ra_abs (ra_set_del l c) = ra_abs l - {c}" "set_ok (ra_set_del l c)" using ih(1) c by simp_all
    show ?thesis using ev r False f p ih k1 by (auto simp: converse_Un)
  qed
qed

lemma conf_block:
  assumes "n \<le> 256" "events_ok n evs" "set_ok live" "sets_ok 256 C"
  shows "sets_ok 256 (conf_block n evs live C)"
    "conf_rel (conf_block n evs live C) =
      conf_rel C \<union> clobbers n evs (ra_abs live) \<union> (clobbers n evs (ra_abs live))\<inverse>"
  using conf_foldr [OF assms] by (simp_all add: conf_block_def)

lemma conf_blocks:
  assumes "n \<le> 256" "\<forall>b \<in> set xs. events_ok n (evs ! b) \<and> set_ok (out ! b)" "sets_ok 256 C"
  shows "sets_ok 256 (foldl (\<lambda>C b. conf_block n (evs ! b) (out ! b) C) C xs) \<and>
    conf_rel (foldl (\<lambda>C b. conf_block n (evs ! b) (out ! b) C) C xs) = conf_rel C \<union>
      (\<Union>b \<in> set xs. clobbers n (evs ! b) (ra_abs (out ! b)) \<union> (clobbers n (evs ! b) (ra_abs (out ! b)))\<inverse>)"
  using assms(2,3)
proof (induction xs arbitrary: C)
  case (Cons b xs)
  have b: "events_ok n (evs ! b)" "set_ok (out ! b)" "\<forall>b \<in> set xs. events_ok n (evs ! b) \<and> set_ok (out ! b)"
    using Cons.prems(1) by auto
  note c = conf_block [OF assms(1) b(1,2) Cons.prems(2)]
  show ?case using Cons.IH [OF b(3) c(1)] c(2) by auto
qed simp

lemma conf_entry:
  assumes "n \<le> 256" "sets_ok 256 C"
  shows "sets_ok 256 (conf_entry n live C)"
    "conf_rel (conf_entry n live C) = conf_rel C \<union> {(i, j). i \<noteq> j \<and> i < n \<and> j < n \<and> i \<in> ra_abs live \<and> j \<in> ra_abs live}"
proof -
  let ?f = "\<lambda>C i. if ra_set_has live i
     then foldl (\<lambda>C j. if ra_set_has live j then ra_conf_add i j C else C) C [Suc i..<n] else C"
  have has: "j < n \<Longrightarrow> ra_set_has live j \<longleftrightarrow> j \<in> ra_abs live" for j using has_abs [of j live] assms(1) by simp
  have "sets_ok 256 (foldl ?f C [0..<m]) \<and> conf_rel (foldl ?f C [0..<m]) =
      conf_rel C \<union> {(a, b). a \<noteq> b \<and> a < n \<and> b < n \<and> min a b < m \<and> a \<in> ra_abs live \<and> b \<in> ra_abs live}" if "m \<le> n" for m
    using that
  proof (induction m)
    case (Suc m)
    let ?D = "foldl ?f C [0..<m]"
    have ih: "sets_ok 256 ?D" "conf_rel ?D =
        conf_rel C \<union> {(a, b). a \<noteq> b \<and> a < n \<and> b < n \<and> min a b < m \<and> a \<in> ra_abs live \<and> b \<in> ra_abs live}"
      using Suc by simp_all
    have m: "m < 256" "\<forall>j \<in> set [Suc m..<n]. j < 256" using Suc.prems assms(1) by auto
    note f = conf_fold [OF ih(1) m, of "ra_set_has live"]
    show ?case
    proof (cases "ra_set_has live m")
      case True
      have "{(a, b). a \<noteq> b \<and> (a = m \<and> b \<in> set [Suc m..<n] \<and> ra_set_has live b \<or> b = m \<and> a \<in> set [Suc m..<n] \<and> ra_set_has live a)} =
          {(a, b). a \<noteq> b \<and> a < n \<and> b < n \<and> min a b = m \<and> a \<in> ra_abs live \<and> b \<in> ra_abs live}"
        using True has Suc.prems by (auto simp: min_def split: if_splits)
      with f True ih(2) show ?thesis by (auto simp: less_Suc_eq)
    next
      case False
      then have "m \<notin> ra_abs live" using has Suc.prems by simp
      then show ?thesis using False ih by (auto simp: less_Suc_eq min_def split: if_splits)
    qed
  qed (use assms in simp)
  note r = this [of n, folded conf_entry_def]
  have "{(a, b). a \<noteq> b \<and> a < n \<and> b < n \<and> min a b < n \<and> a \<in> ra_abs live \<and> b \<in> ra_abs live} =
      {(i, j). i \<noteq> j \<and> i < n \<and> j < n \<and> i \<in> ra_abs live \<and> j \<in> ra_abs live}" by auto
  with r show "sets_ok 256 (conf_entry n live C)"
    "conf_rel (conf_entry n live C) = conf_rel C \<union> {(i, j). i \<noteq> j \<and> i < n \<and> j < n \<and> i \<in> ra_abs live \<and> j \<in> ra_abs live}"
    by simp_all
qed

section \<open>The events name candidates\<close>

lemma cand_of_var_bound: "ra_cand_of_var st v = Some i \<Longrightarrow> i < length (fst st) \<and> ra_colorable st i"
  by (auto simp: ra_cand_of_var_def dest: cand_index_Some split: option.splits if_splits)

lemma cand_of_lea_bound: "ra_cand_of_lea st e = Some i \<Longrightarrow> i < length (fst st) \<and> ra_colorable st i"
  by (auto simp: ra_cand_of_lea_def dest: cand_of_var_bound split: ir_expr.splits if_splits)

definition events_for :: "ra_state \<Rightarrow> ra_ev list \<Rightarrow> bool" where
  "events_for st evs \<longleftrightarrow> (\<forall>ev \<in> set evs. fst ev < length (fst st) \<and> ra_colorable st (fst ev))"

lemma ev_push_for:
  assumes "events_for st evs" "\<And>i. ci = Some i \<Longrightarrow> i < length (fst st) \<and> ra_colorable st i"
  shows "events_for st (ra_ev_push ci k evs)"
  using assms by (auto simp: ra_ev_push_def events_for_def split: option.splits)

lemma ev_walk_for:
  "events_for st evs \<Longrightarrow> events_for st (ra_ev_walk st e c evs)"
  "events_for st evs \<Longrightarrow> events_for st (ra_ev_args st es c evs)"
  by (induction st e c evs and st es c evs rule: ra_ev_walk_ra_ev_args.induct)
     (auto split: option.splits intro!: ev_push_for dest: cand_of_lea_bound cand_of_var_bound)

lemma block_events_for: "events_for st (block_events st its b)"
proof -
  have n: "events_for st []" by (simp add: events_for_def)
  have "events_for st (item_events st it)" for it
    by (cases "item_expr it") (simp_all add: item_events_def ev_walk_for n)
  then show ?thesis by (auto simp: block_events_def events_for_def)
qed

lemma block_events_ok: "length (fst st) \<le> n \<Longrightarrow> events_ok n (block_events st its b)"
  using block_events_for [of st its b] by (auto simp: events_ok_def events_for_def)

lemma cfg_succs_ok: "succs_ok (ir_build_cfg P)"
  using succ_bound by (fastforce simp: succs_ok_def in_set_conv_nth cfg_nth)

section \<open>Main theorems\<close>

text \<open>
  The blocks are those of an item list \<open>P\<close> and the events those of \<open>its\<close>: at \<open>-O3\<close> dead code is
  removed in place after the blocks were built.
\<close>

definition cfg_events :: "ra_state \<Rightarrow> ir_item list \<Rightarrow> ir_item list \<Rightarrow> ra_ev list list" where
  "cfg_events st its P = map (block_events st its) (ir_build_cfg P)"

lemma cfg_events_ok: "length (fst st) \<le> n \<Longrightarrow> b < length (ir_build_cfg P) \<Longrightarrow> events_ok n (cfg_events st its P ! b)"
  unfolding cfg_events_def by (simp only: nth_map block_events_ok)

lemma cfg_live_least:
  fixes st its P
  defines "bs \<equiv> ir_build_cfg P"
  defines "ud \<equiv> map block_use_def (cfg_events st its P)"
  shows "\<exists>inn out. live_loop bs (map fst ud) (map snd ud) (replicate (length bs) ra_set_zero, replicate (length bs) ra_set_zero) =
      Some (inn, out) \<and> live_least bs (map fst ud) (map snd ud) inn out"
  unfolding bs_def by (intro live_loop_least cfg_succs_ok sets_ok_zero live_below_zero refl)

lemma cfg_live_at:
  fixes st its P
  defines "bs \<equiv> ir_build_cfg P"
  defines "evs \<equiv> cfg_events st its P"
  assumes "length (fst st) \<le> 256" "b < length bs"
    and "live_least bs (map fst (map block_use_def evs)) (map snd (map block_use_def evs)) inn out"
  shows "k \<le> length (evs ! b) \<Longrightarrow> j \<in> live_before (drop k (evs ! b)) (ra_abs (out ! b)) \<longleftrightarrow> live_at bs evs j b k"
    "j \<in> ra_abs (inn ! b) \<longleftrightarrow> live_at bs evs j b 0"
proof -
  have a: "succs_ok bs" "length evs = length bs" unfolding bs_def evs_def by (simp_all add: cfg_succs_ok cfg_events_def)
  have "events_ok 256 (evs ! b)" if "b < length bs" for b
    using cfg_events_ok [OF assms(3)] that unfolding bs_def evs_def by blast
  note l = least_is_live_at [OF a this refl refl _ assms(4), of inn out]
  have "live_least bs (map (fst \<circ> block_use_def) evs) (map (snd \<circ> block_use_def) evs) inn out"
    using assms(5) by (simp only: map_map)
  from l [OF _ this] show "k \<le> length (evs ! b) \<Longrightarrow> j \<in> live_before (drop k (evs ! b)) (ra_abs (out ! b)) \<longleftrightarrow> live_at bs evs j b k"
    "j \<in> ra_abs (inn ! b) \<longleftrightarrow> live_at bs evs j b 0" by blast+
qed

text \<open>Candidate \<open>i\<close> is stored at a point after which \<open>j\<close> is live.\<close>

definition store_meets :: "ir_block list \<Rightarrow> ra_ev list list \<Rightarrow> nat \<Rightarrow> nat \<Rightarrow> bool" where
  "store_meets bs evs i j \<longleftrightarrow>
     (\<exists>b < length bs. \<exists>k < length (evs ! b). fst (evs ! b ! k) = i \<and> snd (evs ! b ! k) \<noteq> 0 \<and> live_at bs evs j b (Suc k))"

definition conflict :: "ir_block list \<Rightarrow> ra_ev list list \<Rightarrow> nat \<Rightarrow> nat \<Rightarrow> bool" where
  "conflict bs evs i j \<longleftrightarrow> i \<noteq> j \<and>
     (store_meets bs evs i j \<or> store_meets bs evs j i \<or> live_at bs evs i 0 0 \<and> live_at bs evs j 0 0)"

lemma conflict_sym: "conflict bs evs i j \<longleftrightarrow> conflict bs evs j i"
  by (auto simp: conflict_def)

lemma interference_conflict:
  assumes "length (fst st) \<le> 256" "P \<noteq> []"
  shows "\<exists>C. ra_liveness st its (ir_build_cfg P) = Some C \<and>
    (\<forall>i < length (fst st). \<forall>j < length (fst st). ra_interfere C i j \<longleftrightarrow> conflict (ir_build_cfg P) (cfg_events st its P) i j)"
proof -
  let ?bs = "ir_build_cfg P" let ?evs = "cfg_events st its P" let ?n = "length (fst st)"
  let ?ud = "map block_use_def ?evs" let ?z = "replicate (length ?bs) ra_set_zero"
  obtain inn out where r: "live_loop ?bs (map fst ?ud) (map snd ?ud) (?z, ?z) = Some (inn, out)"
    and l: "live_least ?bs (map fst ?ud) (map snd ?ud) inn out" using cfg_live_least [of P st its] by blast
  let ?M = "foldl (\<lambda>C b. conf_block ?n (?evs ! b) (out ! b) C) (replicate 256 ra_set_zero) [0..<length ?bs]"
  let ?C = "conf_entry ?n (inn ! 0) ?M"
  have ne: "?bs \<noteq> []" "0 < length ?bs" using assms(2) ranges_empty [of P] by (auto simp: ir_build_cfg_def Let_def)
  have run: "ra_liveness st its ?bs = Some ?C"
    by (simp only: ra_liveness_def Let_def cfg_events_def [symmetric] r option.case prod.case ne if_False)
  have ok: "\<forall>b \<in> set [0..<length ?bs]. events_ok ?n (?evs ! b) \<and> set_ok (out ! b)"
    using cfg_events_ok [of st ?n _ P its] l by (auto simp: live_least_def sets_okD)
  note M = conf_blocks [OF assms(1) ok sets_ok_zero]
  have E: "conf_rel ?C = conf_rel ?M \<union> {(i, j). i \<noteq> j \<and> i < ?n \<and> j < ?n \<and> i \<in> ra_abs (inn ! 0) \<and> j \<in> ra_abs (inn ! 0)}"
    by (rule conf_entry(2) [OF assms(1) conjunct1 [OF M]])
  have z: "conf_rel (replicate 256 ra_set_zero) = {}" by (auto simp: conf_rel_def)
  note live = cfg_live_at [OF assms(1) _ l]
  have cl: "(a, c) \<in> clobbers ?n (?evs ! b) (ra_abs (out ! b)) \<longleftrightarrow> a \<noteq> c \<and>
      (\<exists>k < length (?evs ! b). fst (?evs ! b ! k) = a \<and> snd (?evs ! b ! k) \<noteq> 0 \<and> live_at ?bs ?evs c b (Suc k))"
    if "b < length ?bs" "c < ?n" for a b c
    using that live(1) [OF that(1)] by (auto simp: clobbers_iff Suc_le_eq)
  have sm: "(\<exists>b < length ?bs. (a, c) \<in> clobbers ?n (?evs ! b) (ra_abs (out ! b))) \<longleftrightarrow> a \<noteq> c \<and> store_meets ?bs ?evs a c"
    if "c < ?n" for a c using cl that unfolding store_meets_def by blast
  have "ra_interfere ?C i j \<longleftrightarrow> conflict ?bs ?evs i j" if ij: "i < ?n" "j < ?n" for i j
  proof -
    have "ra_interfere ?C i j \<longleftrightarrow> (i, j) \<in> conf_rel ?C"
      using assms(1) ij by (auto simp: ra_interfere_def conf_rel_def has_abs)
    also have "\<dots> \<longleftrightarrow> (\<exists>b < length ?bs. (i, j) \<in> clobbers ?n (?evs ! b) (ra_abs (out ! b))) \<or>
        (\<exists>b < length ?bs. (j, i) \<in> clobbers ?n (?evs ! b) (ra_abs (out ! b))) \<or>
        i \<noteq> j \<and> live_at ?bs ?evs i 0 0 \<and> live_at ?bs ?evs j 0 0"
      unfolding E using M z live(2) [OF ne(2)] ij by auto
    finally show ?thesis using sm [OF ij(1)] sm [OF ij(2)] by (auto simp: conflict_def)
  qed
  then show ?thesis using run by blast
qed

text \<open>
  C17: the liveness loop of \<open>ra_liveness\<close> always ends, and what it ends with is the least solution of the
  dataflow equations: a candidate is in the live-in set of a block exactly when some path from the head of
  the block reads it before a store that is certain to happen.
\<close>

theorem ra_liveness_terminates:
  assumes "length (fst st) \<le> 256"
  shows "\<exists>inn out. live_loop (ir_build_cfg P) (map (fst \<circ> block_use_def) (cfg_events st its P))
       (map (snd \<circ> block_use_def) (cfg_events st its P))
       (replicate (length (ir_build_cfg P)) ra_set_zero, replicate (length (ir_build_cfg P)) ra_set_zero) = Some (inn, out) \<and>
     (\<forall>b j. b < length (ir_build_cfg P) \<longrightarrow>
        (j \<in> ra_abs (inn ! b) \<longleftrightarrow> live_at (ir_build_cfg P) (cfg_events st its P) j b 0) \<and>
        (j \<in> ra_abs (out ! b) \<longleftrightarrow>
           live_at (ir_build_cfg P) (cfg_events st its P) j b (length (cfg_events st its P ! b))))"
proof -
  obtain inn out where r: "live_loop (ir_build_cfg P) (map fst (map block_use_def (cfg_events st its P)))
       (map snd (map block_use_def (cfg_events st its P)))
       (replicate (length (ir_build_cfg P)) ra_set_zero, replicate (length (ir_build_cfg P)) ra_set_zero) = Some (inn, out)"
    and l: "live_least (ir_build_cfg P) (map fst (map block_use_def (cfg_events st its P)))
       (map snd (map block_use_def (cfg_events st its P))) inn out"
    using cfg_live_least [of P st its] by blast
  note c = cfg_live_at [OF assms _ l]
  show ?thesis using r c(1) [OF _ le_refl] c(2) unfolding map_map by (intro exI [of _ inn] exI [of _ out]) simp
qed

text \<open>
  C16: the interference matrix is exact. Two different candidates interfere if and only if one of them is
  stored, on every path or only on some, at a point after which the other is live, or both are live at
  the entry of the function.
\<close>

theorem ra_interference_exact:
  assumes "length (fst st) \<le> 256" "i < length (fst st)" "j < length (fst st)" "P \<noteq> []"
  shows "\<exists>C. ra_liveness st its (ir_build_cfg P) = Some C \<and>
    (ra_interfere C i j \<longleftrightarrow> i \<noteq> j \<and>
       (store_meets (ir_build_cfg P) (cfg_events st its P) i j \<or> store_meets (ir_build_cfg P) (cfg_events st its P) j i \<or>
        live_at (ir_build_cfg P) (cfg_events st its P) i 0 0 \<and> live_at (ir_build_cfg P) (cfg_events st its P) j 0 0))"
  using interference_conflict [OF assms(1,4)] assms(2,3) unfolding conflict_def by blast

section \<open>An example\<close>

text \<open>\<open>for (;;) { x = f(); s = x + (y = 3); if (!g(y, s)) return; }\<close> with \<open>x\<close>, \<open>y\<close> and \<open>s\<close> as candidates 0, 1 and 2.\<close>

definition ord_var :: "obj_id \<Rightarrow> int \<Rightarrow> ir_expr" where "ord_var v off = IE_LEA True off [] v"

definition ord_sum :: ir_expr where
  "ord_sum = IE_BINOP ND_ADD (IE_LOAD (ord_var 0 (- 4)) 4 False)
     (IE_STORE (ord_var 1 (- 8)) (IE_NUM 3 4 False) 4 False) 4 False False"

definition ord_items :: "ir_item list" where
  "ord_items =
     [II_LABEL ''loop'',
      II_EVAL (IE_STORE (ord_var 0 (- 4)) (IE_CALL (Some ''f'') None [] 4 False) 4 False),
      II_EVAL (IE_STORE (ord_var 2 (- 12)) ord_sum 4 False),
      II_CBR (IE_CALL (Some ''g'') None [IE_LOAD (ord_var 1 (- 8)) 4 False, IE_LOAD (ord_var 2 (- 12)) 4 False] 4 False)
        ''loop'' True,
      II_RET None]"

definition ord_cand :: "obj_id \<Rightarrow> ra_cand" where "ord_cand v = \<lparr>rc_var = v, rc_uses = 2, rc_loopuses = 2\<rparr>"

definition ord_state :: ra_state where "ord_state = ([ord_cand 0, ord_cand 1, ord_cand 2], [])"

lemma ord_events: "cfg_events ord_state ord_items ord_items = [[(0, 1), (0, 0), (1, 1), (2, 1), (1, 0), (2, 0)], []]"
  by code_simp

lemma ord_cfg: "length (ir_build_cfg ord_items) = 2" "ord_items \<noteq> []"
  by code_simp+

lemma ord_length: "length (fst ord_state) \<le> 256"
  by (simp add: ord_state_def)

lemma ord_meets: "store_meets (ir_build_cfg ord_items) [[(0, 1), (0, 0), (1, 1), (2, 1), (1, 0), (2, 0)], []] 2 1"
  unfolding store_meets_def
  by (intro exI [of _ 0] exI [of _ 3] conjI live_use) (simp_all add: ord_cfg)

lemma ra_liveness_terminates_witness:
  "\<exists>inn out. live_loop (ir_build_cfg ord_items) (map (fst \<circ> block_use_def) (cfg_events ord_state ord_items ord_items))
       (map (snd \<circ> block_use_def) (cfg_events ord_state ord_items ord_items))
       (replicate 2 ra_set_zero, replicate 2 ra_set_zero) = Some (inn, out) \<and>
     (0 \<in> ra_abs (inn ! 0) \<longleftrightarrow> live_at (ir_build_cfg ord_items) (cfg_events ord_state ord_items ord_items) 0 0 0)"
  using ra_liveness_terminates [of ord_state ord_items ord_items, OF ord_length] unfolding ord_cfg by fastforce

lemma ra_interference_exact_witness:
  "\<exists>C. ra_liveness ord_state ord_items (ir_build_cfg ord_items) = Some C \<and> ra_interfere C 2 1"
  using ra_interference_exact [of ord_state 2 1 ord_items ord_items] ord_meets ord_events ord_cfg(2) by (auto simp: ord_state_def)

end
