(* ===== verification/Ra_Color.thy ===== *)
theory Ra_Color
  imports Ra_Live Ir_Opt "HOL-Library.Multiset"
begin

text \<open>
  The assignment of registers in \<open>src/ir68k.c\<close>: the coloring over the interference matrix
  (\<open>ra_color_global\<close>, at \<open>-O3\<close>), the selection of the most used candidates (the rest of
  \<open>ir_color_regs\<close>), value temporaries, and \<open>ir_build_body\<close>, which composes the passes. The register of a
  candidate (\<open>var->reg\<close>) is kept in a list beside the candidates; 0 is no register.
\<close>

section \<open>Jumps of the user\<close>

function ra_has_user_jump :: "node option \<Rightarrow> bool"
  and ra_have_user_jump :: "node list \<Rightarrow> bool" where
  "ra_has_user_jump None = False"
| "ra_has_user_jump (Some n) =
     (if nd_kind n = ND_GOTO \<and> nd_label n \<noteq> None then True
      else if nd_kind n = ND_LABEL then True
      else if ra_has_user_jump (nd_lhs n) \<or> ra_has_user_jump (nd_rhs n) \<or> ra_has_user_jump (nd_cond n) \<or>
          ra_has_user_jump (nd_then n) \<or> ra_has_user_jump (nd_els n) \<or> ra_has_user_jump (nd_init n) \<or>
          ra_has_user_jump (nd_inc n) then True
      else if ra_have_user_jump (nd_body n) then True
      else ra_have_user_jump (nd_args n))"
| "ra_have_user_jump [] = False"
| "ra_have_user_jump (n # ns) = (if ra_has_user_jump (Some n) then True else ra_have_user_jump ns)"
  by pat_completeness auto
termination
  by (relation "measure (case_sum (size_option size) (\<lambda>ns. Suc (size_list size ns)))") auto

declare ra_has_user_jump.simps(2) [simp del]

section \<open>Coloring\<close>

text \<open>The inner loop of the insertion sort; the argument is \<open>j + 1\<close>, and \<open>cur\<close> fills the hole.\<close>

fun ra_shift :: "(nat \<Rightarrow> nat) \<Rightarrow> nat \<Rightarrow> nat list \<Rightarrow> nat \<Rightarrow> nat list" where
  "ra_shift uses cur order 0 = order[0 := cur]"
| "ra_shift uses cur order (Suc j) =
     (if uses (order ! j) < uses cur then ra_shift uses cur (order[Suc j := order ! j]) j else order[Suc j := cur])"

definition ra_sort :: "(nat \<Rightarrow> nat) \<Rightarrow> nat list \<Rightarrow> nat list" where
  "ra_sort uses order = foldl (\<lambda>order a. ra_shift uses (order ! a) order a) order [1..<length order]"

definition ra_pool :: "nat list" where
  "ra_pool = [2, 3, 4, 5, 6, 7, 10, 11, 12, 13]"

text \<open>The registers of the interfering candidates that come before \<open>k\<close> in the order.\<close>

definition ra_used :: "ra_set list \<Rightarrow> nat list \<Rightarrow> nat list \<Rightarrow> nat \<Rightarrow> bool list" where
  "ra_used C order regs k =
     foldl (\<lambda>used m. if regs ! (order ! m) \<noteq> 0 \<and> ra_interfere C (order ! k) (order ! m)
                     then used[regs ! (order ! m) := True] else used) (replicate 14 False) [0..<k]"

definition ra_choose :: "bool list \<Rightarrow> nat" where
  "ra_choose used = (case find (\<lambda>r. \<not> used ! r) ra_pool of None \<Rightarrow> 0 | Some r \<Rightarrow> r)"

definition ra_color_step :: "ra_set list \<Rightarrow> nat list \<Rightarrow> nat list \<times> nat \<Rightarrow> nat \<Rightarrow> nat list \<times> nat" where
  "ra_color_step C order S k =
     (case S of (regs, hi) \<Rightarrow>
        (let chosen = ra_choose (ra_used C order regs k)
         in (regs[order ! k := chosen], if 2 \<le> chosen \<and> chosen \<le> 7 \<and> hi < chosen then chosen else hi)))"

definition ra_order :: "ra_state \<Rightarrow> nat list" where
  "ra_order st = ra_sort (\<lambda>i. rc_uses (fst st ! i)) (filter (ra_colorable st) [0..<length (fst st)])"

text \<open>The registers of the candidates, and the highest data register. \<open>None\<close>: the liveness loop never ends.\<close>

definition ra_color_global :: "ra_state \<Rightarrow> ir_item list \<Rightarrow> ir_block list \<Rightarrow> (nat list \<times> nat) option" where
  "ra_color_global st its bs =
     (case ra_liveness st its bs of None \<Rightarrow> None
      | Some C \<Rightarrow> (let order = ra_order st
                  in Some (foldl (ra_color_step C order) (replicate (length (fst st)) 0, 0) [0..<length order])))"

section \<open>Selection of the most used candidates\<close>

definition op5_pick :: "ra_state \<Rightarrow> nat list \<Rightarrow> nat option \<Rightarrow> nat \<Rightarrow> nat option" where
  "op5_pick st regs best i =
     (if regs ! i \<noteq> 0 \<or> rc_loopuses (fst st ! i) < 1 \<or> ra_addr_taken (snd st) (rc_var (fst st ! i)) then best
      else case best of None \<Rightarrow> Some i
           | Some b \<Rightarrow> if rc_uses (fst st ! b) < rc_uses (fst st ! i) then Some i else best)"

definition op5_best :: "ra_state \<Rightarrow> nat list \<Rightarrow> nat option" where
  "op5_best st regs = foldl (op5_pick st regs) None [0..<length (fst st)]"

fun op5_loop :: "ra_state \<Rightarrow> nat list \<Rightarrow> nat list \<times> nat \<Rightarrow> nat list \<times> nat" where
  "op5_loop st [] S = S"
| "op5_loop st (r # rs) (regs, hi) =
     (case op5_best st regs of None \<Rightarrow> (regs, hi)
      | Some b \<Rightarrow> op5_loop st rs (regs[b := r], if r \<le> 7 then r else hi))"

definition ir_color_regs :: "bool \<Rightarrow> nat \<Rightarrow> func \<Rightarrow> ra_state \<Rightarrow> ir_item list \<Rightarrow> ir_block list \<Rightarrow> (nat list \<times> nat) option" where
  "ir_color_regs opt_regalloc opt_level fn st its bs =
     (if \<not> opt_regalloc \<or> fn_uses_returns_twice fn then Some (replicate (length (fst st)) 0, 0)
      else if 3 \<le> opt_level \<and> \<not> ra_has_user_jump (fn_body fn) then ra_color_global st its bs
      else Some (op5_loop st ra_pool (replicate (length (fst st)) 0, 0)))"

section \<open>Value temporaries\<close>

text \<open>The promotion of variables that the registers of the candidates stand for.\<close>

definition ra_promotion :: "ra_cand list \<Rightarrow> nat list \<Rightarrow> obj_id \<Rightarrow> nat" where
  "ra_promotion cs regs v = (case ra_cand_index cs (Some v) of None \<Rightarrow> 0 | Some i \<Rightarrow> regs ! i)"

definition mark_used :: "bool list \<Rightarrow> nat \<Rightarrow> bool list" where
  "mark_used used r = (if 2 \<le> r \<and> r \<le> 7 then used[r := True] else used)"

text \<open>\<open>\<rho>\<close> gives the registers of the variables; the result is the new register, if any, and the temporaries.\<close>

definition ir_vtemp_new :: "(obj_id \<Rightarrow> nat) \<Rightarrow> func \<Rightarrow> vtemp list \<Rightarrow> vtemp option \<times> vtemp list" where
  "ir_vtemp_new \<rho> fn vts =
     (if 64 \<le> length vts then (None, vts)
      else
        (let used = replicate 8 False;
             used = foldl mark_used used (map \<rho> (fn_params fn));
             used = foldl mark_used used (map \<rho> (fn_locals fn));
             used = foldl mark_used used vts
         in case find (\<lambda>r. \<not> used ! r) [2..<8] of None \<Rightarrow> (None, vts) | Some r \<Rightarrow> (Some r, vts @ [r])))"

definition materialize_item :: "(obj_id \<Rightarrow> nat) \<Rightarrow> func \<Rightarrow> ir_item \<times> vtemp list \<Rightarrow> ir_item \<times> vtemp list" where
  "materialize_item \<rho> fn S =
     (case S of (II_RET (Some e), vts) \<Rightarrow>
        if ie_size e \<noteq> 4 \<or> \<not> ie_pure e then S
        else (case ir_vtemp_new \<rho> fn vts of (None, vts') \<Rightarrow> (II_RET (Some e), vts')
              | (Some t, vts') \<Rightarrow> (II_RET (Some (IE_COMMA (IE_VDEF t e 4) (IE_VUSE t 4) 4 False)), vts'))
      | _ \<Rightarrow> S)"

fun materialize_items :: "(obj_id \<Rightarrow> nat) \<Rightarrow> func \<Rightarrow> ir_item list \<Rightarrow> vtemp list \<Rightarrow> ir_item list \<times> vtemp list" where
  "materialize_items \<rho> fn [] vts = ([], vts)"
| "materialize_items \<rho> fn (it # its) vts =
     (case materialize_item \<rho> fn (it, vts) of (it', vts1) \<Rightarrow>
        (case materialize_items \<rho> fn its vts1 of (its', vts2) \<Rightarrow> (it' # its', vts2)))"

text \<open>\<open>selftest\<close> is whether \<open>C68K_VTEMP_TEST\<close> is set.\<close>

definition ir_materialize_selftest :: "bool \<Rightarrow> (obj_id \<Rightarrow> nat) \<Rightarrow> func \<Rightarrow> ir_item list \<Rightarrow> ir_item list \<times> vtemp list" where
  "ir_materialize_selftest selftest \<rho> fn its = (if \<not> selftest then (its, []) else materialize_items \<rho> fn its [])"

section \<open>Building a body\<close>

record options =
  opt_regalloc :: bool
  opt_level :: nat
  opt_vtemp_test :: bool

record built =
  bd_items :: "ir_item list"
  bd_promotion :: "obj_id \<Rightarrow> nat"
  bd_vtemps :: "vtemp list"
  bd_hi :: nat

text \<open>
  \<open>ir_optimize\<close> rebuilds the blocks after it has folded the branches and replaces items in place after
  that, so the blocks at the end are those of the folded list.
\<close>

definition body_blocks :: "nat \<Rightarrow> ir_item list \<Rightarrow> ir_block list" where
  "body_blocks level P = ir_build_cfg (if 3 \<le> level then op6_fold_branches (op6_fold_exprs P) else P)"

definition ir_build_body :: "options \<Rightarrow> objs \<Rightarrow> func \<Rightarrow> nat \<Rightarrow> (built \<times> nat) option" where
  "ir_build_body opts E fn u =
     (case ir_prep_regs (opt_regalloc opts) E fn of (fm, st) \<Rightarrow>
      (case lower_stmt E fm (fn_body fn) u of None \<Rightarrow> None
      | Some (P, u') \<Rightarrow>
          (let its = (if 3 \<le> opt_level opts then ir_optimize P else P)
           in case ir_color_regs (opt_regalloc opts) (opt_level opts) fn st its (body_blocks (opt_level opts) P) of
                None \<Rightarrow> None
              | Some (regs, hi) \<Rightarrow>
                  (let \<rho> = ra_promotion (fst st) regs
                   in case ir_materialize_selftest (opt_vtemp_test opts) \<rho> fn its of (its', vts) \<Rightarrow>
                        Some (\<lparr>bd_items = its', bd_promotion = \<rho>, bd_vtemps = vts,
                          bd_hi = foldl (\<lambda>hi r. if 2 \<le> r \<and> r \<le> 7 \<and> hi < r then r else hi) hi vts\<rparr>, u')))))"

section \<open>The sort is stable\<close>

abbreviation by_uses :: "(nat \<Rightarrow> nat) \<Rightarrow> nat \<Rightarrow> int" where
  "by_uses uses i \<equiv> - int (uses i)"

text \<open>The insertion into a reversed sorted prefix.\<close>

fun put_before :: "(nat \<Rightarrow> nat) \<Rightarrow> nat \<Rightarrow> nat list \<Rightarrow> nat list" where
  "put_before uses cur [] = [cur]"
| "put_before uses cur (p # ps) = (if uses p < uses cur then p # put_before uses cur ps else cur # p # ps)"

lemma shift_put: "ra_shift uses cur (ps @ h # ts) (length ps) = rev (put_before uses cur (rev ps)) @ ts"
proof (induction ps arbitrary: h ts rule: rev_induct)
  case (snoc p ps)
  have "((ps @ [p]) @ h # ts) ! length ps = p" by (simp add: nth_append)
  moreover have "((ps @ [p]) @ h # ts)[Suc (length ps) := p] = ps @ p # p # ts" by (simp add: list_update_append)
  ultimately show ?case using snoc.IH [of p "p # ts"] by (simp add: list_update_append)
qed simp

lemma put_before_mset [simp]: "mset (put_before uses cur ps) = add_mset cur (mset ps)"
  by (induction ps) auto

lemma put_before_sorted:
  "sorted (map (by_uses uses) (rev ps)) \<Longrightarrow> sorted (map (by_uses uses) (rev (put_before uses cur ps)))"
proof (induction ps)
  case (Cons p ps)
  have s: "set (put_before uses cur ps) = insert cur (set ps)"
    by (metis put_before_mset set_mset_add_mset_insert set_mset_mset)
  show ?case using Cons by (auto simp: s sorted_append)
qed simp

lemma put_before_filter:
  "filter (\<lambda>x. by_uses uses k = by_uses uses x) (rev (put_before uses cur ps)) =
   filter (\<lambda>x. by_uses uses k = by_uses uses x) (rev ps @ [cur])"
  by (induction ps) auto

lemma sort_snoc: "sort_key (by_uses uses) (xs @ [x]) = rev (put_before uses x (rev (sort_key (by_uses uses) xs)))"
proof (rule properties_for_sort_key)
  show "mset (rev (put_before uses x (rev (sort_key (by_uses uses) xs)))) = mset (xs @ [x])" by simp
  show "sorted (map (by_uses uses) (rev (put_before uses x (rev (sort_key (by_uses uses) xs)))))"
    by (rule put_before_sorted) simp
  fix k
  show "filter (\<lambda>x. by_uses uses k = by_uses uses x) (rev (put_before uses x (rev (sort_key (by_uses uses) xs)))) =
      filter (\<lambda>x. by_uses uses k = by_uses uses x) (xs @ [x])"
    unfolding put_before_filter
    using sort_key_stable [of "by_uses uses" "by_uses uses k" xs] by (simp add: eq_commute [of "uses k"])
qed

lemma ra_sort_stable: "ra_sort uses order = sort_key (by_uses uses) order"
proof -
  let ?f = "\<lambda>order a. ra_shift uses (order ! a) order a"
  have "foldl ?f order [1..<m] = sort_key (by_uses uses) (take m order) @ drop m order" if "m \<le> length order" "m \<noteq> 0" for m
    using that
  proof (induction m)
    case (Suc m)
    show ?case
    proof (cases "m = 0")
      case True
      then show ?thesis using Suc.prems by (cases order) auto
    next
      case False
      let ?s = "sort_key (by_uses uses) (take m order)"
      have m: "m < length order" using Suc.prems by simp
      have ih: "foldl ?f order [1..<m] = ?s @ drop m order" using Suc False by simp
      have s: "length ?s = m" using m by simp
      have d: "drop m order = order ! m # drop (Suc m) order" using m by (simp add: Cons_nth_drop_Suc)
      have "foldl ?f order [1..<Suc m] = ra_shift uses (order ! m) (?s @ order ! m # drop (Suc m) order) (length ?s)"
        using False ih s d by (simp add: nth_append)
      also have "\<dots> = sort_key (by_uses uses) (take m order @ [order ! m]) @ drop (Suc m) order"
        unfolding shift_put sort_snoc ..
      finally show ?thesis using m by (simp add: take_Suc_conv_app_nth)
    qed
  qed simp
  from this [of "length order"] show ?thesis by (cases order) (auto simp: ra_sort_def)
qed

lemma sort_key_ascending:
  "sorted_wrt (<) xs \<Longrightarrow> sorted_wrt (\<lambda>x y. f x < f y \<or> f x = f y \<and> x < y) (sort_key f xs)"
  for f :: "nat \<Rightarrow> int"
proof (induction xs)
  case (Cons x xs)
  let ?R = "\<lambda>x y. f x < f y \<or> f x = f y \<and> x < y"
  have "sorted_wrt ?R (insort_key f x ys)" if "sorted_wrt ?R ys" "\<forall>y \<in> set ys. x < y" for ys
    using that
  proof (induction ys)
    case (Cons y ys)
    show ?case using Cons by (fastforce simp: set_insort_key)
  qed simp
  then show ?case using Cons by simp
qed simp

text \<open>The order of the coloring: descending uses, and ascending numbers for equal uses.\<close>

lemma order_facts:
  "set (ra_order st) = {i. i < length (fst st) \<and> ra_colorable st i}"
  "distinct (ra_order st)"
  "sorted_wrt (\<lambda>i j. rc_uses (fst st ! j) < rc_uses (fst st ! i) \<or> rc_uses (fst st ! i) = rc_uses (fst st ! j) \<and> i < j)
     (ra_order st)"
proof -
  let ?u = "\<lambda>i. rc_uses (fst st ! i)"
  have o: "ra_order st = sort_key (by_uses ?u) (filter (ra_colorable st) [0..<length (fst st)])"
    by (simp add: ra_order_def ra_sort_stable)
  show "set (ra_order st) = {i. i < length (fst st) \<and> ra_colorable st i}" "distinct (ra_order st)" by (auto simp: o)
  have "sorted_wrt (<) (filter (ra_colorable st) [0..<length (fst st)])" by (simp add: sorted_wrt_filter)
  from sort_key_ascending [OF this, of "by_uses ?u"]
  show "sorted_wrt (\<lambda>i j. ?u j < ?u i \<or> ?u i = ?u j \<and> i < j) (ra_order st)" by (simp add: o)
qed

section \<open>The greedy choice\<close>

lemma pool_facts: "distinct ra_pool" "length ra_pool = 10" "r \<in> set ra_pool \<Longrightarrow> r < 14 \<and> r \<noteq> 0"
  "r \<in> set ra_pool \<Longrightarrow> r \<le> 7 \<Longrightarrow> 2 \<le> r"
  by (auto simp: ra_pool_def)

lemma choose_cases:
  "ra_choose used \<in> set ra_pool \<and> \<not> used ! ra_choose used \<or> ra_choose used = 0 \<and> (\<forall>r \<in> set ra_pool. used ! r)"
proof (cases "find (\<lambda>r. \<not> used ! r) ra_pool")
  case None
  then have "\<forall>r \<in> set ra_pool. used ! r" by (auto simp: find_None_iff)
  then show ?thesis using None by (simp add: ra_choose_def)
next
  case (Some r)
  then have "r \<in> set ra_pool" "\<not> used ! r" by (auto simp: find_Some_iff)
  then show ?thesis using Some by (simp add: ra_choose_def)
qed

lemma choose_bound: "ra_choose used < 14"
  using choose_cases [of used] pool_facts(3) by force

text \<open>The register table after \<open>k\<close> steps, as a property of the entries.\<close>

lemma used_mem:
  assumes "\<forall>m < k. regs ! (order ! m) < 14" "r < 14"
  shows "ra_used C order regs k ! r \<longleftrightarrow>
    r \<noteq> 0 \<and> (\<exists>m < k. regs ! (order ! m) = r \<and> ra_interfere C (order ! k) (order ! m))"
proof -
  let ?f = "\<lambda>used m. if regs ! (order ! m) \<noteq> 0 \<and> ra_interfere C (order ! k) (order ! m)
    then used[regs ! (order ! m) := True] else used"
  have "length (foldl ?f (replicate 14 False) [0..<l]) = 14 \<and>
      (foldl ?f (replicate 14 False) [0..<l] ! r \<longleftrightarrow>
        r \<noteq> 0 \<and> (\<exists>m < l. regs ! (order ! m) = r \<and> ra_interfere C (order ! k) (order ! m)))" if "l \<le> k" for l
    using that
  proof (induction l)
    case (Suc l)
    then have "regs ! (order ! l) < 14" using assms(1) by simp
    then show ?case using Suc assms(2) by (auto simp: nth_list_update less_Suc_eq)
  qed (use assms in simp)
  then show ?thesis by (simp add: ra_used_def)
qed

lemma used_cong:
  "(\<And>m. m < k \<Longrightarrow> regs ! (order ! m) = regs' ! (order ! m)) \<Longrightarrow> ra_used C order regs k = ra_used C order regs' k"
  unfolding ra_used_def by (intro foldl_cong) (auto simp del: upt_Suc)

text \<open>The highest data register in use, as \<open>hi\<close> is to be.\<close>

definition top_data :: "nat list \<Rightarrow> nat" where
  "top_data rs = foldr (\<lambda>r hi. if 2 \<le> r \<and> r \<le> 7 then max r hi else hi) rs 0"

lemma top_data_simps [simp]: "top_data [] = 0"
  "top_data (r # rs) = (if 2 \<le> r \<and> r \<le> 7 then max r (top_data rs) else top_data rs)"
  by (simp_all add: top_data_def)

lemma top_data_append [simp]: "top_data (xs @ ys) = max (top_data xs) (top_data ys)"
  by (induction xs) auto

lemma top_data_bound: "r \<in> set rs \<Longrightarrow> 2 \<le> r \<Longrightarrow> r \<le> 7 \<Longrightarrow> r \<le> top_data rs"
  by (induction rs) auto

lemma top_data_mem: "top_data rs = 0 \<or> top_data rs \<in> set rs \<and> 2 \<le> top_data rs \<and> top_data rs \<le> 7"
  by (induction rs) (auto simp: max_def)

text \<open>
  A coloring is greedy when the candidates outside the order have no register and every other one has
  the first register that no interfering predecessor holds.
\<close>

definition greedy :: "nat \<Rightarrow> ra_set list \<Rightarrow> nat list \<Rightarrow> nat \<Rightarrow> nat list \<Rightarrow> bool" where
  "greedy n C order k regs \<longleftrightarrow> length regs = n \<and> (\<forall>i < n. i \<notin> set (take k order) \<longrightarrow> regs ! i = 0) \<and>
     (\<forall>m < k. regs ! (order ! m) = ra_choose (ra_used C order regs m))"

lemma greedy_step:
  assumes g: "greedy n C order k regs" and d: "distinct order" "set order \<subseteq> {..<n}" "k < length order"
    and s: "ra_color_step C order (regs, hi) k = (regs', hi')"
  shows "greedy n C order (Suc k) regs'"
    "hi' = (if 2 \<le> regs' ! (order ! k) \<and> regs' ! (order ! k) \<le> 7 then max hi (regs' ! (order ! k)) else hi)"
    "\<And>m. m < k \<Longrightarrow> regs' ! (order ! m) = regs ! (order ! m)"
proof -
  let ?c = "ra_choose (ra_used C order regs k)"
  have r: "regs' = regs[order ! k := ?c]" and h: "hi' = (if 2 \<le> ?c \<and> ?c \<le> 7 \<and> hi < ?c then ?c else hi)"
    using s by (auto simp: ra_color_step_def Let_def)
  have k: "order ! k < n" "length regs = n" using d(2) nth_mem [OF d(3)] g by (auto simp: greedy_def)
  have ne: "order ! m \<noteq> order ! k" if "m < k" for m using d that by (simp add: nth_eq_iff_index_eq)
  show old: "regs' ! (order ! m) = regs ! (order ! m)" if "m < k" for m using ne [OF that] r by simp
  have new: "regs' ! (order ! k) = ?c" using r k by simp
  show "hi' = (if 2 \<le> regs' ! (order ! k) \<and> regs' ! (order ! k) \<le> 7 then max hi (regs' ! (order ! k)) else hi)"
    using h new by auto
  have used: "ra_used C order regs' m = ra_used C order regs m" if "m \<le> k" for m
    using that old by (intro used_cong) simp
  have "regs' ! (order ! m) = ra_choose (ra_used C order regs' m)" if "m < Suc k" for m
    using that g new old [of m] used [of m] by (auto simp: less_Suc_eq greedy_def)
  moreover have "regs' ! i = 0" if "i < n" "i \<notin> set (take (Suc k) order)" for i
    using that g d(3) r by (auto simp: greedy_def take_Suc_conv_app_nth)
  ultimately show "greedy n C order (Suc k) regs'" using r k by (auto simp: greedy_def)
qed

lemma color_greedy:
  assumes d: "distinct order" "set order \<subseteq> {..<n}" "k \<le> length order"
    and r: "foldl (ra_color_step C order) (replicate n 0, 0) [0..<k] = (regs, hi)"
  shows "greedy n C order k regs" "hi = top_data (map (\<lambda>m. regs ! (order ! m)) [0..<k])"
proof -
  have "greedy n C order k regs \<and> hi = top_data (map (\<lambda>m. regs ! (order ! m)) [0..<k])"
    using d(3) r
  proof (induction k arbitrary: regs hi)
    case 0
    then show ?case by (auto simp: greedy_def)
  next
    case (Suc k)
    obtain regs1 hi1 where f: "foldl (ra_color_step C order) (replicate n 0, 0) [0..<k] = (regs1, hi1)" by force
    then have s: "ra_color_step C order (regs1, hi1) k = (regs, hi)" using Suc.prems(2) by simp
    have ih: "greedy n C order k regs1" "hi1 = top_data (map (\<lambda>m. regs1 ! (order ! m)) [0..<k])"
      using Suc.IH [OF _ f] Suc.prems(1) by auto
    have k: "k < length order" using Suc.prems(1) by simp
    note g = greedy_step [OF ih(1) d(1,2) k s]
    have m: "map (\<lambda>m. regs1 ! (order ! m)) [0..<k] = map (\<lambda>m. regs ! (order ! m)) [0..<k]" using g(3) by simp
    show ?case using g(1,2) ih(2) m by simp
  qed
  then show "greedy n C order k regs" "hi = top_data (map (\<lambda>m. regs ! (order ! m)) [0..<k])" by auto
qed

lemma greedy_reg:
  assumes "greedy n C order (length order) regs" "i < n"
  shows "regs ! i < 14" "regs ! i = 0 \<or> regs ! i \<in> set ra_pool"
proof -
  have "regs ! i = 0 \<or> (\<exists>u. regs ! i = ra_choose u)"
    using assms by (cases "i \<in> set order") (auto simp: greedy_def in_set_conv_nth)
  then show "regs ! i = 0 \<or> regs ! i \<in> set ra_pool" using choose_cases by metis
  then show "regs ! i < 14" using pool_facts(3) by auto
qed

lemma greedy_distinct:
  assumes g: "greedy n C order (length order) regs" and o: "set order \<subseteq> {..<n}"
    and m: "l < m" "m < length order" and i: "ra_interfere C (order ! m) (order ! l)"
    and r: "regs ! (order ! l) \<noteq> 0"
  shows "regs ! (order ! m) \<noteq> regs ! (order ! l)"
proof
  assume e: "regs ! (order ! m) = regs ! (order ! l)"
  have b: "regs ! (order ! k) < 14" if "k < length order" for k using greedy_reg(1) [OF g] o nth_mem [OF that] by auto
  have "ra_used C order regs m ! (regs ! (order ! l))"
    using used_mem [of m regs order "regs ! (order ! l)" C] b m i r by auto
  moreover have "regs ! (order ! m) = ra_choose (ra_used C order regs m)" using g m by (simp add: greedy_def)
  ultimately show False using choose_cases [of "ra_used C order regs m"] e r by auto
qed

section \<open>The selection loop takes the candidates in the order of the coloring\<close>

definition op5_better :: "ra_state \<Rightarrow> nat \<Rightarrow> nat \<Rightarrow> bool" where
  "op5_better st i j \<longleftrightarrow> rc_uses (fst st ! j) < rc_uses (fst st ! i) \<or>
     rc_uses (fst st ! i) = rc_uses (fst st ! j) \<and> i < j"

lemma op5_better_antisym: "op5_better st i j \<Longrightarrow> \<not> op5_better st j i"
  by (auto simp: op5_better_def)

text \<open>\<open>b\<close> is the best of the free colorable candidates below \<open>n\<close>.\<close>

definition op5_is_best :: "ra_state \<Rightarrow> nat list \<Rightarrow> nat \<Rightarrow> nat option \<Rightarrow> bool" where
  "op5_is_best st regs n best \<longleftrightarrow>
     (case best of None \<Rightarrow> \<forall>i < n. \<not> (ra_colorable st i \<and> regs ! i = 0)
      | Some b \<Rightarrow> b < n \<and> ra_colorable st b \<and> regs ! b = 0 \<and>
          (\<forall>i < n. ra_colorable st i \<and> regs ! i = 0 \<and> i \<noteq> b \<longrightarrow> op5_better st b i))"

lemma op5_best_is_best: "op5_is_best st regs (length (fst st)) (op5_best st regs)"
proof -
  have "op5_is_best st regs n (foldl (op5_pick st regs) None [0..<n])" for n
  proof (induction n)
    case (Suc n)
    have c: "regs ! n \<noteq> 0 \<or> rc_loopuses (fst st ! n) < 1 \<or> ra_addr_taken (snd st) (rc_var (fst st ! n)) \<longleftrightarrow>
        \<not> (ra_colorable st n \<and> regs ! n = 0)" by (auto simp: ra_colorable_def)
    have "op5_is_best st regs n b \<Longrightarrow> op5_is_best st regs (Suc n) (op5_pick st regs b n)" for b
      unfolding op5_pick_def c
      by (cases b) (auto simp: op5_is_best_def op5_better_def less_Suc_eq)
    then show ?case using Suc by simp
  qed (simp add: op5_is_best_def)
  then show ?thesis by (simp add: op5_best_def)
qed

lemma op5_is_best_unique: "op5_is_best st regs n a \<Longrightarrow> op5_is_best st regs n b \<Longrightarrow> a = b"
  by (cases a; cases b) (auto simp: op5_is_best_def dest: op5_better_antisym)

text \<open>The table that gives the first \<open>k\<close> candidates of the order the first \<open>k\<close> registers.\<close>

definition op5_table :: "ra_state \<Rightarrow> nat \<Rightarrow> nat list \<Rightarrow> bool" where
  "op5_table st k regs \<longleftrightarrow> length regs = length (fst st) \<and>
     (\<forall>m < k. regs ! (ra_order st ! m) = ra_pool ! m) \<and>
     (\<forall>i < length (fst st). i \<notin> set (take k (ra_order st)) \<longrightarrow> regs ! i = 0)"

lemma op5_table_best:
  assumes t: "op5_table st k regs" and k: "k \<le> length (ra_order st)" "k \<le> 10"
  shows "op5_best st regs = (if k < length (ra_order st) then Some (ra_order st ! k) else None)"
proof (rule op5_is_best_unique [OF op5_best_is_best])
  let ?o = "ra_order st" let ?n = "length (fst st)"
  have free: "regs ! i = 0 \<longleftrightarrow> i \<notin> set (take k ?o)" if "i < ?n" for i
  proof
    assume z: "regs ! i = 0"
    show "i \<notin> set (take k ?o)"
    proof
      assume "i \<in> set (take k ?o)"
      then obtain m where "m < k" "?o ! m = i" using k by (auto simp: in_set_conv_nth)
      then have "regs ! i = ra_pool ! m" "ra_pool ! m \<in> set ra_pool" using t k pool_facts(2) by (auto simp: op5_table_def)
      then show False using z pool_facts(3) by auto
    qed
  qed (use t that in \<open>auto simp: op5_table_def\<close>)
  have split: "set ?o = set (take k ?o) \<union> set (drop k ?o)" by (metis append_take_drop_id set_append)
  show "op5_is_best st regs ?n (if k < length ?o then Some (?o ! k) else None)"
  proof (cases "k < length ?o")
    case True
    have d: "drop k ?o = ?o ! k # drop (Suc k) ?o" using True by (simp add: Cons_nth_drop_Suc)
    have dist: "distinct (take k ?o @ drop k ?o)" using order_facts(2) by simp
    have fresh: "?o ! k \<notin> set (take k ?o)" using dist d by auto
    have in_o: "?o ! k \<in> set ?o" using True by simp
    have best: "op5_better st (?o ! k) i" if "i \<in> set (drop (Suc k) ?o)" for i
    proof -
      have "sorted_wrt (op5_better st) ?o" using order_facts(3) [of st] by (simp add: op5_better_def [abs_def])
      then have "sorted_wrt (op5_better st) (drop k ?o)" by (rule sorted_wrt_drop)
      then show ?thesis using d that by simp
    qed
    have "op5_better st (?o ! k) i" if "i < ?n" "ra_colorable st i" "regs ! i = 0" "i \<noteq> ?o ! k" for i
    proof -
      have "i \<in> set ?o" using order_facts(1) that by blast
      then have "i \<in> set (drop (Suc k) ?o)" using split d free [OF that(1)] that(3,4) by auto
      then show ?thesis by (rule best)
    qed
    then show ?thesis using True in_o fresh free order_facts(1) [of st] by (auto simp: op5_is_best_def)
  next
    case False
    then have "take k ?o = ?o" by simp
    then show ?thesis using False free order_facts(1) [of st] by (auto simp: op5_is_best_def)
  qed
qed

lemma pool_top:
  assumes "k < 10"
  shows "top_data (take (Suc k) ra_pool) = (if ra_pool ! k \<le> 7 then ra_pool ! k else top_data (take k ra_pool))"
proof -
  have "k \<in> {0, 1, 2, 3, 4, 5, 6, 7, 8, 9}" using assms by auto
  then show ?thesis by (elim insertE emptyE) (simp_all add: ra_pool_def)
qed

lemma op5_loop_table:
  assumes "op5_table st k regs" "k \<le> length (ra_order st)" "k \<le> 10" "hi = top_data (take k ra_pool)"
  shows "\<exists>regs' hi'. op5_loop st (drop k ra_pool) (regs, hi) = (regs', hi') \<and>
    op5_table st (min 10 (length (ra_order st))) regs' \<and> hi' = top_data (take (length (ra_order st)) ra_pool)"
  using assms
proof (induction "10 - k" arbitrary: k regs hi)
  case 0
  then show ?case using pool_facts(2) by (cases "ra_order st") auto
next
  case (Suc d)
  have k: "k < 10" "d = 10 - Suc k" using Suc.hyps(2) by auto
  have p: "drop k ra_pool = ra_pool ! k # drop (Suc k) ra_pool" using k pool_facts(2) by (simp add: Cons_nth_drop_Suc)
  show ?case
  proof (cases "k < length (ra_order st)")
    case True
    let ?o = "ra_order st" let ?regs = "regs[?o ! k := ra_pool ! k]" let ?hi = "if ra_pool ! k \<le> 7 then ra_pool ! k else hi"
    have ok: "?o ! k < length (fst st)" using order_facts(1) [of st] nth_mem [OF True] by auto
    have ne: "?o ! m \<noteq> ?o ! k" if "m < k" for m using order_facts(2) [of st] that True by (simp add: nth_eq_iff_index_eq)
    have t: "op5_table st (Suc k) ?regs"
      using Suc.prems(1) ok ne [symmetric] True by (auto simp: op5_table_def less_Suc_eq take_Suc_conv_app_nth)
    have hi: "?hi = top_data (take (Suc k) ra_pool)" using pool_top [OF k(1)] Suc.prems(4) by simp
    have "op5_loop st (drop k ra_pool) (regs, hi) = op5_loop st (drop (Suc k) ra_pool) (?regs, ?hi)"
      unfolding p using op5_table_best [OF Suc.prems(1-3)] True by simp
    with Suc.hyps(1) [OF k(2) t _ _ hi] True k show ?thesis by simp
  next
    case False
    then have "op5_best st regs = None" using op5_table_best [OF Suc.prems(1-3)] by simp
    then show ?thesis unfolding p using Suc.prems False k by (simp add: min_def)
  qed
qed

lemma op5_assigns:
  "\<exists>regs. op5_loop st ra_pool (replicate (length (fst st)) 0, 0) = (regs, top_data (take (length (ra_order st)) ra_pool)) \<and>
     op5_table st (min 10 (length (ra_order st))) regs"
  using op5_loop_table [of st 0 "replicate (length (fst st)) 0" 0] by (simp add: op5_table_def)

text \<open>When all candidates interfere the coloring gives the same table.\<close>

lemma greedy_all:
  assumes g: "greedy n C order (length order) regs" and o: "set order \<subseteq> {..<n}"
    and i: "\<And>l m. l < m \<Longrightarrow> m < length order \<Longrightarrow> ra_interfere C (order ! m) (order ! l)"
  shows "m < length order \<Longrightarrow> regs ! (order ! m) = (if m < 10 then ra_pool ! m else 0)"
proof (induction m rule: less_induct)
  case (less m)
  have b: "regs ! (order ! k) < 14" if "k < length order" for k using greedy_reg(1) [OF g] o nth_mem [OF that] by auto
  have prev: "regs ! (order ! l) = (if l < 10 then ra_pool ! l else 0)" if "l < m" for l using less that by simp
  let ?u = "ra_used C order regs m"
  have u: "?u ! (ra_pool ! p) \<longleftrightarrow> p < m" if "p < 10" for p
  proof -
    have p: "ra_pool ! p \<in> set ra_pool" using that pool_facts(2) by simp
    have "?u ! (ra_pool ! p) \<longleftrightarrow> (\<exists>l < m. regs ! (order ! l) = ra_pool ! p)"
      using used_mem [of m regs order "ra_pool ! p" C] pool_facts(3) [OF p] b i less.prems by auto
    also have "\<dots> \<longleftrightarrow> (\<exists>l < m. l < 10 \<and> ra_pool ! l = ra_pool ! p)" using prev pool_facts(3) [OF p] by (auto split: if_splits)
    also have "\<dots> \<longleftrightarrow> p < m" using that pool_facts(1,2) by (auto simp: nth_eq_iff_index_eq)
    finally show ?thesis .
  qed
  have c: "regs ! (order ! m) = ra_choose ?u" using g less.prems by (simp add: greedy_def)
  show ?case
  proof (cases "m < 10")
    case True
    have "find (\<lambda>r. \<not> ?u ! r) ra_pool = Some (ra_pool ! m)"
      unfolding find_Some_iff using True u pool_facts(2) by (intro exI [of _ m]) auto
    then show ?thesis using c True by (simp add: ra_choose_def)
  next
    case False
    have "?u ! r" if "r \<in> set ra_pool" for r
    proof -
      from that obtain p where "p < 10" "r = ra_pool ! p" using pool_facts(2) by (metis in_set_conv_nth)
      then show ?thesis using u False by simp
    qed
    then have "find (\<lambda>r. \<not> ?u ! r) ra_pool = None" by (simp add: find_None_iff)
    then show ?thesis using c False by (simp add: ra_choose_def)
  qed
qed

lemma top_data_zeros [simp]: "top_data (replicate k 0) = 0"
  by (induction k) auto

lemma pool_prefix: "map (\<lambda>m. if m < 10 then ra_pool ! m else 0) [0..<k] = take k ra_pool @ replicate (k - 10) 0"
  by (rule nth_equalityI) (auto simp: pool_facts(2) nth_append)

section \<open>Main theorems\<close>

lemma color_run:
  assumes "length (fst st) \<le> 256" "P \<noteq> []"
  obtains C regs where "ra_liveness st its (ir_build_cfg P) = Some C"
    "\<And>i j. i < length (fst st) \<Longrightarrow> j < length (fst st) \<Longrightarrow>
       ra_interfere C i j \<longleftrightarrow> conflict (ir_build_cfg P) (cfg_events st its P) i j"
    "ra_color_global st its (ir_build_cfg P) = Some (regs, top_data (map (\<lambda>m. regs ! (ra_order st ! m)) [0..<length (ra_order st)]))"
    "greedy (length (fst st)) C (ra_order st) (length (ra_order st)) regs"
proof -
  obtain C where C: "ra_liveness st its (ir_build_cfg P) = Some C"
    "\<forall>i < length (fst st). \<forall>j < length (fst st). ra_interfere C i j \<longleftrightarrow> conflict (ir_build_cfg P) (cfg_events st its P) i j"
    using interference_conflict [OF assms] by blast
  obtain regs hi where r: "foldl (ra_color_step C (ra_order st)) (replicate (length (fst st)) 0, 0) [0..<length (ra_order st)] = (regs, hi)"
    by force
  have "set (ra_order st) \<subseteq> {..<length (fst st)}" using order_facts(1) by auto
  note g = color_greedy [OF order_facts(2) this le_refl r]
  show thesis using that [OF C(1) _ _ g(1)] C r g(2) by (simp add: ra_color_global_def Let_def)
qed

lemma order_bound: "set (ra_order st) \<subseteq> {..<length (fst st)}"
  using order_facts(1) by auto

lemma order_nth: "k < length (ra_order st) \<Longrightarrow> ra_order st ! k < length (fst st)"
  using order_bound [of st] nth_mem by blast

lemma greedy_conflict:
  assumes g: "greedy n C order (length order) regs" and o: "set order \<subseteq> {..<n}"
    and C: "\<And>i j. i < n \<Longrightarrow> j < n \<Longrightarrow> ra_interfere C i j \<longleftrightarrow> conflict bs evs i j"
    and ij: "i < n" "j < n" "conflict bs evs i j" and r: "regs ! i \<noteq> 0"
  shows "regs ! i \<noteq> regs ! j"
proof
  assume e: "regs ! i = regs ! j"
  then have "i \<in> set order" "j \<in> set order" using g r ij by (auto simp: greedy_def)
  then obtain l m where l: "l < length order" "order ! l = i" and m: "m < length order" "order ! m = j"
    by (auto simp: in_set_conv_nth)
  have "l \<noteq> m" using ij(3) l m by (auto simp: conflict_def)
  then consider "l < m" | "m < l" by linarith
  then show False
  proof cases
    case 1
    then show False using greedy_distinct [OF g o 1 m(1)] C ij l m e r conflict_sym by metis
  next
    case 2
    then show False using greedy_distinct [OF g o 2 l(1)] C ij l m e r by metis
  qed
qed

text \<open>
  Two candidates that share a register are in no conflict: neither is stored, on all paths or on some, at
  an event after which the other may still be read, and not both are live at the entry. This is a
  statement about the events in the order in which \<open>ra_ev_walk\<close> takes them, which is not always the
  order of the code; \<open>Ra_Sound\<close> says what it means for the meaning of the items.
\<close>

lemma color_no_conflict:
  assumes "length (fst st) \<le> 256" "P \<noteq> []" and r: "ra_color_global st its (ir_build_cfg P) = Some (regs, hi)"
    and ij: "i < length (fst st)" "j < length (fst st)" "regs ! i = regs ! j" "regs ! i \<noteq> 0"
  shows "\<not> conflict (ir_build_cfg P) (cfg_events st its P) i j"
proof -
  obtain C regs' where c: "\<And>i j. i < length (fst st) \<Longrightarrow> j < length (fst st) \<Longrightarrow>
       ra_interfere C i j \<longleftrightarrow> conflict (ir_build_cfg P) (cfg_events st its P) i j"
    and r': "ra_color_global st its (ir_build_cfg P) =
       Some (regs', top_data (map (\<lambda>m. regs' ! (ra_order st ! m)) [0..<length (ra_order st)]))"
    and g: "greedy (length (fst st)) C (ra_order st) (length (ra_order st)) regs'"
    using color_run [OF assms(1,2)] by metis
  have "regs' = regs" using r r' by simp
  then show ?thesis using greedy_conflict [OF g order_bound c ij(1,2)] ij(3,4) by blast
qed

lemma color_greedy_run:
  assumes "length (fst st) \<le> 256" "P \<noteq> []" "ra_color_global st its (ir_build_cfg P) = Some (regs, hi)"
  shows "\<exists>C. greedy (length (fst st)) C (ra_order st) (length (ra_order st)) regs"
proof -
  obtain C regs' where
    "ra_color_global st its (ir_build_cfg P) =
       Some (regs', top_data (map (\<lambda>m. regs' ! (ra_order st ! m)) [0..<length (ra_order st)]))"
    "greedy (length (fst st)) C (ra_order st) (length (ra_order st)) regs'"
    using color_run [OF assms(1,2)] by metis
  then show ?thesis using assms(3) by auto
qed

lemma color_regs:
  assumes "length (fst st) \<le> 256" "P \<noteq> []" "ra_color_global st its (ir_build_cfg P) = Some (regs, hi)"
  shows "length regs = length (fst st)" and "i < length (fst st) \<Longrightarrow> regs ! i < 14"
    and "i < length (fst st) \<Longrightarrow> regs ! i \<noteq> 0 \<Longrightarrow> ra_colorable st i"
proof -
  obtain C where g: "greedy (length (fst st)) C (ra_order st) (length (ra_order st)) regs"
    using color_greedy_run [OF assms] by blast
  then show "length regs = length (fst st)" by (simp add: greedy_def)
  show "regs ! i < 14" if "i < length (fst st)" using greedy_reg(1) [OF g that] .
  show "ra_colorable st i" if "i < length (fst st)" "regs ! i \<noteq> 0"
  proof -
    have "i \<in> set (ra_order st)" using g that by (auto simp: greedy_def)
    then show ?thesis using order_facts(1) by auto
  qed
qed

text \<open>
  C18: what the coloring gives out. A register is 0 or one of the ten of the pool, and only a variable used
  in a loop whose address is not taken gets one; a variable stays in memory only if every register of
  the pool is held by a variable with at least as many uses that is in conflict with it; and the result
  is the highest data register in use, so that the prologue saves all of them.
\<close>

theorem ra_color_global_registers:
  assumes "length (fst st) \<le> 256" "P \<noteq> []" "ra_color_global st its (ir_build_cfg P) = Some (regs, hi)" "i < length (fst st)"
  shows "length regs = length (fst st) \<and>
    (regs ! i \<noteq> 0 \<longrightarrow> regs ! i \<in> set ra_pool \<and> ra_colorable st i) \<and>
    (ra_colorable st i \<and> regs ! i = 0 \<longrightarrow> (\<forall>r \<in> set ra_pool. \<exists>j < length (fst st).
       regs ! j = r \<and> rc_uses (fst st ! i) \<le> rc_uses (fst st ! j) \<and> conflict (ir_build_cfg P) (cfg_events st its P) i j)) \<and>
    (2 \<le> regs ! i \<and> regs ! i \<le> 7 \<longrightarrow> regs ! i \<le> hi) \<and>
    (hi = 0 \<or> 2 \<le> hi \<and> hi \<le> 7 \<and> hi \<in> set regs)"
proof -
  let ?n = "length (fst st)" let ?o = "ra_order st"
  obtain C where c: "\<And>i j. i < ?n \<Longrightarrow> j < ?n \<Longrightarrow>
       ra_interfere C i j \<longleftrightarrow> conflict (ir_build_cfg P) (cfg_events st its P) i j"
    and g: "greedy ?n C ?o (length ?o) regs" and hi: "hi = top_data (map (\<lambda>m. regs ! (?o ! m)) [0..<length ?o])"
  proof (rule color_run [OF assms(1,2), of its])
    fix C regs'
    assume c: "\<And>i j. i < ?n \<Longrightarrow> j < ?n \<Longrightarrow> ra_interfere C i j \<longleftrightarrow> conflict (ir_build_cfg P) (cfg_events st its P) i j"
      and r: "ra_color_global st its (ir_build_cfg P) = Some (regs', top_data (map (\<lambda>m. regs' ! (?o ! m)) [0..<length ?o]))"
      and g: "greedy ?n C ?o (length ?o) regs'"
    have "regs' = regs" "top_data (map (\<lambda>m. regs' ! (?o ! m)) [0..<length ?o]) = hi" using r assms(3) by simp_all
    with that [OF c] g show thesis by simp
  qed
  have len: "length regs = ?n" using g by (simp add: greedy_def)
  have out: "i \<in> set ?o" if "regs ! i \<noteq> 0" using g that assms(4) by (auto simp: greedy_def)
  have spill: "\<exists>j < ?n. regs ! j = r \<and> rc_uses (fst st ! i) \<le> rc_uses (fst st ! j) \<and> conflict (ir_build_cfg P) (cfg_events st its P) i j"
    if i: "ra_colorable st i" "regs ! i = 0" and r: "r \<in> set ra_pool" for r
  proof -
    have "i \<in> set ?o" using i assms(4) order_facts(1) by blast
    then obtain m where m: "m < length ?o" "?o ! m = i" by (auto simp: in_set_conv_nth)
    let ?u = "ra_used C ?o regs m"
    have "ra_choose ?u = 0" using g m i unfolding greedy_def by metis
    then have u: "?u ! r" using choose_cases [of ?u] pool_facts(3) r by metis
    have "regs ! (?o ! k) < 14" if "k < m" for k
      using greedy_reg(1) [OF g] order_nth [of k st] that m(1) by simp
    then obtain l where l: "l < m" "regs ! (?o ! l) = r" "ra_interfere C (?o ! m) (?o ! l)"
      using u used_mem [of m regs ?o r C] pool_facts(3) [OF r] by auto
    have b: "?o ! l < ?n" using order_nth [of l st] l m by simp
    have "rc_uses (fst st ! (?o ! m)) \<le> rc_uses (fst st ! (?o ! l))"
      using sorted_wrt_nth_less [OF order_facts(3) l(1) m(1)] by auto
    then show ?thesis using b l m c [OF assms(4) b] by auto
  qed
  have col: "ra_colorable st j" if "j \<in> set ?o" for j using that order_facts(1) by blast
  have at: "(\<lambda>m. regs ! (?o ! m)) ` {0..<length ?o} = (!) regs ` set ?o" by (force simp: in_set_conv_nth)
  have hi1: "regs ! i \<le> hi" if "2 \<le> regs ! i" "regs ! i \<le> 7"
    using top_data_bound [of "regs ! i" "map (\<lambda>m. regs ! (?o ! m)) [0..<length ?o]"] out that hi at by auto
  have hi2: "hi = 0 \<or> 2 \<le> hi \<and> hi \<le> 7 \<and> hi \<in> set regs"
    using top_data_mem [of "map (\<lambda>m. regs ! (?o ! m)) [0..<length ?o]"] at order_bound [of st] len
    unfolding hi [symmetric] by force
  have pool: "regs ! i \<in> set ra_pool \<and> ra_colorable st i" if "regs ! i \<noteq> 0"
    using greedy_reg(2) [OF g assms(4)] out col that by blast
  show ?thesis by (intro conjI impI ballI) (use len pool spill hi1 hi2 in simp_all)
qed

text \<open>
  C19: below \<open>-O3\<close> (and with user jumps) the ten registers go, in the order of the pool, to the
  first ten candidates by descending uses, ties in declaration order; the others get none.
\<close>

theorem op5_selects_most_used:
  "\<exists>regs hi. op5_loop st ra_pool (replicate (length (fst st)) 0, 0) = (regs, hi) \<and> length regs = length (fst st) \<and>
     (let order = sort_key (\<lambda>i. - int (rc_uses (fst st ! i))) (filter (ra_colorable st) [0..<length (fst st)])
      in map ((!) regs) order = take (length order) ra_pool @ replicate (length order - 10) 0)"
proof -
  let ?o = "ra_order st" let ?k = "length ?o"
  obtain regs where r: "op5_loop st ra_pool (replicate (length (fst st)) 0, 0) = (regs, top_data (take ?k ra_pool))"
    and t: "op5_table st (min 10 ?k) regs" using op5_assigns by blast
  have z: "regs ! (?o ! m) = 0" if "10 \<le> m" "m < ?k" for m
  proof -
    have "?o ! m \<notin> set (take 10 ?o)" using order_facts(2) [of st] that by (auto simp: in_set_conv_nth nth_eq_iff_index_eq)
    moreover have "?o ! m < length (fst st)" using order_bound [of st] nth_mem [OF that(2)] by blast
    ultimately show ?thesis using t that by (simp add: op5_table_def min_def)
  qed
  have "regs ! (?o ! m) = (if m < 10 then ra_pool ! m else 0)" if "m < ?k" for m
    using t z that by (auto simp: op5_table_def)
  then have "map ((!) regs) ?o = map (\<lambda>m. if m < 10 then ra_pool ! m else 0) [0..<?k]"
    by (intro nth_equalityI) auto
  then have "map ((!) regs) ?o = take ?k ra_pool @ replicate (?k - 10) 0" by (simp only: pool_prefix)
  then show ?thesis using r t by (simp add: ra_order_def ra_sort_stable Let_def op5_table_def)
qed

text \<open>
  a function whose candidates all conflict with each other is colored exactly as the selection loop
  assigns it.
\<close>

theorem all_conflicting_as_op5:
  assumes "length (fst st) \<le> 256" "P \<noteq> []"
    and "\<forall>i < length (fst st). \<forall>j < length (fst st). ra_colorable st i \<and> ra_colorable st j \<and> i \<noteq> j \<longrightarrow>
      conflict (ir_build_cfg P) (cfg_events st its P) i j"
  shows "ra_color_global st its (ir_build_cfg P) = Some (op5_loop st ra_pool (replicate (length (fst st)) 0, 0))"
proof -
  let ?n = "length (fst st)" let ?o = "ra_order st" let ?k = "length ?o"
  obtain C regs where c: "\<And>i j. i < ?n \<Longrightarrow> j < ?n \<Longrightarrow>
       ra_interfere C i j \<longleftrightarrow> conflict (ir_build_cfg P) (cfg_events st its P) i j"
    and r: "ra_color_global st its (ir_build_cfg P) = Some (regs, top_data (map (\<lambda>m. regs ! (?o ! m)) [0..<?k]))"
    and g: "greedy ?n C ?o ?k regs"
    using color_run [OF assms(1,2)] by metis
  obtain regs' where r': "op5_loop st ra_pool (replicate ?n 0, 0) = (regs', top_data (take ?k ra_pool))"
    and t: "op5_table st (min 10 ?k) regs'" using op5_assigns by blast
  have in_o: "?o ! m < ?n" "ra_colorable st (?o ! m)" if "m < ?k" for m using order_facts(1) [of st] nth_mem [OF that] by auto
  have inter: "ra_interfere C (?o ! m) (?o ! l)" if "l < m" "m < ?k" for l m
  proof -
    have "?o ! m \<noteq> ?o ! l" using order_facts(2) [of st] that by (simp add: nth_eq_iff_index_eq)
    then show ?thesis using in_o [of m] in_o [of l] that assms(3) c by auto
  qed
  have all: "regs ! (?o ! m) = (if m < 10 then ra_pool ! m else 0)" if "m < ?k" for m
    by (rule greedy_all [OF g order_bound inter that])
  have m: "map (\<lambda>m. regs ! (?o ! m)) [0..<?k] = take ?k ra_pool @ replicate (?k - 10) 0"
    using all unfolding pool_prefix [symmetric] by simp
  have "regs ! i = regs' ! i" if i: "i < ?n" for i
  proof (cases "i \<in> set ?o")
    case True
    then obtain m where m: "m < ?k" "?o ! m = i" by (auto simp: in_set_conv_nth)
    show ?thesis
    proof (cases "m < 10")
      case True
      then show ?thesis using all [OF m(1)] m t by (auto simp: op5_table_def)
    next
      case False
      then have "i \<notin> set (take (min 10 ?k) ?o)"
        using order_facts(2) [of st] m by (auto simp: in_set_conv_nth nth_eq_iff_index_eq)
      then show ?thesis using all [OF m(1)] m t False i by (auto simp: op5_table_def)
    qed
  next
    case False
    then show ?thesis using g t i set_take_subset [of "min 10 ?k" ?o] by (auto simp: greedy_def op5_table_def subset_iff)
  qed
  moreover have "length regs = length regs'" using g t by (simp add: greedy_def op5_table_def)
  ultimately have "regs = regs'" using g by (intro nth_equalityI) (auto simp: greedy_def)
  then show ?thesis using r r' m by simp
qed

section \<open>Witnesses\<close>

lemma ord_colored: "ra_color_global ord_state ord_items (ir_build_cfg ord_items) = Some ([2, 2, 3], 3)"
  by code_simp

lemma ra_color_global_registers_witness: "([2, 2, 3] :: nat list) ! 2 \<in> set ra_pool \<and> ra_colorable ord_state 2"
proof -
  have "2 < length (fst ord_state)" by (simp add: ord_state_def)
  from ra_color_global_registers [OF ord_length ord_cfg(2) ord_colored this] show ?thesis by simp
qed

text \<open>The same loop with only \<open>y\<close> and \<open>s\<close> as candidates, which conflict.\<close>

definition ord_pair :: ra_state where "ord_pair = ([ord_cand 1, ord_cand 2], [])"

lemma all_conflicting_as_op5_witness:
  "ra_color_global ord_pair ord_items (ir_build_cfg ord_items) = Some (op5_loop ord_pair ra_pool (replicate 2 0, 0))"
proof -
  have n: "length (fst ord_pair) = 2" by (simp add: ord_pair_def)
  have e: "cfg_events ord_pair ord_items ord_items = [[(0, 1), (1, 1), (0, 0), (1, 0)], []]" by code_simp
  have "store_meets (ir_build_cfg ord_items) [[(0, 1), (1, 1), (0, 0), (1, 0)], []] 1 0"
    unfolding store_meets_def by (intro exI [of _ 0] exI [of _ 1] conjI live_use) (simp_all add: ord_cfg)
  then have "conflict (ir_build_cfg ord_items) (cfg_events ord_pair ord_items ord_items) i j" if "i < 2" "j < 2" "i \<noteq> j" for i j
    using that e by (auto simp: conflict_def less_2_cases_iff)
  then show ?thesis using all_conflicting_as_op5 [of ord_pair ord_items ord_items] n ord_cfg(2) by simp
qed

section \<open>Value temporaries have registers of their own\<close>

text \<open>A table of data registers in use, of which entries 2 to 7 matter.\<close>

lemma mark_used_fold:
  "length used = 8 \<Longrightarrow> length (foldl mark_used used rs) = 8 \<and>
     (\<forall>r < 8. foldl mark_used used rs ! r \<longleftrightarrow> used ! r \<or> 2 \<le> r \<and> r \<in> set rs)"
proof (induction rs arbitrary: used)
  case (Cons x rs)
  have l: "length (mark_used used x) = 8" using Cons.prems by (simp add: mark_used_def)
  have "mark_used used x ! r \<longleftrightarrow> used ! r \<or> 2 \<le> r \<and> r = x" if "r < 8" for r
    using that Cons.prems by (auto simp: mark_used_def nth_list_update)
  then show ?case using Cons.IH [OF l] by auto
qed simp

definition promoted :: "(obj_id \<Rightarrow> nat) \<Rightarrow> func \<Rightarrow> nat set" where
  "promoted \<rho> fn = \<rho> ` (set (fn_params fn) \<union> set (fn_locals fn))"

lemma find_SomeD: "find P xs = Some x \<Longrightarrow> x \<in> set xs \<and> P x"
  by (induction xs) (auto split: if_splits)

lemma vtemp_new:
  assumes "ir_vtemp_new \<rho> fn vts = (t, vts')"
  shows "t = None \<and> vts' = vts \<or> (\<exists>r. t = Some r \<and> vts' = vts @ [r] \<and> 2 \<le> r \<and> r \<le> 7 \<and> r \<notin> promoted \<rho> fn \<and> r \<notin> set vts)"
proof (cases "64 \<le> length vts")
  case False
  let ?u = "foldl mark_used (foldl mark_used (foldl mark_used (replicate 8 False) (map \<rho> (fn_params fn))) (map \<rho> (fn_locals fn))) vts"
  have u: "?u ! r \<longleftrightarrow> 2 \<le> r \<and> (r \<in> promoted \<rho> fn \<or> r \<in> set vts)" if "r < 8" for r
    using mark_used_fold that by (auto simp: promoted_def)
  show ?thesis
  proof (cases "find (\<lambda>r. \<not> ?u ! r) [2..<8]")
    case None
    then show ?thesis using False assms by (simp add: ir_vtemp_new_def Let_def)
  next
    case (Some r)
    note find_SomeD [OF Some]
    then have "2 \<le> r" "r \<le> 7" "r \<notin> promoted \<rho> fn" "r \<notin> set vts" using u [of r] by auto
    then show ?thesis using False Some assms by (auto simp: ir_vtemp_new_def Let_def)
  qed
qed (use assms in \<open>simp add: ir_vtemp_new_def\<close>)

abbreviation through_vtemp :: "vtemp \<Rightarrow> ir_expr \<Rightarrow> ir_item" where
  "through_vtemp t e \<equiv> II_RET (Some (IE_COMMA (IE_VDEF t e 4) (IE_VUSE t 4) 4 False))"

lemma materialize_item:
  assumes "materialize_item \<rho> fn (it, vts) = (it', vts')"
  obtains "it' = it" "vts' = vts"
  | e r where "it = II_RET (Some e)" "it' = through_vtemp r e" "vts' = vts @ [r]"
      "2 \<le> r" "r \<le> 7" "r \<notin> promoted \<rho> fn" "r \<notin> set vts"
proof (cases "\<exists>e. it = II_RET (Some e) \<and> ie_size e = 4 \<and> ie_pure e")
  case True
  then obtain e where e: "it = II_RET (Some e)" "ie_size e = 4" "ie_pure e" by blast
  obtain t vts1 where v: "ir_vtemp_new \<rho> fn vts = (t, vts1)" by force
  show thesis using vtemp_new [OF v] that assms e v by (auto simp: materialize_item_def)
next
  case False
  then have "materialize_item \<rho> fn (it, vts) = (it, vts)"
    by (auto simp: materialize_item_def split: ir_item.split option.split)
  then show thesis using that(1) assms by simp
qed

text \<open>Whether an item is kept, or returns the same value through a temporary of \<open>vts\<close>.\<close>

definition same_or_through :: "vtemp list \<Rightarrow> ir_item \<Rightarrow> ir_item \<Rightarrow> bool" where
  "same_or_through vts it it' \<longleftrightarrow> it' = it \<or> (\<exists>e. \<exists>t \<in> set vts. it = II_RET (Some e) \<and> it' = through_vtemp t e)"

lemma materialize_vtemps:
  assumes "materialize_items \<rho> fn its vts = (its', vts')" "distinct vts"
  shows "distinct vts' \<and> set vts \<subseteq> set vts' \<and> (\<forall>r \<in> set vts' - set vts. 2 \<le> r \<and> r \<le> 7 \<and> r \<notin> promoted \<rho> fn) \<and>
    list_all2 (same_or_through vts') its its'"
  using assms
proof (induction its arbitrary: vts its' vts')
  case (Cons it its)
  obtain it1 vts1 where m: "materialize_item \<rho> fn (it, vts) = (it1, vts1)" by force
  obtain its2 where r: "materialize_items \<rho> fn its vts1 = (its2, vts')" "its' = it1 # its2"
    using Cons.prems(1) m by (auto split: prod.splits)
  show ?case
  proof (rule materialize_item [OF m])
    assume "it1 = it" "vts1 = vts"
    then show ?thesis using Cons.IH [OF r(1)] Cons.prems(2) r(2) by (simp add: same_or_through_def)
  next
    fix e t
    assume t: "it = II_RET (Some e)" "it1 = through_vtemp t e" "vts1 = vts @ [t]" "2 \<le> t" "t \<le> 7"
      "t \<notin> promoted \<rho> fn" "t \<notin> set vts"
    then have "distinct vts1" using Cons.prems(2) by simp
    with Cons.IH [OF r(1)] t r(2) show ?thesis by (auto simp: same_or_through_def)
  qed
qed simp

lemma through_vtemp_evals:
  "t \<noteq> 0 \<Longrightarrow> evals T fp \<rho> (IE_COMMA (IE_VDEF t e 4) (IE_VUSE t 4) 4 False) \<sigma> =
     (\<lambda>(v, \<sigma>1). (v, \<sigma>1\<lparr>st_reg := (st_reg \<sigma>1)(t := v)\<rparr>)) ` evals T fp \<rho> e \<sigma>"
  by (auto simp: image_iff) (force+)?

text \<open>
  C20: value temporaries are sound. Each gets a data register of its own, that no variable of the function and
  no other temporary has; an item is kept, or it is a return that is passed through a temporary and
  has the values and the effects it had before, except for that register.
\<close>

theorem materialize_selftest_sound:
  assumes "ir_materialize_selftest True \<rho> fn its = (its', vts)"
  shows "distinct vts \<and> set vts \<subseteq> {2, 3, 4, 5, 6, 7} \<and> set vts \<inter> \<rho> ` (set (fn_params fn) \<union> set (fn_locals fn)) = {} \<and>
    list_all2 (\<lambda>it it'. it' = it \<or> (\<exists>e e'. \<exists>t \<in> set vts. it = II_RET (Some e) \<and> it' = II_RET (Some e') \<and>
       evals T fp \<rho> e' \<sigma> = (\<lambda>(v, \<sigma>1). (v, \<sigma>1\<lparr>st_reg := (st_reg \<sigma>1)(t := v)\<rparr>)) ` evals T fp \<rho> e \<sigma>)) its its'"
proof -
  note m = materialize_vtemps [of \<rho> fn its "[]" its' vts]
  have r: "distinct vts" "\<forall>r \<in> set vts. 2 \<le> r \<and> r \<le> 7 \<and> r \<notin> promoted \<rho> fn" "list_all2 (same_or_through vts) its its'"
    using m assms by (auto simp: ir_materialize_selftest_def)
  have item: "it' = it \<or> (\<exists>e e'. \<exists>t \<in> set vts. it = II_RET (Some e) \<and> it' = II_RET (Some e') \<and>
       evals T fp \<rho> e' \<sigma> = (\<lambda>(v, \<sigma>1). (v, \<sigma>1\<lparr>st_reg := (st_reg \<sigma>1)(t := v)\<rparr>)) ` evals T fp \<rho> e \<sigma>)"
    if st: "same_or_through vts it it'" for it it'
  proof (cases "it' = it")
    case False
    then obtain e t where t: "t \<in> set vts" "it = II_RET (Some e)" "it' = through_vtemp t e"
      using st unfolding same_or_through_def by blast
    then have "2 \<le> t" using r(2) by blast
    then have "t \<noteq> 0" by simp
    show ?thesis unfolding t(2,3)
      by (intro disjI2 exI bexI [of _ t] conjI) (rule refl, rule refl, rule through_vtemp_evals, fact+)
  qed simp
  have "set vts \<subseteq> {2, 3, 4, 5, 6, 7}"
  proof
    fix x assume "x \<in> set vts"
    then have "2 \<le> x" "x \<le> 7" using r(2) by blast+
    then show "x \<in> {2, 3, 4, 5, 6, 7}" by auto
  qed
  moreover have "set vts \<inter> \<rho> ` (set (fn_params fn) \<union> set (fn_locals fn)) = {}"
    using r(2) unfolding promoted_def by blast
  ultimately show ?thesis using r(1) by (intro conjI list_all2_mono [OF r(3)] item)
qed

definition ret_func :: func where
  "ret_func = \<lparr>fn_name = ''f'', fn_params = [0], fn_locals = [1], fn_va_area = None, fn_alloca_bottom = None,
     fn_uses_returns_twice = False, fn_body = None\<rparr>"

lemma materialize_selftest_sound_witness:
  "distinct (snd (ir_materialize_selftest True (\<lambda>v. 2) ret_func [II_RET (Some (IE_NUM 1 4 False)), II_RET (Some (IE_NUM 2 4 False))]))"
  using materialize_selftest_sound [of "\<lambda>v. 2" ret_func "[II_RET (Some (IE_NUM 1 4 False)), II_RET (Some (IE_NUM 2 4 False))]"] by (metis prod.collapse)

end
