(* ===== verification/Ra_Sound.thy ===== *)
theory Ra_Sound
  imports Ra_Color
begin

text \<open>
  What the coloring of \<open>-O3\<close> means for the meaning of a body (\<open>Ir_Sem\<close>): running the items with the
  registers it gives out, some of which several variables share, is running them with a register of its
  own for every promoted variable. The liveness walk takes the operands of an operator in an order that is
  not the order of evaluation, so this is proved of items whose operands the order does not matter for
  (\<open>ord_ok\<close>); \<open>Ra_Order\<close> shows that it fails of others.
\<close>

section \<open>The events of an expression\<close>

definition ev_opt :: "nat option \<Rightarrow> nat \<Rightarrow> ra_ev list" where
  "ev_opt ci k = (case ci of None \<Rightarrow> [] | Some i \<Rightarrow> [(i, k)])"

text \<open>The events that \<open>ra_ev_walk\<close> appends, without the bound of the buffer.\<close>

fun ev_of :: "ra_state \<Rightarrow> bool \<Rightarrow> ir_expr \<Rightarrow> ra_ev list"
  and ev_args :: "ra_state \<Rightarrow> bool \<Rightarrow> ir_expr list \<Rightarrow> ra_ev list" where
  "ev_of st c (IE_LOAD a sz u) =
     (case ra_cand_of_lea st a of Some i \<Rightarrow> ev_opt (Some i) 0 | None \<Rightarrow> ev_of st c a)"
| "ev_of st c (IE_STORE a b sz u) =
     (case ra_cand_of_lea st a of
        Some i \<Rightarrow> ev_of st c b @ ev_opt (Some i) (if c then 2 else 1)
      | None \<Rightarrow> ev_of st c a @ ev_of st c b)"
| "ev_of st c (IE_MEMZERO v off sz) = ev_opt (ra_cand_of_var st (Some v)) (if c then 2 else 1)"
| "ev_of st c (IE_COND a b d sz u) = ev_of st c a @ ev_of st True b @ ev_of st True d"
| "ev_of st c (IE_LOGAND a b) = ev_of st c a @ ev_of st True b"
| "ev_of st c (IE_LOGOR a b) = ev_of st c a @ ev_of st True b"
| "ev_of st c (IE_VDEF t a sz) = ev_of st c a"
| "ev_of st c (IE_VUSE t sz) = []"
| "ev_of st c (IE_CALL nm a args sz u) =
     (case a of None \<Rightarrow> [] | Some f \<Rightarrow> ev_of st c f) @ ev_args st c args"
| "ev_of st c (IE_BINOP op a b sz u pa) = ev_of st c a @ ev_of st c b"
| "ev_of st c (IE_COMMA a b sz u) = ev_of st c a @ ev_of st c b"
| "ev_of st c (IE_UNARY op a sz u) = ev_of st c a"
| "ev_of st c (IE_CAST op a sz u fs fu) = ev_of st c a"
| "ev_of st c IE_NOP = []"
| "ev_of st c (IE_NUM n sz u) = []"
| "ev_of st c (IE_LEA is_local off name v) = []"
| "ev_args st c [] = []"
| "ev_args st c (x # xs) = ev_of st c x @ ev_args st c xs"

lemma ev_push_take: "ra_ev_push ci k (take 4096 evs) = take 4096 (evs @ ev_opt ci k)"
  by (cases ci) (auto simp: ra_ev_push_def ev_opt_def min_def not_less)

lemma ev_walk_take:
  "ra_ev_walk st e c (take 4096 evs) = take 4096 (evs @ ev_of st c e)"
  "ra_ev_args st es c (take 4096 evs) = take 4096 (evs @ ev_args st c es)"
proof (induction st c e and st c es arbitrary: evs and evs rule: ev_of_ev_args.induct)
qed (auto simp: ev_push_take simp del: take_append split: option.splits)

lemma item_events_all:
  assumes "item_expr it = Some e" "length (ev_of st False e) \<le> 4096"
  shows "item_events st it = ev_of st False e"
  using ev_walk_take(1) [of st e False "[]"] assms by (simp add: item_events_def)

lemma arm_events:
  "c \<Longrightarrow> ev \<in> set (ev_of st c e) \<Longrightarrow> snd ev \<noteq> 1"
  "c \<Longrightarrow> ev \<in> set (ev_args st c es) \<Longrightarrow> snd ev \<noteq> 1"
  by (induction st c e and st c es rule: ev_of_ev_args.induct) (auto simp: ev_opt_def split: option.splits)

section \<open>Live sets and clashes\<close>

definition clash_free :: "nat \<Rightarrow> nat list \<Rightarrow> ra_ev list \<Rightarrow> nat set \<Rightarrow> bool" where
  "clash_free n regs es L \<longleftrightarrow> (\<forall>(i, j) \<in> clobbers n es L. regs ! i \<noteq> 0 \<longrightarrow> regs ! i \<noteq> regs ! j)"

lemma live_before_append [simp]: "live_before (xs @ ys) L = live_before xs (live_before ys L)"
proof (induction xs)
  case (Cons x xs)
  then show ?case by (cases x) simp
qed simp

lemma clobbers_append: "clobbers n (xs @ ys) L = clobbers n xs (live_before ys L) \<union> clobbers n ys L"
proof (induction xs)
  case (Cons x xs)
  then show ?case by (cases x) auto
qed simp

lemma clash_free_append [simp]:
  "clash_free n regs (xs @ ys) L \<longleftrightarrow> clash_free n regs xs (live_before ys L) \<and> clash_free n regs ys L"
  by (auto simp: clash_free_def clobbers_append)

lemma clash_free_nil [simp]: "clash_free n regs [] L"
  by (simp add: clash_free_def)

lemma clobbers_mono: "A \<subseteq> B \<Longrightarrow> clobbers n es A \<subseteq> clobbers n es B"
proof (induction es)
  case (Cons x es)
  then show ?case using live_before_mono [of A B es] by (cases x) auto
qed simp

lemma clash_free_mono: "clash_free n regs es B \<Longrightarrow> A \<subseteq> B \<Longrightarrow> clash_free n regs es A"
  using clobbers_mono [of A B n es] by (auto simp: clash_free_def)

lemma no_kill_live: "\<forall>ev \<in> set es. snd ev \<noteq> 1 \<Longrightarrow> L \<subseteq> live_before es L"
proof (induction es)
  case (Cons x es)
  then show ?case by (cases x) auto
qed simp

lemma uses_live: "\<forall>ev \<in> set es. snd ev = 0 \<Longrightarrow> live_before es L = L \<union> fst ` set es \<and> clobbers n es L = {}"
proof (induction es)
  case (Cons x es)
  then show ?case by (cases x) auto
qed simp

text \<open>Two operands whose order does not matter: one refers to no candidate, or neither stores one.\<close>

definition swap_ok :: "ra_ev list \<Rightarrow> ra_ev list \<Rightarrow> bool" where
  "swap_ok A B \<longleftrightarrow> A = [] \<or> B = [] \<or> (\<forall>ev \<in> set A \<union> set B. snd ev = 0)"

lemma swap_events:
  assumes "swap_ok A B"
  shows "live_before (B @ A) L = live_before (A @ B) L"
    and "clash_free n regs (A @ B) L \<Longrightarrow> clash_free n regs (B @ A) L"
proof -
  have "live_before (B @ A) L = live_before (A @ B) L \<and> (clash_free n regs (A @ B) L \<longrightarrow> clash_free n regs (B @ A) L)"
  proof (cases "A = [] \<or> B = []")
    case False
    then have u: "\<forall>ev \<in> set A. snd ev = 0" "\<forall>ev \<in> set B. snd ev = 0" using assms by (auto simp: swap_ok_def)
    then show ?thesis
      using uses_live [OF u(1)] uses_live [OF u(2)] by (auto simp: clash_free_def clobbers_append)
  qed auto
  then show "live_before (B @ A) L = live_before (A @ B) L"
    "clash_free n regs (A @ B) L \<Longrightarrow> clash_free n regs (B @ A) L" by blast+
qed

section \<open>Items whose operand order does not matter\<close>

text \<open>
  The operands that the code may evaluate in another order than the walk takes them are those of a binary
  operator, of a store through an address, and the arguments and callee of a call. A value temporary must
  be in a register that the coloring does not use.
\<close>

fun ord_ok :: "ra_state \<Rightarrow> nat list \<Rightarrow> ir_expr \<Rightarrow> bool"
  and ord_ok_args :: "ra_state \<Rightarrow> nat list \<Rightarrow> ir_expr list \<Rightarrow> bool" where
  "ord_ok st regs (IE_LOAD a sz u) \<longleftrightarrow> ord_ok st regs a"
| "ord_ok st regs (IE_STORE a b sz u) \<longleftrightarrow> ord_ok st regs a \<and> ord_ok st regs b \<and>
     (ra_cand_of_lea st a = None \<longrightarrow> swap_ok (ev_of st False a) (ev_of st False b))"
| "ord_ok st regs (IE_MEMZERO v off sz) \<longleftrightarrow> True"
| "ord_ok st regs (IE_COND a b d sz u) \<longleftrightarrow> ord_ok st regs a \<and> ord_ok st regs b \<and> ord_ok st regs d"
| "ord_ok st regs (IE_LOGAND a b) \<longleftrightarrow> ord_ok st regs a \<and> ord_ok st regs b"
| "ord_ok st regs (IE_LOGOR a b) \<longleftrightarrow> ord_ok st regs a \<and> ord_ok st regs b"
| "ord_ok st regs (IE_VDEF t a sz) \<longleftrightarrow> ord_ok st regs a \<and> t < 14 \<and> (t \<noteq> 0 \<longrightarrow> t \<notin> set regs)"
| "ord_ok st regs (IE_VUSE t sz) \<longleftrightarrow> t < 14 \<and> (t \<noteq> 0 \<longrightarrow> t \<notin> set regs)"
| "ord_ok st regs (IE_CALL nm a args sz u) \<longleftrightarrow> ord_ok_args st regs args \<and>
     (case a of None \<Rightarrow> True | Some f \<Rightarrow> nm = None \<and> ord_ok st regs f \<and> swap_ok (ev_of st False f) (ev_args st False args))"
| "ord_ok st regs (IE_BINOP op a b sz u pa) \<longleftrightarrow> ord_ok st regs a \<and> ord_ok st regs b \<and>
     swap_ok (ev_of st False a) (ev_of st False b)"
| "ord_ok st regs (IE_COMMA a b sz u) \<longleftrightarrow> ord_ok st regs a \<and> ord_ok st regs b"
| "ord_ok st regs (IE_UNARY op a sz u) \<longleftrightarrow> ord_ok st regs a"
| "ord_ok st regs (IE_CAST op a sz u fs fu) \<longleftrightarrow> ord_ok st regs a"
| "ord_ok st regs IE_NOP \<longleftrightarrow> True"
| "ord_ok st regs (IE_NUM n sz u) \<longleftrightarrow> True"
| "ord_ok st regs (IE_LEA is_local off name v) \<longleftrightarrow> True"
| "ord_ok_args st regs [] \<longleftrightarrow> True"
| "ord_ok_args st regs (x # xs) \<longleftrightarrow> ord_ok st regs x \<and> ord_ok_args st regs xs \<and>
     swap_ok (ev_of st False x) (ev_args st False xs)"

text \<open>Only the kind of a store depends on the flag for conditional evaluation.\<close>

definition same_ev :: "ra_ev \<Rightarrow> ra_ev \<Rightarrow> bool" where
  "same_ev x y \<longleftrightarrow> fst x = fst y \<and> (snd x = 0) = (snd y = 0)"

lemma same_ev_pair [simp]: "same_ev (i, k) (j, l) \<longleftrightarrow> i = j \<and> (k = 0) = (l = 0)"
  by (simp add: same_ev_def)

lemma same_ev_refl [simp]: "list_all2 same_ev xs xs"
  by (simp add: list.rel_refl_strong same_ev_def)

lemma ev_flag:
  "list_all2 same_ev (ev_of st c e) (ev_of st False e)"
  "list_all2 same_ev (ev_args st c es) (ev_args st False es)"
proof (induction st c e and st c es rule: ev_of_ev_args.induct)
qed (auto simp: ev_opt_def intro!: list_all2_appendI split: option.splits)

lemma same_ev_uses: "list_all2 same_ev xs ys \<Longrightarrow>
    (xs = [] \<longleftrightarrow> ys = []) \<and> ((\<forall>ev \<in> set xs. snd ev = 0) \<longleftrightarrow> (\<forall>ev \<in> set ys. snd ev = 0))"
  by (induction rule: list_all2_induct) (auto simp: same_ev_def)

lemma swap_flag:
  "swap_ok (ev_of st False a) (ev_of st False b) \<Longrightarrow> swap_ok (ev_of st c a) (ev_of st c b)"
  "swap_ok (ev_of st False a) (ev_args st False es) \<Longrightarrow> swap_ok (ev_of st c a) (ev_args st c es)"
  using same_ev_uses [OF ev_flag(1) [of st c a]] same_ev_uses [OF ev_flag(1) [of st c b]]
    same_ev_uses [OF ev_flag(2) [of st c es]]
  unfolding swap_ok_def ball_Un by blast+

section \<open>Shared and private registers\<close>

text \<open>
  The registers of the coloring, and a register of its own for each promoted candidate. The private ones are
  numbers that the meaning of the items uses for nothing else; no code is selected for them.
\<close>

definition private_regs :: "nat list \<Rightarrow> nat list" where
  "private_regs regs = map (\<lambda>i. if regs ! i = 0 then 0 else 14 + i) [0..<length regs]"

definition color_ok :: "ra_state \<Rightarrow> nat list \<Rightarrow> bool" where
  "color_ok st regs \<longleftrightarrow> length regs = length (fst st) \<and>
     (\<forall>i < length regs. regs ! i < 14 \<and> (regs ! i \<noteq> 0 \<longrightarrow> ra_colorable st i))"

text \<open>The two runs agree when the memory and the other registers are the same, and the shared register of each
  live candidate holds what its own register holds.\<close>

definition live_agree :: "nat list \<Rightarrow> nat set \<Rightarrow> istate \<Rightarrow> istate \<Rightarrow> bool" where
  "live_agree regs L \<sigma> \<tau> \<longleftrightarrow> st_mem \<tau> = st_mem \<sigma> \<and>
     (\<forall>t < 14. t \<notin> set regs \<longrightarrow> st_reg \<tau> t = st_reg \<sigma> t) \<and>
     (\<forall>j < length regs. j \<in> L \<longrightarrow> regs ! j \<noteq> 0 \<longrightarrow> st_reg \<tau> (14 + j) = st_reg \<sigma> (regs ! j))"

lemma live_agree_mono: "live_agree regs B \<sigma> \<tau> \<Longrightarrow> A \<subseteq> B \<Longrightarrow> live_agree regs A \<sigma> \<tau>"
  by (auto simp: live_agree_def)

lemma promotion_cases:
  assumes ok: "color_ok st regs"
  obtains (mem) "ra_promotion (fst st) regs v = 0" "ra_promotion (fst st) (private_regs regs) v = 0"
      "\<forall>i. ra_cand_of_var st (Some v) = Some i \<longrightarrow> regs ! i = 0"
  | (reg) i where "i < length regs" "ra_cand_of_var st (Some v) = Some i" "regs ! i \<noteq> 0"
      "ra_promotion (fst st) regs v = regs ! i" "ra_promotion (fst st) (private_regs regs) v = 14 + i"
proof (cases "ra_cand_index (fst st) (Some v)")
  case None
  then show thesis by (intro mem) (simp_all add: ra_promotion_def ra_cand_of_var_def)
next
  case (Some i)
  then have i: "i < length regs" using cand_index_Some ok by (auto simp: color_ok_def)
  show thesis
  proof (cases "regs ! i = 0")
    case True
    then show thesis using Some i by (intro mem) (simp_all add: ra_promotion_def private_regs_def ra_cand_of_var_def)
  next
    case False
    then have "ra_colorable st i" using ok i by (auto simp: color_ok_def)
    then show thesis
      using Some i False by (intro reg [of i]) (simp_all add: ra_promotion_def private_regs_def ra_cand_of_var_def)
  qed
qed

lemma lea_cases:
  assumes ok: "color_ok st regs"
  obtains (mem) "lea_reg (ra_promotion (fst st) regs) a = 0" "lea_reg (ra_promotion (fst st) (private_regs regs)) a = 0"
      "\<forall>i. ra_cand_of_lea st a = Some i \<longrightarrow> regs ! i = 0"
  | (reg) i where "i < length regs" "ra_cand_of_lea st a = Some i" "regs ! i \<noteq> 0"
      "lea_reg (ra_promotion (fst st) regs) a = regs ! i"
      "lea_reg (ra_promotion (fst st) (private_regs regs)) a = 14 + i"
proof (cases "\<exists>off name v. a = IE_LEA True off name v")
  case True
  then obtain off name v where a: "a = IE_LEA True off name v" by blast
  show thesis
    using promotion_cases [OF ok, of v] mem reg by (cases rule: promotion_cases [OF ok, of v]) (simp_all add: a ra_cand_of_lea_def)
next
  case False
  then show thesis by (intro mem; cases a) (auto simp: ra_cand_of_lea_def)
qed

lemma live_agree_store:
  assumes ag: "live_agree regs (live_before [(i, k)] L) \<sigma> \<tau>" and cf: "clash_free (length regs) regs [(i, k)] L"
    and i: "i < length regs" "regs ! i \<noteq> 0" and k: "k \<noteq> 0"
  shows "live_agree regs L (\<sigma>\<lparr>st_reg := (st_reg \<sigma>)(regs ! i := v)\<rparr>) (\<tau>\<lparr>st_reg := (st_reg \<tau>)(14 + i := v)\<rparr>)"
proof -
  have other: "regs ! j \<noteq> regs ! i" if "j \<in> L" "j < length regs" "j \<noteq> i" for j
    using cf k i(2) that unfolding clash_free_def by fastforce
  have "regs ! i \<in> set regs" using i(1) by simp
  then show ?thesis using ag i k other by (auto simp: live_agree_def split: if_splits)
qed

lemma live_agree_use:
  assumes "live_agree regs (live_before [(i, 0)] L) \<sigma> \<tau>" and "i < length regs" "regs ! i \<noteq> 0"
  shows "st_reg \<tau> (14 + i) = st_reg \<sigma> (regs ! i)" and "live_agree regs L \<sigma> \<tau>"
  using assms by (auto simp: live_agree_def)

lemma live_agree_mem: "live_agree regs L \<sigma> \<tau> \<Longrightarrow> live_agree regs L (\<sigma>\<lparr>st_mem := m\<rparr>) (\<tau>\<lparr>st_mem := m\<rparr>)"
  by (simp add: live_agree_def)

lemma live_agree_temp: "live_agree regs L \<sigma> \<tau> \<Longrightarrow> t < 14 \<Longrightarrow> t \<notin> set regs \<Longrightarrow>
    live_agree regs L (\<sigma>\<lparr>st_reg := (st_reg \<sigma>)(t := v)\<rparr>) (\<tau>\<lparr>st_reg := (st_reg \<tau>)(t := v)\<rparr>)"
  by (auto simp: live_agree_def)

lemma live_agree_mem_eq: "live_agree regs L \<sigma> \<tau> \<Longrightarrow> st_mem \<tau> = st_mem \<sigma>"
  by (simp add: live_agree_def)

section \<open>Evaluation\<close>

text \<open>
  \<open>sim regs es X Y\<close>: every result of \<open>X\<close> is one of \<open>Y\<close>, from states that agree on what is live before the
  events \<open>es\<close> to states that agree on what is live after them. The rules follow the clauses of \<open>evals\<close>.
\<close>

definition sim :: "nat list \<Rightarrow> ra_ev list \<Rightarrow> (istate \<Rightarrow> ('a \<times> istate) set) \<Rightarrow> (istate \<Rightarrow> ('a \<times> istate) set) \<Rightarrow> bool" where
  "sim regs es X Y \<longleftrightarrow> (\<forall>L \<sigma> \<tau> x \<sigma>'. (x, \<sigma>') \<in> X \<sigma> \<longrightarrow> live_agree regs (live_before es L) \<sigma> \<tau> \<longrightarrow>
     clash_free (length regs) regs es L \<longrightarrow> (\<exists>\<tau>'. (x, \<tau>') \<in> Y \<tau> \<and> live_agree regs L \<sigma>' \<tau>'))"

lemma simI:
  assumes "\<And>L \<sigma> \<tau> x \<sigma>'. (x, \<sigma>') \<in> X \<sigma> \<Longrightarrow> live_agree regs (live_before es L) \<sigma> \<tau> \<Longrightarrow>
     clash_free (length regs) regs es L \<Longrightarrow> \<exists>\<tau>'. (x, \<tau>') \<in> Y \<tau> \<and> live_agree regs L \<sigma>' \<tau>'"
  shows "sim regs es X Y"
  unfolding sim_def using assms by blast

lemma simD:
  assumes "sim regs es X Y" "(x, \<sigma>') \<in> X \<sigma>" "live_agree regs (live_before es L) \<sigma> \<tau>" "clash_free (length regs) regs es L"
  obtains \<tau>' where "(x, \<tau>') \<in> Y \<tau>" "live_agree regs L \<sigma>' \<tau>'"
  using assms unfolding sim_def by blast

lemma sim_seq:
  assumes X: "sim regs A X Y" and X': "\<And>x. sim regs B (X' x) (Y' x)"
  shows "sim regs (A @ B) (\<lambda>\<sigma>. \<Union>(x, \<sigma>1) \<in> X \<sigma>. X' x \<sigma>1) (\<lambda>\<sigma>. \<Union>(x, \<sigma>1) \<in> Y \<sigma>. Y' x \<sigma>1)"
proof (rule simI)
  fix L \<sigma> \<tau> y \<sigma>'
  assume "(y, \<sigma>') \<in> (\<Union>(x, \<sigma>1) \<in> X \<sigma>. X' x \<sigma>1)" and ag: "live_agree regs (live_before (A @ B) L) \<sigma> \<tau>"
    and cf: "clash_free (length regs) regs (A @ B) L"
  then obtain x \<sigma>1 where x: "(x, \<sigma>1) \<in> X \<sigma>" and y: "(y, \<sigma>') \<in> X' x \<sigma>1" by auto
  obtain \<tau>1 where t1: "(x, \<tau>1) \<in> Y \<tau>" "live_agree regs (live_before B L) \<sigma>1 \<tau>1"
    using simD [OF X x] ag cf by (metis clash_free_append live_before_append)
  obtain \<tau>' where "(y, \<tau>') \<in> Y' x \<tau>1" "live_agree regs L \<sigma>' \<tau>'"
    using simD [OF X' y t1(2)] cf by (metis clash_free_append)
  with t1(1) show "\<exists>\<tau>'. (y, \<tau>') \<in> (\<Union>(x, \<sigma>1) \<in> Y \<tau>. Y' x \<sigma>1) \<and> live_agree regs L \<sigma>' \<tau>'" by auto
qed

lemma sim_bind:
  assumes "sim regs A X Y" and "\<And>x. sim regs [] (X' x) (Y' x)"
  shows "sim regs A (\<lambda>\<sigma>. \<Union>(x, \<sigma>1) \<in> X \<sigma>. X' x \<sigma>1) (\<lambda>\<sigma>. \<Union>(x, \<sigma>1) \<in> Y \<sigma>. Y' x \<sigma>1)"
  using sim_seq [OF assms] by simp

lemma sim_ret: "sim regs [] (\<lambda>\<sigma>. {(x, \<sigma>)}) (\<lambda>\<sigma>. {(x, \<sigma>)})"
  by (rule simI) simp

lemma sim_any: "sim regs [] (\<lambda>\<sigma>. {(x, \<sigma>) | x. P x}) (\<lambda>\<sigma>. {(x, \<sigma>) | x. P x})"
  by (rule simI) simp

lemma sim_load: "sim regs [] (\<lambda>\<sigma>. {(f (st_mem \<sigma>), \<sigma>)}) (\<lambda>\<sigma>. {(f (st_mem \<sigma>), \<sigma>)})"
  by (rule simI) (simp add: live_agree_mem_eq)

lemma sim_write: "sim regs [] (\<lambda>\<sigma>. {(x, \<sigma>\<lparr>st_mem := f (st_mem \<sigma>)\<rparr>)}) (\<lambda>\<sigma>. {(x, \<sigma>\<lparr>st_mem := f (st_mem \<sigma>)\<rparr>)})"
  by (rule simI) (simp add: live_agree_mem_eq live_agree_mem)

lemma sim_call: "sim regs [] (\<lambda>\<sigma>. {call_result T f vs \<sigma>}) (\<lambda>\<sigma>. {call_result T f vs \<sigma>})"
  by (rule simI) (auto simp: call_result_def live_agree_mem_eq live_agree_mem split: prod.splits)

lemma sim_Un: "sim regs es X Y \<Longrightarrow> sim regs es X' Y' \<Longrightarrow> sim regs es (\<lambda>\<sigma>. X \<sigma> \<union> X' \<sigma>) (\<lambda>\<sigma>. Y \<sigma> \<union> Y' \<sigma>)"
  unfolding sim_def by blast

lemma sim_if: "sim regs es X Y \<Longrightarrow> sim regs es X' Y' \<Longrightarrow>
    sim regs es (\<lambda>\<sigma>. if b then X \<sigma> else X' \<sigma>) (\<lambda>\<sigma>. if b then Y \<sigma> else Y' \<sigma>)"
  by (cases b) simp_all

lemma sim_swap:
  assumes "swap_ok A B" "sim regs (B @ A) X Y"
  shows "sim regs (A @ B) X Y"
  using assms(2) swap_events [OF assms(1)] unfolding sim_def by metis

lemma sim_arms:
  assumes "sim regs es X Y" and a: "\<forall>ev \<in> set A. snd ev \<noteq> 1" and b: "\<forall>ev \<in> set B. snd ev \<noteq> 1"
  shows "sim regs (A @ es @ B) X Y"
proof (rule simI)
  fix L \<sigma> \<tau> x \<sigma>'
  assume x: "(x, \<sigma>') \<in> X \<sigma>" and ag: "live_agree regs (live_before (A @ es @ B) L) \<sigma> \<tau>"
    and cf: "clash_free (length regs) regs (A @ es @ B) L"
  have l: "L \<subseteq> live_before B L" using no_kill_live [OF b] .
  have "live_before es L \<subseteq> live_before es (live_before B L)" using live_before_mono [OF l] .
  also have "\<dots> \<subseteq> live_before (A @ es @ B) L" using no_kill_live [OF a] by simp
  finally have ag': "live_agree regs (live_before es L) \<sigma> \<tau>" using live_agree_mono [OF ag] by blast
  have "clash_free (length regs) regs es L" using cf clash_free_mono [OF _ l] by simp
  from simD [OF assms(1) x ag' this] show "\<exists>\<tau>'. (x, \<tau>') \<in> Y \<tau> \<and> live_agree regs L \<sigma>' \<tau>'" by blast
qed

lemmas sim_intros = sim_bind sim_ret sim_any sim_load sim_write sim_call sim_Un sim_if

lemma sim_args_swap:
  assumes "swap_ok A B" "sim regs A X Y" "sim regs B X' Y'" and F: "\<And>x y. sim regs [] (F x y) (G x y)"
  shows "sim regs (A @ B) (\<lambda>\<sigma>. \<Union>(x, \<sigma>1) \<in> X' \<sigma>. \<Union>(y, \<sigma>2) \<in> X \<sigma>1. F x y \<sigma>2)
           (\<lambda>\<sigma>. \<Union>(x, \<sigma>1) \<in> Y' \<sigma>. \<Union>(y, \<sigma>2) \<in> Y \<sigma>1. G x y \<sigma>2)"
  by (intro sim_swap [OF assms(1)] sim_seq assms(3) sim_bind assms(2) F)

lemma sim_store:
  assumes ok: "i < length regs" "regs ! i \<noteq> 0"
  shows "sim regs (ev_opt (Some i) (if c then 2 else 1))
    (\<lambda>\<sigma>. {(v, \<sigma>\<lparr>st_reg := (st_reg \<sigma>)(regs ! i := w)\<rparr>)}) (\<lambda>\<sigma>. {(v, \<sigma>\<lparr>st_reg := (st_reg \<sigma>)(14 + i := w)\<rparr>)})"
proof (rule simI)
  fix L \<sigma> \<tau> x \<sigma>'
  let ?k = "if c then 2 else 1 :: nat"
  assume x: "(x, \<sigma>') \<in> {(v, \<sigma>\<lparr>st_reg := (st_reg \<sigma>)(regs ! i := w)\<rparr>)}"
    and "live_agree regs (live_before (ev_opt (Some i) ?k) L) \<sigma> \<tau>"
    and "clash_free (length regs) regs (ev_opt (Some i) ?k) L"
  then have "live_agree regs (live_before [(i, ?k)] L) \<sigma> \<tau>" "clash_free (length regs) regs [(i, ?k)] L"
    by (simp_all only: ev_opt_def option.case)
  from live_agree_store [OF this ok, of w] x
  show "\<exists>\<tau>'. (x, \<tau>') \<in> {(v, \<tau>\<lparr>st_reg := (st_reg \<tau>)(14 + i := w)\<rparr>)} \<and> live_agree regs L \<sigma>' \<tau>'" by simp
qed

lemma sim_read:
  assumes ok: "i < length regs" "regs ! i \<noteq> 0"
  shows "sim regs (ev_opt (Some i) 0) (\<lambda>\<sigma>. {(st_reg \<sigma> (regs ! i), \<sigma>)}) (\<lambda>\<sigma>. {(st_reg \<sigma> (14 + i), \<sigma>)})"
proof (rule simI)
  fix L \<sigma> \<tau> x \<sigma>'
  assume x: "(x, \<sigma>') \<in> {(st_reg \<sigma> (regs ! i), \<sigma>)}" and "live_agree regs (live_before (ev_opt (Some i) 0) L) \<sigma> \<tau>"
  then have "live_agree regs (live_before [(i, 0)] L) \<sigma> \<tau>" by (simp only: ev_opt_def option.case)
  from live_agree_use [OF this ok] x show "\<exists>\<tau>'. (x, \<tau>') \<in> {(st_reg \<tau> (14 + i), \<tau>)} \<and> live_agree regs L \<sigma>' \<tau>'" by simp
qed

lemma sim_spill:
  assumes "sim regs es X Y" "regs ! i = 0"
  shows "sim regs (es @ ev_opt (Some i) k) X Y"
proof (rule simI)
  fix L \<sigma> \<tau> x \<sigma>'
  assume x: "(x, \<sigma>') \<in> X \<sigma>" and "live_agree regs (live_before (es @ ev_opt (Some i) k) L) \<sigma> \<tau>"
    and "clash_free (length regs) regs (es @ ev_opt (Some i) k) L"
  then have ag: "live_agree regs (live_before es (live_before [(i, k)] L)) \<sigma> \<tau>"
    and cf: "clash_free (length regs) regs es (live_before [(i, k)] L)"
    unfolding live_before_append clash_free_append ev_opt_def option.case by blast+
  obtain \<tau>' where t: "(x, \<tau>') \<in> Y \<tau>" "live_agree regs (live_before [(i, k)] L) \<sigma>' \<tau>'"
    using simD [OF assms(1) x ag cf] .
  have "live_agree regs L \<sigma>' \<tau>'" using t(2) assms(2) by (auto simp: live_agree_def split: if_splits)
  with t(1) show "\<exists>\<tau>'. (x, \<tau>') \<in> Y \<tau> \<and> live_agree regs L \<sigma>' \<tau>'" by blast
qed

lemma sim_spill_opt:
  "sim regs [] X Y \<Longrightarrow> (\<And>i. ci = Some i \<Longrightarrow> regs ! i = 0) \<Longrightarrow> sim regs (ev_opt ci k) X Y"
  using sim_spill [of regs "[]" X Y "the ci" k] by (cases ci) (simp_all add: ev_opt_def)

lemma sim_spill_lea:
  assumes "ra_cand_of_lea st a = Some i" "\<And>p. sim regs es (X p) (Y p)"
  shows "sim regs es (\<lambda>\<sigma>. \<Union>(p, \<sigma>1) \<in> evals T fp \<rho> a \<sigma>. X p \<sigma>1) (\<lambda>\<sigma>. \<Union>(p, \<sigma>1) \<in> evals T fp \<rho>' a \<sigma>. Y p \<sigma>1)"
  using assms by (cases a) (auto simp: ra_cand_of_lea_def split: if_splits)

lemma sim_temp:
  assumes "t < 14" "t \<noteq> 0 \<longrightarrow> t \<notin> set regs"
  shows "sim regs [] (\<lambda>\<sigma>. {(v, if t \<noteq> 0 then \<sigma>\<lparr>st_reg := (st_reg \<sigma>)(t := v)\<rparr> else \<sigma>)})
      (\<lambda>\<sigma>. {(v, if t \<noteq> 0 then \<sigma>\<lparr>st_reg := (st_reg \<sigma>)(t := v)\<rparr> else \<sigma>)})"
  by (rule simI) (use assms live_agree_temp in auto)

lemma sim_temp_use:
  assumes "t < 14" "t \<noteq> 0 \<longrightarrow> t \<notin> set regs"
  shows "sim regs [] (\<lambda>\<sigma>. if t \<noteq> 0 then {(st_reg \<sigma> t, \<sigma>)} else {(v, \<sigma>) | v. True})
      (\<lambda>\<sigma>. if t \<noteq> 0 then {(st_reg \<sigma> t, \<sigma>)} else {(v, \<sigma>) | v. True})"
  by (rule simI) (use assms in \<open>auto simp: live_agree_def\<close>)

lemma sim_zero_reg:
  assumes "i < length regs" "regs ! i \<noteq> 0"
  shows "sim regs (ev_opt (Some i) (if c then 2 else 1))
    (\<lambda>\<sigma>. {(v, \<sigma>\<lparr>st_reg := (st_reg \<sigma>)(regs ! i := w)\<rparr>) | v. True})
    (\<lambda>\<sigma>. {(v, \<sigma>\<lparr>st_reg := (st_reg \<sigma>)(14 + i := w)\<rparr>) | v. True})"
proof (rule simI)
  fix L \<sigma> \<tau> x \<sigma>'
  assume x: "(x, \<sigma>') \<in> {(v, \<sigma>\<lparr>st_reg := (st_reg \<sigma>)(regs ! i := w)\<rparr>) | v. True}"
    and a: "live_agree regs (live_before (ev_opt (Some i) (if c then 2 else 1)) L) \<sigma> \<tau>"
      "clash_free (length regs) regs (ev_opt (Some i) (if c then 2 else 1)) L"
  from x have "(x, \<sigma>') \<in> {(x, \<sigma>\<lparr>st_reg := (st_reg \<sigma>)(regs ! i := w)\<rparr>)}" by simp
  from simD [OF sim_store [OF assms, of c x w] this a]
  show "\<exists>\<tau>'. (x, \<tau>') \<in> {(v, \<tau>\<lparr>st_reg := (st_reg \<tau>)(14 + i := w)\<rparr>) | v. True} \<and> live_agree regs L \<sigma>' \<tau>'" by auto
qed

lemma sim_zero_mem:
  "sim regs [] (\<lambda>\<sigma>. {(v, \<sigma>\<lparr>st_mem := f (st_mem \<sigma>)\<rparr>) | v. True}) (\<lambda>\<sigma>. {(v, \<sigma>\<lparr>st_mem := f (st_mem \<sigma>)\<rparr>) | v. True})"
  by (rule simI) (auto simp: live_agree_mem_eq live_agree_mem)

lemma sim_load_expr:
  assumes ok: "color_ok st regs"
    and \<rho>: "\<rho> = ra_promotion (fst st) regs" "\<rho>' = ra_promotion (fst st) (private_regs regs)"
    and "ra_cand_of_lea st a = None \<Longrightarrow> sim regs (ev_of st c a) (\<lambda>\<sigma>. evals T fp \<rho> a \<sigma>) (\<lambda>\<sigma>. evals T fp \<rho>' a \<sigma>)"
  shows "sim regs (ev_of st c (IE_LOAD a sz u))
    (\<lambda>\<sigma>. evals T fp \<rho> (IE_LOAD a sz u) \<sigma>) (\<lambda>\<sigma>. evals T fp \<rho>' (IE_LOAD a sz u) \<sigma>)"
proof (cases rule: lea_cases [OF ok, of a])
  case mem: 1
  show ?thesis
  proof (cases "ra_cand_of_lea st a")
    case None
    have "sim regs (ev_of st c a) (\<lambda>\<sigma>. \<Union>(p, \<sigma>1) \<in> evals T fp \<rho> a \<sigma>. {(load_val sz u (st_mem \<sigma>1) p, \<sigma>1)})
        (\<lambda>\<sigma>. \<Union>(p, \<sigma>1) \<in> evals T fp \<rho>' a \<sigma>. {(load_val sz u (st_mem \<sigma>1) p, \<sigma>1)})"
      by (intro sim_bind assms(4) None sim_load)
    then show ?thesis using mem None \<rho> by simp
  next
    case (Some i)
    have "sim regs ([] @ ev_opt (Some i) 0) (\<lambda>\<sigma>. \<Union>(p, \<sigma>1) \<in> evals T fp \<rho> a \<sigma>. {(load_val sz u (st_mem \<sigma>1) p, \<sigma>1)})
        (\<lambda>\<sigma>. \<Union>(p, \<sigma>1) \<in> evals T fp \<rho>' a \<sigma>. {(load_val sz u (st_mem \<sigma>1) p, \<sigma>1)})"
      using mem(3) Some by (intro sim_spill sim_spill_lea [OF Some] sim_load) simp_all
    then show ?thesis using mem Some \<rho> by simp
  qed
next
  case reg: (2 i)
  then show ?thesis using sim_read [OF reg(1,3)] \<rho> by simp
qed

lemma sim_store_expr:
  assumes ok: "color_ok st regs"
    and \<rho>: "\<rho> = ra_promotion (fst st) regs" "\<rho>' = ra_promotion (fst st) (private_regs regs)"
    and a: "ra_cand_of_lea st a = None \<Longrightarrow> sim regs (ev_of st c a) (\<lambda>\<sigma>. evals T fp \<rho> a \<sigma>) (\<lambda>\<sigma>. evals T fp \<rho>' a \<sigma>)"
    and b: "sim regs (ev_of st c b) (\<lambda>\<sigma>. evals T fp \<rho> b \<sigma>) (\<lambda>\<sigma>. evals T fp \<rho>' b \<sigma>)"
    and swap: "ra_cand_of_lea st a = None \<Longrightarrow> swap_ok (ev_of st c a) (ev_of st c b)"
  shows "sim regs (ev_of st c (IE_STORE a b sz u))
    (\<lambda>\<sigma>. evals T fp \<rho> (IE_STORE a b sz u) \<sigma>) (\<lambda>\<sigma>. evals T fp \<rho>' (IE_STORE a b sz u) \<sigma>)"
proof (cases rule: lea_cases [OF ok, of a])
  case mem: 1
  show ?thesis
  proof (cases "ra_cand_of_lea st a")
    case None
    have "sim regs (ev_of st c a @ ev_of st c b)
      (\<lambda>\<sigma>. (\<Union>(p, \<sigma>1) \<in> evals T fp \<rho> a \<sigma>. \<Union>(v, \<sigma>2) \<in> evals T fp \<rho> b \<sigma>1. {(v, \<sigma>2\<lparr>st_mem := store_val sz (st_mem \<sigma>2) p v\<rparr>)}) \<union>
          (\<Union>(v, \<sigma>1) \<in> evals T fp \<rho> b \<sigma>. \<Union>(p, \<sigma>2) \<in> evals T fp \<rho> a \<sigma>1. {(v, \<sigma>2\<lparr>st_mem := store_val sz (st_mem \<sigma>2) p v\<rparr>)}))
      (\<lambda>\<sigma>. (\<Union>(p, \<sigma>1) \<in> evals T fp \<rho>' a \<sigma>. \<Union>(v, \<sigma>2) \<in> evals T fp \<rho>' b \<sigma>1. {(v, \<sigma>2\<lparr>st_mem := store_val sz (st_mem \<sigma>2) p v\<rparr>)}) \<union>
          (\<Union>(v, \<sigma>1) \<in> evals T fp \<rho>' b \<sigma>. \<Union>(p, \<sigma>2) \<in> evals T fp \<rho>' a \<sigma>1. {(v, \<sigma>2\<lparr>st_mem := store_val sz (st_mem \<sigma>2) p v\<rparr>)}))"
      by (intro sim_Un sim_seq sim_bind sim_args_swap a b None swap sim_write)
    then show ?thesis using mem None \<rho> by simp
  next
    case (Some i)
    have "sim regs (ev_of st c b @ ev_opt (Some i) (if c then 2 else 1))
      (\<lambda>\<sigma>. (\<Union>(p, \<sigma>1) \<in> evals T fp \<rho> a \<sigma>. \<Union>(v, \<sigma>2) \<in> evals T fp \<rho> b \<sigma>1. {(v, \<sigma>2\<lparr>st_mem := store_val sz (st_mem \<sigma>2) p v\<rparr>)}) \<union>
          (\<Union>(v, \<sigma>1) \<in> evals T fp \<rho> b \<sigma>. \<Union>(p, \<sigma>2) \<in> evals T fp \<rho> a \<sigma>1. {(v, \<sigma>2\<lparr>st_mem := store_val sz (st_mem \<sigma>2) p v\<rparr>)}))
      (\<lambda>\<sigma>. (\<Union>(p, \<sigma>1) \<in> evals T fp \<rho>' a \<sigma>. \<Union>(v, \<sigma>2) \<in> evals T fp \<rho>' b \<sigma>1. {(v, \<sigma>2\<lparr>st_mem := store_val sz (st_mem \<sigma>2) p v\<rparr>)}) \<union>
          (\<Union>(v, \<sigma>1) \<in> evals T fp \<rho>' b \<sigma>. \<Union>(p, \<sigma>2) \<in> evals T fp \<rho>' a \<sigma>1. {(v, \<sigma>2\<lparr>st_mem := store_val sz (st_mem \<sigma>2) p v\<rparr>)}))"
      by (intro sim_spill sim_Un sim_bind b sim_spill_lea [OF Some] sim_write mem(3) [rule_format, OF Some])
    then show ?thesis using mem Some \<rho> by simp
  qed
next
  case reg: (2 i)
  have "sim regs (ev_of st c b @ ev_opt (Some i) (if c then 2 else 1))
      (\<lambda>\<sigma>. \<Union>(v, \<sigma>1) \<in> evals T fp \<rho> b \<sigma>. {(v, \<sigma>1\<lparr>st_reg := (st_reg \<sigma>1)(regs ! i := v)\<rparr>)})
      (\<lambda>\<sigma>. \<Union>(v, \<sigma>1) \<in> evals T fp \<rho>' b \<sigma>. {(v, \<sigma>1\<lparr>st_reg := (st_reg \<sigma>1)(14 + i := v)\<rparr>)})"
    by (intro sim_seq b sim_store reg(1,3))
  then show ?thesis using reg \<rho> by simp
qed

lemma sim_memzero_expr:
  assumes ok: "color_ok st regs"
    and \<rho>: "\<rho> = ra_promotion (fst st) regs" "\<rho>' = ra_promotion (fst st) (private_regs regs)"
  shows "sim regs (ev_of st c (IE_MEMZERO v off sz))
    (\<lambda>\<sigma>. evals T fp \<rho> (IE_MEMZERO v off sz) \<sigma>) (\<lambda>\<sigma>. evals T fp \<rho>' (IE_MEMZERO v off sz) \<sigma>)"
proof (cases rule: promotion_cases [OF ok, of v])
  case 1
  have "sim regs (ev_opt (ra_cand_of_var st (Some v)) (if c then 2 else 1))
      (\<lambda>\<sigma>. {(x, \<sigma>\<lparr>st_mem := zero_mem (st_mem \<sigma>) (fp + word_of_int off) (nat sz)\<rparr>) | x. True})
      (\<lambda>\<sigma>. {(x, \<sigma>\<lparr>st_mem := zero_mem (st_mem \<sigma>) (fp + word_of_int off) (nat sz)\<rparr>) | x. True})"
    using 1(3) by (intro sim_spill_opt sim_zero_mem) simp
  then show ?thesis using 1 \<rho> by simp
next
  case (2 i)
  then show ?thesis using sim_zero_reg [OF 2(1,3), of c 0] \<rho> by (simp split del: if_split)
qed

text \<open>The evaluation of every expression whose operand order does not matter.\<close>

lemma sim_binop:
  assumes "swap_ok A B" "sim regs A X X'" "sim regs B Y Y'"
  shows "sim regs (A @ B)
    (\<lambda>\<sigma>. (\<Union>(x, \<sigma>1) \<in> X \<sigma>. \<Union>(y, \<sigma>2) \<in> Y \<sigma>1. {(f x y, \<sigma>2)}) \<union> (\<Union>(y, \<sigma>1) \<in> Y \<sigma>. \<Union>(x, \<sigma>2) \<in> X \<sigma>1. {(f x y, \<sigma>2)}))
    (\<lambda>\<sigma>. (\<Union>(x, \<sigma>1) \<in> X' \<sigma>. \<Union>(y, \<sigma>2) \<in> Y' \<sigma>1. {(f x y, \<sigma>2)}) \<union> (\<Union>(y, \<sigma>1) \<in> Y' \<sigma>. \<Union>(x, \<sigma>2) \<in> X' \<sigma>1. {(f x y, \<sigma>2)}))"
  by (intro sim_Un sim_seq sim_bind sim_args_swap assms sim_ret)

lemma sim_arm:
  assumes "sim regs A X X'" "sim regs B Y Y'" "\<forall>ev \<in> set B. snd ev \<noteq> 1"
  shows "sim regs (A @ B) (\<lambda>\<sigma>. \<Union>(x, \<sigma>1) \<in> X \<sigma>. if P x then {(f x, \<sigma>1)} else (\<Union>(y, \<sigma>2) \<in> Y \<sigma>1. {(g y, \<sigma>2)}))
      (\<lambda>\<sigma>. \<Union>(x, \<sigma>1) \<in> X' \<sigma>. if P x then {(f x, \<sigma>1)} else (\<Union>(y, \<sigma>2) \<in> Y' \<sigma>1. {(g y, \<sigma>2)}))"
proof (intro sim_seq sim_if sim_bind assms(1,2) sim_ret)
  fix x show "sim regs B (\<lambda>\<sigma>. {(f x, \<sigma>)}) (\<lambda>\<sigma>. {(f x, \<sigma>)})"
    using sim_arms [OF sim_ret assms(3), of "[]"] by simp
qed

lemma sim_cond:
  assumes "sim regs A X X'" "sim regs B Y Y'" "sim regs C Z Z'"
    and "\<forall>ev \<in> set B. snd ev \<noteq> 1" "\<forall>ev \<in> set C. snd ev \<noteq> 1"
  shows "sim regs (A @ B @ C) (\<lambda>\<sigma>. \<Union>(x, \<sigma>1) \<in> X \<sigma>. if P x then Y \<sigma>1 else Z \<sigma>1)
      (\<lambda>\<sigma>. \<Union>(x, \<sigma>1) \<in> X' \<sigma>. if P x then Y' \<sigma>1 else Z' \<sigma>1)"
proof (intro sim_seq sim_if assms(1))
  show "sim regs (B @ C) (\<lambda>\<sigma>. Y \<sigma>) (\<lambda>\<sigma>. Y' \<sigma>)" using sim_arms [OF assms(2) _ assms(5), of "[]"] by simp
  show "sim regs (B @ C) (\<lambda>\<sigma>. Z \<sigma>) (\<lambda>\<sigma>. Z' \<sigma>)" using sim_arms [OF assms(3,4), of "[]"] by simp
qed

lemma sim_indirect:
  assumes "swap_ok F A" "sim regs F X X'" "sim regs A Y Y'"
  shows "sim regs (F @ A) (\<lambda>\<sigma>. \<Union>(vs, \<sigma>1) \<in> Y \<sigma>. \<Union>(f, \<sigma>2) \<in> X \<sigma>1. {call_result T (Indirect f) vs \<sigma>2})
      (\<lambda>\<sigma>. \<Union>(vs, \<sigma>1) \<in> Y' \<sigma>. \<Union>(f, \<sigma>2) \<in> X' \<sigma>1. {call_result T (Indirect f) vs \<sigma>2})"
  by (intro sim_args_swap assms sim_call)

lemma sim_any_call: "sim regs [] (\<lambda>\<sigma>. range (\<lambda>f. call_result T (Indirect f) vs \<sigma>)) (\<lambda>\<sigma>. range (\<lambda>f. call_result T (Indirect f) vs \<sigma>))"
proof (rule simI)
  fix L \<sigma> \<tau> x \<sigma>'
  assume "(x, \<sigma>') \<in> range (\<lambda>f. call_result T (Indirect f) vs \<sigma>)"
    and a: "live_agree regs (live_before [] L) \<sigma> \<tau>" "clash_free (length regs) regs [] L"
  then obtain f where "(x, \<sigma>') \<in> {call_result T (Indirect f) vs \<sigma>}" by auto
  from simD [OF sim_call this a]
  show "\<exists>\<tau>'. (x, \<tau>') \<in> range (\<lambda>f. call_result T (Indirect f) vs \<tau>) \<and> live_agree regs L \<sigma>' \<tau>'" by blast
qed

lemma evals_sim:
  shows "color_ok st regs \<Longrightarrow> \<rho> = ra_promotion (fst st) regs \<Longrightarrow> \<rho>' = ra_promotion (fst st) (private_regs regs) \<Longrightarrow>
      ord_ok st regs e \<Longrightarrow> sim regs (ev_of st c e) (\<lambda>\<sigma>. evals T fp \<rho> e \<sigma>) (\<lambda>\<sigma>. evals T fp \<rho>' e \<sigma>)"
    and "color_ok st regs \<Longrightarrow> \<rho> = ra_promotion (fst st) regs \<Longrightarrow> \<rho>' = ra_promotion (fst st) (private_regs regs) \<Longrightarrow>
      ord_ok_args st regs es \<Longrightarrow>
      sim regs (ev_args st c es) (\<lambda>\<sigma>. evals_args T fp \<rho> es \<sigma>) (\<lambda>\<sigma>. evals_args T fp \<rho>' es \<sigma>)"
proof (induction st c e and st c es rule: ev_of_ev_args.induct)
  case (1 st c a sz u)
  then show ?case by (intro sim_load_expr) simp_all
next
  case (2 st c a b sz u)
  then have b: "sim regs (ev_of st c b) (\<lambda>\<sigma>. evals T fp \<rho> b \<sigma>) (\<lambda>\<sigma>. evals T fp \<rho>' b \<sigma>)"
    by (cases "ra_cand_of_lea st a") simp_all
  show ?case using 2 by (intro sim_store_expr b) (simp_all add: swap_flag)
next
  case (3 st c v off sz)
  then show ?case by (intro sim_memzero_expr)
next
  case (4 st c a b d sz u)
  then show ?case
    unfolding evals.simps ev_of.simps by (intro sim_cond) (auto dest: arm_events(1) [of True, simplified])
next
  case (5 st c a b)
  then show ?case
    unfolding evals.simps ev_of.simps by (intro sim_arm) (auto dest: arm_events(1) [of True, simplified])
next
  case (6 st c a b)
  then show ?case
    unfolding evals.simps ev_of.simps by (intro sim_arm) (auto dest: arm_events(1) [of True, simplified])
next
  case (7 st c t a sz)
  then show ?case unfolding evals.simps ev_of.simps by (intro sim_bind sim_temp) simp_all
next
  case (8 st c t sz)
  then show ?case unfolding evals.simps ev_of.simps by (intro sim_temp_use) simp_all
next
  case (9 st c nm a args sz u)
  then have args: "sim regs (ev_args st c args) (\<lambda>\<sigma>. evals_args T fp \<rho> args \<sigma>) (\<lambda>\<sigma>. evals_args T fp \<rho>' args \<sigma>)" by simp
  show ?case
  proof (cases a)
    case None
    show ?thesis
    proof (cases nm)
      case N: None
      show ?thesis
        unfolding None N evals.simps ev_of.simps option.case append_Nil by (intro sim_bind args sim_any_call)
    next
      case S: (Some g)
      show ?thesis
        unfolding None S evals.simps ev_of.simps option.case append_Nil by (intro sim_bind args sim_call)
    qed
  next
    case (Some f)
    then have f: "sim regs (ev_of st c f) (\<lambda>\<sigma>. evals T fp \<rho> f \<sigma>) (\<lambda>\<sigma>. evals T fp \<rho>' f \<sigma>)" using 9 by simp
    have nm: "nm = None" and sw: "swap_ok (ev_of st c f) (ev_args st c args)"
      using 9(6) Some by (simp_all add: swap_flag)
    show ?thesis
      unfolding Some nm evals.simps ev_of.simps option.case by (intro sim_indirect sw f args)
  qed
next
  case (10 st c op a b sz u pa)
  then show ?case unfolding evals.simps ev_of.simps by (intro sim_binop) (simp_all add: swap_flag)
next
  case (11 st c a b sz u)
  then show ?case unfolding evals.simps ev_of.simps by (intro sim_seq) simp_all
next
  case (12 st c op a sz u)
  then show ?case unfolding evals.simps ev_of.simps by (intro sim_bind sim_ret) simp_all
next
  case (13 st c op a sz u fs fu)
  then show ?case unfolding evals.simps ev_of.simps by (intro sim_bind sim_ret) simp_all
next
  case (18 st c x xs)
  then show ?case unfolding evals_args.simps ev_args.simps by (intro sim_args_swap sim_ret) (simp_all add: swap_flag)
qed (unfold evals.simps evals_args.simps ev_of.simps ev_args.simps, (rule sim_ret sim_any)+)

section \<open>Items in their blocks\<close>

text \<open>
  The conditions on an item: the order of its operands does not matter, and its events fit into the buffer
  of \<open>ra_ev_walk\<close>.
\<close>

definition item_ok :: "ra_state \<Rightarrow> nat list \<Rightarrow> ir_item \<Rightarrow> bool" where
  "item_ok st regs it \<longleftrightarrow>
     (case item_expr it of None \<Rightarrow> True | Some e \<Rightarrow> ord_ok st regs e \<and> length (ev_of st False e) \<le> 4096)"

text \<open>The number of the first event of item \<open>i\<close> in its block, and what is live there.\<close>

definition ev_offset :: "ra_state \<Rightarrow> ir_item list \<Rightarrow> ir_block \<Rightarrow> nat \<Rightarrow> nat" where
  "ev_offset st its b i = length (concat (map (\<lambda>k. item_events st (its ! k)) [bl_start b..<i]))"

definition live_here :: "ra_state \<Rightarrow> ir_item list \<Rightarrow> ir_item list \<Rightarrow> nat \<Rightarrow> nat \<Rightarrow> nat set" where
  "live_here st its P b i =
     {j. live_at (ir_build_cfg P) (cfg_events st its P) j b (ev_offset st its (ir_build_cfg P ! b) i)}"

lemma live_at_run:
  assumes "evs ! b = pre @ es @ post" "j \<in> live_before es {j. live_at bs evs j b (length pre + length es)}"
  shows "live_at bs evs j b (length pre)"
  using assms
proof (induction es arbitrary: pre)
  case (Cons x es)
  have e: "evs ! b = (pre @ [x]) @ es @ post" using Cons.prems(1) by simp
  have n: "length pre < length (evs ! b)" "evs ! b ! length pre = x" using Cons.prems(1) by (simp_all add: nth_append)
  have l: "live_at bs evs j b (Suc (length pre))"
    if "j \<in> live_before es {j. live_at bs evs j b (Suc (length pre + length es))}"
    using Cons.IH [OF e] that by simp
  show ?case
  proof (cases "x = (j, 0)")
    case True
    then show ?thesis using n live_at.live_use by blast
  next
    case False
    then have "x \<noteq> (j, 1)" "j \<in> live_before es {j. live_at bs evs j b (Suc (length pre + length es))}"
      using Cons.prems(2) by (cases x; auto split: if_splits)+
    then show ?thesis using live_at.live_next n l by blast
  qed
qed simp

lemma item_split:
  assumes b: "b < length (ir_build_cfg P)" and i: "bl_start (ir_build_cfg P ! b) \<le> i" "i < bl_end (ir_build_cfg P ! b)"
  obtains pre post where "cfg_events st its P ! b = pre @ item_events st (its ! i) @ post"
    "length pre = ev_offset st its (ir_build_cfg P ! b) i"
    "length (pre @ item_events st (its ! i)) = ev_offset st its (ir_build_cfg P ! b) (Suc i)"
proof -
  let ?b = "ir_build_cfg P ! b" and ?f = "\<lambda>k. item_events st (its ! k)"
  have "[bl_start ?b..<bl_end ?b] = [bl_start ?b..<i] @ i # [Suc i..<bl_end ?b]"
    using i by (metis le_add_diff_inverse less_imp_le upt_add_eq_append upt_conv_Cons)
  then have "cfg_events st its P ! b =
      concat (map ?f [bl_start ?b..<i]) @ ?f i @ concat (map ?f [Suc i..<bl_end ?b])"
    using b by (simp add: cfg_events_def block_events_def)
  moreover have "length (concat (map ?f [bl_start ?b..<i]) @ ?f i) = ev_offset st its ?b (Suc i)"
    using i by (simp add: ev_offset_def)
  ultimately show thesis using that [of "concat (map ?f [bl_start ?b..<i])"] by (simp add: ev_offset_def)
qed

lemma live_item_step:
  assumes b: "b < length (ir_build_cfg P)" "bl_start (ir_build_cfg P ! b) \<le> i" "i < bl_end (ir_build_cfg P ! b)"
  shows "live_before (item_events st (its ! i)) (live_here st its P b (Suc i)) \<subseteq> live_here st its P b i"
proof -
  obtain pre post where s: "cfg_events st its P ! b = pre @ item_events st (its ! i) @ post"
    "length pre = ev_offset st its (ir_build_cfg P ! b) i"
    "length (pre @ item_events st (its ! i)) = ev_offset st its (ir_build_cfg P ! b) (Suc i)"
    using item_split [OF b] .
  then show ?thesis using live_at_run [OF s(1)] by (auto simp: live_here_def)
qed

lemma item_clash_free:
  assumes st: "length (fst st) \<le> 256" "P \<noteq> []" and r: "ra_color_global st its (ir_build_cfg P) = Some (regs, hi)"
    and b: "b < length (ir_build_cfg P)" "bl_start (ir_build_cfg P ! b) \<le> i" "i < bl_end (ir_build_cfg P ! b)"
  shows "clash_free (length (fst st)) regs (item_events st (its ! i)) (live_here st its P b (Suc i))"
proof -
  let ?es = "item_events st (its ! i)" and ?evs = "cfg_events st its P"
  have False
    if cj: "(c, j) \<in> clobbers (length (fst st)) ?es (live_here st its P b (Suc i))"
      and nz: "regs ! c \<noteq> 0" and eq: "regs ! c = regs ! j" for c j
  proof -
    from cj obtain k where k: "c \<noteq> j" "j < length (fst st)" "k < length ?es" "fst (?es ! k) = c" "snd (?es ! k) \<noteq> 0"
      "j \<in> live_before (drop (Suc k) ?es) (live_here st its P b (Suc i))" unfolding clobbers_iff by blast
    obtain pre post where s: "?evs ! b = pre @ ?es @ post"
      "length pre = ev_offset st its (ir_build_cfg P ! b) i"
      "length (pre @ ?es) = ev_offset st its (ir_build_cfg P ! b) (Suc i)"
      using item_split [OF b] .
    have sp: "?evs ! b = (pre @ take (Suc k) ?es) @ drop (Suc k) ?es @ post" using s(1) by simp
    have "live_at (ir_build_cfg P) ?evs j b (length (pre @ take (Suc k) ?es))"
      by (rule live_at_run [OF sp]) (use k(3,6) s(3) in \<open>simp add: live_here_def\<close>)
    then have l: "live_at (ir_build_cfg P) ?evs j b (Suc (length pre + k))" using k(3) by simp
    have n: "length pre + k < length (?evs ! b)" "?evs ! b ! (length pre + k) = ?es ! k"
      using s(1) k(3) by (simp_all add: nth_append)
    then have "store_meets (ir_build_cfg P) ?evs c j"
      unfolding store_meets_def using b(1) k(4,5) l by (intro exI [of _ b] exI [of _ "length pre + k"] conjI) simp_all
    then have "conflict (ir_build_cfg P) ?evs c j" using k(1) by (simp add: conflict_def)
    moreover have "c < length (fst st)"
      using cfg_events_ok [OF le_refl b(1), of st its] n k(4) nth_mem by (fastforce simp: events_ok_def)
    ultimately show False using color_no_conflict [OF st r _ k(2) eq nz] by blast
  qed
  then show ?thesis by (auto simp: clash_free_def)
qed

lemma live_edge:
  assumes "b < length (ir_build_cfg P)" "s \<in> set (bl_succ (ir_build_cfg P ! b))"
  shows "live_here st its P s (bl_start (ir_build_cfg P ! s)) \<subseteq> live_here st its P b (bl_end (ir_build_cfg P ! b))"
proof -
  have "ev_offset st its (ir_build_cfg P ! b) (bl_end (ir_build_cfg P ! b)) = length (cfg_events st its P ! b)"
    using assms(1) by (simp add: ev_offset_def cfg_events_def block_events_def)
  then show ?thesis using live_at.live_succ [OF _ assms(2)] by (auto simp: live_here_def ev_offset_def)
qed

section \<open>Runs\<close>

text \<open>
  At \<open>-O3\<close> the blocks and their events are taken from the list \<open>Q\<close> of folded branches, while the list
  that runs is \<open>Q\<close> without its unreachable items and dead expressions.
\<close>

abbreviation clean_items :: "ir_item list \<Rightarrow> ir_item list" where
  "clean_items Q \<equiv> op6_dce_dead_eval (op6_dce_unreachable (ir_build_cfg Q) Q)"

lemma clean_nth: "i < length Q \<Longrightarrow> live_item Q i \<Longrightarrow> clean_items Q ! i = drop_dead_eval (Q ! i)"
  by (simp add: op6_dce_dead_eval_def dce_nth)

lemma length_clean [simp]: "length (clean_items Q) = length Q"
  by (simp add: op6_dce_dead_eval_def)

lemma opt_target:
  assumes "i < length Q" "live_item Q i" "item_target (Q ! i) = Some l" "label_index (clean_items Q) l = Some j"
  shows "label_index Q l = Some j"
proof -
  have j: "label_index (dce_items Q) l = Some j" using assms(4) by (simp add: op6_dce_dead_eval_def)
  then obtain k where k: "label_index Q l = Some k" using dce_label_index_less by fastforce
  then show ?thesis using dce_label_index live_target [OF assms(1-3) k] j by simp
qed

text \<open>The steps of the cleaned list follow those of \<open>Q\<close>.\<close>

lemma clean_position:
  assumes s: "item_step T fp \<rho> (clean_items Q) (At i \<sigma>) (At j \<sigma>')" and l: "live_item Q i"
  shows "\<exists>\<sigma>''. item_step T fp \<rho> Q (At i \<sigma>) (At j \<sigma>'')"
proof -
  have i: "i < length Q" using item_step_in_range [OF s] by simp
  note n = clean_nth [OF i l]
  show ?thesis
  proof (cases "Q ! i")
    case (II_EVAL e)
    then have "j = Suc i" using s n by (auto simp: item_step_At split: if_splits)
    moreover obtain v \<sigma>1 where "(v, \<sigma>1) \<in> evals T fp \<rho> e \<sigma>" using evals_nonempty by fastforce
    ultimately show ?thesis using step_eval [OF i II_EVAL] by blast
  next
    case (II_JMP l')
    then show ?thesis using s n i opt_target [OF i l, of l'] by (fastforce simp: item_step_At)
  next
    case (II_CBR e l' w)
    then show ?thesis using s n i opt_target [OF i l, of l'] by (fastforce simp: item_step_At)
  qed (use s n i in \<open>auto simp: item_step_At\<close>)
qed

text \<open>Where a step goes: to the next item of the block, or from the last one along an edge.\<close>

lemma step_place:
  assumes s: "item_step T fp \<rho> Q (At i \<sigma>) (At j \<sigma>')" and j: "j < length Q"
    and b: "b < length (ir_build_cfg Q)" "bl_start (ir_build_cfg Q ! b) \<le> i" "i < bl_end (ir_build_cfg Q ! b)"
  shows "j = Suc i \<and> j < bl_end (ir_build_cfg Q ! b) \<or>
    Suc i = bl_end (ir_build_cfg Q ! b) \<and>
      (\<exists>s \<in> set (bl_succ (ir_build_cfg Q ! b)). j = bl_start (ir_build_cfg Q ! s))"
proof -
  have b': "b < length (block_ranges Q)" using b(1) by simp
  note nth = cfg_nth [OF b']
  have e: "j = Suc i \<and> j < snd (block_ranges Q ! b) \<or>
      (\<exists>s \<in> set (block_succ Q (block_ranges Q) b). j = fst (block_ranges Q ! s))"
    using step_edge [OF s j b'] b nth by simp
  show ?thesis
  proof (cases "j = Suc i \<and> j < snd (block_ranges Q ! b)")
    case False
    have "Suc i = snd (block_ranges Q ! b)"
    proof (cases "j = Suc i")
      case True
      then show ?thesis using False b nth by simp
    next
      case ne: False
      then have "is_transfer (Q ! i)" using s by (auto simp: item_step_At is_transfer_def)
      then show ?thesis using transfer_in_block [OF b'] b nth by simp
    qed
    moreover from e False obtain s where s: "s \<in> set (block_succ Q (block_ranges Q) b)" "j = fst (block_ranges Q ! s)"
      by blast
    moreover have "fst (block_ranges Q ! s) = bl_start (ir_build_cfg Q ! s)" using cfg_nth(1) succ_bound s(1) by metis
    ultimately show ?thesis using nth by auto
  qed (use nth in simp)
qed

lemma live_item_bound: "live_item Q i \<Longrightarrow> i < length Q"
  using block_bounds(2) unfolding live_item_def by (meson less_le_trans)

text \<open>
  Two configurations match at the same item, in a block that is reachable from the entry, when they agree
  on what is live there; two finished ones when they return the same and leave the same memory.
\<close>

definition here_ok :: "ra_state \<Rightarrow> nat list \<Rightarrow> ir_item list \<Rightarrow> nat \<Rightarrow> istate \<Rightarrow> istate \<Rightarrow> bool" where
  "here_ok st regs Q i \<sigma> \<tau> \<longleftrightarrow> live_item Q i \<and> (\<exists>b < length (ir_build_cfg Q).
     bl_start (ir_build_cfg Q ! b) \<le> i \<and> i < bl_end (ir_build_cfg Q ! b) \<and>
     live_agree regs (live_here st (clean_items Q) Q b i) \<sigma> \<tau>)"

fun match_cfg :: "ra_state \<Rightarrow> nat list \<Rightarrow> ir_item list \<Rightarrow> config \<Rightarrow> config \<Rightarrow> bool" where
  "match_cfg st regs Q (At i \<sigma>) (At j \<tau>) \<longleftrightarrow> j = i \<and>
     (here_ok st regs Q i \<sigma> \<tau> \<or> i = length Q \<and> live_agree regs {} \<sigma> \<tau>)"
| "match_cfg st regs Q (Done v \<sigma>) (Done w \<tau>) \<longleftrightarrow> w = v \<and> st_mem \<tau> = st_mem \<sigma>"
| "match_cfg st regs Q _ _ \<longleftrightarrow> False"

text \<open>After an item the run is at the next position with what is live there.\<close>

lemma match_next:
  assumes s: "item_step T fp \<rho> (clean_items Q) (At i \<sigma>) (At j \<sigma>')" and l: "live_item Q i"
    and b: "b < length (ir_build_cfg Q)" "bl_start (ir_build_cfg Q ! b) \<le> i" "i < bl_end (ir_build_cfg Q ! b)"
    and ag: "live_agree regs (live_here st (clean_items Q) Q b (Suc i)) \<sigma>' \<tau>'"
  shows "match_cfg st regs Q (At j \<sigma>') (At j \<tau>')"
proof (cases "j < length Q")
  case True
  obtain \<sigma>'' where q: "item_step T fp \<rho> Q (At i \<sigma>) (At j \<sigma>'')" using clean_position [OF s l] by blast
  have lj: "live_item Q j" using live_step [OF q l True] .
  from step_place [OF q True b] show ?thesis
  proof
    assume "j = Suc i \<and> j < bl_end (ir_build_cfg Q ! b)"
    then show ?thesis using b ag lj by (auto simp: here_ok_def)
  next
    assume "Suc i = bl_end (ir_build_cfg Q ! b) \<and>
      (\<exists>s \<in> set (bl_succ (ir_build_cfg Q ! b)). j = bl_start (ir_build_cfg Q ! s))"
    then obtain t where e: "Suc i = bl_end (ir_build_cfg Q ! b)" and t: "t \<in> set (bl_succ (ir_build_cfg Q ! b))"
      "j = bl_start (ir_build_cfg Q ! t)" by blast
    have tl: "t < length (ir_build_cfg Q)" using cfg_succs_ok [of Q] t(1) b(1) by (auto simp: succs_ok_def)
    then have "bl_start (ir_build_cfg Q ! t) < bl_end (ir_build_cfg Q ! t)"
      using block_bounds(1) [of t Q] cfg_nth [of t Q] by simp
    moreover have "live_agree regs (live_here st (clean_items Q) Q t j) \<sigma>' \<tau>'"
      using live_agree_mono [OF ag] live_edge [OF b(1) t(1), of st "clean_items Q"] e t(2) by simp
    ultimately show ?thesis using tl t(2) lj by (auto simp: here_ok_def)
  qed
next
  case False
  then have "j = length Q" using item_step_in_range [OF s] by simp
  then show ?thesis using live_agree_mono [OF ag, of "{}"] by simp
qed

definition colored :: "ra_state \<Rightarrow> nat list \<Rightarrow> ir_item list \<Rightarrow> bool" where
  "colored st regs Q \<longleftrightarrow> length (fst st) \<le> 256 \<and> Q \<noteq> [] \<and>
     (\<exists>hi. ra_color_global st (clean_items Q) (ir_build_cfg Q) = Some (regs, hi)) \<and>
     (\<forall>it \<in> set (clean_items Q). item_ok st regs it)"

lemma colored_ok: "colored st regs Q \<Longrightarrow> color_ok st regs"
  using color_regs unfolding colored_def color_ok_def by metis

text \<open>The expression of an item.\<close>

lemma match_eval:
  assumes c: "colored st regs Q" and i: "i < length Q" "item_expr (clean_items Q ! i) = Some e"
    and b: "b < length (ir_build_cfg Q)" "bl_start (ir_build_cfg Q ! b) \<le> i" "i < bl_end (ir_build_cfg Q ! b)"
    and v: "(v, \<sigma>') \<in> evals T fp (ra_promotion (fst st) regs) e \<sigma>"
    and ag: "live_agree regs (live_here st (clean_items Q) Q b i) \<sigma> \<tau>"
  obtains \<tau>' where "(v, \<tau>') \<in> evals T fp (ra_promotion (fst st) (private_regs regs)) e \<tau>"
    "live_agree regs (live_here st (clean_items Q) Q b (Suc i)) \<sigma>' \<tau>'"
proof -
  have "clean_items Q ! i \<in> set (clean_items Q)" using i(1) nth_mem [of i "clean_items Q"] by simp
  then have ok: "ord_ok st regs e" "length (ev_of st False e) \<le> 4096"
    using c i(2) by (auto simp: colored_def item_ok_def)
  have es: "item_events st (clean_items Q ! i) = ev_of st False e" using item_events_all [OF i(2) ok(2)] .
  have n: "length regs = length (fst st)" using colored_ok [OF c] by (simp add: color_ok_def)
  have "live_agree regs (live_before (ev_of st False e) (live_here st (clean_items Q) Q b (Suc i))) \<sigma> \<tau>"
    using live_agree_mono [OF ag live_item_step [OF b]] es by simp
  moreover have "clash_free (length regs) regs (ev_of st False e) (live_here st (clean_items Q) Q b (Suc i))"
    using item_clash_free [OF _ _ _ b] c es n unfolding colored_def by metis
  ultimately show thesis
    using simD [OF evals_sim(1) [OF colored_ok [OF c] refl refl ok(1)] v] that by blast
qed

lemma match_none:
  assumes "item_expr (its ! i) = None" "bl_start (ir_build_cfg Q ! b) \<le> i"
  shows "live_here st its Q b (Suc i) = live_here st its Q b i"
  using assms by (simp add: live_here_def ev_offset_def item_events_def)

lemma match_step:
  assumes c: "colored st regs Q" and m: "match_cfg st regs Q c1 d1"
    and s: "item_step T fp (ra_promotion (fst st) regs) (clean_items Q) c1 c2"
  shows "\<exists>d2. item_step T fp (ra_promotion (fst st) (private_regs regs)) (clean_items Q) d1 d2 \<and> match_cfg st regs Q c2 d2"
proof -
  let ?P = "clean_items Q" and ?r = "ra_promotion (fst st) regs" and ?p = "ra_promotion (fst st) (private_regs regs)"
  obtain i \<sigma> where c1: "c1 = At i \<sigma>" using s by (cases c1) auto
  with m obtain \<tau> where d1: "d1 = At i \<tau>" by (cases d1) auto
  show ?thesis
  proof (cases "i < length Q")
    case False
    then have "i = length Q" "live_agree regs {} \<sigma> \<tau>" using m c1 d1 live_item_bound by (auto simp: here_ok_def)
    moreover have "c2 = Done None \<sigma>" using s c1 False by (auto simp: item_step_At)
    ultimately show ?thesis using d1 by (auto simp: item_step_At live_agree_mem_eq)
  next
    case i: True
    then have i': "i < length ?P" by simp
    obtain b where l: "live_item Q i" and b: "b < length (ir_build_cfg Q)" "bl_start (ir_build_cfg Q ! b) \<le> i"
      "i < bl_end (ir_build_cfg Q ! b)" and ag: "live_agree regs (live_here st ?P Q b i) \<sigma> \<tau>"
      using m c1 d1 i by (auto simp: here_ok_def)
    note next_ok = match_next [OF _ l b]
    have skip: ?thesis if "item_expr (?P ! i) = None" "c2 = At j \<sigma>"
      "item_step T fp ?p ?P (At i \<tau>) (At j \<tau>)" for j
      using next_ok [of T fp ?r \<sigma> j \<sigma> regs st \<tau>] s c1 d1 ag that match_none [OF that(1) b(2)] by auto
    show ?thesis
    proof (cases "?P ! i")
      case (II_LABEL l')
      then show ?thesis using skip [of "Suc i"] s c1 i' by (auto simp: item_step_At)
    next
      case II_NOP
      then show ?thesis using skip [of "Suc i"] s c1 i' by (auto simp: item_step_At)
    next
      case (II_JMP l')
      then show ?thesis using skip s c1 i' by (auto simp: item_step_At)
    next
      case (II_CBR e l' w)
      then obtain v j \<sigma>' where v: "(v, \<sigma>') \<in> evals T fp ?r e \<sigma>" "c2 = At j \<sigma>'"
        and j: "(v \<noteq> 0) = w \<and> label_index ?P l' = Some j \<or> (v \<noteq> 0) \<noteq> w \<and> j = Suc i"
        using s c1 i' by (auto simp: item_step_At)
      obtain \<tau>' where t: "(v, \<tau>') \<in> evals T fp ?p e \<tau>" "live_agree regs (live_here st ?P Q b (Suc i)) \<sigma>' \<tau>'"
        using match_eval [OF c i _ b v(1) ag] II_CBR by auto
      have "item_step T fp ?p ?P (At i \<tau>) (At j \<tau>')" using t(1) j II_CBR i' by (auto simp: item_step_At)
      then show ?thesis using next_ok [of T fp ?r \<sigma> j \<sigma>'] s c1 d1 v(2) t(2) by blast
    next
      case (II_EVAL e)
      then obtain v \<sigma>' where v: "(v, \<sigma>') \<in> evals T fp ?r e \<sigma>" "c2 = At (Suc i) \<sigma>'"
        using s c1 i' by (auto simp: item_step_At)
      obtain \<tau>' where t: "(v, \<tau>') \<in> evals T fp ?p e \<tau>" "live_agree regs (live_here st ?P Q b (Suc i)) \<sigma>' \<tau>'"
        using match_eval [OF c i _ b v(1) ag] II_EVAL by auto
      have "item_step T fp ?p ?P (At i \<tau>) (At (Suc i) \<tau>')" using step_eval [OF i' II_EVAL t(1)] .
      then show ?thesis using next_ok [of T fp ?r \<sigma> "Suc i" \<sigma>'] s c1 d1 v(2) t(2) by blast
    next
      case (II_RET r)
      show ?thesis
      proof (cases r)
        case None
        then have "c2 = Done None \<sigma>" using s c1 i' II_RET by (auto simp: item_step_At)
        then show ?thesis using step_ret_void [of i ?P] II_RET None i' d1 live_agree_mem_eq [OF ag] by fastforce
      next
        case (Some e)
        then obtain v \<sigma>' where v: "(v, \<sigma>') \<in> evals T fp ?r e \<sigma>" "c2 = Done (Some v) \<sigma>'"
          using s c1 i' II_RET by (auto simp: item_step_At)
        obtain \<tau>' where t: "(v, \<tau>') \<in> evals T fp ?p e \<tau>" "live_agree regs (live_here st ?P Q b (Suc i)) \<sigma>' \<tau>'"
          using match_eval [OF c i _ b v(1) ag] II_RET Some by auto
        then show ?thesis using step_ret [OF i' _ t(1)] II_RET Some d1 v(2) live_agree_mem_eq by fastforce
      qed
    qed
  qed
qed

lemma match_steps:
  assumes c: "colored st regs Q"
    and "item_steps T fp (ra_promotion (fst st) regs) (clean_items Q) c1 c2" and "match_cfg st regs Q c1 d1"
  shows "\<exists>d2. item_steps T fp (ra_promotion (fst st) (private_regs regs)) (clean_items Q) d1 d2 \<and> match_cfg st regs Q c2 d2"
  using assms(2,3)
proof (induction rule: item_steps.induct)
  case (steps_refl c1)
  then show ?case using item_steps.steps_refl by blast
next
  case (steps_step c1 c2 c3)
  then show ?case using match_step [OF c] item_steps.steps_step by metis
qed

lemma match_power:
  assumes c: "colored st regs Q"
    and "(item_step T fp (ra_promotion (fst st) regs) (clean_items Q) ^^ k) c1 c2" and "match_cfg st regs Q c1 d1"
  shows "\<exists>d2. (item_step T fp (ra_promotion (fst st) (private_regs regs)) (clean_items Q) ^^ k) d1 d2 \<and>
    match_cfg st regs Q c2 d2"
  using assms(2)
proof (induction k arbitrary: c2)
  case 0
  then show ?case using assms(3) by auto
next
  case (Suc k)
  then obtain c where "(item_step T fp (ra_promotion (fst st) regs) (clean_items Q) ^^ k) c1 c"
    "item_step T fp (ra_promotion (fst st) regs) (clean_items Q) c c2" by auto
  with Suc.IH match_step [OF c] show ?case by (metis relpowp_Suc_I)
qed

lemma match_At: "match_cfg st regs Q (At i \<sigma>) d \<Longrightarrow> \<exists>\<tau>. d = At i \<tau> \<and> st_mem \<tau> = st_mem \<sigma>"
  by (cases d) (auto simp: here_ok_def live_agree_mem_eq)

lemma match_Done: "match_cfg st regs Q (Done v \<sigma>) d \<Longrightarrow> \<exists>\<tau>. d = Done v \<tau> \<and> st_mem \<tau> = st_mem \<sigma>"
  by (cases d) auto

lemma entry_block: "Q \<noteq> [] \<Longrightarrow> 0 < length (ir_build_cfg Q) \<and> bl_start (ir_build_cfg Q ! 0) = 0 \<and> 0 < bl_end (ir_build_cfg Q ! 0)"
  using cfg_nth [of 0 Q] block_bounds(1) [of 0 Q] fst_range [of 0 Q] starts_0 [of Q] by simp

lemma match_entry:
  assumes "Q \<noteq> []" and ag: "live_agree regs {j. live_at (ir_build_cfg Q) (cfg_events st (clean_items Q) Q) j 0 0} \<sigma> \<tau>"
  shows "match_cfg st regs Q (At 0 \<sigma>) (At 0 \<tau>)"
proof -
  note e = entry_block [OF assms(1)]
  have "live_here st (clean_items Q) Q 0 0 = {j. live_at (ir_build_cfg Q) (cfg_events st (clean_items Q) Q) j 0 0}"
    using e by (simp add: live_here_def ev_offset_def)
  then have "here_ok st regs Q 0 \<sigma> \<tau>"
    unfolding here_ok_def using e ag live_entry [OF assms(1)] by (intro conjI exI [of _ 0]) simp_all
  then show ?thesis by simp
qed

text \<open>The list that \<open>-O3\<close> colors and runs.\<close>

definition items_ok :: "ra_state \<Rightarrow> nat list \<Rightarrow> ir_item list \<Rightarrow> bool" where
  "items_ok st regs its \<longleftrightarrow> list_all (item_ok st regs) its"

definition entry_live :: "ra_state \<Rightarrow> ir_item list \<Rightarrow> nat set" where
  "entry_live st P =
     {j. live_at (body_blocks 3 P) (map (block_events st (ir_optimize P)) (body_blocks 3 P)) j 0 0}"

lemma colored_start:
  assumes "length (fst st) \<le> 256" "P \<noteq> []"
    and "ra_color_global st (ir_optimize P) (body_blocks 3 P) = Some (regs, hi)"
    and "items_ok st regs (ir_optimize P)" and "live_agree regs (entry_live st P) \<sigma> \<tau>"
  obtains Q where "ir_optimize P = clean_items Q" "colored st regs Q" "match_cfg st regs Q (At 0 \<sigma>) (At 0 \<tau>)"
proof -
  let ?Q = "op6_fold_branches (op6_fold_exprs P)"
  have q: "ir_optimize P = clean_items ?Q" "body_blocks 3 P = ir_build_cfg ?Q" "?Q \<noteq> []"
    using assms(2) by (simp_all add: ir_optimize_def Let_def body_blocks_def op6_fold_branches_def op6_fold_exprs_def)
  have "colored st regs ?Q"
    using assms(1,3,4) q(3) unfolding colored_def items_ok_def list_all_iff q(1,2) by blast
  moreover have "match_cfg st regs ?Q (At 0 \<sigma>) (At 0 \<tau>)"
    using match_entry [OF q(3)] assms(5) unfolding entry_live_def q(1,2) cfg_events_def by blast
  ultimately show thesis using that q(1) by blast
qed

section \<open>Property\<close>

text \<open>
  C15: sharing registers is safe at \<open>-O3\<close>, for a body whose operands may be evaluated in any order
  (\<open>items_ok\<close>: in a binary operator, a store through an address or a call, operands that refer to
  variables of the allocator store none of them, or only one of the operands refers to any; and no item
  has more events than the buffer of the liveness walk holds). Every run of the optimized items with the
  registers of the coloring, where variables share registers, is matched by a run with a register of its
  own for each promoted variable: it reaches the same item with the same memory, and it returns the same
  value. The two start with the same value in every variable that is live at the entry. The example
  of \<open>Ra_Order\<close> shows that the condition on the operands is needed.
\<close>

theorem shared_registers_safe:
  assumes n: "length (fst st) \<le> 256" "P \<noteq> []"
    and r: "ra_color_global st (ir_optimize P) (body_blocks 3 P) = Some (regs, hi)"
    and ok: "items_ok st regs (ir_optimize P)" and start: "live_agree regs (entry_live st P) \<sigma> \<tau>"
  shows "(item_steps T fp (ra_promotion (fst st) regs) (ir_optimize P) (At 0 \<sigma>) (Done v \<sigma>') \<longrightarrow>
      (\<exists>\<tau>'. item_steps T fp (ra_promotion (fst st) (private_regs regs)) (ir_optimize P) (At 0 \<tau>) (Done v \<tau>') \<and>
         st_mem \<tau>' = st_mem \<sigma>')) \<and>
    (item_steps T fp (ra_promotion (fst st) regs) (ir_optimize P) (At 0 \<sigma>) (At i \<sigma>') \<longrightarrow>
      (\<exists>\<tau>'. item_steps T fp (ra_promotion (fst st) (private_regs regs)) (ir_optimize P) (At 0 \<tau>) (At i \<tau>') \<and>
         st_mem \<tau>' = st_mem \<sigma>'))"
proof -
  obtain Q where q: "ir_optimize P = clean_items Q" and c: "colored st regs Q" and m: "match_cfg st regs Q (At 0 \<sigma>) (At 0 \<tau>)"
    using colored_start [OF n r ok start] .
  show ?thesis
    unfolding q using match_steps [OF c _ m] match_Done match_At by metis
qed

text \<open>\<open>do { x = f(); y = x + 1; } while (g(y)); return;\<close> with \<open>x\<close> and \<open>y\<close> in one register.\<close>

definition share_items :: "ir_item list" where
  "share_items =
     [II_LABEL ''loop'',
      II_EVAL (IE_STORE (ord_var 0 (- 4)) (IE_CALL (Some ''f'') None [] 4 False) 4 False),
      II_EVAL (IE_STORE (ord_var 1 (- 8))
        (IE_BINOP ND_ADD (IE_LOAD (ord_var 0 (- 4)) 4 False) (IE_NUM 1 4 False) 4 False False) 4 False),
      II_CBR (IE_CALL (Some ''g'') None [IE_LOAD (ord_var 1 (- 8)) 4 False] 4 False) ''loop'' True,
      II_RET None]"

definition share_state :: ra_state where "share_state = ([ord_cand 0, ord_cand 1], [])"

definition share_target :: target where
  "share_target = \<lparr>tg_sym = (\<lambda>_. 0), tg_call = (\<lambda>_ _ m. (0, m)), tg_undef = (\<lambda>_ _ _ _. 0)\<rparr>"

definition share_start :: istate where "share_start = \<lparr>st_mem = (\<lambda>_. 0), st_reg = (\<lambda>_. 0)\<rparr>"

lemma share_optimized: "ir_optimize share_items = share_items"
  by code_simp

lemma share_colored: "ra_color_global share_state (ir_optimize share_items) (body_blocks 3 share_items) = Some ([2, 2], 2)"
  by code_simp

lemma share_item_ok: "items_ok share_state [2, 2] share_items"
  by code_simp

lemma share_promotion [simp]:
  "ra_promotion (fst share_state) [2, 2] 0 = 2" "ra_promotion (fst share_state) [2, 2] (Suc 0) = 2"
  by (simp_all add: share_state_def ra_promotion_def ra_cand_index_def ord_cand_def)

lemma share_run:
  "\<exists>\<sigma>'. item_steps share_target 0 (ra_promotion (fst share_state) [2, 2]) share_items (At 0 share_start) (Done None \<sigma>') \<and>
     st_mem \<sigma>' = st_mem share_start"
proof -
  let ?r = "ra_promotion (fst share_state) [2, 2]"
  let ?w = "\<lambda>\<sigma> v. \<sigma>\<lparr>st_reg := (st_reg \<sigma>)(2 := v)\<rparr> :: istate"
  let ?s1 = "?w share_start 0" and ?s2 = "?w (?w share_start 0) 1"
  have len: "length share_items = 5" by (simp add: share_items_def)
  have 1: "item_step share_target 0 ?r share_items (At 0 share_start) (At 1 share_start)"
    by (simp add: item_step_At len) (simp add: share_items_def)
  have 2: "item_step share_target 0 ?r share_items (At 1 share_start) (At 2 ?s1)"
    by (simp add: item_step_At len) (simp add: share_items_def ord_var_def call_result_def share_target_def)
  have 3: "item_step share_target 0 ?r share_items (At 2 ?s1) (At 3 ?s2)"
    by (simp add: item_step_At len) (simp add: share_items_def ord_var_def binop_val_def)
  have 4: "item_step share_target 0 ?r share_items (At 3 ?s2) (At 4 ?s2)"
    by (simp add: item_step_At len) (simp add: share_items_def ord_var_def call_result_def share_target_def)
  have 5: "item_step share_target 0 ?r share_items (At 4 ?s2) (Done None ?s2)"
    by (simp add: item_step_At len) (simp add: share_items_def)
  have "item_steps share_target 0 ?r share_items (At 0 share_start) (Done None ?s2)"
    using 1 2 3 4 5 steps_refl steps_step by meson
  then show ?thesis by (intro exI [of _ ?s2]) simp
qed

lemma shared_registers_safe_witness:
  "\<exists>\<tau>'. item_steps share_target 0 (ra_promotion (fst share_state) (private_regs [2, 2])) share_items
       (At 0 share_start) (Done None \<tau>') \<and> st_mem \<tau>' = st_mem share_start"
proof -
  obtain \<sigma>' where r: "item_steps share_target 0 (ra_promotion (fst share_state) [2, 2]) share_items (At 0 share_start) (Done None \<sigma>')"
    "st_mem \<sigma>' = st_mem share_start" using share_run by blast
  have "length (fst share_state) \<le> 256" "share_items \<noteq> []" by (simp_all add: share_state_def share_items_def)
  moreover have "live_agree [2, 2] L share_start share_start" for L by (simp add: live_agree_def share_start_def)
  ultimately show ?thesis
    using shared_registers_safe [OF _ _ share_colored, of share_start share_start] share_item_ok r
    unfolding share_optimized by metis
qed

end
