(* ===== verification/Ra_Order.thy ===== *)
theory Ra_Order
  imports Ra_Sound Tile_Emit
begin

text \<open>
  The register allocator and the instruction selector together. The emitted code of a colored body is
  correct when the order of evaluation of its operands does not matter (\<open>Ra_Sound\<close>). The liveness walk
  (\<open>ra_ev_walk\<close>) visits the operands of a binary operator from left to right, the selector (\<open>ir_binop\<close>)
  evaluates the right one first; the example loop of \<open>Ra_Live\<close> shows what the difference does where the
  order matters.
\<close>

section \<open>The emitted code of a colored body\<close>

text \<open>Like \<open>follows\<close>, for what can be seen from outside: the memory, the stack and the returned value.\<close>

definition returns_as :: "menv \<Rightarrow> instr list \<Rightarrow> u32 \<Rightarrow> promotion \<Rightarrow> ir_item list \<Rightarrow> istate \<Rightarrow> mstate \<Rightarrow> bool" where
  "returns_as E code fp \<rho> its \<sigma> s \<longleftrightarrow>
     (\<exists>r \<sigma>' s'. item_steps (me_target E) fp \<rho> its (At 0 \<sigma>) (Done r \<sigma>') \<and>
        m_runs E code (0, s) (length code - 1, s') \<and> m_mem s' = st_mem \<sigma>' \<and> m_stack s' = m_stack s \<and>
        (\<forall>v \<in> set_option r. m_reg s' 0 = v)) \<or>
     (\<forall>k. \<exists>i \<sigma>' pc s'. (item_step (me_target E) fp \<rho> its ^^ k) (At 0 \<sigma>) (At i \<sigma>') \<and>
        m_runs E code (0, s) (pc, s') \<and> m_mem s' = st_mem \<sigma>' \<and> m_stack s' = m_stack s)"

lemma follows_colored:
  assumes f: "follows E code fp (ra_promotion (fst st) regs) (clean_items Q) \<sigma> s"
    and c: "colored st regs Q" and m: "match_cfg st regs Q (At 0 \<sigma>) (At 0 \<tau>)"
  shows "returns_as E code fp (ra_promotion (fst st) (private_regs regs)) (clean_items Q) \<tau> s"
proof -
  let ?r = "ra_promotion (fst st) regs" and ?p = "ra_promotion (fst st) (private_regs regs)" and ?its = "clean_items Q"
  have fin: "\<exists>\<tau>'. item_steps (me_target E) fp ?p ?its (At 0 \<tau>) (Done r \<tau>') \<and> st_mem \<tau>' = st_mem \<sigma>'"
    if "item_steps (me_target E) fp ?r ?its (At 0 \<sigma>) (Done r \<sigma>')" for r \<sigma>'
    using match_steps [OF c that m] match_Done by blast
  have mid: "\<exists>\<tau>'. (item_step (me_target E) fp ?p ?its ^^ k) (At 0 \<tau>) (At i \<tau>') \<and> st_mem \<tau>' = st_mem \<sigma>'"
    if "(item_step (me_target E) fp ?r ?its ^^ k) (At 0 \<sigma>) (At i \<sigma>')" for k i \<sigma>'
    using match_power [OF c that m] match_At by blast
  have agree_mem: "m_mem s' = st_mem \<sigma>'" if "agree fp \<sigma>' s'" for \<sigma>' s' using that by (simp add: agree_def)
  from f [unfolded follows_def] show ?thesis
  proof
    assume fini: "\<exists>r \<sigma>' s'. item_steps (me_target E) fp ?r ?its (At 0 \<sigma>) (Done r \<sigma>') \<and>
        m_runs E code (0, s) (length code - 1, s') \<and> agree fp \<sigma>' s' \<and> m_stack s' = m_stack s \<and>
        (\<forall>v \<in> set_option r. m_reg s' 0 = v)"
    obtain r \<sigma>' s' where a: "item_steps (me_target E) fp ?r ?its (At 0 \<sigma>) (Done r \<sigma>')"
      "m_runs E code (0, s) (length code - 1, s')" "agree fp \<sigma>' s'" "m_stack s' = m_stack s"
      "\<forall>v \<in> set_option r. m_reg s' 0 = v" using fini by blast
    obtain \<tau>' where t: "item_steps (me_target E) fp ?p ?its (At 0 \<tau>) (Done r \<tau>')" "st_mem \<tau>' = st_mem \<sigma>'"
      using fin [OF a(1)] by blast
    then show ?thesis
      unfolding returns_as_def using a(2,4,5) agree_mem [OF a(3)]
      by (intro disjI1 exI [of _ r] exI [of _ \<tau>'] exI [of _ s'] conjI) simp_all
  next
    assume inf: "\<forall>k. \<exists>i \<sigma>' pc s'. (item_step (me_target E) fp ?r ?its ^^ k) (At 0 \<sigma>) (At i \<sigma>') \<and>
        m_runs E code (0, s) (pc, s') \<and> agree fp \<sigma>' s' \<and> m_stack s' = m_stack s"
    have "\<exists>i \<sigma>' pc s'. (item_step (me_target E) fp ?p ?its ^^ k) (At 0 \<tau>) (At i \<sigma>') \<and>
        m_runs E code (0, s) (pc, s') \<and> m_mem s' = st_mem \<sigma>' \<and> m_stack s' = m_stack s" for k
    proof -
      obtain i \<sigma>' pc s' where a: "(item_step (me_target E) fp ?r ?its ^^ k) (At 0 \<sigma>) (At i \<sigma>')"
        "m_runs E code (0, s) (pc, s')" "agree fp \<sigma>' s'" "m_stack s' = m_stack s" using inf by blast
      obtain \<tau>' where t: "(item_step (me_target E) fp ?p ?its ^^ k) (At 0 \<tau>) (At i \<tau>')" "st_mem \<tau>' = st_mem \<sigma>'"
        using mid [OF a(1)] by blast
      then show ?thesis using a(2,4) agree_mem [OF a(3)] 
        by (intro exI [of _ i] exI [of _ \<tau>'] exI [of _ pc] exI [of _ s'] conjI) simp_all
    qed
    then show ?thesis unfolding returns_as_def by blast
  qed
qed

text \<open>
  C25: the code of a body colored at \<open>-O3\<close>, when the order of its operands does not matter (\<open>items_ok\<close>). The emitted
  code, with the variables in the shared registers of the coloring, returns with the stack as it was, and
  with a memory and a value in D0 that the optimized items allow when every promoted variable has a
  register of its own; or it runs for ever along an infinite run of those items.
\<close>

theorem colored_body_correct:
  assumes n: "length (fst st) \<le> 256" "P \<noteq> []"
    and r: "ra_color_global st (ir_optimize P) (body_blocks 3 P) = Some (regs, hi)"
    and ok: "items_ok st regs (ir_optimize P)" and start: "live_agree regs (entry_live st P) \<sigma> \<tau>"
    and l: "labels_fresh fn u P" "labels_ok P" and E: "runtime_ok E"
    and wf: "\<forall>it \<in> set P. wf_item (ra_promotion (fst st) regs) it" and s: "agree fp \<sigma> s"
  shows "returns_as E (emit_body 3 (ra_promotion (fst st) regs) fn P u) fp
    (ra_promotion (fst st) (private_regs regs)) (ir_optimize P) \<tau> s"
proof -
  obtain Q where q: "ir_optimize P = clean_items Q" "colored st regs Q" "match_cfg st regs Q (At 0 \<sigma>) (At 0 \<tau>)"
    using colored_start [OF n r ok start] .
  have "follows E (emit_body 3 (ra_promotion (fst st) regs) fn P u) fp (ra_promotion (fst st) regs) (clean_items Q) \<sigma> s"
    using body_follows [OF l(1) body_labels_ok [OF l(2)] E wf s, of 3] q(1) by (simp add: body_items_def)
  from follows_colored [OF this q(2,3)] show ?thesis unfolding q(1) .
qed

lemma share_labels: "labels_ok share_items" "labels_fresh ''h'' 0 share_items"
proof -
  show "labels_ok share_items" by code_simp
  have "''loop'' \<notin> gen_labels 0 m" for m
    by (auto simp: gen_labels_def tile_prefixes_def uid_label_def)
  then show "labels_fresh ''h'' 0 share_items" by (simp add: labels_fresh_def share_items_def unused_from_def)
qed

lemma share_wf: "\<forall>it \<in> set share_items. wf_item (ra_promotion (fst share_state) [2, 2]) it"
  by (simp add: share_items_def wf_item_def ord_var_def reg_ok_def saved_regs_def binop_kinds_def)

lemma colored_body_correct_witness:
  "returns_as demo_env (emit_body 3 (ra_promotion (fst share_state) [2, 2]) ''h'' share_items 0) 0
     (ra_promotion (fst share_state) (private_regs [2, 2])) share_items share_start (demo_state 0 share_start)"
proof -
  have "length (fst share_state) \<le> 256" "share_items \<noteq> []" by (simp_all add: share_state_def share_items_def)
  moreover have "live_agree [2, 2] L share_start share_start" for L by (simp add: live_agree_def share_start_def)
  ultimately show ?thesis
    using colored_body_correct [OF _ _ share_colored _ _ share_labels(2,1) demo_runtime share_wf demo_agree, of share_start]
      share_item_ok unfolding share_optimized by blast
qed

section \<open>The example, compiled\<close>

definition ord_promotion :: promotion where
  "ord_promotion = ra_promotion (fst ord_state) [2, 2, 3]"

text \<open>The statement \<open>s = x + (y = 3)\<close>.\<close>

definition ord_stmt :: ir_expr where "ord_stmt = IE_STORE (ord_var 2 (- 12)) ord_sum 4 False"

lemma ord_promotion: "ord_promotion 0 = 2" "ord_promotion 1 = 2" "ord_promotion 2 = 3"
  by code_simp+

lemma ord_promotion' [simp]: "ord_promotion 0 = 2" "ord_promotion (Suc 0) = 2" "ord_promotion 2 = 3"
  using ord_promotion by simp_all

lemma ord_tile: "fst (tile_expr 3 ord_promotion ord_stmt 0) =
   [I_moveq 3 0, I_move SzL (Reg 0) (Reg 2), I_push, I_move SzL (Reg 2) (Reg 0), I_pop 1, I_alu Op_add (Reg 1),
    I_move SzL (Reg 0) (Reg 3)]"
  by code_simp

lemma load_other: "load_val 4 False (store_val 4 m 0xFF8 v) 0xFFC = load_val 4 False m 0xFFC"
  by (simp add: load_val_def store_val_def ld32_def ld16_def st32_def st16_def)

section \<open>Main theorem\<close>

text \<open>
  C22: an operand that stores a variable clobbers the other operand. In a loop with \<open>s = x + (y = 3)\<close> the
  coloring gives \<open>x\<close> and \<open>y\<close> the register D2, because it takes the use of \<open>x\<close> to come before the store
  of \<open>y\<close>; the selected code stores \<open>y\<close> first, so \<open>s\<close> (in D3) becomes 6 whatever \<open>x\<close> is. The value of the
  expression in C, with the variables in memory, is \<open>x + 3\<close> in either order of evaluation.
\<close>

theorem operand_order_clobbers:
  "ra_color_global ord_state ord_items (ir_build_cfg ord_items) = Some ([2, 2, 3], 3) \<and>
   (\<exists>s'. exec E (fst (tile_expr 3 (ra_promotion (fst ord_state) [2, 2, 3]) ord_stmt 0)) s = Some s' \<and> m_reg s' 3 = 6) \<and>
   fst ` evals T 0x1000 no_promo ord_sum \<sigma> = {load_val 4 False (st_mem \<sigma>) 0xFFC + 3}"
proof (intro conjI)
  show "ra_color_global ord_state ord_items (ir_build_cfg ord_items) = Some ([2, 2, 3], 3)" by (rule ord_colored)
  show "\<exists>s'. exec E (fst (tile_expr 3 (ra_promotion (fst ord_state) [2, 2, 3]) ord_stmt 0)) s = Some s' \<and> m_reg s' 3 = 6"
    unfolding ord_promotion_def [symmetric] ord_tile by (simp add: on_d0_def)
  show "fst ` evals T 0x1000 no_promo ord_sum \<sigma> = {load_val 4 False (st_mem \<sigma>) 0xFFC + 3}"
    by (simp add: ord_sum_def ord_var_def binop_val_def load_other)
qed

end
