(* ===== verification/Unicode.thy ===== *)
theory Unicode
  imports C68k_Prelude
begin

text \<open>
  Characters and encodings (\<open>src/unicode.c\<close>): UTF-8, the characters of identifiers, and the display
  width that error messages are aligned with. A pointer into a text is the rest of the text from there
  on; the terminating NUL is the end of the list, and the pointer after it is \<open>None\<close>.
\<close>

section \<open>Texts and errors\<close>

type_synonym src = bytes

text \<open>\<open>error_at\<close>, which ends the compiler with a message at a place, and a read past the end of the text.\<close>

datatype src_error = Error_at src string | Overrun

definition ch :: "char \<Rightarrow> u8" where "ch c = of_char c"

text \<open>\<open>p[0]\<close>, and \<open>p + 1\<close>.\<close>

definition cur :: "src \<Rightarrow> u8" where "cur p = (case p of [] \<Rightarrow> 0 | b # q \<Rightarrow> b)"

definition after :: "src \<Rightarrow> src option" where "after p = (case p of [] \<Rightarrow> None | b # q \<Rightarrow> Some q)"

lemma cur_simps [simp]: "cur [] = 0" "cur (b # q) = b"
  by (simp_all add: cur_def)

lemma after_simps [simp]: "after [] = None" "after (b # q) = Some q"
  by (simp_all add: after_def)

section \<open>UTF-8\<close>

definition encode_utf8 :: "u32 \<Rightarrow> src" where
  "encode_utf8 c =
     (if c \<le> 0x7F then [ucast c]
      else if c \<le> 0x7FF then [ucast (0xC0 OR drop_bit 6 c), ucast (0x80 OR (c AND 0x3F))]
      else if c \<le> 0xFFFF then
        [ucast (0xE0 OR drop_bit 12 c), ucast (0x80 OR (drop_bit 6 c AND 0x3F)), ucast (0x80 OR (c AND 0x3F))]
      else
        [ucast (0xF0 OR drop_bit 18 c), ucast (0x80 OR (drop_bit 12 c AND 0x3F)),
         ucast (0x80 OR (drop_bit 6 c AND 0x3F)), ucast (0x80 OR (c AND 0x3F))])"

definition bad_utf8 :: "src \<Rightarrow> src_error + 'a" where
  "bad_utf8 p = Inl (Error_at p ''invalid UTF-8 sequence'')"

text \<open>The loop over the continuation bytes, \<open>k\<close> of them left.\<close>

fun decode_tail :: "src \<Rightarrow> nat \<Rightarrow> u32 \<Rightarrow> src \<Rightarrow> src_error + (u32 \<times> src)" where
  "decode_tail start 0 c p = Inr (c, p)"
| "decode_tail start (Suc k) c [] = bad_utf8 start"
| "decode_tail start (Suc k) c (b # p) =
     (if drop_bit 6 b \<noteq> 2 then bad_utf8 start else decode_tail start k (push_bit 6 c OR (ucast b AND 0x3F)) p)"

definition decode_utf8 :: "src \<Rightarrow> src_error + (u32 \<times> src option)" where
  "decode_utf8 p =
     (if cur p < 128 then Inr (ucast (cur p), after p)
      else
        bind_res
          (if 0xF0 \<le> cur p then decode_tail p 3 (ucast (cur p) AND 7) (tl p)
           else if 0xE0 \<le> cur p then decode_tail p 2 (ucast (cur p) AND 15) (tl p)
           else if 0xC0 \<le> cur p then decode_tail p 1 (ucast (cur p) AND 31) (tl p)
           else bad_utf8 p)
          (\<lambda>(c, q). Inr (c, Some q)))"

section \<open>Classes of characters\<close>

text \<open>A table of ranges ends with -1.\<close>

fun in_range :: "u32 list \<Rightarrow> u32 \<Rightarrow> bool" where
  "in_range [] c = False"
| "in_range [a] c = False"
| "in_range (a # b # r) c = (a \<noteq> - 1 \<and> (a \<le> c \<and> c \<le> b \<or> in_range r c))"

definition ident1_range :: "u32 list" where
  "ident1_range = [
    95, 95, 97, 122, 65, 90, 36, 36, 0x00A8, 0x00A8, 0x00AA, 0x00AA, 0x00AD, 0x00AD, 0x00AF, 0x00AF,
    0x00B2, 0x00B5, 0x00B7, 0x00BA, 0x00BC, 0x00BE, 0x00C0, 0x00D6, 0x00D8, 0x00F6, 0x00F8, 0x00FF,
    0x0100, 0x02FF, 0x0370, 0x167F, 0x1681, 0x180D, 0x180F, 0x1DBF, 0x1E00, 0x1FFF, 0x200B, 0x200D,
    0x202A, 0x202E, 0x203F, 0x2040, 0x2054, 0x2054, 0x2060, 0x206F, 0x2070, 0x20CF, 0x2100, 0x218F,
    0x2460, 0x24FF, 0x2776, 0x2793, 0x2C00, 0x2DFF, 0x2E80, 0x2FFF, 0x3004, 0x3007, 0x3021, 0x302F,
    0x3031, 0x303F, 0x3040, 0xD7FF, 0xF900, 0xFD3D, 0xFD40, 0xFDCF, 0xFDF0, 0xFE1F, 0xFE30, 0xFE44,
    0xFE47, 0xFFFD, 0x10000, 0x1FFFD, 0x20000, 0x2FFFD, 0x30000, 0x3FFFD, 0x40000, 0x4FFFD, 0x50000,
    0x5FFFD, 0x60000, 0x6FFFD, 0x70000, 0x7FFFD, 0x80000, 0x8FFFD, 0x90000, 0x9FFFD, 0xA0000, 0xAFFFD,
    0xB0000, 0xBFFFD, 0xC0000, 0xCFFFD, 0xD0000, 0xDFFFD, 0xE0000, 0xEFFFD, - 1]"

definition is_ident1 :: "u32 \<Rightarrow> bool" where "is_ident1 c = in_range ident1_range c"

definition ident2_range :: "u32 list" where
  "ident2_range = [
    48, 57, 36, 36, 0x0300, 0x036F, 0x1DC0, 0x1DFF, 0x20D0, 0x20FF, 0xFE20, 0xFE2F, - 1]"

definition is_ident2 :: "u32 \<Rightarrow> bool" where "is_ident2 c \<longleftrightarrow> is_ident1 c \<or> in_range ident2_range c"

definition zero_width :: "u32 list" where
  "zero_width = [
    0x0000, 0x001F, 0x007f, 0x00a0, 0x0300, 0x036F, 0x0483, 0x0486, 0x0488, 0x0489, 0x0591, 0x05BD,
    0x05BF, 0x05BF, 0x05C1, 0x05C2, 0x05C4, 0x05C5, 0x05C7, 0x05C7, 0x0600, 0x0603, 0x0610, 0x0615,
    0x064B, 0x065E, 0x0670, 0x0670, 0x06D6, 0x06E4, 0x06E7, 0x06E8, 0x06EA, 0x06ED, 0x070F, 0x070F,
    0x0711, 0x0711, 0x0730, 0x074A, 0x07A6, 0x07B0, 0x07EB, 0x07F3, 0x0901, 0x0902, 0x093C, 0x093C,
    0x0941, 0x0948, 0x094D, 0x094D, 0x0951, 0x0954, 0x0962, 0x0963, 0x0981, 0x0981, 0x09BC, 0x09BC,
    0x09C1, 0x09C4, 0x09CD, 0x09CD, 0x09E2, 0x09E3, 0x0A01, 0x0A02, 0x0A3C, 0x0A3C, 0x0A41, 0x0A42,
    0x0A47, 0x0A48, 0x0A4B, 0x0A4D, 0x0A70, 0x0A71, 0x0A81, 0x0A82, 0x0ABC, 0x0ABC, 0x0AC1, 0x0AC5,
    0x0AC7, 0x0AC8, 0x0ACD, 0x0ACD, 0x0AE2, 0x0AE3, 0x0B01, 0x0B01, 0x0B3C, 0x0B3C, 0x0B3F, 0x0B3F,
    0x0B41, 0x0B43, 0x0B4D, 0x0B4D, 0x0B56, 0x0B56, 0x0B82, 0x0B82, 0x0BC0, 0x0BC0, 0x0BCD, 0x0BCD,
    0x0C3E, 0x0C40, 0x0C46, 0x0C48, 0x0C4A, 0x0C4D, 0x0C55, 0x0C56, 0x0CBC, 0x0CBC, 0x0CBF, 0x0CBF,
    0x0CC6, 0x0CC6, 0x0CCC, 0x0CCD, 0x0CE2, 0x0CE3, 0x0D41, 0x0D43, 0x0D4D, 0x0D4D, 0x0DCA, 0x0DCA,
    0x0DD2, 0x0DD4, 0x0DD6, 0x0DD6, 0x0E31, 0x0E31, 0x0E34, 0x0E3A, 0x0E47, 0x0E4E, 0x0EB1, 0x0EB1,
    0x0EB4, 0x0EB9, 0x0EBB, 0x0EBC, 0x0EC8, 0x0ECD, 0x0F18, 0x0F19, 0x0F35, 0x0F35, 0x0F37, 0x0F37,
    0x0F39, 0x0F39, 0x0F71, 0x0F7E, 0x0F80, 0x0F84, 0x0F86, 0x0F87, 0x0F90, 0x0F97, 0x0F99, 0x0FBC,
    0x0FC6, 0x0FC6, 0x102D, 0x1030, 0x1032, 0x1032, 0x1036, 0x1037, 0x1039, 0x1039, 0x1058, 0x1059,
    0x1160, 0x11FF, 0x135F, 0x135F, 0x1712, 0x1714, 0x1732, 0x1734, 0x1752, 0x1753, 0x1772, 0x1773,
    0x17B4, 0x17B5, 0x17B7, 0x17BD, 0x17C6, 0x17C6, 0x17C9, 0x17D3, 0x17DD, 0x17DD, 0x180B, 0x180D,
    0x18A9, 0x18A9, 0x1920, 0x1922, 0x1927, 0x1928, 0x1932, 0x1932, 0x1939, 0x193B, 0x1A17, 0x1A18,
    0x1B00, 0x1B03, 0x1B34, 0x1B34, 0x1B36, 0x1B3A, 0x1B3C, 0x1B3C, 0x1B42, 0x1B42, 0x1B6B, 0x1B73,
    0x1DC0, 0x1DCA, 0x1DFE, 0x1DFF, 0x200B, 0x200F, 0x202A, 0x202E, 0x2060, 0x2063, 0x206A, 0x206F,
    0x20D0, 0x20EF, 0x302A, 0x302F, 0x3099, 0x309A, 0xA806, 0xA806, 0xA80B, 0xA80B, 0xA825, 0xA826,
    0xFB1E, 0xFB1E, 0xFE00, 0xFE0F, 0xFE20, 0xFE23, 0xFEFF, 0xFEFF, 0xFFF9, 0xFFFB, 0x10A01, 0x10A03,
    0x10A05, 0x10A06, 0x10A0C, 0x10A0F, 0x10A38, 0x10A3A, 0x10A3F, 0x10A3F, 0x1D167, 0x1D169, 0x1D173,
    0x1D182, 0x1D185, 0x1D18B, 0x1D1AA, 0x1D1AD, 0x1D242, 0x1D244, 0xE0001, 0xE0001, 0xE0020, 0xE007F,
    0xE0100, 0xE01EF, - 1]"

definition wide :: "u32 list" where
  "wide = [
    0x1100, 0x115F, 0x2329, 0x2329, 0x232A, 0x232A, 0x2E80, 0x303E, 0x3040, 0xA4CF, 0xAC00, 0xD7A3,
    0xF900, 0xFAFF, 0xFE10, 0xFE19, 0xFE30, 0xFE6F, 0xFF00, 0xFF60, 0xFFE0, 0xFFE6, 0x1F000, 0x1F644,
    0x20000, 0x2FFFD, 0x30000, 0x3FFFD, - 1]"

definition char_width :: "u32 \<Rightarrow> nat" where
  "char_width c = (if in_range zero_width c then 0 else if in_range wide c then 2 else 1)"

lemma decode_tail_length: "decode_tail st k c p = Inr (d, q) \<Longrightarrow> length q + k = length p"
  by (induction st k c p rule: decode_tail.induct) (auto simp: bad_utf8_def split: if_splits)

text \<open>A character is at least one byte; \<open>gone\<close> counts the bytes between two pointers.\<close>

definition gone :: "src \<Rightarrow> src option \<Rightarrow> nat" where
  "gone p q = (case q of None \<Rightarrow> Suc (length p) | Some r \<Rightarrow> length p - length r)"

lemma decode_gone: "decode_utf8 p = Inr (c, q) \<Longrightarrow> 0 < gone p q \<and> (\<forall>r. q = Some r \<longrightarrow> length r < length p)"
  by (cases p) (auto simp: decode_utf8_def res_simps gone_def bad_utf8_def dest!: decode_tail_length split: if_splits)

lemma bind_res_cong [fundef_cong]:
  "r = r' \<Longrightarrow> (\<And>a. r' = Inr a \<Longrightarrow> f a = f' a) \<Longrightarrow> bind_res r f = bind_res r' f'"
  by (cases r) auto

text \<open>The loop of \<open>display_width\<close> with \<open>k\<close> bytes to go; \<open>p\<close> is \<open>None\<close> past the terminator.\<close>

function width_loop :: "src option \<Rightarrow> nat \<Rightarrow> nat \<Rightarrow> src_error + nat" where
  "width_loop p k w =
     (if k = 0 then Inr w
      else case p of None \<Rightarrow> Inl Overrun
      | Some t \<Rightarrow> bind_res (decode_utf8 t) (\<lambda>(c, q).
          width_loop q (k - gone t q) (w + char_width c)))"
  by pat_completeness auto
termination
  by (relation "measure (\<lambda>(p, k, w). k)") (auto dest: decode_gone)

declare width_loop.simps [simp del]

definition display_width :: "src \<Rightarrow> nat \<Rightarrow> src_error + nat" where
  "display_width p len = width_loop (Some p) len 0"

section \<open>Round trip\<close>

lemma mask6: "(0x3F :: u32) = mask 6"
  by (simp add: mask_eq_exp_minus_1)

lemma small_cases:
  assumes "(x :: u32) < 32"
  shows "x \<in> {0, 1, 2, 3, 4, 5, 6, 7, 8, 9, 10, 11, 12, 13, 14, 15, 16, 17, 18, 19, 20, 21, 22, 23, 24, 25, 26, 27, 28, 29, 30, 31}"
proof -
  have "unat x < 32" using assms by (simp add: word_less_nat_alt)
  then have "unat x \<in> set [0..<32]" by simp
  then have "x \<in> of_nat ` set [0..<32]" by (rule image_eqI [rotated]) simp
  then show ?thesis by (simp add: upt_rec)
qed

text \<open>A lead byte of two, three or four bytes.\<close>

lemma lead2: "x < 32 \<Longrightarrow> 0xC0 \<le> (ucast (0xC0 OR x) :: u8) \<and> (ucast (0xC0 OR x) :: u8) < 0xE0 \<and>
    (ucast (ucast (0xC0 OR x) :: u8) :: u32) AND 31 = x" for x :: u32
  by (drule small_cases) (elim insertE emptyE; simp)

lemma lead3: "x < 16 \<Longrightarrow> 0xE0 \<le> (ucast (0xE0 OR x) :: u8) \<and> (ucast (0xE0 OR x) :: u8) < 0xF0 \<and>
    (ucast (ucast (0xE0 OR x) :: u8) :: u32) AND 15 = x" for x :: u32
  by (frule order_less_trans [of x 16 32], simp, drule small_cases) (elim insertE emptyE; simp)

lemma lead4: "x < 8 \<Longrightarrow> 0xF0 \<le> (ucast (0xF0 OR x) :: u8) \<and>
    (ucast (ucast (0xF0 OR x) :: u8) :: u32) AND 7 = x" for x :: u32
  by (frule order_less_trans [of x 8 32], simp, drule small_cases) (elim insertE emptyE; simp)

text \<open>A continuation byte.\<close>

lemma trail: "drop_bit 6 (ucast (0x80 OR (z AND 0x3F)) :: u8) = 2"
    "(ucast (ucast (0x80 OR (z AND 0x3F)) :: u8) :: u32) AND 0x3F = z AND 0x3F" for z :: u32
proof -
  have n: "n \<in> {0, 1, 2, 3, 4, 5, 6, 7}" if "n < 8" for n :: nat using that by auto
  show "drop_bit 6 (ucast (0x80 OR (z AND 0x3F)) :: u8) = 2"
  proof (rule bit_word_eqI)
    fix m assume "m < LENGTH(8)"
    then have "m \<in> {0, 1, 2, 3, 4, 5, 6, 7}" using n by simp
    then show "bit (drop_bit 6 (ucast (0x80 OR (z AND 0x3F)) :: u8)) m \<longleftrightarrow> bit (2 :: u8) m"
      by (elim insertE emptyE; simp add: bit_simps mask6)
  qed
  show "(ucast (ucast (0x80 OR (z AND 0x3F)) :: u8) :: u32) AND 0x3F = z AND 0x3F"
  proof (rule bit_word_eqI)
    fix m assume "m < LENGTH(32)"
    show "bit ((ucast (ucast (0x80 OR (z AND 0x3F)) :: u8) :: u32) AND 0x3F) m \<longleftrightarrow> bit (z AND 0x3F) m"
    proof (cases "m < 6")
      case True
      then have "m \<in> {0, 1, 2, 3, 4, 5}" by auto
      then show ?thesis by (elim insertE emptyE; simp add: bit_simps mask6)
    qed (simp add: bit_simps mask6)
  qed
qed

text \<open>The groups of six bits put together again.\<close>

lemma join6: "push_bit 6 (drop_bit (k + 6) c) OR (drop_bit k c AND 0x3F) = drop_bit k c" for c :: u32
  by (rule bit_word_eqI) (auto simp: bit_simps mask6 add.commute)

lemma join6_0: "push_bit 6 (drop_bit 6 c) OR (c AND 0x3F) = c" for c :: u32
  using join6 [of 0 c] by simp

lemma drop_less: "c < 2 ^ (n + k) \<Longrightarrow> n + k < 32 \<Longrightarrow> drop_bit n c < 2 ^ k" for c :: u32
proof -
  assume c: "c < 2 ^ (n + k)" and k: "n + k < 32"
  have p: "unat ((2::u32) ^ j) = 2 ^ j" if "j < 32" for j using that by transfer (simp add: take_bit_nat_eq_self nat_power_eq take_bit_int_eq_self)
  have "unat c < 2 ^ (n + k)" using c k p [of "n + k"] by (simp add: word_less_nat_alt)
  then have "unat c div 2 ^ n < 2 ^ k" by (simp add: power_add less_mult_imp_div_less mult.commute)
  moreover have "unat (drop_bit n c) = unat c div 2 ^ n"
    using p [of n] k by (simp add: drop_bit_eq_div unat_div_distrib)
  ultimately show ?thesis using p [of k] k by (simp only: word_less_nat_alt)
qed

lemma decode2: "0xC0 \<le> b \<Longrightarrow> b < 0xE0 \<Longrightarrow> drop_bit 6 b1 = 2 \<Longrightarrow>
    decode_utf8 (b # b1 # r) = Inr (push_bit 6 (ucast b AND 31) OR (ucast b1 AND 0x3F), Some r)"
  by (subgoal_tac "\<not> b < 128 \<and> \<not> 0xF0 \<le> b \<and> \<not> 0xE0 \<le> b")
     (simp_all add: decode_utf8_def, simp add: word_le_nat_alt word_less_nat_alt)

lemma decode3: "0xE0 \<le> b \<Longrightarrow> b < 0xF0 \<Longrightarrow> drop_bit 6 b1 = 2 \<Longrightarrow> drop_bit 6 b2 = 2 \<Longrightarrow>
    decode_utf8 (b # b1 # b2 # r) =
      Inr (push_bit 6 (push_bit 6 (ucast b AND 15) OR (ucast b1 AND 0x3F)) OR (ucast b2 AND 0x3F), Some r)"
  by (subgoal_tac "\<not> b < 128 \<and> \<not> 0xF0 \<le> b")
     (simp_all add: decode_utf8_def numeral_2_eq_2, simp add: word_le_nat_alt word_less_nat_alt)

lemma decode4: "0xF0 \<le> b \<Longrightarrow> drop_bit 6 b1 = 2 \<Longrightarrow> drop_bit 6 b2 = 2 \<Longrightarrow> drop_bit 6 b3 = 2 \<Longrightarrow>
    decode_utf8 (b # b1 # b2 # b3 # r) =
      Inr (push_bit 6 (push_bit 6 (push_bit 6 (ucast b AND 7) OR (ucast b1 AND 0x3F)) OR (ucast b2 AND 0x3F)) OR
        (ucast b3 AND 0x3F), Some r)"
  by (subgoal_tac "\<not> b < 128")
     (simp_all add: decode_utf8_def numeral_3_eq_3, simp add: word_le_nat_alt word_less_nat_alt)

lemma utf8_inverse:
  assumes "c < 0x200000"
  shows "decode_utf8 (encode_utf8 c @ r) = Inr (c, Some r)"
proof -
  consider "c \<le> 0x7F" | "0x7F < c" "c \<le> 0x7FF" | "0x7FF < c" "c \<le> 0xFFFF" | "0xFFFF < c" by fastforce
  then show ?thesis
  proof cases
    case 1
    have "unat c \<le> 127" using 1 by (simp add: word_le_nat_alt)
    then have "(ucast c :: u8) < 128" "ucast (ucast c :: u8) = c"
      by (simp_all add: word_less_nat_alt word_unat_eq_iff unsigned_ucast_eq unsigned_take_bit_eq take_bit_nat_eq_self)
    then show ?thesis using 1 by (simp add: encode_utf8_def decode_utf8_def)
  next
    case 2
    have "c < 2 ^ (6 + 5)" using 2(2) by (simp add: word_le_nat_alt word_less_nat_alt)
    from drop_less [OF this] have "drop_bit 6 c < 32" by simp
    note l = lead2 [OF this]
    have "encode_utf8 c @ r = ucast (0xC0 OR drop_bit 6 c) # ucast (0x80 OR (c AND 0x3F)) # r"
      using 2 by (simp add: encode_utf8_def not_le)
    then show ?thesis using decode2 [of "ucast (0xC0 OR drop_bit 6 c)"] l trail by (simp only: join6_0)
  next
    case 3
    have "c < 2 ^ (12 + 4)" using 3(2) by (simp add: word_le_nat_alt word_less_nat_alt)
    from drop_less [OF this] have "drop_bit 12 c < 16" by simp
    note l = lead3 [OF this]
    have n: "\<not> c \<le> 0x7F" "\<not> c \<le> 0x7FF" using 3 by (simp_all add: word_le_nat_alt word_less_nat_alt)
    have "encode_utf8 c @ r = ucast (0xE0 OR drop_bit 12 c) # ucast (0x80 OR (drop_bit 6 c AND 0x3F)) #
        ucast (0x80 OR (c AND 0x3F)) # r" using 3 n by (simp add: encode_utf8_def)
    moreover have "push_bit 6 (drop_bit 12 c) OR (drop_bit 6 c AND 0x3F) = drop_bit 6 c" using join6 [of 6 c] by simp
    ultimately show ?thesis using decode3 [of "ucast (0xE0 OR drop_bit 12 c)"] l trail by (simp only: join6_0)
  next
    case 4
    have "c < 2 ^ (18 + 3)" using assms by simp
    from drop_less [OF this] have "drop_bit 18 c < 8" by simp
    note l = lead4 [OF this]
    have "\<not> c \<le> 0x7F" "\<not> c \<le> 0x7FF" "\<not> c \<le> 0xFFFF" using 4 by (simp_all add: word_le_nat_alt word_less_nat_alt)
    then have "encode_utf8 c @ r = ucast (0xF0 OR drop_bit 18 c) # ucast (0x80 OR (drop_bit 12 c AND 0x3F)) #
        ucast (0x80 OR (drop_bit 6 c AND 0x3F)) # ucast (0x80 OR (c AND 0x3F)) # r" by (simp add: encode_utf8_def)
    moreover have "push_bit 6 (drop_bit 12 c) OR (drop_bit 6 c AND 0x3F) = drop_bit 6 c"
      "push_bit 6 (drop_bit 18 c) OR (drop_bit 12 c AND 0x3F) = drop_bit 12 c" using join6 [of 6 c] join6 [of 12 c] by simp_all
    ultimately show ?thesis using decode4 [of "ucast (0xF0 OR drop_bit 18 c)"] l trail by (simp only: join6_0)
  qed
qed

lemma encode_length: "1 \<le> length (encode_utf8 c) \<and> length (encode_utf8 c) \<le> 4"
  by (simp add: encode_utf8_def)

lemma width_loop_step:
  assumes "c < 0x200000"
  shows "width_loop (Some (encode_utf8 c @ r)) (length (encode_utf8 c) + k) w = width_loop (Some r) k (w + char_width c)"
proof -
  have "0 < length (encode_utf8 c)" by (rule less_le_trans [OF _ conjunct1 [OF encode_length]]) simp
  then show ?thesis using utf8_inverse [OF assms] by (subst width_loop.simps) (simp add: gone_def)
qed

lemma width_loop_chars:
  "\<forall>c \<in> set cs. c < 0x200000 \<Longrightarrow>
     width_loop (Some (concat (map encode_utf8 cs) @ r)) (length (concat (map encode_utf8 cs))) w = Inr (w + sum_list (map char_width cs))"
proof (induction cs arbitrary: w)
  case Nil
  then show ?case by (simp add: width_loop.simps)
next
  case (Cons c cs)
  then show ?case using width_loop_step [of c "concat (map encode_utf8 cs) @ r"] by simp
qed

text \<open>
  C30: UTF-8 round trip. A code point below \<open>0x200000\<close> is written as one to four bytes, and the decoder
  reads it back from them and stops right after, whatever follows.
\<close>

theorem utf8_roundtrip:
  assumes "c < 0x200000"
  shows "decode_utf8 (encode_utf8 c @ r) = Inr (c, Some r) \<and> 1 \<le> length (encode_utf8 c) \<and> length (encode_utf8 c) \<le> 4"
  using utf8_inverse [OF assms] encode_length by simp

lemma utf8_roundtrip_witness: "decode_utf8 (encode_utf8 0x20AC @ [0x41]) = Inr (0x20AC, Some [0x41])"
  using utf8_roundtrip [of "0x20AC" "[0x41]"] by simp

text \<open>
  the column that an error message points to is the sum of the widths of the characters before it,
  and the measuring does not read past the end of the text.
\<close>

theorem display_width_sum:
  assumes "\<forall>c \<in> set cs. c < 0x200000"
  shows "display_width (concat (map encode_utf8 cs) @ r) (length (concat (map encode_utf8 cs))) =
    Inr (sum_list (map char_width cs))"
  using width_loop_chars [OF assms] by (simp add: display_width_def)

lemma display_width_sum_witness:
  "display_width (concat (map encode_utf8 [0x41, 0x3042]) @ [0x42]) (length (concat (map encode_utf8 [0x41, 0x3042]))) =
     Inr (char_width 0x41 + char_width 0x3042)"
  using display_width_sum [of "[0x41, 0x3042]" "[0x42]"] by simp

end
