(* ===== verification/Source_Text.thy ===== *)
theory Source_Text
  imports Unicode
begin

text \<open>
  The text of a source file before it is cut into tokens (\<open>src/tokenize.c\<close>): the bytes that are read, the
  byte-order mark, line ends, continued lines and universal character names (\<open>tokenize_file\<close>), and the
  classes of characters (\<open>ctype.h\<close> in the C locale, where no byte above 127 is in a class).
\<close>

section \<open>Characters\<close>

definition is_digit_ch :: "u8 \<Rightarrow> bool" where "is_digit_ch c \<longleftrightarrow> 48 \<le> c \<and> c \<le> 57"

definition is_xdigit_ch :: "u8 \<Rightarrow> bool" where
  "is_xdigit_ch c \<longleftrightarrow> is_digit_ch c \<or> 65 \<le> c \<and> c \<le> 70 \<or> 97 \<le> c \<and> c \<le> 102"

definition is_alnum_ch :: "u8 \<Rightarrow> bool" where
  "is_alnum_ch c \<longleftrightarrow> is_digit_ch c \<or> 65 \<le> c \<and> c \<le> 90 \<or> 97 \<le> c \<and> c \<le> 122"

definition is_space_ch :: "u8 \<Rightarrow> bool" where "is_space_ch c \<longleftrightarrow> c = 32 \<or> 9 \<le> c \<and> c \<le> 13"

definition is_punct_ch :: "u8 \<Rightarrow> bool" where
  "is_punct_ch c \<longleftrightarrow> 33 \<le> c \<and> c \<le> 126 \<and> \<not> is_alnum_ch c"

text \<open>\<open>strncmp(p, q, strlen(q)) == 0\<close>.\<close>

definition startswith :: "src \<Rightarrow> string \<Rightarrow> bool" where
  "startswith p q \<longleftrightarrow> take (length q) p = bytes_of q"

definition from_hex :: "u8 \<Rightarrow> u32" where
  "from_hex c =
     (if 48 \<le> c \<and> c \<le> 57 then ucast c - 48
      else if 97 \<le> c \<and> c \<le> 102 then ucast c - 97 + 10
      else ucast c - 65 + 10)"

section \<open>The bytes of a file\<close>

text \<open>
  \<open>read_file\<close> adds a missing last newline; a text ends at its first NUL. The file itself is the argument.
\<close>

definition read_file :: "bytes \<Rightarrow> src" where
  "read_file bs = takeWhile (\<lambda>b. b \<noteq> 0) (if bs = [] \<or> last bs \<noteq> 10 then bs @ [10] else bs)"

definition skip_bom :: "src \<Rightarrow> src" where
  "skip_bom p = (if take 3 p = [0xEF, 0xBB, 0xBF] then drop 3 p else p)"

fun canonicalize_newline :: "src \<Rightarrow> src" where
  "canonicalize_newline [] = []"
| "canonicalize_newline (c # p) =
     (if c = 13 then 10 # (case p of d # q \<Rightarrow> if d = 10 then canonicalize_newline q else canonicalize_newline p
                                   | [] \<Rightarrow> canonicalize_newline p)
      else c # canonicalize_newline p)"

text \<open>\<open>n\<close> counts the newlines removed since the last one that was kept.\<close>

fun splice_lines :: "nat \<Rightarrow> src \<Rightarrow> src" where
  "splice_lines n [] = replicate n 10"
| "splice_lines n (c # p) =
     (if c = 92 \<and> cur p = 10 then splice_lines (Suc n) (tl p)
      else if c = 10 then 10 # replicate n 10 @ splice_lines 0 p
      else c # splice_lines n p)"

definition remove_backslash_newline :: "src \<Rightarrow> src" where
  "remove_backslash_newline p = splice_lines 0 p"

section \<open>Universal character names\<close>

text \<open>\<open>len\<close> hexadecimal digits; 0 when there are fewer.\<close>

fun read_universal :: "u32 \<Rightarrow> src \<Rightarrow> nat \<Rightarrow> u32" where
  "read_universal c p 0 = c"
| "read_universal c p (Suc len) =
     (if \<not> is_xdigit_ch (cur p) then 0 else read_universal (push_bit 4 c OR from_hex (cur p)) (tl p) len)"

definition read_universal_char :: "src \<Rightarrow> nat \<Rightarrow> u32" where
  "read_universal_char p len = read_universal 0 p len"

text \<open>The copy after a backslash at the very end runs over the terminator.\<close>

function convert_universal_chars :: "src \<Rightarrow> src_error + src" where
  "convert_universal_chars [] = Inr []"
| "convert_universal_chars (c # p) =
     (if startswith (c # p) [CHR 0x5C, CHR ''u''] then
        (let u = read_universal_char (drop 1 p) 4
         in if u \<noteq> 0 then bind_res (convert_universal_chars (drop 5 p)) (\<lambda>q. Inr (encode_utf8 u @ q))
            else bind_res (convert_universal_chars p) (\<lambda>q. Inr (c # q)))
      else if startswith (c # p) [CHR 0x5C, CHR ''U''] then
        (let u = read_universal_char (drop 1 p) 8
         in if u \<noteq> 0 then bind_res (convert_universal_chars (drop 9 p)) (\<lambda>q. Inr (encode_utf8 u @ q))
            else bind_res (convert_universal_chars p) (\<lambda>q. Inr (c # q)))
      else if c = 92 then
        (case p of [] \<Rightarrow> Inl Overrun
         | d # q \<Rightarrow> bind_res (convert_universal_chars q) (\<lambda>r. Inr (c # d # r)))
      else bind_res (convert_universal_chars p) (\<lambda>q. Inr (c # q)))"
  by pat_completeness auto
termination
  by (relation "measure length") auto

declare convert_universal_chars.simps(2) [simp del]

text \<open>What \<open>tokenize_file\<close> gives to the tokenizer.\<close>

definition file_text :: "bytes \<Rightarrow> src_error + src" where
  "file_text bs =
     convert_universal_chars (remove_backslash_newline (canonicalize_newline (skip_bom (read_file bs))))"

end
