(* ===== verification/Tokenize.thy ===== *)
theory Tokenize
  imports Source_Text Hashmap C_Types
begin

text \<open>
  The tokenizer (\<open>tokenize\<close> in \<open>src/tokenize.c\<close>): comments, white space, preprocessing numbers, string
  and character literals with their encodings, identifiers and punctuators, and the line numbers of the
  tokens. The location of a token is its offset in the text. \<open>error_at\<close> carries the place and the
  message; \<open>Overrun\<close> is a read past the terminating NUL.
\<close>

section \<open>Tokens\<close>

datatype (plugins only: code size) token_kind = TK_IDENT | TK_PUNCT | TK_KEYWORD | TK_STR | TK_NUM | TK_PP_NUM | TK_EOF

text \<open>The exact value of a floating constant: \<open>(m, b, e)\<close> is \<open>m * b ^ e\<close>; the host rounds it.\<close>

type_synonym fvalue = "nat \<times> nat \<times> int"

record token =
  tk_kind :: token_kind
  tk_val :: u64
  tk_fval :: fvalue
  tk_loc :: nat
  tk_len :: nat
  tk_ty :: "ctype option"
  tk_str :: bytes
  tk_line_no :: nat
  tk_at_bol :: bool
  tk_has_space :: bool

text \<open>The static flags of the tokenizer, and the supply of identities for new types.\<close>

record tk_state =
  at_bol :: bool
  has_space :: bool
  next_ty :: nat

text \<open>\<open>n\<close> is the length of the whole text; \<open>p\<close> and \<open>q\<close> are its rests at the start and the end of the token.\<close>

definition new_token :: "nat \<Rightarrow> token_kind \<Rightarrow> src \<Rightarrow> src \<Rightarrow> tk_state \<Rightarrow> token \<times> tk_state" where
  "new_token n k p q st =
     (\<lparr>tk_kind = k, tk_val = 0, tk_fval = (0, 10, 0), tk_loc = n - length p, tk_len = length p - length q, tk_ty = None,
       tk_str = [], tk_line_no = 0, tk_at_bol = at_bol st, tk_has_space = has_space st\<rparr>,
      st\<lparr>at_bol := False, has_space := False\<rparr>)"

section \<open>Identifiers, punctuators and keywords\<close>

function ident_loop :: "src \<Rightarrow> src_error + src" where
  "ident_loop p =
     bind_res (decode_utf8 p) (\<lambda>(c, q).
       if \<not> is_ident2 c then Inr p else (case q of None \<Rightarrow> Inl Overrun | Some r \<Rightarrow> ident_loop r))"
  by pat_completeness auto
termination
  by (relation "measure length") (auto dest: decode_gone)

declare ident_loop.simps [simp del]

text \<open>The rest of the text after an identifier, the text itself when there is none.\<close>

definition read_ident :: "src \<Rightarrow> src_error + src" where
  "read_ident p =
     bind_res (decode_utf8 p) (\<lambda>(c, q).
       if \<not> is_ident1 c then Inr p else (case q of None \<Rightarrow> Inl Overrun | Some r \<Rightarrow> ident_loop r))"

definition puncts :: "string list" where
  "puncts = [''<<='', ''>>='', ''...'', ''=='', ''!='', ''<='', ''>='', ''->'', ''+='', ''-='', ''*='', ''/='', ''++'', ''--'',
     ''%='', ''&='', ''|='', ''^='', ''&&'', ''||'', ''<<'', ''>>'', ''##'']"

definition read_punct :: "src \<Rightarrow> nat" where
  "read_punct p =
     (case find (startswith p) puncts of Some k \<Rightarrow> length k | None \<Rightarrow> if is_punct_ch (cur p) then 1 else 0)"

definition kw_list :: "string list" where
  "kw_list = [''return'', ''if'', ''else'', ''for'', ''while'', ''int'', ''sizeof'', ''char'', ''struct'', ''union'', ''short'',
     ''long'', ''void'', ''typedef'', ''_Bool'', ''enum'', ''static'', ''goto'', ''break'', ''continue'', ''switch'', ''case'',
     ''default'', ''extern'', ''_Alignof'', ''_Alignas'', ''do'', ''signed'', ''unsigned'', ''const'', ''volatile'', ''auto'',
     ''register'', ''restrict'', ''__restrict'', ''__restrict__'', ''_Noreturn'', ''float'', ''double'', ''typeof'', ''asm'',
     ''_Thread_local'', ''__thread'', ''_Atomic'', ''__attribute__'']"

definition keyword_map :: "hm_error + nat hashmap" where
  "keyword_map =
     foldl (\<lambda>r kv. bind_res r (\<lambda>m. hashmap_put_val m (fst kv) (snd kv))) (Inr empty_hashmap) (map (\<lambda>k. (bytes_of k, 1)) kw_list)"

definition is_keyword :: "bytes \<Rightarrow> hm_error + bool" where
  "is_keyword s = bind_res (bind_res keyword_map (\<lambda>m. hashmap_get2 m s)) (\<lambda>r. Inr (r \<noteq> None))"

section \<open>Literals\<close>

fun octal_loop :: "nat \<Rightarrow> u32 \<Rightarrow> src \<Rightarrow> u32 \<times> src" where
  "octal_loop 0 c p = (c, p)"
| "octal_loop (Suc k) c p =
     (if 48 \<le> cur p \<and> cur p \<le> 55 then octal_loop k (push_bit 3 c + (ucast (cur p) - 48)) (tl p) else (c, p))"

fun hex_loop :: "u32 \<Rightarrow> src \<Rightarrow> u32 \<times> src" where
  "hex_loop c [] = (c, [])"
| "hex_loop c (b # p) = (if is_xdigit_ch b then hex_loop (push_bit 4 c + from_hex b) p else (c, b # p))"

text \<open>The escapes of one letter; another character stands for itself, as a signed \<open>char\<close>.\<close>

definition simple_escape :: "u8 \<Rightarrow> u32" where
  "simple_escape c =
     (if c = ch (CHR ''a'') then 7 else if c = ch (CHR ''b'') then 8 else if c = ch (CHR ''t'') then 9
      else if c = ch (CHR ''n'') then 10 else if c = ch (CHR ''v'') then 11 else if c = ch (CHR ''f'') then 12
      else if c = ch (CHR ''r'') then 13 else if c = ch (CHR ''e'') then 27 else scast c)"

definition read_escaped_char :: "src \<Rightarrow> src_error + (u32 \<times> src option)" where
  "read_escaped_char p =
     (if 48 \<le> cur p \<and> cur p \<le> 55 then
        (case octal_loop 3 0 p of (c, q) \<Rightarrow> Inr (c, Some q))
      else if cur p = ch (CHR ''x'') then
        (if \<not> is_xdigit_ch (cur (tl p)) then Inl (Error_at (tl p) ''invalid hex escape sequence'')
         else case hex_loop 0 (tl p) of (c, q) \<Rightarrow> Inr (c, Some q))
      else Inr (simple_escape (cur p), after p))"

text \<open>The closing quote, from the text after the opening one.\<close>

fun string_end :: "src \<Rightarrow> src \<Rightarrow> src_error + src" where
  "string_end start [] = Inl (Error_at start ''unclosed string literal'')"
| "string_end start (c # p) =
     (if c = 34 then Inr (c # p)
      else if c = 10 then Inl (Error_at start ''unclosed string literal'')
      else if c = 92 then (case p of [] \<Rightarrow> Inl Overrun | d # q \<Rightarrow> string_end start q)
      else string_end start p)"

text \<open>
  The loop over the characters before the closing quote, with \<open>n\<close> the length of the text from the quote
  on. \<open>rd\<close> reads one character that is not an escape as code units, \<open>unit\<close> makes one of an escape. The
  test that the reader moved forward makes the recursion total; all readers do.
\<close>

function (sequential) literal_units ::
  "(u32 \<Rightarrow> 'u) \<Rightarrow> (src \<Rightarrow> src_error + ('u list \<times> src option)) \<Rightarrow> nat \<Rightarrow> src option \<Rightarrow> src_error + 'u list" where
  "literal_units unit rd n None = Inr []"
| "literal_units unit rd n (Some p) =
     (if length p \<le> n then Inr []
      else bind_res
        (if cur p = 92 then bind_res (read_escaped_char (tl p)) (\<lambda>(c, q). Inr ([unit c], q)) else rd p)
        (\<lambda>(us, q). if (case q of None \<Rightarrow> True | Some r \<Rightarrow> length r < length p)
                  then bind_res (literal_units unit rd n q) (\<lambda>vs. Inr (us @ vs)) else Inl Overrun))"
  by pat_completeness auto
termination
  by (relation "measure (\<lambda>(unit, rd, n, p). case p of None \<Rightarrow> 0 | Some q \<Rightarrow> Suc (length q))") (auto split: option.splits)

declare literal_units.simps(2) [simp del]

definition byte_reader :: "src \<Rightarrow> src_error + (u8 list \<times> src option)" where
  "byte_reader p = Inr ([cur p], after p)"

definition utf16_reader :: "src \<Rightarrow> src_error + (u16 list \<times> src option)" where
  "utf16_reader p =
     bind_res (decode_utf8 p) (\<lambda>(c, q). Inr
       (if c < 0x10000 then [ucast c]
        else [0xD800 + ucast (drop_bit 10 (c - 0x10000) AND 0x3FF), 0xDC00 + ucast ((c - 0x10000) AND 0x3FF)], q))"

definition utf32_reader :: "src \<Rightarrow> src_error + (u32 list \<times> src option)" where
  "utf32_reader p = bind_res (decode_utf8 p) (\<lambda>(c, q). Inr ([c], q))"

text \<open>Code units in the order of the target, most significant byte first.\<close>

definition be16 :: "u16 \<Rightarrow> bytes" where "be16 v = [ucast (drop_bit 8 v), ucast v]"

definition be32 :: "u32 \<Rightarrow> bytes" where
  "be32 v = [ucast (drop_bit 24 v), ucast (drop_bit 16 v), ucast (drop_bit 8 v), ucast v]"

definition string_token ::
  "nat \<Rightarrow> src \<Rightarrow> src \<Rightarrow> ctype \<Rightarrow> nat \<Rightarrow> bytes \<Rightarrow> tk_state \<Rightarrow> token \<times> src \<times> tk_state" where
  "string_token n start q base len str st =
     (case new_token n TK_STR start q st of (t, st') \<Rightarrow>
        (t\<lparr>tk_ty := Some (array_of (next_ty st') base (int len + 1)), tk_str := str\<rparr>, q, st'\<lparr>next_ty := Suc (next_ty st')\<rparr>))"

text \<open>\<open>quote\<close> is the text from the opening quote on; the results are the token and the text after it.\<close>

definition read_string_literal :: "nat \<Rightarrow> src \<Rightarrow> src \<Rightarrow> tk_state \<Rightarrow> src_error + (token \<times> src \<times> tk_state)" where
  "read_string_literal n start quote st =
     bind_res (string_end (tl quote) (tl quote)) (\<lambda>e.
     bind_res (literal_units ucast byte_reader (length e) (Some (tl quote))) (\<lambda>us.
       Inr (string_token n start (tl e) ty_char (length us) (us @ [0]) st)))"

definition read_utf16_string_literal :: "nat \<Rightarrow> src \<Rightarrow> src \<Rightarrow> tk_state \<Rightarrow> src_error + (token \<times> src \<times> tk_state)" where
  "read_utf16_string_literal n start quote st =
     bind_res (string_end (tl quote) (tl quote)) (\<lambda>e.
     bind_res (literal_units ucast utf16_reader (length e) (Some (tl quote))) (\<lambda>us.
       Inr (string_token n start (tl e) ty_ushort (length us) (concat (map be16 (us @ [0]))) st)))"

definition read_utf32_string_literal :: "nat \<Rightarrow> src \<Rightarrow> src \<Rightarrow> ctype \<Rightarrow> tk_state \<Rightarrow> src_error + (token \<times> src \<times> tk_state)" where
  "read_utf32_string_literal n start quote ty st =
     bind_res (string_end (tl quote) (tl quote)) (\<lambda>e.
     bind_res (literal_units id utf32_reader (length e) (Some (tl quote))) (\<lambda>us.
       Inr (string_token n start (tl e) ty (length us) (concat (map be32 (us @ [0]))) st)))"

text \<open>\<open>strchr\<close>.\<close>

fun strchr :: "src \<Rightarrow> u8 \<Rightarrow> src option" where
  "strchr [] c = None"
| "strchr (b # p) c = (if b = c then Some (b # p) else strchr p c)"

definition read_char_literal :: "nat \<Rightarrow> src \<Rightarrow> src \<Rightarrow> ctype \<Rightarrow> tk_state \<Rightarrow> src_error + (token \<times> src \<times> tk_state)" where
  "read_char_literal n start quote ty st =
     (if cur (tl quote) = 0 then Inl (Error_at start ''unclosed char literal'')
      else bind_res (if cur (tl quote) = 92 then read_escaped_char (tl (tl quote)) else decode_utf8 (tl quote)) (\<lambda>(c, q).
        case q of None \<Rightarrow> Inl Overrun
        | Some p \<Rightarrow>
            (case strchr p 39 of None \<Rightarrow> Inl (Error_at p ''unclosed char literal'')
             | Some e \<Rightarrow>
                 (case new_token n TK_NUM start (tl e) st of (t, st') \<Rightarrow>
                    Inr (t\<lparr>tk_val := scast c, tk_ty := Some ty\<rparr>, tl e, st')))))"

section \<open>The main loop\<close>

text \<open>The newline that ends a line comment; without one the search runs over the terminator.\<close>

fun line_end :: "src \<Rightarrow> src option" where
  "line_end [] = None"
| "line_end (c # p) = (if c = 10 then Some (c # p) else line_end p)"

text \<open>\<open>strstr(p, "*/") + 2\<close>.\<close>

fun comment_end :: "src \<Rightarrow> src option" where
  "comment_end [] = None"
| "comment_end (c # p) = (if c = 42 \<and> cur p = 47 then Some (tl p) else comment_end p)"

fun pp_rest :: "src \<Rightarrow> src" where
  "pp_rest [] = []"
| "pp_rest (c # p) =
     (if c \<noteq> 0 \<and> cur p \<noteq> 0 \<and> c \<in> set (bytes_of ''eEpP'') \<and> cur p \<in> set (bytes_of ''+-'') then pp_rest (tl p)
      else if is_alnum_ch c \<or> c = 46 then pp_rest p
      else c # p)"

definition map_val :: "(u64 \<Rightarrow> u64) \<Rightarrow> token \<times> src \<times> tk_state \<Rightarrow> token \<times> src \<times> tk_state" where
  "map_val f r = (case r of (t, q, st) \<Rightarrow> (t\<lparr>tk_val := f (tk_val t)\<rparr>, q, st))"

text \<open>The string and character literals, \<open>None\<close> when \<open>p\<close> is none of them.\<close>

definition read_literal :: "nat \<Rightarrow> src \<Rightarrow> tk_state \<Rightarrow> (src_error + (token \<times> src \<times> tk_state)) option" where
  "read_literal n p st =
     (if cur p = 34 then Some (read_string_literal n p p st)
      else if startswith p ''u8\"'' then Some (read_string_literal n p (drop 2 p) st)
      else if startswith p ''u\"'' then Some (read_utf16_string_literal n p (drop 1 p) st)
      else if startswith p ''L\"'' then Some (read_utf32_string_literal n p (drop 1 p) ty_int st)
      else if startswith p ''U\"'' then Some (read_utf32_string_literal n p (drop 1 p) ty_uint st)
      else if cur p = 39 then
        Some (bind_res (read_char_literal n p p ty_int st) (\<lambda>r. Inr (map_val (\<lambda>v. scast (ucast v :: u8)) r)))
      else if startswith p [CHR ''u'', CHR 0x27] then
        Some (bind_res (read_char_literal n p (drop 1 p) ty_ushort st) (\<lambda>r. Inr (map_val (\<lambda>v. v AND 0xFFFF) r)))
      else if startswith p [CHR ''L'', CHR 0x27] then Some (read_char_literal n p (drop 1 p) ty_int st)
      else if startswith p [CHR ''U'', CHR 0x27] then Some (read_char_literal n p (drop 1 p) ty_uint st)
      else None)"

text \<open>One round of the loop: the token, if there is one, the text after it and the flags.\<close>

definition tok_step :: "nat \<Rightarrow> src \<Rightarrow> tk_state \<Rightarrow> src_error + (token option \<times> src \<times> tk_state)" where
  "tok_step n p st =
     (if startswith p ''//'' then
        (case line_end (drop 2 p) of None \<Rightarrow> Inl Overrun | Some q \<Rightarrow> Inr (None, q, st\<lparr>has_space := True\<rparr>))
      else if startswith p ''/*'' then
        (case comment_end (drop 2 p) of None \<Rightarrow> Inl (Error_at p ''unclosed block comment'')
         | Some q \<Rightarrow> Inr (None, q, st\<lparr>has_space := True\<rparr>))
      else if cur p = 10 then Inr (None, tl p, st\<lparr>at_bol := True, has_space := False\<rparr>)
      else if is_space_ch (cur p) then Inr (None, tl p, st\<lparr>has_space := True\<rparr>)
      else if is_digit_ch (cur p) \<or> cur p = 46 \<and> is_digit_ch (cur (tl p)) then
        (case new_token n TK_PP_NUM p (pp_rest (tl p)) st of (t, st') \<Rightarrow> Inr (Some t, pp_rest (tl p), st'))
      else case read_literal n p st of
        Some r \<Rightarrow> bind_res r (\<lambda>(t, q, st'). Inr (Some t, q, st'))
      | None \<Rightarrow>
          bind_res (read_ident p) (\<lambda>q.
            if length q < length p then (case new_token n TK_IDENT p q st of (t, st') \<Rightarrow> Inr (Some t, q, st'))
            else if read_punct p \<noteq> 0 then
              (case new_token n TK_PUNCT p (drop (read_punct p) p) st of (t, st') \<Rightarrow> Inr (Some t, drop (read_punct p) p, st'))
            else Inl (Error_at p ''invalid token'')))"

text \<open>Every round moves forward.\<close>

lemma line_end_length: "line_end p = Some q \<Longrightarrow> length q \<le> length p"
  by (induction p) (auto split: if_splits)

lemma comment_end_length: "comment_end p = Some q \<Longrightarrow> length q < length p"
  by (induction p) (auto split: if_splits)

lemma pp_rest_length: "length (pp_rest p) \<le> length p"
  by (induction p rule: pp_rest.induct) auto

lemma strchr_length: "strchr p c = Some q \<Longrightarrow> length q \<le> length p \<and> q \<noteq> []"
  by (induction p) (auto split: if_splits)

lemma string_end_length: "string_end st p = Inr q \<Longrightarrow> length q \<le> length p \<and> q \<noteq> []"
  by (induction st p rule: string_end.induct) (auto split: if_splits list.splits)

lemma octal_length: "octal_loop k c p = (d, q) \<Longrightarrow> length q \<le> length p"
  by (induction k c p rule: octal_loop.induct) (auto split: if_splits)

lemma hex_length: "hex_loop c p = (d, q) \<Longrightarrow> length q \<le> length p"
  by (induction c p rule: hex_loop.induct) (auto split: if_splits)

lemma escaped_length: "read_escaped_char p = Inr (c, Some q) \<Longrightarrow> length q \<le> length p"
  by (cases p) (auto simp: read_escaped_char_def dest: octal_length hex_length split: if_splits prod.splits)

lemma ident_loop_length: "ident_loop p = Inr q \<Longrightarrow> length q \<le> length p"
proof (induction p rule: ident_loop.induct)
  case (1 p)
  obtain c r where d: "decode_utf8 p = Inr (c, r)" using "1.prems" by (subst (asm) ident_loop.simps) (auto simp: res_simps)
  show ?case
  proof (cases "is_ident2 c")
    case True
    then obtain r' where r: "r = Some r'" "ident_loop r' = Inr q"
      using "1.prems" d by (subst (asm) ident_loop.simps) (auto split: option.splits)
    have "length q \<le> length r'" using "1.IH" [of "(c, r)" c r r'] d True r by simp
    then show ?thesis using decode_gone [OF d] r by simp
  next
    case False
    then show ?thesis using "1.prems" d by (subst (asm) ident_loop.simps) simp
  qed
qed

lemma read_ident_length: "read_ident p = Inr q \<Longrightarrow> length q \<le> length p"
  by (auto simp: read_ident_def res_simps split: if_splits option.splits dest!: ident_loop_length decode_gone)

lemma startswith_length: "startswith p q \<Longrightarrow> length q \<le> length p"
  by (simp add: startswith_def bytes_of_def) (metis length_map length_take min.cobounded1)

lemma string_token_rest [simp]: "fst (snd (string_token n p q b l s st)) = q"
  by (simp add: string_token_def split: prod.splits)

lemma tl_shorter: "length e \<le> length (tl r) \<Longrightarrow> e \<noteq> [] \<Longrightarrow> length (tl e) < length r"
  by (cases e; cases r) auto

lemma string_shorter: "string_end s (tl r) = Inr e \<Longrightarrow> length (tl e) < length r"
  by (rule tl_shorter) (auto dest: string_end_length)

lemma read_string_shorter:
  "read_string_literal n p r st = Inr (t, q, st') \<Longrightarrow> length q < length r"
  "read_utf16_string_literal n p r st = Inr (t, q, st') \<Longrightarrow> length q < length r"
  "read_utf32_string_literal n p r ty st = Inr (t, q, st') \<Longrightarrow> length q < length r"
  by (auto simp: read_string_literal_def read_utf16_string_literal_def read_utf32_string_literal_def res_simps
      string_token_def new_token_def dest: string_shorter)

lemma read_char_shorter:
  assumes "read_char_literal n p r ty st = Inr (t, q, st')"
  shows "length q < length r"
proof -
  obtain c p' e where b: "(if cur (tl r) = 92 then read_escaped_char (tl (tl r)) else decode_utf8 (tl r)) = Inr (c, Some p')"
    and e: "strchr p' 39 = Some e" "q = tl e"
    using assms by (auto simp: read_char_literal_def res_simps new_token_def split: if_splits option.splits)
  have "length p' \<le> length (tl r)"
    using b escaped_length [of "tl (tl r)" c p'] decode_gone [of "tl r" c "Some p'"] by (auto split: if_splits)
  then show ?thesis using strchr_length [OF e(1)] tl_shorter [of e r] e(2) by simp
qed

lemma map_val_Inr: "bind_res r (\<lambda>r. Inr (map_val f r)) = Inr (t, q, st') \<Longrightarrow> \<exists>t'. r = Inr (t', q, st')"
  by (cases r) (auto simp: map_val_def split: prod.splits)

lemma read_literal_shorter:
  assumes "read_literal n p st = Some (Inr (t, q, st'))"
  shows "length q < length p"
proof -
  have d: "length q < length (drop k p) \<Longrightarrow> length q < length p" for k by simp
  show ?thesis using assms
    by (auto simp: read_literal_def split: if_splits
        dest!: read_string_shorter read_char_shorter map_val_Inr)
qed

lemma tok_step_shorter:
  assumes "tok_step n p st = Inr (t, q, st')" "p \<noteq> []"
  shows "length q < length p"
proof -
  have t: "length (tl p) < length p" using assms(2) by (cases p) auto
  have "length (pp_rest (tl p)) < length p" using pp_rest_length [of "tl p"] t by simp
  moreover have "line_end (drop 2 p) = Some r \<Longrightarrow> length r < length p" if "startswith p ''//''" for r
    using line_end_length [of "drop 2 p" r] startswith_length [OF that] by simp
  moreover have "comment_end (drop 2 p) = Some r \<Longrightarrow> length r < length p" for r
    using comment_end_length [of "drop 2 p" r] by simp
  ultimately show ?thesis using assms t read_literal_shorter [of n p st]
    by (auto simp: tok_step_def res_simps new_token_def split: if_splits option.splits)
qed

function tok_loop :: "nat \<Rightarrow> src \<Rightarrow> tk_state \<Rightarrow> src_error + (token list \<times> tk_state)" where
  "tok_loop n p st =
     (if p = [] then (case new_token n TK_EOF p p st of (t, st') \<Rightarrow> Inr ([t], st'))
      else bind_res (tok_step n p st) (\<lambda>(t, q, st').
        bind_res (tok_loop n q st') (\<lambda>(ts, st''). Inr ((case t of None \<Rightarrow> ts | Some t \<Rightarrow> t # ts), st''))))"
  by pat_completeness auto
termination
  by (relation "measure (\<lambda>(n, p, st). length p)") (auto dest: tok_step_shorter)

declare tok_loop.simps [simp del]

text \<open>
  The line numbers: \<open>p\<close> walks over the text at offset \<open>i\<close> on line \<open>ln\<close>, the terminator included; the
  tokens are those not yet passed. \<open>None\<close> is the end of the list dereferenced.
\<close>

fun add_lines :: "nat \<Rightarrow> nat \<Rightarrow> src \<Rightarrow> token list \<Rightarrow> token list option" where
  "add_lines i ln p [] = None"
| "add_lines i ln [] (t # ts) = Some (if tk_loc t = i then t\<lparr>tk_line_no := ln\<rparr> # ts else t # ts)"
| "add_lines i ln (c # p) (t # ts) =
     (if tk_loc t = i
      then map_option ((#) (t\<lparr>tk_line_no := ln\<rparr>)) (add_lines (Suc i) (if c = 10 then Suc ln else ln) p ts)
      else add_lines (Suc i) (if c = 10 then Suc ln else ln) p (t # ts))"

definition tokenize :: "src \<Rightarrow> nat \<Rightarrow> src_error + (token list \<times> nat)" where
  "tokenize s ids =
     bind_res (tok_loop (length s) s \<lparr>at_bol = True, has_space = False, next_ty = ids\<rparr>) (\<lambda>(ts, st).
       case add_lines 0 1 s ts of None \<Rightarrow> Inl Overrun | Some us \<Rightarrow> Inr (us, next_ty st))"

definition tokenize_file :: "bytes \<Rightarrow> nat \<Rightarrow> src_error + (token list \<times> nat)" where
  "tokenize_file bs ids = bind_res (file_text bs) (\<lambda>s. tokenize s ids)"

section \<open>Operations on tokens\<close>

definition tok_text :: "src \<Rightarrow> token \<Rightarrow> bytes" where
  "tok_text s t = take (tk_len t) (drop (tk_loc t) s)"

definition tok_equal :: "src \<Rightarrow> token \<Rightarrow> string \<Rightarrow> bool" where
  "tok_equal s t op \<longleftrightarrow> tok_text s t = bytes_of op"

text \<open>The lists are the token and what follows it; \<open>error_tok\<close> reports at the token.\<close>

definition tok_skip :: "src \<Rightarrow> token list \<Rightarrow> string \<Rightarrow> src_error + token list" where
  "tok_skip s ts op =
     (case ts of [] \<Rightarrow> Inl Overrun
      | t # r \<Rightarrow> if \<not> tok_equal s t op then Inl (Error_at (drop (tk_loc t) s) (''expected '' @ op)) else Inr r)"

definition tok_consume :: "src \<Rightarrow> token list \<Rightarrow> string \<Rightarrow> bool \<times> token list" where
  "tok_consume s ts op =
     (case ts of [] \<Rightarrow> (False, []) | t # r \<Rightarrow> if tok_equal s t op then (True, r) else (False, t # r))"

text \<open>An adjacent string literal read again with the width of its neighbours.\<close>

definition tokenize_string_literal :: "src \<Rightarrow> token \<Rightarrow> ctype \<Rightarrow> tk_state \<Rightarrow> src_error + (token \<times> tk_state)" where
  "tokenize_string_literal s t base st =
     bind_res
       (if ty_size base = 2 then read_utf16_string_literal (length s) (drop (tk_loc t) s) (drop (tk_loc t) s) st
        else read_utf32_string_literal (length s) (drop (tk_loc t) s) (drop (tk_loc t) s) base st)
       (\<lambda>(u, q, st'). Inr (u, st'))"

end
