(* ===== verification/Tokenize_Spec.thy ===== *)
theory Tokenize_Spec
  imports Tokenize "HOL-Library.Sublist"
begin

text \<open>
  What the tokenizer promises: the tokens and the blanks between them are the whole text, in order, each
  with the number of its line; and a text that ends with a newline is never read past its end, which
  the phases before the tokenizer establish for every file without NUL bytes.
\<close>

section \<open>Every reader returns a rest of its text\<close>

named_theorems rest_of "the result of a reader is a suffix of its argument"

lemma suffix_tl [rest_of]: "suffix (tl p) p"
  by (cases p) (auto simp: suffix_ConsI)

lemma tl_suffix: "suffix q (tl p) \<Longrightarrow> suffix q p"
  using suffix_order.trans [OF _ suffix_tl] .

lemma decode_tail_rest: "decode_tail st k c p = Inr (d, q) \<Longrightarrow> suffix q p"
  by (induction st k c p rule: decode_tail.induct) (auto simp: bad_utf8_def intro: suffix_ConsI split: if_splits)

lemma decode_rest [rest_of]: "decode_utf8 p = Inr (c, Some q) \<Longrightarrow> suffix q p"
  by (cases p) (auto simp: decode_utf8_def res_simps bad_utf8_def intro!: suffix_ConsI dest!: decode_tail_rest split: if_splits)

lemma line_end_rest [rest_of]: "line_end p = Some q \<Longrightarrow> suffix q p"
  by (induction p) (auto intro: suffix_ConsI split: if_splits)

lemma pp_rest_rest [rest_of]: "suffix (pp_rest p) p"
  by (induction p rule: pp_rest.induct) (auto intro: suffix_ConsI [OF tl_suffix] suffix_ConsI)

lemma strchr_rest [rest_of]: "strchr p c = Some q \<Longrightarrow> suffix q p"
  by (induction p) (auto intro: suffix_ConsI split: if_splits)

lemma string_end_rest [rest_of]: "string_end st p = Inr q \<Longrightarrow> suffix q p"
  by (induction st p rule: string_end.induct) (auto intro: suffix_ConsI split: if_splits list.splits)

lemma octal_rest: "octal_loop k c p = (d, q) \<Longrightarrow> suffix q p"
  by (induction k c p rule: octal_loop.induct) (auto intro: tl_suffix split: if_splits)

lemma hex_rest: "hex_loop c p = (d, q) \<Longrightarrow> suffix q p"
  by (induction c p rule: hex_loop.induct) (auto intro: suffix_ConsI split: if_splits)

lemma escaped_rest [rest_of]: "read_escaped_char p = Inr (c, Some q) \<Longrightarrow> suffix q p"
  by (cases p) (auto simp: read_escaped_char_def dest!: octal_rest hex_rest intro: suffix_ConsI split: if_splits prod.splits)

lemma ident_loop_rest [rest_of]: "ident_loop p = Inr q \<Longrightarrow> suffix q p"
proof (induction p rule: ident_loop.induct)
  case (1 p)
  obtain c r where d: "decode_utf8 p = Inr (c, r)" using "1.prems" by (subst (asm) ident_loop.simps) (auto simp: res_simps)
  show ?case
  proof (cases "is_ident2 c")
    case True
    then obtain r' where r: "r = Some r'" "ident_loop r' = Inr q"
      using "1.prems" d by (subst (asm) ident_loop.simps) (auto split: option.splits)
    have "suffix q r'" using "1.IH" [of "(c, r)" c r r'] d True r by simp
    then show ?thesis using decode_rest [of p c r'] d r suffix_order.trans by blast
  next
    case False
    then show ?thesis using "1.prems" d by (subst (asm) ident_loop.simps) simp
  qed
qed

lemma read_ident_rest [rest_of]: "read_ident p = Inr q \<Longrightarrow> suffix q p"
  by (auto simp: read_ident_def res_simps split: if_splits option.splits
      dest!: ident_loop_rest decode_rest intro: suffix_order.trans)

text \<open>The token that \<open>new_token\<close> makes lies between its two rests.\<close>

definition token_between :: "nat \<Rightarrow> src \<Rightarrow> src \<Rightarrow> token \<Rightarrow> bool" where
  "token_between n p q t \<longleftrightarrow> suffix q p \<and> length q < length p \<and> tk_loc t = n - length p \<and> tk_len t = length p - length q \<and>
     tk_kind t \<noteq> TK_EOF"

lemma new_token_between:
  "new_token n k p q st = (t, st') \<Longrightarrow> suffix q p \<Longrightarrow> length q < length p \<Longrightarrow> k \<noteq> TK_EOF \<Longrightarrow> token_between n p q t"
  by (auto simp: new_token_def token_between_def)

lemma string_between:
  assumes "string_end s (tl r) = Inr e" "suffix r p" "string_token n p (tl e) b l u st = (t, q, st')"
  shows "token_between n p q t"
proof -
  have "length (tl e) < length r" using string_shorter [OF assms(1)] .
  moreover have "suffix (tl e) r"
    using string_end_rest [OF assms(1)] suffix_tl suffix_order.trans by metis
  ultimately show ?thesis using assms(2,3) suffix_length_le [OF assms(2)] suffix_order.trans
    by (auto simp: token_between_def string_token_def new_token_def)
qed

lemma read_string_between:
  "suffix r p \<Longrightarrow> read_string_literal n p r st = Inr (t, q, st') \<Longrightarrow> token_between n p q t"
  "suffix r p \<Longrightarrow> read_utf16_string_literal n p r st = Inr (t, q, st') \<Longrightarrow> token_between n p q t"
  "suffix r p \<Longrightarrow> read_utf32_string_literal n p r ty st = Inr (t, q, st') \<Longrightarrow> token_between n p q t"
  by (auto simp: read_string_literal_def read_utf16_string_literal_def read_utf32_string_literal_def res_simps
      dest: string_between)

lemma read_char_between:
  assumes "suffix r p" "read_char_literal n p r ty st = Inr (t, q, st')"
  shows "token_between n p q t"
proof -
  let ?c = "if cur (tl r) = 92 then read_escaped_char (tl (tl r)) else decode_utf8 (tl r)"
  obtain c p1 where c: "?c = Inr (c, p1)"
    using assms(2) by (auto simp: read_char_literal_def bind_res_Inr_iff split: if_splits)
  then obtain p' e where b: "?c = Inr (c, Some p')" and e: "strchr p' 39 = Some e"
    using assms(2) by (cases p1) (auto simp: read_char_literal_def split: if_splits option.splits)
  have e: "strchr p' 39 = Some e" "q = tl e" "tk_loc t = n - length p" "tk_len t = length p - length q" "tk_kind t = TK_NUM"
    using assms(2) b e by (auto simp: read_char_literal_def new_token_def split: if_splits)
  have "suffix p' r" using b escaped_rest decode_rest tl_suffix by (metis (no_types))
  then have "suffix q p" using strchr_rest [OF e(1)] e(2) assms(1) suffix_tl by (metis suffix_order.trans)
  moreover have "length q < length p"
    using read_char_shorter [OF assms(2)] suffix_length_le [OF assms(1)] by simp
  ultimately show ?thesis using e by (simp add: token_between_def)
qed

lemma map_val_between:
  "bind_res r (\<lambda>r. Inr (map_val f r)) = Inr (t, q, st') \<Longrightarrow>
     (\<And>t'. r = Inr (t', q, st') \<Longrightarrow> token_between n p q t') \<Longrightarrow> token_between n p q t"
  by (cases r) (auto simp: map_val_def token_between_def split: prod.splits)

lemma read_literal_between:
  assumes "read_literal n p st = Some (Inr (t, q, st'))"
  shows "token_between n p q t"
  using assms
  by (auto simp: read_literal_def suffix_drop split: if_splits
      dest!: read_string_between(1) [rotated] read_string_between(2) [rotated] read_string_between(3) [rotated] read_char_between [rotated]
      elim!: map_val_between)

section \<open>The gaps between tokens\<close>

text \<open>
  \<open>gap w q\<close>: \<open>w\<close> is blank in front of \<open>q\<close>, that is white space, line comments up to their newline and
  block comments up to the first \<open>*/\<close>.
\<close>

inductive gap :: "src \<Rightarrow> src \<Rightarrow> bool" where
  gap_Nil [intro]: "gap [] q"
| gap_space: "is_space_ch c \<Longrightarrow> gap w q \<Longrightarrow> gap (c # w) q"
| gap_line: "10 \<notin> set u \<Longrightarrow> cur (w @ q) = 10 \<Longrightarrow> gap w q \<Longrightarrow> gap (bytes_of ''//'' @ u @ w) q"
| gap_block: "comment_end (u @ bytes_of ''*/'') = Some [] \<Longrightarrow> gap w q \<Longrightarrow> gap (bytes_of ''/*'' @ u @ bytes_of ''*/'' @ w) q"

inductive_cases gap_ConsE: "gap (c # w) q"

text \<open>The tokens \<open>ts\<close> tile the text \<open>s\<close> from offset \<open>i\<close> on.\<close>

fun tiles :: "src \<Rightarrow> nat \<Rightarrow> token list \<Rightarrow> bool" where
  "tiles s i [] = False"
| "tiles s i (t # ts) \<longleftrightarrow>
     i \<le> tk_loc t \<and> gap (take (tk_loc t - i) (drop i s)) (drop (tk_loc t) s) \<and> tk_loc t + tk_len t \<le> length s \<and>
     (if ts = [] then tk_kind t = TK_EOF \<and> tk_loc t = length s \<and> tk_len t = 0
      else tk_kind t \<noteq> TK_EOF \<and> 0 < tk_len t \<and> tiles s (tk_loc t + tk_len t) ts)"

lemma line_end_split: "line_end p = Some q \<Longrightarrow> \<exists>u. p = u @ q \<and> 10 \<notin> set u \<and> cur q = 10"
proof (induction p)
  case (Cons c p)
  show ?case
  proof (cases "c = 10")
    case False
    then obtain u where "p = u @ q" "10 \<notin> set u" "cur q = 10" using Cons by auto
    then show ?thesis using False by (intro exI [of _ "c # u"]) auto
  qed (use Cons.prems in auto)
qed simp

lemma comment_end_split: "comment_end p = Some q \<Longrightarrow> \<exists>u. p = u @ bytes_of ''*/'' @ q \<and> comment_end (u @ bytes_of ''*/'') = Some []"
proof (induction p)
  case (Cons c p)
  show ?case
  proof (cases "c = 42 \<and> cur p = 47")
    case True
    then have "p = 47 # q" using Cons.prems by (cases p) auto
    then show ?thesis using True by (intro exI [of _ "[]"]) (simp add: bytes_of_def)
  next
    case False
    then obtain u where u: "p = u @ bytes_of ''*/'' @ q" "comment_end (u @ bytes_of ''*/'') = Some []" using Cons by auto
    have "cur p = cur (u @ bytes_of ''*/'')" by (cases u) (simp_all add: u bytes_of_def)
    then show ?thesis using False u by (intro exI [of _ "c # u"]) auto
  qed
qed simp

lemma startswith_split: "startswith p q \<Longrightarrow> p = bytes_of q @ drop (length q) p"
  unfolding startswith_def by (metis append_take_drop_id)

lemma tok_step_skip:
  assumes "tok_step n p st = Inr (None, q, st')" "p \<noteq> []"
  shows "\<exists>u. p = u @ q \<and> (\<forall>w r. q = w @ r \<longrightarrow> gap w r \<longrightarrow> gap (u @ w) r)"
proof -
  consider (line) "startswith p ''//''" "line_end (drop 2 p) = Some q"
    | (block) "startswith p ''/*''" "comment_end (drop 2 p) = Some q"
    | (space) "is_space_ch (cur p)" "q = tl p"
    using assms by (auto simp: tok_step_def res_simps is_space_ch_def new_token_def split: if_splits option.splits prod.splits)
  then show ?thesis
  proof cases
    case line
    obtain u where u: "drop 2 p = u @ q" "10 \<notin> set u" "cur q = 10" using line_end_split [OF line(2)] by blast
    have "p = (bytes_of ''//'' @ u) @ q" using startswith_split [OF line(1)] u(1) by (simp add: numeral_2_eq_2)
    moreover have "gap ((bytes_of ''//'' @ u) @ w) r" if "q = w @ r" "gap w r" for w r
      using gap_line [OF u(2) _ that(2)] u(3) that(1) by simp
    ultimately show ?thesis by blast
  next
    case block
    obtain u where u: "drop 2 p = u @ bytes_of ''*/'' @ q" "comment_end (u @ bytes_of ''*/'') = Some []"
      using comment_end_split [OF block(2)] by blast
    have "p = (bytes_of ''/*'' @ u @ bytes_of ''*/'') @ q" using startswith_split [OF block(1)] u(1) by (simp add: numeral_2_eq_2)
    moreover have "gap ((bytes_of ''/*'' @ u @ bytes_of ''*/'') @ w) r" if "gap w r" for w r
      using gap_block [OF u(2) that] by simp
    ultimately show ?thesis by blast
  next
    case space
    then have "p = [cur p] @ q" using assms(2) by (cases p) auto
    moreover have "gap ([cur p] @ w) r" if "gap w r" for w r using gap_space [OF space(1) that] by simp
    ultimately show ?thesis by blast
  qed
qed

lemma tok_step_token:
  assumes "tok_step n p st = Inr (Some t, q, st')" "p \<noteq> []"
  shows "token_between n p q t"
proof -
  have s: "length q < length p" using tok_step_shorter [OF assms] .
  have "suffix (pp_rest (tl p)) p" using pp_rest_rest tl_suffix by blast
  then show ?thesis using assms(1) s
    by (auto simp: tok_step_def res_simps suffix_drop split: if_splits option.splits prod.splits
        intro: new_token_between read_ident_rest read_literal_between)
qed

lemma tok_step_rest [rest_of]:
  assumes "tok_step n p st = Inr (t, q, st')" "p \<noteq> []"
  shows "suffix q p"
proof (cases t)
  case None
  then show ?thesis using tok_step_skip [of n p st q st'] assms by (auto simp: suffix_def)
next
  case (Some u)
  then show ?thesis using tok_step_token [of n p st u q st'] assms by (auto simp: token_between_def)
qed

lemma tok_loop_tiles:
  assumes "tok_loop (length s) p st = Inr (ts, st')" "suffix p s"
  shows "tiles s (length s - length p) ts"
  using assms
proof (induction "length s" p st arbitrary: ts st' rule: tok_loop.induct)
  case (1 p st)
  show ?case
  proof (cases "p = []")
    case True
    then show ?thesis using "1.prems"(1) by (subst (asm) tok_loop.simps) (auto simp: new_token_def)
  next
    case False
    then obtain t q st1 us where r: "tok_step (length s) p st = Inr (t, q, st1)" "tok_loop (length s) q st1 = Inr (us, st')"
      "ts = (case t of None \<Rightarrow> us | Some t \<Rightarrow> t # us)"
      using "1.prems"(1) by (subst (asm) tok_loop.simps) (auto simp: res_simps)
    obtain z where z: "s = z @ p" using "1.prems"(2) by (auto simp: suffix_def)
    have sq: "suffix q p" using tok_step_rest r(1) False .
    then have ih: "tiles s (length s - length q) us"
      using "1.hyps" [OF False r(1)] r(2) "1.prems"(2) suffix_order.trans by blast
    show ?thesis
    proof (cases t)
      case None
      obtain u where u: "p = u @ q" "\<And>w r. q = w @ r \<Longrightarrow> gap w r \<Longrightarrow> gap (u @ w) r"
        using tok_step_skip [of "length s" p st q st1] r(1) None False by blast
      then show ?thesis using ih r(3) None z
        by (cases us) (auto simp: u(1))
    next
      case (Some v)
      have v: "token_between (length s) p q v" using tok_step_token [of "length s" p st v q st1] r(1) Some False by simp
      then show ?thesis using ih r(3) Some z by (cases us) (auto simp: token_between_def)
    qed
  qed
qed

section \<open>Line numbers\<close>

definition line_of :: "src \<Rightarrow> nat \<Rightarrow> nat" where "line_of s i = Suc (count_list (take i s) 10)"

lemma tiles_locs:
  "tiles s i ts \<Longrightarrow> sorted_wrt (<) (map tk_loc ts) \<and> (\<forall>t \<in> set ts. i \<le> tk_loc t) \<and> ts \<noteq> [] \<and> tk_loc (last ts) = length s"
proof (induction s i ts rule: tiles.induct)
  case (2 s i t ts)
  then show ?case by (fastforce split: if_splits)
qed simp

lemma add_lines_eq:
  assumes "sorted_wrt (<) (map tk_loc ts)" "\<forall>t \<in> set ts. i \<le> tk_loc t" "ts \<noteq> []" "tk_loc (last ts) = i + length p"
  shows "add_lines i ln p ts = Some (map (\<lambda>t. t\<lparr>tk_line_no := ln + count_list (take (tk_loc t - i) p) 10\<rparr>) ts)"
  using assms
proof (induction i ln p ts rule: add_lines.induct)
  case (2 i ln t ts)
  have "ts = []"
  proof (rule ccontr)
    assume "ts \<noteq> []"
    then have "last ts \<in> set ts" by simp
    then have "tk_loc t < tk_loc (last ts)" using 2 by simp
    then show False using 2 \<open>ts \<noteq> []\<close> by simp
  qed
  then show ?case using 2 by simp
next
  case (3 i ln c p t ts)
  let ?ln = "if c = 10 then Suc ln else ln"
  have later: "\<forall>u \<in> set ts. tk_loc t < tk_loc u" using 3(3) by simp
  have cnt: "ln + count_list (take (tk_loc u - i) (c # p)) 10 = ?ln + count_list (take (tk_loc u - Suc i) p) 10"
    if "i < tk_loc u" for u
  proof -
    have "tk_loc u - i = Suc (tk_loc u - Suc i)" using that by simp
    then show ?thesis by simp
  qed
  have m: "map (\<lambda>t. t\<lparr>tk_line_no := ?ln + count_list (take (tk_loc t - Suc i) p) 10\<rparr>) us =
      map (\<lambda>t. t\<lparr>tk_line_no := ln + count_list (take (tk_loc t - i) (c # p)) 10\<rparr>) us" if "\<forall>u \<in> set us. i < tk_loc u" for us
  proof (rule map_cong [OF refl])
    fix u assume "u \<in> set us"
    then have "i < tk_loc u" using that by blast
    then show "u\<lparr>tk_line_no := ?ln + count_list (take (tk_loc u - Suc i) p) 10\<rparr> =
      u\<lparr>tk_line_no := ln + count_list (take (tk_loc u - i) (c # p)) 10\<rparr>" by (simp only: cnt)
  qed
  show ?case
  proof (cases "tk_loc t = i")
    case True
    then have ne: "ts \<noteq> []" using 3(6) by auto
    have "add_lines (Suc i) ?ln p ts = Some (map (\<lambda>t. t\<lparr>tk_line_no := ?ln + count_list (take (tk_loc t - Suc i) p) 10\<rparr>) ts)"
      using 3(1) [OF True] 3(3,6) ne True later by (simp add: Suc_le_eq)
    then show ?thesis using True later m [of ts] by simp
  next
    case False
    then have i: "i < tk_loc t" using 3(4) by simp
    have lt: "\<forall>u \<in> set ts. i < tk_loc u" using i later by auto
    have "add_lines (Suc i) ?ln p (t # ts) = Some (map (\<lambda>t. t\<lparr>tk_line_no := ?ln + count_list (take (tk_loc t - Suc i) p) 10\<rparr>) (t # ts))"
      using 3(2) [OF False] 3(3,6) i later lt by (simp add: Suc_le_eq)
    moreover have "\<forall>u \<in> set (t # ts). i < tk_loc u" using i lt by simp
    moreover have "add_lines i ln (c # p) (t # ts) = add_lines (Suc i) ?ln p (t # ts)" using False by simp
    ultimately show ?thesis by (simp only: m)
  qed
qed simp

lemma tiles_lines: "tiles s i (map (\<lambda>t. t\<lparr>tk_line_no := f t\<rparr>) ts) = tiles s i ts"
  by (induction s i ts rule: tiles.induct) auto

lemma tokenize_parts:
  assumes "tokenize s ids = Inr (ts, ids')"
  shows "\<exists>us. tiles s 0 us \<and> ts = map (\<lambda>t. t\<lparr>tk_line_no := line_of s (tk_loc t)\<rparr>) us"
proof -
  obtain us st where l: "tok_loop (length s) s \<lparr>at_bol = True, has_space = False, next_ty = ids\<rparr> = Inr (us, st)"
    and a: "add_lines 0 1 s us = Some ts"
    using assms by (auto simp: tokenize_def res_simps split: option.splits)
  have t: "tiles s 0 us" using tok_loop_tiles [OF l] by simp
  then show ?thesis using add_lines_eq [of us 0 s 1] tiles_locs [OF t] a by (intro exI [of _ us]) (simp add: line_of_def)
qed

lemma tokenize_example:
  "case tokenize (bytes_of ''if/**/7'' @ [10]) 0 of
     Inl e \<Rightarrow> False
   | Inr (ts, i) \<Rightarrow> i = 0 \<and> map tk_kind ts = [TK_IDENT, TK_PP_NUM, TK_EOF] \<and> map tk_line_no ts = [1, 1, 2]"
  by code_simp

text \<open>
  C27: the tokens tile the text. When the tokenizer returns, its tokens are pieces of the text in order, not
  empty and not overlapping, the text between two of them is blank (white space, line comments, block
  comments up to their first end), the last one is the end-of-file token at the end of the text, and
  each has the number of the line that it starts on.
\<close>

theorem tokenize_tiles:
  assumes "tokenize s ids = Inr (ts, ids')"
  shows "tiles s 0 ts \<and> (\<forall>t \<in> set ts. tk_line_no t = line_of s (tk_loc t))"
  using tokenize_parts [OF assms] by (auto simp: tiles_lines)

theorem tokenize_tiles_witness:
  "case tokenize (bytes_of ''if/**/7'' @ [10]) 0 of
     Inl e \<Rightarrow> False
   | Inr (ts, i) \<Rightarrow> map tk_line_no ts = [1, 1, 2] \<and> tiles (bytes_of ''if/**/7'' @ [10]) 0 ts \<and>
       list_all (\<lambda>t. tk_line_no t = line_of (bytes_of ''if/**/7'' @ [10]) (tk_loc t)) ts"
  using tokenize_example tokenize_tiles [of "bytes_of ''if/**/7'' @ [10]" 0]
  by (auto simp: list_all_iff split: sum.splits)

section \<open>No read past the end\<close>

lemma bind_res_Inl_iff [res_simps]: "bind_res r f = Inl e \<longleftrightarrow> r = Inl e \<or> (\<exists>a. r = Inr a \<and> f a = Inl e)"
  by (cases r) auto

text \<open>A rest of a text whose last character is a newline.\<close>

definition nl_ended :: "src \<Rightarrow> bool" where "nl_ended p \<longleftrightarrow> p = [] \<or> last p = 10"

lemma nl_ended_simps [simp]: "nl_ended []" "nl_ended [c] \<longleftrightarrow> c = 10"
  by (auto simp: nl_ended_def)

lemma nl_suffix: "suffix q p \<Longrightarrow> nl_ended p \<Longrightarrow> nl_ended q"
  by (cases "q = []") (auto simp: suffix_def nl_ended_def)

lemma nl_Cons: "nl_ended (c # p) \<Longrightarrow> nl_ended p"
  by (rule nl_suffix) (simp_all add: suffix_ConsI)

lemma nl_tl: "nl_ended p \<Longrightarrow> nl_ended (tl p)"
  by (rule nl_suffix [OF suffix_tl])

lemma nl_tl_nonempty: "nl_ended p \<Longrightarrow> p \<noteq> [] \<Longrightarrow> cur p \<noteq> 10 \<Longrightarrow> tl p \<noteq> []"
  by (cases p; cases "tl p") auto

named_theorems no_overrun

lemma decode_no_overrun [no_overrun]: "decode_utf8 p \<noteq> Inl Overrun"
proof -
  have "decode_tail st k c q \<noteq> Inl Overrun" for st k c q
    by (induction st k c q rule: decode_tail.induct) (auto simp: bad_utf8_def)
  then show ?thesis by (auto simp: decode_utf8_def res_simps bad_utf8_def)
qed

lemma decode_past: "decode_utf8 p = Inr (c, None) \<Longrightarrow> p = [] \<and> c = 0"
  by (cases p) (auto simp: decode_utf8_def res_simps bad_utf8_def split: if_splits)

lemma nul_no_ident: "\<not> is_ident1 0" "\<not> is_ident2 0"
  by code_simp+

lemma ident_loop_no_overrun [no_overrun]: "ident_loop p \<noteq> Inl Overrun"
proof (induction p rule: ident_loop.induct)
  case (1 p)
  show ?case
  proof (cases "decode_utf8 p")
    case (Inl e)
    then show ?thesis using decode_no_overrun [of p] by (subst ident_loop.simps) auto
  next
    case (Inr r)
    obtain c q where r: "r = (c, q)" by force
    show ?thesis
    proof (cases "is_ident2 c")
      case True
      then obtain s where s: "q = Some s" using decode_past [of p c] Inr r nul_no_ident by (cases q) auto
      then have "ident_loop s \<noteq> Inl Overrun" using "1.IH" [OF Inr r [symmetric]] True by auto
      then show ?thesis using Inr r s True by (subst ident_loop.simps) simp
    next
      case False
      then show ?thesis using Inr r by (subst ident_loop.simps) simp
    qed
  qed
qed

lemma read_ident_no_overrun [no_overrun]: "read_ident p \<noteq> Inl Overrun"
  using decode_past [of p] nul_no_ident
  by (auto simp: read_ident_def res_simps no_overrun split: if_splits option.splits)

lemma escaped_no_overrun [no_overrun]: "read_escaped_char p \<noteq> Inl Overrun"
  by (auto simp: read_escaped_char_def split: prod.splits)

lemma escaped_past: "read_escaped_char p = Inr (c, None) \<Longrightarrow> p = []"
  by (cases p) (auto simp: read_escaped_char_def split: if_splits prod.splits)

lemma string_end_no_overrun: "nl_ended p \<Longrightarrow> string_end st p \<noteq> Inl Overrun"
proof (induction st p rule: string_end.induct)
  case (2 start c p)
  have "nl_ended p" using 2 by (auto dest: nl_Cons)
  with 2 show ?case by (cases p) (auto dest: nl_Cons split: if_splits)
qed simp

lemma literal_units_no_overrun:
  assumes rd: "\<And>p. rd p \<noteq> Inl Overrun" "\<And>p us r. rd p = Inr (us, Some r) \<Longrightarrow> length r < length p"
  shows "literal_units u rd n p \<noteq> Inl Overrun"
  using rd
proof (induction u rd n p rule: literal_units.induct)
  case (2 u rd n p)
  let ?r = "if cur p = 92 then bind_res (read_escaped_char (tl p)) (\<lambda>(c, q). Inr ([u c], q)) else rd p"
  show ?case
  proof (cases "length p \<le> n")
    case False
    have ne: "?r \<noteq> Inl Overrun" using 2(2) by (auto simp: res_simps no_overrun)
    show ?thesis
    proof (cases ?r)
      case (Inl e)
      then show ?thesis using False ne by (subst literal_units.simps) auto
    next
      case (Inr a)
      obtain us q where a: "a = (us, q)" by force
      have f: "case q of None \<Rightarrow> True | Some r \<Rightarrow> length r < length p"
      proof (cases q)
        case (Some r)
        have "length (tl p) < length p" using False by (cases p) auto
        then show ?thesis using Inr a Some 2(3) escaped_length [of "tl p" _ r]
          by (fastforce simp: res_simps split: if_splits)
      qed simp
      have "literal_units u rd n q \<noteq> Inl Overrun" by (rule 2(1) [OF False Inr a [symmetric] f]) (fact 2(2), erule 2(3))
      then show ?thesis using False Inr a f by (subst literal_units.simps) (auto simp: res_simps)
    qed
  qed (subst literal_units.simps, simp)
qed simp

lemma readers_forward:
  "byte_reader p \<noteq> Inl Overrun" "byte_reader p = Inr (us, Some r) \<Longrightarrow> length r < length p"
  "utf16_reader p \<noteq> Inl Overrun" "utf16_reader p = Inr (vs, Some r) \<Longrightarrow> length r < length p"
  "utf32_reader p \<noteq> Inl Overrun" "utf32_reader p = Inr (ws, Some r) \<Longrightarrow> length r < length p"
  by (cases p; auto simp: byte_reader_def utf16_reader_def utf32_reader_def res_simps no_overrun dest: decode_gone)+

lemma read_string_no_overrun:
  assumes "nl_ended r"
  shows "read_string_literal n p r st \<noteq> Inl Overrun" "read_utf16_string_literal n p r st \<noteq> Inl Overrun"
    "read_utf32_string_literal n p r ty st \<noteq> Inl Overrun"
  using string_end_no_overrun [OF nl_tl [OF assms]]
    literal_units_no_overrun [of byte_reader, OF readers_forward(1,2)]
    literal_units_no_overrun [of utf16_reader, OF readers_forward(3,4)]
    literal_units_no_overrun [of utf32_reader, OF readers_forward(5,6)]
  by (auto simp: read_string_literal_def read_utf16_string_literal_def read_utf32_string_literal_def res_simps)

lemma read_char_no_overrun:
  assumes "nl_ended r" "r \<noteq> []" "cur r \<noteq> 10"
  shows "read_char_literal n p r ty st \<noteq> Inl Overrun"
proof -
  have t: "tl r \<noteq> []" "nl_ended (tl r)" using nl_tl_nonempty assms nl_tl by blast+
  have "tl (tl r) \<noteq> []" if "cur (tl r) = 92" using nl_tl_nonempty [OF t(2,1)] that by simp
  then have past: "(if cur (tl r) = 92 then read_escaped_char (tl (tl r)) else decode_utf8 (tl r)) \<noteq> Inr (c, None)" for c
    using escaped_past [of "tl (tl r)" c] decode_past [of "tl r" c] t by auto
  have no: "(if cur (tl r) = 92 then read_escaped_char (tl (tl r)) else decode_utf8 (tl r)) \<noteq> Inl Overrun"
    by (simp add: no_overrun)
  show ?thesis
  proof
    assume "read_char_literal n p r ty st = Inl Overrun"
    then obtain c q where c: "(if cur (tl r) = 92 then read_escaped_char (tl (tl r)) else decode_utf8 (tl r)) = Inr (c, q)"
      and "q = None" using no by (auto simp: read_char_literal_def bind_res_Inl_iff split: if_splits option.splits prod.splits)
    then show False using past by blast
  qed
qed

lemma startswith_nonempty: "startswith p (c # k) \<Longrightarrow> p \<noteq> [] \<and> cur p = word_of_nat (of_char c) \<and> startswith (tl p) k"
  by (cases p) (auto simp: startswith_def bytes_of_def)

lemma read_literal_no_overrun:
  assumes "nl_ended p"
  shows "read_literal n p st \<noteq> Some (Inl Overrun)"
proof -
  have d: "nl_ended (drop k p)" for k using nl_suffix [OF suffix_drop assms] .
  have c1: "drop 1 p \<noteq> []" "cur (drop 1 p) \<noteq> 10" if "startswith p [c, CHR 0x27]" for c
    using startswith_nonempty [OF that] startswith_nonempty [of "tl p" "CHR 0x27" "[]"] by (auto simp: drop_Suc)
  have c0: "p \<noteq> []" "cur p \<noteq> 10" if "cur p = 39" using that by (auto simp: cur_def)
  show ?thesis
    unfolding read_literal_def
    using read_string_no_overrun [OF assms] read_string_no_overrun [OF d]
      read_char_no_overrun [OF assms c0] read_char_no_overrun [OF d c1]
    by (auto simp: bind_res_Inl_iff split: if_splits)
qed

lemma line_end_nl: "nl_ended p \<Longrightarrow> p \<noteq> [] \<Longrightarrow> \<exists>q. line_end p = Some q"
  by (induction p) (auto simp: nl_ended_def split: if_splits)

lemma tok_step_no_overrun:
  assumes "nl_ended p"
  shows "tok_step n p st \<noteq> Inl Overrun"
proof -
  have l: "\<exists>q. line_end (drop 2 p) = Some q" if s: "startswith p ''//''"
  proof -
    note a = startswith_nonempty [OF s] 
    note b = startswith_nonempty [of "tl p", OF conjunct2 [OF conjunct2 [OF a]]]
    have "tl (tl p) \<noteq> []" using nl_tl_nonempty [OF nl_tl [OF assms]] b by simp
    then show ?thesis using line_end_nl [of "drop 2 p"] nl_tl [OF nl_tl [OF assms]] by (simp add: drop_Suc eval_nat_numeral)
  qed
  show ?thesis
    using l read_literal_no_overrun [OF assms, of n st] read_ident_no_overrun [of p]
    by (auto simp: tok_step_def bind_res_Inl_iff split: option.splits prod.splits if_splits)
qed

lemma tok_loop_no_overrun: "nl_ended p \<Longrightarrow> tok_loop n p st \<noteq> Inl Overrun"
proof (induction n p st rule: tok_loop.induct)
  case (1 n p st)
  show ?case
  proof (cases "p = []")
    case True
    then show ?thesis by (subst tok_loop.simps) (simp split: prod.splits)
  next
    case False
    show ?thesis
    proof (cases "tok_step n p st")
      case (Inl e)
      then show ?thesis using False tok_step_no_overrun [OF 1(2)] by (subst tok_loop.simps) auto
    next
      case (Inr a)
      obtain t q st' where a: "a = (t, q, st')" by (metis prod_cases3)
      have "nl_ended q" using nl_suffix [OF tok_step_rest 1(2)] Inr a False by blast
      then have "tok_loop n q st' \<noteq> Inl Overrun" using 1(1) [OF False Inr a [symmetric] refl] by simp
      then show ?thesis using False Inr a by (subst tok_loop.simps) (auto simp: bind_res_Inl_iff)
    qed
  qed
qed


lemma tokenize_no_overrun:
  assumes "nl_ended s"
  shows "tokenize s ids \<noteq> Inl Overrun"
proof
  assume "tokenize s ids = Inl Overrun"
  then obtain us st where l: "tok_loop (length s) s \<lparr>at_bol = True, has_space = False, next_ty = ids\<rparr> = Inr (us, st)"
    and a: "add_lines 0 1 s us = None"
    using tok_loop_no_overrun [OF assms] by (auto simp: tokenize_def bind_res_Inl_iff split: option.splits)
  have t: "tiles s 0 us" using tok_loop_tiles [OF l] by simp
  show False using add_lines_eq [of us 0 s 1] tiles_locs [OF t] a by simp
qed

section \<open>The phases before the tokenizer\<close>

lemma nl_ended_iff: "nl_ended (c # p) \<longleftrightarrow> (if p = [] then c = 10 else nl_ended p)"
  by (auto simp: nl_ended_def)

lemma nl_ended_append: "nl_ended q \<Longrightarrow> (q = [] \<Longrightarrow> nl_ended p) \<Longrightarrow> nl_ended (p @ q)"
  by (cases "q = []") (auto simp: nl_ended_def)

lemma nl_replicate [simp]: "nl_ended (replicate n 10)"
  by (cases n) (auto simp: nl_ended_def simp flip: replicate_append_same)

lemma canonicalize_nonempty: "p \<noteq> [] \<Longrightarrow> canonicalize_newline p \<noteq> []"
  by (cases p) auto

lemma canonicalize_newline_nl: "nl_ended p \<Longrightarrow> nl_ended (canonicalize_newline p)"
proof (induction p rule: canonicalize_newline.induct)
  case (2 c p)
  have k: "nl_ended p" using nl_Cons [OF 2(5)] .
  show ?case
  proof (cases "c = 13")
    case False
    then show ?thesis using 2(4) [OF False k] 2(5) canonicalize_nonempty [of p] by (auto simp: nl_ended_iff split: if_splits)
  next
    case True
    then have "p \<noteq> []" using 2(5) by auto
    then obtain d q where p: "p = d # q" by (cases p) auto
    show ?thesis
    proof (cases "d = 10")
      case t: True
      have "nl_ended (canonicalize_newline q)" using 2(2) [OF True p t] k p nl_Cons by blast
      then show ?thesis using True t p by (simp add: nl_ended_iff)
    next
      case f: False
      have "nl_ended (canonicalize_newline p)" using 2(3) [OF True p f] k by blast
      then show ?thesis using True f p by (simp add: nl_ended_iff)
    qed
  qed
qed simp

lemma splice_nonempty: "p \<noteq> [] \<or> 0 < n \<Longrightarrow> splice_lines n p \<noteq> []"
  by (induction n p rule: splice_lines.induct) auto

lemma splice_lines_nl: "nl_ended p \<Longrightarrow> nl_ended (splice_lines n p)"
proof (induction n p rule: splice_lines.induct)
  case (2 n c p)
  consider "c = 92" "cur p = 10" | "c = 10" "\<not> (c = 92 \<and> cur p = 10)" | "\<not> (c = 92 \<and> cur p = 10)" "c \<noteq> 10" by blast
  then show ?case
  proof cases
    case 1
    then show ?thesis using 2(1) 2(4) nl_tl [OF nl_Cons [OF 2(4)]] by simp
  next
    case n: 2
    then have "nl_ended (splice_lines 0 p)" using 2(2,4) nl_Cons by blast
    then have "nl_ended (replicate n 10 @ splice_lines 0 p)" by (intro nl_ended_append) simp_all
    then show ?thesis using n(1) by (simp add: nl_ended_iff)
  next
    case 3
    then show ?thesis using 2(3) [OF 3] 2(4) by (auto simp: nl_ended_iff splice_nonempty split: if_splits)
  qed
qed simp

lemma read_file_nl: "0 \<notin> set bs \<Longrightarrow> nl_ended (read_file bs)"
proof -
  assume b: "0 \<notin> set bs"
  have "takeWhile (\<lambda>b. b \<noteq> 0) cs = cs" if "0 \<notin> set cs" for cs :: bytes
    using that by (subst takeWhile_eq_all_conv) auto
  then have "read_file bs = (if bs = [] \<or> last bs \<noteq> 10 then bs @ [10] else bs)" using b by (simp add: read_file_def del: takeWhile_eq_all_conv)
  then show ?thesis by (auto simp: nl_ended_def)
qed

lemma skip_bom_nl: "nl_ended p \<Longrightarrow> nl_ended (skip_bom p)"
  using nl_suffix [OF suffix_drop] by (simp add: skip_bom_def)

lemma read_universal_digits: "read_universal c p k \<noteq> 0 \<Longrightarrow> k \<le> length p \<and> (\<forall>b \<in> set (take k p). is_xdigit_ch b)"
proof (induction c p k rule: read_universal.induct)
  case (2 c p k)
  have "p \<noteq> []" using 2 by (auto simp: is_xdigit_ch_def is_digit_ch_def)
  then show ?case using 2 by (cases p) (auto split: if_splits)
qed auto

lemma read_universal_nl:
  assumes "read_universal c p k \<noteq> 0" "nl_ended p" "0 < k"
  shows "nl_ended (drop k p)" "drop k p \<noteq> []"
proof -
  show "nl_ended (drop k p)" using nl_suffix [OF suffix_drop assms(2)] .
  show "drop k p \<noteq> []"
  proof
    assume "drop k p = []"
    then have t: "take k p = p" by simp
    then have p: "p \<noteq> []" "\<forall>b \<in> set p. is_xdigit_ch b" using read_universal_digits [OF assms(1)] assms(3) by auto
    then have "is_xdigit_ch (last p)" by simp
    then show False using assms(2) p(1) by (auto simp: nl_ended_def is_xdigit_ch_def is_digit_ch_def)
  qed
qed

lemma convert_nl_ended:
  "nl_ended p \<Longrightarrow> convert_universal_chars p \<noteq> Inl Overrun \<and>
     (\<forall>q. convert_universal_chars p = Inr q \<longrightarrow> nl_ended q \<and> (q = [] \<longleftrightarrow> p = []))"
proof (induction p rule: convert_universal_chars.induct)
  case (2 c p)
  let ?u = "startswith (c # p) [CHR 0x5C, CHR ''u'']" and ?U = "startswith (c # p) [CHR 0x5C, CHR ''U'']"
  have k: "nl_ended p" "nl_ended (drop 1 p)" using nl_Cons [OF 2(7)] nl_suffix [OF suffix_drop] by auto
  note s = convert_universal_chars.simps(2)
  have e: "encode_utf8 u \<noteq> []" for u by (simp add: encode_utf8_def)
  consider (u) "?u" "read_universal_char (drop 1 p) 4 \<noteq> 0" | (u0) "?u" "read_universal_char (drop 1 p) 4 = 0"
    | (U) "\<not> ?u" "?U" "read_universal_char (drop 1 p) 8 \<noteq> 0" | (U0) "\<not> ?u" "?U" "read_universal_char (drop 1 p) 8 = 0"
    | (b) "\<not> ?u" "\<not> ?U" "c = 92" | (o) "\<not> ?u" "\<not> ?U" "c \<noteq> 92" by blast
  then show ?case
  proof cases
    case u
    note d = read_universal_nl [OF u(2) [unfolded read_universal_char_def] k(2)]
    have "nl_ended (drop 5 p)" using d(1) by simp
    then show ?thesis using 2(1) [OF u(1) refl u(2)] e u d by (auto simp: s bind_res_Inl_iff res_simps intro!: nl_ended_append)
  next
    case U
    note d = read_universal_nl [OF U(3) [unfolded read_universal_char_def] k(2)]
    have "nl_ended (drop 9 p)" using d(1) by simp
    then show ?thesis using 2(3) [OF U(1,2) refl U(3)] e U d by (auto simp: s bind_res_Inl_iff res_simps intro!: nl_ended_append)
  next
    case u0
    then show ?thesis using 2(2) k 2(7) by (auto simp: s bind_res_Inl_iff res_simps nl_ended_iff split: if_splits)
  next
    case U0
    then show ?thesis using 2(4) k 2(7) by (auto simp: s bind_res_Inl_iff res_simps nl_ended_iff split: if_splits)
  next
    case b
    then obtain d q where p: "p = d # q" using 2(7) by (cases p) auto
    have "nl_ended q" using k(1) p nl_Cons by blast
    then show ?thesis using b p 2(5) k 2(7) by (auto simp: s bind_res_Inl_iff res_simps nl_ended_iff split: if_splits)
  next
    case o
    then show ?thesis using 2(6) k 2(7) by (auto simp: s bind_res_Inl_iff res_simps nl_ended_iff split: if_splits)
  qed
qed simp

text \<open>
  C28: the tokenizer stays inside a file. For a file without NUL bytes, none of the phases (line ends,
  continued lines, universal character names), none of the readers and not the numbering of lines reads
  past the end of the text or runs off the list of tokens: the result is the tokens or a message.
\<close>

theorem tokenize_file_safe:
  assumes "0 \<notin> set bs"
  shows "tokenize_file bs ids \<noteq> Inl Overrun"
proof -
  let ?p = "remove_backslash_newline (canonicalize_newline (skip_bom (read_file bs)))"
  have "nl_ended ?p" unfolding remove_backslash_newline_def
    by (intro splice_lines_nl canonicalize_newline_nl skip_bom_nl read_file_nl assms)
  then show ?thesis using convert_nl_ended tokenize_no_overrun
    by (auto simp: tokenize_file_def file_text_def bind_res_Inl_iff)
qed

theorem tokenize_file_safe_witness:
  "0 \<notin> set (bytes_of ''x //'') \<and> tokenize_file (bytes_of ''x //'') 0 \<noteq> Inl Overrun"
  using tokenize_file_safe [of "bytes_of ''x //''" 0] by (simp add: bytes_of_def)

text \<open>
  a line comment that no newline ends runs over the terminator. The loop over a line comment looks for a
  newline only, so that the text \<open>//\<close> that pasting \<open>/\<close> and \<open>/\<close> with \<open>##\<close> gives to the tokenizer, and a
  comment cut off by a NUL byte in a file, are read past their end.
\<close>

theorem line_comment_overrun:
  "tokenize (bytes_of ''//'') ids = Inl Overrun \<and> tokenize_file [47, 47, 0, 10] ids = Inl Overrun"
proof -
  have t: "tokenize (bytes_of ''//'') ids = Inl Overrun"
    by (simp add: tokenize_def tok_loop.simps [of _ "x # y" for x y] tok_step_def startswith_def bytes_of_def)
  moreover have "file_text [47, 47, 0, 10] = Inr (bytes_of ''//'')" by code_simp
  ultimately show ?thesis by (simp add: tokenize_file_def)
qed

lemma count_replicate: "count_list (replicate n x) y = (if x = y then n else 0)"
  by (induction n) auto

lemma splice_count: "count_list (splice_lines n p) 10 = n + count_list p 10"
proof (induction n p rule: splice_lines.induct)
  case (2 n c p)
  then show ?case by (cases p) (auto simp: count_replicate)
qed (simp add: count_replicate)

lemma splice_append: "p = [] \<or> last p \<noteq> 92 \<Longrightarrow> splice_lines n (p @ 10 # q) = splice_lines n (p @ [10]) @ splice_lines 0 q"
proof (induction n p rule: splice_lines.induct)
  case (2 n c p)
  consider (n) "p = []" "c \<noteq> 92" | (c) d r where "p = d # r" using 2(4) by (cases p) auto
  then show ?case
  proof cases
    case c
    have l: "p = [] \<or> last p \<noteq> 92" "tl p = [] \<or> last (tl p) \<noteq> 92" using 2(4) c by (auto split: if_splits)
    show ?thesis
    proof (cases "c = 92 \<and> cur p = 10")
      case True
      then show ?thesis using 2(1) [OF True l(2)] c by simp
    next
      case False
      show ?thesis
      proof (cases "c = 10")
        case True
        have "splice_lines 0 (p @ 10 # q) = splice_lines 0 (p @ [10]) @ splice_lines 0 q" by (rule 2(2) [OF False True l(1)])
        then show ?thesis using True by simp
      next
        case n: False
        have "splice_lines n (p @ 10 # q) = splice_lines n (p @ [10]) @ splice_lines 0 q" by (rule 2(3) [OF False n l(1)])
        moreover have "\<not> (c = 92 \<and> d = 10)" using False c by simp
        ultimately show ?thesis using n c by (auto simp del: splice_lines.simps(2) simp add: splice_lines.simps(2) [of n c])
      qed
    qed
  qed simp
qed simp

text \<open>
  splicing keeps the line numbers. Removing the backslash-newline pairs moves each removed newline to the end
  of its logical line: the text has as many newlines as before, and after a newline that no backslash
  precedes the rest is spliced on its own, so that every logical line starts on the line it started on.
\<close>

theorem splice_keeps_lines:
  assumes "p = [] \<or> last p \<noteq> 92"
  shows "remove_backslash_newline (p @ 10 # q) = remove_backslash_newline (p @ [10]) @ remove_backslash_newline q
    \<and> count_list (remove_backslash_newline (p @ [10])) 10 = Suc (count_list p 10)"
  using splice_append [OF assms, of 0 q] by (simp add: remove_backslash_newline_def splice_count)

theorem splice_keeps_lines_witness:
  "last (bytes_of ''ab'') \<noteq> 92 \<and>
   remove_backslash_newline (bytes_of ''ab'' @ 10 # [99, 92, 10, 100, 10]) = bytes_of ''ab'' @ [10, 99, 100, 10, 10] \<and>
   count_list (remove_backslash_newline (bytes_of ''ab'' @ [10])) 10 = Suc (count_list (bytes_of ''ab'') 10)"
  using splice_keeps_lines [of "bytes_of ''ab''" "[99, 92, 10, 100, 10]"]
  by (simp add: remove_backslash_newline_def bytes_of_def)

end
