(* ===== verification/Pp_Number.thy ===== *)
theory Pp_Number
  imports Tokenize_Spec
begin

text \<open>
  Preprocessing numbers and keywords become tokens of the parser (\<open>convert_pp_int\<close>,
  \<open>convert_pp_number\<close> and \<open>convert_pp_tokens\<close> in \<open>src/tokenize.c\<close>). \<open>strtoull\<close> and \<open>strtold\<close>
  are the C library's functions in the C locale; a preprocessing number starts with a digit or with a point and
  a digit, so their white space, signs, infinities and NaNs do not arise. \<open>strtold\<close> gives the exact
  value that the host then rounds.
\<close>

section \<open>The library's readers\<close>

definition tolower_ch :: "u8 \<Rightarrow> u8" where "tolower_ch c = (if 65 \<le> c \<and> c \<le> 90 then c + 32 else c)"

text \<open>\<open>strncasecmp(p, q, strlen(q)) == 0\<close> for a \<open>q\<close> in lower case.\<close>

definition starts_nocase :: "src \<Rightarrow> string \<Rightarrow> bool" where
  "starts_nocase p q \<longleftrightarrow> map tolower_ch (take (length q) p) = bytes_of q"

definition digit_val :: "u8 \<Rightarrow> nat" where
  "digit_val c =
     (if 48 \<le> c \<and> c \<le> 57 then unat c - 48
      else if 97 \<le> c \<and> c \<le> 122 then unat c - 87
      else if 65 \<le> c \<and> c \<le> 90 then unat c - 55 else 99)"

fun digits_loop :: "nat \<Rightarrow> nat \<Rightarrow> src \<Rightarrow> nat \<times> src" where
  "digits_loop b n [] = (n, [])"
| "digits_loop b n (c # p) = (if digit_val c < b then digits_loop b (n * b + digit_val c) p else (n, c # p))"

text \<open>Base 16 allows a prefix; a number that is too big saturates.\<close>

definition strtoull :: "src \<Rightarrow> nat \<Rightarrow> u64 \<times> src" where
  "strtoull p b =
     (if digit_val (cur p) \<ge> b then (0, p)
      else case digits_loop b 0 (if b = 16 \<and> starts_nocase p ''0x'' \<and> is_xdigit_ch (cur (drop 2 p)) then drop 2 p else p) of
        (n, q) \<Rightarrow> (if n < 2 ^ 64 then of_nat n else - 1, q))"

definition exponent :: "u8 \<Rightarrow> src \<Rightarrow> int \<times> src" where
  "exponent mark p =
     (let q = tl p; r = (if cur q = 43 \<or> cur q = 45 then tl q else q)
      in if tolower_ch (cur p) = mark \<and> is_digit_ch (cur r)
         then (case digits_loop 10 0 r of (e, t) \<Rightarrow> (if cur q = 45 then - int e else int e, t))
         else (0, p))"

text \<open>The digits before and after the point, and how many come after it.\<close>

definition mantissa :: "nat \<Rightarrow> src \<Rightarrow> nat \<times> nat \<times> src" where
  "mantissa b p =
     (case digits_loop b 0 p of (m, q) \<Rightarrow>
        if cur q = 46 then (case digits_loop b m (tl q) of (m', r) \<Rightarrow> (m', length (tl q) - length r, r))
        else (m, 0, q))"

definition strtold :: "src \<Rightarrow> fvalue \<times> src" where
  "strtold p =
     (if starts_nocase p ''0x'' \<and> (is_xdigit_ch (cur (drop 2 p)) \<or> cur (drop 2 p) = 46 \<and> is_xdigit_ch (cur (drop 3 p))) then
        (case mantissa 16 (drop 2 p) of (m, k, q) \<Rightarrow>
           case exponent (ch (CHR ''p'')) q of (e, r) \<Rightarrow> ((m, 2, e - 4 * int k), r))
      else if is_digit_ch (cur p) \<or> cur p = 46 \<and> is_digit_ch (cur (tl p)) then
        (case mantissa 10 p of (m, k, q) \<Rightarrow>
           case exponent (ch (CHR ''e'')) q of (e, r) \<Rightarrow> ((m, 10, e - int k), r))
      else ((0, 10, 0), p))"

section \<open>Integer constants\<close>

definition int_base :: "src \<Rightarrow> nat \<times> src" where
  "int_base p =
     (if starts_nocase p ''0x'' \<and> is_xdigit_ch (cur (drop 2 p)) then (16, drop 2 p)
      else if starts_nocase p ''0b'' \<and> (cur (drop 2 p) = 48 \<or> cur (drop 2 p) = 49) then (2, drop 2 p)
      else if cur p = 48 then (8, p) else (10, p))"

text \<open>\<open>u\<close>, \<open>l\<close>, \<open>ll\<close> and the text after the suffix.\<close>

definition int_suffix :: "src \<Rightarrow> (bool \<times> bool \<times> bool) \<times> src" where
  "int_suffix p =
     (if list_ex (startswith p) [''LLU'', ''LLu'', ''llU'', ''llu'', ''ULL'', ''Ull'', ''uLL'', ''ull''] then
        ((True, False, True), drop 3 p)
      else if starts_nocase p ''lu'' \<or> starts_nocase p ''ul'' then ((True, True, False), drop 2 p)
      else if startswith p ''LL'' \<or> startswith p ''ll'' then ((False, False, True), drop 2 p)
      else if cur p = ch (CHR ''L'') \<or> cur p = ch (CHR ''l'') then ((False, True, False), tl p)
      else if cur p = ch (CHR ''U'') \<or> cur p = ch (CHR ''u'') then ((True, False, False), tl p)
      else ((False, False, False), p))"

text \<open>The value is an \<open>int64_t\<close>, whose right shift keeps the sign.\<close>

definition int_const_type :: "nat \<Rightarrow> bool \<Rightarrow> bool \<Rightarrow> bool \<Rightarrow> u64 \<Rightarrow> ctype" where
  "int_const_type base u l ll val =
     (let sh = (\<lambda>k. signed_drop_bit k val \<noteq> 0); dec = (base = 10)
      in if u \<and> ll then ty_ullong
         else if u \<and> l then (if sh 32 then ty_ullong else ty_ulong)
         else if u then (if sh 32 then ty_ullong else ty_uint)
         else if ll then (if sh 63 then ty_ullong else ty_llong)
         else if l then
           (if dec then (if sh 63 then ty_ullong else if sh 31 then ty_llong else ty_long)
            else if sh 63 then ty_ullong else if sh 32 then ty_llong else if sh 31 then ty_ulong else ty_long)
         else
           (if dec then (if sh 63 then ty_ullong else if sh 31 then ty_llong else ty_int)
            else if sh 63 then ty_ullong else if sh 32 then ty_llong else if sh 31 then ty_uint else ty_int))"

text \<open>\<open>s\<close> is the whole text; \<open>None\<close> is the result \<open>false\<close>.\<close>

definition convert_pp_int :: "src \<Rightarrow> token \<Rightarrow> token option" where
  "convert_pp_int s t =
     (case int_base (drop (tk_loc t) s) of (base, p) \<Rightarrow>
      case strtoull p base of (val, q) \<Rightarrow>
      case int_suffix q of ((u, l, ll), r) \<Rightarrow>
        if length r \<noteq> length (drop (tk_loc t + tk_len t) s) then None
        else Some (t\<lparr>tk_kind := TK_NUM, tk_val := val, tk_ty := Some (int_const_type base u l ll val)\<rparr>))"

definition convert_pp_number :: "src \<Rightarrow> token \<Rightarrow> src_error + token" where
  "convert_pp_number s t =
     (case convert_pp_int s t of Some t' \<Rightarrow> Inr t'
      | None \<Rightarrow>
          (case strtold (drop (tk_loc t) s) of (v, q) \<Rightarrow>
           case (if cur q = ch (CHR ''f'') \<or> cur q = ch (CHR ''F'') then (ty_float, tl q)
                 else if cur q = ch (CHR ''l'') \<or> cur q = ch (CHR ''L'') then (ty_ldouble, tl q)
                 else (ty_double, q)) of (ty, r) \<Rightarrow>
             if length r \<noteq> length (drop (tk_loc t + tk_len t) s)
             then Inl (Error_at (drop (tk_loc t) s) ''invalid numeric constant'')
             else Inr (t\<lparr>tk_kind := TK_NUM, tk_fval := v, tk_ty := Some ty\<rparr>)))"

text \<open>The loop up to the end-of-file token; the errors of the keyword table are kept apart from messages.\<close>

datatype pp_error = Text_error src_error | Table_error hm_error | No_eof

fun convert_pp_tokens :: "src \<Rightarrow> token list \<Rightarrow> pp_error + token list" where
  "convert_pp_tokens s [] = Inl No_eof"
| "convert_pp_tokens s (t # ts) =
     (if tk_kind t = TK_EOF then Inr (t # ts)
      else case is_keyword (tok_text s t) of
        Inl e \<Rightarrow> Inl (Table_error e)
      | Inr True \<Rightarrow> bind_res (convert_pp_tokens s ts) (\<lambda>us. Inr (t\<lparr>tk_kind := TK_KEYWORD\<rparr> # us))
      | Inr False \<Rightarrow>
          if tk_kind t = TK_PP_NUM then
            (case convert_pp_number s t of
               Inl e \<Rightarrow> Inl (Text_error e)
             | Inr u \<Rightarrow> bind_res (convert_pp_tokens s ts) (\<lambda>us. Inr (u # us)))
          else bind_res (convert_pp_tokens s ts) (\<lambda>us. Inr (t # us)))"

section \<open>The value and the type of an integer constant\<close>

definition digit_ch :: "nat \<Rightarrow> u8" where "digit_ch d = (if d < 10 then of_nat (48 + d) else of_nat (87 + d))"

function print_digits :: "nat \<Rightarrow> nat \<Rightarrow> src" where
  "print_digits b n = (if b < 2 \<or> n < b then [digit_ch n] else print_digits b (n div b) @ [digit_ch (n mod b)])"
  by pat_completeness auto
termination
  by (relation "measure snd") (auto intro: div_less_dividend)

declare print_digits.simps [simp del]

text \<open>
  The types that C11 6.4.4.1 lists for a constant, in its order, and the first that represents the value
  (the compiler gives \<open>unsigned long long\<close> to the values that no type of the list represents).
\<close>

definition const_types :: "bool \<Rightarrow> bool \<Rightarrow> bool \<Rightarrow> bool \<Rightarrow> ctype list" where
  "const_types dec u l ll =
     filter (\<lambda>ty. (u \<longrightarrow> ty_unsigned ty) \<and> (dec \<and> \<not> u \<longrightarrow> \<not> ty_unsigned ty))
       ((if l \<or> ll then [] else [ty_int, ty_uint]) @ (if ll then [] else [ty_long, ty_ulong]) @ [ty_llong, ty_ullong])"

definition represents :: "ctype \<Rightarrow> nat \<Rightarrow> bool" where
  "represents ty n \<longleftrightarrow> n < 2 ^ (if ty_unsigned ty then 8 * nat (ty_size ty) else 8 * nat (ty_size ty) - 1)"

definition first_fit :: "ctype list \<Rightarrow> nat \<Rightarrow> ctype" where
  "first_fit tys n = (case find (\<lambda>ty. represents ty n) tys of Some ty \<Rightarrow> ty | None \<Rightarrow> ty_ullong)"

definition int_prefixes :: "(nat \<times> string) list" where
  "int_prefixes = [(10, ''''), (8, ''0''), (16, ''0x''), (16, ''0X''), (2, ''0b''), (2, ''0B'')]"

definition int_suffixes :: "(string \<times> bool \<times> bool \<times> bool) list" where
  "int_suffixes =
     [('''', False, False, False)] @
     map (\<lambda>s. (s, True, False, False)) [''u'', ''U''] @ map (\<lambda>s. (s, False, True, False)) [''l'', ''L''] @
     map (\<lambda>s. (s, False, False, True)) [''ll'', ''LL''] @
     map (\<lambda>s. (s, True, True, False)) [''lu'', ''lU'', ''Lu'', ''LU'', ''ul'', ''uL'', ''Ul'', ''UL''] @
     map (\<lambda>s. (s, True, False, True)) [''llu'', ''llU'', ''LLu'', ''LLU'', ''ull'', ''uLL'', ''Ull'', ''ULL'']"

lemma sint_of_nat64: "n < 2 ^ 64 \<Longrightarrow> sint (of_nat n :: u64) = (if n < 2 ^ 63 then int n else int n - 2 ^ 64)"
proof -
  assume n: "n < 2 ^ 64"
  have "sint (of_nat n :: u64) = take_bit 64 (int n + 2 ^ 63) - 2 ^ 63"
    by (simp add: signed_of_nat signed_take_bit_eq_take_bit_shift)
  also have "take_bit 64 (int n + 2 ^ 63) = (if n < 2 ^ 63 then int n + 2 ^ 63 else int n - 2 ^ 63)"
  proof (cases "n < 2 ^ 63")
    case True
    then show ?thesis by (simp add: take_bit_int_eq_self)
  next
    case False
    have "take_bit 64 (int n + 2 ^ 63) = take_bit 64 ((int n - 2 ^ 63) + 2 ^ 64)" by (simp add: algebra_simps)
    also have "\<dots> = take_bit 64 (int n - 2 ^ 63)" by (simp only: take_bit_eq_mod mod_add_self2)
    finally show ?thesis using False n by (simp add: take_bit_int_eq_self)
  qed
  finally show ?thesis by simp
qed

lemma sdrop_zero:
  assumes "n < 2 ^ 64" "k < 64"
  shows "signed_drop_bit k (of_nat n :: u64) = 0 \<longleftrightarrow> n < 2 ^ k"
proof -
  have "signed_drop_bit k (of_nat n :: u64) = 0 \<longleftrightarrow> sint (signed_drop_bit k (of_nat n :: u64)) = 0"
    by (simp only: signed_eq_0_iff)
  also have "sint (signed_drop_bit k (of_nat n :: u64)) = sint (of_nat n :: u64) div 2 ^ k"
    by (simp add: sint_signed_drop_bit_eq drop_bit_eq_div)
  also have "sint (of_nat n :: u64) div 2 ^ k = 0 \<longleftrightarrow> 0 \<le> sint (of_nat n :: u64) \<and> sint (of_nat n :: u64) < 2 ^ k"
    by (simp add: zdiv_eq_0_iff not_less) (smt (verit) zero_less_power)
  also have "\<dots> \<longleftrightarrow> n < 2 ^ k"
  proof -
    have "(2::nat) ^ k \<le> 2 ^ 63" using assms(2) by (intro power_increasing) auto
    moreover have "int n < 2 ^ k \<longleftrightarrow> n < 2 ^ k" by (metis of_nat_less_iff of_nat_numeral of_nat_power)
    ultimately show ?thesis using assms(1) by (auto simp: sint_of_nat64)
  qed
  finally show ?thesis .
qed

lemma int_const_type_first:
  assumes "n < 2 ^ 64" "\<not> (l \<and> ll)"
  shows "int_const_type b u l ll (of_nat n) = first_fit (const_types (b = 10) u l ll) n"
  using assms
  by (simp add: int_const_type_def Let_def sdrop_zero first_fit_def const_types_def represents_def basic_types)

lemma digit_val_digit: "d < 16 \<Longrightarrow> digit_val (digit_ch d) = d"
proof -
  assume "d < 16"
  moreover have "\<forall>d \<in> set [0..<16]. digit_val (digit_ch d) = d"
    by code_simp
  ultimately show ?thesis by simp
qed

lemma digits_loop_print:
  assumes "2 \<le> b" "b \<le> 16"
  shows "\<exists>k. \<forall>a q. digits_loop b a (print_digits b n @ q) = digits_loop b (a * k + n) q"
  using assms
proof (induction b n rule: print_digits.induct)
  case (1 b n)
  show ?case
  proof (cases "n < b")
    case True
    then show ?thesis using 1(2,3) by (intro exI [of _ b]) (simp add: print_digits.simps [of b n] digit_val_digit)
  next
    case False
    obtain k where k: "digits_loop b a (print_digits b (n div b) @ q) = digits_loop b (a * k + n div b) q" for a q
      using 1 False by fastforce
    have m: "n mod b < b" "n mod b < 16" using 1(2,3) by (simp_all add: less_le_trans [OF mod_less_divisor])
    show ?thesis using 1(2) False m
      by (intro exI [of _ "k * b"]) (auto simp: print_digits.simps [of b n] k digit_val_digit algebra_simps)
  qed
qed

lemma digits_print [simp]:
  "2 \<le> b \<Longrightarrow> b \<le> 16 \<Longrightarrow> digits_loop b 0 (print_digits b n @ q) = digits_loop b n q"
  using digits_loop_print [of b n] by auto

lemma print_first:
  assumes "2 \<le> b" "b \<le> 16"
  shows "\<exists>d w. print_digits b n = digit_ch d # w \<and> d < b \<and> (0 < n \<longrightarrow> 0 < d)"
  using assms
proof (induction b n rule: print_digits.induct)
  case (1 b n)
  show ?case
  proof (cases "n < b")
    case True
    then show ?thesis using 1(2) by (auto simp: print_digits.simps [of b n])
  next
    case False
    then have "0 < n div b" using 1(2) by (simp add: div_greater_zero_iff)
    then show ?thesis using 1 False by (fastforce simp: print_digits.simps [of b n])
  qed
qed

text \<open>The text after a constant does not go on with a letter or a digit.\<close>

definition const_ends :: "src \<Rightarrow> bool" where "const_ends q \<longleftrightarrow> \<not> is_alnum_ch (cur q)"

lemma const_ends_cases [consumes 1, case_names Nil Cons]:
  "const_ends q \<Longrightarrow> (q = [] \<Longrightarrow> P) \<Longrightarrow> (\<And>c r. q = c # r \<Longrightarrow> \<not> is_alnum_ch c \<Longrightarrow> P) \<Longrightarrow> P"
  by (cases q) (auto simp: const_ends_def)

lemma not_alnum_digit: "\<not> is_alnum_ch c \<Longrightarrow> digit_val c = 99"
  by (auto simp: is_alnum_ch_def is_digit_ch_def digit_val_def)

lemma not_alnum_letters: "\<not> is_alnum_ch c \<Longrightarrow> tolower_ch c = c \<and> c \<notin> set (bytes_of ''xXbBuUlL01'')"
  by (auto simp: is_alnum_ch_def is_digit_ch_def tolower_ch_def bytes_of_def)

lemma int_suffix_reads:
  assumes "(x, u, l, ll) \<in> set int_suffixes" "const_ends q"
  shows "int_suffix (bytes_of x @ q) = ((u, l, ll), q)"
  using assms(2)
proof (cases rule: const_ends_cases)
  case Nil
  have "\<forall>(x, u, l, ll) \<in> set int_suffixes. int_suffix (bytes_of x) = ((u, l, ll), [])" by code_simp
  from bspec [OF this assms(1)] show ?thesis using Nil by (simp add: bytes_of_def)
next
  case (Cons c r)
  have n: "tolower_ch c = c" "c \<noteq> 108" "c \<noteq> 76" "c \<noteq> 117" "c \<noteq> 85"
    using not_alnum_letters [OF Cons(2)] by (simp_all add: bytes_of_def)
  have t: "tolower_ch 108 = 108" "tolower_ch 76 = 108" "tolower_ch 117 = 117" "tolower_ch 85 = 117" by code_simp+
  have "\<forall>(x, u, l, ll) \<in> set int_suffixes. int_suffix (bytes_of x @ c # r) = ((u, l, ll), c # r)"
    by (simp add: int_suffixes_def int_suffix_def startswith_def starts_nocase_def bytes_of_def ch_def n t)
  from bspec [OF this assms(1)] show ?thesis using Cons by simp
qed

lemma suffix_stops:
  assumes "(x, u, l, ll) \<in> set int_suffixes" "const_ends q" "b \<le> 16"
  shows "digits_loop b n (bytes_of x @ q) = (n, bytes_of x @ q)"
proof -
  have "\<forall>(x, u, l, ll) \<in> set int_suffixes. x = '''' \<or> 16 \<le> digit_val (cur (bytes_of x))" by code_simp
  then consider "x = ''''" | "x \<noteq> ''''" "16 \<le> digit_val (cur (bytes_of x))" using assms(1) by auto
  then show ?thesis
  proof cases
    case 1
    then show ?thesis using assms(2,3) by (auto simp: bytes_of_def not_alnum_digit elim!: const_ends_cases)
  next
    case 2
    then show ?thesis using assms(3) by (cases x) (auto simp: bytes_of_def)
  qed
qed

definition const_text :: "nat \<Rightarrow> string \<Rightarrow> nat \<Rightarrow> string \<Rightarrow> src" where
  "const_text b x n y = bytes_of x @ print_digits b n @ bytes_of y"

lemma print_chars: "2 \<le> b \<Longrightarrow> b \<le> 16 \<Longrightarrow> c \<in> set (print_digits b n) \<Longrightarrow> digit_val c < 16"
proof (induction b n rule: print_digits.induct)
  case (1 b n)
  have "n mod b < 16" using 1(2,3) by (simp add: less_le_trans [OF mod_less_divisor])
  then show ?case using 1 by (auto simp: print_digits.simps [of b n] digit_val_digit split: if_splits)
qed

lemma second_char:
  assumes "(y, u, l, ll) \<in> set int_suffixes" "const_ends q" "print_digits b n = c # w" "2 \<le> b" "b \<le> 16"
  shows "tolower_ch (cur (w @ bytes_of y @ q)) \<noteq> 120"
proof -
  have y: "\<forall>(x, u, l, ll) \<in> set int_suffixes. tolower_ch (cur (bytes_of x)) \<noteq> 120" by code_simp
  consider e w' where "w = e # w'" "digit_val e < 16" | "w = []" "y \<noteq> ''''" | "w = []" "y = ''''"
    using print_chars [OF assms(4,5), of _ n] assms(3) by (cases w) auto
  then show ?thesis
  proof cases
    case 1
    then show ?thesis by (auto simp: tolower_ch_def digit_val_def split: if_splits)
  next
    case 2
    then show ?thesis using bspec [OF y assms(1)] by (cases y) (auto simp: bytes_of_def)
  next
    case 3
    then show ?thesis using assms(2) not_alnum_letters
      by (auto simp: bytes_of_def tolower_ch_def elim!: const_ends_cases)
  qed
qed

lemma int_base_reads:
  assumes "(b, x) \<in> set int_prefixes" "b = 10 \<longrightarrow> 0 < n" "(y, u, l, ll) \<in> set int_suffixes" "const_ends q"
  shows "\<exists>p. int_base (const_text b x n y @ q) = (b, p) \<and> strtoull p b =
    (if n < 2 ^ 64 then of_nat n else - 1, bytes_of y @ q)"
proof -
  have b: "2 \<le> b" "b \<le> 16" using assms(1) by (auto simp: int_prefixes_def)
  obtain d w where p: "print_digits b n = digit_ch d # w" "d < b" "0 < n \<longrightarrow> 0 < d" using print_first [OF b] by blast
  have dig: "\<forall>d \<in> set [0..<16]. is_xdigit_ch (digit_ch d) \<and> (digit_ch d = 48 \<longleftrightarrow> d = 0) \<and>
      tolower_ch (digit_ch d) \<noteq> 120 \<and> (d < 10 \<longrightarrow> tolower_ch (digit_ch d) \<noteq> 98) \<and> (d = 1 \<longrightarrow> digit_ch d = 49) \<and>
      (tolower_ch (digit_ch d) = 48 \<longleftrightarrow> d = 0)" by code_simp
  have d: "is_xdigit_ch (digit_ch d)" "digit_ch d = 48 \<longleftrightarrow> d = 0" "tolower_ch (digit_ch d) = 48 \<longleftrightarrow> d = 0"
    "tolower_ch (digit_ch d) \<noteq> 120" "d < 10 \<Longrightarrow> tolower_ch (digit_ch d) \<noteq> 98" "d = 1 \<Longrightarrow> digit_ch d = 49"
    using bspec [OF dig, of d] p(2) b(2) by auto
  have v: "digit_val (digit_ch d) < b" using digit_val_digit [of d] p(2) b(2) by simp
  have nx: "\<not> starts_nocase (print_digits b n @ bytes_of y @ q) ''0x''"
    using second_char [OF assms(3,4) p(1) b] by (cases "w @ bytes_of y @ q") (auto simp: p(1) starts_nocase_def bytes_of_def)
  have r: "digits_loop b 0 (print_digits b n @ bytes_of y @ q) = (n, bytes_of y @ q)"
    using suffix_stops [OF assms(3,4) b(2)] b by simp
  have st: "strtoull (print_digits b n @ bytes_of y @ q) b = (if n < 2 ^ 64 then of_nat n else - 1, bytes_of y @ q)"
    using nx r v by (simp add: strtoull_def) (simp add: p(1))
  define R where "R = w @ bytes_of y @ q"
  have st': "strtoull (digit_ch d # R) b = (if n < 2 ^ 64 then of_nat n else - 1, bytes_of y @ q)"
    using st by (simp add: R_def p(1))
  have ct: "const_text b x n y @ q = bytes_of x @ digit_ch d # R" by (simp add: const_text_def R_def p(1))
  have r': "digits_loop b 0 (digit_ch d # R) = (n, bytes_of y @ q)" using r by (simp add: R_def p(1))
  note base = int_base_def starts_nocase_def bytes_of_def tolower_ch_def [of "48 :: u8"]
  consider "b = 10" "x = ''''" | "b = 8" "x = ''0''" | "b = 16" "x = ''0x'' \<or> x = ''0X''" | "b = 2" "x = ''0b'' \<or> x = ''0B''"
    using assms(1) by (auto simp: int_prefixes_def)
  then show ?thesis
  proof cases
    case 1
    have "0 < d" using assms(2) p(3) 1 by simp
    then have "int_base (bytes_of x @ digit_ch d # R) = (10, digit_ch d # R)" using 1 d by (simp add: base)
    then show ?thesis using st' 1 ct by simp
  next
    case 2
    have "d < 10" using p(2) 2 by simp
    then have i: "int_base (bytes_of x @ digit_ch d # R) = (8, 48 # digit_ch d # R)" using 2 d by (simp add: base)
    have "strtoull (48 # digit_ch d # R) 8 = (if n < 2 ^ 64 then of_nat n else - 1, bytes_of y @ q)"
      using r' 2 by (simp add: strtoull_def digit_val_def [of "48 :: u8"] del: digits_loop.simps(2) add: digits_loop.simps(2) [of 8 0 48])
    then show ?thesis using i 2 ct by simp
  next
    case 3
    then have "int_base (bytes_of x @ digit_ch d # R) = (16, digit_ch d # R)" using d by (auto simp: base tolower_ch_def)
    then show ?thesis using st' 3 ct by simp
  next
    case 4
    then have "digit_ch d = 48 \<or> digit_ch d = 49" using p(2) d(2,6) by (cases "d = 0") auto
    then have "int_base (bytes_of x @ digit_ch d # R) = (2, digit_ch d # R)" using 4 by (auto simp: base tolower_ch_def)
    then show ?thesis using st' 4 ct by simp
  qed
qed

text \<open>
  C26: an integer constant has the value and the type of C11 6.4.4.1. For every base, prefix and suffix and every
  value below \<open>2 ^ 64\<close>, the token that spells the constant gets exactly this value and the first type
  of the standard's list that represents it (or \<open>unsigned long long\<close> when none does).
\<close>

theorem int_constant:
  assumes "n < 2 ^ 64" "(b, x) \<in> set int_prefixes" "b = 10 \<longrightarrow> 0 < n" "(y, u, l, ll) \<in> set int_suffixes"
    and "drop (tk_loc t) s = const_text b x n y @ q" "tk_len t = length (const_text b x n y)" "const_ends q"
  shows "convert_pp_int s t = Some (t\<lparr>tk_kind := TK_NUM, tk_val := of_nat n,
    tk_ty := Some (first_fit (const_types (b = 10) u l ll) n)\<rparr>)"
proof -
  have "drop (tk_loc t + tk_len t) s = q"
    using assms(5,6) by (metis add.commute append_eq_conv_conj drop_drop)
  moreover have "\<not> (l \<and> ll)" using assms(4) by (auto simp: int_suffixes_def)
  ultimately show ?thesis
    using int_base_reads [OF assms(2-4,7)] int_suffix_reads [OF assms(4,7)] int_const_type_first [OF assms(1)] assms(1,5)
    by (auto simp: convert_pp_int_def)
qed

definition number_token :: "nat \<Rightarrow> nat \<Rightarrow> token" where
  "number_token i k = \<lparr>tk_kind = TK_PP_NUM, tk_val = 0, tk_fval = (0, 10, 0), tk_loc = i, tk_len = k, tk_ty = None,
     tk_str = [], tk_line_no = 1, tk_at_bol = False, tk_has_space = False\<rparr>"

theorem int_constant_witness:
  "map_option (\<lambda>t. (tk_kind t, tk_val t, tk_ty t)) (convert_pp_int (bytes_of ''x=0x2aUL;'') (number_token 2 6)) =
     Some (TK_NUM, 42, Some ty_ulong)"
proof -
  have "(16, ''0x'') \<in> set int_prefixes" "(''UL'', True, True, False) \<in> set int_suffixes" by (simp_all add: int_prefixes_def int_suffixes_def)
  moreover have "drop (tk_loc (number_token 2 6)) (bytes_of ''x=0x2aUL;'') = const_text 16 ''0x'' 42 ''UL'' @ [59]"
    by (simp add: number_token_def const_text_def print_digits.simps digit_ch_def bytes_of_def)
  moreover have "tk_len (number_token 2 6) = length (const_text 16 ''0x'' 42 ''UL'')"
    by (simp add: number_token_def const_text_def print_digits.simps bytes_of_def)
  moreover have "const_ends [59]" by (simp add: const_ends_def is_alnum_ch_def is_digit_ch_def)
  ultimately show ?thesis
    using int_constant [of 42 16 "''0x''" "''UL''" True True False "number_token 2 6" "bytes_of ''x=0x2aUL;''" "[59]"]
    by (simp add: first_fit_def const_types_def represents_def basic_types)
qed

text \<open>
  malformed constants are accepted. \<open>0x0x10\<close> is the int 16, because \<open>strtoull\<close> takes a second prefix;
  \<open>08\<close> is not an octal constant and becomes the double 8; and \<open>18446744073709551616\<close> saturates. C11
  6.4.4 makes all three ill-formed.
\<close>

theorem malformed_constants:
  "convert_pp_int (bytes_of ''0x0x10'') (number_token 0 6) =
     Some (number_token 0 6\<lparr>tk_kind := TK_NUM, tk_val := 16, tk_ty := Some ty_int\<rparr>) \<and>
   convert_pp_number (bytes_of ''08'') (number_token 0 2) =
     Inr (number_token 0 2\<lparr>tk_kind := TK_NUM, tk_fval := (8, 10, 0), tk_ty := Some ty_double\<rparr>) \<and>
   convert_pp_int (bytes_of ''18446744073709551616'') (number_token 0 20) =
     Some (number_token 0 20\<lparr>tk_kind := TK_NUM, tk_val := 18446744073709551615, tk_ty := Some ty_ullong\<rparr>)"
  by (intro conjI; simp add: convert_pp_number_def convert_pp_int_def number_token_def int_base_def starts_nocase_def
      bytes_of_def tolower_ch_def is_xdigit_ch_def is_digit_ch_def strtoull_def digit_val_def int_suffix_def startswith_def
      ch_def int_const_type_def Let_def strtold_def mantissa_def exponent_def)

section \<open>Keywords and the kinds of tokens\<close>

lemma is_keyword_exact: "is_keyword w = Inr (w \<in> bytes_of ` set kw_list)"
proof -
  let ?kvs = "map (\<lambda>k. (bytes_of k, 1::nat)) kw_list"
  have "length ?kvs \<le> Suc max_used" by (simp add: kw_list_def max_used_def)
  then obtain m where m: "keyword_map = Inr m" "\<And>k. hashmap_get2 m k = Inr (map_of (rev ?kvs) k)"
    using names.table_of_list [of ?kvs] by (auto simp: keyword_map_def)
  have "map_of (rev ?kvs) w \<noteq> None \<longleftrightarrow> w \<in> bytes_of ` set kw_list"
    by (simp add: map_of_eq_None_iff) (simp add: image_image)
  moreover have "is_keyword w = Inr (map_of (rev ?kvs) w \<noteq> None)" by (simp add: is_keyword_def m)
  ultimately show ?thesis by (simp only:)
qed

text \<open>What \<open>convert_pp_tokens\<close> makes of one token.\<close>

definition converted :: "src \<Rightarrow> token \<Rightarrow> token \<Rightarrow> bool" where
  "converted s t u \<longleftrightarrow>
     (if tok_text s t \<in> bytes_of ` set kw_list \<and> tk_kind t \<noteq> TK_EOF then u = t\<lparr>tk_kind := TK_KEYWORD\<rparr>
      else if tk_kind t = TK_PP_NUM then convert_pp_number s t = Inr u \<and> tk_kind u = TK_NUM
      else u = t)"

lemma convert_pp_number_kind: "convert_pp_number s t = Inr u \<Longrightarrow> tk_kind u = TK_NUM"
  by (auto simp: convert_pp_number_def convert_pp_int_def split: if_splits prod.splits option.splits)

lemma convert_pp_tokens_spec:
  assumes "ts \<noteq> []" "tk_kind (last ts) = TK_EOF" "\<forall>t \<in> set (butlast ts). tk_kind t \<noteq> TK_EOF"
  shows "case convert_pp_tokens s ts of
      Inl e \<Rightarrow> \<exists>t \<in> set ts. tk_kind t = TK_PP_NUM \<and> e = Text_error (Error_at (drop (tk_loc t) s) ''invalid numeric constant'')
    | Inr us \<Rightarrow> list_all2 (converted s) ts us"
  using assms
proof (induction s ts rule: convert_pp_tokens.induct)
  case (2 s t ts)
  show ?case
  proof (cases "tk_kind t = TK_EOF")
    case True
    then show ?thesis using 2(6) by (cases ts) (auto simp: converted_def)
  next
    case False
    have e: "convert_pp_number s t = Inl e \<Longrightarrow> e = Error_at (drop (tk_loc t) s) ''invalid numeric constant''" for e
      by (auto simp: convert_pp_number_def split: if_splits prod.splits option.splits)
    have r: "ts \<noteq> []" "tk_kind (last ts) = TK_EOF" "\<forall>t \<in> set (butlast ts). tk_kind t \<noteq> TK_EOF"
      using 2(4-6) False by (auto split: if_splits)
    let ?k = "tok_text s t \<in> bytes_of ` set kw_list"
    consider (k) "?k" | (n) "\<not> ?k" "tk_kind t = TK_PP_NUM" | (o) "\<not> ?k" "tk_kind t \<noteq> TK_PP_NUM" by blast
    then show ?thesis
    proof cases
      case k
      then show ?thesis using 2(1) [OF False _ _ r] False
        by (cases "convert_pp_tokens s ts") (auto simp: is_keyword_exact converted_def)
    next
      case n
      then show ?thesis using 2(2) [OF False _ _ n(2) _ r] False e
        by (cases "convert_pp_tokens s ts"; cases "convert_pp_number s t")
          (auto simp: is_keyword_exact converted_def dest: convert_pp_number_kind)
    next
      case o
      then show ?thesis using 2(3) [OF False _ _ o(2) r] False
        by (cases "convert_pp_tokens s ts") (auto simp: is_keyword_exact converted_def)
    qed
  qed
qed simp

lemma tiles_eof: "tiles s i ts \<Longrightarrow> ts \<noteq> [] \<and> tk_kind (last ts) = TK_EOF \<and> (\<forall>t \<in> set (butlast ts). tk_kind t \<noteq> TK_EOF)"
  by (induction s i ts rule: tiles.induct) (auto split: if_splits)

lemma tokenize_eof:
  assumes "tokenize s ids = Inr (ts, ids')"
  shows "ts \<noteq> [] \<and> tk_kind (last ts) = TK_EOF \<and> (\<forall>t \<in> set (butlast ts). tk_kind t \<noteq> TK_EOF)"
  using tokenize_parts [OF assms] tiles_eof by (metis tiles_lines)

text \<open>
  C29: the tokens of a text become tokens of the parser. After \<open>tokenize\<close>, \<open>convert_pp_tokens\<close> neither runs off
  the list nor fails in the keyword table: it stops with a message at a number that is no constant, or
  every token is converted, the tokens whose text is one of the keywords to keywords, the numbers to
  constants, and the rest are kept.
\<close>

theorem front_end_tokens:
  assumes "tokenize s ids = Inr (ts, ids')"
  shows "case convert_pp_tokens s ts of
      Inl e \<Rightarrow> \<exists>t \<in> set ts. tk_kind t = TK_PP_NUM \<and> e = Text_error (Error_at (drop (tk_loc t) s) ''invalid numeric constant'')
    | Inr us \<Rightarrow> list_all2 (converted s) ts us"
  using tokenize_eof [OF assms] by (intro convert_pp_tokens_spec) auto

theorem front_end_tokens_witness:
  "case tokenize (bytes_of ''if/**/7'' @ [10]) 0 of
     Inl e \<Rightarrow> False
   | Inr (ts, i) \<Rightarrow> map tk_kind ts = [TK_IDENT, TK_PP_NUM, TK_EOF] \<and>
       (case convert_pp_tokens (bytes_of ''if/**/7'' @ [10]) ts of
          Inl e \<Rightarrow> list_ex (\<lambda>t. tk_kind t = TK_PP_NUM \<and>
            e = Text_error (Error_at (drop (tk_loc t) (bytes_of ''if/**/7'' @ [10])) ''invalid numeric constant'')) ts
        | Inr us \<Rightarrow> list_all2 (converted (bytes_of ''if/**/7'' @ [10])) ts us)"
  using tokenize_example front_end_tokens [of "bytes_of ''if/**/7'' @ [10]" 0]
  by (auto simp: list_ex_iff split: sum.splits)

end
