(* ===== verification/Pp_Token.thy ===== *)
theory Pp_Token
  imports Pp_Number
begin

text \<open>
  The tokens, the state and the simple token-list operations of the preprocessor
  (\<open>src/preprocess.c\<close>). A \<open>Token *\<close> is the list of the token and its successors, which ends with an
  end-of-file token; \<open>Null_deref\<close> is a read past that token. A token keeps the contents of its file, since its
  location is an offset there, and the index of the file, whose display name and line offset may change.
\<close>

section \<open>Data\<close>

record pp_token =
  pt_tok :: token
  pt_src :: src
  pt_file :: nat
  pt_filename :: bytes
  pt_line :: int
  pt_delta :: int
  pt_hideset :: "bytes list"
  pt_origin :: "(nat \<times> int) option"

type_synonym toks = "pp_token list"

abbreviation kind :: "pp_token \<Rightarrow> token_kind" where "kind t \<equiv> tk_kind (pt_tok t)"

abbreviation bol :: "pp_token \<Rightarrow> bool" where "bol t \<equiv> tk_at_bol (pt_tok t)"

abbreviation spaced :: "pp_token \<Rightarrow> bool" where "spaced t \<equiv> tk_has_space (pt_tok t)"

text \<open>\<open>strndup(tok->loc, tok->len)\<close>.\<close>

definition spelling :: "pp_token \<Rightarrow> bytes" where "spelling t = tok_text (pt_src t) (pt_tok t)"

definition equal_tok :: "pp_token \<Rightarrow> string \<Rightarrow> bool" where
  "equal_tok t op \<longleftrightarrow> spelling t = bytes_of op"

text \<open>
  The ways the compiler stops: a message at a token, an error of the tokenizer or of the hash table, a null
  pointer, undefined behaviour of the host, and a part of the expression grammar outside the model.
\<close>

datatype cpp_error =
  Tok_error pp_token string | Lex_error src_error | Hash_error hm_error | Null_deref
| Host_trap | Out_of_fuel | Unmodelled pp_token

record pp_file =
  pf_name :: bytes
  pf_display :: bytes
  pf_delta :: int

datatype builtin = File_macro | Line_macro | Counter_macro | Timestamp_macro | Base_file_macro

text \<open>The members of \<open>Macro\<close> and \<open>MacroArg\<close>; a null \<open>handler\<close> or \<open>va_args_name\<close> is \<open>None\<close>.\<close>

record macro =
  mc_name :: bytes
  mc_objlike :: bool
  mc_params :: "bytes list"
  mc_va :: "bytes option"
  mc_body :: toks
  mc_handler :: "builtin option"

record macro_arg =
  ma_name :: bytes
  ma_va :: bool
  ma_tok :: toks

datatype cond_ctx = IN_THEN | IN_ELIF | IN_ELSE

record cond_frame =
  ci_ctx :: cond_ctx
  ci_tok :: pp_token
  ci_included :: bool

text \<open>The static variables of the preprocessor, the table of open files and the supply of type identities.\<close>

record cpp =
  macros :: "macro hashmap"
  cond_incl :: "cond_frame list"
  pragma_once :: "unit hashmap"
  include_guards :: "bytes hashmap"
  include_cache :: "bytes hashmap"
  include_next_idx :: nat
  counter :: nat
  files :: "pp_file list"
  type_ids :: nat

text \<open>What the compiler reads from its host: files, their times, the include paths and options.\<close>

record host =
  file_exists :: "bytes \<Rightarrow> bool"
  file_bytes :: "bytes \<Rightarrow> bytes option"
  file_time :: "bytes \<Rightarrow> bytes option"
  include_paths :: "bytes list"
  base_file :: bytes
  opt_Werror :: bool

fun lift_err :: "('e \<Rightarrow> cpp_error) \<Rightarrow> 'e + 'a \<Rightarrow> cpp_error + 'a" where
  "lift_err f (Inl e) = Inl (f e)"
| "lift_err f (Inr a) = Inr a"

section \<open>Lists of tokens\<close>

definition is_hash :: "pp_token \<Rightarrow> bool" where
  "is_hash t \<longleftrightarrow> bol t \<and> equal_tok t ''#''"

text \<open>The token a pointer points to and the pointer to its successor.\<close>

definition tok_at :: "toks \<Rightarrow> cpp_error + pp_token" where
  "tok_at ts = (case ts of [] \<Rightarrow> Inl Null_deref | t # r \<Rightarrow> Inr t)"

definition tok_next :: "toks \<Rightarrow> cpp_error + toks" where
  "tok_next ts = (case ts of [] \<Rightarrow> Inl Null_deref | t # r \<Rightarrow> Inr r)"

lemma tok_at_simps [simp]: "tok_at [] = Inl Null_deref" "tok_at (t # r) = Inr t"
  by (simp_all add: tok_at_def)

lemma tok_next_simps [simp]: "tok_next [] = Inl Null_deref" "tok_next (t # r) = Inr r"
  by (simp_all add: tok_next_def)

definition skip_tok :: "toks \<Rightarrow> string \<Rightarrow> cpp_error + toks" where
  "skip_tok ts op =
     bind_res (tok_at ts) (\<lambda>t. if \<not> equal_tok t op then Inl (Tok_error t (''expected '' @ op)) else Inr (tl ts))"

text \<open>The loop condition is the one of the code: it skips nothing, since the first token is not at a line start.\<close>

definition skip_line :: "host \<Rightarrow> toks \<Rightarrow> cpp_error + toks" where
  "skip_line h ts =
     bind_res (tok_at ts) (\<lambda>t.
       if bol t then Inr ts
       else if opt_Werror h then Inl (Tok_error t ''extra token'')
       else Inr (dropWhile bol ts))"

text \<open>\<open>copy_token\<close> is the identity on values; \<open>new_eof\<close> changes the kind and the length.\<close>

definition new_eof :: "pp_token \<Rightarrow> pp_token" where
  "new_eof t = t\<lparr>pt_tok := (pt_tok t)\<lparr>tk_kind := TK_EOF, tk_len := 0\<rparr>\<rparr>"

definition mark_head :: "pp_token \<Rightarrow> toks \<Rightarrow> toks" where
  "mark_head u ts =
     (case ts of [] \<Rightarrow> []
      | t # r \<Rightarrow> t\<lparr>pt_tok := (pt_tok t)\<lparr>tk_at_bol := bol u, tk_has_space := spaced u\<rparr>\<rparr> # r)"

text \<open>The tokens before the end of file.\<close>

fun upto_eof :: "toks \<Rightarrow> cpp_error + toks" where
  "upto_eof [] = Inl Null_deref"
| "upto_eof (t # ts) = (if kind t = TK_EOF then Inr [] else bind_res (upto_eof ts) (\<lambda>us. Inr (t # us)))"

definition append_toks :: "toks \<Rightarrow> toks \<Rightarrow> cpp_error + toks" where
  "append_toks ts us = bind_res (upto_eof ts) (\<lambda>vs. Inr (vs @ us))"

text \<open>The tokens of the line with an end of file, and what follows the line.\<close>

fun copy_line :: "toks \<Rightarrow> cpp_error + (toks \<times> toks)" where
  "copy_line [] = Inl Null_deref"
| "copy_line (t # ts) =
     (if bol t then Inr ([new_eof t], t # ts)
      else bind_res (copy_line ts) (\<lambda>(l, r). Inr (t # l, r)))"

section \<open>Hidesets\<close>

definition hideset_union :: "bytes list \<Rightarrow> bytes list \<Rightarrow> bytes list" where
  "hideset_union hs1 hs2 = hs1 @ hs2"

definition hideset_contains :: "bytes list \<Rightarrow> bytes \<Rightarrow> bool" where
  "hideset_contains hs s \<longleftrightarrow> list_ex (\<lambda>n. n = s) hs"

definition hideset_intersection :: "bytes list \<Rightarrow> bytes list \<Rightarrow> bytes list" where
  "hideset_intersection hs1 hs2 = filter (hideset_contains hs2) hs1"

definition add_hideset :: "toks \<Rightarrow> bytes list \<Rightarrow> toks" where
  "add_hideset ts hs = map (\<lambda>t. t\<lparr>pt_hideset := hideset_union (pt_hideset t) hs\<rparr>) ts"

section \<open>Skipping conditional groups\<close>

definition starts_cond :: "toks \<Rightarrow> bool" where
  "starts_cond ts =
     (case ts of t # u # r \<Rightarrow> is_hash t \<and> (equal_tok u ''if'' \<or> equal_tok u ''ifdef'' \<or> equal_tok u ''ifndef'') | _ \<Rightarrow> False)"

definition is_directive :: "toks \<Rightarrow> string list \<Rightarrow> bool" where
  "is_directive ts ds = (case ts of t # u # r \<Rightarrow> is_hash t \<and> list_ex (equal_tok u) ds | _ \<Rightarrow> False)"

text \<open>
  \<open>skip_cond_incl2\<close> calls itself at a nested conditional and goes on after it; here \<open>d\<close> counts the calls that are
  active, the first one included, and the list ends with the token of the end of file.
\<close>

fun skip_nested :: "nat \<Rightarrow> toks \<Rightarrow> toks" where
  "skip_nested d [] = []"
| "skip_nested d [t] = [t]"
| "skip_nested d (t # u # ts) =
     (if d = 0 \<or> kind t = TK_EOF then t # u # ts
      else if starts_cond (t # u # ts) then skip_nested (Suc d) ts
      else if is_directive (t # u # ts) [''endif''] then skip_nested (d - 1) ts
      else skip_nested d (u # ts))"

definition skip_cond_incl2 :: "toks \<Rightarrow> toks" where "skip_cond_incl2 ts = skip_nested 1 ts"

lemma skip_nested_length: "length (skip_nested d ts) \<le> length ts"
  by (induction d ts rule: skip_nested.induct) auto

function (sequential) skip_cond_incl :: "toks \<Rightarrow> toks" where
  "skip_cond_incl (t # u # ts) =
     (if kind t = TK_EOF then t # u # ts
      else if starts_cond (t # u # ts) then skip_cond_incl (skip_cond_incl2 ts)
      else if is_directive (t # u # ts) [''elif'', ''else'', ''endif''] then t # u # ts
      else skip_cond_incl (u # ts))"
| "skip_cond_incl ts = ts"
  by pat_completeness auto
termination
  by (relation "measure length") (auto simp: skip_cond_incl2_def le_imp_less_Suc less_SucI intro!: le_less_trans [OF skip_nested_length])

declare skip_cond_incl.simps(1) [simp del]

section \<open>Text of tokens\<close>

definition quote_string :: "bytes \<Rightarrow> bytes" where
  "quote_string s = [34] @ concat (map (\<lambda>c. if c = 92 \<or> c = 34 then [92, c] else [c]) s) @ [34]"

text \<open>\<open>join_tokens\<close> of the tokens before \<open>end\<close>; a token that had a space before it gets one, the first does not.\<close>

definition join_tokens :: "toks \<Rightarrow> bytes" where
  "join_tokens ts =
     (case ts of [] \<Rightarrow> []
      | t # r \<Rightarrow> spelling t @ concat (map (\<lambda>u. (if spaced u then [32] else []) @ spelling u) r))"

text \<open>
  \<open>tokenize(new_file(name, no, buf))\<close>: the new file has the name of file \<open>f\<close>, and its tokens its display name.
\<close>

definition lift_tokens :: "src \<Rightarrow> nat \<Rightarrow> bytes \<Rightarrow> token list \<Rightarrow> toks" where
  "lift_tokens s f name ts =
     map (\<lambda>t. \<lparr>pt_tok = t, pt_src = s, pt_file = f, pt_filename = name, pt_line = int (tk_line_no t), pt_delta = 0,
       pt_hideset = [], pt_origin = None\<rparr>) ts"

definition lex_file :: "bytes \<Rightarrow> src \<Rightarrow> cpp \<Rightarrow> cpp_error + (toks \<times> cpp)" where
  "lex_file name s st =
     bind_res (lift_err Lex_error (tokenize s (type_ids st))) (\<lambda>(ts, ids).
       Inr (lift_tokens s (length (files st)) name ts,
            st\<lparr>files := files st @ [\<lparr>pf_name = name, pf_display = name, pf_delta = 0\<rparr>], type_ids := ids\<rparr>))"

definition file_of :: "pp_token \<Rightarrow> cpp \<Rightarrow> pp_file" where
  "file_of t st = files st ! pt_file t"

definition lex_like :: "pp_token \<Rightarrow> src \<Rightarrow> cpp \<Rightarrow> cpp_error + (toks \<times> cpp)" where
  "lex_like t s st = lex_file (pf_name (file_of t st)) s st"

definition new_str_token :: "bytes \<Rightarrow> pp_token \<Rightarrow> cpp \<Rightarrow> cpp_error + (toks \<times> cpp)" where
  "new_str_token s tmpl st = lex_like tmpl (quote_string s) st"

text \<open>\<open>%d\<close> and a newline.\<close>

definition new_num_token :: "int \<Rightarrow> pp_token \<Rightarrow> cpp \<Rightarrow> cpp_error + (toks \<times> cpp)" where
  "new_num_token v tmpl st = lex_like tmpl (bytes_of (show_int v) @ [10]) st"

end
