(* ===== verification/Const_Expr.thy ===== *)
theory Const_Expr
  imports Pp_Token Ast "HOL-Library.Signed_Division"
begin

text \<open>
  Constant expressions (\<open>const_expr\<close> and the expression parser of \<open>src/parse.c\<close>, \<open>add_type\<close> of
  \<open>src/type.c\<close>) on integer constants and punctuators, the tokens that remain in a \<open>#if\<close> line and the literals of
  array sizes, enumerators and \<open>case\<close> labels. Names, keywords,
  strings, floating constants, compound assignments, increments, addresses and statement expressions are
  \<open>Unmodelled\<close>. The nodes are those the parser builds of these tokens; an \<open>int64_t\<close> is a 64-bit word, and what
  the host leaves undefined is \<open>Host_trap\<close>. Recursion is bounded by fuel, which the number of the tokens provides.
\<close>

section \<open>Nodes\<close>

text \<open>\<open>CTmp\<close> is the temporary variable of \<open>a ?: b\<close>; the type is \<open>None\<close> until \<open>add_type\<close> sets it.\<close>

datatype (plugins only: code size) cexpr =
  CNum pp_token "ctype option" u64
| CTmp pp_token ctype
| CUn node_kind cexpr pp_token "ctype option"
| CBin node_kind cexpr cexpr pp_token "ctype option"
| CCond cexpr cexpr cexpr pp_token "ctype option"
| CCast cexpr pp_token ctype

fun ce_tok :: "cexpr \<Rightarrow> pp_token" where
  "ce_tok (CNum t ty v) = t" | "ce_tok (CTmp t ty) = t" | "ce_tok (CUn k a t ty) = t"
| "ce_tok (CBin k a b t ty) = t" | "ce_tok (CCond c a b t ty) = t" | "ce_tok (CCast a t ty) = t"

fun ce_ty :: "cexpr \<Rightarrow> ctype option" where
  "ce_ty (CNum t ty v) = ty" | "ce_ty (CTmp t ty) = Some ty" | "ce_ty (CUn k a t ty) = ty"
| "ce_ty (CBin k a b t ty) = ty" | "ce_ty (CCond c a b t ty) = ty" | "ce_ty (CCast a t ty) = Some ty"

definition new_binary :: "node_kind \<Rightarrow> cexpr \<Rightarrow> cexpr \<Rightarrow> pp_token \<Rightarrow> cexpr" where
  "new_binary k a b t = CBin k a b t None"

definition new_unary :: "node_kind \<Rightarrow> cexpr \<Rightarrow> pp_token \<Rightarrow> cexpr" where
  "new_unary k a t = CUn k a t None"

text \<open>The type of a node that has one; a node without one is a null pointer.\<close>

definition ty_of :: "cexpr \<Rightarrow> cpp_error + ctype" where
  "ty_of e = (case ce_ty e of None \<Rightarrow> Inl Null_deref | Some ty \<Rightarrow> Inr ty)"

text \<open>\<open>new_cast\<close> of a node that has its type. The copy of the target type differs from it only in its address.\<close>

definition new_cast :: "cexpr \<Rightarrow> ctype \<Rightarrow> cexpr" where "new_cast a ty = CCast a (ce_tok a) ty"

definition usual_arith_conv :: "cexpr \<Rightarrow> cexpr \<Rightarrow> cpp_error + (cexpr \<times> cexpr \<times> ctype)" where
  "usual_arith_conv a b =
     bind_res (ty_of a) (\<lambda>ta. bind_res (ty_of b) (\<lambda>tb.
       let ty = get_common_type 0 ta tb in Inr (new_cast a ty, new_cast b ty, ty)))"

section \<open>Types\<close>

fun add_type :: "cexpr \<Rightarrow> cpp_error + cexpr" where
  "add_type (CNum t ty v) = Inr (CNum t (Some (case ty of None \<Rightarrow> ty_int | Some ty \<Rightarrow> ty)) v)"
| "add_type (CTmp t ty) = Inr (CTmp t ty)"
| "add_type (CCast a t ty) = Inr (CCast a t ty)"
| "add_type (CUn k a t (Some ty)) = Inr (CUn k a t (Some ty))"
| "add_type (CBin k a b t (Some ty)) = Inr (CBin k a b t (Some ty))"
| "add_type (CCond c a b t (Some ty)) = Inr (CCond c a b t (Some ty))"
| "add_type (CUn k a t None) =
     bind_res (add_type a) (\<lambda>a. bind_res (ty_of a) (\<lambda>ta.
       if k = ND_NEG then
         (let ty = get_common_type 0 ty_int ta in Inr (CUn k (new_cast a ty) t (Some ty)))
       else if k = ND_NOT then Inr (CUn k a t (Some ty_int))
       else if k = ND_BITNOT then Inr (CUn k a t (Some ta))
       else if k = ND_DEREF then
         (case ty_base ta of
            None \<Rightarrow> Inl (Tok_error t ''invalid pointer dereference'')
          | Some base \<Rightarrow>
              if ty_kind base = TY_VOID then Inl (Tok_error t ''dereferencing a void pointer'')
              else Inr (CUn k a t (Some base)))
       else Inr (CUn k a t None)))"
| "add_type (CBin k a b t None) =
     bind_res (add_type a) (\<lambda>a. bind_res (add_type b) (\<lambda>b.
       if k \<in> {ND_ADD, ND_SUB, ND_MUL, ND_DIV, ND_MOD, ND_BITAND, ND_BITOR, ND_BITXOR} then
         bind_res (usual_arith_conv a b) (\<lambda>(a, b, ty). Inr (CBin k a b t (Some ty)))
       else if k \<in> {ND_EQ, ND_NE, ND_LT, ND_LE} then
         bind_res (usual_arith_conv a b) (\<lambda>(a, b, ty). Inr (CBin k a b t (Some ty_int)))
       else if k = ND_ASSIGN then
         bind_res (ty_of a) (\<lambda>ta.
           if ty_kind ta = TY_ARRAY then Inl (Tok_error (ce_tok a) ''not an lvalue'')
           else Inr (CBin k a (if ty_kind ta \<noteq> TY_STRUCT then new_cast b ta else b) t (Some ta)))
       else if k \<in> {ND_LOGOR, ND_LOGAND} then Inr (CBin k a b t (Some ty_int))
       else if k \<in> {ND_SHL, ND_SHR} then Inr (CBin k a b t (ce_ty a))
       else if k = ND_COMMA then Inr (CBin k a b t (ce_ty b))
       else Inr (CBin k a b t None)))"
| "add_type (CCond c a b t None) =
     bind_res (add_type c) (\<lambda>c. bind_res (add_type a) (\<lambda>a. bind_res (add_type b) (\<lambda>b.
       bind_res (ty_of a) (\<lambda>ta. bind_res (ty_of b) (\<lambda>tb.
         if ty_kind ta = TY_VOID \<or> ty_kind tb = TY_VOID then Inr (CCond c a b t (Some ty_void))
         else bind_res (usual_arith_conv a b) (\<lambda>(a, b, ty). Inr (CCond c a b t (Some ty))))))))"

section \<open>Evaluation\<close>

definition truth :: "bool \<Rightarrow> u64" where "truth b = (if b then 1 else 0)"

text \<open>The conversion of a value to an integer type, \<open>uint8_t\<close> to \<open>int32_t\<close>; 8 bytes keep the value.\<close>

definition cast_val :: "ctype \<Rightarrow> u64 \<Rightarrow> u64" where
  "cast_val ty v =
     (if is_integer ty then
        (if ty_size ty = 1 then (if ty_unsigned ty then ucast (ucast v :: u8) else scast (ucast v :: u8))
         else if ty_size ty = 2 then (if ty_unsigned ty then ucast (ucast v :: u16) else scast (ucast v :: u16))
         else if ty_size ty = 4 then (if ty_unsigned ty then ucast (ucast v :: u32) else scast (ucast v :: u32))
         else v)
      else v)"

text \<open>Division by zero and the quotient that does not fit stop the host; so may a shift that is too far.\<close>

definition div_val :: "bool \<Rightarrow> u64 \<Rightarrow> u64 \<Rightarrow> cpp_error + u64" where
  "div_val uns x y =
     (if y = 0 then Inl Host_trap
      else if uns then Inr (x div y)
      else if sint x = - (2 ^ 63) \<and> sint y = - 1 then Inl Host_trap
      else Inr (word_of_int (sint x sdiv sint y)))"

definition mod_val :: "bool \<Rightarrow> u64 \<Rightarrow> u64 \<Rightarrow> cpp_error + u64" where
  "mod_val uns x y =
     (if y = 0 then Inl Host_trap
      else if uns then Inr (x mod y)
      else if sint x = - (2 ^ 63) \<and> sint y = - 1 then Inl Host_trap
      else Inr (word_of_int (sint x smod sint y)))"

definition shift_val :: "(nat \<Rightarrow> u64 \<Rightarrow> u64) \<Rightarrow> u64 \<Rightarrow> u64 \<Rightarrow> cpp_error + u64" where
  "shift_val f x y = (if sint y < 0 \<or> 63 < sint y then Inl Host_trap else Inr (f (unat y) x))"

text \<open>The operators that evaluate both operands; \<open>uns\<close> and \<open>sz\<close> are of the node, \<open>luns\<close> of its left operand.\<close>

definition bin_val :: "node_kind \<Rightarrow> bool \<Rightarrow> int \<Rightarrow> bool \<Rightarrow> u64 \<Rightarrow> u64 \<Rightarrow> pp_token \<Rightarrow> cpp_error + u64" where
  "bin_val k uns sz luns x y t =
     (if k = ND_ADD then Inr (x + y)
      else if k = ND_SUB then Inr (x - y)
      else if k = ND_MUL then Inr (x * y)
      else if k = ND_DIV then div_val uns x y
      else if k = ND_MOD then mod_val uns x y
      else if k = ND_BITAND then Inr (x AND y)
      else if k = ND_BITOR then Inr (x OR y)
      else if k = ND_BITXOR then Inr (x XOR y)
      else if k = ND_SHL then shift_val push_bit x y
      else if k = ND_SHR then shift_val (if uns \<and> sz = 8 then drop_bit else signed_drop_bit) x y
      else if k = ND_EQ then Inr (truth (x = y))
      else if k = ND_NE then Inr (truth (x \<noteq> y))
      else if k = ND_LT then Inr (truth (if luns then x < y else sint x < sint y))
      else if k = ND_LE then Inr (truth (if luns then x \<le> y else sint x \<le> sint y))
      else Inl (Tok_error t ''not a compile-time constant''))"

text \<open>\<open>eval\<close> of a node that \<open>add_type\<close> has completed; \<open>label\<close> is null, so a variable is no constant.\<close>

fun eval_typed :: "cexpr \<Rightarrow> cpp_error + u64" where
  "eval_typed (CNum t ty v) = Inr v"
| "eval_typed (CTmp t ty) = Inl (Tok_error t ''not a compile-time constant'')"
| "eval_typed (CCast a t ty) = bind_res (eval_typed a) (\<lambda>v. Inr (cast_val ty v))"
| "eval_typed (CUn k a t ty) =
     (if k = ND_NEG then bind_res (eval_typed a) (\<lambda>v. Inr (- v))
      else if k = ND_NOT then bind_res (eval_typed a) (\<lambda>v. Inr (truth (v = 0)))
      else if k = ND_BITNOT then bind_res (eval_typed a) (\<lambda>v. Inr (NOT v))
      else Inl (Tok_error t ''not a compile-time constant''))"
| "eval_typed (CCond c a b t ty) =
     bind_res (eval_typed c) (\<lambda>v. if v \<noteq> 0 then eval_typed a else eval_typed b)"
| "eval_typed (CBin k a b t ty) =
     (if k = ND_COMMA then eval_typed b
      else if k = ND_ASSIGN then Inl (Tok_error t ''not a compile-time constant'')
      else if k = ND_LOGAND then
        bind_res (eval_typed a) (\<lambda>x. if x = 0 then Inr 0 else bind_res (eval_typed b) (\<lambda>y. Inr (truth (y \<noteq> 0))))
      else if k = ND_LOGOR then
        bind_res (eval_typed a) (\<lambda>x. if x \<noteq> 0 then Inr 1 else bind_res (eval_typed b) (\<lambda>y. Inr (truth (y \<noteq> 0))))
      else bind_res (eval_typed a) (\<lambda>x. bind_res (eval_typed b) (\<lambda>y.
        case (ty, ce_ty a) of
          (Some ty, Some ta) \<Rightarrow> bin_val k (ty_unsigned ty) (ty_size ty) (ty_unsigned ta) x y t
        | _ \<Rightarrow> Inl Null_deref)))"

definition eval_ce :: "cexpr \<Rightarrow> cpp_error + u64" where
  "eval_ce e = bind_res (add_type e) eval_typed"

section \<open>The parser\<close>

type_synonym parsed = "cpp_error + (cexpr \<times> toks)"

text \<open>The arithmetic cases of \<open>new_add\<close> and \<open>new_sub\<close>; they complete the types of the operands.\<close>

definition new_arith :: "node_kind \<Rightarrow> cexpr \<Rightarrow> cexpr \<Rightarrow> pp_token \<Rightarrow> cpp_error + cexpr" where
  "new_arith k a b t =
     bind_res (add_type a) (\<lambda>a. bind_res (add_type b) (\<lambda>b.
     bind_res (ty_of a) (\<lambda>ta. bind_res (ty_of b) (\<lambda>tb.
       if is_numeric ta \<and> is_numeric tb then Inr (new_binary k a b t) else Inl (Unmodelled t)))))"

type_synonym binop_table = "(string \<times> (cexpr \<Rightarrow> cexpr \<Rightarrow> pp_token \<Rightarrow> cpp_error + cexpr)) list"

definition plain :: "node_kind \<Rightarrow> cexpr \<Rightarrow> cexpr \<Rightarrow> pp_token \<Rightarrow> cpp_error + cexpr" where
  "plain k a b t = Inr (new_binary k a b t)"

definition swapped :: "node_kind \<Rightarrow> cexpr \<Rightarrow> cexpr \<Rightarrow> pp_token \<Rightarrow> cpp_error + cexpr" where
  "swapped k a b t = Inr (new_binary k b a t)"

text \<open>The loop that every level of binary operators runs; each round takes a token, so \<open>n\<close> starts as their number.\<close>

fun assoc_loop :: "binop_table \<Rightarrow> (toks \<Rightarrow> parsed) \<Rightarrow> nat \<Rightarrow> cexpr \<Rightarrow> toks \<Rightarrow> parsed" where
  "assoc_loop ops operand n e [] = Inl Null_deref"
| "assoc_loop ops operand n e (t # ts) =
     (case find (\<lambda>p. equal_tok t (fst p)) ops of
        None \<Rightarrow> Inr (e, t # ts)
      | Some (op, mk) \<Rightarrow>
          (case n of 0 \<Rightarrow> Inl Out_of_fuel
           | Suc m \<Rightarrow> bind_res (operand ts) (\<lambda>(b, r). bind_res (mk e b t) (\<lambda>e. assoc_loop ops operand m e r))))"

definition left_assoc :: "binop_table \<Rightarrow> (toks \<Rightarrow> parsed) \<Rightarrow> toks \<Rightarrow> parsed" where
  "left_assoc ops operand ts = bind_res (operand ts) (\<lambda>(e, r). assoc_loop ops operand (length r) e r)"

definition mul_p :: "(toks \<Rightarrow> parsed) \<Rightarrow> toks \<Rightarrow> parsed" where
  "mul_p cast = left_assoc [(''*'', plain ND_MUL), (''/'', plain ND_DIV), (''%'', plain ND_MOD)] cast"

definition add_p :: "(toks \<Rightarrow> parsed) \<Rightarrow> toks \<Rightarrow> parsed" where
  "add_p cast = left_assoc [(''+'', new_arith ND_ADD), (''-'', new_arith ND_SUB)] (mul_p cast)"

definition shift_p :: "(toks \<Rightarrow> parsed) \<Rightarrow> toks \<Rightarrow> parsed" where
  "shift_p cast = left_assoc [(''<<'', plain ND_SHL), (''>>'', plain ND_SHR)] (add_p cast)"

definition relational_p :: "(toks \<Rightarrow> parsed) \<Rightarrow> toks \<Rightarrow> parsed" where
  "relational_p cast =
     left_assoc [(''<'', plain ND_LT), (''<='', plain ND_LE), (''>'', swapped ND_LT), (''>='', swapped ND_LE)] (shift_p cast)"

definition equality_p :: "(toks \<Rightarrow> parsed) \<Rightarrow> toks \<Rightarrow> parsed" where
  "equality_p cast = left_assoc [(''=='', plain ND_EQ), (''!='', plain ND_NE)] (relational_p cast)"

definition bitand_p :: "(toks \<Rightarrow> parsed) \<Rightarrow> toks \<Rightarrow> parsed" where
  "bitand_p cast = left_assoc [(''&'', plain ND_BITAND)] (equality_p cast)"

definition bitxor_p :: "(toks \<Rightarrow> parsed) \<Rightarrow> toks \<Rightarrow> parsed" where
  "bitxor_p cast = left_assoc [(''^'', plain ND_BITXOR)] (bitand_p cast)"

definition bitor_p :: "(toks \<Rightarrow> parsed) \<Rightarrow> toks \<Rightarrow> parsed" where
  "bitor_p cast = left_assoc [(''|'', plain ND_BITOR)] (bitxor_p cast)"

definition logand_p :: "(toks \<Rightarrow> parsed) \<Rightarrow> toks \<Rightarrow> parsed" where
  "logand_p cast = left_assoc [(''&&'', plain ND_LOGAND)] (bitor_p cast)"

definition logor_p :: "(toks \<Rightarrow> parsed) \<Rightarrow> toks \<Rightarrow> parsed" where
  "logor_p cast = left_assoc [(''||'', plain ND_LOGOR)] (logand_p cast)"

text \<open>A name or a keyword may start a type, which is not in the model.\<close>

definition may_be_type :: "toks \<Rightarrow> bool" where
  "may_be_type ts = (case ts of [] \<Rightarrow> False | t # r \<Rightarrow> kind t = TK_IDENT \<or> kind t = TK_KEYWORD)"

definition primary_p :: "(toks \<Rightarrow> parsed) \<Rightarrow> toks \<Rightarrow> parsed" where
  "primary_p expr ts =
     bind_res (tok_at ts) (\<lambda>t.
       if equal_tok t ''('' then
         bind_res (tok_at (tl ts)) (\<lambda>u.
           if equal_tok u ''{'' then Inl (Unmodelled u)
           else bind_res (expr (tl ts)) (\<lambda>(e, r). bind_res (skip_tok r '')'') (\<lambda>r. Inr (e, r))))
       else if kind t \<in> {TK_IDENT, TK_KEYWORD, TK_STR} then Inl (Unmodelled t)
       else if kind t = TK_NUM then
         (case tk_ty (pt_tok t) of
            None \<Rightarrow> Inl Null_deref
          | Some ty \<Rightarrow> if is_flonum ty then Inl (Unmodelled t) else Inr (CNum t (Some ty) (tk_val (pt_tok t)), tl ts))
       else Inl (Tok_error t ''expected an expression''))"

definition struct_ref :: "cexpr \<Rightarrow> pp_token \<Rightarrow> parsed" where
  "struct_ref e t =
     bind_res (add_type e) (\<lambda>e. bind_res (ty_of e) (\<lambda>ty.
       if ty_kind ty \<noteq> TY_STRUCT \<and> ty_kind ty \<noteq> TY_UNION then Inl (Tok_error (ce_tok e) ''not a struct nor a union'')
       else Inl (Unmodelled t)))"

definition funcall :: "cexpr \<Rightarrow> pp_token \<Rightarrow> parsed" where
  "funcall e t =
     bind_res (add_type e) (\<lambda>e. bind_res (ty_of e) (\<lambda>ty.
       if ty_kind ty \<noteq> TY_FUNC \<and> ty_kind ty \<noteq> TY_PTR then Inl (Tok_error (ce_tok e) ''not a function'')
       else Inl (Unmodelled t)))"

fun postfix_loop :: "(toks \<Rightarrow> parsed) \<Rightarrow> nat \<Rightarrow> cexpr \<Rightarrow> toks \<Rightarrow> parsed" where
  "postfix_loop expr n e [] = Inl Null_deref"
| "postfix_loop expr n e (t # ts) =
     (if equal_tok t ''('' then funcall e t
      else if equal_tok t ''['' then
        (case n of 0 \<Rightarrow> Inl Out_of_fuel
         | Suc m \<Rightarrow>
             bind_res (expr ts) (\<lambda>(i, r). bind_res (skip_tok r '']'') (\<lambda>r.
             bind_res (new_arith ND_ADD e i t) (\<lambda>s. postfix_loop expr m (new_unary ND_DEREF s t) r))))
      else if equal_tok t ''.'' then struct_ref e t
      else if equal_tok t ''->'' then struct_ref (new_unary ND_DEREF e t) t
      else if equal_tok t ''++'' \<or> equal_tok t ''--'' then Inl (Unmodelled t)
      else Inr (e, t # ts))"

definition postfix_p :: "(toks \<Rightarrow> parsed) \<Rightarrow> toks \<Rightarrow> parsed" where
  "postfix_p expr ts =
     bind_res (tok_at ts) (\<lambda>t.
       if equal_tok t ''('' \<and> may_be_type (tl ts) then Inl (Unmodelled t)
       else bind_res (primary_p expr ts) (\<lambda>(e, r). postfix_loop expr (length r) e r))"

definition unary_p :: "(toks \<Rightarrow> parsed) \<Rightarrow> (toks \<Rightarrow> parsed) \<Rightarrow> toks \<Rightarrow> parsed" where
  "unary_p cast expr ts =
     bind_res (tok_at ts) (\<lambda>t.
       if equal_tok t ''+'' then cast (tl ts)
       else if equal_tok t ''-'' then bind_res (cast (tl ts)) (\<lambda>(e, r). Inr (new_unary ND_NEG e t, r))
       else if equal_tok t ''&'' then Inl (Unmodelled t)
       else if equal_tok t ''*'' then
         bind_res (cast (tl ts)) (\<lambda>(e, r). bind_res (add_type e) (\<lambda>e. bind_res (ty_of e) (\<lambda>ty.
           if ty_kind ty = TY_FUNC then Inr (e, r) else Inr (new_unary ND_DEREF e t, r))))
       else if equal_tok t ''!'' then bind_res (cast (tl ts)) (\<lambda>(e, r). Inr (new_unary ND_NOT e t, r))
       else if equal_tok t ''~'' then bind_res (cast (tl ts)) (\<lambda>(e, r). Inr (new_unary ND_BITNOT e t, r))
       else if equal_tok t ''++'' \<or> equal_tok t ''--'' then Inl (Unmodelled t)
       else if equal_tok t ''&&'' then
         bind_res (tok_at (tl ts)) (\<lambda>u.
           if kind u \<noteq> TK_IDENT then Inl (Tok_error u ''expected an identifier'') else Inl (Unmodelled u))
       else postfix_p expr ts)"

definition assign_ops :: "string list" where
  "assign_ops = [''+='', ''-='', ''*='', ''/='', ''%='', ''&='', ''|='', ''^='', ''<<='', ''>>='']"

text \<open>The temporary of \<open>a ?: b\<close> has the type of \<open>a\<close>.\<close>

definition elvis :: "cexpr \<Rightarrow> pp_token \<Rightarrow> (toks \<Rightarrow> parsed) \<Rightarrow> toks \<Rightarrow> parsed" where
  "elvis c t cond ts =
     bind_res (add_type c) (\<lambda>c. bind_res (ty_of c) (\<lambda>ty. bind_res (cond ts) (\<lambda>(b, r).
       Inr (new_binary ND_COMMA (new_binary ND_ASSIGN (CTmp t ty) c t) (CCond (CTmp t ty) (CTmp t ty) b t None) t, r))))"

fun cast_p :: "nat \<Rightarrow> toks \<Rightarrow> parsed"
  and conditional :: "nat \<Rightarrow> toks \<Rightarrow> parsed"
  and assign_p :: "nat \<Rightarrow> toks \<Rightarrow> parsed"
  and expr_p :: "nat \<Rightarrow> toks \<Rightarrow> parsed" where
  "cast_p 0 ts = Inl Out_of_fuel"
| "cast_p (Suc n) ts =
     bind_res (tok_at ts) (\<lambda>t.
       if equal_tok t ''('' \<and> may_be_type (tl ts) then Inl (Unmodelled t) else unary_p (cast_p n) (expr_p n) ts)"
| "conditional 0 ts = Inl Out_of_fuel"
| "conditional (Suc n) ts =
     bind_res (logor_p (cast_p n) ts) (\<lambda>(c, r). bind_res (tok_at r) (\<lambda>t.
       if \<not> equal_tok t ''?'' then Inr (c, r)
       else bind_res (tok_at (tl r)) (\<lambda>u.
         if equal_tok u '':'' then elvis c t (conditional n) (tl (tl r))
         else bind_res (expr_p n (tl r)) (\<lambda>(a, s). bind_res (skip_tok s '':'') (\<lambda>s.
              bind_res (conditional n s) (\<lambda>(b, s). Inr (CCond c a b t None, s)))))))"
| "assign_p 0 ts = Inl Out_of_fuel"
| "assign_p (Suc n) ts =
     bind_res (conditional n ts) (\<lambda>(a, r). bind_res (tok_at r) (\<lambda>t.
       if equal_tok t ''='' then bind_res (assign_p n (tl r)) (\<lambda>(b, s). Inr (new_binary ND_ASSIGN a b t, s))
       else if list_ex (equal_tok t) assign_ops then Inl (Unmodelled t)
       else Inr (a, r)))"
| "expr_p 0 ts = Inl Out_of_fuel"
| "expr_p (Suc n) ts =
     bind_res (assign_p n ts) (\<lambda>(a, r). bind_res (tok_at r) (\<lambda>t.
       if equal_tok t '','' then bind_res (expr_p n (tl r)) (\<lambda>(b, s). Inr (new_binary ND_COMMA a b t, s))
       else Inr (a, r)))"

declare cast_p.simps [simp del] conditional.simps [simp del] assign_p.simps [simp del] expr_p.simps [simp del]

text \<open>Between two tokens the parser enters at most four functions that count.\<close>

definition parse_fuel :: "toks \<Rightarrow> nat" where "parse_fuel ts = 4 * length ts + 4"

definition const_expr :: "toks \<Rightarrow> cpp_error + (u64 \<times> toks)" where
  "const_expr ts = bind_res (conditional (parse_fuel ts) ts) (\<lambda>(e, r). bind_res (eval_ce e) (\<lambda>v. Inr (v, r)))"

end
