(* ===== verification/Const_Parse.thy ===== *)
theory Const_Parse
  imports Const_Expr
begin

text \<open>
  The parser of constant expressions: it never runs out of fuel, what it consumes is what it is given, and it
  accepts the sentences of the expression grammar with the tree of the grammar.
\<close>

section \<open>Fuel\<close>

text \<open>
  Two parsers agree on all lists up to a length, do not run out of fuel there and consume at least a token.
\<close>

definition agree :: "nat \<Rightarrow> (toks \<Rightarrow> parsed) \<Rightarrow> (toks \<Rightarrow> parsed) \<Rightarrow> bool" where
  "agree L p q \<longleftrightarrow>
     (\<forall>ts. length ts \<le> L \<longrightarrow> p ts = q ts \<and> p ts \<noteq> Inl Out_of_fuel \<and> (\<forall>e r. p ts = Inr (e, r) \<longrightarrow> length r < length ts))"

lemma agreeD:
  assumes "agree L p q" "length ts \<le> L"
  shows "p ts = q ts" "p ts \<noteq> Inl Out_of_fuel" "p ts = Inr (e, r) \<Longrightarrow> length r < length ts"
    "q ts \<noteq> Inl Out_of_fuel" "q ts = Inr (e, r) \<Longrightarrow> length r < length ts"
  using assms unfolding agree_def by metis+

lemma agree_mono: "agree L p q \<Longrightarrow> M \<le> L \<Longrightarrow> agree M p q"
  unfolding agree_def by (meson order_trans)

lemma agreeI:
  assumes "\<And>ts. length ts \<le> L \<Longrightarrow> p ts = q ts \<and> p ts \<noteq> Inl Out_of_fuel \<and> (\<forall>e r. p ts = Inr (e, r) \<longrightarrow> length r < length ts)"
  shows "agree L p q"
  using assms unfolding agree_def by blast

text \<open>What does not run out of fuel.\<close>

definition fed :: "cpp_error + 'a \<Rightarrow> bool" where "fed r \<longleftrightarrow> r \<noteq> Inl Out_of_fuel"

lemma fed_simps [simp]: "fed (Inr a)" "fed (Inl e) \<longleftrightarrow> e \<noteq> Out_of_fuel"
  by (auto simp: fed_def)

lemma fed_bind: "fed r \<Longrightarrow> (\<And>a. r = Inr a \<Longrightarrow> fed (f a)) \<Longrightarrow> fed (bind_res r f)"
  by (cases r) auto

lemma fed_lookups [simp]: "fed (tok_at ts)" "fed (tok_next ts)" "fed (ty_of e)"
  by (auto simp: tok_at_def tok_next_def ty_of_def split: list.splits option.splits)

lemma skip_tok_fed [simp]: "fed (skip_tok ts op)"
  by (auto simp: skip_tok_def intro!: fed_bind)

lemma usual_arith_conv_fed [simp]: "fed (usual_arith_conv a b)"
  by (auto simp: usual_arith_conv_def Let_def intro!: fed_bind)

lemma add_type_fed [simp]: "fed (add_type e)"
  by (induction e rule: add_type.induct) (auto simp: Let_def intro!: fed_bind split: option.splits)

lemma new_arith_fed [simp]: "fed (new_arith k a b t)"
  by (auto simp: new_arith_def intro!: fed_bind)

lemma skip_tok_Inr: "skip_tok ts op = Inr r \<longleftrightarrow> (\<exists>t. ts = t # r \<and> equal_tok t op)"
  by (cases ts) (auto simp: skip_tok_def)

definition table_fed :: "binop_table \<Rightarrow> bool" where
  "table_fed ops \<longleftrightarrow> (\<forall>(op, mk) \<in> set ops. \<forall>a b t. fed (mk a b t))"

lemma find_table: "find P ops = Some (op, mk) \<Longrightarrow> (op, mk) \<in> set ops"
  by (metis find_Some_iff nth_mem)

lemma agree_loop:
  assumes A: "agree L p q" and T: "table_fed ops" and "length ts \<le> L" "length ts \<le> n" "length ts \<le> m"
  shows "assoc_loop ops p n e ts = assoc_loop ops q m e ts \<and> fed (assoc_loop ops p n e ts) \<and>
    (\<forall>e' r. assoc_loop ops p n e ts = Inr (e', r) \<longrightarrow> length r \<le> length ts)"
  using assms(3-)
proof (induction n arbitrary: m e ts)
  case 0
  then show ?case by simp
next
  case (Suc n)
  show ?case
  proof (cases ts)
    case Nil
    then show ?thesis by simp
  next
    case (Cons t r)
    obtain m' where m: "m = Suc m'" using Suc.prems Cons by (cases m) auto
    show ?thesis
    proof (cases "find (\<lambda>p. equal_tok t (fst p)) ops")
      case None
      then show ?thesis using Cons by simp
    next
      case (Some om)
      obtain op mk where om: "om = (op, mk)" by (cases om)
      have mk: "fed (mk a b t)" for a b using T find_table [OF Some [unfolded om]] by (auto simp: table_fed_def)
      have len: "length r \<le> L" using Suc.prems Cons by simp
      show ?thesis
      proof (cases "p r")
        case (Inl x)
        then show ?thesis using agreeD [OF A len] Cons Some om m by (auto simp: fed_def)
      next
        case (Inr br)
        obtain b r2 where br: "br = (b, r2)" by (cases br)
        have sh: "length r2 < length r" using agreeD(3) [OF A len] Inr br by simp
        have q: "q r = Inr (b, r2)" using agreeD(1) [OF A len] Inr br by simp
        show ?thesis
        proof (cases "mk e b t")
          case (Inl x)
          then show ?thesis using Cons Some om m Inr br q mk [of e b] by (auto simp: fed_def)
        next
          case (Inr e2)
          have "assoc_loop ops p n e2 r2 = assoc_loop ops q m' e2 r2 \<and> fed (assoc_loop ops p n e2 r2) \<and>
             (\<forall>e' r'. assoc_loop ops p n e2 r2 = Inr (e', r') \<longrightarrow> length r' \<le> length r2)"
            using Suc.prems sh Cons m by (intro Suc.IH) auto
          then show ?thesis using Cons Some om m \<open>p r = Inr br\<close> br q Inr sh by fastforce
        qed
      qed
    qed
  qed
qed

lemma agree_left_assoc:
  assumes A: "agree L p q" and T: "table_fed ops"
  shows "agree L (left_assoc ops p) (left_assoc ops q)"
proof (rule agreeI)
  fix ts :: toks assume L: "length ts \<le> L"
  show "left_assoc ops p ts = left_assoc ops q ts \<and> left_assoc ops p ts \<noteq> Inl Out_of_fuel \<and>
    (\<forall>e r. left_assoc ops p ts = Inr (e, r) \<longrightarrow> length r < length ts)"
  proof (cases "p ts")
    case (Inl x)
    then show ?thesis using agreeD [OF A L] by (auto simp: left_assoc_def)
  next
    case (Inr er)
    obtain e r where er: "er = (e, r)" by (cases er)
    have sh: "length r < length ts" using agreeD(3) [OF A L] Inr er by simp
    have "q ts = Inr (e, r)" using agreeD(1) [OF A L] Inr er by simp
    then show ?thesis
      using Inr er sh L agree_loop [OF A T, of r "length r" "length r" e]
      by (fastforce simp: left_assoc_def fed_def)
  qed
qed

lemma table_fed_simps [simp]:
  "table_fed []" "table_fed ((op, plain k) # ops) = table_fed ops" "table_fed ((op, swapped k) # ops) = table_fed ops"
  "table_fed ((op, new_arith k) # ops) = table_fed ops"
  by (auto simp: table_fed_def plain_def swapped_def)

lemma agree_levels:
  assumes "agree L p q"
  shows "agree L (mul_p p) (mul_p q)" "agree L (add_p p) (add_p q)" "agree L (shift_p p) (shift_p q)"
    "agree L (relational_p p) (relational_p q)" "agree L (equality_p p) (equality_p q)" "agree L (bitand_p p) (bitand_p q)"
    "agree L (bitxor_p p) (bitxor_p q)" "agree L (bitor_p p) (bitor_p q)" "agree L (logand_p p) (logand_p q)"
    "agree L (logor_p p) (logor_p q)"
  by (simp_all add: mul_p_def add_p_def shift_p_def relational_p_def equality_p_def bitand_p_def bitxor_p_def bitor_p_def
      logand_p_def logor_p_def agree_left_assoc assms)


lemma agree_postfix_loop:
  assumes A: "agree L p q" and "length ts \<le> L" "length ts \<le> n" "length ts \<le> m"
  shows "postfix_loop p n e ts = postfix_loop q m e ts \<and> fed (postfix_loop p n e ts) \<and>
    (\<forall>e' r. postfix_loop p n e ts = Inr (e', r) \<longrightarrow> length r \<le> length ts)"
  using assms(2-)
proof (induction n arbitrary: m e ts)
  case 0
  then show ?case by simp
next
  case (Suc n)
  have F: "fed (funcall e t)" "fed (struct_ref e t)" "funcall e t \<noteq> Inr x" "struct_ref e t \<noteq> Inr x" for e t x
    by (auto simp: funcall_def struct_ref_def res_simps intro!: fed_bind)
  show ?case
  proof (cases ts)
    case Nil
    then show ?thesis by simp
  next
    case (Cons t r)
    obtain m' where m: "m = Suc m'" using Suc.prems Cons by (cases m) auto
    show ?thesis
    proof (cases "equal_tok t ''('' \<or> \<not> equal_tok t ''[''")
      case True
      then show ?thesis using F Cons m by auto
    next
      case ix: False
      have len: "length r \<le> L" using Suc.prems Cons by simp
      show ?thesis
      proof (cases "\<exists>i r2. p r = Inr (i, r2)")
        case False
        then obtain x where "p r = Inl x" by (cases "p r") auto
        then show ?thesis using agreeD [OF A len] Cons ix m by (auto simp: fed_def)
      next
        case True
        then obtain i r2 where i: "p r = Inr (i, r2)" by blast
        have sh: "length r2 < length r" using agreeD(3) [OF A len i] .
        have q: "q r = Inr (i, r2)" using agreeD(1) [OF A len] i by simp
        show ?thesis
        proof (cases "\<exists>r3 s. skip_tok r2 '']'' = Inr r3 \<and> new_arith ND_ADD e i t = Inr s")
          case False
          then show ?thesis
            using skip_tok_fed [of r2 "'']''"] new_arith_fed [of ND_ADD e i t] Cons ix m i q
            by (cases "skip_tok r2 '']''"; cases "new_arith ND_ADD e i t") auto
        next
          case True
          then obtain r3 s where rs: "skip_tok r2 '']'' = Inr r3" "new_arith ND_ADD e i t = Inr s" by blast
          have "length r3 < length r2" using rs(1) by (auto simp: skip_tok_Inr)
          moreover from this have "postfix_loop p n (new_unary ND_DEREF s t) r3 = postfix_loop q m' (new_unary ND_DEREF s t) r3 \<and>
              fed (postfix_loop p n (new_unary ND_DEREF s t) r3) \<and>
              (\<forall>e' r'. postfix_loop p n (new_unary ND_DEREF s t) r3 = Inr (e', r') \<longrightarrow> length r' \<le> length r3)"
            using Suc.prems sh Cons m by (intro Suc.IH) auto
          ultimately show ?thesis using Cons ix m i q rs sh by fastforce
        qed
      qed
    qed
  qed
qed

text \<open>A parser that starts with a token calls the others on shorter lists.\<close>

lemma agree_bind_step:
  assumes A: "agree L p q" and L: "length ts \<le> L"
    and f: "\<And>e r. length r < length ts \<Longrightarrow> f (e, r) = g (e, r) \<and> fed (f (e, r)) \<and>
      (\<forall>e' r'. f (e, r) = Inr (e', r') \<longrightarrow> length r' \<le> length r)"
  shows "bind_res (p ts) f = bind_res (q ts) g \<and> fed (bind_res (p ts) f) \<and>
    (\<forall>e r. bind_res (p ts) f = Inr (e, r) \<longrightarrow> length r < length ts)"
proof (cases "p ts")
  case (Inl x)
  then show ?thesis using agreeD [OF A L] by (auto simp: fed_def)
next
  case (Inr er)
  obtain e r where er: "er = (e, r)" by (cases er)
  have sh: "length r < length ts" using agreeD(3) [OF A L] Inr er by simp
  have q: "q ts = Inr (e, r)" using agreeD(1) [OF A L] Inr er by simp
  show ?thesis using f [OF sh, of e] sh by (auto simp: Inr q er dest: less_le_trans le_less_trans)
qed

lemma agree_primary:
  assumes A: "agree L p q" and L: "length ts \<le> Suc L"
  shows "primary_p p ts = primary_p q ts \<and> fed (primary_p p ts) \<and> (\<forall>e r. primary_p p ts = Inr (e, r) \<longrightarrow> length r < length ts)"
proof (cases ts)
  case Nil
  then show ?thesis by (simp add: primary_p_def)
next
  case (Cons t r)
  have len: "length r \<le> L" using L Cons by simp
  have B: "bind_res (p r) (\<lambda>(e, r). bind_res (skip_tok r '')'') (\<lambda>r. Inr (e, r))) =
      bind_res (q r) (\<lambda>(e, r). bind_res (skip_tok r '')'') (\<lambda>r. Inr (e, r))) \<and>
    fed (bind_res (p r) (\<lambda>(e, r). bind_res (skip_tok r '')'') (\<lambda>r. Inr (e, r)))) \<and>
    (\<forall>e s. bind_res (p r) (\<lambda>(e, r). bind_res (skip_tok r '')'') (\<lambda>r. Inr (e, r))) = Inr (e, s) \<longrightarrow> length s < length r)"
    by (rule agree_bind_step [OF A len]) (auto simp: res_simps skip_tok_Inr intro!: fed_bind)
  show ?thesis
  proof (cases "equal_tok t ''(''")
    case True
    then show ?thesis using B Cons by (cases r) (auto simp: primary_p_def)
  next
    case False
    then show ?thesis using Cons by (auto simp: primary_p_def split: option.splits)
  qed
qed

lemma agree_postfix:
  assumes A: "agree L p q" and L: "length ts \<le> Suc L"
  shows "postfix_p p ts = postfix_p q ts \<and> fed (postfix_p p ts) \<and> (\<forall>e r. postfix_p p ts = Inr (e, r) \<longrightarrow> length r < length ts)"
proof (cases "ts = [] \<or> (equal_tok (hd ts) ''('' \<and> may_be_type (tl ts)) \<or> (\<exists>x. primary_p p ts = Inl x)")
  case True
  then show ?thesis using agree_primary [OF A L]
    by (cases ts) (auto simp: postfix_p_def fed_def)
next
  case False
  then obtain e r where pr: "primary_p p ts = Inr (e, r)" by (cases "primary_p p ts") auto
  have q: "primary_p q ts = Inr (e, r)" and sh: "length r < length ts" using agree_primary [OF A L] pr by auto
  have "length r \<le> L" using L sh by simp
  then have "postfix_loop p (length r) e r = postfix_loop q (length r) e r \<and> fed (postfix_loop p (length r) e r) \<and>
    (\<forall>e' r'. postfix_loop p (length r) e r = Inr (e', r') \<longrightarrow> length r' \<le> length r)"
    by (intro agree_postfix_loop [OF A]) auto
  then show ?thesis using False pr q sh by (cases ts) (fastforce simp: postfix_p_def)+
qed

lemma agree_unary:
  assumes A: "agree L p q" and E: "agree L p' q'" and L: "length ts \<le> Suc L"
  shows "unary_p p p' ts = unary_p q q' ts \<and> fed (unary_p p p' ts) \<and>
    (\<forall>e r. unary_p p p' ts = Inr (e, r) \<longrightarrow> length r < length ts)"
proof (cases ts)
  case Nil
  then show ?thesis by (simp add: unary_p_def)
next
  case (Cons t r)
  have len: "length r \<le> L" using L Cons by simp
  have pq: "p r = q r" using agreeD(1) [OF A len] .
  have Q: "fed (q r)" "\<And>e s. q r = Inr (e, s) \<Longrightarrow> length s < length r"
    using agreeD [OF A len] by (auto simp: fed_def)
  have U: "postfix_p p' ts = postfix_p q' ts" "fed (postfix_p q' ts)" "\<And>e s. postfix_p q' ts = Inr (e, s) \<Longrightarrow> length s < length ts"
    using agree_postfix [OF E L] by metis+
  have eq: "unary_p p p' ts = unary_p q q' ts" using Cons pq U(1) by (simp add: unary_p_def)
  have fed: "fed (unary_p q q' ts)" using Cons Q(1) U(2) by (auto simp: unary_p_def intro!: fed_bind)
  have "length s < length ts" if "unary_p q q' ts = Inr (e, s)" for e s
    using that Cons U(3) by (auto simp: unary_p_def res_simps dest: Q(2) split: if_splits)
  then show ?thesis unfolding eq using fed by blast
qed

lemma agree_fedI:
  assumes "\<And>ts. length ts \<le> L \<Longrightarrow> p ts = q ts \<and> fed (p ts) \<and> (\<forall>e r. p ts = Inr (e, r) \<longrightarrow> length r < length ts)"
  shows "agree L p q"
  using assms unfolding fed_def by (rule agreeI)

lemma agree_cast:
  assumes "\<And>K. L = Suc K \<Longrightarrow> agree K (cast_p n) (cast_p m) \<and> agree K (expr_p n) (expr_p m)"
  shows "agree L (cast_p (Suc n)) (cast_p (Suc m))"
proof (rule agree_fedI)
  fix ts :: toks assume len: "length ts \<le> L"
  show "cast_p (Suc n) ts = cast_p (Suc m) ts \<and> fed (cast_p (Suc n) ts) \<and>
    (\<forall>e r. cast_p (Suc n) ts = Inr (e, r) \<longrightarrow> length r < length ts)"
  proof (cases ts)
    case Nil
    then show ?thesis by (simp add: cast_p.simps)
  next
    case (Cons t r)
    then obtain K where K: "L = Suc K" using len by (cases L) auto
    have "unary_p (cast_p n) (expr_p n) ts = unary_p (cast_p m) (expr_p m) ts \<and> fed (unary_p (cast_p n) (expr_p n) ts) \<and>
      (\<forall>e r. unary_p (cast_p n) (expr_p n) ts = Inr (e, r) \<longrightarrow> length r < length ts)"
      using assms [OF K] len K by (intro agree_unary) auto
    moreover have "cast_p (Suc k) ts = (if equal_tok t ''('' \<and> may_be_type r then Inl (Unmodelled t) else unary_p (cast_p k) (expr_p k) ts)" for k
      using Cons by (simp add: cast_p.simps)
    ultimately show ?thesis by (cases "equal_tok t ''('' \<and> may_be_type r") (simp, metis)
  qed
qed

lemma agree_conditional:
  assumes C: "agree L (cast_p n) (cast_p m)"
    and I: "\<And>K. L = Suc K \<Longrightarrow> agree K (conditional n) (conditional m) \<and> agree K (expr_p n) (expr_p m)"
  shows "agree L (conditional (Suc n)) (conditional (Suc m))"
proof (rule agree_fedI)
  fix ts :: toks assume len: "length ts \<le> L"
  let ?f = "\<lambda>n (c, r). bind_res (tok_at r) (\<lambda>t.
       if \<not> equal_tok t ''?'' then Inr (c, r)
       else bind_res (tok_at (tl r)) (\<lambda>u.
         if equal_tok u '':'' then elvis c t (conditional n) (tl (tl r))
         else bind_res (expr_p n (tl r)) (\<lambda>(a, s). bind_res (skip_tok s '':'') (\<lambda>s.
              bind_res (conditional n s) (\<lambda>(b, s). Inr (CCond c a b t None, s))))))"
  have f: "?f n (c, r) = ?f m (c, r) \<and> fed (?f n (c, r)) \<and> (\<forall>e' r'. ?f n (c, r) = Inr (e', r') \<longrightarrow> length r' \<le> length r)"
    if sh: "length r < length ts" for c r
  proof (cases "r = [] \<or> \<not> equal_tok (hd r) ''?'' \<or> tl r = []")
    case True
    then show ?thesis by (cases r) auto
  next
    case False
    then obtain t u s where r: "r = t # u # s" and q: "equal_tok t ''?''" by (cases r; cases "tl r") auto
    then obtain K where K: "L = Suc K" using sh len by (cases L) auto
    have kc: "agree K (conditional n) (conditional m)" and ke: "agree K (expr_p n) (expr_p m)" using I [OF K] by auto
    have ls: "length (u # s) \<le> K" using r sh len K by simp
    have cond: "conditional n v = conditional m v \<and> fed (conditional n v) \<and>
        (\<forall>e w. conditional n v = Inr (e, w) \<longrightarrow> length w < length v)" if "length v \<le> K" for v
      using agreeD [OF kc that] by (auto simp: fed_def)
    show ?thesis
    proof (cases "equal_tok u '':''")
      case True
      have "elvis c t (conditional n) s = elvis c t (conditional m) s \<and> fed (elvis c t (conditional n) s) \<and>
        (\<forall>e w. elvis c t (conditional n) s = Inr (e, w) \<longrightarrow> length w < length s)"
        using cond [of s] ls by (auto simp: elvis_def res_simps intro!: fed_bind)
      then show ?thesis using True r q by (auto simp: less_imp_le dest: less_SucI)
    next
      case False
      have "bind_res (expr_p n (u # s)) (\<lambda>(a, s). bind_res (skip_tok s '':'') (\<lambda>s.
              bind_res (conditional n s) (\<lambda>(b, s). Inr (CCond c a b t None, s)))) =
          bind_res (expr_p m (u # s)) (\<lambda>(a, s). bind_res (skip_tok s '':'') (\<lambda>s.
              bind_res (conditional m s) (\<lambda>(b, s). Inr (CCond c a b t None, s)))) \<and>
        fed (bind_res (expr_p n (u # s)) (\<lambda>(a, s). bind_res (skip_tok s '':'') (\<lambda>s.
              bind_res (conditional n s) (\<lambda>(b, s). Inr (CCond c a b t None, s))))) \<and>
        (\<forall>e r. bind_res (expr_p n (u # s)) (\<lambda>(a, s). bind_res (skip_tok s '':'') (\<lambda>s.
              bind_res (conditional n s) (\<lambda>(b, s). Inr (CCond c a b t None, s)))) = Inr (e, r) \<longrightarrow> length r < length (u # s))"
      proof (rule agree_bind_step [OF ke ls], goal_cases)
        case (1 a v)
        show ?case
        proof (cases "skip_tok v '':''")
          case (Inl x)
          then show ?thesis using skip_tok_fed [of v "'':''"] by auto
        next
          case (Inr w)
          then have w: "length w < length v" by (auto simp: skip_tok_Inr)
          then show ?thesis using Inr cond [of w] 1 ls by (auto simp: res_simps intro!: fed_bind dest: less_trans)
        qed
      qed
      then show ?thesis using False r q by (auto simp: less_imp_le)
    qed
  qed
  have "bind_res (logor_p (cast_p n) ts) (?f n) = bind_res (logor_p (cast_p m) ts) (?f m) \<and>
    fed (bind_res (logor_p (cast_p n) ts) (?f n)) \<and>
    (\<forall>e r. bind_res (logor_p (cast_p n) ts) (?f n) = Inr (e, r) \<longrightarrow> length r < length ts)"
    by (rule agree_bind_step [OF agree_levels(10) [OF C] len f])
  then show "conditional (Suc n) ts = conditional (Suc m) ts \<and> fed (conditional (Suc n) ts) \<and>
    (\<forall>e r. conditional (Suc n) ts = Inr (e, r) \<longrightarrow> length r < length ts)"
    unfolding conditional.simps .
qed

lemma agree_assign:
  assumes C: "agree L (conditional n) (conditional m)"
    and I: "\<And>K. L = Suc K \<Longrightarrow> agree K (assign_p n) (assign_p m)"
  shows "agree L (assign_p (Suc n)) (assign_p (Suc m))"
proof (rule agree_fedI)
  fix ts :: toks assume len: "length ts \<le> L"
  let ?f = "\<lambda>n (a, r). bind_res (tok_at r) (\<lambda>t.
       if equal_tok t ''='' then bind_res (assign_p n (tl r)) (\<lambda>(b, s). Inr (new_binary ND_ASSIGN a b t, s))
       else if list_ex (equal_tok t) assign_ops then Inl (Unmodelled t)
       else Inr (a, r))"
  have f: "?f n (a, r) = ?f m (a, r) \<and> fed (?f n (a, r)) \<and> (\<forall>e' r'. ?f n (a, r) = Inr (e', r') \<longrightarrow> length r' \<le> length r)"
    if sh: "length r < length ts" for a r
  proof (cases r)
    case (Cons t s)
    then obtain K where K: "L = Suc K" using sh len by (cases L) auto
    have ls: "length s \<le> K" using Cons sh len K by simp
    have "bind_res (assign_p n s) (\<lambda>(b, s). Inr (new_binary ND_ASSIGN a b t, s)) = bind_res (assign_p m s) (\<lambda>(b, s). Inr (new_binary ND_ASSIGN a b t, s)) \<and>
      fed (bind_res (assign_p n s) (\<lambda>(b, s). Inr (new_binary ND_ASSIGN a b t, s))) \<and>
      (\<forall>e r. bind_res (assign_p n s) (\<lambda>(b, s). Inr (new_binary ND_ASSIGN a b t, s)) = Inr (e, r) \<longrightarrow> length r < length s)"
      by (rule agree_bind_step [OF I [OF K] ls]) auto
    then show ?thesis using Cons by (cases "equal_tok t ''=''") (auto simp: less_imp_le)
  qed simp
  have "bind_res (conditional n ts) (?f n) = bind_res (conditional m ts) (?f m) \<and> fed (bind_res (conditional n ts) (?f n)) \<and>
    (\<forall>e r. bind_res (conditional n ts) (?f n) = Inr (e, r) \<longrightarrow> length r < length ts)"
    by (rule agree_bind_step [OF C len f])
  then show "assign_p (Suc n) ts = assign_p (Suc m) ts \<and> fed (assign_p (Suc n) ts) \<and>
    (\<forall>e r. assign_p (Suc n) ts = Inr (e, r) \<longrightarrow> length r < length ts)"
    unfolding assign_p.simps .
qed

lemma agree_expr:
  assumes C: "agree L (assign_p n) (assign_p m)"
    and I: "\<And>K. L = Suc K \<Longrightarrow> agree K (expr_p n) (expr_p m)"
  shows "agree L (expr_p (Suc n)) (expr_p (Suc m))"
proof (rule agree_fedI)
  fix ts :: toks assume len: "length ts \<le> L"
  let ?f = "\<lambda>n (a, r). bind_res (tok_at r) (\<lambda>t.
       if equal_tok t '','' then bind_res (expr_p n (tl r)) (\<lambda>(b, s). Inr (new_binary ND_COMMA a b t, s))
       else Inr (a, r))"
  have f: "?f n (a, r) = ?f m (a, r) \<and> fed (?f n (a, r)) \<and> (\<forall>e' r'. ?f n (a, r) = Inr (e', r') \<longrightarrow> length r' \<le> length r)"
    if sh: "length r < length ts" for a r
  proof (cases r)
    case (Cons t s)
    then obtain K where K: "L = Suc K" using sh len by (cases L) auto
    have ls: "length s \<le> K" using Cons sh len K by simp
    have "bind_res (expr_p n s) (\<lambda>(b, s). Inr (new_binary ND_COMMA a b t, s)) = bind_res (expr_p m s) (\<lambda>(b, s). Inr (new_binary ND_COMMA a b t, s)) \<and>
      fed (bind_res (expr_p n s) (\<lambda>(b, s). Inr (new_binary ND_COMMA a b t, s))) \<and>
      (\<forall>e r. bind_res (expr_p n s) (\<lambda>(b, s). Inr (new_binary ND_COMMA a b t, s)) = Inr (e, r) \<longrightarrow> length r < length s)"
      by (rule agree_bind_step [OF I [OF K] ls]) auto
    then show ?thesis using Cons by (cases "equal_tok t '',''") (auto simp: less_imp_le)
  qed simp
  have "bind_res (assign_p n ts) (?f n) = bind_res (assign_p m ts) (?f m) \<and> fed (bind_res (assign_p n ts) (?f n)) \<and>
    (\<forall>e r. bind_res (assign_p n ts) (?f n) = Inr (e, r) \<longrightarrow> length r < length ts)"
    by (rule agree_bind_step [OF C len f])
  then show "expr_p (Suc n) ts = expr_p (Suc m) ts \<and> fed (expr_p (Suc n) ts) \<and>
    (\<forall>e r. expr_p (Suc n) ts = Inr (e, r) \<longrightarrow> length r < length ts)"
    unfolding expr_p.simps .
qed

text \<open>With four units for every token and one for every function that is entered, the fuel no longer matters.\<close>

lemma agree_fuel:
  "(\<forall>n m. 4 * L + 1 \<le> n \<longrightarrow> 4 * L + 1 \<le> m \<longrightarrow> agree L (cast_p n) (cast_p m)) \<and>
   (\<forall>n m. 4 * L + 2 \<le> n \<longrightarrow> 4 * L + 2 \<le> m \<longrightarrow> agree L (conditional n) (conditional m)) \<and>
   (\<forall>n m. 4 * L + 3 \<le> n \<longrightarrow> 4 * L + 3 \<le> m \<longrightarrow> agree L (assign_p n) (assign_p m)) \<and>
   (\<forall>n m. 4 * L + 4 \<le> n \<longrightarrow> 4 * L + 4 \<le> m \<longrightarrow> agree L (expr_p n) (expr_p m))"
proof (induction L)
  case 0
  show ?case
  proof (intro conjI allI impI)
    fix n m :: nat
    show c: "4 * 0 + 1 \<le> n \<Longrightarrow> 4 * 0 + 1 \<le> m \<Longrightarrow> agree 0 (cast_p n) (cast_p m)" for n m
      by (cases n; cases m) (auto intro: agree_cast)
    show k: "4 * 0 + 2 \<le> n \<Longrightarrow> 4 * 0 + 2 \<le> m \<Longrightarrow> agree 0 (conditional n) (conditional m)" for n m
      using c by (cases n; cases m) (auto intro!: agree_conditional)
    show a: "4 * 0 + 3 \<le> n \<Longrightarrow> 4 * 0 + 3 \<le> m \<Longrightarrow> agree 0 (assign_p n) (assign_p m)" for n m
      using k by (cases n; cases m) (auto intro!: agree_assign)
    show "4 * 0 + 4 \<le> n \<Longrightarrow> 4 * 0 + 4 \<le> m \<Longrightarrow> agree 0 (expr_p n) (expr_p m)"
      using a by (cases n; cases m) (auto intro!: agree_expr)
  qed
next
  case (Suc L)
  then have C: "agree L (cast_p n) (cast_p m)" if "4 * L + 1 \<le> n" "4 * L + 1 \<le> m" for n m using that by blast
  have K: "agree L (conditional n) (conditional m)" if "4 * L + 2 \<le> n" "4 * L + 2 \<le> m" for n m using Suc that by blast
  have A: "agree L (assign_p n) (assign_p m)" if "4 * L + 3 \<le> n" "4 * L + 3 \<le> m" for n m using Suc that by blast
  have E: "agree L (expr_p n) (expr_p m)" if "4 * L + 4 \<le> n" "4 * L + 4 \<le> m" for n m using Suc that by blast
  show ?case
  proof (intro conjI allI impI)
    fix n m :: nat
    show c: "4 * Suc L + 1 \<le> n \<Longrightarrow> 4 * Suc L + 1 \<le> m \<Longrightarrow> agree (Suc L) (cast_p n) (cast_p m)" for n m
      using C E by (cases n; cases m) (auto intro!: agree_cast)
    show k: "4 * Suc L + 2 \<le> n \<Longrightarrow> 4 * Suc L + 2 \<le> m \<Longrightarrow> agree (Suc L) (conditional n) (conditional m)" for n m
      using c K E by (cases n; cases m) (auto intro!: agree_conditional)
    show a: "4 * Suc L + 3 \<le> n \<Longrightarrow> 4 * Suc L + 3 \<le> m \<Longrightarrow> agree (Suc L) (assign_p n) (assign_p m)" for n m
      using k A by (cases n; cases m) (auto intro!: agree_assign)
    show "4 * Suc L + 4 \<le> n \<Longrightarrow> 4 * Suc L + 4 \<le> m \<Longrightarrow> agree (Suc L) (expr_p n) (expr_p m)"
      using a E by (cases n; cases m) (auto intro!: agree_expr)
  qed
qed

lemma div_val_fed [simp]: "fed (div_val u x y)" "fed (mod_val u x y)" "fed (shift_val f x y)"
  by (simp_all add: div_val_def mod_val_def shift_val_def)

lemma bin_val_fed [simp]: "fed (bin_val k u sz lu x y t)"
  unfolding bin_val_def by simp

lemma eval_typed_fed [simp]: "fed (eval_typed e)"
  by (induction e rule: eval_typed.induct) (auto intro!: fed_bind split: option.splits)

lemma eval_ce_fed [simp]: "fed (eval_ce e)"
  by (simp add: eval_ce_def fed_bind)

text \<open>
  C37: The evaluation of a constant expression ends on every list of tokens, whatever they are, and never for lack of
  fuel; more fuel changes nothing, and what is left of the list is shorter than the list.
\<close>

theorem const_expr_terminates:
  "const_expr ts \<noteq> Inl Out_of_fuel \<and> conditional (parse_fuel ts + k) ts = conditional (parse_fuel ts) ts \<and>
   (case const_expr ts of Inl e \<Rightarrow> True | Inr (v, r) \<Rightarrow> length r < length ts)"
proof -
  have A: "agree (length ts) (conditional (parse_fuel ts + k)) (conditional (parse_fuel ts))"
    and B: "agree (length ts) (conditional (parse_fuel ts)) (conditional (parse_fuel ts))"
    using agree_fuel [of "length ts"] by (auto simp: parse_fuel_def)
  have "fed (const_expr ts)" using agreeD(2) [OF B order_refl]
    by (auto simp: const_expr_def fed_def [of "conditional _ _"] intro!: fed_bind)
  then show ?thesis using agreeD(1) [OF A order_refl] agreeD(3) [OF B order_refl]
    by (auto simp: const_expr_def res_simps fed_def split: sum.splits)
qed

end
