(* ===== verification/Const_Grammar.thy ===== *)
theory Const_Grammar
  imports Const_Parse
begin

text \<open>
  The grammar of constant expressions, as the comments of \<open>src/parse.c\<close> give it for the tokens of a \<open>#if\<close> line,
  and the proof that the recursive-descent parser reads every sentence of it as the tree of the grammar.
\<close>

section \<open>The grammar\<close>

text \<open>The binary operators by level, the tightest first, each with its node and whether it swaps its operands.\<close>

definition bin_ops :: "nat \<Rightarrow> (string \<times> node_kind \<times> bool) list" where
  "bin_ops l =
     (if l = 1 then [(''*'', ND_MUL, False), (''/'', ND_DIV, False), (''%'', ND_MOD, False)]
      else if l = 2 then [(''+'', ND_ADD, False), (''-'', ND_SUB, False)]
      else if l = 3 then [(''<<'', ND_SHL, False), (''>>'', ND_SHR, False)]
      else if l = 4 then [(''<'', ND_LT, False), (''<='', ND_LE, False), (''>'', ND_LT, True), (''>='', ND_LE, True)]
      else if l = 5 then [(''=='', ND_EQ, False), (''!='', ND_NE, False)]
      else if l = 6 then [(''&'', ND_BITAND, False)]
      else if l = 7 then [(''^'', ND_BITXOR, False)]
      else if l = 8 then [(''|'', ND_BITOR, False)]
      else if l = 9 then [(''&&'', ND_LOGAND, False)]
      else if l = 10 then [(''||'', ND_LOGOR, False)]
      else [])"

definition prefix_ops :: "(string \<times> node_kind) list" where
  "prefix_ops = [(''-'', ND_NEG), (''!'', ND_NOT), (''~'', ND_BITNOT)]"

text \<open>The punctuators that start an expression or stand where one may start.\<close>

definition start_ops :: "string list" where
  "start_ops = [''('', ''{'', '':'', ''+'', ''-'', ''&'', ''*'', ''!'', ''~'', ''++'', ''--'', ''&&'']"

definition is_op :: "pp_token \<Rightarrow> string \<Rightarrow> bool" where
  "is_op t op \<longleftrightarrow> kind t = TK_PUNCT \<and> equal_tok t op"

text \<open>The types of the constants of a line and of what is computed from them.\<close>

definition int_ty :: "ctype \<Rightarrow> bool" where
  "int_ty ty \<longleftrightarrow> is_integer ty \<and> ty_base ty = None \<and> ty_size ty \<in> {1, 2, 4, 8}"

definition is_num :: "pp_token \<Rightarrow> ctype \<Rightarrow> bool" where
  "is_num t ty \<longleftrightarrow> kind t = TK_NUM \<and> tk_ty (pt_tok t) = Some ty \<and> int_ty ty \<and>
     list_all (\<lambda>op. \<not> equal_tok t op) start_ops"

text \<open>
  Level 0 is \<open>cast\<close>, 1 to 10 the binary operators, 11 \<open>conditional\<close>, 12 \<open>expr\<close>. Trees are as the parser makes
  them, before \<open>add_type\<close>.
\<close>

inductive derives :: "nat \<Rightarrow> toks \<Rightarrow> cexpr \<Rightarrow> bool" where
  num: "is_num t ty \<Longrightarrow> derives 0 [t] (CNum t (Some ty) (tk_val (pt_tok t)))"
| paren: "is_op l ''('' \<Longrightarrow> derives 12 ts e \<Longrightarrow> is_op r '')'' \<Longrightarrow> derives 0 (l # ts @ [r]) e"
| plus: "is_op t ''+'' \<Longrightarrow> derives 0 ts e \<Longrightarrow> derives 0 (t # ts) e"
| prefix: "(op, k) \<in> set prefix_ops \<Longrightarrow> is_op t op \<Longrightarrow> derives 0 ts e \<Longrightarrow> derives 0 (t # ts) (new_unary k e t)"
| up: "derives l ts e \<Longrightarrow> l < 12 \<Longrightarrow> derives (Suc l) ts e"
| binary: "(op, k, sw) \<in> set (bin_ops (Suc l)) \<Longrightarrow> is_op t op \<Longrightarrow> derives (Suc l) ts a \<Longrightarrow> derives l us b \<Longrightarrow>
    derives (Suc l) (ts @ t # us) (if sw then new_binary k b a t else new_binary k a b t)"
| cond: "derives 10 ts c \<Longrightarrow> is_op q ''?'' \<Longrightarrow> derives 12 us a \<Longrightarrow> is_op s '':'' \<Longrightarrow> derives 11 vs b \<Longrightarrow>
    derives 11 (ts @ q # us @ s # vs) (CCond c a b q None)"
| comma: "derives 11 ts a \<Longrightarrow> is_op t '','' \<Longrightarrow> derives 12 us b \<Longrightarrow> derives 12 (ts @ t # us) (new_binary ND_COMMA a b t)"

section \<open>Tokens that end a phrase\<close>

definition postfix_ops :: "string list" where "postfix_ops = [''('', ''['', ''.'', ''->'', ''++'', ''--'']"

definition follow :: "nat \<Rightarrow> string list" where
  "follow l = postfix_ops @ concat (map (\<lambda>j. map fst (bin_ops j)) (filter (\<lambda>j. j \<le> l) [1..<11])) @
     (if 11 \<le> l then [''?''] else []) @ (if 12 \<le> l then '','' # ''='' # assign_ops else [])"

text \<open>The token is none of the operators that would go on with a phrase of level \<open>l\<close>.\<close>

definition stops :: "nat \<Rightarrow> pp_token \<Rightarrow> bool" where
  "stops l t \<longleftrightarrow> list_all (\<lambda>op. \<not> equal_tok t op) (follow l)"

lemma bytes_of_inject [simp]: "bytes_of a = bytes_of b \<longleftrightarrow> a = b"
proof
  assume "bytes_of a = bytes_of b"
  moreover have "inj (\<lambda>c. of_nat (of_char c) :: u8)"
  proof (rule injI)
    fix c d :: char
    assume "(of_nat (of_char c) :: u8) = of_nat (of_char d)"
    then have "unat (of_nat (of_char c) :: u8) = unat (of_nat (of_char d) :: u8)" by simp
    then show "c = d" by (simp add: unat_of_nat take_bit_eq_mod of_char_eq_iff)
  qed
  ultimately show "a = b" by (simp add: bytes_of_def inj_map_eq_map)
qed simp

lemma equal_tok_unique: "equal_tok t a \<Longrightarrow> equal_tok t b \<longleftrightarrow> a = b"
  by (auto simp: equal_tok_def)

lemma op_stops: "is_op t op \<Longrightarrow> op \<notin> set (follow l) \<Longrightarrow> stops l t"
  by (auto simp: is_op_def stops_def list_all_iff equal_tok_unique)

lemma follow_mono: "k \<le> l \<Longrightarrow> set (follow k) \<subseteq> set (follow l)"
  by (fastforce simp: follow_def)

lemma stops_mono: "stops l t \<Longrightarrow> k \<le> l \<Longrightarrow> stops k t"
  using follow_mono [of k l] by (auto simp: stops_def list_all_iff)

lemma bin_level: "(op, k, sw) \<in> set (bin_ops l) \<Longrightarrow> l \<in> set [1..<11]"
  by (auto simp: bin_ops_def split: if_splits)

lemma bin_op_stops:
  assumes "(op, k, sw) \<in> set (bin_ops (Suc l))" "is_op t op"
  shows "stops l t"
proof -
  have "list_all (\<lambda>l. list_all (\<lambda>(op, k, sw). op \<notin> set (follow (l - 1))) (bin_ops l)) [1..<11]"
    by code_simp
  then have "op \<notin> set (follow l)" using assms(1) bin_level [OF assms(1)] by (fastforce simp: list_all_iff)
  then show ?thesis using assms(2) by (rule op_stops [rotated])
qed


section \<open>Completed types\<close>


lemma int_ty_int [simp]: "int_ty ty_int"
  by (simp add: int_ty_def is_integer_def basic_types)

lemma int_ty_simple: "int_ty ty \<Longrightarrow> ty_kind ty \<notin> {TY_FUNC, TY_LDOUBLE, TY_DOUBLE, TY_FLOAT, TY_VOID} \<and> ty_base ty = None"
  by (auto simp: int_ty_def is_integer_def Let_def)

lemma common_of_ints:
  assumes "int_ty a" "int_ty b"
  shows "get_common_type i a b =
    (let a' = (if ty_size a < 4 then ty_int else a); b' = (if ty_size b < 4 then ty_int else b)
     in if ty_size a' \<noteq> ty_size b' then (if ty_size a' < ty_size b' then b' else a') else if ty_unsigned b' then b' else a')"
  using int_ty_simple [OF assms(1)] int_ty_simple [OF assms(2)] by (simp add: get_common_type_def)

lemma int_ty_common [simp]: "int_ty a \<Longrightarrow> int_ty b \<Longrightarrow> int_ty (get_common_type i a b)"
  by (simp add: common_of_ints Let_def)

lemma int_ty_kind: "int_ty ty \<Longrightarrow> ty_kind ty \<noteq> TY_VOID \<and> ty_kind ty \<noteq> TY_FUNC \<and> is_numeric ty \<and> \<not> is_flonum ty"
  by (auto simp: int_ty_def is_numeric_def is_integer_def is_flonum_def)

definition typed :: "cexpr \<Rightarrow> bool" where
  "typed e \<longleftrightarrow> (\<exists>a ty. add_type e = Inr a \<and> ce_ty a = Some ty \<and> int_ty ty)"

lemma typed_num: "int_ty ty \<Longrightarrow> typed (CNum t (Some ty) v)"
  by (simp add: typed_def)

lemma typed_unary: "typed e \<Longrightarrow> k \<in> {ND_NEG, ND_NOT, ND_BITNOT} \<Longrightarrow> typed (new_unary k e t)"
  by (auto simp: typed_def new_unary_def ty_of_def Let_def)

lemma typed_binary:
  assumes "typed a" "typed b"
    "k \<in> {ND_ADD, ND_SUB, ND_MUL, ND_DIV, ND_MOD, ND_BITAND, ND_BITOR, ND_BITXOR, ND_EQ, ND_NE, ND_LT, ND_LE, ND_LOGAND,
      ND_LOGOR, ND_SHL, ND_SHR, ND_COMMA}"
  shows "typed (new_binary k a b t)"
  using assms by (auto simp: typed_def new_binary_def ty_of_def usual_arith_conv_def Let_def)

lemma typed_cond: "typed c \<Longrightarrow> typed a \<Longrightarrow> typed b \<Longrightarrow> typed (CCond c a b t None)"
  by (auto simp: typed_def ty_of_def usual_arith_conv_def Let_def dest: int_ty_kind)

lemma bin_op_kinds:
  "(op, k, sw) \<in> set (bin_ops l) \<Longrightarrow>
   k \<in> {ND_ADD, ND_SUB, ND_MUL, ND_DIV, ND_MOD, ND_BITAND, ND_BITOR, ND_BITXOR, ND_EQ, ND_NE, ND_LT, ND_LE, ND_LOGAND,
      ND_LOGOR, ND_SHL, ND_SHR, ND_COMMA}"
  by (auto simp: bin_ops_def split: if_splits)

lemma derives_typed: "derives l ts e \<Longrightarrow> typed e"
proof (induction rule: derives.induct)
  case (num t ty)
  then show ?case by (auto simp: is_num_def intro: typed_num)
next
  case (prefix op k t ts e)
  then show ?case by (auto simp: prefix_ops_def intro: typed_unary)
next
  case (binary op k sw l t ts a us b)
  then show ?case using typed_binary bin_op_kinds by simp
next
  case (comma ts a t us b)
  then show ?case by (auto intro: typed_binary)
qed (auto intro: typed_cond)

text \<open>Trees that \<open>add_type\<close> completes alike; the parser completes the operands of an addition when it meets them.\<close>

definition alike :: "cexpr \<Rightarrow> cexpr \<Rightarrow> bool" where "alike a b \<longleftrightarrow> add_type a = add_type b"

lemma alike_refl [simp]: "alike a a" by (simp add: alike_def)

lemma alike_unary: "alike a b \<Longrightarrow> alike (new_unary k a t) (new_unary k b t)"
  by (simp add: alike_def new_unary_def)

lemma alike_binary: "alike a a' \<Longrightarrow> alike b b' \<Longrightarrow> alike (new_binary k a b t) (new_binary k a' b' t)"
  by (simp add: alike_def new_binary_def)

lemma alike_cond: "alike c c' \<Longrightarrow> alike a a' \<Longrightarrow> alike b b' \<Longrightarrow> alike (CCond c a b t None) (CCond c' a' b' t None)"
  by (simp add: alike_def)

lemma add_type_has_ty: "ce_ty e = Some ty \<Longrightarrow> (\<And>t v. e \<noteq> CNum t (Some ty) v) \<Longrightarrow> add_type e = Inr e"
  by (cases e) auto

lemma add_type_idem: "add_type e = Inr a \<Longrightarrow> ce_ty a = Some ty \<Longrightarrow> add_type a = Inr a"
  by (cases a) auto

lemma new_arith_typed:
  assumes "typed a" "typed b"
  shows "\<exists>e. new_arith k a b t = Inr e \<and> alike e (new_binary k a b t)"
proof -
  obtain x tx where x: "add_type a = Inr x" "ce_ty x = Some tx" "int_ty tx" using assms(1) by (auto simp: typed_def)
  obtain y ty where y: "add_type b = Inr y" "ce_ty y = Some ty" "int_ty ty" using assms(2) by (auto simp: typed_def)
  have "alike x a" "alike y b" using x y by (auto simp: alike_def dest: add_type_idem)
  then show ?thesis using x y int_ty_kind by (simp add: new_arith_def ty_of_def alike_binary)
qed

section \<open>The levels of the parser\<close>

definition table :: "nat \<Rightarrow> binop_table" where
  "table l =
     map (\<lambda>(op, k, sw). (op, if k \<in> {ND_ADD, ND_SUB} then new_arith k else if sw then swapped k else plain k)) (bin_ops l)"

primrec lev :: "(toks \<Rightarrow> parsed) \<Rightarrow> nat \<Rightarrow> toks \<Rightarrow> parsed" where
  "lev p 0 = p"
| "lev p (Suc l) = left_assoc (table (Suc l)) (lev p l)"

lemma lev_pos: "0 < l \<Longrightarrow> lev p l = left_assoc (table l) (lev p (l - 1))"
  by (cases l) simp_all

lemma table_simps:
  "table 1 = [(''*'', plain ND_MUL), (''/'', plain ND_DIV), (''%'', plain ND_MOD)]"
  "table 2 = [(''+'', new_arith ND_ADD), (''-'', new_arith ND_SUB)]"
  "table 3 = [(''<<'', plain ND_SHL), (''>>'', plain ND_SHR)]"
  "table 4 = [(''<'', plain ND_LT), (''<='', plain ND_LE), (''>'', swapped ND_LT), (''>='', swapped ND_LE)]"
  "table 5 = [(''=='', plain ND_EQ), (''!='', plain ND_NE)]"
  "table 6 = [(''&'', plain ND_BITAND)]" "table 7 = [(''^'', plain ND_BITXOR)]" "table 8 = [(''|'', plain ND_BITOR)]"
  "table 9 = [(''&&'', plain ND_LOGAND)]" "table 10 = [(''||'', plain ND_LOGOR)]"
  by (simp_all add: table_def bin_ops_def)

lemma lev_one: "lev p 1 = mul_p p"
  using lev_pos [of 1 p] by (simp add: table_simps(1) [unfolded One_nat_def] mul_p_def)

lemma logor_lev: "logor_p p = lev p 10"
proof -
  note l = lev_pos [of _ p]
  have "lev p 2 = add_p p" using l [of 2] lev_one [of p] by (simp add: table_simps add_p_def)
  then have "lev p 3 = shift_p p" using l [of 3] by (simp add: table_simps shift_p_def)
  then have "lev p 4 = relational_p p" using l [of 4] by (simp add: table_simps relational_p_def)
  then have "lev p 5 = equality_p p" using l [of 5] by (simp add: table_simps equality_p_def)
  then have "lev p 6 = bitand_p p" using l [of 6] by (simp add: table_simps bitand_p_def)
  then have "lev p 7 = bitxor_p p" using l [of 7] by (simp add: table_simps bitxor_p_def)
  then have "lev p 8 = bitor_p p" using l [of 8] by (simp add: table_simps bitor_p_def)
  then have "lev p 9 = logand_p p" using l [of 9] by (simp add: table_simps logand_p_def)
  then show ?thesis using l [of 10] by (simp add: table_simps logor_p_def)
qed

definition par :: "nat \<Rightarrow> nat \<Rightarrow> toks \<Rightarrow> parsed" where
  "par N l = (if l \<le> 10 then lev (cast_p N) l else if l = 11 then conditional N else expr_p N)"

definition fuel_for :: "nat \<Rightarrow> nat \<Rightarrow> nat" where
  "fuel_for l n = 4 * n + (if l \<le> 10 then 1 else if l = 11 then 2 else 4)"

text \<open>The function of level \<open>l\<close> reads a phrase before a token that stops it.\<close>

definition parses :: "nat \<Rightarrow> toks \<Rightarrow> cexpr \<Rightarrow> bool" where
  "parses l ts e \<longleftrightarrow>
     (\<forall>N t r. fuel_for l (length (ts @ t # r)) \<le> N \<longrightarrow> stops l t \<longrightarrow> (\<exists>e'. alike e' e \<and> par N l (ts @ t # r) = Inr (e', t # r)))"

text \<open>The loop of a binary level gets to the end of the phrase and goes on from there.\<close>

definition loops :: "nat \<Rightarrow> toks \<Rightarrow> cexpr \<Rightarrow> bool" where
  "loops l ts e \<longleftrightarrow>
     (\<forall>N t r. fuel_for l (length (ts @ t # r)) \<le> N \<longrightarrow> stops (l - 1) t \<longrightarrow>
       (\<exists>e' m. alike e' e \<and> length (t # r) \<le> m \<and> par N l (ts @ t # r) = assoc_loop (table l) (par N (l - 1)) m e' (t # r)))"

lemma parsesD:
  "parses l ts e \<Longrightarrow> fuel_for l (length (ts @ t # r)) \<le> N \<Longrightarrow> stops l t \<Longrightarrow>
   \<exists>e'. alike e' e \<and> par N l (ts @ t # r) = Inr (e', t # r)"
  unfolding parses_def by blast

lemma loopsD:
  "loops (Suc l) ts e \<Longrightarrow> fuel_for (Suc l) (length (ts @ t # r)) \<le> N \<Longrightarrow> stops l t \<Longrightarrow>
   \<exists>e' m. alike e' e \<and> length (t # r) \<le> m \<and> par N (Suc l) (ts @ t # r) = assoc_loop (table (Suc l)) (par N l) m e' (t # r)"
  unfolding loops_def by (metis diff_Suc_1)

lemma find_map_unique:
  "(x, y) \<in> set xs \<Longrightarrow> distinct (map fst xs) \<Longrightarrow>
   find (\<lambda>p. x = fst p) (map (\<lambda>(a, b). (a, g b)) xs) = Some (x, g y)"
  by (induction xs) (auto simp: rev_image_eqI)

lemma bin_ops_distinct: "distinct (map fst (bin_ops l))"
  by (simp add: bin_ops_def)

definition maker :: "node_kind \<times> bool \<Rightarrow> cexpr \<Rightarrow> cexpr \<Rightarrow> pp_token \<Rightarrow> cpp_error + cexpr" where
  "maker p = (if fst p \<in> {ND_ADD, ND_SUB} then new_arith (fst p) else if snd p then swapped (fst p) else plain (fst p))"

lemma table_maker: "table l = map (\<lambda>(op, p). (op, maker p)) (bin_ops l)"
  by (simp add: table_def maker_def split_def)

lemma find_table_op:
  assumes "(op, k, sw) \<in> set (bin_ops l)" "equal_tok t op"
  shows "find (\<lambda>p. equal_tok t (fst p)) (table l) = Some (op, maker (k, sw))"
proof -
  have "equal_tok t = (\<lambda>b. op = b)" using equal_tok_unique [OF assms(2)] by blast
  then show ?thesis using find_map_unique [OF assms(1) bin_ops_distinct, of maker] by (simp add: table_maker)
qed

lemma find_table_stop:
  assumes "stops l t" "1 \<le> l" "l \<le> 10"
  shows "find (\<lambda>p. equal_tok t (fst p)) (table l) = None"
proof -
  have "\<not> equal_tok t op" if "(op, k, sw) \<in> set (bin_ops l)" for op k sw
    using that assms by (force simp: stops_def follow_def list_all_iff)
  then show ?thesis by (auto simp: find_None_iff table_def)
qed

lemma loops_parses:
  assumes "loops l ts e" "1 \<le> l" "l \<le> 10"
  shows "parses l ts e"
  unfolding parses_def
proof (intro allI impI)
  fix N t r assume a: "fuel_for l (length (ts @ t # r)) \<le> N" "stops l t"
  have "stops (l - 1) t" using a(2) by (rule stops_mono) simp
  then obtain e' m where "alike e' e" "par N l (ts @ t # r) = assoc_loop (table l) (par N (l - 1)) m e' (t # r)"
    using assms(1) a(1) unfolding loops_def by blast
  then show "\<exists>e'. alike e' e \<and> par N l (ts @ t # r) = Inr (e', t # r)"
    using find_table_stop [OF a(2) assms(2,3)] by auto
qed

lemma parses_loops:
  assumes "parses l ts e" "l < 10"
  shows "loops (Suc l) ts e"
  unfolding loops_def
proof (intro allI impI)
  fix N t r assume a: "fuel_for (Suc l) (length (ts @ t # r)) \<le> N" "stops (Suc l - 1) t"
  have "fuel_for l (length (ts @ t # r)) \<le> N" using a(1) assms(2) by (simp add: fuel_for_def)
  then obtain e' where "alike e' e" "par N l (ts @ t # r) = Inr (e', t # r)"
    using parsesD [OF assms(1)] a(2) by (metis diff_Suc_1)
  then show "\<exists>e' m. alike e' e \<and> length (t # r) \<le> m \<and>
      par N (Suc l) (ts @ t # r) = assoc_loop (table (Suc l)) (par N (Suc l - 1)) m e' (t # r)"
    using assms(2) by (auto simp: par_def left_assoc_def)
qed

lemma loops_binary:
  assumes op: "(op, k, sw) \<in> set (bin_ops (Suc l))" "is_op t op"
    and a: "loops (Suc l) ts a" and b: "parses l us b" and ty: "typed a" "typed b"
  shows "loops (Suc l) (ts @ t # us) (if sw then new_binary k b a t else new_binary k a b t)"
  unfolding loops_def
proof (intro allI impI)
  fix N v r
  assume N: "fuel_for (Suc l) (length ((ts @ t # us) @ v # r)) \<le> N" and st: "stops (Suc l - 1) v"
  have l: "l < 10" using bin_level [OF op(1)] by simp
  have "fuel_for (Suc l) (length (ts @ t # us @ v # r)) \<le> N" using N by simp
  moreover have "stops (Suc l - 1) t" using bin_op_stops [OF op] by simp
  ultimately obtain a' m where a': "alike a' a" "length (t # us @ v # r) \<le> m"
    "par N (Suc l) (ts @ t # us @ v # r) = assoc_loop (table (Suc l)) (par N l) m a' (t # us @ v # r)"
    using loopsD [OF a, of t "us @ v # r" N] by auto
  have "fuel_for l (length (us @ v # r)) \<le> N" using N l by (simp add: fuel_for_def)
  then obtain b' where b': "alike b' b" "par N l (us @ v # r) = Inr (b', v # r)"
    using parsesD [OF b, of v r N] st by auto
  obtain m' where m: "m = Suc m'" "length (v # r) \<le> m'" using a'(2) by (cases m) auto
  have ty': "typed a'" "typed b'" using ty a'(1) b'(1) by (simp_all add: typed_def alike_def)
  have e: "equal_tok t op" using op(2) by (simp add: is_op_def)
  have "\<exists>c. maker (k, sw) a' b' t = Inr c \<and>
      alike c (if sw then new_binary k b a t else new_binary k a b t)"
  proof (cases "k \<in> {ND_ADD, ND_SUB}")
    case True
    then have "\<not> sw" using op(1) by (auto simp: bin_ops_def split: if_splits)
    moreover obtain c where "new_arith k a' b' t = Inr c" "alike c (new_binary k a' b' t)" using new_arith_typed [OF ty'] by blast
    ultimately show ?thesis using True alike_binary [OF a'(1) b'(1)] by (auto simp: alike_def maker_def)
  next
    case False
    then show ?thesis using alike_binary [OF a'(1) b'(1)] alike_binary [OF b'(1) a'(1)]
      by (auto simp: swapped_def plain_def maker_def)
  qed
  then obtain c where "maker (k, sw) a' b' t = Inr c"
    "alike c (if sw then new_binary k b a t else new_binary k a b t)" by blast
  then show "\<exists>e' m. alike e' (if sw then new_binary k b a t else new_binary k a b t) \<and> length (v # r) \<le> m \<and>
      par N (Suc l) ((ts @ t # us) @ v # r) = assoc_loop (table (Suc l)) (par N (Suc l - 1)) m e' (v # r)"
    using a'(3) m b' find_table_op [OF op(1) e] by auto
qed


section \<open>The other phrases\<close>

lemma first_token:
  "derives l ts e \<Longrightarrow>
   \<exists>t r. ts = t # r \<and> kind t \<in> {TK_NUM, TK_PUNCT} \<and> \<not> equal_tok t ''{'' \<and> \<not> equal_tok t '':''"
proof (induction rule: derives.induct)
  case (num t ty)
  then show ?case by (auto simp: is_num_def start_ops_def)
qed (auto simp: is_op_def prefix_ops_def equal_tok_unique)

lemma postfix_stop: "stops 0 t \<Longrightarrow> postfix_loop p n e (t # r) = Inr (e, t # r)"
  by (simp add: stops_def follow_def postfix_ops_def)

lemma fuel_for_Suc: "fuel_for 0 n \<le> N \<Longrightarrow> \<exists>M. N = Suc M \<and> 4 * n \<le> M"
  by (cases N) (auto simp: fuel_for_def)

lemma parses_num:
  assumes "is_num t ty"
  shows "parses 0 [t] (CNum t (Some ty) (tk_val (pt_tok t)))"
  unfolding parses_def
proof (intro allI impI)
  fix N s r assume N: "fuel_for 0 (length ([t] @ s # r)) \<le> N" and st: "stops 0 s"
  obtain M where M: "N = Suc M" using fuel_for_Suc [OF N] by blast
  have ty: "int_ty ty" using assms by (simp add: is_num_def)
  have no: "list_all (\<lambda>op. \<not> equal_tok t op) start_ops" using assms by (simp add: is_num_def)
  have "primary_p (expr_p M) (t # s # r) = Inr (CNum t (Some ty) (tk_val (pt_tok t)), s # r)"
    using assms int_ty_kind [OF ty] no by (simp add: primary_p_def is_num_def start_ops_def)
  then show "\<exists>e'. alike e' (CNum t (Some ty) (tk_val (pt_tok t))) \<and> par N 0 ([t] @ s # r) = Inr (e', s # r)"
    using no postfix_stop [OF st] by (simp add: par_def M cast_p.simps unary_p_def postfix_p_def start_ops_def)
qed

lemma parses_prefix:
  assumes k: "(op, k) \<in> set prefix_ops" and t: "is_op t op" and e: "parses 0 ts e"
  shows "parses 0 (t # ts) (new_unary k e t)"
  unfolding parses_def
proof (intro allI impI)
  fix N s r assume N: "fuel_for 0 (length ((t # ts) @ s # r)) \<le> N" and st: "stops 0 s"
  obtain M where M: "N = Suc M" "4 * Suc (Suc (length ts + length r)) \<le> M" using fuel_for_Suc [OF N] by auto
  then have "fuel_for 0 (length (ts @ s # r)) \<le> M" by (simp add: fuel_for_def)
  then obtain e' where e': "alike e' e" "cast_p M (ts @ s # r) = Inr (e', s # r)"
    using parsesD [OF e _ st] by (auto simp: par_def)
  have o: "equal_tok t = (=) op" using t equal_tok_unique by (auto simp: is_op_def)
  have "op = ''-'' \<and> k = ND_NEG \<or> op = ''!'' \<and> k = ND_NOT \<or> op = ''~'' \<and> k = ND_BITNOT" using k by (auto simp: prefix_ops_def)
  then have "cast_p N (t # ts @ s # r) = Inr (new_unary k e' t, s # r)"
    by (elim disjE) (simp_all add: o M cast_p.simps unary_p_def e'(2))
  then show "\<exists>e'. alike e' (new_unary k e t) \<and> par N 0 ((t # ts) @ s # r) = Inr (e', s # r)"
    using alike_unary [OF e'(1)] by (auto simp: par_def)
qed

lemma parses_plus:
  assumes t: "is_op t ''+''" and e: "parses 0 ts e"
  shows "parses 0 (t # ts) e"
  unfolding parses_def
proof (intro allI impI)
  fix N s r assume N: "fuel_for 0 (length ((t # ts) @ s # r)) \<le> N" and st: "stops 0 s"
  obtain M where M: "N = Suc M" "4 * Suc (Suc (length ts + length r)) \<le> M" using fuel_for_Suc [OF N] by auto
  then have "fuel_for 0 (length (ts @ s # r)) \<le> M" by (simp add: fuel_for_def)
  then obtain e' where e': "alike e' e" "cast_p M (ts @ s # r) = Inr (e', s # r)"
    using parsesD [OF e _ st] by (auto simp: par_def)
  have o: "equal_tok t a \<longleftrightarrow> ''+'' = a" for a using t equal_tok_unique by (auto simp: is_op_def)
  show "\<exists>e'. alike e' e \<and> par N 0 ((t # ts) @ s # r) = Inr (e', s # r)"
    using e' by (auto simp: par_def M cast_p.simps unary_p_def o)
qed

lemma parses_paren:
  assumes l: "is_op l ''(''" and d: "derives 12 ts e" and e: "parses 12 ts e" and r: "is_op r '')''"
  shows "parses 0 (l # ts @ [r]) e"
  unfolding parses_def
proof (intro allI impI)
  fix N s q assume N: "fuel_for 0 (length ((l # ts @ [r]) @ s # q)) \<le> N" and st: "stops 0 s"
  obtain M where M: "N = Suc M" "4 * Suc (Suc (Suc (length ts + length q))) \<le> M" using fuel_for_Suc [OF N] by auto
  then have "fuel_for 12 (length (ts @ r # s # q)) \<le> M" by (simp add: fuel_for_def)
  moreover have "stops 12 r" by (rule op_stops [OF r]) code_simp
  ultimately obtain e' where e': "alike e' e" "expr_p M (ts @ r # s # q) = Inr (e', r # s # q)"
    using parsesD [OF e, of r "s # q" M] by (auto simp: par_def)
  obtain u v where ts: "ts = u # v" "kind u \<in> {TK_NUM, TK_PUNCT}" "\<not> equal_tok u ''{''" using first_token [OF d] by blast
  have o: "equal_tok l a \<longleftrightarrow> ''('' = a" for a using l equal_tok_unique by (auto simp: is_op_def)
  have sk: "skip_tok (r # s # q) '')'' = Inr (s # q)" using r by (simp add: skip_tok_Inr is_op_def)
  have nt: "\<not> may_be_type (ts @ r # s # q)" using ts by (auto simp: may_be_type_def)
  have "primary_p (expr_p M) (l # ts @ r # s # q) = Inr (e', s # q)"
    using e'(2) sk ts by (simp add: primary_p_def o)
  then show "\<exists>e'. alike e' e \<and> par N 0 ((l # ts @ [r]) @ s # q) = Inr (e', s # q)"
    using e'(1) nt postfix_stop [OF st] by (auto simp: par_def M cast_p.simps unary_p_def postfix_p_def o)
qed

lemma parses_conditional:
  assumes e: "parses 10 ts e"
  shows "parses 11 ts e"
  unfolding parses_def
proof (intro allI impI)
  fix N t r assume N: "fuel_for 11 (length (ts @ t # r)) \<le> N" and st: "stops 11 t"
  obtain M where M: "N = Suc M" "fuel_for 10 (length (ts @ t # r)) \<le> M" using N by (cases N) (auto simp: fuel_for_def)
  obtain e' where e': "alike e' e" "logor_p (cast_p M) (ts @ t # r) = Inr (e', t # r)"
    using parsesD [OF e M(2) stops_mono [OF st]] by (auto simp: par_def logor_lev)
  moreover have "\<not> equal_tok t ''?''" using st by (simp add: stops_def follow_def)
  ultimately show "\<exists>e'. alike e' e \<and> par N 11 (ts @ t # r) = Inr (e', t # r)"
    by (auto simp: par_def M conditional.simps)
qed

lemma parses_cond:
  assumes c: "parses 10 ts c" and q: "is_op q ''?''" and a: "parses 12 us a" and da: "derives 12 us a"
    and s: "is_op s '':''" and b: "parses 11 vs b"
  shows "parses 11 (ts @ q # us @ s # vs) (CCond c a b q None)"
  unfolding parses_def
proof (intro allI impI)
  fix N t r assume N: "fuel_for 11 (length ((ts @ q # us @ s # vs) @ t # r)) \<le> N" and st: "stops 11 t"
  obtain M where M: "N = Suc M" "4 * length (ts @ q # us @ s # vs @ t # r) + 1 \<le> M"
    using N by (cases N) (auto simp: fuel_for_def)
  have f: "fuel_for 10 (length (ts @ q # us @ s # vs @ t # r)) \<le> M" "fuel_for 12 (length (us @ s # vs @ t # r)) \<le> M"
    "fuel_for 11 (length (vs @ t # r)) \<le> M" using M(2) by (simp_all add: fuel_for_def)
  have "stops 10 q" by (rule op_stops [OF q]) code_simp
  then obtain c' where c': "alike c' c" "logor_p (cast_p M) (ts @ q # us @ s # vs @ t # r) = Inr (c', q # us @ s # vs @ t # r)"
    using parsesD [OF c f(1)] by (auto simp: par_def logor_lev)
  have "stops 12 s" by (rule op_stops [OF s]) code_simp
  then obtain a' where a': "alike a' a" "expr_p M (us @ s # vs @ t # r) = Inr (a', s # vs @ t # r)"
    using parsesD [OF a f(2)] by (auto simp: par_def)
  obtain b' where b': "alike b' b" "conditional M (vs @ t # r) = Inr (b', t # r)"
    using parsesD [OF b f(3) st] by (auto simp: par_def)
  obtain u v where us: "us = u # v" "\<not> equal_tok u '':''" using first_token [OF da] by blast
  have "skip_tok (s # vs @ t # r) '':'' = Inr (vs @ t # r)" using s by (simp add: skip_tok_Inr is_op_def)
  then have "conditional N (ts @ q # us @ s # vs @ t # r) = Inr (CCond c' a' b' q None, t # r)"
    using c'(2) a'(2) b'(2) us q by (simp add: M conditional.simps is_op_def)
  then show "\<exists>e'. alike e' (CCond c a b q None) \<and> par N 11 ((ts @ q # us @ s # vs) @ t # r) = Inr (e', t # r)"
    using alike_cond [OF c'(1) a'(1) b'(1)] by (auto simp: par_def)
qed

text \<open>\<open>assign\<close> adds nothing to \<open>conditional\<close> before a token that is no assignment operator.\<close>

lemma assign_stop:
  assumes e: "parses 11 ts e" and N: "4 * length (ts @ t # r) + 3 \<le> N" and st: "stops 11 t"
    and no: "list_all (\<lambda>op. \<not> equal_tok t op) (''='' # assign_ops)"
  shows "\<exists>e'. alike e' e \<and> assign_p N (ts @ t # r) = Inr (e', t # r)"
proof -
  obtain M where M: "N = Suc M" "fuel_for 11 (length (ts @ t # r)) \<le> M" using N by (cases N) (auto simp: fuel_for_def)
  have "\<not> list_ex (equal_tok t) assign_ops" using no by (auto simp: list_ex_iff list_all_iff)
  then show ?thesis using parsesD [OF e M(2) st] no by (auto simp: par_def M assign_p.simps)
qed

lemma parses_expr:
  assumes e: "parses 11 ts e"
  shows "parses 12 ts e"
  unfolding parses_def
proof (intro allI impI)
  fix N t r assume N: "fuel_for 12 (length (ts @ t # r)) \<le> N" and st: "stops 12 t"
  obtain M where M: "N = Suc M" "4 * length (ts @ t # r) + 3 \<le> M" using N by (cases N) (auto simp: fuel_for_def)
  have no: "list_all (\<lambda>op. \<not> equal_tok t op) ('','' # ''='' # assign_ops)" using st by (simp add: stops_def follow_def)
  obtain e' where "alike e' e" "assign_p M (ts @ t # r) = Inr (e', t # r)"
    using assign_stop [OF e M(2) stops_mono [OF st]] no by auto
  then show "\<exists>e'. alike e' e \<and> par N 12 (ts @ t # r) = Inr (e', t # r)"
    using no by (auto simp: par_def M expr_p.simps)
qed

lemma parses_comma:
  assumes a: "parses 11 ts a" and c: "is_op c '',''" and b: "parses 12 us b"
  shows "parses 12 (ts @ c # us) (new_binary ND_COMMA a b c)"
  unfolding parses_def
proof (intro allI impI)
  fix N t r assume N: "fuel_for 12 (length ((ts @ c # us) @ t # r)) \<le> N" and st: "stops 12 t"
  obtain M where M: "N = Suc M" "4 * length (ts @ c # us @ t # r) + 3 \<le> M" using N by (cases N) (auto simp: fuel_for_def)
  have sc: "stops 11 c" by (rule op_stops [OF c]) code_simp
  have "list_all (\<lambda>op. \<not> equal_tok c op) (''='' # assign_ops)"
    using c equal_tok_unique [of c "'',''"] by (simp add: is_op_def assign_ops_def)
  then obtain a' where a': "alike a' a" "assign_p M (ts @ c # us @ t # r) = Inr (a', c # us @ t # r)"
    using assign_stop [OF a M(2) sc] by auto
  have "fuel_for 12 (length (us @ t # r)) \<le> M" using M(2) by (simp add: fuel_for_def)
  then obtain b' where b': "alike b' b" "expr_p M (us @ t # r) = Inr (b', t # r)"
    using parsesD [OF b _ st] by (auto simp: par_def)
  have "expr_p N (ts @ c # us @ t # r) = Inr (new_binary ND_COMMA a' b' c, t # r)"
    using a'(2) b'(2) c by (simp add: M expr_p.simps is_op_def)
  then show "\<exists>e'. alike e' (new_binary ND_COMMA a b c) \<and> par N 12 ((ts @ c # us) @ t # r) = Inr (e', t # r)"
    using alike_binary [OF a'(1) b'(1)] by (auto simp: par_def)
qed

lemma derives_level: "derives l ts e \<Longrightarrow> l \<le> 12"
  by (induction rule: derives.induct) (auto dest: bin_level)

lemma derives_reads:
  "derives l ts e \<Longrightarrow> parses l ts e \<and> (1 \<le> l \<and> l \<le> 10 \<longrightarrow> loops l ts e)"
proof (induction rule: derives.induct)
  case (up l ts e)
  show ?case
  proof (cases "l < 10")
    case True
    then have "loops (Suc l) ts e" using parses_loops up by blast
    then show ?thesis using True loops_parses [of "Suc l" ts e] by simp
  next
    case False
    then have "l = 10 \<or> l = 11" using up.hyps by auto
    then show ?thesis using up.IH parses_conditional parses_expr by (auto simp: eval_nat_numeral)
  qed
next
  case (binary op k sw l t ts a us b)
  have "loops (Suc l) ts a" using binary.IH(1) bin_level [OF binary.hyps(1)] by auto
  then have "loops (Suc l) (ts @ t # us) (if sw then new_binary k b a t else new_binary k a b t)"
    using loops_binary binary.hyps binary.IH(2) derives_typed by blast
  then show ?case using loops_parses bin_level [OF binary.hyps(1)] by auto
qed (simp_all add: parses_num parses_prefix parses_plus parses_paren parses_cond parses_comma)

lemma const_expr_reads:
  assumes "derives 11 ts e" "stops 11 t"
  shows "const_expr (ts @ t # r) = bind_res (eval_ce e) (\<lambda>v. Inr (v, t # r))"
proof -
  have "fuel_for 11 (length (ts @ t # r)) \<le> parse_fuel (ts @ t # r)" by (simp add: fuel_for_def parse_fuel_def)
  then obtain e' where "alike e' e" "conditional (parse_fuel (ts @ t # r)) (ts @ t # r) = Inr (e', t # r)"
    using parsesD derives_reads [OF assms(1)] assms(2) by (fastforce simp: par_def)
  then show ?thesis by (simp add: const_expr_def eval_ce_def alike_def)
qed

end
