(* ===== verification/Const_Value.thy ===== *)
theory Const_Value
  imports Const_Grammar
begin

text \<open>
  The values of constant expressions by the rules of C11 (6.3.1, 6.5, 6.6) for an ILP32 target, stated on the
  grammar's trees with mathematical integers, and the proof that \<open>const_expr\<close> computes them on 64-bit words, up
  to the conditions \<open>clean\<close> and \<open>settled\<close> below. These are the values of the language proper (array sizes,
  enumerators, \<open>case\<close> labels). The preprocessor calls the same evaluator for \<open>#if\<close>, where C11 6.10.1p4 computes in
  \<open>intmax_t\<close> and \<open>uintmax_t\<close>; the code does not do that and nothing is claimed of it.
\<close>

section \<open>Values of C11\<close>

text \<open>A type is its width and whether it is unsigned. Signed overflow and the like have no value.\<close>

type_synonym ity = "nat \<times> bool"


definition promote :: "ity \<Rightarrow> ity" where "promote t = (if fst t < 32 then (32, False) else t)"

definition c_common :: "ity \<Rightarrow> ity \<Rightarrow> ity" where
  "c_common a b =
     (let (w1, u1) = promote a; (w2, u2) = promote b
      in if w1 = w2 then (w1, u1 \<or> u2) else if w1 < w2 then (w2, u2) else (w1, u1))"











section \<open>Where the evaluator keeps values exact\<close>




section \<open>Words and integers\<close>

lemma promote_idem [simp]: "promote (promote t) = promote t"
  by (simp add: promote_def)

definition word_ty :: "ity \<Rightarrow> bool" where "word_ty t \<longleftrightarrow> fst t = 32 \<or> fst t = 64"





lemma c_common_word: "word_ty (promote a) \<Longrightarrow> word_ty (promote b) \<Longrightarrow> word_ty (c_common a b)"
  by (simp add: c_common_def split_def word_ty_def Let_def)




text \<open>The word has the low bits of the value.\<close>

definition low :: "nat \<Rightarrow> u64 \<Rightarrow> int \<Rightarrow> bool" where
  "low w x v \<longleftrightarrow> take_bit w x = take_bit w (word_of_int v)"

lemma low_of_int [simp]: "low w (word_of_int v) v" by (simp add: low_def)










section \<open>The operators\<close>




















section \<open>The evaluator\<close>







lemma common_word_promote: "word_ty (promote a) \<Longrightarrow> word_ty (promote b) \<Longrightarrow> promote (c_common a b) = c_common a b"
  using c_common_word [of a b] by (auto simp: promote_def word_ty_def)





































section \<open>The value of a line\<close>

text \<open>A token that is the whole text of its file.\<close>

definition text_token :: "token_kind \<Rightarrow> string \<Rightarrow> u64 \<Rightarrow> ctype \<Rightarrow> pp_token" where
  "text_token k s v ty =
     \<lparr>pt_tok = \<lparr>tk_kind = k, tk_val = v, tk_fval = (0, 10, 0), tk_loc = 0, tk_len = length s, tk_ty = Some ty, tk_str = [],
        tk_line_no = 1, tk_at_bol = False, tk_has_space = False\<rparr>,
      pt_src = bytes_of s, pt_file = 0, pt_filename = [], pt_line = 1, pt_delta = 0, pt_hideset = [], pt_origin = None\<rparr>"

abbreviation op_token :: "string \<Rightarrow> pp_token" where "op_token s \<equiv> text_token TK_PUNCT s 0 ty_int"

abbreviation end_token :: pp_token where "end_token \<equiv> text_token TK_EOF [] 0 ty_int"

lemma op_token_is [simp]: "is_op (op_token s) s"
  by (simp add: is_op_def equal_tok_def spelling_def tok_text_def text_token_def bytes_of_def)

lemma end_stops: "stops 11 end_token"
  by code_simp

lemma num_token_is: "is_num (text_token TK_NUM ''7'' v ty_int) ty_int" "is_num (text_token TK_NUM ''7'' v ty_uint) ty_uint"
proof -
  have "list_all (\<lambda>op. \<not> equal_tok (text_token TK_NUM ''7'' 0 ty_int) op) start_ops" by code_simp
  then have "list_all (\<lambda>op. \<not> equal_tok (text_token TK_NUM ''7'' v ty) op) start_ops" for ty
    by (simp add: equal_tok_def spelling_def tok_text_def text_token_def)
  then show "is_num (text_token TK_NUM ''7'' v ty_int) ty_int" "is_num (text_token TK_NUM ''7'' v ty_uint) ty_uint"
    by (simp_all add: is_num_def int_ty_def text_token_def is_integer_def basic_types)
qed

text \<open>\<open>1 + 2 * 3\<close> and its tree.\<close>

abbreviation num_token :: "u64 \<Rightarrow> pp_token" where "num_token v \<equiv> text_token TK_NUM ''7'' v ty_int"

abbreviation num_tree :: "u64 \<Rightarrow> cexpr" where "num_tree v \<equiv> CNum (num_token v) (Some ty_int) v"

definition sum_line :: toks where
  "sum_line = [num_token 1, op_token ''+'', num_token 2, op_token ''*'', num_token 3]"

definition sum_tree :: cexpr where
  "sum_tree = new_binary ND_ADD (num_tree 1) (new_binary ND_MUL (num_tree 2) (num_tree 3) (op_token ''*'')) (op_token ''+'')"

lemma num_derives: "derives 0 [num_token v] (num_tree v)"
  using derives.num [OF num_token_is(1), of v] by (simp add: text_token_def)

lemma derives_up: "derives l ts e \<Longrightarrow> l + n \<le> 12 \<Longrightarrow> derives (l + n) ts e"
  by (induction n) (auto dest: derives.up)

lemma derives_plain:
  "(op, k, False) \<in> set (bin_ops (Suc l)) \<Longrightarrow> is_op t op \<Longrightarrow> derives (Suc l) ts a \<Longrightarrow> derives l us b \<Longrightarrow>
   derives (Suc l) (ts @ t # us) (new_binary k a b t)"
  using derives.binary [of op k False l t ts a us b] by simp

lemma sum_derives: "derives 11 sum_line sum_tree"
proof -
  have d: "derives l [num_token v] (num_tree v)" if "l \<le> 12" for l v using derives_up [OF num_derives, of l v] that by simp
  have mul: "derives (Suc 0) ([num_token 2] @ op_token ''*'' # [num_token 3]) (new_binary ND_MUL (num_tree 2) (num_tree 3) (op_token ''*''))"
    by (rule derives_plain [OF _ op_token_is d d]) (simp_all add: bin_ops_def)
  have "derives (Suc (Suc 0)) ([num_token 1] @ op_token ''+'' # ([num_token 2] @ op_token ''*'' # [num_token 3])) sum_tree"
    unfolding sum_tree_def by (rule derives_plain [OF _ op_token_is d mul]) (simp_all add: bin_ops_def)
  from derives_up [OF this, of 9] show ?thesis by (simp add: sum_line_def)
qed

text \<open>
  C38: The parser of \<open>const_expr\<close> reads every sentence of the expression grammar up to a token that cannot continue it,
  with the precedence and the associativity of the grammar: the result is the value of the grammar's tree.
\<close>

theorem const_expr_parses:
  assumes "derives 11 ts e" "stops 11 t"
  shows "const_expr (ts @ t # r) = bind_res (eval_ce e) (\<lambda>v. Inr (v, t # r))"
  using const_expr_reads [OF assms] .

lemma const_expr_parses_witness: "const_expr (sum_line @ [end_token]) = bind_res (eval_ce sum_tree) (\<lambda>v. Inr (v, [end_token]))"
  using const_expr_parses [OF sum_derives end_stops, of "[]"] .







end
