(* ===== verification/Asm_Buf.thy ===== *)
theory Asm_Buf
  imports Pp_Number
begin

text \<open>
  The output buffers of the integrated assembler (\<open>src/emit_elf.c\<close>): big-endian numbers, alignment,
  strings, and the LEB128 numbers of the debug information with the proof that the two encoders are
  inverted by the decoders of the DWARF standard (section 7.6). A buffer is the list of its bytes, and each
  function here returns what it appends.
\<close>

section \<open>Buffers\<close>

definition b16 :: "u32 \<Rightarrow> bytes" where "b16 v = [ucast (drop_bit 8 v), ucast v]"

definition b32 :: "u32 \<Rightarrow> bytes" where
  "b32 v = [ucast (drop_bit 24 v), ucast (drop_bit 16 v), ucast (drop_bit 8 v), ucast v]"

text \<open>The padding; an alignment of 0 divides by zero.\<close>

function pad_loop :: "nat \<Rightarrow> nat \<Rightarrow> bytes" where
  "pad_loop len a = (if a = 0 \<or> len mod a = 0 then [] else 0 # pad_loop (Suc len) a)"
  by pat_completeness auto
termination
  by (relation "measure (\<lambda>(len, a). (a - len mod a) mod a)") (auto simp: mod_Suc intro!: diff_less_mono2)

declare pad_loop.simps [simp del]

definition buf_align :: "bytes \<Rightarrow> nat \<Rightarrow> bytes" where "buf_align b a = b @ pad_loop (length b) a"

definition put_cstr :: "string \<Rightarrow> bytes" where "put_cstr s = bytes_of s @ [0]"

text \<open>A section name in the string table: the offset and the longer table.\<close>

definition add_str :: "bytes \<Rightarrow> string \<Rightarrow> nat \<times> bytes" where "add_str b s = (length b, b @ put_cstr s)"

definition patch32 :: "bytes \<Rightarrow> nat \<Rightarrow> u32 \<Rightarrow> bytes" where
  "patch32 b off v = take off b @ b32 v @ drop (off + 4) b"

lemma pad_loop_length: "0 < a \<Longrightarrow> length (pad_loop len a) = (a - len mod a) mod a"
proof (induction len a rule: pad_loop.induct)
  case (1 len a)
  have m: "len mod a < a" using 1(2) by simp
  show ?case using 1 m by (subst pad_loop.simps) (auto simp: mod_Suc)
qed

text \<open>The padding is zeros, makes the length a multiple and is shorter than the alignment.\<close>

lemma buf_align_correct:
  assumes "0 < a"
  shows "length (buf_align b a) mod a = 0" "length (buf_align b a) < length b + a" "\<exists>k. buf_align b a = b @ replicate k 0"
proof -
  have "length b mod a < a" using assms by simp
  then have "(length b mod a + (a - length b mod a)) mod a = 0" by simp
  then have "(length b + (a - length b mod a)) mod a = 0" by (simp only: mod_add_left_eq)
  then have "(length b + (a - length b mod a) mod a) mod a = 0" by (simp only: mod_add_right_eq)
  then show "length (buf_align b a) mod a = 0" by (simp only: buf_align_def length_append pad_loop_length [OF assms])
  show "length (buf_align b a) < length b + a" using assms by (simp add: buf_align_def pad_loop_length)
  have "pad_loop len a = replicate (length (pad_loop len a)) 0" for len
  proof (induction len a rule: pad_loop.induct)
    case (1 len a)
    then show ?case by (cases "a = 0 \<or> len mod a = 0") (simp_all add: pad_loop.simps [of len a])
  qed
  then show "\<exists>k. buf_align b a = b @ replicate k 0" by (auto simp: buf_align_def)
qed

section \<open>LEB128\<close>

function uleb :: "u64 \<Rightarrow> bytes" where
  "uleb v =
     (let byte = ucast (v AND 0x7F); w = drop_bit 7 v
      in if w \<noteq> 0 then (byte OR 0x80) # uleb w else [byte])"
  by pat_completeness auto
termination
proof (relation "measure unat")
  fix v byte w :: u64
  assume w: "w = drop_bit 7 v" "w \<noteq> 0"
  have "unat w = drop_bit 7 (unat v)" using w by (simp only: unat_drop_bit_eq)
  then have "unat w = unat v div 2 ^ 7" by (simp add: drop_bit_eq_div)
  moreover have "0 < unat w" using w(2) by (simp add: unat_gt_0)
  ultimately show "(w, v) \<in> measure unat" by simp
qed simp

function sleb :: "u64 \<Rightarrow> bytes" where
  "sleb v =
     (let byte = ucast (v AND 0x7F); w = signed_drop_bit 7 v
      in if w = 0 \<and> byte AND 0x40 = 0 \<or> w = - 1 \<and> byte AND 0x40 \<noteq> 0 then [byte] else (byte OR 0x80) # sleb w)"
  by pat_completeness auto
termination
proof (relation "measure (\<lambda>v. nat (if 0 \<le> sint v then sint v else - sint v - 1))")
  fix v w :: u64 and byte :: u8
  assume b: "byte = ucast (v AND 0x7F)" and w: "w = signed_drop_bit 7 v"
    and d: "\<not> (w = 0 \<and> byte AND 0x40 = 0 \<or> w = - 1 \<and> byte AND 0x40 \<noteq> 0)"
  have s: "sint w = sint v div 128" using w by (simp add: sint_signed_drop_bit_eq drop_bit_eq_div)
  have "v \<noteq> 0" using b w d by auto
  then have z: "sint v \<noteq> 0" using signed_eq_0_iff by blast
  have "v \<noteq> - 1" using b w d by auto
  then have m: "sint v \<noteq> - 1" by (metis signed_minus_1 signed_word_eqI)
  have "sint v div 128 \<ge> 0 \<longleftrightarrow> sint v \<ge> 0" by (simp add: pos_imp_zdiv_nonneg_iff)
  moreover have "sint v div 128 < sint v" if "0 \<le> sint v" using z that by (intro int_div_less_self) auto
  moreover have "sint v < sint v div 128" if "sint v < 0" using m that by (simp add: zdiv_mono1)
  ultimately show "(w, v) \<in> measure (\<lambda>v. nat (if 0 \<le> sint v then sint v else - sint v - 1))"
    using s by auto
qed simp

declare uleb.simps [simp del] sleb.simps [simp del]

text \<open>The decoders of the standard.\<close>

fun uleb_value :: "bytes \<Rightarrow> (nat \<times> bytes) option" where
  "uleb_value [] = None"
| "uleb_value (b # p) =
     (if b AND 0x80 = 0 then Some (unat b, p)
      else map_option (\<lambda>(v, q). (unat (b AND 0x7F) + 128 * v, q)) (uleb_value p))"

fun sleb_value :: "bytes \<Rightarrow> (int \<times> bytes) option" where
  "sleb_value [] = None"
| "sleb_value (b # p) =
     (if b AND 0x80 = 0 then Some (if b AND 0x40 = 0 then uint b else uint b - 128, p)
      else map_option (\<lambda>(v, q). (uint (b AND 0x7F) + 128 * v, q)) (sleb_value p))"

lemma uleb_byte: "unat (ucast (v AND 0x7F) :: u8) = unat v mod 128" for v :: u64
proof -
  have "v AND 0x7F = take_bit 7 v" by (simp add: take_bit_eq_mask mask_eq_exp_minus_1)
  then have "unat (ucast (v AND 0x7F) :: u8) = take_bit 8 (take_bit 7 (unat v))"
    by (simp only: unsigned_ucast_eq unsigned_take_bit_eq) simp
  also have "\<dots> = unat v mod 128" by (simp add: take_bit_eq_mod)
  finally show ?thesis .
qed

lemma seven_bits:
  "unat (b :: u8) < 128 \<Longrightarrow> b AND 0x80 = 0 \<and> (b OR 0x80) AND 0x80 \<noteq> 0 \<and> (b OR 0x80) AND 0x7F = b"
proof -
  assume "unat b < 128"
  then have b: "unat b \<in> set [0..<128]" by simp
  have "\<forall>n \<in> set [0..<128]. (of_nat n :: u8) AND 0x80 = 0 \<and> (of_nat n OR 0x80) AND 0x80 \<noteq> (0 :: u8) \<and>
      (of_nat n OR 0x80) AND 0x7F = (of_nat n :: u8)" by code_simp
  from bspec [OF this b] show ?thesis by (simp only: of_nat_unat ucast_id simp_thms)
qed

lemma uleb_inverse: "uleb_value (uleb v @ p) = Some (unat v, p)"
proof (induction v rule: uleb.induct)
  case (1 v)
  let ?b = "ucast (v AND 0x7F) :: u8"
  note b = seven_bits [of ?b]
  have k: "unat ?b < 128" by (simp add: uleb_byte)
  have "unat (drop_bit 7 v) = drop_bit 7 (unat v)" by (simp only: unat_drop_bit_eq)
  then have d: "unat (drop_bit 7 v) = unat v div 128" by (simp add: drop_bit_eq_div)
  show ?case
  proof (cases "drop_bit 7 v = 0")
    case True
    then have "unat v div 128 = 0" using d by simp
    then show ?thesis using True b k by (simp add: uleb.simps [of v] uleb_byte)
  next
    case False
    then show ?thesis using 1 b k d by (subst uleb.simps) (simp add: uleb_byte Let_def)
  qed
qed

lemma sleb_inverse: "sleb_value (sleb v @ p) = Some (sint v, p)"
proof (induction v rule: sleb.induct)
  case (1 v)
  let ?b = "ucast (v AND 0x7F) :: u8" and ?w = "signed_drop_bit 7 v"
  note b = seven_bits [of ?b]
  have k: "unat ?b < 128" by (simp add: uleb_byte)
  have s: "sint ?w = sint v div 128" by (simp add: sint_signed_drop_bit_eq drop_bit_eq_div)
  have "uint ?b = int (unat ?b)" by simp
  also have "\<dots> = uint v mod 128" by (simp only: uleb_byte zmod_int uint_nat) simp
  also have "\<dots> = take_bit 7 (signed_take_bit 63 (uint v))" 
    by (subst take_bit_signed_take_bit) (simp_all add: take_bit_eq_mod)
  also have "signed_take_bit 63 (uint v) = sint v" by (simp add: sint_uint)
  finally have u: "uint ?b = sint v mod 128" by (simp add: take_bit_eq_mod)
  have e: "sint v = uint ?b + 128 * sint ?w" using s u by simp
  show ?case
  proof (cases "?w = 0 \<and> ?b AND 0x40 = 0 \<or> ?w = - 1 \<and> ?b AND 0x40 \<noteq> 0")
    case True
    then show ?thesis using b k e by (subst sleb.simps) (auto simp: Let_def)
  next
    case False
    have ih: "sleb_value (sleb ?w @ p) = Some (sint ?w, p)" using 1 False by blast
    have "sleb v = (?b OR 0x80) # sleb ?w" using False by (subst sleb.simps) (simp only: Let_def if_False)
    then show ?thesis using ih b k e by simp
  qed
qed

end
