(* ===== verification/Asm_Encode.thy ===== *)
theory Asm_Encode
  imports Asm_Buf
begin

text \<open>
  The instruction encoder of the integrated assembler (\<open>parse_ea\<close>, \<open>encode_insn\<close> and what they call in
  \<open>src/emit_elf.c\<close>). The text is what the compiler prints, without NULs; an absent operand is \<open>None\<close>. The
  fields of an instruction word are combined as the \<open>int\<close> expressions of the code combine them, on 32-bit
  words; the shifts of negative numbers that garbage operands would lead to wrap.
\<close>

section \<open>Errors and state\<close>

text \<open>\<open>error\<close> with its message and what the message quotes, a null operand dereferenced, and a division by zero.\<close>

datatype asm_error = Asm_error string string | Null_operand | Zero_align | Past_end

abbreviation asm_err :: "string \<Rightarrow> string \<Rightarrow> asm_error + 'a" where
  "asm_err m s \<equiv> Inl (Asm_error m s)"

definition S_NULL :: nat where "S_NULL = 0"
definition S_TEXT :: nat where "S_TEXT = 1"
definition S_DATA :: nat where "S_DATA = 2"
definition S_BSS :: nat where "S_BSS = 3"
definition S_RODATA :: nat where "S_RODATA = 4"

lemmas section_defs = S_NULL_def S_TEXT_def S_DATA_def S_BSS_def S_RODATA_def

definition R_68K_32 :: u32 where "R_68K_32 = 1"

record asm_sym =
  sy_name :: string
  sy_shndx :: nat
  sy_value :: u32
  sy_size :: u32
  sy_bind :: u32
  sy_is_section :: bool
  sy_nameoff :: nat
  sy_index :: nat

record asm_rel =
  rl_sec :: nat
  rl_off :: u32
  rl_sym :: string
  rl_type :: u32
  rl_add :: u32

record asm_fix =
  fx_off :: u32
  fx_label :: string

record asm_state =
  as_text :: bytes
  as_data :: bytes
  as_rodata :: bytes
  as_bss :: u32
  as_sec :: nat
  as_syms :: "asm_sym list"
  as_rels :: "asm_rel list"
  as_fixes :: "asm_fix list"
  as_public :: "string list"
  as_extern :: "string list"
  as_funcs :: "string list"
  as_lrows :: "(u32 \<times> u32) list"
  as_dbg_file :: "string option"

definition asm_init :: asm_state where
  "asm_init = \<lparr>as_text = [], as_data = [], as_rodata = [], as_bss = 0, as_sec = 0, as_syms = [], as_rels = [], as_fixes = [],
     as_public = [], as_extern = [], as_funcs = [], as_lrows = [], as_dbg_file = None\<rparr>"

section \<open>Symbols, relocations and fixups\<close>

definition sym_find :: "asm_state \<Rightarrow> string \<Rightarrow> asm_sym option" where
  "sym_find st name = find (\<lambda>s. sy_name s = name) (as_syms st)"

definition new_sym :: "string \<Rightarrow> asm_sym" where
  "new_sym name = \<lparr>sy_name = name, sy_shndx = S_NULL, sy_value = 0, sy_size = 0, sy_bind = 0, sy_is_section = False, sy_nameoff = 0, sy_index = 0\<rparr>"

definition sym_intern :: "string \<Rightarrow> asm_state \<Rightarrow> asm_state" where
  "sym_intern name st =
     (case sym_find st name of Some s \<Rightarrow> st | None \<Rightarrow> st\<lparr>as_syms := as_syms st @ [new_sym name]\<rparr>)"

text \<open>Changes the first symbol of a name.\<close>

fun update_sym :: "string \<Rightarrow> (asm_sym \<Rightarrow> asm_sym) \<Rightarrow> asm_sym list \<Rightarrow> asm_sym list" where
  "update_sym name f [] = []"
| "update_sym name f (s # ss) = (if sy_name s = name then f s # ss else s # update_sym name f ss)"

definition sym_define :: "string \<Rightarrow> nat \<Rightarrow> u32 \<Rightarrow> asm_state \<Rightarrow> asm_state" where
  "sym_define name shndx value st =
     (let st' = sym_intern name st
      in st'\<lparr>as_syms := update_sym name (\<lambda>s. s\<lparr>sy_shndx := shndx, sy_value := value\<rparr>) (as_syms st')\<rparr>)"

definition strip_extmark :: "string \<Rightarrow> string" where
  "strip_extmark name =
     (let n = length name in if 2 \<le> n \<and> name ! (n - 2) = CHR ''#'' \<and> name ! (n - 1) = CHR ''#'' then take (n - 2) name else name)"

definition add_reloc :: "nat \<Rightarrow> u32 \<Rightarrow> string \<Rightarrow> u32 \<Rightarrow> u32 \<Rightarrow> asm_state \<Rightarrow> asm_state" where
  "add_reloc sec off n type add st =
     (let name = strip_extmark n; st' = sym_intern name st
      in st'\<lparr>as_rels := as_rels st' @ [\<lparr>rl_sec = sec, rl_off = off, rl_sym = name, rl_type = type, rl_add = add\<rparr>]\<rparr>)"

definition add_fixup :: "u32 \<Rightarrow> string \<Rightarrow> asm_state \<Rightarrow> asm_state" where
  "add_fixup off label st = st\<lparr>as_fixes := as_fixes st @ [\<lparr>fx_off = off, fx_label = label\<rparr>]\<rparr>"

definition cur_buf :: "asm_state \<Rightarrow> asm_error + bytes" where
  "cur_buf st =
     (if as_sec st = S_TEXT then Inr (as_text st) else if as_sec st = S_DATA then Inr (as_data st)
      else if as_sec st = S_RODATA then Inr (as_rodata st)
      else asm_err ''emit_elf: data emitted with no active section'' '''')"

text \<open>What \<open>b8\<close> to \<open>b32\<close> append to \<open>&text\<close> and to \<open>cur_buf()\<close>.\<close>

definition put_text :: "bytes \<Rightarrow> asm_state \<Rightarrow> asm_state" where
  "put_text bs st = st\<lparr>as_text := as_text st @ bs\<rparr>"

definition put_cur :: "bytes \<Rightarrow> asm_state \<Rightarrow> asm_state" where
  "put_cur bs st =
     (if as_sec st = S_TEXT then st\<lparr>as_text := as_text st @ bs\<rparr> else if as_sec st = S_DATA then st\<lparr>as_data := as_data st @ bs\<rparr>
      else st\<lparr>as_rodata := as_rodata st @ bs\<rparr>)"

section \<open>Lexing\<close>

definition blank :: "char \<Rightarrow> bool" where "blank c \<longleftrightarrow> c = CHR '' '' \<or> c = CHR 0x09"

definition trim :: "string \<Rightarrow> string" where
  "trim s = rev (dropWhile (\<lambda>c. blank c \<or> c = CHR 0x0D) (rev (dropWhile blank s)))"

definition is_digit :: "char \<Rightarrow> bool" where "is_digit c \<longleftrightarrow> c \<in> set ''0123456789''"

definition cur_char :: "string \<Rightarrow> char" where "cur_char s = (case s of [] \<Rightarrow> CHR 0x00 | c # _ \<Rightarrow> c)"

text \<open>\<open>strtoull\<close> with the white space and the sign it accepts.\<close>

definition strtoull_text :: "string \<Rightarrow> nat \<Rightarrow> u64" where
  "strtoull_text s b =
     (let t = dropWhile (\<lambda>c. is_space_ch (ch c)) s
      in if cur_char t = CHR ''-'' then - fst (strtoull (bytes_of (tl t)) b)
         else if cur_char t = CHR ''+'' then fst (strtoull (bytes_of (tl t)) b)
         else fst (strtoull (bytes_of t) b))"

definition parse_num :: "string \<Rightarrow> u64" where
  "parse_num s =
     (let neg = (cur_char s = CHR ''-''); t = (if cur_char s = CHR ''+'' \<or> neg then tl s else s);
          v = (if cur_char t = CHR ''$'' then strtoull_text (tl t) 16 else strtoull_text t 10)
      in if neg then - v else v)"

text \<open>\<open>s[1] - '0'\<close>, and \<open>s + 1\<close>.\<close>

definition digit_at :: "string \<Rightarrow> nat \<Rightarrow> u32" where
  "digit_at s i = scast (ch (if i < length s then s ! i else CHR 0x00)) - 48"

definition skip1 :: "string option \<Rightarrow> asm_error + string" where
  "skip1 o1 = (case o1 of None \<Rightarrow> Inl Null_operand | Some [] \<Rightarrow> Inl Past_end | Some (c # s) \<Rightarrow> Inr s)"

definition reg_num :: "string \<Rightarrow> asm_error + u32" where
  "reg_num s =
     (if s = ''sp'' then Inr 7
      else if cur_char s = CHR ''d'' \<or> cur_char s = CHR ''a'' then Inr (digit_at s 1)
      else asm_err ''emit_elf: bad register '' s)"

section \<open>Operands\<close>

record ea =
  ea_mode :: u32
  ea_reg :: u32
  ea_words :: "u32 list"
  ea_reloc :: bool
  ea_sym :: string
  ea_add :: u32
  ea_is_imm :: bool
  ea_imm :: u64

definition ea_zero :: ea where
  "ea_zero = \<lparr>ea_mode = 0, ea_reg = 0, ea_words = [], ea_reloc = False, ea_sym = [], ea_add = 0, ea_is_imm = False, ea_imm = 0\<rparr>"

definition until_char :: "char \<Rightarrow> string \<Rightarrow> string" where "until_char c s = takeWhile (\<lambda>x. x \<noteq> c) s"

definition from_char :: "char \<Rightarrow> string \<Rightarrow> string" where "from_char c s = dropWhile (\<lambda>x. x \<noteq> c) s"

definition parse_imm :: "string \<Rightarrow> nat \<Rightarrow> ea" where
  "parse_imm s sz =
     (let v = parse_num s
      in ea_zero\<lparr>ea_mode := 7, ea_reg := 4, ea_is_imm := True, ea_imm := v,
           ea_words := (if sz = 4 then [drop_bit 16 (ucast v) AND 0xFFFF, ucast v AND 0xFFFF]
                      else [ucast v AND (if sz = 1 then 0xFF else 0xFFFF)])\<rparr>)"

text \<open>\<open>s\<close> is the text after the opening parenthesis.\<close>

definition parse_indirect :: "string \<Rightarrow> asm_error + ea" where
  "parse_indirect s =
     (let inner = until_char (CHR '')'') s
      in if CHR '','' \<in> set inner then
           bind_res (reg_num (until_char (CHR '','') inner)) (\<lambda>r.
             let ip = trim (tl (from_char (CHR '','') inner));
                 itype = (if cur_char ip = CHR ''a'' then 1 else 0);
                 dot = from_char (CHR ''.'') ip;
                 isz = (if dot \<noteq> [] \<and> cur_char (tl dot) = CHR ''w'' then 0 else 1)
             in if ip = [] then Inl Past_end else Inr (ea_zero\<lparr>ea_mode := 6, ea_reg := r,
                  ea_words := [push_bit 15 itype OR push_bit 12 (digit_at ip 1) OR push_bit 11 isz]\<rparr>))
         else bind_res (reg_num inner) (\<lambda>r.
           if CHR '')'' \<notin> set s then Inl Past_end else Inr (ea_zero\<lparr>ea_reg := r, ea_mode := (if cur_char (tl (from_char (CHR '')'') s)) = CHR ''+'' then 3 else 2)\<rparr>)))"

definition parse_abs :: "string \<Rightarrow> ea" where
  "parse_abs s =
     (let name = take 1 s @ takeWhile (\<lambda>c. c \<noteq> CHR ''+'' \<and> c \<noteq> CHR ''-'') (drop 1 s);
          plus = dropWhile (\<lambda>c. c \<noteq> CHR ''+'' \<and> c \<noteq> CHR ''-'') (drop 1 s)
      in ea_zero\<lparr>ea_mode := 7, ea_reg := 1, ea_reloc := True, ea_sym := name, ea_words := [0, 0],
           ea_add := (if plus = [] then 0 else ucast (parse_num plus))\<rparr>)"

definition parse_ea :: "string option \<Rightarrow> nat \<Rightarrow> asm_error + ea" where
  "parse_ea o1 sz =
     (case o1 of None \<Rightarrow> Inl Null_operand | Some o1 \<Rightarrow>
      let s = trim o1
      in if cur_char s = CHR ''#'' then Inr (parse_imm (tl s) sz)
         else if take 2 s = ''-('' then
           bind_res (reg_num (until_char (CHR '')'') (drop 2 s))) (\<lambda>r. Inr (ea_zero\<lparr>ea_mode := 4, ea_reg := r\<rparr>))
         else if cur_char s = CHR ''('' then parse_indirect (tl s)
         else if (cur_char s = CHR ''d'' \<or> cur_char s = CHR ''a'') \<and> length s = 2 \<and> is_digit (s ! 1) then
           Inr (ea_zero\<lparr>ea_mode := (if cur_char s = CHR ''d'' then 0 else 1), ea_reg := digit_at s 1\<rparr>)
         else if s = ''sp'' then Inr (ea_zero\<lparr>ea_mode := 1, ea_reg := 7\<rparr>)
         else if CHR ''('' \<in> set s then
           bind_res (reg_num (until_char (CHR '')'') (tl (from_char (CHR ''('') s)))) (\<lambda>r.
             Inr (ea_zero\<lparr>ea_mode := 5, ea_reg := r, ea_words := [ucast (parse_num (until_char (CHR ''('') s)) AND 0xFFFF]\<rparr>))
         else if s = [] then Inl Past_end
         else Inr (parse_abs s))"

definition text_len :: "asm_state \<Rightarrow> u32" where "text_len st = of_nat (length (as_text st))"

definition emit_ext :: "ea \<Rightarrow> asm_state \<Rightarrow> asm_state" where
  "emit_ext e st =
     (if ea_reloc e then
        put_text (b16 0 @ b16 0) (add_reloc S_TEXT (text_len st) (ea_sym e) R_68K_32 (ea_add e) st)
      else put_text (concat (map b16 (ea_words e))) st)"

section \<open>Fields\<close>

definition move_size_field :: "nat \<Rightarrow> u32" where "move_size_field sz = (if sz = 1 then 1 else if sz = 2 then 3 else 2)"

definition std_size_field :: "nat \<Rightarrow> u32" where "std_size_field sz = (if sz = 1 then 0 else if sz = 2 then 1 else 2)"

definition ea_field :: "ea \<Rightarrow> u32" where "ea_field e = push_bit 3 (ea_mode e) OR ea_reg e"

definition enc_move :: "nat \<Rightarrow> ea \<Rightarrow> ea \<Rightarrow> asm_state \<Rightarrow> asm_state" where
  "enc_move sz src dst st =
     emit_ext dst (emit_ext src (put_text (b16
       (push_bit 12 (move_size_field sz) OR push_bit 9 (ea_reg dst) OR push_bit 6 (ea_mode dst) OR ea_field src)) st))"

definition enc_alu :: "u32 \<Rightarrow> nat \<Rightarrow> u32 \<Rightarrow> ea \<Rightarrow> u32 \<Rightarrow> asm_state \<Rightarrow> asm_state" where
  "enc_alu topnib sz dn e dir st =
     (let opmode = push_bit 2 dir OR std_size_field sz
      in emit_ext e (put_text (b16 (push_bit 12 topnib OR push_bit 9 dn OR push_bit 6 opmode OR ea_field e)) st))"

definition enc_imm :: "u32 \<Rightarrow> nat \<Rightarrow> u64 \<Rightarrow> ea \<Rightarrow> asm_state \<Rightarrow> asm_state" where
  "enc_imm code sz imm e st =
     emit_ext e (put_text
       (b16 (push_bit 9 code OR push_bit 6 (std_size_field sz) OR ea_field e) @
        (if sz = 4 then b32 (ucast imm) else b16 (ucast imm AND (if sz = 1 then 0xFF else 0xFFFF)))) st)"

definition cond_names :: "(string \<times> u32) list" where
  "cond_names = [(''ra'', 0), (''t'', 0), (''f'', 1), (''hi'', 2), (''ls'', 3), (''cc'', 4), (''hs'', 4), (''cs'', 5), (''lo'', 5),
     (''ne'', 6), (''eq'', 7), (''vc'', 8), (''vs'', 9), (''pl'', 10), (''mi'', 11), (''ge'', 12), (''lt'', 13), (''gt'', 14), (''le'', 15)]"

definition cond_code :: "string \<Rightarrow> asm_error + u32" where
  "cond_code cc =
     (case map_of cond_names cc of Some c \<Rightarrow> Inr c | None \<Rightarrow> asm_err ''emit_elf: unknown condition '' cc)"

text \<open>The last dot, when one character of size follows it.\<close>

definition split_size :: "string \<Rightarrow> string \<times> nat" where
  "split_size m =
     (let n = length m
      in if 2 \<le> n \<and> m ! (n - 2) = CHR ''.'' \<and> m ! (n - 1) = CHR ''b'' then (take (n - 2) m, 1)
         else if 2 \<le> n \<and> m ! (n - 2) = CHR ''.'' \<and> m ! (n - 1) = CHR ''w'' then (take (n - 2) m, 2)
         else if 2 \<le> n \<and> m ! (n - 2) = CHR ''.'' \<and> m ! (n - 1) = CHR ''l'' then (take (n - 2) m, 4)
         else (m, 0))"

section \<open>Instructions\<close>

definition with1 :: "string option \<Rightarrow> nat \<Rightarrow> (ea \<Rightarrow> asm_state) \<Rightarrow> asm_error + asm_state" where
  "with1 o1 sz f = bind_res (parse_ea o1 sz) (\<lambda>e. Inr (f e))"

definition with2 :: "string option \<Rightarrow> string option \<Rightarrow> nat \<Rightarrow> (ea \<Rightarrow> ea \<Rightarrow> asm_state) \<Rightarrow> asm_error + asm_state" where
  "with2 o1 o2 sz f = bind_res (parse_ea o1 sz) (\<lambda>s. bind_res (parse_ea o2 sz) (\<lambda>d. Inr (f s d)))"

definition imm_code :: "string \<Rightarrow> u32" where
  "imm_code base = (if base = ''or'' then 0 else if base = ''and'' then 1 else if base = ''sub'' then 2
     else if base = ''add'' then 3 else if base = ''eor'' then 5 else 6)"

definition alu_nibble :: "string \<Rightarrow> u32" where
  "alu_nibble base = (if base = ''add'' then 0xD else if base = ''sub'' then 0x9 else if base = ''and'' then 0xC
     else if base = ''or'' then 0x8 else 0xB)"

definition enc_arith :: "string \<Rightarrow> nat \<Rightarrow> ea \<Rightarrow> ea \<Rightarrow> asm_state \<Rightarrow> asm_state" where
  "enc_arith base sz s d st =
     (if ea_is_imm s then enc_imm (imm_code base) sz (ea_imm s) d st
      else if base = ''eor'' then
        emit_ext d (put_text (b16 (push_bit 12 0xB OR push_bit 9 (ea_reg s) OR push_bit 6 (4 OR std_size_field sz) OR ea_field d)) st)
      else enc_alu (alu_nibble base) sz (ea_reg d) s 0 st)"

text \<open>\<open>addq\<close> and \<open>subq\<close>: the count 8 is coded as 0.\<close>

definition quick :: "bool \<Rightarrow> nat \<Rightarrow> u64 \<Rightarrow> u32" where
  "quick issub sz imm =
     push_bit 12 5 OR push_bit 9 (ucast imm AND 7) OR (if issub then 0x100 else 0) OR push_bit 6 (std_size_field sz)"

definition enc_adda :: "bool \<Rightarrow> nat \<Rightarrow> ea \<Rightarrow> ea \<Rightarrow> asm_state \<Rightarrow> asm_state" where
  "enc_adda issub sz s d st =
     (if ea_is_imm s \<and> 1 \<le> sint (ea_imm s) \<and> sint (ea_imm s) \<le> 8 then
        put_text (b16 (quick issub sz (ea_imm s) OR 8 OR ea_reg d)) st
      else emit_ext s (put_text (b16
        (push_bit 12 (if issub then 0x9 else 0xD) OR push_bit 9 (ea_reg d) OR push_bit 6 (if sz = 4 then 7 else 3) OR ea_field s)) st))"

definition unary_high :: "string \<Rightarrow> u32" where
  "unary_high base = (if base = ''negx'' then 0x40 else if base = ''clr'' then 0x42 else if base = ''neg'' then 0x44
     else if base = ''not'' then 0x46 else 0x4A)"

definition enc_shift :: "string \<Rightarrow> nat \<Rightarrow> u32 \<Rightarrow> u32 \<Rightarrow> u32 \<Rightarrow> u32" where
  "enc_shift base sz cnt ir reg =
     push_bit 12 0xE OR push_bit 9 cnt OR push_bit 8 (if take 2 (tl base) = ''sl'' then 1 else 0) OR
     push_bit 6 (std_size_field sz) OR push_bit 5 ir OR push_bit 3 (if cur_char base = CHR ''a'' then 0 else 1) OR reg"

text \<open>The register list of \<open>movem\<close>: bit \<open>i\<close> of the set for D0 to D7 and A0 to A7.\<close>

definition reg_bit :: "char \<Rightarrow> char \<Rightarrow> int" where
  "reg_bit c d = (if c = CHR ''a'' then 8 else 0) + (sint (ch d) - 48)"

definition range_bits :: "int \<Rightarrow> int \<Rightarrow> u32" where
  "range_bits lo hi = foldr (\<lambda>i m. m OR push_bit (nat i) 1) [lo..hi] 0"

fun reg_list :: "u32 \<Rightarrow> string \<Rightarrow> asm_error + u32" where
  "reg_list m [] = Inr m"
| "reg_list m [c] = (if c = CHR ''/'' \<or> c = CHR '' '' then Inr m else Inl Past_end)"
| "reg_list m (c # d # p) =
     (if c = CHR ''/'' \<or> c = CHR '' '' then reg_list m (d # p)
      else case p of
        [] \<Rightarrow> Inr (m OR range_bits (reg_bit c d) (reg_bit c d))
      | x # q \<Rightarrow>
          if x = CHR ''-'' then
            (case q of e # f # r \<Rightarrow> reg_list (m OR range_bits (reg_bit c d) (reg_bit e f)) r | _ \<Rightarrow> Inl Past_end)
          else reg_list (m OR range_bits (reg_bit c d) (reg_bit c d)) (x # q))"

definition movem_mask :: "u32 \<Rightarrow> u32 \<Rightarrow> u32" where
  "movem_mask mode regs =
     foldr (\<lambda>i m. if bit regs i then m OR push_bit (if mode = 4 then 15 - i else i) 1 else m) [0..<16] 0"

definition enc_movem :: "nat \<Rightarrow> string option \<Rightarrow> string option \<Rightarrow> asm_state \<Rightarrow> asm_error + asm_state" where
  "enc_movem sz o1 o2 st =
     (case (o1, o2) of
        (Some a, Some b) \<Rightarrow>
          (let dr = CHR ''('' \<in> set a
           in bind_res (reg_list 0 (if dr then b else a)) (\<lambda>regs.
              bind_res (parse_ea (Some (if dr then a else b)) sz) (\<lambda>e.
                Inr (emit_ext e (put_text
                  (b16 (0x4880 OR (if dr then 0x400 else 0) OR (if sz = 4 then 0x40 else 0) OR ea_field e) @
                   b16 (movem_mask (ea_mode e) regs)) st)))))
      | _ \<Rightarrow> Inl Null_operand)"

definition enc_branch :: "string \<Rightarrow> string option \<Rightarrow> asm_state \<Rightarrow> asm_error + asm_state" where
  "enc_branch cc o1 st =
     bind_res (cond_code cc) (\<lambda>c.
       case o1 of None \<Rightarrow> Inl Null_operand
       | Some l \<Rightarrow>
           (let st' = put_text (b16 (push_bit 12 6 OR push_bit 8 c)) st
            in Inr (put_text (b16 0) (add_fixup (text_len st') (trim l) st'))))"

definition is_arith :: "string \<Rightarrow> bool" where "is_arith base \<longleftrightarrow> base \<in> set [''add'', ''sub'', ''and'', ''or'', ''eor'', ''cmp'']"

definition is_unary :: "string \<Rightarrow> bool" where "is_unary base \<longleftrightarrow> base \<in> set [''neg'', ''negx'', ''not'', ''tst'', ''clr'']"

definition is_shift :: "string \<Rightarrow> bool" where "is_shift base \<longleftrightarrow> base \<in> set [''asl'', ''asr'', ''lsl'', ''lsr'']"

definition encode_rest :: "string \<Rightarrow> string \<Rightarrow> string option \<Rightarrow> string option \<Rightarrow> asm_state \<Rightarrow> asm_error + asm_state" where
  "encode_rest mnem base o1 o2 st =
     (if base = ''rts'' then Inr (put_text (b16 0x4E75) st)
      else if base = ''nop'' then Inr (put_text (b16 0x4E71) st)
      else if base = ''bra'' \<or> cur_char base = CHR ''b'' \<and> length base = 3 then
        enc_branch (if base = ''bra'' then ''ra'' else tl base) o1 st
      else if base = ''dbra'' \<or> base = ''dbf'' then
        bind_res (parse_ea o1 2) (\<lambda>d.
          case o2 of None \<Rightarrow> Inl Null_operand
          | Some l \<Rightarrow>
              (let st' = put_text (b16 (0x51C8 OR ea_reg d)) st
               in Inr (put_text (b16 0) (add_fixup (text_len st') (trim l) st'))))
      else if cur_char base = CHR ''s'' \<and> 3 \<le> length base then
        bind_res (cond_code (tl base)) (\<lambda>c.
          with1 o1 1 (\<lambda>d. put_text (b16 (push_bit 12 5 OR push_bit 8 c OR push_bit 6 3 OR ea_field d)) st))
      else asm_err ''emit_elf: unhandled instruction '' mnem)"

definition encode_insn :: "string \<Rightarrow> string option \<Rightarrow> string option \<Rightarrow> asm_state \<Rightarrow> asm_error + asm_state" where
  "encode_insn mnem o1 o2 st =
     (case split_size mnem of (base, sz) \<Rightarrow>
      if base = ''move'' \<or> base = ''movea'' then with2 o1 o2 sz (\<lambda>s d. enc_move sz s d st)
      else if base = ''moveq'' then
        bind_res (skip1 o1) (\<lambda>n. with1 o2 4 (\<lambda>d.
          put_text (b16 (push_bit 12 7 OR push_bit 9 (ea_reg d) OR (ucast (parse_num n) AND 0xFF))) st))
      else if base = ''lea'' then
        with2 o1 o2 4 (\<lambda>s d. emit_ext s (put_text (b16 (push_bit 12 4 OR push_bit 9 (ea_reg d) OR push_bit 6 7 OR ea_field s)) st))
      else if is_arith base then with2 o1 o2 sz (\<lambda>s d. enc_arith base sz s d st)
      else if base = ''adda'' \<or> base = ''suba'' then with2 o1 o2 sz (\<lambda>s d. enc_adda (cur_char base = CHR ''s'') sz s d st)
      else if base = ''addq'' \<or> base = ''subq'' then
        with2 o1 o2 sz (\<lambda>s d. emit_ext d (put_text (b16 (quick (cur_char base = CHR ''s'') sz (ea_imm s) OR ea_field d)) st))
      else if base = ''addx'' \<or> base = ''subx'' then
        with2 o1 o2 sz (\<lambda>s d. put_text (b16 (push_bit 12 (if cur_char base = CHR ''s'' then 0x9 else 0xD) OR push_bit 9 (ea_reg d) OR
          push_bit 8 1 OR push_bit 6 (std_size_field sz) OR ea_reg s)) st)
      else if base = ''andi'' \<or> base = ''ori'' \<or> base = ''eori'' then
        with2 o1 o2 sz (\<lambda>s d. enc_imm (if base = ''ori'' then 0 else if base = ''andi'' then 1 else 5) sz (ea_imm s) d st)
      else if base = ''ext'' then
        with1 o1 sz (\<lambda>d. put_text (b16 (push_bit 8 0x48 OR push_bit 6 (if sz = 4 then 3 else 2) OR ea_reg d)) st)
      else if is_unary base then
        with1 o1 sz (\<lambda>d. emit_ext d (put_text (b16 (push_bit 8 (unary_high base) OR push_bit 6 (std_size_field sz) OR ea_field d)) st))
      else if is_shift base then
        bind_res (parse_ea o2 sz) (\<lambda>d.
          case o1 of None \<Rightarrow> Inl Null_operand
          | Some c \<Rightarrow>
              if cur_char c = CHR ''#'' then
                Inr (put_text (b16 (enc_shift base sz (ucast (parse_num (tl c)) AND 7) 0 (ea_reg d))) st)
              else with1 o1 sz (\<lambda>s. put_text (b16 (enc_shift base sz (ea_reg s) 1 (ea_reg d))) st))
      else if base = ''jsr'' then with1 o1 4 (\<lambda>s. emit_ext s (put_text (b16 (push_bit 8 0x4E OR 0x80 OR ea_field s)) st))
      else if base = ''jmp'' then with1 o1 4 (\<lambda>s. emit_ext s (put_text (b16 (push_bit 8 0x4E OR 0xC0 OR ea_field s)) st))
      else if base = ''link'' then
        bind_res (parse_ea o1 4) (\<lambda>a. bind_res (skip1 o2) (\<lambda>n.
          Inr (put_text (b16 (0x4E50 OR ea_reg a) @ b16 (ucast (parse_num n) AND 0xFFFF)) st)))
      else if base = ''unlk'' then with1 o1 4 (\<lambda>a. put_text (b16 (0x4E58 OR ea_reg a)) st)
      else if base = ''movem'' then enc_movem sz o1 o2 st
      else encode_rest mnem base o1 o2 st)"

end
