(* ===== verification/Asm_Line.thy ===== *)
theory Asm_Line
  imports Asm_Encode
begin

text \<open>
  The lines of an assembler file (\<open>handle_debug_dir\<close>, \<open>do_data_dir\<close>, \<open>assemble_line\<close>, the reading loop of
  \<open>assemble_to_elf\<close> and \<open>resolve_fixups\<close> in \<open>src/emit_elf.c\<close>): labels, directives, data, instructions and the
  displacements of branches.
\<close>

section \<open>Words of a line\<close>

definition starts :: "string \<Rightarrow> string \<Rightarrow> bool" where "starts s pfx \<longleftrightarrow> take (length pfx) s = pfx"

definition toupper :: "char \<Rightarrow> char" where
  "toupper c = (if 97 \<le> (of_char c :: nat) \<and> (of_char c :: nat) \<le> 122 then char_of ((of_char c :: nat) - 32) else c)"

definition is_lower :: "char \<Rightarrow> bool" where "is_lower c \<longleftrightarrow> c \<in> set ''abcdefghijklmnopqrstuvwxyz''"

definition is_alpha :: "char \<Rightarrow> bool" where "is_alpha c \<longleftrightarrow> is_lower c \<or> c \<in> set ''ABCDEFGHIJKLMNOPQRSTUVWXYZ''"

text \<open>The first seven characters in upper case.\<close>

definition upper7 :: "string \<Rightarrow> string" where "upper7 s = map toupper (take 7 s)"

definition first_word :: "string \<Rightarrow> string" where "first_word s = takeWhile (\<lambda>c. \<not> blank c) s"

definition after_word :: "string \<Rightarrow> string" where "after_word s = trim (dropWhile (\<lambda>c. \<not> blank c) s)"

text \<open>The operands before and after the first comma outside parentheses.\<close>

fun split_operands :: "int \<Rightarrow> string \<Rightarrow> string \<times> string option" where
  "split_operands k [] = ([], None)"
| "split_operands k (c # s) =
     (if c = CHR '','' \<and> k = 0 then ([], Some s)
      else case split_operands (if c = CHR ''('' then k + 1 else if c = CHR '')'' then k - 1 else k) s of
        (a, b) \<Rightarrow> (c # a, b))"

text \<open>\<open>strtok(rest, ",")\<close> until it is null.\<close>

function strtok_commas :: "string \<Rightarrow> string list" where
  "strtok_commas s =
     (let t = dropWhile (\<lambda>c. c = CHR '','') s
      in if t = [] then [] else until_char (CHR '','') t # strtok_commas (from_char (CHR '','') t))"
  by pat_completeness auto
termination
proof (relation "measure (\<lambda>s. length (dropWhile (\<lambda>c. c = CHR '','') s))")
  fix s t :: string
  assume t: "t = dropWhile (\<lambda>c. c = CHR '','') s" "t \<noteq> []"
  obtain c u where c: "t = c # u" using t(2) by (cases t) auto
  have "dropWhile (\<lambda>c. c = CHR '','') s = c # u" using t(1) c by simp
  then have "c \<noteq> CHR '',''" by (simp add: dropWhile_eq_Cons_conv)
  then have "length (from_char (CHR '','') t) \<le> length u" using c by (simp add: from_char_def length_dropWhile_le)
  moreover have "length (dropWhile (\<lambda>c. c = CHR '','') (from_char (CHR '','') t)) \<le> length (from_char (CHR '','') t)"
    by (rule length_dropWhile_le)
  ultimately have "length (dropWhile (\<lambda>c. c = CHR '','') (from_char (CHR '','') t)) < length t" using c by simp
  then show "(from_char (CHR '','') t, s) \<in> measure (\<lambda>s. length (dropWhile (\<lambda>c. c = CHR '','') s))"
    unfolding t(1) in_measure .
qed simp

declare strtok_commas.simps [simp del]

section \<open>Debug directives\<close>

definition debug_loc :: "u32 \<Rightarrow> asm_state \<Rightarrow> asm_state" where
  "debug_loc line st =
     (if as_lrows st \<noteq> [] \<and> fst (last (as_lrows st)) = text_len st
      then st\<lparr>as_lrows := butlast (as_lrows st) @ [(text_len st, line)]\<rparr>
      else st\<lparr>as_lrows := as_lrows st @ [(text_len st, line)]\<rparr>)"

definition handle_debug_dir :: "string \<Rightarrow> asm_state \<Rightarrow> asm_state" where
  "handle_debug_dir s1 st =
     (let s = trim s1
      in if starts s ''func '' then st\<lparr>as_funcs := as_funcs st @ [trim (drop 5 s)]\<rparr>
         else if starts s ''endfunc '' then
           (let name = trim (drop 8 s)
            in case sym_find st name of None \<Rightarrow> st
               | Some fn \<Rightarrow>
                   if sy_shndx fn = S_TEXT
                   then st\<lparr>as_syms := update_sym name (\<lambda>y. y\<lparr>sy_size := text_len st - sy_value y\<rparr>) (as_syms st)\<rparr> else st)
         else if starts s ''file '' then
           (let p = trim (drop 5 s)
            in st\<lparr>as_dbg_file := Some (if cur_char p = CHR 0x22 then until_char (CHR 0x22) (tl p) else p)\<rparr>)
         else if starts s ''loc '' then debug_loc (ucast (parse_num (trim (drop 4 s)))) st
         else st)"

section \<open>Data directives\<close>

definition do_data_dir :: "string \<Rightarrow> string \<Rightarrow> asm_state \<Rightarrow> asm_error + asm_state" where
  "do_data_dir dir rest st =
     bind_res (cur_buf st) (\<lambda>b.
       if upper7 dir = ''DC.B'' then Inr (put_cur [ucast (parse_num (trim rest))] st)
       else if upper7 dir = ''DC.W'' then Inr (put_cur (b16 (ucast (parse_num (trim rest)) AND 0xFFFF)) st)
       else if upper7 dir = ''DC.L'' then
         (let r = trim rest
          in if is_alpha (cur_char r) \<or> cur_char r = CHR ''_'' then
               (let e = parse_abs r
                in Inr (put_cur (b32 0) (add_reloc (as_sec st) (of_nat (length b)) (ea_sym e) R_68K_32 (ea_add e) st)))
             else Inr (put_cur (b32 (ucast (parse_num r))) st))
       else asm_err ''emit_elf: unknown data directive '' dir)"

section \<open>A line\<close>

definition define_here :: "string \<Rightarrow> asm_state \<Rightarrow> asm_error + asm_state" where
  "define_here name st =
     bind_res (cur_buf st) (\<lambda>b. Inr (sym_define name (as_sec st) (of_nat (length b)) st))"

definition do_align :: "string \<Rightarrow> asm_state \<Rightarrow> asm_error + asm_state" where
  "do_align rest st =
     (let a = ucast (parse_num rest) :: u32
      in if as_sec st = S_BSS then
           (if a = 0 then Inl Zero_align else Inr (st\<lparr>as_bss := (as_bss st + a - 1) div a * a\<rparr>))
         else bind_res (cur_buf st) (\<lambda>b.
           if a = 0 then Inl Zero_align else Inr (put_cur (pad_loop (length b) (nat \<bar>sint a\<bar>)) st)))"

text \<open>A line that is not empty, a comment, a label or a debug directive; \<open>s\<close> is the whole line.\<close>

definition directive_line :: "string \<Rightarrow> string \<Rightarrow> string \<Rightarrow> asm_state \<Rightarrow> (asm_error + asm_state) option" where
  "directive_line s dir rest st =
     (if dir = ''.model'' then Some (Inr st)
      else if dir = ''.code'' then Some (Inr (st\<lparr>as_sec := S_TEXT\<rparr>))
      else if dir = ''.data'' then Some (Inr (st\<lparr>as_sec := S_DATA\<rparr>))
      else if dir = ''.data?'' then Some (Inr (st\<lparr>as_sec := S_BSS\<rparr>))
      else if dir = ''.rodata'' then Some (Inr (st\<lparr>as_sec := S_RODATA\<rparr>))
      else if dir = ''END'' then Some (Inr st)
      else if dir = ''ALIGN'' then Some (do_align rest st)
      else if dir = ''PUBLIC'' then Some (Inr (st\<lparr>as_public := as_public st @ [rest]\<rparr>))
      else if dir = ''EXTERN'' then Some (Inr (st\<lparr>as_extern := as_extern st @ map trim (strtok_commas rest)\<rparr>))
      else if starts (upper7 dir) ''DS.'' then Some (Inr (st\<lparr>as_bss := as_bss st + ucast (parse_num (trim rest))\<rparr>))
      else if starts (upper7 dir) ''DC.'' then Some (do_data_dir dir rest st)
      else None)"

definition labelled_data :: "string \<Rightarrow> string \<Rightarrow> string \<Rightarrow> asm_state \<Rightarrow> asm_error + asm_state" where
  "labelled_data s name rest st =
     (let dir = first_word rest; val = after_word rest
      in if starts (upper7 dir) ''DS.'' then
           (let st' = sym_define name S_BSS (as_bss st) st in Inr (st'\<lparr>as_bss := as_bss st' + ucast (parse_num val)\<rparr>))
         else if starts (upper7 dir) ''DC.'' then bind_res (define_here name st) (do_data_dir dir val)
         else asm_err ''emit_elf: cannot parse line: '' s)"

definition assemble_line :: "string \<Rightarrow> asm_state \<Rightarrow> asm_error + asm_state" where
  "assemble_line line st =
     (let s = trim line
      in if take 2 s = '';@'' then Inr (handle_debug_dir (drop 2 s) st)
         else if s = [] \<or> cur_char s = CHR ''*'' \<or> cur_char s = CHR '';'' then Inr st
         else if last s = CHR '':'' then
           (if as_sec st = S_BSS then Inr (sym_define (butlast s) S_BSS (as_bss st) st) else define_here (butlast s) st)
         else
           (let w = first_word s; rest = after_word s
            in case directive_line s w rest st of Some r \<Rightarrow> r
               | None \<Rightarrow>
                   if is_lower (cur_char w) \<and> CHR '':'' \<notin> set w then
                     (case split_operands 0 rest of (a, b) \<Rightarrow> encode_insn w (Some (trim a)) (map_option trim b) st)
                   else labelled_data s w rest st))"

section \<open>The file\<close>

fun split_lines :: "string \<Rightarrow> string \<Rightarrow> string list" where
  "split_lines acc [] = [rev acc]"
| "split_lines acc (c # s) = (if c = CHR 0x0A then rev acc # split_lines [] s else split_lines (c # acc) s)"

text \<open>Carriage returns are dropped, \<open>^Z\<close> ends the text, and a line ends at its first NUL.\<close>

definition asm_lines :: "string \<Rightarrow> string list" where
  "asm_lines s =
     map (takeWhile (\<lambda>c. c \<noteq> CHR 0x00))
       (filter (\<lambda>l. l \<noteq> []) (split_lines [] (filter (\<lambda>c. c \<noteq> CHR 0x0D) (takeWhile (\<lambda>c. c \<noteq> CHR 0x1A) s))))"

fun assemble_lines :: "string list \<Rightarrow> asm_state \<Rightarrow> asm_error + asm_state" where
  "assemble_lines [] st = Inr st"
| "assemble_lines (l # ls) st = bind_res (assemble_line l st) (assemble_lines ls)"

definition put16_at :: "bytes \<Rightarrow> nat \<Rightarrow> u32 \<Rightarrow> bytes" where
  "put16_at b off v = b[off := ucast (drop_bit 8 v AND 0xFF), Suc off := ucast (v AND 0xFF)]"

fun resolve_loop :: "asm_fix list \<Rightarrow> asm_state \<Rightarrow> asm_error + asm_state" where
  "resolve_loop [] st = Inr st"
| "resolve_loop (f # fs) st =
     (case sym_find st (fx_label f) of
        None \<Rightarrow> asm_err ''emit_elf: branch to undefined local label '' (fx_label f)
      | Some t \<Rightarrow>
          if sy_shndx t \<noteq> S_TEXT then asm_err ''emit_elf: branch to undefined local label '' (fx_label f)
          else resolve_loop fs (st\<lparr>as_text := put16_at (as_text st) (unat (fx_off f)) (sy_value t - fx_off f)\<rparr>))"

definition resolve_fixups :: "asm_state \<Rightarrow> asm_error + asm_state" where
  "resolve_fixups st = resolve_loop (as_fixes st) st"

end
