(* ===== verification/Asm_Decode.thy ===== *)
theory Asm_Decode
  imports Asm_Line M68k
begin

text \<open>
  The specification of the encoder: the MC68000 instructions that the compiler prints, their assembler text, and a
  decoder of machine words written from the opcode map of the MC68000 Programmer's Reference Manual. An
  instruction word is read as five octal fields, as the manual draws it. Addresses and branch
  displacements are symbolic: the decoder consumes the relocations and fixups that the assembler
  recorded, in the order of their places.
\<close>

section \<open>Instructions\<close>

datatype (plugins only: code size) oper = ODn nat | OAn nat | OInd nat | OPost nat | OPre nat | ODisp int nat | OIdx nat nat | OAbs string int | OImm int

datatype (plugins only: code size) arith = Ar_or | Ar_and | Ar_sub | Ar_add | Ar_eor | Ar_cmp

datatype (plugins only: code size) unary = Un_negx | Un_clr | Un_neg | Un_not | Un_tst

datatype (plugins only: code size) hw =
  HMove width oper oper
| HMoveq int nat
| HLea oper nat
| HArith arith width oper nat
| HArithI arith width int oper
| HEor width nat oper
| HAdda bool width oper nat
| HQuick bool width nat oper
| HAddx bool width nat nat
| HExt width nat
| HUnary unary width oper
| HShiftI shift width nat nat
| HShiftR shift width nat nat
| HJsr oper
| HJmp oper
| HLink nat int
| HUnlk nat
| HRts
| HNop
| HBcc nat string
| HDbra nat string
| HScc nat oper

section \<open>Assembler text\<close>

definition areg_text :: "nat \<Rightarrow> string" where "areg_text r = (if r = 7 then ''sp'' else CHR ''a'' # show_nat r)"

definition show_sgn :: "int \<Rightarrow> string" where "show_sgn k = (if k < 0 then show_int k else CHR ''+'' # show_int k)"

fun oper_text :: "oper \<Rightarrow> string" where
  "oper_text (ODn r) = CHR ''d'' # show_nat r"
| "oper_text (OAn r) = areg_text r"
| "oper_text (OInd r) = ''('' @ areg_text r @ '')''"
| "oper_text (OPost r) = ''('' @ areg_text r @ '')+''"
| "oper_text (OPre r) = ''-('' @ areg_text r @ '')''"
| "oper_text (ODisp d r) = show_int d @ ''('' @ areg_text r @ '')''"
| "oper_text (OIdx r i) = ''('' @ areg_text r @ '','' @ reg_text i @ ''.l)''"
| "oper_text (OAbs n k) = (if k = 0 then n else n @ show_sgn k)"
| "oper_text (OImm v) = CHR ''#'' # show_int v"

fun arith_text :: "arith \<Rightarrow> string" where
  "arith_text Ar_or = ''or''" | "arith_text Ar_and = ''and''" | "arith_text Ar_sub = ''sub''"
| "arith_text Ar_add = ''add''" | "arith_text Ar_eor = ''eor''" | "arith_text Ar_cmp = ''cmp''"

fun unary_text :: "unary \<Rightarrow> string" where
  "unary_text Un_negx = ''negx''" | "unary_text Un_clr = ''clr''" | "unary_text Un_neg = ''neg''"
| "unary_text Un_not = ''not''" | "unary_text Un_tst = ''tst''"

fun shift_base :: "shift \<Rightarrow> string" where
  "shift_base Sh_asl = ''asl''" | "shift_base Sh_lsr = ''lsr''" | "shift_base Sh_asr = ''asr''"

definition sized :: "string \<Rightarrow> width \<Rightarrow> string" where "sized m w = m @ ''.'' @ width_text w"

definition cond_text :: "nat \<Rightarrow> string" where
  "cond_text c = [''ra'', ''f'', ''hi'', ''ls'', ''cc'', ''cs'', ''ne'', ''eq'', ''vc'', ''vs'', ''pl'', ''mi'', ''ge'', ''lt'', ''gt'', ''le''] ! c"

text \<open>The mnemonic and the operands.\<close>

fun hw_parts :: "hw \<Rightarrow> string \<times> string list" where
  "hw_parts (HMove w s d) = (sized (case d of OAn _ \<Rightarrow> ''movea'' | _ \<Rightarrow> ''move'') w, [oper_text s, oper_text d])"
| "hw_parts (HMoveq n r) = (''moveq'', [CHR ''#'' # show_int n, oper_text (ODn r)])"
| "hw_parts (HLea s r) = (''lea'', [oper_text s, oper_text (OAn r)])"
| "hw_parts (HArith a w s r) = (sized (arith_text a) w, [oper_text s, oper_text (ODn r)])"
| "hw_parts (HArithI a w v d) = (sized (arith_text a) w, [CHR ''#'' # show_int v, oper_text d])"
| "hw_parts (HEor w r d) = (sized ''eor'' w, [oper_text (ODn r), oper_text d])"
| "hw_parts (HAdda sb w s r) = (sized (if sb then ''suba'' else ''adda'') w, [oper_text s, oper_text (OAn r)])"
| "hw_parts (HQuick sb w n d) = (sized (if sb then ''subq'' else ''addq'') w, [CHR ''#'' # show_int (int n), oper_text d])"
| "hw_parts (HAddx sb w s r) = (sized (if sb then ''subx'' else ''addx'') w, [oper_text (ODn s), oper_text (ODn r)])"
| "hw_parts (HExt w r) = (sized ''ext'' w, [oper_text (ODn r)])"
| "hw_parts (HUnary u w d) = (sized (unary_text u) w, [oper_text d])"
| "hw_parts (HShiftI s w n r) = (sized (shift_base s) w, [CHR ''#'' # show_int (int n), oper_text (ODn r)])"
| "hw_parts (HShiftR s w c r) = (sized (shift_base s) w, [oper_text (ODn c), oper_text (ODn r)])"
| "hw_parts (HJsr s) = (''jsr'', [oper_text s])"
| "hw_parts (HJmp s) = (''jmp'', [oper_text s])"
| "hw_parts (HLink r n) = (''link'', [oper_text (OAn r), CHR ''#'' # show_int n])"
| "hw_parts (HUnlk r) = (''unlk'', [oper_text (OAn r)])"
| "hw_parts HRts = (''rts'', [])"
| "hw_parts HNop = (''nop'', [])"
| "hw_parts (HBcc c l) = (CHR ''b'' # cond_text c, [l])"
| "hw_parts (HDbra r l) = (''dbra'', [oper_text (ODn r), l])"
| "hw_parts (HScc c d) = (CHR ''s'' # (if c = 4 then ''hs'' else cond_text c), [oper_text d])"

section \<open>Decoder\<close>

text \<open>The place, the bytes, and the relocations and fixups still to come.\<close>

record stream =
  s_pos :: nat
  s_bytes :: bytes
  s_rels :: "asm_rel list"
  s_fixes :: "asm_fix list"

definition next_word :: "stream \<Rightarrow> (nat \<times> stream) option" where
  "next_word s = (case s_bytes s of a # b # p \<Rightarrow> Some (256 * unat a + unat b, s\<lparr>s_pos := s_pos s + 2, s_bytes := p\<rparr>) | _ \<Rightarrow> None)"

definition signed16 :: "nat \<Rightarrow> int" where "signed16 n = (if n < 32768 then int n else int n - 65536)"

definition signed8 :: "nat \<Rightarrow> int" where "signed8 n = (if n < 128 then int n else int n - 256)"

definition signed32 :: "nat \<Rightarrow> int" where "signed32 n = (if n < 2147483648 then int n else int n - 4294967296)"

definition next_long :: "stream \<Rightarrow> (nat \<times> stream) option" where
  "next_long s = Option.bind (next_word s) (\<lambda>(h, s1). Option.bind (next_word s1) (\<lambda>(l, s2). Some (65536 * h + l, s2)))"

definition next_imm :: "width \<Rightarrow> stream \<Rightarrow> (int \<times> stream) option" where
  "next_imm w s =
     (case w of SzB \<Rightarrow> Option.bind (next_word s) (\<lambda>(n, s1). if n < 256 then Some (signed8 n, s1) else None)
      | SzW \<Rightarrow> map_option (\<lambda>(n, s1). (signed16 n, s1)) (next_word s)
      | SzL \<Rightarrow> map_option (\<lambda>(n, s1). (signed32 n, s1)) (next_long s))"

text \<open>An absolute long address, which its relocation fills.\<close>

definition next_abs :: "stream \<Rightarrow> (oper \<times> stream) option" where
  "next_abs s =
     (case s_rels s of
        r # rs \<Rightarrow>
          if rl_sec r = S_TEXT \<and> unat (rl_off r) = s_pos s \<and> rl_type r = R_68K_32 then
            Option.bind (next_long s) (\<lambda>(n, s1). if n = 0 then Some (OAbs (rl_sym r) (sint (rl_add r)), s1\<lparr>s_rels := rs\<rparr>) else None)
          else None
      | [] \<Rightarrow> None)"

definition next_index :: "nat \<Rightarrow> stream \<Rightarrow> (oper \<times> stream) option" where
  "next_index r s = Option.bind (next_word s) (\<lambda>(n, s1).
     if n mod 4096 = 2048 then Some (OIdx r (n div 4096), s1) else None)"

definition decode_ea :: "width \<Rightarrow> nat \<Rightarrow> nat \<Rightarrow> stream \<Rightarrow> (oper \<times> stream) option" where
  "decode_ea w m r s =
     (if m = 0 then Some (ODn r, s) else if m = 1 then Some (OAn r, s) else if m = 2 then Some (OInd r, s)
      else if m = 3 then Some (OPost r, s) else if m = 4 then Some (OPre r, s)
      else if m = 5 then map_option (\<lambda>(n, s1). (ODisp (signed16 n) r, s1)) (next_word s)
      else if m = 6 then next_index r s
      else if r = 1 then next_abs s
      else if r = 4 then map_option (\<lambda>(v, s1). (OImm v, s1)) (next_imm w s)
      else None)"

text \<open>The size field 0, 1, 2.\<close>

definition size_of :: "nat \<Rightarrow> width option" where
  "size_of n = (if n = 0 then Some SzB else if n = 1 then Some SzW else if n = 2 then Some SzL else None)"

definition move_size :: "nat \<Rightarrow> width option" where
  "move_size n = (if n = 1 then Some SzB else if n = 3 then Some SzW else if n = 2 then Some SzL else None)"

definition next_branch :: "stream \<Rightarrow> (string \<times> stream) option" where
  "next_branch s =
     (case s_fixes s of
        f # fs \<Rightarrow> if unat (fx_off f) = s_pos s then map_option (\<lambda>(n, s1). (fx_label f, s1\<lparr>s_fixes := fs\<rparr>)) (next_word s) else None
      | [] \<Rightarrow> None)"

definition ea_then :: "width \<Rightarrow> nat \<Rightarrow> nat \<Rightarrow> stream \<Rightarrow> (oper \<Rightarrow> hw) \<Rightarrow> (hw \<times> stream) option" where
  "ea_then w m r s f = map_option (\<lambda>(d, s1). (f d, s1)) (decode_ea w m r s)"

text \<open>The lines of the opcode map.\<close>

definition line_move :: "width \<Rightarrow> nat \<Rightarrow> nat \<Rightarrow> nat \<Rightarrow> nat \<Rightarrow> stream \<Rightarrow> (hw \<times> stream) option" where
  "line_move w r m a b s = Option.bind (decode_ea w a b s) (\<lambda>(x, s1). ea_then w m r s1 (HMove w x))"

definition line_0 :: "nat \<Rightarrow> nat \<Rightarrow> nat \<Rightarrow> nat \<Rightarrow> stream \<Rightarrow> (hw \<times> stream) option" where
  "line_0 r m a b s =
     Option.bind (map_of [(0, Ar_or), (1, Ar_and), (2, Ar_sub), (3, Ar_add), (5, Ar_eor), (6, Ar_cmp)] r) (\<lambda>op.
     Option.bind (size_of m) (\<lambda>w. Option.bind (next_imm w s) (\<lambda>(v, s1). ea_then w a b s1 (HArithI op w v))))"

definition line_4 :: "nat \<Rightarrow> nat \<Rightarrow> nat \<Rightarrow> nat \<Rightarrow> stream \<Rightarrow> (hw \<times> stream) option" where
  "line_4 r m a b s =
     (if m = 7 then ea_then SzL a b s (\<lambda>x. HLea x r)
      else if r = 4 \<and> m = 2 \<and> a = 0 then Some (HExt SzW b, s)
      else if r = 4 \<and> m = 3 \<and> a = 0 then Some (HExt SzL b, s)
      else if r = 7 \<and> m = 2 then ea_then SzL a b s HJsr
      else if r = 7 \<and> m = 3 then ea_then SzL a b s HJmp
      else if r = 7 \<and> m = 1 \<and> a = 2 then map_option (\<lambda>(n, s1). (HLink b (signed16 n), s1)) (next_word s)
      else if r = 7 \<and> m = 1 \<and> a = 3 then Some (HUnlk b, s)
      else if r = 7 \<and> m = 1 \<and> a = 6 \<and> b = 5 then Some (HRts, s)
      else if r = 7 \<and> m = 1 \<and> a = 6 \<and> b = 1 then Some (HNop, s)
      else Option.bind (map_of [(0, Un_negx), (1, Un_clr), (2, Un_neg), (3, Un_not), (5, Un_tst)] r) (\<lambda>u.
           Option.bind (size_of m) (\<lambda>w. ea_then w a b s (HUnary u w))))"

definition line_5 :: "nat \<Rightarrow> nat \<Rightarrow> nat \<Rightarrow> nat \<Rightarrow> stream \<Rightarrow> (hw \<times> stream) option" where
  "line_5 r m a b s =
     (if m mod 4 = 3 then
        (if a = 1 then (if r = 0 \<and> m = 7 then map_option (\<lambda>(l, s1). (HDbra b l, s1)) (next_branch s) else None)
         else ea_then SzB a b s (HScc (2 * r + m div 4)))
      else Option.bind (size_of (m mod 4)) (\<lambda>w. ea_then w a b s (HQuick (4 \<le> m) w (if r = 0 then 8 else r))))"

definition line_6 :: "nat \<Rightarrow> nat \<Rightarrow> nat \<Rightarrow> nat \<Rightarrow> stream \<Rightarrow> (hw \<times> stream) option" where
  "line_6 r m a b s =
     (if m mod 4 = 0 \<and> a = 0 \<and> b = 0 then map_option (\<lambda>(l, s1). (HBcc (2 * r + m div 4) l, s1)) (next_branch s) else None)"

definition line_arith :: "arith \<Rightarrow> nat \<Rightarrow> nat \<Rightarrow> nat \<Rightarrow> nat \<Rightarrow> stream \<Rightarrow> (hw \<times> stream) option" where
  "line_arith op r m a b s =
     (if m < 3 then Option.bind (size_of m) (\<lambda>w. ea_then w a b s (\<lambda>x. HArith op w x r))
      else if op = Ar_cmp \<and> 4 \<le> m \<and> m < 7 then Option.bind (size_of (m - 4)) (\<lambda>w. ea_then w a b s (HEor w r))
      else if (op = Ar_sub \<or> op = Ar_add) \<and> (m = 3 \<or> m = 7) then
        (let w = (if m = 7 then SzL else SzW) in ea_then w a b s (\<lambda>x. HAdda (op = Ar_sub) w x r))
      else if (op = Ar_sub \<or> op = Ar_add) \<and> a = 0 then
        map_option (\<lambda>w. (HAddx (op = Ar_sub) w b r, s)) (size_of (m - 4))
      else None)"

definition line_E :: "nat \<Rightarrow> nat \<Rightarrow> nat \<Rightarrow> nat \<Rightarrow> stream \<Rightarrow> (hw \<times> stream) option" where
  "line_E r m a b s =
     Option.bind (map_of [((0, 0), Sh_asr), ((1, 0), Sh_asl), ((0, 1), Sh_lsr)] (m div 4, a mod 4)) (\<lambda>sh.
     Option.bind (size_of (m mod 4)) (\<lambda>w.
       Some (if 4 \<le> a then HShiftR sh w r b else HShiftI sh w (if r = 0 then 8 else r) b, s)))"

definition decode_fields :: "nat \<Rightarrow> nat \<Rightarrow> nat \<Rightarrow> nat \<Rightarrow> nat \<Rightarrow> stream \<Rightarrow> (hw \<times> stream) option" where
  "decode_fields t r m a b s =
     (if t = 0 then line_0 r m a b s
      else if 1 \<le> t \<and> t \<le> 3 then Option.bind (move_size t) (\<lambda>w. line_move w r m a b s)
      else if t = 4 then line_4 r m a b s
      else if t = 5 then line_5 r m a b s
      else if t = 6 then line_6 r m a b s
      else if t = 7 \<and> m < 4 then Some (HMoveq (signed8 (m * 64 + a * 8 + b)) r, s)
      else if t = 14 then line_E r m a b s
      else Option.bind (map_of [(8, Ar_or), (9, Ar_sub), (11, Ar_cmp), (12, Ar_and), (13, Ar_add)] t) (\<lambda>op.
        line_arith op r m a b s))"

definition decode_insn :: "stream \<Rightarrow> (hw \<times> stream) option" where
  "decode_insn s = Option.bind (next_word s) (\<lambda>(n, s1).
     decode_fields (n div 4096) (n div 512 mod 8) (n div 64 mod 8) (n div 8 mod 8) (n mod 8) s1)"

end
