(* ===== verification/Asm_Roundtrip.thy ===== *)
theory Asm_Roundtrip
  imports Asm_Decode
begin

text \<open>
  What the assembler reads is what was printed: the operands, the mnemonics and the words of every
  instruction come back from the decoder.
\<close>

section \<open>Reading printed numbers\<close>

definition solid :: "string \<Rightarrow> bool" where "solid s \<longleftrightarrow> (\<forall>c \<in> set s. \<not> blank c \<and> c \<noteq> CHR 0x0D)"

lemma trim_solid: "solid s \<Longrightarrow> trim s = s"
proof -
  assume s: "solid s"
  have d: "dropWhile P t = t" if "\<forall>c \<in> set t. \<not> P c" for P and t :: string using that by (cases t) auto
  show ?thesis using s by (simp add: trim_def solid_def d)
qed

lemma digit_char_ch: "d < 10 \<Longrightarrow> ch (digit_char d) = digit_ch d"
proof -
  assume "d < 10"
  moreover have "\<forall>d \<in> set [0..<10]. ch (digit_char d) = digit_ch d" by code_simp
  ultimately show ?thesis by simp
qed

lemma bytes_of_append: "bytes_of (s @ t) = bytes_of s @ bytes_of t"
  by (simp add: bytes_of_def)

lemma bytes_show_nat: "bytes_of (show_nat n) = print_digits 10 n"
proof (induction n rule: show_nat.induct)
  case (1 n)
  have d: "bytes_of [digit_char k] = [digit_ch k]" if "k < 10" for k
    using digit_char_ch [OF that] by (simp add: bytes_of_def ch_def of_nat_of_char)
  show ?case using 1 by (simp add: show_nat.simps [of n] print_digits.simps [of 10 n] bytes_of_append d)
qed

lemma digit_char_props:
  "d < 10 \<Longrightarrow> is_digit (digit_char d)"
proof -
  assume "d < 10"
  moreover have "\<forall>d \<in> set [0..<10]. is_digit (digit_char d)" by code_simp
  ultimately show ?thesis by simp
qed

lemma show_nat_chars: "c \<in> set (show_nat n) \<Longrightarrow> is_digit c"
proof (induction n rule: show_nat.induct)
  case (1 n)
  then show ?case by (auto simp: show_nat.simps [of n] digit_char_props split: if_splits)
qed

lemma show_nat_nonempty: "show_nat n \<noteq> []"
  by (subst show_nat.simps) simp

lemma strtoull_show_nat: "n < 2 ^ 64 \<Longrightarrow> strtoull_text (show_nat n) 10 = of_nat n"
proof -
  assume n: "n < 2 ^ 64"
  obtain c t where c: "show_nat n = c # t" using show_nat_nonempty by (cases "show_nat n") auto
  have "is_digit c" using show_nat_chars [of c n] c by simp
  then have k: "\<not> is_space_ch (ch c)" "c \<noteq> CHR ''-''" "c \<noteq> CHR ''+''"
    by (auto simp: is_digit_def is_space_ch_def ch_def)
  obtain d w where p: "print_digits 10 n = digit_ch d # w" "d < 10" using print_first [of 10 n] by auto
  have "strtoull (bytes_of (show_nat n)) 10 = (of_nat n, [])"
    using n p digits_print [of 10 n "[]"] by (simp add: strtoull_def bytes_show_nat digit_val_digit)
  then show ?thesis using c k by (simp add: strtoull_text_def cur_char_def)
qed

lemma parse_show_nat: "n < 2 ^ 64 \<Longrightarrow> parse_num (show_nat n) = of_nat n"
proof -
  assume n: "n < 2 ^ 64"
  obtain c t where c: "show_nat n = c # t" using show_nat_nonempty by (cases "show_nat n") auto
  have "is_digit c" using show_nat_chars [of c n] c by simp
  then have "c \<noteq> CHR ''-''" "c \<noteq> CHR ''+''" "c \<noteq> CHR ''$''" by (auto simp: is_digit_def)
  then show ?thesis using strtoull_show_nat [OF n] c by (simp add: parse_num_def cur_char_def Let_def)
qed

lemma parse_show_neg: "n < 2 ^ 64 \<Longrightarrow> parse_num (CHR ''-'' # show_nat n) = - of_nat n"
proof -
  assume n: "n < 2 ^ 64"
  obtain c t where c: "show_nat n = c # t" using show_nat_nonempty by (cases "show_nat n") auto
  have "is_digit c" using show_nat_chars [of c n] c by simp
  then have "c \<noteq> CHR ''$''" by (auto simp: is_digit_def)
  then show ?thesis using strtoull_show_nat [OF n] c by (simp add: parse_num_def cur_char_def Let_def)
qed

lemma parse_show_int: "\<bar>k\<bar> < 2 ^ 63 \<Longrightarrow> parse_num (show_int k) = of_int k"
proof -
  assume k: "\<bar>k\<bar> < 2 ^ 63"
  then have n: "nat k < 2 ^ 64" "nat (- k) < 2 ^ 64" by auto
  show ?thesis
  proof (cases "k < 0")
    case True
    then have "- (of_nat (nat (- k)) :: u64) = of_int k" by simp
    then show ?thesis using True parse_show_neg [OF n(2)] by (simp add: show_int_def)
  next
    case False
    then have "(of_nat (nat k) :: u64) = of_int k" by simp
    then show ?thesis using False parse_show_nat [OF n(1)] by (simp add: show_int_def)
  qed
qed

lemma parse_show_sgn: "\<bar>k\<bar> < 2 ^ 63 \<Longrightarrow> parse_num (show_sgn k) = of_int k"
proof (cases "k < 0")
  case False
  assume k: "\<bar>k\<bar> < 2 ^ 63"
  then have n: "nat k < 2 ^ 64" by auto
  obtain c t where c: "show_nat (nat k) = c # t" using show_nat_nonempty by (cases "show_nat (nat k)") auto
  have "is_digit c" using show_nat_chars [of c "nat k"] c by simp
  then have "c \<noteq> CHR ''$''" by (auto simp: is_digit_def)
  moreover have "(of_nat (nat k) :: u64) = of_int k" using False by simp
  ultimately show ?thesis using False strtoull_show_nat [OF n] c
    by (simp add: show_sgn_def show_int_def parse_num_def cur_char_def Let_def)
qed (simp add: show_sgn_def parse_show_int)

section \<open>Operands\<close>

definition name_char :: "char \<Rightarrow> bool" where
  "name_char c \<longleftrightarrow> is_alpha c \<or> is_digit c \<or> c \<in> set ''_.$#''"

definition good_name :: "string \<Rightarrow> bool" where
  "good_name n \<longleftrightarrow> n \<noteq> [] \<and> cur_char n \<in> set ''_L.'' \<and> (\<forall>c \<in> set n. name_char c)"

fun w_bytes :: "width \<Rightarrow> nat" where "w_bytes SzB = 1" | "w_bytes SzW = 2" | "w_bytes SzL = 4"

fun imm_ok :: "width \<Rightarrow> int \<Rightarrow> bool" where
  "imm_ok SzB v \<longleftrightarrow> - 128 \<le> v \<and> v < 128"
| "imm_ok SzW v \<longleftrightarrow> - 32768 \<le> v \<and> v < 32768"
| "imm_ok SzL v \<longleftrightarrow> - 2147483648 \<le> v \<and> v < 2147483648"

fun oper_ok :: "width \<Rightarrow> oper \<Rightarrow> bool" where
  "oper_ok w (ODn r) \<longleftrightarrow> r < 8"
| "oper_ok w (OAn r) \<longleftrightarrow> r < 8"
| "oper_ok w (OInd r) \<longleftrightarrow> r < 8"
| "oper_ok w (OPost r) \<longleftrightarrow> r < 8"
| "oper_ok w (OPre r) \<longleftrightarrow> r < 8"
| "oper_ok w (ODisp d r) \<longleftrightarrow> imm_ok SzW d \<and> r < 8"
| "oper_ok w (OIdx r i) \<longleftrightarrow> r < 8 \<and> i < 16"
| "oper_ok w (OAbs n k) \<longleftrightarrow> good_name n \<and> imm_ok SzL k"
| "oper_ok w (OImm v) \<longleftrightarrow> imm_ok w v"

fun mode_of :: "oper \<Rightarrow> nat" where
  "mode_of (ODn r) = 0" | "mode_of (OAn r) = 1" | "mode_of (OInd r) = 2" | "mode_of (OPost r) = 3" | "mode_of (OPre r) = 4"
| "mode_of (ODisp d r) = 5" | "mode_of (OIdx r i) = 6" | "mode_of (OAbs n k) = 7" | "mode_of (OImm v) = 7"

fun regf_of :: "oper \<Rightarrow> nat" where
  "regf_of (ODn r) = r" | "regf_of (OAn r) = r" | "regf_of (OInd r) = r" | "regf_of (OPost r) = r" | "regf_of (OPre r) = r"
| "regf_of (ODisp d r) = r" | "regf_of (OIdx r i) = r" | "regf_of (OAbs n k) = 1" | "regf_of (OImm v) = 4"

fun words_of :: "width \<Rightarrow> oper \<Rightarrow> u32 list" where
  "words_of w (ODisp d r) = [of_int d AND 0xFFFF]"
| "words_of w (OIdx r i) = [of_nat (4096 * i + 2048)]"
| "words_of w (OAbs n k) = [0, 0]"
| "words_of w (OImm v) =
     (case w of SzL \<Rightarrow> [drop_bit 16 (of_int v) AND 0xFFFF, of_int v AND 0xFFFF] | SzW \<Rightarrow> [of_int v AND 0xFFFF] | SzB \<Rightarrow> [of_int v AND 0xFF])"
| "words_of w _ = []"

definition ea_of :: "width \<Rightarrow> oper \<Rightarrow> ea" where
  "ea_of w x = \<lparr>ea_mode = of_nat (mode_of x), ea_reg = of_nat (regf_of x), ea_words = words_of w x,
     ea_reloc = (case x of OAbs _ _ \<Rightarrow> True | _ \<Rightarrow> False), ea_sym = (case x of OAbs n _ \<Rightarrow> n | _ \<Rightarrow> []),
     ea_add = (case x of OAbs _ k \<Rightarrow> of_int k | _ \<Rightarrow> 0), ea_is_imm = (case x of OImm _ \<Rightarrow> True | _ \<Rightarrow> False),
     ea_imm = (case x of OImm v \<Rightarrow> of_int v | _ \<Rightarrow> 0)\<rparr>"

lemma upto8: "r < 8 \<Longrightarrow> (\<forall>r \<in> set [0..<8]. P r) \<Longrightarrow> P r"
  by simp

lemma solid_simps [simp]:
  "solid []" "solid (c # s) \<longleftrightarrow> \<not> blank c \<and> c \<noteq> CHR 0x0D \<and> solid s" "solid (s @ t) \<longleftrightarrow> solid s \<and> solid t"
  by (auto simp: solid_def)

definition plain_char :: "char \<Rightarrow> bool" where "plain_char c \<longleftrightarrow> c \<notin> set ''(),#+-'' \<and> \<not> blank c \<and> c \<noteq> CHR 0x0D \<and> c \<noteq> CHR ''.''"

lemma areg_props:
  "r < 8 \<Longrightarrow> reg_num (areg_text r) = Inr (of_nat r) \<and> list_all plain_char (areg_text r) \<and> cur_char (areg_text r) \<in> set ''as''"
  by (erule upto8, code_simp)

lemma index_props:
  assumes "i < 16"
  shows "list_all plain_char (reg_text i) \<and> reg_text i \<noteq> [] \<and>
    push_bit 15 (if cur_char (reg_text i) = CHR ''a'' then 1 else 0) OR push_bit 12 (digit_at (reg_text i) 1) OR push_bit 11 1 =
    (4096 * of_nat i + 2048 :: u32) \<and> (length (reg_text i) = 2)"
proof -
  have "\<forall>i \<in> set [0..<16]. list_all plain_char (reg_text i) \<and> reg_text i \<noteq> [] \<and>
    push_bit 15 (if cur_char (reg_text i) = CHR ''a'' then 1 else 0) OR push_bit 12 (digit_at (reg_text i) 1) OR push_bit 11 1 =
    (4096 * of_nat i + 2048 :: u32) \<and> (length (reg_text i) = 2)" by code_simp
  then show ?thesis using assms by simp
qed

lemma plain_solid: "list_all plain_char s \<Longrightarrow> solid s"
  by (auto simp: list_all_iff solid_def plain_char_def)

lemma show_int_chars: "c \<in> set (show_int k) \<Longrightarrow> is_digit c \<or> c = CHR ''-''"
  by (auto simp: show_int_def dest: show_nat_chars split: if_splits)

lemma digit_not: "is_digit c \<Longrightarrow> c \<notin> set ''(),#+-. '' \<and> \<not> blank c \<and> c \<noteq> CHR 0x0D"
  by (auto simp: is_digit_def blank_def)

lemma solid_show_int [simp]: "solid (show_int k)"
  by (auto simp: solid_def dest!: show_int_chars digit_not) (auto simp: blank_def)

lemma until_append: "c \<notin> set a \<Longrightarrow> until_char c (a @ c # b) = a"
  by (auto simp: until_char_def takeWhile_append)

lemma from_append: "c \<notin> set a \<Longrightarrow> from_char c (a @ c # b) = c # b"
  by (auto simp: from_char_def dropWhile_append)


lemma parse_reg_oper:
  assumes "r < 8"
  shows "parse_ea (Some (CHR ''d'' # show_nat r)) k = Inr (ea_zero\<lparr>ea_mode := 0, ea_reg := of_nat r\<rparr>)"
    "parse_ea (Some (areg_text r)) k = Inr (ea_zero\<lparr>ea_mode := 1, ea_reg := of_nat r\<rparr>)"
proof -
  have "\<forall>r \<in> set [0..<8]. (let s = CHR ''d'' # show_nat r in trim s = s \<and> length s = 2 \<and> is_digit (s ! 1) \<and> digit_at s 1 = of_nat r)"
    by code_simp
  then have d: "let s = CHR ''d'' # show_nat r in trim s = s \<and> length s = 2 \<and> is_digit (s ! 1) \<and> digit_at s 1 = of_nat r"
    using assms by simp
  then show "parse_ea (Some (CHR ''d'' # show_nat r)) k = Inr (ea_zero\<lparr>ea_mode := 0, ea_reg := of_nat r\<rparr>)"
    by (simp add: parse_ea_def Let_def cur_char_def)
  have "\<forall>r \<in> set [0..<8]. (let s = areg_text r in trim s = s \<and> CHR ''('' \<notin> set s \<and> (if r = 7 then s = ''sp'' else cur_char s = CHR ''a'' \<and> length s = 2 \<and> is_digit (s ! 1) \<and> digit_at s 1 = of_nat r))"
    by code_simp
  then have a: "let s = areg_text r in trim s = s \<and> CHR ''('' \<notin> set s \<and> (if r = 7 then s = ''sp'' else cur_char s = CHR ''a'' \<and> length s = 2 \<and> is_digit (s ! 1) \<and> digit_at s 1 = of_nat r)"
    using assms by simp
  show "parse_ea (Some (areg_text r)) k = Inr (ea_zero\<lparr>ea_mode := 1, ea_reg := of_nat r\<rparr>)"
  proof (cases "r = 7")
    case True
    have "trim ''sp'' = ''sp''" by code_simp
    with True have t: "trim ''sp'' = ''sp''" "areg_text r = ''sp''" using a by (simp_all add: Let_def)
    show ?thesis unfolding t(2) using True by (simp add: parse_ea_def Let_def t(1) cur_char_def is_digit_def)
  next
    case False
    then have t: "trim (areg_text r) = areg_text r" "cur_char (areg_text r) = CHR ''a''" "length (areg_text r) = 2" "is_digit (areg_text r ! 1)"
      "digit_at (areg_text r) 1 = of_nat r" using a by (simp_all add: Let_def)
    have "take 2 (areg_text r) \<noteq> ''-(''" using t(2) by (cases "areg_text r") (auto simp: cur_char_def)
    then show ?thesis using t by (simp add: parse_ea_def Let_def)
  qed
qed

lemma plain_not: "list_all plain_char s \<Longrightarrow> CHR '')'' \<notin> set s \<and> CHR '','' \<notin> set s \<and> CHR ''('' \<notin> set s \<and> CHR ''.'' \<notin> set s"
  by (auto simp: list_all_iff plain_char_def)

lemma parse_indirect_reg:
  assumes "r < 8"
  shows "parse_ea (Some (''('' @ areg_text r @ '')'')) k = Inr (ea_zero\<lparr>ea_mode := 2, ea_reg := of_nat r\<rparr>)"
    "parse_ea (Some (''('' @ areg_text r @ '')+'')) k = Inr (ea_zero\<lparr>ea_mode := 3, ea_reg := of_nat r\<rparr>)"
    "parse_ea (Some (''-('' @ areg_text r @ '')'')) k = Inr (ea_zero\<lparr>ea_mode := 4, ea_reg := of_nat r\<rparr>)"
proof -
  note a = areg_props [OF assms]
  note n = plain_not [OF conjunct1 [OF conjunct2 [OF a]]]
  have t: "trim (''('' @ areg_text r @ '')'') = ''('' @ areg_text r @ '')''" "trim (''('' @ areg_text r @ '')+'') = ''('' @ areg_text r @ '')+''"
    "trim (''-('' @ areg_text r @ '')'') = ''-('' @ areg_text r @ '')''"
    using a plain_solid by (auto intro!: trim_solid simp: blank_def)
  show "parse_ea (Some (''('' @ areg_text r @ '')'')) k = Inr (ea_zero\<lparr>ea_mode := 2, ea_reg := of_nat r\<rparr>)"
    "parse_ea (Some (''('' @ areg_text r @ '')+'')) k = Inr (ea_zero\<lparr>ea_mode := 3, ea_reg := of_nat r\<rparr>)"
    using a n t until_append [of "CHR '')''" "areg_text r"] from_append [of "CHR '')''" "areg_text r"]
    by (auto simp: parse_ea_def parse_indirect_def Let_def cur_char_def ea_zero_def)
  show "parse_ea (Some (''-('' @ areg_text r @ '')'')) k = Inr (ea_zero\<lparr>ea_mode := 4, ea_reg := of_nat r\<rparr>)"
    using a n t until_append [of "CHR '')''" "areg_text r" "[]"] by (auto simp: parse_ea_def Let_def cur_char_def)
qed

lemma parse_index:
  assumes "r < 8" "i < 16"
  shows "parse_ea (Some (''('' @ areg_text r @ '','' @ reg_text i @ ''.l)'')) k =
    Inr (ea_zero\<lparr>ea_mode := 6, ea_reg := of_nat r, ea_words := [of_nat (4096 * i + 2048)]\<rparr>)"
proof -
  note a = areg_props [OF assms(1)] and x = index_props [OF assms(2)]
  note n = plain_not [OF conjunct1 [OF conjunct2 [OF a]]] and m = plain_not [OF conjunct1 [OF x]]
  have sr: "solid (areg_text r)" "solid (reg_text i)" using a x plain_solid by blast+
  have t: "trim (''('' @ areg_text r @ '','' @ reg_text i @ ''.l)'') = ''('' @ areg_text r @ '','' @ reg_text i @ ''.l)''"
    "trim (reg_text i @ ''.l'') = reg_text i @ ''.l''"
    using sr by (auto intro!: trim_solid simp: blank_def)
  have u: "until_char (CHR '')'') (areg_text r @ '','' @ reg_text i @ ''.l)'') = areg_text r @ '','' @ reg_text i @ ''.l''"
    using until_append [of "CHR '')''" "areg_text r @ '','' @ reg_text i @ ''.l''" "[]"] n m by simp
  have v: "until_char (CHR '','') (areg_text r @ '','' @ reg_text i @ ''.l'') = areg_text r"
    "from_char (CHR '','') (areg_text r @ '','' @ reg_text i @ ''.l'') = '','' @ reg_text i @ ''.l''"
    using until_append [of "CHR '',''" "areg_text r"] from_append [of "CHR '',''" "areg_text r"] n by auto
  have w: "from_char (CHR ''.'') (reg_text i @ ''.l'') = ''.l''" using from_append [of "CHR ''.''" "reg_text i" "''l''"] m by simp
  have c: "cur_char (reg_text i @ ''.l'') = cur_char (reg_text i)" "digit_at (reg_text i @ ''.l'') 1 = digit_at (reg_text i) 1"
    using x by (auto simp: cur_char_def digit_at_def nth_append split: list.splits)
  have "parse_indirect (areg_text r @ '','' @ reg_text i @ ''.l)'') =
      Inr (ea_zero\<lparr>ea_mode := 6, ea_reg := of_nat r, ea_words := [of_nat (4096 * i + 2048)]\<rparr>)"
    unfolding parse_indirect_def Let_def u using a v t(2) w c x by (simp add: cur_char_def [of "''l''"] cur_char_def [of "CHR ''l'' # s" for s])
  then show ?thesis using t(1) by (simp add: parse_ea_def Let_def cur_char_def)
qed

lemma ucast_int: "ucast (of_int d :: u64) = (of_int d :: u32)"
  by (rule bit_word_eqI) (simp add: bit_simps)

lemma show_int_first: "show_int k \<noteq> [] \<and> (is_digit (cur_char (show_int k)) \<or> cur_char (show_int k) = CHR ''-'' \<and> show_int k \<noteq> ''-'' \<and> is_digit (show_int k ! 1))"
proof -
  obtain c t where c: "show_nat (nat \<bar>k\<bar>) = c # t" using show_nat_nonempty by (cases "show_nat (nat \<bar>k\<bar>)") auto
  have "is_digit c" using show_nat_chars [of c "nat \<bar>k\<bar>"] c by simp
  then show ?thesis using c by (auto simp: show_int_def cur_char_def)
qed

lemma show_int_no: "c \<in> set ''(),#+. '' \<Longrightarrow> c \<notin> set (show_int k)"
  by (auto dest!: show_int_chars simp: is_digit_def)

lemma parse_disp:
  assumes "imm_ok SzW d" "r < 8"
  shows "parse_ea (Some (show_int d @ ''('' @ areg_text r @ '')'')) k =
    Inr (ea_zero\<lparr>ea_mode := 5, ea_reg := of_nat r, ea_words := [of_int d AND 0xFFFF]\<rparr>)"
proof -
  note a = areg_props [OF assms(2)]
  note n = plain_not [OF conjunct1 [OF conjunct2 [OF a]]]
  have sr: "solid (areg_text r)" using a plain_solid by blast
  let ?s = "show_int d @ ''('' @ areg_text r @ '')''"
  have t: "trim ?s = ?s" using sr by (intro trim_solid) (auto simp: blank_def)
  have u: "until_char (CHR ''('') ?s = show_int d" "from_char (CHR ''('') ?s = ''('' @ areg_text r @ '')''"
    using until_append [of "CHR ''(''" "show_int d"] from_append [of "CHR ''(''" "show_int d"] show_int_no [of "CHR ''(''" d] by auto
  have v: "until_char (CHR '')'') (areg_text r @ '')'') = areg_text r" using until_append [of "CHR '')''" "areg_text r" "[]"] n by simp
  have p: "parse_num (show_int d) = of_int d" using assms(1) by (intro parse_show_int) auto
  note f = show_int_first [of d]
  have c: "cur_char ?s = cur_char (show_int d)" using f by (cases "show_int d") (auto simp: cur_char_def)
  have c1: "cur_char ?s \<noteq> CHR ''#''" "cur_char ?s \<noteq> CHR ''(''" "cur_char ?s \<noteq> CHR ''d''" "cur_char ?s \<noteq> CHR ''a''" "?s \<noteq> ''sp''"
    unfolding c using f by (auto simp: is_digit_def)
  have c2: "take 2 ?s \<noteq> ''-(''" 
    using f by (cases "show_int d"; cases "tl (show_int d)") (auto simp: is_digit_def cur_char_def)
  have "ucast (of_int d :: u64) = (of_int d :: u32)" by (rule ucast_int)
  then show ?thesis unfolding parse_ea_def option.case Let_def t using c1 c2 a u v p by simp
qed

lemma parse_immediate:
  assumes "imm_ok w v"
  shows "parse_ea (Some (CHR ''#'' # show_int v)) (w_bytes w) = Inr (ea_of w (OImm v))"
proof -
  have t: "trim (CHR ''#'' # show_int v) = CHR ''#'' # show_int v" by (intro trim_solid) (simp add: blank_def)
  have p: "parse_num (show_int v) = of_int v" using assms by (intro parse_show_int) (cases w; auto)
  show ?thesis
    by (cases w) (simp_all add: parse_ea_def Let_def t cur_char_def parse_imm_def p ea_of_def ea_zero_def ucast_int)
qed

lemma not_name_char: "c \<in> set ''(), +-'' \<or> blank c \<or> c = CHR 0x0D \<Longrightarrow> \<not> name_char c"
  by (auto simp: blank_def name_char_def is_alpha_def is_lower_def is_digit_def)

lemma good_name_props:
  assumes "good_name n"
  shows "n \<noteq> []" "cur_char n \<in> set ''_L.''" "c \<in> set ''(), +-'' \<Longrightarrow> c \<notin> set n" "solid n"
  using assms not_name_char by (auto simp: good_name_def solid_def simp del: set_simps insert_iff)

lemma solid_show_nat [simp]: "solid (show_nat n)"
  using solid_show_int [of "int n"] by (simp add: show_int_def)

lemma parse_abs_oper:
  assumes "good_name n" "imm_ok SzL k"
  shows "parse_ea (Some (oper_text (OAbs n k))) m = Inr (ea_of SzL (OAbs n k))"
proof -
  note g = good_name_props [OF assms(1)]
  obtain c n' where n: "n = c # n'" using g(1) by (cases n) auto
  define q where "q = (if k = 0 then [] else show_sgn k)"
  have q: "oper_text (OAbs n k) = c # n' @ q" by (simp add: q_def n)
  have qs: "solid q" "CHR ''('' \<notin> set q" "q = [] \<or> cur_char q = CHR ''+'' \<or> cur_char q = CHR ''-''"
    using show_int_no [of "CHR ''(''" k] by (auto simp: q_def show_sgn_def cur_char_def blank_def show_int_def)
  have t: "trim (c # n' @ q) = c # n' @ q" using g(4) qs(1) n by (intro trim_solid) auto
  have nn: "\<forall>x \<in> set n'. x \<noteq> CHR ''+'' \<and> x \<noteq> CHR ''-''" using g(3) [of "CHR ''+''"] g(3) [of "CHR ''-''"] n by auto
  have w: "takeWhile (\<lambda>c. c \<noteq> CHR ''+'' \<and> c \<noteq> CHR ''-'') (n' @ q) = n'" "dropWhile (\<lambda>c. c \<noteq> CHR ''+'' \<and> c \<noteq> CHR ''-'') (n' @ q) = q"
    using nn qs(3) by (cases q; auto simp: takeWhile_append dropWhile_append cur_char_def)+
  have p: "q \<noteq> [] \<Longrightarrow> parse_num q = of_int k" using assms(2) by (auto simp: q_def intro!: parse_show_sgn)
  have z: "q = [] \<longleftrightarrow> k = 0" by (auto simp: q_def show_sgn_def show_int_def)
  have a: "parse_abs (c # n' @ q) = ea_of SzL (OAbs n k)"
    using w p z by (auto simp: parse_abs_def Let_def ea_of_def ea_zero_def n ucast_int)
  have d: "\<not> (length (c # n' @ q) = 2 \<and> (c = CHR ''d'' \<or> c = CHR ''a''))" "c \<noteq> CHR ''#''" "c \<noteq> CHR ''(''" "c \<noteq> CHR ''d''" "c \<noteq> CHR ''a''" "c \<noteq> CHR ''-''" "c \<noteq> CHR ''s''"
    using g(2) n by (auto simp: cur_char_def)
  have "CHR ''('' \<notin> set (c # n' @ q)" using g(3) [of "CHR ''(''"] n qs(2) by auto
  then show ?thesis unfolding q using a d t by (simp add: parse_ea_def Let_def cur_char_def)
qed

lemma parse_oper:
  assumes "oper_ok w x"
  shows "parse_ea (Some (oper_text x)) (w_bytes w) = Inr (ea_of w x)"
proof (cases x)
  case (OAbs n k)
  then have "ea_of w x = ea_of SzL x" by (simp add: ea_of_def)
  then show ?thesis using assms OAbs parse_abs_oper by simp
next
  case (OImm v)
  then show ?thesis using assms parse_immediate by simp
qed (use assms in \<open>auto simp: ea_of_def parse_reg_oper parse_indirect_reg [simplified] parse_index [simplified] parse_disp [simplified] ea_zero_def\<close>)

section \<open>What an instruction appends\<close>

text \<open>\<open>emits st c rs fs st'\<close>: the step appends code, relocations and fixups and changes nothing else but the names of symbols.\<close>

definition emits :: "asm_state \<Rightarrow> bytes \<Rightarrow> asm_rel list \<Rightarrow> asm_fix list \<Rightarrow> asm_state \<Rightarrow> bool" where
  "emits st c rs fs st' \<longleftrightarrow>
     (\<exists>ns. st' = (foldl (\<lambda>s n. sym_intern n s) st ns)\<lparr>as_text := as_text st @ c, as_rels := as_rels st @ rs, as_fixes := as_fixes st @ fs\<rparr>)"

lemma intern_indep [simp]:
  "as_text (sym_intern n st) = as_text st" "as_rels (sym_intern n st) = as_rels st" "as_fixes (sym_intern n st) = as_fixes st"
  "as_sec (sym_intern n st) = as_sec st"
  by (auto simp: sym_intern_def split: option.splits)

lemma intern_updates:
  "sym_intern n (st\<lparr>as_text := t\<rparr>) = (sym_intern n st)\<lparr>as_text := t\<rparr>"
  "sym_intern n (st\<lparr>as_rels := r\<rparr>) = (sym_intern n st)\<lparr>as_rels := r\<rparr>"
  "sym_intern n (st\<lparr>as_fixes := f\<rparr>) = (sym_intern n st)\<lparr>as_fixes := f\<rparr>"
  by (auto simp: sym_intern_def sym_find_def split: option.splits)

lemma interns_updates:
  "foldl (\<lambda>s n. sym_intern n s) (st\<lparr>as_text := t\<rparr>) ns = (foldl (\<lambda>s n. sym_intern n s) st ns)\<lparr>as_text := t\<rparr>"
  "foldl (\<lambda>s n. sym_intern n s) (st\<lparr>as_rels := r\<rparr>) ns = (foldl (\<lambda>s n. sym_intern n s) st ns)\<lparr>as_rels := r\<rparr>"
  "foldl (\<lambda>s n. sym_intern n s) (st\<lparr>as_fixes := f\<rparr>) ns = (foldl (\<lambda>s n. sym_intern n s) st ns)\<lparr>as_fixes := f\<rparr>"
  by (induction ns arbitrary: st) (simp_all add: intern_updates)

lemma interns_indep [simp]:
  "as_text (foldl (\<lambda>s n. sym_intern n s) st ns) = as_text st" "as_rels (foldl (\<lambda>s n. sym_intern n s) st ns) = as_rels st"
  "as_fixes (foldl (\<lambda>s n. sym_intern n s) st ns) = as_fixes st" "as_sec (foldl (\<lambda>s n. sym_intern n s) st ns) = as_sec st"
  by (induction ns arbitrary: st) simp_all

lemma emits_trans: "emits st c rs fs st1 \<Longrightarrow> emits st1 d ts gs st2 \<Longrightarrow> emits st (c @ d) (rs @ ts) (fs @ gs) st2"
  unfolding emits_def
proof (elim exE)
  fix ns ms
  assume a: "st1 = (foldl (\<lambda>s n. sym_intern n s) st ns)\<lparr>as_text := as_text st @ c, as_rels := as_rels st @ rs, as_fixes := as_fixes st @ fs\<rparr>"
    and b: "st2 = (foldl (\<lambda>s n. sym_intern n s) st1 ms)\<lparr>as_text := as_text st1 @ d, as_rels := as_rels st1 @ ts, as_fixes := as_fixes st1 @ gs\<rparr>"
  show "\<exists>ns. st2 = (foldl (\<lambda>s n. sym_intern n s) st ns)\<lparr>as_text := as_text st @ c @ d, as_rels := as_rels st @ rs @ ts, as_fixes := as_fixes st @ fs @ gs\<rparr>"
    by (rule exI [of _ "ns @ ms"]) (simp add: a b interns_updates)
qed

lemma emits_text: "emits st c [] [] (put_text c st)"
  unfolding emits_def put_text_def by (rule exI [of _ "[]"]) simp

lemma emits_text_length: "emits st c rs fs st' \<Longrightarrow> as_text st' = as_text st @ c"
  by (auto simp: emits_def)

text \<open>The extension words and the relocation of an operand at a place.\<close>

definition ext_code :: "width \<Rightarrow> oper \<Rightarrow> bytes" where "ext_code w x = concat (map b16 (words_of w x))"

fun ext_rels :: "nat \<Rightarrow> oper \<Rightarrow> asm_rel list" where
  "ext_rels i (OAbs n k) = [\<lparr>rl_sec = S_TEXT, rl_off = of_nat i, rl_sym = strip_extmark n, rl_type = R_68K_32, rl_add = of_int k\<rparr>]"
| "ext_rels i _ = []"

lemma emits_ext: "emits st (ext_code w x) (ext_rels (length (as_text st)) x) [] (emit_ext (ea_of w x) st)"
proof (cases x)
  case (OAbs n k)
  show ?thesis unfolding emits_def
    by (rule exI [of _ "[strip_extmark n]"])
      (simp add: OAbs emit_ext_def ea_of_def ext_code_def add_reloc_def Let_def text_len_def put_text_def)
qed (simp_all add: emit_ext_def ea_of_def ext_code_def emits_text)

section \<open>Reading the words back\<close>

lemma b16_value: "256 * unat (ucast (drop_bit 8 v) :: u8) + unat (ucast v :: u8) = unat (v :: u32) mod 65536"
proof -
  have a: "unat (ucast (drop_bit 8 v) :: u8) = unat v div 256 mod 256"
    by (simp only: unsigned_ucast_eq unat_drop_bit_eq) (simp add: take_bit_eq_mod drop_bit_eq_div)
  have b: "unat (ucast v :: u8) = unat v mod 256"
    by (simp only: unsigned_ucast_eq) (simp add: take_bit_eq_mod)
  have "unat v mod (256 * 256) = 256 * (unat v div 256 mod 256) + unat v mod 256" by (rule mod_mult2_eq)
  then show ?thesis by (simp add: a b)
qed

lemma b16_length [simp]: "length (b16 v) = 2" "length (b32 v) = 4"
  by (simp_all add: b16_def b32_def)

lemma next_word_b16 [simp]:
  "s_bytes s = b16 v @ p \<Longrightarrow> next_word s = Some (unat v mod 65536, s\<lparr>s_pos := s_pos s + 2, s_bytes := p\<rparr>)"
  by (simp add: next_word_def b16_def b16_value)

lemma low_word: "unat (of_int d AND 0xFFFF :: u32) mod 65536 = nat (d mod 65536)"
proof -
  have "(0xFFFF :: u32) = mask 16" by (simp add: mask_eq_exp_minus_1)
  then have "(of_int d AND 0xFFFF :: u32) = take_bit 16 (of_int d)" by (simp add: take_bit_eq_mask)
  then have "uint (of_int d AND 0xFFFF :: u32) = d mod 65536"
    by (simp add: unsigned_take_bit_eq unsigned_of_int) (simp add: take_bit_eq_mod mod_mod_cancel)
  then have "unat (of_int d AND 0xFFFF :: u32) = nat (d mod 65536)" by (simp add: unat_eq_nat_uint)
  then show ?thesis by (simp add: nat_mod_distrib [symmetric])
qed

lemma mod_neg: "- m \<le> d \<Longrightarrow> d < 0 \<Longrightarrow> d mod m = d + m" for d m :: int
  using mod_pos_pos_trivial [of "d + m" m] by simp

lemma signed16_mod: "- 32768 \<le> d \<Longrightarrow> d < 32768 \<Longrightarrow> signed16 (nat (d mod 65536)) = d"
  by (cases "d < 0") (auto simp: signed16_def mod_neg)

lemma signed8_mod: "- 128 \<le> d \<Longrightarrow> d < 128 \<Longrightarrow> signed8 (nat (d mod 256)) = d"
  by (cases "d < 0") (auto simp: signed8_def mod_neg)

lemma signed32_mod: "- 2147483648 \<le> d \<Longrightarrow> d < 2147483648 \<Longrightarrow> signed32 (nat (d mod 4294967296)) = d"
  by (cases "d < 0") (auto simp: signed32_def mod_neg)

lemma low_byte_unat: "unat (of_int d AND 0xFF :: u32) = nat (d mod 256)"
proof -
  have "(0xFF :: u32) = mask 8" by (simp add: mask_eq_exp_minus_1)
  then have "(of_int d AND 0xFF :: u32) = take_bit 8 (of_int d)" by (simp add: take_bit_eq_mask)
  then have "uint (of_int d AND 0xFF :: u32) = d mod 256"
    by (simp add: unsigned_take_bit_eq unsigned_of_int) (simp add: take_bit_eq_mod mod_mod_cancel)
  then show ?thesis by (simp add: unat_eq_nat_uint)
qed

lemma low_byte: "unat (of_int d AND 0xFF :: u32) mod 65536 = nat (d mod 256)"
proof -
  have "nat (d mod 256) < 65536" by (simp add: nat_less_iff less_trans [OF pos_mod_bound])
  then show ?thesis by (simp add: low_byte_unat)
qed

lemma high_word: "unat (drop_bit 16 (of_int d) AND 0xFFFF :: u32) mod 65536 = nat (d mod 4294967296) div 65536"
proof -
  have "(0xFFFF :: u32) = mask 16" by (simp add: mask_eq_exp_minus_1)
  then have "(drop_bit 16 (of_int d) AND 0xFFFF :: u32) = take_bit 16 (drop_bit 16 (of_int d))" by (simp add: take_bit_eq_mask)
  then have "uint (drop_bit 16 (of_int d) AND 0xFFFF :: u32) = take_bit 16 (drop_bit 16 (take_bit 32 d))"
    by (simp only: unsigned_take_bit_eq unsigned_drop_bit_eq unsigned_of_int) simp
  also have "\<dots> = d mod 4294967296 div 65536 mod 65536" by (simp add: take_bit_eq_mod drop_bit_eq_div)
  finally have u: "uint (drop_bit 16 (of_int d) AND 0xFFFF :: u32) = d mod 4294967296 div 65536 mod 65536" .
  have x: "0 \<le> d mod 4294967296" "d mod 4294967296 < 4294967296" by simp_all
  then have b: "0 \<le> d mod 4294967296 div 65536" "d mod 4294967296 div 65536 < 65536" by auto
  have "unat (drop_bit 16 (of_int d) AND 0xFFFF :: u32) = nat (d mod 4294967296 div 65536)"
    using u b by (simp add: unat_eq_nat_uint)
  moreover have "nat (d mod 4294967296 div 65536) < 65536" using b(2) by linarith
  ultimately have "unat (drop_bit 16 (of_int d) AND 0xFFFF :: u32) mod 65536 = nat (d mod 4294967296 div 65536)" by simp
  also have "\<dots> = nat (d mod 4294967296) div 65536" by (simp add: nat_div_distrib)
  finally show ?thesis .
qed

lemma long_value: "65536 * (nat (d mod 4294967296) div 65536) + nat (d mod 65536) = nat (d mod 4294967296)"
proof -
  have x: "0 \<le> d mod 4294967296" by simp
  have "d mod 65536 = d mod 4294967296 mod 65536" by (simp add: mod_mod_cancel)
  then have "nat (d mod 65536) = nat (d mod 4294967296) mod 65536" using x by (simp add: nat_mod_distrib)
  then show ?thesis by simp
qed

lemma next_imm_words:
  assumes "imm_ok w v" "s_bytes s = ext_code w (OImm v) @ p"
  shows "next_imm w s = Some (v, s\<lparr>s_pos := s_pos s + length (ext_code w (OImm v)), s_bytes := p\<rparr>)"
proof (cases w)
  case SzB
  have "nat (v mod 256) < 256" by (simp add: nat_less_iff)
  then show ?thesis using assms SzB by (simp add: next_imm_def ext_code_def low_byte signed8_mod)
next
  case SzW
  then show ?thesis using assms by (simp add: next_imm_def ext_code_def low_word signed16_mod)
next
  case SzL
  then show ?thesis using assms
    by (simp add: next_imm_def next_long_def ext_code_def low_word high_word long_value signed32_mod)
qed

fun clean_oper :: "oper \<Rightarrow> oper" where
  "clean_oper (OAbs n k) = OAbs (strip_extmark n) k"
| "clean_oper x = x"

lemma index_word: "i < 16 \<Longrightarrow> unat (of_nat (4096 * i + 2048) :: u32) mod 65536 = 4096 * i + 2048"
  by (subst unat_of_nat) (simp add: take_bit_eq_mod)

lemma decode_ea_words:
  assumes "oper_ok w x" "s_bytes s = ext_code w x @ p" "s_rels s = ext_rels (s_pos s) x @ rs" "s_pos s < 2 ^ 32"
  shows "decode_ea w (mode_of x) (regf_of x) s =
    Some (clean_oper x, s\<lparr>s_pos := s_pos s + length (ext_code w x), s_bytes := p, s_rels := rs\<rparr>)"
proof (cases x)
  case (ODisp d r)
  then show ?thesis using assms by (simp add: decode_ea_def ext_code_def low_word signed16_mod)
next
  case (OIdx r i)
  have "(4096 * i + 2048) div 4096 = i" "(4096 * i + 2048) mod 4096 = 2048" by simp_all
  then show ?thesis using assms OIdx index_word [of i] by (simp add: decode_ea_def ext_code_def next_index_def)
next
  case (OAbs n k)
  have "unat (of_nat (s_pos s) :: u32) = s_pos s" using assms(4) by (simp add: unat_of_nat take_bit_nat_eq_self)
  moreover have "sint (of_int k :: u32) = k" using assms(1) OAbs by (simp add: signed_of_int signed_take_bit_int_eq_self)
  ultimately show ?thesis using assms OAbs by (simp add: decode_ea_def ext_code_def next_abs_def next_long_def)
next
  case (OImm v)
  then show ?thesis using assms next_imm_words [of w v s p] by (simp add: decode_ea_def)
qed (use assms in \<open>simp_all add: decode_ea_def ext_code_def\<close>)

section \<open>Instruction words\<close>

text \<open>The fields of the code's expressions as numbers.\<close>

lemma or_field:
  assumes "unat b < 2 ^ k" "unat a * 2 ^ k < 2 ^ 32"
  shows "unat (push_bit k a OR b :: u32) = unat a * 2 ^ k + unat b"
proof -
  have b: "unat b = take_bit k (unat b)" using assms(1) by (simp add: take_bit_nat_eq_self)
  have "push_bit k (unat a) AND take_bit k (unat b) = 0" by (rule bit_eqI) (auto simp: bit_simps)
  then have "push_bit k (unat a) OR unat b = push_bit k (unat a) + unat b" using b disjunctive_add_eq_or by metis
  moreover have "unat (push_bit k a) = push_bit k (unat a)"
    using assms(2) by (simp only: unsigned_push_bit_eq) (simp add: push_bit_eq_mult take_bit_nat_eq_self)
  ultimately show ?thesis by (simp add: unsigned_or_eq push_bit_eq_mult)
qed

definition word5 :: "nat \<Rightarrow> nat \<Rightarrow> nat \<Rightarrow> nat \<Rightarrow> nat \<Rightarrow> nat" where
  "word5 t r m a b = (((t * 8 + r) * 8 + m) * 8 + a) * 8 + b"

lemma word5_fields:
  assumes "t < 16" "r < 8" "m < 8" "a < 8" "b < 8"
  shows "word5 t r m a b div 4096 = t" "word5 t r m a b div 512 mod 8 = r" "word5 t r m a b div 64 mod 8 = m"
    "word5 t r m a b div 8 mod 8 = a" "word5 t r m a b mod 8 = b" "word5 t r m a b < 65536"
proof -
  have o: "c < 8 \<Longrightarrow> (y * 8 + c) div 8 = y" "c < 8 \<Longrightarrow> (y * 8 + c) mod 8 = c" for y c :: nat by simp_all
  have d4: "word5 t r m a b div 8 = ((t * 8 + r) * 8 + m) * 8 + a" unfolding word5_def by (rule o(1) [OF assms(5)])
  have "word5 t r m a b div 64 = word5 t r m a b div 8 div 8" by (simp flip: div_mult2_eq)
  then have d3: "word5 t r m a b div 64 = (t * 8 + r) * 8 + m" unfolding d4 by (simp only: o(1) [OF assms(4)])
  have "word5 t r m a b div 512 = word5 t r m a b div 64 div 8" by (simp flip: div_mult2_eq)
  then have d2: "word5 t r m a b div 512 = t * 8 + r" unfolding d3 by (simp only: o(1) [OF assms(3)])
  have "word5 t r m a b div 4096 = word5 t r m a b div 512 div 8" by (simp flip: div_mult2_eq)
  then have d1: "word5 t r m a b div 4096 = t" unfolding d2 by (simp only: o(1) [OF assms(2)])
  have d5: "word5 t r m a b mod 8 = b" unfolding word5_def by (rule o(2) [OF assms(5)])
  show "word5 t r m a b div 4096 = t" "word5 t r m a b div 512 mod 8 = r" "word5 t r m a b div 64 mod 8 = m"
    "word5 t r m a b div 8 mod 8 = a" "word5 t r m a b mod 8 = b" "word5 t r m a b < 65536"
    using assms(1) by (simp_all only: d1 d2 d3 d4 d5 o(2) [OF assms(2)] o(2) [OF assms(3)] o(2) [OF assms(4)])
      (use assms in \<open>simp_all add: word5_def\<close>)
qed

section \<open>Encoding one instruction\<close>

definition stream_at :: "asm_state \<Rightarrow> bytes \<Rightarrow> asm_rel list \<Rightarrow> asm_fix list \<Rightarrow> stream" where
  "stream_at st p rs fs = \<lparr>s_pos = length (as_text st), s_bytes = p, s_rels = rs, s_fixes = fs\<rparr>"

text \<open>Code with other bytes at the places of fixups.\<close>

definition patched :: "nat \<Rightarrow> asm_fix list \<Rightarrow> bytes \<Rightarrow> bytes \<Rightarrow> bool" where
  "patched n fs c c' \<longleftrightarrow> length c' = length c \<and>
     (\<forall>k < length c. (\<forall>f \<in> set fs. n + k \<noteq> unat (fx_off f) \<and> n + k \<noteq> Suc (unat (fx_off f))) \<longrightarrow> c' ! k = c ! k)"

lemma patched_nil: "patched n [] c c' \<longleftrightarrow> c' = c"
  by (auto simp: patched_def intro: nth_equalityI)

text \<open>
  The step appends code that decodes to the instruction, whatever follows it and whatever the displacements of
  branches become; the fixups are inside the code.
\<close>

definition encodes :: "hw \<Rightarrow> asm_state \<Rightarrow> asm_state \<Rightarrow> bool" where
  "encodes i st st' \<longleftrightarrow>
     (\<exists>c rs fs. c \<noteq> [] \<and> emits st c rs fs st' \<and>
        (\<forall>f \<in> set fs. length (as_text st) \<le> unat (fx_off f) \<and> unat (fx_off f) + 2 \<le> length (as_text st) + length c) \<and> length fs \<le> 1 \<and>
        (\<forall>p rs' fs' c'. patched (length (as_text st)) fs c c' \<longrightarrow>
           decode_insn (stream_at st (c' @ p) (rs @ rs') (fs @ fs')) = Some (i, stream_at st' p rs' fs')))"

definition small :: "asm_state \<Rightarrow> bool" where "small st \<longleftrightarrow> length (as_text st) < 2 ^ 31"

lemma decode_insn_b16:
  assumes "unat op mod 65536 = word5 t r m a b" "t < 16" "r < 8" "m < 8" "a < 8" "b < 8"
  shows "decode_insn (stream_at st (b16 op @ p) rs fs) =
    decode_fields t r m a b \<lparr>s_pos = length (as_text st) + 2, s_bytes = p, s_rels = rs, s_fixes = fs\<rparr>"
  using assms(1) word5_fields [OF assms(2-)] by (simp add: decode_insn_def stream_at_def)

lemma mode_bounds: "mode_of x < 8" "oper_ok w x \<Longrightarrow> regf_of x < 8"
  by (cases x; simp)+

lemma stream_after:
  "emits st c rs fs st' \<Longrightarrow> stream_at st' p rs' fs' = \<lparr>s_pos = length (as_text st) + length c, s_bytes = p, s_rels = rs', s_fixes = fs'\<rparr>"
  by (simp add: stream_at_def emits_text_length)

lemma encodes_word:
  assumes "unat op mod 65536 = word5 t r m a b" "t < 16" "r < 8" "m < 8" "a < 8" "b < 8"
    and "\<And>s. decode_fields t r m a b s = Some (i, s)"
  shows "encodes i st (put_text (b16 op) st)"
proof -
  have "decode_insn (stream_at st (b16 op @ p) rs' fs') = Some (i, stream_at (put_text (b16 op) st) p rs' fs')" for p rs' fs'
    by (subst decode_insn_b16 [OF assms(1-6)]) (simp add: assms(7) stream_after [OF emits_text])
  then show ?thesis unfolding encodes_def
    by (intro exI [of _ "b16 op"] exI [of _ "[]"]) (simp add: emits_text patched_nil, simp add: b16_def)
qed

lemma encodes_ea:
  assumes op: "unat op mod 65536 = word5 t r m (mode_of x) (regf_of x)" and b: "t < 16" "r < 8" "m < 8"
    and x: "oper_ok w x" and s: "small st"
    and d: "\<And>s. decode_fields t r m (mode_of x) (regf_of x) s = ea_then w (mode_of x) (regf_of x) s f"
  shows "encodes (f (clean_oper x)) st (emit_ext (ea_of w x) (put_text (b16 op) st))"
proof -
  let ?st1 = "put_text (b16 op) st" and ?n = "length (as_text st)"
  let ?c = "b16 op @ ext_code w x" and ?rs = "ext_rels (?n + 2) x"
  have l: "length (as_text ?st1) = ?n + 2" by (simp add: put_text_def)
  have e: "emits st ?c ?rs [] (emit_ext (ea_of w x) ?st1)"
    using emits_trans [OF emits_text emits_ext, of st "b16 op" w x] l by simp
  have "decode_insn (stream_at st (?c @ p) (?rs @ rs') fs') = Some (f (clean_oper x), stream_at (emit_ext (ea_of w x) ?st1) p rs' fs')" for p rs' fs'
  proof -
    let ?s = "\<lparr>s_pos = ?n + 2, s_bytes = ext_code w x @ p, s_rels = ?rs @ rs', s_fixes = fs'\<rparr>"
    have "decode_ea w (mode_of x) (regf_of x) ?s =
        Some (clean_oper x, ?s\<lparr>s_pos := s_pos ?s + length (ext_code w x), s_bytes := p, s_rels := rs'\<rparr>)"
      by (rule decode_ea_words [OF x]) (use s in \<open>simp_all add: small_def\<close>)
    then show ?thesis
      using decode_insn_b16 [OF op b mode_bounds(1) mode_bounds(2) [OF x], of st "ext_code w x @ p" "?rs @ rs'" fs']
      by (simp add: d ea_then_def stream_after [OF e] add.assoc)
  qed
  then show ?thesis unfolding encodes_def using e
    by (intro exI [of _ ?c] exI [of _ ?rs] exI [of _ "[]"]) (simp add: patched_nil b16_def [of op])
qed

lemma encodes_ea2:
  assumes op: "unat op mod 65536 = word5 t (regf_of y) (mode_of y) (mode_of x) (regf_of x)" and b: "t < 16"
    and x: "oper_ok w x" and y: "oper_ok w y" and s: "length (as_text st) < 2 ^ 31 - 6"
    and d: "\<And>s. decode_fields t (regf_of y) (mode_of y) (mode_of x) (regf_of x) s = line_move w (regf_of y) (mode_of y) (mode_of x) (regf_of x) s"
  shows "encodes (HMove w (clean_oper x) (clean_oper y)) st (emit_ext (ea_of w y) (emit_ext (ea_of w x) (put_text (b16 op) st)))"
proof -
  let ?st1 = "put_text (b16 op) st" and ?n = "length (as_text st)"
  let ?st2 = "emit_ext (ea_of w x) ?st1"
  let ?k = "length (ext_code w x)"
  let ?c = "b16 op @ ext_code w x @ ext_code w y" and ?rx = "ext_rels (?n + 2) x" and ?ry = "ext_rels (?n + 2 + ?k) y"
  have l: "length (as_text ?st1) = ?n + 2" by (simp add: put_text_def)
  have e1: "emits st (b16 op @ ext_code w x) ?rx [] ?st2"
    using emits_trans [OF emits_text emits_ext, of st "b16 op" w x] l by simp
  then have l2: "length (as_text ?st2) = ?n + 2 + ?k" by (simp add: emits_text_length)
  have e: "emits st ?c (?rx @ ?ry) [] (emit_ext (ea_of w y) ?st2)"
    using emits_trans [OF e1 emits_ext, of w y] l2 by simp
  have k: "?k \<le> 4" by (cases x; cases w) (simp_all add: ext_code_def)
  have "decode_insn (stream_at st (?c @ p) ((?rx @ ?ry) @ rs') fs') =
      Some (HMove w (clean_oper x) (clean_oper y), stream_at (emit_ext (ea_of w y) ?st2) p rs' fs')" for p rs' fs'
  proof -
    let ?s = "\<lparr>s_pos = ?n + 2, s_bytes = ext_code w x @ ext_code w y @ p, s_rels = ?rx @ ?ry @ rs', s_fixes = fs'\<rparr>"
    let ?s2 = "\<lparr>s_pos = ?n + 2 + ?k, s_bytes = ext_code w y @ p, s_rels = ?ry @ rs', s_fixes = fs'\<rparr>"
    have "decode_ea w (mode_of x) (regf_of x) ?s =
        Some (clean_oper x, ?s\<lparr>s_pos := s_pos ?s + ?k, s_bytes := ext_code w y @ p, s_rels := ?ry @ rs'\<rparr>)"
      by (rule decode_ea_words [OF x]) (use s in simp_all)
    moreover have "decode_ea w (mode_of y) (regf_of y) ?s2 =
        Some (clean_oper y, ?s2\<lparr>s_pos := s_pos ?s2 + length (ext_code w y), s_bytes := p, s_rels := rs'\<rparr>)"
      by (rule decode_ea_words [OF y]) (use s k in simp_all)
    ultimately show ?thesis
      using decode_insn_b16 [OF op b mode_bounds(2) [OF y] mode_bounds(1) mode_bounds(1) mode_bounds(2) [OF x], of st "ext_code w x @ ext_code w y @ p" "?rx @ ?ry @ rs'" fs']
      by (simp add: d line_move_def ea_then_def stream_after [OF e] add.assoc)
  qed
  then show ?thesis unfolding encodes_def using e
    by (intro exI [of _ ?c] exI [of _ "?rx @ ?ry"] exI [of _ "[]"]) (simp add: patched_nil b16_def [of op])
qed

lemma encodes_imm_ea:
  assumes op: "unat op mod 65536 = word5 t r m (mode_of x) (regf_of x)" and b: "t < 16" "r < 8" "m < 8"
    and v: "imm_ok w v" and x: "oper_ok w x" and s: "length (as_text st) < 2 ^ 31 - 6"
    and d: "\<And>s. decode_fields t r m (mode_of x) (regf_of x) s =
      Option.bind (next_imm w s) (\<lambda>(v, s1). ea_then w (mode_of x) (regf_of x) s1 (f v))"
  shows "encodes (f v (clean_oper x)) st (emit_ext (ea_of w x) (put_text (b16 op @ ext_code w (OImm v)) st))"
proof -
  let ?i = "ext_code w (OImm v)"
  let ?st1 = "put_text (b16 op @ ?i) st" and ?n = "length (as_text st)"
  let ?c = "b16 op @ ?i @ ext_code w x" and ?rs = "ext_rels (?n + 2 + length ?i) x"
  have l: "length (as_text ?st1) = ?n + 2 + length ?i" by (simp add: put_text_def)
  have e: "emits st ?c ?rs [] (emit_ext (ea_of w x) ?st1)"
    using emits_trans [OF emits_text emits_ext, of st "b16 op @ ?i" w x] l by simp
  have k: "length ?i \<le> 4" by (cases w) (simp_all add: ext_code_def)
  have "decode_insn (stream_at st (?c @ p) (?rs @ rs') fs') = Some (f v (clean_oper x), stream_at (emit_ext (ea_of w x) ?st1) p rs' fs')" for p rs' fs'
  proof -
    let ?s = "\<lparr>s_pos = ?n + 2, s_bytes = ?i @ ext_code w x @ p, s_rels = ?rs @ rs', s_fixes = fs'\<rparr>"
    let ?s2 = "\<lparr>s_pos = ?n + 2 + length ?i, s_bytes = ext_code w x @ p, s_rels = ?rs @ rs', s_fixes = fs'\<rparr>"
    have "next_imm w ?s = Some (v, ?s\<lparr>s_pos := s_pos ?s + length ?i, s_bytes := ext_code w x @ p\<rparr>)"
      by (rule next_imm_words [OF v]) simp
    moreover have "decode_ea w (mode_of x) (regf_of x) ?s2 =
        Some (clean_oper x, ?s2\<lparr>s_pos := s_pos ?s2 + length (ext_code w x), s_bytes := p, s_rels := rs'\<rparr>)"
      by (rule decode_ea_words [OF x]) (use s k in simp_all)
    ultimately show ?thesis
      using decode_insn_b16 [OF op b mode_bounds(1) mode_bounds(2) [OF x], of st "?i @ ext_code w x @ p" "?rs @ rs'" fs']
      by (simp add: d ea_then_def stream_after [OF e] add.assoc)
  qed
  then show ?thesis unfolding encodes_def using e
    by (intro exI [of _ ?c] exI [of _ ?rs] exI [of _ "[]"]) (simp add: patched_nil b16_def [of op])
qed

text \<open>A branch: the word, the fixup and an empty displacement.\<close>

lemma encodes_branch:
  assumes op: "unat op mod 65536 = word5 t r m a b" and b: "t < 16" "r < 8" "m < 8" "a < 8" "b < 8" and s: "small st"
    and d: "\<And>s. decode_fields t r m a b s = map_option (\<lambda>(l, s1). (f l, s1)) (next_branch s)"
  shows "encodes (f l) st (let st' = put_text (b16 op) st in put_text (b16 0) (add_fixup (text_len st') l st'))"
proof -
  let ?st1 = "put_text (b16 op) st" and ?n = "length (as_text st)"
  let ?c = "b16 op @ b16 0" and ?fs = "[\<lparr>fx_off = of_nat (?n + 2), fx_label = l\<rparr>]"
  let ?st2 = "put_text (b16 0) (add_fixup (text_len ?st1) l ?st1)"
  have e: "emits st ?c [] ?fs ?st2"
    unfolding emits_def by (rule exI [of _ "[]"]) (simp add: add_fixup_def put_text_def text_len_def)
  have u: "unat (of_nat (?n + 2) :: u32) = ?n + 2" using s by (subst unat_of_nat) (simp add: small_def take_bit_nat_eq_self)
  have d: "decode_insn (stream_at st ((b16 op @ [x, y]) @ p) rs' (?fs @ fs')) = Some (f l, stream_at ?st2 p rs' fs')" for p rs' fs' x y
    using decode_insn_b16 [OF op b, of st "[x, y] @ p" rs' "?fs @ fs'"] u
    by (simp add: d next_branch_def next_word_def stream_after [OF e])
  have "\<exists>x y. c' = b16 op @ [x, y]" if "patched ?n ?fs ?c c'" for c'
  proof (intro exI)
    have l: "length c' = 4" using that by (simp add: patched_def)
    have "c' ! 0 = ?c ! 0" "c' ! Suc 0 = ?c ! Suc 0" using that u by (simp_all add: patched_def)
    then have "c' ! 0 = b16 op ! 0" "c' ! 1 = b16 op ! 1" by (simp_all add: nth_append)
    then show "c' = b16 op @ [c' ! 2, c' ! 3]" using l by (simp add: b16_def list_eq_iff_nth_eq numeral_eq_Suc All_less_Suc nth_Cons')
  qed
  then have "patched ?n ?fs ?c c' \<Longrightarrow> decode_insn (stream_at st (c' @ p) rs' (?fs @ fs')) = Some (f l, stream_at ?st2 p rs' fs')" for p rs' fs' c'
    using d by blast
  then show ?thesis unfolding encodes_def using e u
    by (intro exI [of _ ?c] exI [of _ "[]"] exI [of _ ?fs]) (simp add: b16_def [of op] Let_def)
qed

lemma encodes_word2:
  assumes op: "unat op mod 65536 = word5 t r m a b" and b: "t < 16" "r < 8" "m < 8" "a < 8" "b < 8" and v: "imm_ok SzW v"
    and d: "\<And>s. decode_fields t r m a b s = map_option (\<lambda>(n, s1). (f (signed16 n), s1)) (next_word s)"
  shows "encodes (f v) st (put_text (b16 op @ b16 (of_int v AND 0xFFFF)) st)"
proof -
  let ?c = "b16 op @ b16 (of_int v AND 0xFFFF)"
  have "decode_insn (stream_at st (?c @ p) rs' fs') = Some (f v, stream_at (put_text ?c st) p rs' fs')" for p rs' fs'
    using decode_insn_b16 [OF op b, of st "b16 (of_int v AND 0xFFFF) @ p" rs' fs'] v
    by (simp add: d stream_after [OF emits_text] low_word signed16_mod)
  then show ?thesis unfolding encodes_def
    by (intro exI [of _ ?c] exI [of _ "[]"]) (simp add: emits_text patched_nil, simp add: b16_def [of op])
qed

section \<open>The opcode map\<close>

lemma op5:
  assumes "unat T = t" "unat R = r" "unat M = m" "unat E = a * 8 + b" "t < 16" "r < 8" "m < 8" "a < 8" "b < 8"
  shows "unat (push_bit 12 T OR push_bit 9 R OR push_bit 6 M OR E :: u32) mod 65536 = word5 t r m a b"
proof -
  have e: "unat E < 64" using assms(4,8,9) by simp
  have m: "unat (push_bit 6 M OR E) = m * 64 + unat E" using or_field [of E 6 M] e assms(3,7) by simp
  have r: "unat (push_bit 9 R OR push_bit 6 M OR E) = r * 512 + unat (push_bit 6 M OR E)"
    by (subst or_field) (use m e assms(2,6,7) in simp_all)
  have "unat (push_bit 12 T OR push_bit 9 R OR push_bit 6 M OR E) = t * 4096 + unat (push_bit 9 R OR push_bit 6 M OR E)"
    by (subst or_field) (use r m e assms(1,5,6,7) in simp_all)
  then show ?thesis using r m assms(4-9) by (simp add: word5_def)
qed

lemma unat_small: "n < 2 ^ 32 \<Longrightarrow> unat (of_nat n :: u32) = n"
  by (subst unat_of_nat) (simp add: take_bit_nat_eq_self)

lemma unat_ea_field:
  assumes "oper_ok w x"
  shows "unat (ea_field (ea_of w x)) = mode_of x * 8 + regf_of x"
proof -
  note b = mode_bounds(1) [of x] mode_bounds(2) [OF assms]
  have u: "unat (of_nat (mode_of x) :: u32) = mode_of x" "unat (of_nat (regf_of x) :: u32) = regf_of x"
    using b by (simp_all add: unat_small)
  have "unat (push_bit 3 (of_nat (mode_of x)) OR of_nat (regf_of x) :: u32) = unat (of_nat (mode_of x) :: u32) * 2 ^ 3 + unat (of_nat (regf_of x) :: u32)"
    by (rule or_field) (use u b in simp_all)
  then show ?thesis by (simp add: ea_field_def ea_of_def u)
qed

lemma op5_ea:
  assumes "oper_ok w x" "unat T = t" "unat R = r" "unat M = m" "t < 16" "r < 8" "m < 8"
  shows "unat (push_bit 12 T OR push_bit 9 R OR push_bit 6 M OR ea_field (ea_of w x) :: u32) mod 65536 = word5 t r m (mode_of x) (regf_of x)"
  by (rule op5 [OF assms(2-4) unat_ea_field [OF assms(1)] assms(5-7) mode_bounds(1) mode_bounds(2) [OF assms(1)]])

lemma op5_reg:
  assumes "unat T = t" "unat R = r" "unat M = m" "t < 16" "r < 8" "m < 8" "b < 8" "unat A = a" "a < 8"
  shows "unat (push_bit 12 T OR push_bit 9 R OR push_bit 6 M OR push_bit 3 A OR of_nat b :: u32) mod 65536 = word5 t r m a b"
proof -
  have "unat (push_bit 3 A OR of_nat b) = unat A * 2 ^ 3 + unat (of_nat b :: u32)"
    by (rule or_field) (use assms(7-9) in \<open>simp_all add: unat_small\<close>)
  then have "unat (push_bit 3 A OR of_nat b) = a * 8 + b" using assms(7,8) by (simp add: unat_small)
  then show ?thesis by (rule op5 [OF assms(1-3) _ assms(4-6,9,7)])
qed

text \<open>The constants of the code as fields.\<close>

lemma field_consts:
  "(if q then 0x100 else 0) OR push_bit 6 s OR e = (push_bit 6 ((if q then 4 else 0) OR s) OR e :: u32)"
  "push_bit 8 1 OR push_bit 6 s OR e = (push_bit 6 (4 OR s) OR e :: u32)"
  "push_bit 8 0x48 OR e = (push_bit 12 4 OR push_bit 9 4 OR e :: u32)"
  "push_bit 8 0x40 OR e = (push_bit 12 4 OR push_bit 9 0 OR e :: u32)"
  "push_bit 8 0x42 OR e = (push_bit 12 4 OR push_bit 9 1 OR e :: u32)"
  "push_bit 8 0x44 OR e = (push_bit 12 4 OR push_bit 9 2 OR e :: u32)"
  "push_bit 8 0x46 OR e = (push_bit 12 4 OR push_bit 9 3 OR e :: u32)"
  "push_bit 8 0x4A OR e = (push_bit 12 4 OR push_bit 9 5 OR e :: u32)"
  "push_bit 8 0x4E OR 0x80 OR e = (push_bit 12 4 OR push_bit 9 7 OR push_bit 6 2 OR e :: u32)"
  "push_bit 8 0x4E OR 0xC0 OR e = (push_bit 12 4 OR push_bit 9 7 OR push_bit 6 3 OR e :: u32)"
  "0x4E50 OR e = (push_bit 12 4 OR push_bit 9 7 OR push_bit 6 1 OR push_bit 3 2 OR e :: u32)"
  "0x4E58 OR e = (push_bit 12 4 OR push_bit 9 7 OR push_bit 6 1 OR push_bit 3 3 OR e :: u32)"
  "0x51C8 OR e = (push_bit 12 5 OR push_bit 9 0 OR push_bit 6 7 OR push_bit 3 1 OR e :: u32)"
proof -
  have "0x100 OR push_bit 6 s = push_bit 6 (4 OR s)" for s :: u32 by (simp add: push_bit_or)
  then show "(if q then 0x100 else 0) OR push_bit 6 s OR e = (push_bit 6 ((if q then 4 else 0) OR s) OR e :: u32)"
    "push_bit 8 1 OR push_bit 6 s OR e = (push_bit 6 (4 OR s) OR e :: u32)"
    by (simp_all flip: or.assoc)
qed (simp_all flip: or.assoc)

lemma std_size: "unat (std_size_field (w_bytes w)) = (case w of SzB \<Rightarrow> 0 | SzW \<Rightarrow> 1 | SzL \<Rightarrow> 2)"
  by (cases w) (simp_all add: std_size_field_def)

lemma opmode_size: "unat (4 OR std_size_field (w_bytes w)) = 4 + (case w of SzB \<Rightarrow> 0 | SzW \<Rightarrow> 1 | SzL \<Rightarrow> 2)"
  by (cases w) (simp_all add: std_size_field_def)

lemma move_size_num: "unat (move_size_field (w_bytes w)) = (case w of SzB \<Rightarrow> 1 | SzW \<Rightarrow> 3 | SzL \<Rightarrow> 2)"
  by (cases w) (simp_all add: move_size_field_def)

lemma split_sized: "split_size (sized m w) = (m, w_bytes w)"
  by (cases w) (simp_all add: split_size_def sized_def nth_append Let_def)

section \<open>Every instruction\<close>

fun not_imm :: "oper \<Rightarrow> bool" where "not_imm (OImm v) = False" | "not_imm _ = True"

fun not_areg :: "oper \<Rightarrow> bool" where "not_areg (OAn r) = False" | "not_areg _ = True"

fun control :: "oper \<Rightarrow> bool" where
  "control (OInd r) = True" | "control (ODisp d r) = True" | "control (OIdx r i) = True" | "control (OAbs n k) = True" | "control _ = False"

text \<open>A set-on-condition instruction reaches memory through a plain address register only: the code appends no extension words for it.\<close>

fun hw_ok :: "hw \<Rightarrow> bool" where
  "hw_ok (HMove w s d) \<longleftrightarrow> oper_ok w s \<and> oper_ok w d \<and> not_imm d \<and> (w = SzB \<longrightarrow> not_areg s \<and> not_areg d)"
| "hw_ok (HMoveq n r) \<longleftrightarrow> imm_ok SzB n \<and> r < 8"
| "hw_ok (HLea s r) \<longleftrightarrow> oper_ok SzL s \<and> control s \<and> r < 8"
| "hw_ok (HArith a w s r) \<longleftrightarrow> a \<noteq> Ar_eor \<and> oper_ok w s \<and> not_imm s \<and> r < 8"
| "hw_ok (HArithI a w v d) \<longleftrightarrow> imm_ok w v \<and> oper_ok w d \<and> not_imm d \<and> not_areg d"
| "hw_ok (HEor w r d) \<longleftrightarrow> r < 8 \<and> oper_ok w d \<and> not_imm d \<and> not_areg d"
| "hw_ok (HAdda sb w s r) \<longleftrightarrow> w \<noteq> SzB \<and> oper_ok w s \<and> r < 8 \<and> (case s of OImm v \<Rightarrow> v < 1 \<or> 8 < v | _ \<Rightarrow> True)"
| "hw_ok (HQuick sb w n d) \<longleftrightarrow> 1 \<le> n \<and> n \<le> 8 \<and> oper_ok w d \<and> not_imm d \<and> (w = SzB \<longrightarrow> not_areg d)"
| "hw_ok (HAddx sb w s r) \<longleftrightarrow> s < 8 \<and> r < 8"
| "hw_ok (HExt w r) \<longleftrightarrow> w \<noteq> SzB \<and> r < 8"
| "hw_ok (HUnary u w d) \<longleftrightarrow> oper_ok w d \<and> not_imm d \<and> not_areg d"
| "hw_ok (HShiftI s w n r) \<longleftrightarrow> 1 \<le> n \<and> n \<le> 8 \<and> r < 8"
| "hw_ok (HShiftR s w c r) \<longleftrightarrow> c < 8 \<and> r < 8"
| "hw_ok (HJsr s) \<longleftrightarrow> oper_ok SzL s \<and> control s"
| "hw_ok (HJmp s) \<longleftrightarrow> oper_ok SzL s \<and> control s"
| "hw_ok (HLink r n) \<longleftrightarrow> r < 8 \<and> imm_ok SzW n"
| "hw_ok (HUnlk r) \<longleftrightarrow> r < 8"
| "hw_ok HRts \<longleftrightarrow> True"
| "hw_ok HNop \<longleftrightarrow> True"
| "hw_ok (HBcc c l) \<longleftrightarrow> c < 16 \<and> c \<noteq> 1 \<and> good_name l"
| "hw_ok (HDbra r l) \<longleftrightarrow> r < 8 \<and> good_name l"
| "hw_ok (HScc c d) \<longleftrightarrow> 2 \<le> c \<and> c < 16 \<and> oper_ok SzB d \<and> not_areg d \<and> words_of SzB d = []"

text \<open>The marker of external names is not part of the name.\<close>

fun clean_hw :: "hw \<Rightarrow> hw" where
  "clean_hw (HMove w s d) = HMove w (clean_oper s) (clean_oper d)"
| "clean_hw (HLea s r) = HLea (clean_oper s) r"
| "clean_hw (HArith a w s r) = HArith a w (clean_oper s) r"
| "clean_hw (HArithI a w v d) = HArithI a w v (clean_oper d)"
| "clean_hw (HEor w r d) = HEor w r (clean_oper d)"
| "clean_hw (HAdda sb w s r) = HAdda sb w (clean_oper s) r"
| "clean_hw (HQuick sb w n d) = HQuick sb w n (clean_oper d)"
| "clean_hw (HUnary u w d) = HUnary u w (clean_oper d)"
| "clean_hw (HJsr s) = HJsr (clean_oper s)"
| "clean_hw (HJmp s) = HJmp (clean_oper s)"
| "clean_hw (HScc c d) = HScc c (clean_oper d)"
| "clean_hw i = i"

definition insn_encodes :: "hw \<Rightarrow> asm_state \<Rightarrow> bool" where
  "insn_encodes i st \<longleftrightarrow>
     (\<exists>st'. encode_insn (fst (hw_parts i)) (Some (case snd (hw_parts i) of [] \<Rightarrow> [] | a # _ \<Rightarrow> a))
         (case snd (hw_parts i) of [_, b] \<Rightarrow> Some b | _ \<Rightarrow> None) st = Inr st' \<and> encodes (clean_hw i) st st')"

definition roomy :: "asm_state \<Rightarrow> bool" where "roomy st \<longleftrightarrow> length (as_text st) < 2 ^ 31 - 6"

lemma roomy_small: "roomy st \<Longrightarrow> small st" by (simp add: roomy_def small_def)

lemmas parse_oper4 = parse_oper [of SzL, simplified]

lemma ea_of_fields [simp]:
  "ea_reg (ea_of w x) = of_nat (regf_of x)" "ea_mode (ea_of w x) = of_nat (mode_of x)"
  by (simp_all add: ea_of_def)

lemma not_imm_ea [simp]: "not_imm x \<Longrightarrow> \<not> ea_is_imm (ea_of w x)"
  by (cases x) (simp_all add: ea_of_def)

lemma enc_HMove: "hw_ok (HMove w s d) \<Longrightarrow> roomy st \<Longrightarrow> insn_encodes (HMove w s d) st"
proof -
  assume ok: "hw_ok (HMove w s d)" and r: "roomy st"
  have p: "parse_ea (Some (oper_text s)) (w_bytes w) = Inr (ea_of w s)" "parse_ea (Some (oper_text d)) (w_bytes w) = Inr (ea_of w d)"
    using ok parse_oper by simp_all
  have m: "fst (hw_parts (HMove w s d)) = sized ''move'' w \<or> fst (hw_parts (HMove w s d)) = sized ''movea'' w" by (cases d) simp_all
  have e: "encode_insn (fst (hw_parts (HMove w s d))) (Some (oper_text s)) (Some (oper_text d)) st = Inr (enc_move (w_bytes w) (ea_of w s) (ea_of w d) st)"
    using m by (auto simp: encode_insn_def split_sized with2_def p simp del: oper_text.simps hw_parts.simps)
  have op: "unat (push_bit 12 (move_size_field (w_bytes w)) OR push_bit 9 (of_nat (regf_of d)) OR push_bit 6 (of_nat (mode_of d)) OR ea_field (ea_of w s) :: u32) mod 65536 =
      word5 (case w of SzB \<Rightarrow> 1 | SzW \<Rightarrow> 3 | SzL \<Rightarrow> 2) (regf_of d) (mode_of d) (mode_of s) (regf_of s)"
    using ok mode_bounds(1) [of d] mode_bounds(2) [of w d]
    by (intro op5_ea) (auto simp: move_size_num unat_small split: width.splits)
  have "encodes (HMove w (clean_oper s) (clean_oper d)) st (enc_move (w_bytes w) (ea_of w s) (ea_of w d) st)"
    unfolding enc_move_def ea_of_fields
    by (rule encodes_ea2 [OF op]) (use ok r in \<open>auto simp: roomy_def decode_fields_def move_size_def split: width.splits\<close>)
  then show ?thesis using e by (simp add: insn_encodes_def)
qed

lemma enc_HLea: "hw_ok (HLea s r) \<Longrightarrow> roomy st \<Longrightarrow> insn_encodes (HLea s r) st"
proof -
  assume ok: "hw_ok (HLea s r)" and rm: "roomy st"
  have p: "parse_ea (Some (oper_text s)) 4 = Inr (ea_of SzL s)" "parse_ea (Some (oper_text (OAn r))) 4 = Inr (ea_of SzL (OAn r))"
    using ok by (auto intro!: parse_oper4 simp del: oper_text.simps)
  let ?op = "push_bit 12 4 OR push_bit 9 (of_nat r) OR push_bit 6 7 OR ea_field (ea_of SzL s) :: u32"
  have e: "encode_insn ''lea'' (Some (oper_text s)) (Some (oper_text (OAn r))) st = Inr (emit_ext (ea_of SzL s) (put_text (b16 ?op) st))"
    by (simp add: encode_insn_def split_size_def with2_def p del: oper_text.simps)
  have op: "unat ?op mod 65536 = word5 4 r 7 (mode_of s) (regf_of s)"
    using ok by (intro op5_ea) (auto simp: unat_small)
  have "encodes (HLea (clean_oper s) r) st (emit_ext (ea_of SzL s) (put_text (b16 ?op) st))"
    by (rule encodes_ea [OF op, where f = "\<lambda>x. HLea x r"]) (use ok rm in \<open>auto simp: roomy_small decode_fields_def line_4_def\<close>)
  then show ?thesis using e by (simp add: insn_encodes_def del: oper_text.simps)
qed

lemma enc_HMoveq: "hw_ok (HMoveq n r) \<Longrightarrow> roomy st \<Longrightarrow> insn_encodes (HMoveq n r) st"
proof -
  assume ok: "hw_ok (HMoveq n r)" and rm: "roomy st"
  have p: "parse_ea (Some (oper_text (ODn r))) 4 = Inr (ea_of SzL (ODn r))" using ok by (auto intro!: parse_oper4 simp del: oper_text.simps)
  have n: "parse_num (show_int n) = of_int n" using ok by (intro parse_show_int) auto
  let ?op = "push_bit 12 7 OR push_bit 9 (of_nat r) OR (of_int n AND 0xFF) :: u32"
  have e: "encode_insn ''moveq'' (Some (CHR ''#'' # show_int n)) (Some (oper_text (ODn r))) st = Inr (put_text (b16 ?op) st)"
    by (simp add: encode_insn_def split_size_def skip1_def with1_def p n ucast_int del: oper_text.simps)
  define k where "k = nat (n mod 256)"
  have k: "k < 256" by (simp add: k_def nat_less_iff)
  have u: "unat (of_int n AND 0xFF :: u32) = k" by (simp add: low_byte_unat k_def)
  have "unat (push_bit 9 (of_nat r) OR (of_int n AND 0xFF) :: u32) = r * 512 + k"
    by (subst or_field) (use u k ok in \<open>simp_all add: unat_small\<close>)
  then have "unat ?op = 7 * 4096 + (r * 512 + k)" by (subst or_field) (use k ok in simp_all)
  moreover have k3: "k div 64 * 64 + k div 8 mod 8 * 8 + k mod 8 = k"
    using mod_mult2_eq [of k 8 8] div_mult_mod_eq [of k 64] by simp
  ultimately have op: "unat ?op mod 65536 = word5 7 r (k div 64) (k div 8 mod 8) (k mod 8)"
    using k ok by (simp add: word5_def)
  have "signed8 k = n" using ok by (simp add: k_def signed8_mod)
  have "encodes (HMoveq n r) st (put_text (b16 ?op) st)"
    by (rule encodes_word [OF op]) (use ok k k3 \<open>signed8 k = n\<close> in \<open>auto simp: decode_fields_def\<close>)
  then show ?thesis using e by (simp add: insn_encodes_def del: oper_text.simps)
qed

lemma parse_dn: "r < 8 \<Longrightarrow> parse_ea (Some (oper_text (ODn r))) k = Inr (ea_of w (ODn r))"
  by (auto simp: parse_reg_oper ea_of_def ea_zero_def)

lemma parse_an: "r < 8 \<Longrightarrow> parse_ea (Some (oper_text (OAn r))) k = Inr (ea_of w (OAn r))"
  by (auto simp: parse_reg_oper ea_of_def ea_zero_def)

lemma parse_imm_text: "imm_ok w v \<Longrightarrow> parse_ea (Some (CHR ''#'' # show_int v)) (w_bytes w) = Inr (ea_of w (OImm v))"
  using parse_oper [of w "OImm v"] by simp

lemma ea_imm_of [simp]: "ea_is_imm (ea_of w (OImm v))" "ea_imm (ea_of w (OImm v)) = of_int v"
  by (simp_all add: ea_of_def)

definition size_num :: "width \<Rightarrow> nat" where "size_num w = (case w of SzB \<Rightarrow> 0 | SzW \<Rightarrow> 1 | SzL \<Rightarrow> 2)"

lemma size_num_bound: "size_num w < 3" by (simp add: size_num_def split: width.splits)

lemma size_of_num [simp]: "size_of (size_num w) = Some w" by (cases w) (simp_all add: size_of_def size_num_def)

lemma size_fields [simp]:
  "unat (std_size_field (w_bytes w)) = size_num w" "unat (4 OR std_size_field (w_bytes w)) = 4 + size_num w"
  by (simp_all add: std_size opmode_size size_num_def)

fun arith_line :: "arith \<Rightarrow> nat" where
  "arith_line Ar_or = 8" | "arith_line Ar_sub = 9" | "arith_line Ar_cmp = 11" | "arith_line Ar_and = 12" | "arith_line Ar_add = 13"
| "arith_line Ar_eor = 0"

fun arith_code :: "arith \<Rightarrow> nat" where
  "arith_code Ar_or = 0" | "arith_code Ar_and = 1" | "arith_code Ar_sub = 2" | "arith_code Ar_add = 3" | "arith_code Ar_eor = 5"
| "arith_code Ar_cmp = 6"

lemma arith_nums: "a \<noteq> Ar_eor \<Longrightarrow> unat (alu_nibble (arith_text a)) = arith_line a" "arith_line a < 16"
  "unat (imm_code (arith_text a)) = arith_code a" "arith_code a < 8"
  by (cases a; simp add: alu_nibble_def imm_code_def)+

lemma enc_HArith: "hw_ok (HArith a w s r) \<Longrightarrow> roomy st \<Longrightarrow> insn_encodes (HArith a w s r) st"
proof -
  assume ok: "hw_ok (HArith a w s r)" and rm: "roomy st"
  have p: "parse_ea (Some (oper_text s)) (w_bytes w) = Inr (ea_of w s)" "parse_ea (Some (oper_text (ODn r))) (w_bytes w) = Inr (ea_of w (ODn r))"
    using ok by (auto intro!: parse_oper parse_dn simp del: oper_text.simps)
  let ?op = "push_bit 12 (alu_nibble (arith_text a)) OR push_bit 9 (of_nat r) OR push_bit 6 (std_size_field (w_bytes w)) OR ea_field (ea_of w s) :: u32"
  have e: "encode_insn (sized (arith_text a) w) (Some (oper_text s)) (Some (oper_text (ODn r))) st = Inr (emit_ext (ea_of w s) (put_text (b16 ?op) st))"
    using ok by (cases a) (simp_all add: encode_insn_def split_sized is_arith_def with2_def p enc_arith_def enc_alu_def Let_def del: oper_text.simps)
  have op: "unat ?op mod 65536 = word5 (arith_line a) r (size_num w) (mode_of s) (regf_of s)"
    using ok size_num_bound [of w] by (intro op5_ea) (auto simp: unat_small arith_nums)
  have d: "decode_fields (arith_line a) r (size_num w) m b z = ea_then w m b z (\<lambda>x. HArith a w x r)" for m b z
    using ok size_num_bound [of w] by (cases a) (auto simp: decode_fields_def line_arith_def)
  have "encodes (HArith a w (clean_oper s) r) st (emit_ext (ea_of w s) (put_text (b16 ?op) st))"
    by (rule encodes_ea [OF op, where f = "\<lambda>x. HArith a w x r"])
      (use ok rm size_num_bound [of w] in \<open>auto simp: roomy_small arith_nums d\<close>)
  then show ?thesis using e by (simp add: insn_encodes_def del: oper_text.simps)
qed

lemma enc_imm_ext: "enc_imm code (w_bytes w) (of_int v) e st =
    emit_ext e (put_text (b16 (push_bit 9 code OR push_bit 6 (std_size_field (w_bytes w)) OR ea_field e) @ ext_code w (OImm v)) st)"
proof -
  have "b32 x = b16 (drop_bit 16 x AND 0xFFFF) @ b16 (x AND 0xFFFF)" for x :: u32
  proof -
    have m: "(0xFFFF :: u32) = mask 16" by (simp add: mask_eq_exp_minus_1)
    show ?thesis unfolding m b32_def b16_def append.simps list.inject
      by (intro conjI; (rule bit_word_eqI)?) (auto simp: bit_simps)
  qed
  then show ?thesis by (cases w) (simp_all add: enc_imm_def ext_code_def ucast_int)
qed

lemma enc_HArithI: "hw_ok (HArithI a w v d) \<Longrightarrow> roomy st \<Longrightarrow> insn_encodes (HArithI a w v d) st"
proof -
  assume ok: "hw_ok (HArithI a w v d)" and rm: "roomy st"
  have p: "parse_ea (Some (CHR ''#'' # show_int v)) (w_bytes w) = Inr (ea_of w (OImm v))" "parse_ea (Some (oper_text d)) (w_bytes w) = Inr (ea_of w d)"
    using ok by (auto intro!: parse_oper parse_imm_text simp del: oper_text.simps)
  let ?op = "push_bit 12 0 OR push_bit 9 (imm_code (arith_text a)) OR push_bit 6 (std_size_field (w_bytes w)) OR ea_field (ea_of w d) :: u32"
  have e: "encode_insn (sized (arith_text a) w) (Some (CHR ''#'' # show_int v)) (Some (oper_text d)) st =
      Inr (emit_ext (ea_of w d) (put_text (b16 ?op @ ext_code w (OImm v)) st))"
    by (cases a) (simp_all add: encode_insn_def split_sized is_arith_def with2_def p enc_arith_def enc_imm_ext del: oper_text.simps)
  have op: "unat ?op mod 65536 = word5 0 (arith_code a) (size_num w) (mode_of d) (regf_of d)"
    using ok size_num_bound [of w] by (intro op5_ea) (auto simp: arith_nums)
  have q: "decode_fields 0 (arith_code a) (size_num w) m b z = Option.bind (next_imm w z) (\<lambda>(v, s1). ea_then w m b s1 (HArithI a w v))" for m b z
    by (cases a) (auto simp: decode_fields_def line_0_def)
  have "encodes (HArithI a w v (clean_oper d)) st (emit_ext (ea_of w d) (put_text (b16 ?op @ ext_code w (OImm v)) st))"
    by (rule encodes_imm_ea [OF op])
      (use ok rm size_num_bound [of w] in \<open>auto simp: roomy_def arith_nums q\<close>)
  then show ?thesis using e by (simp add: insn_encodes_def del: oper_text.simps)
qed

lemma enc_HEor: "hw_ok (HEor w r d) \<Longrightarrow> roomy st \<Longrightarrow> insn_encodes (HEor w r d) st"
proof -
  assume ok: "hw_ok (HEor w r d)" and rm: "roomy st"
  have p: "parse_ea (Some (oper_text (ODn r))) (w_bytes w) = Inr (ea_of w (ODn r))" "parse_ea (Some (oper_text d)) (w_bytes w) = Inr (ea_of w d)"
    using ok by (auto intro!: parse_oper parse_dn simp del: oper_text.simps)
  let ?op = "push_bit 12 0xB OR push_bit 9 (of_nat r) OR push_bit 6 (4 OR std_size_field (w_bytes w)) OR ea_field (ea_of w d) :: u32"
  have e: "encode_insn (sized ''eor'' w) (Some (oper_text (ODn r))) (Some (oper_text d)) st = Inr (emit_ext (ea_of w d) (put_text (b16 ?op) st))"
    by (simp add: encode_insn_def split_sized is_arith_def with2_def p enc_arith_def del: oper_text.simps)
  have op: "unat ?op mod 65536 = word5 11 r (4 + size_num w) (mode_of d) (regf_of d)"
    using ok size_num_bound [of w] by (intro op5_ea) (auto simp: unat_small)
  have "encodes (HEor w r (clean_oper d)) st (emit_ext (ea_of w d) (put_text (b16 ?op) st))"
    by (rule encodes_ea [OF op]) (use ok rm size_num_bound [of w] in \<open>auto simp: roomy_small decode_fields_def line_arith_def\<close>)
  then show ?thesis using e by (simp add: insn_encodes_def del: oper_text.simps)
qed

lemma sint_of_int64: "- (2 ^ 63) \<le> v \<Longrightarrow> v < 2 ^ 63 \<Longrightarrow> sint (of_int v :: u64) = v"
  by (simp add: signed_of_int signed_take_bit_int_eq_self)

lemma enc_HAdda: "hw_ok (HAdda sb w s r) \<Longrightarrow> roomy st \<Longrightarrow> insn_encodes (HAdda sb w s r) st"
proof -
  assume ok: "hw_ok (HAdda sb w s r)" and rm: "roomy st"
  have p: "parse_ea (Some (oper_text s)) (w_bytes w) = Inr (ea_of w s)" "parse_ea (Some (oper_text (OAn r))) (w_bytes w) = Inr (ea_of w (OAn r))"
    using ok by (auto intro!: parse_oper parse_an simp del: oper_text.simps)
  have q: "\<not> (ea_is_imm (ea_of w s) \<and> 1 \<le> sint (ea_imm (ea_of w s)) \<and> sint (ea_imm (ea_of w s)) \<le> 8)"
  proof (cases s)
    case (OImm v)
    then have "- (2 ^ 63) \<le> v" "v < 2 ^ 63" using ok by (cases w; simp)+
    then show ?thesis using ok OImm sint_of_int64 [of v] by auto
  qed (simp_all add: ea_of_def)
  let ?op = "push_bit 12 (if sb then 0x9 else 0xD) OR push_bit 9 (of_nat r) OR push_bit 6 (if w_bytes w = 4 then 7 else 3) OR ea_field (ea_of w s) :: u32"
  have e: "encode_insn (sized (if sb then ''suba'' else ''adda'') w) (Some (oper_text s)) (Some (oper_text (OAn r))) st =
      Inr (emit_ext (ea_of w s) (put_text (b16 ?op) st))"
  proof -
    have a: "enc_adda sb (w_bytes w) (ea_of w s) (ea_of w (OAn r)) st = emit_ext (ea_of w s) (put_text (b16 ?op) st)"
      unfolding enc_adda_def if_not_P [OF q] by simp
    show ?thesis unfolding a [symmetric]
      by (cases sb) (simp_all add: encode_insn_def split_sized is_arith_def with2_def p cur_char_def del: oper_text.simps)
  qed
  let ?m = "if w = SzL then 7 else 3 :: nat"
  have op: "unat ?op mod 65536 = word5 (if sb then 9 else 13) r ?m (mode_of s) (regf_of s)"
    using ok by (intro op5_ea) (cases w; auto simp: unat_small)+
  have d: "decode_fields (if sb then 9 else 13) r ?m m b z = ea_then w m b z (\<lambda>x. HAdda sb w x r)" for m b z
    using ok by (cases w) (auto simp: decode_fields_def line_arith_def Let_def)
  have "encodes (HAdda sb w (clean_oper s) r) st (emit_ext (ea_of w s) (put_text (b16 ?op) st))"
    by (rule encodes_ea [OF op, where f = "\<lambda>x. HAdda sb w x r"]) (use ok rm in \<open>auto simp: roomy_small d\<close>)
  then show ?thesis using e by (simp add: insn_encodes_def del: oper_text.simps)
qed

lemma enc_HQuick: "hw_ok (HQuick sb w n d) \<Longrightarrow> roomy st \<Longrightarrow> insn_encodes (HQuick sb w n d) st"
proof -
  assume ok: "hw_ok (HQuick sb w n d)" and rm: "roomy st"
  have i: "imm_ok w (int n)" using ok by (cases w) auto
  have p: "parse_ea (Some (CHR ''#'' # show_int (int n))) (w_bytes w) = Inr (ea_of w (OImm (int n)))" "parse_ea (Some (oper_text d)) (w_bytes w) = Inr (ea_of w d)"
    using ok i by (auto intro!: parse_oper parse_imm_text simp del: oper_text.simps)
  let ?op = "push_bit 12 5 OR push_bit 9 (of_nat n AND 7) OR push_bit 6 ((if sb then 4 else 0) OR std_size_field (w_bytes w)) OR ea_field (ea_of w d) :: u32"
  have qk: "quick sb (w_bytes w) (of_int (int n)) OR f = push_bit 12 5 OR push_bit 9 (of_nat n AND 7) OR push_bit 6 ((if sb then 4 else 0) OR std_size_field (w_bytes w)) OR f" for f
    unfolding quick_def or.assoc field_consts(1) ucast_int by simp
  have e: "encode_insn (sized (if sb then ''subq'' else ''addq'') w) (Some (CHR ''#'' # show_int (int n))) (Some (oper_text d)) st =
      Inr (emit_ext (ea_of w d) (put_text (b16 (quick sb (w_bytes w) (of_int (int n)) OR ea_field (ea_of w d))) st))"
    by (cases sb) (simp_all add: encode_insn_def split_sized is_arith_def with2_def p cur_char_def del: oper_text.simps)
  have "\<forall>n \<in> set [1..<9]. unat (of_nat n AND 7 :: u32) = n mod 8" by code_simp
  then have u: "unat (of_nat n AND 7 :: u32) = n mod 8" using ok by simp
  have op: "unat ?op mod 65536 = word5 5 (n mod 8) ((if sb then 4 else 0) + size_num w) (mode_of d) (regf_of d)"
    using ok size_num_bound [of w] u by (intro op5_ea) auto
  have "n mod 8 = (if n = 8 then 0 else n)" using ok by auto
  then have q: "decode_fields 5 (n mod 8) ((if sb then 4 else 0) + size_num w) m b z = ea_then w m b z (HQuick sb w n)" for m b z
    using ok size_num_bound [of w] by (auto simp: decode_fields_def line_5_def)
  have "encodes (HQuick sb w n (clean_oper d)) st (emit_ext (ea_of w d) (put_text (b16 ?op) st))"
    by (rule encodes_ea [OF op]) (use ok rm size_num_bound [of w] in \<open>auto simp: roomy_small q\<close>)
  then show ?thesis using e [unfolded qk] unfolding insn_encodes_def hw_parts.simps fst_conv snd_conv list.case clean_hw.simps by blast
qed

lemma enc_HAddx: "hw_ok (HAddx sb w s r) \<Longrightarrow> roomy st \<Longrightarrow> insn_encodes (HAddx sb w s r) st"
proof -
  assume ok: "hw_ok (HAddx sb w s r)" and rm: "roomy st"
  have p: "parse_ea (Some (oper_text (ODn s))) (w_bytes w) = Inr (ea_of w (ODn s))" "parse_ea (Some (oper_text (ODn r))) (w_bytes w) = Inr (ea_of w (ODn r))"
    using ok by (auto intro!: parse_dn simp del: oper_text.simps)
  let ?op = "push_bit 12 (if sb then 0x9 else 0xD) OR push_bit 9 (of_nat r) OR push_bit 6 (4 OR std_size_field (w_bytes w)) OR push_bit 3 0 OR of_nat s :: u32"
  have e: "encode_insn (sized (if sb then ''subx'' else ''addx'') w) (Some (oper_text (ODn s))) (Some (oper_text (ODn r))) st = Inr (put_text (b16 ?op) st)"
    using field_consts(2) [of "std_size_field (w_bytes w)" "of_nat s"]
    by (cases sb) (simp_all add: encode_insn_def split_sized is_arith_def with2_def p cur_char_def del: oper_text.simps)
  have op: "unat ?op mod 65536 = word5 (if sb then 9 else 13) r (4 + size_num w) 0 s"
    using ok size_num_bound [of w] by (intro op5_reg) (auto simp: unat_small)
  have "encodes (HAddx sb w s r) st (put_text (b16 ?op) st)"
    by (rule encodes_word [OF op]) (use ok size_num_bound [of w] in \<open>auto simp: decode_fields_def line_arith_def\<close>)
  then show ?thesis using e by (simp add: insn_encodes_def del: oper_text.simps)
qed

lemma enc_HExt: "hw_ok (HExt w r) \<Longrightarrow> roomy st \<Longrightarrow> insn_encodes (HExt w r) st"
proof -
  assume ok: "hw_ok (HExt w r)" and rm: "roomy st"
  have p: "parse_ea (Some (oper_text (ODn r))) (w_bytes w) = Inr (ea_of w (ODn r))" using ok by (auto intro!: parse_dn simp del: oper_text.simps)
  let ?op = "push_bit 12 4 OR push_bit 9 4 OR push_bit 6 (if w_bytes w = 4 then 3 else 2) OR push_bit 3 0 OR of_nat r :: u32"
  have e: "encode_insn (sized ''ext'' w) (Some (oper_text (ODn r))) None st = Inr (put_text (b16 ?op) st)"
    unfolding encode_insn_def split_sized field_consts(3)
    by (simp add: is_arith_def with1_def p del: oper_text.simps)
  have op: "unat ?op mod 65536 = word5 4 4 (if w = SzL then 3 else 2) 0 r"
    using ok by (intro op5_reg) (cases w; auto)+
  have q: "decode_fields 4 4 (if w = SzL then 3 else 2) 0 r z = Some (HExt w r, z)" for z
    using ok by (cases w) (auto simp: decode_fields_def line_4_def)
  have "encodes (HExt w r) st (put_text (b16 ?op) st)"
    by (rule encodes_word [OF op]) (use ok in \<open>auto simp: q\<close>)
  then show ?thesis using e by (simp add: insn_encodes_def del: oper_text.simps)
qed

fun unary_line :: "unary \<Rightarrow> nat" where
  "unary_line Un_negx = 0" | "unary_line Un_clr = 1" | "unary_line Un_neg = 2" | "unary_line Un_not = 3" | "unary_line Un_tst = 5"

lemma unary_field: "push_bit 8 (unary_high (unary_text u)) OR e = (push_bit 12 4 OR push_bit 9 (of_nat (unary_line u)) OR e :: u32)"
  by (cases u) (simp_all add: unary_high_def flip: or.assoc)

lemma enc_HUnary: "hw_ok (HUnary u w d) \<Longrightarrow> roomy st \<Longrightarrow> insn_encodes (HUnary u w d) st"
proof -
  assume ok: "hw_ok (HUnary u w d)" and rm: "roomy st"
  have p: "parse_ea (Some (oper_text d)) (w_bytes w) = Inr (ea_of w d)" using ok by (auto intro!: parse_oper simp del: oper_text.simps)
  let ?op = "push_bit 12 4 OR push_bit 9 (of_nat (unary_line u)) OR push_bit 6 (std_size_field (w_bytes w)) OR ea_field (ea_of w d) :: u32"
  have b: "is_unary (unary_text u)" "\<not> is_arith (unary_text u)" "unary_text u \<notin> set [''move'', ''movea'', ''moveq'', ''lea'', ''adda'', ''suba'', ''addq'', ''subq'', ''addx'', ''subx'', ''andi'', ''ori'', ''eori'', ''ext'']"
    by (cases u; simp add: is_unary_def is_arith_def)+
  have e: "encode_insn (sized (unary_text u) w) (Some (oper_text d)) None st = Inr (emit_ext (ea_of w d) (put_text (b16 ?op) st))"
    using b by (simp add: encode_insn_def split_sized with1_def p unary_field del: oper_text.simps)
  have op: "unat ?op mod 65536 = word5 4 (unary_line u) (size_num w) (mode_of d) (regf_of d)"
    using ok size_num_bound [of w] by (intro op5_ea) (cases u; auto simp: unat_small)+
  have q: "decode_fields 4 (unary_line u) (size_num w) m b z = ea_then w m b z (HUnary u w)" for m b z
    using size_num_bound [of w] by (cases u) (auto simp: decode_fields_def line_4_def)
  have "unary_line u < 8" by (cases u) auto
  then have "encodes (HUnary u w (clean_oper d)) st (emit_ext (ea_of w d) (put_text (b16 ?op) st))"
    by (intro encodes_ea [OF op]) (use ok rm size_num_bound [of w] in \<open>auto simp: roomy_small q\<close>)
  then show ?thesis using e by (simp add: insn_encodes_def del: oper_text.simps)
qed

text \<open>Shifts: the direction, and the type and the form.\<close>

fun shift_dir :: "shift \<Rightarrow> nat" where "shift_dir Sh_asl = 1" | "shift_dir Sh_lsr = 0" | "shift_dir Sh_asr = 0"

fun shift_type :: "shift \<Rightarrow> nat" where "shift_type Sh_asl = 0" | "shift_type Sh_lsr = 1" | "shift_type Sh_asr = 0"

lemma enc_shift_word:
  assumes "unat cnt = c" "c < 8" "ir < 2" "r < 8"
  shows "unat (enc_shift (shift_base sh) (w_bytes w) cnt (of_nat ir) (of_nat r)) mod 65536 =
    word5 14 c (shift_dir sh * 4 + size_num w) (ir * 4 + shift_type sh) r"
proof -
  have x: "push_bit 8 d OR push_bit 6 s OR e = (push_bit 6 (push_bit 2 d OR s) OR e :: u32)"
    "push_bit 5 d OR push_bit 3 s OR e = (push_bit 3 (push_bit 2 d OR s) OR e :: u32)" for d s e
    by (simp_all add: push_bit_or or.assoc)
  let ?d = "(if take 2 (tl (shift_base sh)) = ''sl'' then 1 else 0) :: u32"
  let ?t = "(if cur_char (shift_base sh) = CHR ''a'' then 0 else 1) :: u32"
  have e: "enc_shift (shift_base sh) (w_bytes w) cnt (of_nat ir) (of_nat r) =
      push_bit 12 0xE OR push_bit 9 cnt OR push_bit 6 (push_bit 2 ?d OR std_size_field (w_bytes w)) OR
      push_bit 3 (push_bit 2 (of_nat ir) OR ?t) OR of_nat r"
    unfolding enc_shift_def x ..
  have m: "unat (push_bit 2 ?d OR std_size_field (w_bytes w)) = shift_dir sh * 4 + size_num w"
    by (cases sh; cases w) (simp_all add: std_size_field_def size_num_def)
  have a: "unat (push_bit 2 (of_nat ir) OR ?t) = ir * 4 + shift_type sh"
  proof -
    have "ir = 0 \<or> ir = 1" using assms(3) by auto
    then show ?thesis by (cases sh) (auto simp: cur_char_def)
  qed
  have b: "shift_dir sh * 4 + size_num w < 8" "ir * 4 + shift_type sh < 8"
    using size_num_bound [of w] assms(3) by (cases sh; simp)+
  show ?thesis unfolding e by (rule op5_reg [OF _ assms(1) m _ assms(2) b(1) assms(4) a b(2)]) simp_all
qed

lemma decode_shift:
  assumes "c < 8" "ir < 2" "r < 8"
  shows "decode_fields 14 c (shift_dir sh * 4 + size_num w) (ir * 4 + shift_type sh) r z =
    Some (if ir = 1 then HShiftR sh w c r else HShiftI sh w (if c = 0 then 8 else c) r, z)"
proof -
  have "ir = 0 \<or> ir = 1" using assms by auto
  then show ?thesis using size_num_bound [of w] by (cases sh) (auto simp: decode_fields_def line_E_def)
qed

lemma shift_words: "is_shift (shift_base sh)" "\<not> is_arith (shift_base sh)" "\<not> is_unary (shift_base sh)"
  "shift_base sh \<notin> set [''move'', ''movea'', ''moveq'', ''lea'', ''adda'', ''suba'', ''addq'', ''subq'', ''addx'', ''subx'', ''andi'', ''ori'', ''eori'', ''ext'']"
  by (cases sh; simp add: is_shift_def is_unary_def is_arith_def)+

lemma enc_HShiftI: "hw_ok (HShiftI sh w n r) \<Longrightarrow> roomy st \<Longrightarrow> insn_encodes (HShiftI sh w n r) st"
proof -
  assume ok: "hw_ok (HShiftI sh w n r)" and rm: "roomy st"
  have p: "parse_ea (Some (oper_text (ODn r))) (w_bytes w) = Inr (ea_of w (ODn r))" using ok by (auto intro!: parse_dn simp del: oper_text.simps)
  have i: "parse_num (show_int (int n)) = of_int (int n)" using ok by (intro parse_show_int) auto
  let ?op = "enc_shift (shift_base sh) (w_bytes w) (of_nat n AND 7) (of_nat 0) (of_nat r)"
  have e: "encode_insn (sized (shift_base sh) w) (Some (CHR ''#'' # show_int (int n))) (Some (oper_text (ODn r))) st = Inr (put_text (b16 ?op) st)"
    using shift_words [of sh] ucast_int [of "int n"] by (simp add: encode_insn_def split_sized p i cur_char_def del: oper_text.simps)
  have "\<forall>n \<in> set [1..<9]. unat (of_nat n AND 7 :: u32) = n mod 8" by code_simp
  then have u: "unat (of_nat n AND 7 :: u32) = n mod 8" using ok by simp
  have op: "unat ?op mod 65536 = word5 14 (n mod 8) (shift_dir sh * 4 + size_num w) (0 * 4 + shift_type sh) r"
    by (rule enc_shift_word [OF u]) (use ok in simp_all)
  have "n mod 8 = (if n = 8 then 0 else n)" using ok by auto
  then have q: "decode_fields 14 (n mod 8) (shift_dir sh * 4 + size_num w) (0 * 4 + shift_type sh) r z = Some (HShiftI sh w n r, z)" for z
    using ok by (subst decode_shift) auto
  have "encodes (HShiftI sh w n r) st (put_text (b16 ?op) st)"
    by (rule encodes_word [OF op _ _ _ _ _ q]) (use ok size_num_bound [of w] in \<open>cases sh; auto\<close>)+
  then show ?thesis using e by (simp add: insn_encodes_def del: oper_text.simps)
qed

lemma enc_HShiftR: "hw_ok (HShiftR sh w c r) \<Longrightarrow> roomy st \<Longrightarrow> insn_encodes (HShiftR sh w c r) st"
proof -
  assume ok: "hw_ok (HShiftR sh w c r)" and rm: "roomy st"
  have p: "parse_ea (Some (oper_text (ODn r))) (w_bytes w) = Inr (ea_of w (ODn r))" "parse_ea (Some (oper_text (ODn c))) (w_bytes w) = Inr (ea_of w (ODn c))"
    using ok by (auto intro!: parse_dn simp del: oper_text.simps)
  let ?op = "enc_shift (shift_base sh) (w_bytes w) (of_nat c) (of_nat 1) (of_nat r)"
  have h: "cur_char (oper_text (ODn c)) \<noteq> CHR ''#''" by (simp add: cur_char_def)
  have e: "encode_insn (sized (shift_base sh) w) (Some (oper_text (ODn c))) (Some (oper_text (ODn r))) st = Inr (put_text (b16 ?op) st)"
    using shift_words [of sh] h by (simp add: encode_insn_def split_sized p with1_def del: oper_text.simps)
  have op: "unat ?op mod 65536 = word5 14 c (shift_dir sh * 4 + size_num w) (1 * 4 + shift_type sh) r"
    by (rule enc_shift_word) (use ok in \<open>simp_all add: unat_small\<close>)
  have q: "decode_fields 14 c (shift_dir sh * 4 + size_num w) (1 * 4 + shift_type sh) r z = Some (HShiftR sh w c r, z)" for z
    using ok by (subst decode_shift) auto
  have "encodes (HShiftR sh w c r) st (put_text (b16 ?op) st)"
    by (rule encodes_word [OF op _ _ _ _ _ q]) (use ok size_num_bound [of w] in \<open>cases sh; auto\<close>)+
  then show ?thesis using e by (simp add: insn_encodes_def del: oper_text.simps)
qed

end
