(* ===== verification/Asm_Insn.thy ===== *)
theory Asm_Insn
  imports Asm_Roundtrip
begin

text \<open>
  The remaining instructions, and the round trip of an instruction, of a line and of a sequence of lines: the
  bytes, relocations and fixups that the assembler appends decode to the instructions that were printed.
\<close>

lemma enc_jump:
  fixes k :: nat and f :: "oper \<Rightarrow> hw"
  assumes ok: "oper_ok SzL s" "control s" and rm: "roomy st"
    and k: "k = 2 \<and> f = HJsr \<and> v = 0x80 \<or> k = 3 \<and> f = HJmp \<and> v = 0xC0"
  shows "encodes (f (clean_oper s)) st (emit_ext (ea_of SzL s) (put_text (b16 (push_bit 8 0x4E OR v OR ea_field (ea_of SzL s))) st))"
proof -
  let ?op = "push_bit 12 4 OR push_bit 9 7 OR push_bit 6 (of_nat k) OR ea_field (ea_of SzL s) :: u32"
  have e: "push_bit 8 0x4E OR v OR ea_field (ea_of SzL s) = ?op"
    using k field_consts(9,10) [of "ea_field (ea_of SzL s)"] by auto
  have op: "unat ?op mod 65536 = word5 4 7 k (mode_of s) (regf_of s)"
    using ok k by (intro op5_ea) auto
  have q: "decode_fields 4 7 k m b z = ea_then SzL m b z f" for m b z
    using k by (auto simp: decode_fields_def line_4_def)
  show ?thesis unfolding e by (rule encodes_ea [OF op]) (use ok rm k in \<open>auto simp: roomy_small q\<close>)
qed

lemma enc_HJsr: "hw_ok (HJsr s) \<Longrightarrow> roomy st \<Longrightarrow> insn_encodes (HJsr s) st"
proof -
  assume ok: "hw_ok (HJsr s)" and rm: "roomy st"
  have p: "parse_ea (Some (oper_text s)) 4 = Inr (ea_of SzL s)" using ok by (auto intro!: parse_oper4 simp del: oper_text.simps)
  have e: "encode_insn ''jsr'' (Some (oper_text s)) None st =
      Inr (emit_ext (ea_of SzL s) (put_text (b16 (push_bit 8 0x4E OR 0x80 OR ea_field (ea_of SzL s))) st))"
    by (simp add: encode_insn_def split_size_def is_arith_def is_unary_def is_shift_def with1_def p del: oper_text.simps)
  show ?thesis using e enc_jump [of s st 2 HJsr "0x80"] ok rm unfolding insn_encodes_def by auto
qed

lemma enc_HJmp: "hw_ok (HJmp s) \<Longrightarrow> roomy st \<Longrightarrow> insn_encodes (HJmp s) st"
proof -
  assume ok: "hw_ok (HJmp s)" and rm: "roomy st"
  have p: "parse_ea (Some (oper_text s)) 4 = Inr (ea_of SzL s)" using ok by (auto intro!: parse_oper4 simp del: oper_text.simps)
  have e: "encode_insn ''jmp'' (Some (oper_text s)) None st =
      Inr (emit_ext (ea_of SzL s) (put_text (b16 (push_bit 8 0x4E OR 0xC0 OR ea_field (ea_of SzL s))) st))"
    by (simp add: encode_insn_def split_size_def is_arith_def is_unary_def is_shift_def with1_def p del: oper_text.simps)
  show ?thesis using e enc_jump [of s st 3 HJmp "0xC0"] ok rm unfolding insn_encodes_def by auto
qed

lemma enc_HLink: "hw_ok (HLink r n) \<Longrightarrow> roomy st \<Longrightarrow> insn_encodes (HLink r n) st"
proof -
  assume ok: "hw_ok (HLink r n)" and rm: "roomy st"
  have p: "parse_ea (Some (oper_text (OAn r))) 4 = Inr (ea_of SzL (OAn r))" using ok by (auto intro!: parse_oper4 simp del: oper_text.simps)
  have i: "parse_num (show_int n) = of_int n" using ok by (intro parse_show_int) auto
  let ?op = "push_bit 12 4 OR push_bit 9 7 OR push_bit 6 1 OR push_bit 3 2 OR of_nat r :: u32"
  have e: "encode_insn ''link'' (Some (oper_text (OAn r))) (Some (CHR ''#'' # show_int n)) st = Inr (put_text (b16 ?op @ b16 (of_int n AND 0xFFFF)) st)"
    unfolding field_consts(11) [symmetric]
    by (simp add: encode_insn_def split_size_def is_arith_def is_unary_def is_shift_def skip1_def p i ucast_int del: oper_text.simps)
  have op: "unat ?op mod 65536 = word5 4 7 1 2 r" using ok by (intro op5_reg) auto
  have "encodes (HLink r n) st (put_text (b16 ?op @ b16 (of_int n AND 0xFFFF)) st)"
    by (rule encodes_word2 [OF op]) (use ok in \<open>auto simp: decode_fields_def line_4_def\<close>)
  then show ?thesis using e by (simp add: insn_encodes_def del: oper_text.simps)
qed

lemma enc_HUnlk: "hw_ok (HUnlk r) \<Longrightarrow> roomy st \<Longrightarrow> insn_encodes (HUnlk r) st"
proof -
  assume ok: "hw_ok (HUnlk r)" and rm: "roomy st"
  have p: "parse_ea (Some (oper_text (OAn r))) 4 = Inr (ea_of SzL (OAn r))" using ok by (auto intro!: parse_oper4 simp del: oper_text.simps)
  let ?op = "push_bit 12 4 OR push_bit 9 7 OR push_bit 6 1 OR push_bit 3 3 OR of_nat r :: u32"
  have e: "encode_insn ''unlk'' (Some (oper_text (OAn r))) None st = Inr (put_text (b16 ?op) st)"
    unfolding field_consts(12) [symmetric]
    by (simp add: encode_insn_def split_size_def is_arith_def is_unary_def is_shift_def with1_def p del: oper_text.simps)
  have op: "unat ?op mod 65536 = word5 4 7 1 3 r" using ok by (intro op5_reg) auto
  have "encodes (HUnlk r) st (put_text (b16 ?op) st)"
    by (rule encodes_word [OF op]) (use ok in \<open>auto simp: decode_fields_def line_4_def\<close>)
  then show ?thesis using e by (simp add: insn_encodes_def del: oper_text.simps)
qed

lemmas plain_mnemonic = encode_insn_def encode_rest_def split_size_def is_arith_def is_unary_def is_shift_def

lemma enc_HRts: "insn_encodes HRts st" "insn_encodes HNop st"
proof -
  have "encode_insn ''rts'' (Some []) None st = Inr (put_text (b16 0x4E75) st)" "encode_insn ''nop'' (Some []) None st = Inr (put_text (b16 0x4E71) st)"
    by (simp_all add: plain_mnemonic)
  moreover have "encodes HRts st (put_text (b16 0x4E75) st)"
    by (rule encodes_word [of _ 4 7 1 6 5]) (simp_all add: word5_def decode_fields_def line_4_def)
  moreover have "encodes HNop st (put_text (b16 0x4E71) st)"
    by (rule encodes_word [of _ 4 7 1 6 1]) (simp_all add: word5_def decode_fields_def line_4_def)
  ultimately show "insn_encodes HRts st" "insn_encodes HNop st" by (simp_all add: insn_encodes_def)
qed

lemma conds_list: "[0..<16] = [0, 1, 2, 3, 4, 5, 6, 7, 8, 9, 10, 11, 12, 13, 14, 15 :: nat]"
  by code_simp

lemma all_conds: "list_all P [0..<16] \<Longrightarrow> c < 16 \<Longrightarrow> P c"
  by (simp add: list_all_iff)

lemma cond_words: "c < 16 \<Longrightarrow> unat (push_bit 12 6 OR push_bit 8 (of_nat c) :: u32) mod 65536 = word5 6 (c div 2) (c mod 2 * 4) 0 0"
proof -
  assume c: "c < 16"
  let ?P = "\<lambda>c. unat (push_bit 12 6 OR push_bit 8 (of_nat c) :: u32) mod 65536 = word5 6 (c div 2) (c mod 2 * 4) 0 0"
  have "list_all ?P [0..<16]" unfolding conds_list by (simp add: word5_def)
  then show ?thesis using all_conds [of ?P c] c by simp
qed

lemma cond_branch:
  assumes "c < 16" "c \<noteq> 1"
  shows "enc_branch (cond_text c) o1 st = (case o1 of None \<Rightarrow> Inl Null_operand
       | Some l \<Rightarrow> (let st' = put_text (b16 (push_bit 12 6 OR push_bit 8 (of_nat c))) st
            in Inr (put_text (b16 0) (add_fixup (text_len st') (trim l) st'))))"
    "encode_insn (CHR ''b'' # cond_text c) o1 None st = enc_branch (cond_text c) o1 st"
proof -
  have "list_all (\<lambda>c. c = 1 \<or> cond_code (cond_text c) = Inr (of_nat c) \<and> length (cond_text c) = 2) [0..<16]"
    by (simp add: conds_list cond_text_def cond_code_def cond_names_def)
  then have c: "cond_code (cond_text c) = Inr (of_nat c)" "length (cond_text c) = 2" using all_conds assms by blast+
  show "enc_branch (cond_text c) o1 st = (case o1 of None \<Rightarrow> Inl Null_operand
       | Some l \<Rightarrow> (let st' = put_text (b16 (push_bit 12 6 OR push_bit 8 (of_nat c))) st
            in Inr (put_text (b16 0) (add_fixup (text_len st') (trim l) st'))))"
    by (simp add: enc_branch_def c)
  obtain x y where xy: "cond_text c = [x, y]" using c(2) by (auto simp: length_Suc_conv numeral_2_eq_2)
  have "list_all (\<lambda>c. cond_text c = ''ra'' \<longleftrightarrow> c = 0) [0..<16]" by (simp add: conds_list cond_text_def)
  then have z: "cond_text c = ''ra'' \<longleftrightarrow> c = 0" using all_conds assms by blast
  have "list_all (\<lambda>c. hd (cond_text c) \<noteq> CHR ''.'') [0..<16]" by (simp add: conds_list cond_text_def)
  then have "hd (cond_text c) \<noteq> CHR ''.''" using all_conds assms by blast
  then have s: "split_size (CHR ''b'' # cond_text c) = (CHR ''b'' # cond_text c, 0)" using xy by (simp add: split_size_def)
  show "encode_insn (CHR ''b'' # cond_text c) o1 None st = enc_branch (cond_text c) o1 st"
    using xy s by (auto simp: plain_mnemonic cur_char_def)
qed

lemma name_solid: "good_name l \<Longrightarrow> trim l = l"
  by (auto intro: trim_solid good_name_props)

lemma enc_HBcc: "hw_ok (HBcc c l) \<Longrightarrow> roomy st \<Longrightarrow> insn_encodes (HBcc c l) st"
proof -
  assume ok: "hw_ok (HBcc c l)" and rm: "roomy st"
  let ?op = "push_bit 12 6 OR push_bit 8 (of_nat c) :: u32"
  let ?r = "let st' = put_text (b16 ?op) st in put_text (b16 0) (add_fixup (text_len st') l st')"
  have e: "encode_insn (CHR ''b'' # cond_text c) (Some l) None st = Inr ?r"
    using ok cond_branch [of c "Some l" st] by (simp add: name_solid Let_def)
  have op: "unat ?op mod 65536 = word5 6 (c div 2) (c mod 2 * 4) 0 0" using ok by (intro cond_words) simp
  have "2 * (c div 2) + c mod 2 * 4 div 4 = c" by simp
  then have "encodes (HBcc c l) st ?r"
    by (intro encodes_branch [OF op]) (use ok rm in \<open>auto simp: roomy_small decode_fields_def line_6_def\<close>)
  then show ?thesis using e by (simp add: insn_encodes_def)
qed

lemma enc_HDbra: "hw_ok (HDbra r l) \<Longrightarrow> roomy st \<Longrightarrow> insn_encodes (HDbra r l) st"
proof -
  assume ok: "hw_ok (HDbra r l)" and rm: "roomy st"
  have p: "parse_ea (Some (oper_text (ODn r))) 2 = Inr (ea_of SzW (ODn r))"
    using ok parse_oper [of SzW "ODn r"] by (simp del: oper_text.simps)
  let ?op = "push_bit 12 5 OR push_bit 9 0 OR push_bit 6 7 OR push_bit 3 1 OR of_nat r :: u32"
  let ?r = "let st' = put_text (b16 ?op) st in put_text (b16 0) (add_fixup (text_len st') l st')"
  have e: "encode_insn ''dbra'' (Some (oper_text (ODn r))) (Some l) st = Inr ?r"
    unfolding field_consts(13) [symmetric]
    using ok by (simp add: plain_mnemonic p name_solid cur_char_def Let_def del: oper_text.simps)
  have op: "unat ?op mod 65536 = word5 5 0 7 1 r" using ok by (intro op5_reg) auto
  have "encodes (HDbra r l) st ?r"
    by (rule encodes_branch [OF op]) (use ok rm in \<open>auto simp: roomy_small decode_fields_def line_5_def\<close>)
  then show ?thesis using e by (simp add: insn_encodes_def del: oper_text.simps)
qed

lemma set_word:
  assumes "c < 16" "oper_ok w x"
  shows "unat (push_bit 12 5 OR push_bit 8 (of_nat c) OR push_bit 6 3 OR ea_field (ea_of w x) :: u32) mod 65536 =
    word5 5 (c div 2) (c mod 2 * 4 + 3) (mode_of x) (regf_of x)"
proof -
  let ?e = "ea_field (ea_of w x)"
  note b = mode_bounds(1) [of x] mode_bounds(2) [OF assms(2)]
  have e: "unat ?e = mode_of x * 8 + regf_of x" by (rule unat_ea_field [OF assms(2)])
  then have e': "unat ?e < 64" using b by simp
  have m: "unat (push_bit 6 3 OR ?e) = 192 + unat ?e" using or_field [of ?e 6 3] e' by simp
  have r: "unat (push_bit 8 (of_nat c) OR push_bit 6 3 OR ?e) = c * 256 + (192 + unat ?e)"
    by (subst or_field) (use m e' assms(1) in \<open>simp_all add: unat_small\<close>)
  have "unat (push_bit 12 5 OR push_bit 8 (of_nat c) OR push_bit 6 3 OR ?e) = 5 * 4096 + (c * 256 + (192 + unat ?e))"
    by (subst or_field) (use m r e' assms(1) in simp_all)
  moreover obtain q p where c: "c = 2 * q + p" "p < 2" using mod_less_divisor [of 2 c] by (metis mult_div_mod_eq zero_less_numeral)
  moreover have "c div 2 = q" "c mod 2 = p" using c by simp_all
  moreover have "5 * 4096 + (c * 256 + (192 + unat ?e)) < 65536" using e' assms(1) by linarith
  ultimately show ?thesis unfolding e word5_def by (simp add: algebra_simps)
qed

definition set_text :: "nat \<Rightarrow> string" where "set_text c = (if c = 4 then ''hs'' else cond_text c)"

lemma set_mnemonic:
  assumes "2 \<le> c" "c < 16"
  shows "encode_insn (CHR ''s'' # set_text c) o1 None st =
    with1 o1 1 (\<lambda>d. put_text (b16 (push_bit 12 5 OR push_bit 8 (of_nat c) OR push_bit 6 3 OR ea_field d)) st)"
proof -
  let ?P = "\<lambda>c. c < 2 \<or> cond_code (set_text c) = Inr (of_nat c) \<and> length (set_text c) = 2 \<and> hd (set_text c) \<noteq> CHR ''.'' \<and> set_text c \<notin> set [''ub'']"
  have "list_all ?P [0..<16]" by (simp add: conds_list cond_text_def set_text_def cond_code_def cond_names_def)
  then have c: "cond_code (set_text c) = Inr (of_nat c)" "length (set_text c) = 2" "hd (set_text c) \<noteq> CHR ''.''" "set_text c \<noteq> ''ub''"
    using all_conds [of ?P c] assms by auto
  obtain x y where xy: "set_text c = [x, y]" using c(2) by (auto simp: length_Suc_conv numeral_2_eq_2)
  have s: "split_size (CHR ''s'' # set_text c) = (CHR ''s'' # set_text c, 0)" using xy c(3) by (simp add: split_size_def)
  show ?thesis using xy s c(1,4) by (auto simp: plain_mnemonic cur_char_def)
qed

lemma enc_HScc: "hw_ok (HScc c d) \<Longrightarrow> roomy st \<Longrightarrow> insn_encodes (HScc c d) st"
proof -
  assume ok: "hw_ok (HScc c d)" and rm: "roomy st"
  have p: "parse_ea (Some (oper_text d)) 1 = Inr (ea_of SzB d)" using ok parse_oper [of SzB d] by simp
  let ?op = "push_bit 12 5 OR push_bit 8 (of_nat c) OR push_bit 6 3 OR ea_field (ea_of SzB d) :: u32"
  have x: "emit_ext (ea_of SzB d) (put_text (b16 ?op) st) = put_text (b16 ?op) st"
    using ok by (cases d) (simp_all add: emit_ext_def ea_of_def put_text_def)
  have e: "encode_insn (CHR ''s'' # set_text c) (Some (oper_text d)) None st = Inr (put_text (b16 ?op) st)"
    using ok by (simp add: set_mnemonic with1_def p del: One_nat_def)
  have op: "unat ?op mod 65536 = word5 5 (c div 2) (c mod 2 * 4 + 3) (mode_of d) (regf_of d)" using ok by (intro set_word) auto
  have m: "(c mod 2 * 4 + 3) div 4 = c mod 2" "(c mod 2 * 4 + 3) mod 4 = 3" "2 * (c div 2) + c mod 2 = c" by simp_all
  have q: "decode_fields 5 (c div 2) (c mod 2 * 4 + 3) (mode_of d) (regf_of d) z = ea_then SzB (mode_of d) (regf_of d) z (HScc c)" for z
    using ok m by (cases d) (simp_all add: decode_fields_def line_5_def)
  have b: "(5 :: nat) < 16" "c div 2 < 8" "c mod 2 * 4 + 3 < 8" using ok by auto
  have "encodes (HScc c (clean_oper d)) st (emit_ext (ea_of SzB d) (put_text (b16 ?op) st))"
    by (rule encodes_ea [OF op b]) (use ok rm q in \<open>auto simp: roomy_small\<close>)
  then show ?thesis using e x by (simp add: insn_encodes_def set_text_def)
qed

lemma enc_all: "hw_ok i \<Longrightarrow> roomy st \<Longrightarrow> insn_encodes i st"
  by (cases i) (simp_all only: enc_HMove enc_HMoveq enc_HLea enc_HArith enc_HArithI enc_HEor enc_HAdda enc_HQuick enc_HAddx enc_HExt enc_HUnary
    enc_HShiftI enc_HShiftR enc_HJsr enc_HJmp enc_HLink enc_HUnlk enc_HRts enc_HBcc enc_HDbra enc_HScc)

section \<open>A line\<close>

definition hw_line :: "hw \<Rightarrow> string" where
  "hw_line i = (case hw_parts i of (m, ops) \<Rightarrow>
     ''  '' @ m @ (case ops of [] \<Rightarrow> [] | [a] \<Rightarrow> CHR '' '' # a | a # b # _ \<Rightarrow> CHR '' '' # a @ '','' @ b))"

text \<open>A text without blanks, colons and commas outside parentheses.\<close>

definition word_text :: "string \<Rightarrow> bool" where
  "word_text a \<longleftrightarrow> solid a \<and> a \<noteq> [] \<and> CHR '':'' \<notin> set a \<and>
     (\<forall>s. split_operands 0 (a @ s) = (case split_operands 0 s of (x, y) \<Rightarrow> (a @ x, y)))"

lemma split_plain: "CHR '','' \<notin> set a \<Longrightarrow> CHR ''('' \<notin> set a \<Longrightarrow> CHR '')'' \<notin> set a \<Longrightarrow>
    split_operands k (a @ s) = (case split_operands k s of (x, y) \<Rightarrow> (a @ x, y))"
  by (induction a) (auto split: prod.splits)

lemma split_inside:
  assumes "CHR ''('' \<notin> set a" "CHR '')'' \<notin> set a"
  shows "0 < k \<Longrightarrow> split_operands k (a @ s) = (case split_operands k s of (x, y) \<Rightarrow> (a @ x, y))"
  using assms by (induction a) (auto split: prod.splits)

lemma split_group:
  assumes "CHR ''('' \<notin> set a" "CHR '')'' \<notin> set a" "CHR '','' \<notin> set u" "CHR ''('' \<notin> set u" "CHR '')'' \<notin> set u"
  shows "split_operands 0 (u @ ''('' @ a @ '')'' @ s) = (case split_operands 0 s of (x, y) \<Rightarrow> (u @ ''('' @ a @ '')'' @ x, y))"
  using assms by (simp add: split_plain split_inside split: prod.splits)

lemma word_plain: "solid a \<Longrightarrow> a \<noteq> [] \<Longrightarrow> CHR '':'' \<notin> set a \<Longrightarrow> CHR '','' \<notin> set a \<Longrightarrow> CHR ''('' \<notin> set a \<Longrightarrow> CHR '')'' \<notin> set a \<Longrightarrow> word_text a"
  by (simp add: word_text_def split_plain)

lemma word_alone: "word_text a \<Longrightarrow> split_operands 0 a = (a, None)"
  unfolding word_text_def by (metis append_Nil2 case_prod_conv split_operands.simps(1))

lemma name_word: "good_name n \<Longrightarrow> word_text n"
proof -
  assume g: "good_name n"
  have "\<not> name_char (CHR '':'')" by (simp add: name_char_def is_alpha_def is_lower_def is_digit_def)
  then have "CHR '':'' \<notin> set n" using g unfolding good_name_def by blast
  then show ?thesis by (rule word_plain [OF good_name_props(4,1) [OF g]]) (simp_all add: good_name_props(3) [OF g])
qed

lemma show_int_word: "CHR '':'' \<notin> set (show_int k)" "CHR '','' \<notin> set (show_int k)" "CHR ''('' \<notin> set (show_int k)" "CHR '')'' \<notin> set (show_int k)"
proof -
  have "\<not> is_digit (CHR '':'')" by (simp add: is_digit_def)
  then show "CHR '':'' \<notin> set (show_int k)" using show_int_chars [of "CHR '':''" k] by auto
qed (simp_all add: show_int_no)

lemma show_sgn_word: "solid (show_sgn k)" "CHR '':'' \<notin> set (show_sgn k)" "CHR '','' \<notin> set (show_sgn k)" "CHR ''('' \<notin> set (show_sgn k)" "CHR '')'' \<notin> set (show_sgn k)"
  using show_int_word [of k] by (simp_all add: show_sgn_def blank_def)

lemma imm_word: "word_text (CHR ''#'' # show_int k)"
  using show_int_word [of k] by (intro word_plain) (auto simp: blank_def)

lemma dn_word: "word_text (CHR ''d'' # show_nat r)"
  using show_int_word [of "int r"] by (intro word_plain) (auto simp: blank_def show_int_def)

lemma append_word: "word_text a \<Longrightarrow> solid b \<Longrightarrow> CHR '':'' \<notin> set b \<Longrightarrow> CHR '','' \<notin> set b \<Longrightarrow> CHR ''('' \<notin> set b \<Longrightarrow> CHR '')'' \<notin> set b \<Longrightarrow> word_text (a @ b)"
  by (auto simp: word_text_def split_plain split: prod.splits)

lemma group_word:
  assumes "solid u" "solid a" "CHR '':'' \<notin> set (u @ a)" "CHR ''('' \<notin> set a" "CHR '')'' \<notin> set a" "CHR '','' \<notin> set u" "CHR ''('' \<notin> set u" "CHR '')'' \<notin> set u"
  shows "word_text (u @ ''('' @ a @ '')'')"
  using assms split_group [OF assms(4-8)] by (auto simp: word_text_def blank_def)

lemma areg_word: "r < 8 \<Longrightarrow> list_all (\<lambda>c. c \<notin> set ''():,'') (areg_text r) \<and> solid (areg_text r) \<and> areg_text r \<noteq> []"
proof -
  have "\<forall>r \<in> set [0..<8]. list_all (\<lambda>c. c \<notin> set ''():,'') (areg_text r) \<and> areg_text r \<noteq> []" by code_simp
  then show "r < 8 \<Longrightarrow> ?thesis" using areg_props [of r] plain_solid by auto
qed

lemma reg_word: "i < 16 \<Longrightarrow> list_all (\<lambda>c. c \<notin> set ''():,'') (reg_text i) \<and> solid (reg_text i)"
proof -
  have "\<forall>r \<in> set [0..<16]. list_all (\<lambda>c. c \<notin> set ''():,'') (reg_text r)" by code_simp
  then show "i < 16 \<Longrightarrow> ?thesis" using index_props [of i] plain_solid by auto
qed

lemma oper_word:
  assumes "oper_ok w x"
  shows "word_text (oper_text x)"
proof (cases x)
  case (OIdx r i)
  have "word_text ([] @ ''('' @ (areg_text r @ '','' @ reg_text i @ ''.l'') @ '')'')"
    using assms OIdx areg_word [of r] reg_word [of i] by (intro group_word) (auto simp: list_all_iff blank_def)
  then show ?thesis using OIdx by simp
next
  case (OInd r)
  have "word_text ([] @ ''('' @ areg_text r @ '')'')" using assms OInd areg_word [of r] by (intro group_word) (auto simp: list_all_iff)
  then show ?thesis using OInd by simp
next
  case (OPost r)
  have "word_text (([] @ ''('' @ areg_text r @ '')'') @ ''+'')"
    using assms OPost areg_word [of r] by (intro append_word [OF group_word]) (auto simp: list_all_iff blank_def)
  then show ?thesis using OPost by simp
next
  case (OPre r)
  have "word_text (''-'' @ ''('' @ areg_text r @ '')'')" using assms OPre areg_word [of r] by (intro group_word) (auto simp: list_all_iff blank_def)
  then show ?thesis using OPre by simp
next
  case (ODisp d r)
  have "word_text (show_int d @ ''('' @ areg_text r @ '')'')"
    using assms ODisp areg_word [of r] show_int_word [of d] by (intro group_word) (auto simp: list_all_iff)
  then show ?thesis using ODisp by simp
next
  case (OAn r)
  then show ?thesis using assms areg_word [of r] by (auto intro!: word_plain simp: list_all_iff)
next
  case (OAbs n k)
  have "word_text (n @ show_sgn k)"
    using assms OAbs by (intro append_word name_word show_sgn_word) simp
  then show ?thesis using assms OAbs name_word by simp
qed (use imm_word dn_word in auto)

text \<open>The mnemonics.\<close>

definition mnemonic :: "string \<Rightarrow> bool" where
  "mnemonic m \<longleftrightarrow> m \<noteq> [] \<and> is_lower (cur_char m) \<and> list_all (\<lambda>c. is_lower c \<or> c = CHR ''.'') m \<and>
     \<not> starts (upper7 m) ''DS.'' \<and> \<not> starts (upper7 m) ''DC.''"

definition sized_words :: "string list" where
  "sized_words = [''move'', ''movea'', ''or'', ''and'', ''sub'', ''add'', ''eor'', ''cmp'', ''suba'', ''adda'', ''subq'', ''addq'', ''subx'', ''addx'',
      ''ext'', ''negx'', ''clr'', ''neg'', ''not'', ''tst'', ''asl'', ''lsr'', ''asr'']"

lemma upper_lower:
  "is_lower c \<Longrightarrow> toupper c \<noteq> CHR ''.''" "is_lower c \<Longrightarrow> toupper c = CHR ''D'' \<Longrightarrow> c = CHR ''d''"
proof -
  have a: "list_all (\<lambda>c. toupper c \<noteq> CHR ''.'' \<and> (toupper c = CHR ''D'' \<longrightarrow> c = CHR ''d'')) ''abcdefghijklmnopqrstuvwxyz''"
    by (simp add: toupper_def char_of_def)
  show "is_lower c \<Longrightarrow> toupper c \<noteq> CHR ''.''" "is_lower c \<Longrightarrow> toupper c = CHR ''D'' \<Longrightarrow> c = CHR ''d''"
    using a unfolding is_lower_def list_all_iff by blast+
qed

lemma mnemonic_lower:
  assumes "list_all is_lower m" "m \<noteq> []"
  shows "mnemonic m"
proof -
  have "\<not> starts (upper7 m) ''DS.'' \<and> \<not> starts (upper7 m) ''DC.''"
    using assms upper_lower(1) by (cases m; cases "tl m"; cases "tl (tl m)") (auto simp: starts_def upper7_def)
  then show ?thesis using assms by (cases m) (auto simp: mnemonic_def cur_char_def list_all_iff)
qed

lemma mnemonic_sized:
  assumes "list_all is_lower m" "m \<noteq> []" "hd m \<noteq> CHR ''d''"
  shows "mnemonic (sized m w)"
proof -
  obtain x where x: "width_text w = [x]" "is_lower x" by (cases w) (auto simp: is_lower_def)
  have "\<not> starts (upper7 (sized m w)) ''DS.'' \<and> \<not> starts (upper7 (sized m w)) ''DC.''"
    using assms upper_lower(2) by (cases m) (auto simp: starts_def upper7_def sized_def)
  then show ?thesis using assms x by (cases m) (auto simp: mnemonic_def cur_char_def list_all_iff sized_def)
qed

lemma hw_mnemonic:
  assumes "hw_ok i"
  shows "mnemonic (fst (hw_parts i))"
proof -
  have "list_all (\<lambda>m. list_all is_lower m \<and> m \<noteq> [] \<and> hd m \<noteq> CHR ''d'') sized_words" by (simp add: sized_words_def is_lower_def)
  then have w: "mnemonic (sized m w)" if "list_ex (\<lambda>x. x = m) sized_words" for m w
    using that by (intro mnemonic_sized) (auto simp: list_ex_iff list_all_iff)
  have "list_all (\<lambda>m. list_all is_lower m \<and> m \<noteq> []) [''moveq'', ''lea'', ''jsr'', ''jmp'', ''link'', ''unlk'', ''rts'', ''nop'', ''dbra'']"
    by (simp add: is_lower_def)
  then have p: "list_all mnemonic [''moveq'', ''lea'', ''jsr'', ''jmp'', ''link'', ''unlk'', ''rts'', ''nop'', ''dbra'']"
    unfolding list_all_iff by (blast intro: mnemonic_lower [unfolded list_all_iff])
  have l: "list_all (\<lambda>c. list_all is_lower (cond_text c) \<and> list_all is_lower (set_text c)) [0..<16]"
    by (simp add: conds_list cond_text_def set_text_def is_lower_def)
  have "is_lower (CHR ''b'')" "is_lower (CHR ''s'')" by (simp_all add: is_lower_def)
  then have c: "list_all (\<lambda>c. mnemonic (CHR ''b'' # cond_text c) \<and> mnemonic (CHR ''s'' # set_text c)) [0..<16]"
    using l by (auto simp: list_all_iff intro!: mnemonic_lower [unfolded list_all_iff])
  show ?thesis
  proof (cases i)
    case (HArith a u s r) then show ?thesis using w by (cases a) (simp_all add: sized_words_def)
  next
    case (HArithI a u v d) then show ?thesis using w by (cases a) (simp_all add: sized_words_def)
  next
    case (HUnary a u d) then show ?thesis using w by (cases a) (simp_all add: sized_words_def)
  next
    case (HShiftI a u n r) then show ?thesis using w by (cases a) (simp_all add: sized_words_def)
  next
    case (HShiftR a u n r) then show ?thesis using w by (cases a) (simp_all add: sized_words_def)
  next
    case (HBcc k l) then show ?thesis using assms all_conds [OF c, of k] by simp
  next
    case (HScc k d) then show ?thesis using assms all_conds [OF c, of k] by (simp add: set_text_def)
  qed (use w p in \<open>auto simp: sized_words_def split: oper.splits\<close>)
qed

lemma hw_operands:
  assumes "hw_ok i"
  shows "list_all word_text (snd (hw_parts i)) \<and> length (snd (hw_parts i)) \<le> 2"
  using assms by (cases i) (auto simp: imm_word name_word dn_word oper_word simp del: oper_text.simps)

lemma lower_solid: "is_lower c \<or> c = CHR ''.'' \<Longrightarrow> \<not> blank c \<and> c \<noteq> CHR 0x0D \<and> c \<noteq> CHR '':''"
  by (auto simp: is_lower_def blank_def)

lemma mnemonic_props:
  assumes "mnemonic m"
  shows "solid m" "CHR '':'' \<notin> set m" "m \<noteq> []" "directive_line s m r st = None" "is_lower (cur_char m)" "cur_char m \<notin> set '';*''"
proof -
  have a: "list_all (\<lambda>c. is_lower c \<or> c = CHR ''.'') m" "m \<noteq> []" and l: "is_lower (cur_char m)" using assms by (auto simp: mnemonic_def)
  show "solid m" "CHR '':'' \<notin> set m" "m \<noteq> []" using a lower_solid by (auto simp: list_all_iff solid_def)
  show "is_lower (cur_char m)" "cur_char m \<notin> set '';*''" using l by (auto simp: is_lower_def)
  have "m \<notin> set [''.model'', ''.code'', ''.data'', ''.data?'', ''.rodata'', ''END'', ''ALIGN'', ''PUBLIC'', ''EXTERN'']"
    using l by (auto simp: cur_char_def is_lower_def)
  then show "directive_line s m r st = None" using assms by (simp add: directive_line_def mnemonic_def)
qed

lemma trim_ends:
  assumes "t \<noteq> []" "\<not> blank (hd t)" "\<not> blank (last t)" "last t \<noteq> CHR 0x0D" "list_all blank p"
  shows "trim (p @ t) = t"
proof -
  have "dropWhile blank (p @ t) = t" using assms(1,2,5) by (induction p) (auto simp: dropWhile_eq_self_iff)
  moreover have "dropWhile (\<lambda>c. blank c \<or> c = CHR 0x0D) (rev t) = rev t" using assms(1,3,4) by (simp add: dropWhile_eq_self_iff hd_rev)
  ultimately show ?thesis by (simp add: trim_def)
qed

lemma after_solid: "solid m \<Longrightarrow> dropWhile (\<lambda>c. \<not> blank c) m = []" "solid m \<Longrightarrow> first_word m = m"
  "solid m \<Longrightarrow> dropWhile (\<lambda>c. \<not> blank c) (m @ CHR '' '' # r) = CHR '' '' # r" "solid m \<Longrightarrow> first_word (m @ CHR '' '' # r) = m"
  by (auto simp: solid_def first_word_def dropWhile_append blank_def takeWhile_append)

definition first_operand :: "string list \<Rightarrow> string option" where
  "first_operand ops = Some (case ops of [] \<Rightarrow> [] | a # _ \<Rightarrow> a)"

definition second_operand :: "string list \<Rightarrow> string option" where
  "second_operand ops = (case ops of [_, b] \<Rightarrow> Some b | _ \<Rightarrow> None)"

lemma solid_last: "solid t \<Longrightarrow> t \<noteq> [] \<Longrightarrow> \<not> blank (hd t) \<and> \<not> blank (last t) \<and> last t \<noteq> CHR 0x0D"
  by (simp add: solid_def)

lemma assemble_words:
  assumes m: "mnemonic m" and ops: "list_all word_text ops" "length ops \<le> 2"
  shows "assemble_line (''  '' @ m @ (case ops of [] \<Rightarrow> [] | [a] \<Rightarrow> CHR '' '' # a | a # b # _ \<Rightarrow> CHR '' '' # a @ '','' @ b)) st =
    encode_insn m (first_operand ops) (second_operand ops) st"
proof -
  note mp = mnemonic_props [OF m]
  define r where "r = (case ops of [] \<Rightarrow> [] | [a] \<Rightarrow> a | a # b # _ \<Rightarrow> a @ '','' @ b)"
  define s where "s = m @ (if ops = [] then [] else CHR '' '' # r)"
  have solids: "solid r" "CHR '':'' \<notin> set r" "ops \<noteq> [] \<longrightarrow> r \<noteq> []"
    using ops(1) by (auto simp: r_def word_text_def blank_def split: list.splits)
  have line: "''  '' @ m @ (case ops of [] \<Rightarrow> [] | [a] \<Rightarrow> CHR '' '' # a | a # b # _ \<Rightarrow> CHR '' '' # a @ '','' @ b) = ''  '' @ s"
    by (auto simp: s_def r_def split: list.splits)
  have e: "s \<noteq> []" "hd s = hd m" "cur_char s = cur_char m" "last s = (if r = [] \<or> ops = [] then last m else last r)"
    using mp(3) solids(3) by (auto simp: s_def cur_char_def split: list.splits)
  have t: "trim (''  '' @ s) = s"
    using e solid_last [OF mp(1,3)] solid_last [OF solids(1)] by (intro trim_ends) (auto simp: blank_def)
  have colon: "last s \<noteq> CHR '':''" using mp(2,3) solids(2) e by (auto dest: last_in_set)
  have w: "first_word s = m" using mp(1) by (simp add: s_def after_solid)
  have w2: "after_word s = r"
  proof (cases "ops = []")
    case True
    then show ?thesis using mp(1) by (simp add: s_def after_word_def after_solid r_def) (simp add: trim_def)
  next
    case False
    then have "trim ('' '' @ r) = r" using solid_last [OF solids(1)] solids(3) by (intro trim_ends) (auto simp: blank_def)
    then show ?thesis using False mp(1) by (simp add: s_def after_word_def after_solid)
  qed
  have sp: "split_operands 0 r = (case first_operand ops of Some a \<Rightarrow> a, second_operand ops)"
  proof -
    consider "ops = []" | a where "ops = [a]" "word_text a" | a b where "ops = [a, b]" "word_text a"
      using ops by (cases ops; cases "tl ops") auto
    then show ?thesis
    proof cases
      case 3
      then have "split_operands 0 (a @ '','' @ b) = (a, Some b)" by (simp add: word_text_def)
      then show ?thesis using 3 by (simp add: r_def first_operand_def second_operand_def)
    qed (simp_all add: r_def first_operand_def second_operand_def word_alone)
  qed
  have tr: "trim (case first_operand ops of Some a \<Rightarrow> a) = (case first_operand ops of Some a \<Rightarrow> a)" "map_option trim (second_operand ops) = second_operand ops"
    using ops by (auto simp: first_operand_def second_operand_def word_text_def trim_solid split: list.splits)
  have d: "take 2 s \<noteq> '';@''" using mp(6) e by (cases s) (auto simp: cur_char_def)
  show ?thesis unfolding line
    using mp(4,5,6,2) e(1,3) colon w w2 sp tr d
    by (simp add: assemble_line_def t [simplified] Let_def first_operand_def)
qed

lemma line_encodes:
  assumes "hw_ok i" "roomy st"
  shows "\<exists>st'. assemble_line (hw_line i) st = Inr st' \<and> encodes (clean_hw i) st st'"
proof -
  obtain m ops where p: "hw_parts i = (m, ops)" by (cases "hw_parts i")
  have "assemble_line (hw_line i) st = encode_insn m (first_operand ops) (second_operand ops) st"
    using assemble_words [of m ops st] hw_mnemonic [OF assms(1)] hw_operands [OF assms(1)] p by (simp add: hw_line_def)
  then show ?thesis using enc_all [OF assms] p by (auto simp: insn_encodes_def first_operand_def second_operand_def)
qed

end
