(* ===== verification/Asm_Program.thy ===== *)
theory Asm_Program
  imports Asm_Insn
begin

text \<open>
  Whole programs: what the lines of a program assemble to, and where the branches of the finished text lead.
\<close>

section \<open>Programs\<close>

datatype (plugins only: code size) asm_item = ILabel string | IInsn hw

fun item_line :: "asm_item \<Rightarrow> string" where
  "item_line (ILabel l) = l @ '':''"
| "item_line (IInsn i) = hw_line i"

fun item_ok :: "asm_item \<Rightarrow> bool" where
  "item_ok (ILabel l) \<longleftrightarrow> good_name l"
| "item_ok (IInsn i) \<longleftrightarrow> hw_ok i"

fun item_label :: "asm_item \<Rightarrow> string list" where
  "item_label (ILabel l) = [l]"
| "item_label (IInsn i) = []"

text \<open>The place of a label in the text section.\<close>

definition text_label :: "asm_state \<Rightarrow> string \<Rightarrow> nat option" where
  "text_label st l = (case sym_find st l of Some y \<Rightarrow> if sy_shndx y = S_TEXT then Some (unat (sy_value y)) else None | None \<Rightarrow> None)"

text \<open>Reading a listing: every instruction comes from the decoder, and every label is at its place.\<close>

fun reads :: "(string \<Rightarrow> nat option) \<Rightarrow> asm_item list \<Rightarrow> stream \<Rightarrow> stream option" where
  "reads L [] s = Some s"
| "reads L (ILabel l # xs) s = (if L l = Some (s_pos s) then reads L xs s else None)"
| "reads L (IInsn i # xs) s = (case decode_insn s of Some (j, s') \<Rightarrow> if j = clean_hw i then reads L xs s' else None | None \<Rightarrow> None)"

section \<open>The size of an instruction\<close>

lemma next_word_len: "next_word s = Some (n, s') \<Longrightarrow> s_pos s' = s_pos s + 2"
  by (auto simp: next_word_def split: list.splits)

lemma next_long_len: "next_long s = Some (n, s') \<Longrightarrow> s_pos s' = s_pos s + 4"
  by (auto simp: next_long_def bind_eq_Some_conv dest!: next_word_len)

lemma next_imm_len: "next_imm w s = Some (n, s') \<Longrightarrow> s_pos s' \<le> s_pos s + 4"
  by (auto simp: next_imm_def bind_eq_Some_conv dest!: next_word_len next_long_len split: width.splits if_splits)

lemma decode_ea_len: "decode_ea w m r s = Some (x, s') \<Longrightarrow> s_pos s' \<le> s_pos s + 4"
  by (auto simp: decode_ea_def next_index_def next_abs_def bind_eq_Some_conv dest!: next_word_len next_long_len next_imm_len split: if_splits list.splits)

lemma ea_then_len: "ea_then w m r s f = Some (x, s') \<Longrightarrow> s_pos s' \<le> s_pos s + 4"
  by (auto simp: ea_then_def dest!: decode_ea_len)

lemma next_branch_len: "next_branch s = Some (x, s') \<Longrightarrow> s_pos s' = s_pos s + 2"
  by (auto simp: next_branch_def dest!: next_word_len split: list.splits if_splits)

lemmas part_lens = next_word_len next_imm_len decode_ea_len ea_then_len next_branch_len

lemma line_lens:
  "line_move w r m a b s = Some (x, s') \<Longrightarrow> s_pos s' \<le> s_pos s + 8"
  "line_0 r m a b s = Some (x, s') \<Longrightarrow> s_pos s' \<le> s_pos s + 8"
  "line_4 r m a b s = Some (x, s') \<Longrightarrow> s_pos s' \<le> s_pos s + 8"
  "line_5 r m a b s = Some (x, s') \<Longrightarrow> s_pos s' \<le> s_pos s + 8"
  "line_6 r m a b s = Some (x, s') \<Longrightarrow> s_pos s' \<le> s_pos s + 8"
  "line_E r m a b s = Some (x, s') \<Longrightarrow> s_pos s' \<le> s_pos s + 8"
  "line_arith p r m a b s = Some (x, s') \<Longrightarrow> s_pos s' \<le> s_pos s + 8"
  by (fastforce simp: line_move_def line_0_def line_4_def line_5_def line_6_def line_E_def line_arith_def bind_eq_Some_conv Let_def
      dest!: part_lens split: if_splits)+

lemma decode_insn_len: "decode_insn s = Some (i, s') \<Longrightarrow> s_pos s' \<le> s_pos s + 10"
  by (auto simp: decode_insn_def decode_fields_def bind_eq_Some_conv dest!: next_word_len line_lens split: if_splits)

lemma patched_refl: "patched n fs c c"
  by (simp add: patched_def)

lemma patched_parts:
  assumes "patched n (fs @ gs) (c @ d) e"
    and "\<forall>f \<in> set fs. n \<le> unat (fx_off f) \<and> unat (fx_off f) + 2 \<le> n + length c" "\<forall>g \<in> set gs. n + length c \<le> unat (fx_off g)"
  obtains c' d' where "e = c' @ d'" "patched n fs c c'" "patched (n + length c) gs d d'"
proof
  have l: "length e = length c + length d" using assms(1) by (simp add: patched_def)
  show "e = take (length c) e @ drop (length c) e" by simp
  have a: "(\<forall>f \<in> set (fs @ gs). n + k \<noteq> unat (fx_off f) \<and> n + k \<noteq> Suc (unat (fx_off f))) \<Longrightarrow> k < length c + length d \<Longrightarrow> e ! k = (c @ d) ! k" for k
    using assms(1) by (simp add: patched_def)
  have "take (length c) e ! k = c ! k" if "k < length c" "\<forall>f \<in> set fs. n + k \<noteq> unat (fx_off f) \<and> n + k \<noteq> Suc (unat (fx_off f))" for k
  proof -
    have "\<forall>g \<in> set gs. n + k \<noteq> unat (fx_off g) \<and> n + k \<noteq> Suc (unat (fx_off g))" using assms(3) that(1) by fastforce
    then show ?thesis using a [of k] that by (auto simp: nth_append)
  qed
  then show "patched n fs c (take (length c) e)" using l by (simp add: patched_def)
  have "drop (length c) e ! k = d ! k" if "k < length d" "\<forall>g \<in> set gs. n + length c + k \<noteq> unat (fx_off g) \<and> n + length c + k \<noteq> Suc (unat (fx_off g))" for k
  proof -
    have "\<forall>f \<in> set fs. n + (length c + k) \<noteq> unat (fx_off f) \<and> n + (length c + k) \<noteq> Suc (unat (fx_off f))" using assms(2) by fastforce
    then show ?thesis using a [of "length c + k"] that l by (auto simp: nth_append add.assoc)
  qed
  then show "patched (n + length c) gs d (drop (length c) e)" using l by (simp add: patched_def)
qed

lemma encodes_len: "encodes i st st' \<Longrightarrow> length (as_text st') \<le> length (as_text st) + 10"
proof -
  assume "encodes i st st'"
  then obtain c rs fs where "decode_insn (stream_at st (c @ []) (rs @ []) (fs @ [])) = Some (i, stream_at st' [] [] [])"
    unfolding encodes_def by (metis patched_refl)
  from decode_insn_len [OF this] show ?thesis by (simp add: stream_at_def)
qed

section \<open>Symbols\<close>

lemma find_glue: "find P (xs @ ys) = (case find P xs of Some x \<Rightarrow> Some x | None \<Rightarrow> find P ys)"
  by (induction xs) auto

lemma find_intern: "sym_find (sym_intern n st) l = (case sym_find st l of Some y \<Rightarrow> Some y | None \<Rightarrow> if n = l then Some (new_sym l) else None)"
  by (auto simp: sym_intern_def sym_find_def find_glue new_sym_def split: option.splits)

lemma label_intern: "text_label st l = Some v \<Longrightarrow> text_label (sym_intern n st) l = Some v"
  by (auto simp: text_label_def find_intern split: option.splits)

lemma label_interns: "text_label st l = Some v \<Longrightarrow> text_label (foldl (\<lambda>s n. sym_intern n s) st ns) l = Some v"
  by (induction ns arbitrary: st) (simp_all add: label_intern)

lemma label_indep: "text_label (st\<lparr>as_text := t, as_rels := r, as_fixes := f\<rparr>) l = text_label st l"
  by (simp add: text_label_def sym_find_def)

lemma emits_props:
  assumes "emits st c rs fs st'"
  shows "as_text st' = as_text st @ c" "as_rels st' = as_rels st @ rs" "as_fixes st' = as_fixes st @ fs" "as_sec st' = as_sec st"
    "text_label st l = Some v \<Longrightarrow> text_label st' l = Some v"
  using assms by (auto simp: emits_def label_indep label_interns)

lemma update_sym_find:
  "find (\<lambda>y. sy_name y = l) (update_sym n f ys) =
     (case find (\<lambda>y. sy_name y = l) ys of Some y \<Rightarrow> Some (if n = l then f y else y) | None \<Rightarrow> None)"
  if "\<And>y. sy_name (f y) = sy_name y"
  using that by (induction ys) (auto split: option.splits)

lemma define_label:
  "text_label (sym_define n S_TEXT v st) l = (if n = l then Some (unat v) else text_label st l)" if "sym_find st l \<noteq> None \<or> n = l"
  using that find_intern [of n st l]
  by (auto simp: text_label_def sym_define_def sym_find_def Let_def update_sym_find split: option.splits)


section \<open>The lines of a program\<close>

lemma label_line:
  assumes "good_name l" "as_sec st = S_TEXT"
  shows "assemble_line (l @ '':'') st = Inr (sym_define l S_TEXT (text_len st) st)"
proof -
  have c: "cur_char l \<in> set ''_L.''" "l \<noteq> []" "solid l" using good_name_props [OF assms(1)] by blast+
  have t: "trim (l @ '':'') = l @ '':''" using c by (intro trim_solid) (simp add: blank_def)
  have d: "cur_char (l @ '':'') = cur_char l" using c(2) by (cases l) (simp_all add: cur_char_def)
  then have "take 2 (l @ '':'') \<noteq> '';@''" using c by (cases l) (auto simp: cur_char_def)
  then show ?thesis using assms c d
    by (auto simp: assemble_line_def t Let_def define_here_def cur_buf_def section_defs text_len_def)
qed

lemma define_props:
  "as_text (sym_define l k v st) = as_text st" "as_rels (sym_define l k v st) = as_rels st" "as_fixes (sym_define l k v st) = as_fixes st"
  "as_sec (sym_define l k v st) = as_sec st"
  by (simp_all add: sym_define_def Let_def)

text \<open>Fixups inside a piece of code, one after the other.\<close>

fun fixes_in :: "nat \<Rightarrow> nat \<Rightarrow> asm_fix list \<Rightarrow> bool" where
  "fixes_in a b [] \<longleftrightarrow> a \<le> b"
| "fixes_in a b (f # fs) \<longleftrightarrow> a \<le> unat (fx_off f) \<and> fixes_in (unat (fx_off f) + 2) b fs"

lemma fixes_in_append: "fixes_in a b fs \<Longrightarrow> fixes_in b c gs \<Longrightarrow> fixes_in a c (fs @ gs)"
proof (induction fs arbitrary: a)
  case Nil then show ?case by (cases gs) auto
qed simp

lemma fixes_in_bounds: "fixes_in a b fs \<Longrightarrow> a \<le> b \<and> (\<forall>f \<in> set fs. a \<le> unat (fx_off f) \<and> unat (fx_off f) + 2 \<le> b)"
  by (induction fs arbitrary: a) fastforce+

text \<open>\<open>assembles st xs st'\<close>: the steps append code, relocations and fixups that read as the items.\<close>

definition assembles :: "asm_state \<Rightarrow> asm_item list \<Rightarrow> asm_state \<Rightarrow> bool" where
  "assembles st xs st' \<longleftrightarrow>
     (\<exists>c rs fs. as_text st' = as_text st @ c \<and> as_rels st' = as_rels st @ rs \<and> as_fixes st' = as_fixes st @ fs \<and> as_sec st' = S_TEXT \<and>
        length c \<le> 10 * length xs \<and> fixes_in (length (as_text st)) (length (as_text st')) fs \<and>
        (\<forall>l v. l \<notin> set (concat (map item_label xs)) \<longrightarrow> text_label st l = Some v \<longrightarrow> text_label st' l = Some v) \<and>
        (\<forall>p rs' fs' c'. patched (length (as_text st)) fs c c' \<longrightarrow>
           reads (text_label st') xs (stream_at st (c' @ p) (rs @ rs') (fs @ fs')) = Some (stream_at st' p rs' fs')))"

lemma assembles_nil: "as_sec st = S_TEXT \<Longrightarrow> assembles st [] st"
  unfolding assembles_def by (intro exI [of _ "[]"]) (simp add: patched_nil)

lemma assembles_label:
  assumes "assembles (sym_define l S_TEXT (text_len st) st) xs st'" "l \<notin> set (concat (map item_label xs))" "small st"
  shows "assembles st (ILabel l # xs) st'"
proof -
  let ?s = "sym_define l S_TEXT (text_len st) st"
  obtain c rs fs where ih: "as_text st' = as_text st @ c" "as_rels st' = as_rels st @ rs" "as_fixes st' = as_fixes st @ fs" "as_sec st' = S_TEXT"
    "length c \<le> 10 * length xs" "fixes_in (length (as_text st)) (length (as_text st')) fs"
    "\<And>l' v. l' \<notin> set (concat (map item_label xs)) \<Longrightarrow> text_label ?s l' = Some v \<Longrightarrow> text_label st' l' = Some v"
    "\<And>p rs' fs' c'. patched (length (as_text st)) fs c c' \<Longrightarrow> reads (text_label st') xs (stream_at st (c' @ p) (rs @ rs') (fs @ fs')) = Some (stream_at st' p rs' fs')"
    using assms(1) unfolding assembles_def by (auto simp: define_props stream_at_def)
  have "text_label ?s l = Some (length (as_text st))"
    using assms(3) by (simp add: define_label text_len_def unat_small small_def)
  then have l: "text_label st' l = Some (length (as_text st))" using ih(7) assms(2) by blast
  have k: "text_label st l' = Some v \<Longrightarrow> l' \<noteq> l \<Longrightarrow> text_label ?s l' = Some v" for l' v
    by (subst define_label) (auto simp: text_label_def split: option.splits)
  have r: "reads (text_label st') (ILabel l # xs) (stream_at st (c' @ p) (rs @ rs') (fs @ fs')) = Some (stream_at st' p rs' fs')"
    if "patched (length (as_text st)) fs c c'" for p rs' fs' c'
    using l ih(8) [OF that] by (simp add: stream_at_def)
  show ?thesis unfolding assembles_def
    using ih(1-7) k r by (intro exI [of _ c] exI [of _ rs] exI [of _ fs]) auto
qed

lemma assembles_insn:
  assumes s1: "encodes (clean_hw i) st s1" and xs: "assembles s1 xs st'"
  shows "assembles st (IInsn i # xs) st'"
proof -
  obtain c1 r1 f1 where e: "emits st c1 r1 f1 s1" and f: "\<forall>f \<in> set f1. length (as_text st) \<le> unat (fx_off f) \<and> unat (fx_off f) + 2 \<le> length (as_text st) + length c1" "length f1 \<le> 1"
    and d: "\<And>p rs' fs' c'. patched (length (as_text st)) f1 c1 c' \<Longrightarrow> decode_insn (stream_at st (c' @ p) (r1 @ rs') (f1 @ fs')) = Some (clean_hw i, stream_at s1 p rs' fs')"
    using s1 unfolding encodes_def by blast
  note ep = emits_props [OF e]
  have len: "length c1 \<le> 10" using encodes_len [OF s1] ep(1) by simp
  have f1: "fixes_in (length (as_text st)) (length (as_text s1)) f1" using f ep(1) by (cases f1) auto
  obtain c rs fs where ih: "as_text st' = as_text s1 @ c" "as_rels st' = as_rels s1 @ rs" "as_fixes st' = as_fixes s1 @ fs" "as_sec st' = S_TEXT"
    "length c \<le> 10 * length xs" "fixes_in (length (as_text s1)) (length (as_text st')) fs"
    "\<And>l' v. l' \<notin> set (concat (map item_label xs)) \<Longrightarrow> text_label s1 l' = Some v \<Longrightarrow> text_label st' l' = Some v"
    "\<And>p rs' fs' c'. patched (length (as_text s1)) fs c c' \<Longrightarrow> reads (text_label st') xs (stream_at s1 (c' @ p) (rs @ rs') (fs @ fs')) = Some (stream_at st' p rs' fs')"
    using xs unfolding assembles_def by blast
  have r: "reads (text_label st') (IInsn i # xs) (stream_at st (c' @ p) ((r1 @ rs) @ rs') ((f1 @ fs) @ fs')) = Some (stream_at st' p rs' fs')"
    if patched: "patched (length (as_text st)) (f1 @ fs) (c1 @ c) c'" for p rs' fs' c'
  proof -
    obtain a b where ab: "c' = a @ b" "patched (length (as_text st)) f1 c1 a" "patched (length (as_text st) + length c1) fs c b"
      using patched_parts [OF patched] f(1) fixes_in_bounds [OF ih(6)] ep(1) by auto
    show ?thesis using d [OF ab(2), of "b @ p" "rs @ rs'" "fs @ fs'"] ih(8) [of b p rs' fs'] ab(1,3) ep(1) by simp
  qed
  show ?thesis unfolding assembles_def
    using ih ep len r fixes_in_append [OF f1 ih(6)] by (intro exI [of _ "c1 @ c"] exI [of _ "r1 @ rs"] exI [of _ "f1 @ fs"]) auto
qed

lemma program_assembles:
  assumes "list_all item_ok xs" "distinct (concat (map item_label xs))" "as_sec st = S_TEXT"
    and "length (as_text st) + 10 * length xs < 2 ^ 31 - 6"
  shows "\<exists>st'. assemble_lines (map item_line xs) st = Inr st' \<and> assembles st xs st'"
  using assms
proof (induction xs arbitrary: st)
  case Nil
  then show ?case by (simp add: assembles_nil)
next
  case (Cons x xs)
  show ?case
  proof (cases x)
    case (ILabel l)
    let ?s = "sym_define l S_TEXT (text_len st) st"
    obtain st' where "assemble_lines (map item_line xs) ?s = Inr st'" "assembles ?s xs st'"
      using Cons.IH [of ?s] Cons.prems ILabel by (auto simp: define_props)
    then show ?thesis using assembles_label [of l st xs st'] Cons.prems ILabel label_line [of l st]
      by (intro exI [of _ st']) (auto simp: small_def)
  next
    case (IInsn i)
    have i: "hw_ok i" "roomy st" using Cons.prems IInsn by (auto simp: roomy_def)
    obtain s1 where s1: "assemble_line (hw_line i) st = Inr s1" "encodes (clean_hw i) st s1" using line_encodes [OF i] by blast
    have "as_sec s1 = as_sec st" "length (as_text s1) \<le> length (as_text st) + 10"
      using s1(2) encodes_len [OF s1(2)] emits_props(4) unfolding encodes_def by blast+
    then obtain st' where "assemble_lines (map item_line xs) s1 = Inr st'" "assembles s1 xs st'"
      using Cons.IH [of s1] Cons.prems IInsn by auto
    then show ?thesis using assembles_insn [OF s1(2)] s1(1) IInsn by (intro exI [of _ st']) simp
  qed
qed

section \<open>Branches\<close>

definition word_at :: "bytes \<Rightarrow> nat \<Rightarrow> nat" where
  "word_at b k = 256 * unat (b ! k) + unat (b ! Suc k)"

text \<open>Where the processor goes: the displacement counts from its own place.\<close>

definition branch_dest :: "bytes \<Rightarrow> asm_fix \<Rightarrow> int" where
  "branch_dest b f = int (unat (fx_off f)) + signed16 (word_at b (unat (fx_off f)))"

definition branch_dist :: "asm_state \<Rightarrow> asm_fix \<Rightarrow> int option" where
  "branch_dist st f = map_option (\<lambda>v. int v - int (unat (fx_off f))) (text_label st (fx_label f))"

lemma put16_length [simp]: "length (put16_at b k v) = length b" by (simp add: put16_at_def)

lemma put16_word: "Suc k < length b \<Longrightarrow> word_at (put16_at b k v) k = unat v mod 65536"
proof -
  have m: "(0xFF :: u32) = mask 8" by (simp add: mask_eq_exp_minus_1)
  have "ucast (x AND 0xFF :: u32) = (ucast x :: u8)" for x :: u32 unfolding m by (rule bit_word_eqI) (auto simp: bit_simps)
  then show "Suc k < length b \<Longrightarrow> ?thesis" by (simp add: word_at_def put16_at_def b16_value)
qed

lemma put16_other: "j \<noteq> k \<Longrightarrow> j \<noteq> Suc k \<Longrightarrow> put16_at b k v ! j = b ! j"
  by (simp add: put16_at_def)


lemma word_at_cong: "t ! k = u ! k \<Longrightarrow> t ! Suc k = u ! Suc k \<Longrightarrow> word_at t k = word_at u k"
  by (simp add: word_at_def)

lemma text_label_value:
  "text_label st l = Some v \<Longrightarrow> \<exists>y. sym_find st l = Some y \<and> sy_shndx y = S_TEXT \<and> v = unat (sy_value y)"
  by (auto simp: text_label_def split: option.splits if_splits)

lemma text_label_text [simp]: "text_label (st\<lparr>as_text := t\<rparr>) l = text_label st l"
  by (simp add: text_label_def sym_find_def)

lemma resolve_loop_patches:
  assumes "fixes_in a (length (as_text st)) fs" "\<forall>f \<in> set fs. text_label st (fx_label f) \<noteq> None"
  shows "\<exists>t. resolve_loop fs st = Inr (st\<lparr>as_text := t\<rparr>) \<and> patched 0 fs (as_text st) t \<and> (\<forall>k < a. t ! k = as_text st ! k) \<and>
    (\<forall>f \<in> set fs. word_at t (unat (fx_off f)) = unat (of_nat (the (text_label st (fx_label f))) - fx_off f :: u32) mod 65536)"
  using assms
proof (induction fs arbitrary: a st)
  case Nil
  then show ?case by (intro exI [of _ "as_text st"]) (simp add: patched_nil)
next
  case (Cons f fs)
  let ?k = "unat (fx_off f)"
  obtain v where v: "text_label st (fx_label f) = Some v" using Cons.prems(2) by auto
  then obtain y where y: "sym_find st (fx_label f) = Some y" "sy_shndx y = S_TEXT" "v = unat (sy_value y)" using text_label_value by blast
  define u where "u = put16_at (as_text st) ?k (sy_value y - fx_off f)"
  have b: "a \<le> ?k" "?k + 2 \<le> length (as_text st)" and g: "fixes_in (?k + 2) (length u) fs"
    using Cons.prems(1) fixes_in_bounds [of "?k + 2"] by (auto simp: u_def)
  have step: "resolve_loop (f # fs) st = resolve_loop fs (st\<lparr>as_text := u\<rparr>)" using y by (simp add: u_def)
  obtain t where t: "resolve_loop fs (st\<lparr>as_text := u\<rparr>) = Inr (st\<lparr>as_text := t\<rparr>)" "patched 0 fs u t" "\<forall>k < ?k + 2. t ! k = u ! k"
    "\<forall>g \<in> set fs. word_at t (unat (fx_off g)) = unat (of_nat (the (text_label st (fx_label g))) - fx_off g :: u32) mod 65536"
    using Cons.IH [of "?k + 2" "st\<lparr>as_text := u\<rparr>"] Cons.prems(2) g by auto
  have "word_at t ?k = word_at u ?k" using t(3) by (intro word_at_cong) auto
  also have "\<dots> = unat (sy_value y - fx_off f) mod 65536" unfolding u_def using b by (intro put16_word) simp
  finally have w: "word_at t ?k = unat (of_nat v - fx_off f) mod 65536" using y(3) by simp
  have "patched 0 (f # fs) (as_text st) t" using t(2) put16_other unfolding patched_def u_def by auto
  moreover have "\<forall>k < a. t ! k = as_text st ! k" using t(3) b put16_other unfolding u_def by auto
  ultimately show ?case using step t(1,4) w v by (intro exI [of _ t]) simp
qed

text \<open>A branch goes to its label exactly when the distance fits sixteen bits.\<close>

lemma disp_value: "v < 2 ^ 32 \<Longrightarrow> unat (of_nat v - off :: u32) mod 65536 = nat ((int v - int (unat off)) mod 65536)"
proof -
  have "uint (of_nat v - off :: u32) = (int v - int (unat off)) mod 4294967296"
    by (simp add: uint_word_ariths unsigned_of_nat take_bit_eq_mod zmod_int mod_simps)
  then have "int (unat (of_nat v - off :: u32)) mod 65536 = (int v - int (unat off)) mod 65536"
    by (simp add: mod_mod_cancel)
  then have "int (unat (of_nat v - off :: u32) mod 65536) = (int v - int (unat off)) mod 65536" by (simp add: zmod_int)
  then show ?thesis by simp
qed

lemma signed16_range: "n < 65536 \<Longrightarrow> - 32768 \<le> signed16 n \<and> signed16 n < 32768" by (auto simp: signed16_def)

lemma signed16_exact: "signed16 (nat (d mod 65536)) = d \<longleftrightarrow> - 32768 \<le> d \<and> d < 32768"
proof
  assume a: "signed16 (nat (d mod 65536)) = d"
  have "nat (d mod 65536) < 65536" by (simp add: nat_less_iff)
  then show "- 32768 \<le> d \<and> d < 32768" using signed16_range [of "nat (d mod 65536)"] a by simp
qed (simp add: signed16_mod)

lemma text_label_bound: "text_label st l = Some v \<Longrightarrow> v < 2 ^ 32"
proof -
  assume "text_label st l = Some v"
  from text_label_value [OF this] obtain y :: asm_sym where "v = unat (sy_value y)" by blast
  then show ?thesis using unsigned_less [of "sy_value y"] by simp
qed

lemma resolved_branches:
  assumes "fixes_in 0 (length (as_text st)) (as_fixes st)" "\<forall>f \<in> set (as_fixes st). text_label st (fx_label f) \<noteq> None"
  shows "\<exists>t. resolve_fixups st = Inr (st\<lparr>as_text := t\<rparr>) \<and> patched 0 (as_fixes st) (as_text st) t \<and>
    list_all (\<lambda>f. case text_label st (fx_label f) of None \<Rightarrow> False
      | Some v \<Rightarrow> (branch_dest t f = int v \<longleftrightarrow> - 32768 \<le> int v - int (unat (fx_off f)) \<and> int v - int (unat (fx_off f)) < 32768)) (as_fixes st)"
proof -
  obtain t where t: "resolve_loop (as_fixes st) st = Inr (st\<lparr>as_text := t\<rparr>)" "patched 0 (as_fixes st) (as_text st) t"
    "\<forall>f \<in> set (as_fixes st). word_at t (unat (fx_off f)) = unat (of_nat (the (text_label st (fx_label f))) - fx_off f :: u32) mod 65536"
    using resolve_loop_patches [OF assms] by blast
  have "case text_label st (fx_label f) of None \<Rightarrow> False
      | Some v \<Rightarrow> (branch_dest t f = int v \<longleftrightarrow> - 32768 \<le> int v - int (unat (fx_off f)) \<and> int v - int (unat (fx_off f)) < 32768)"
    if f: "f \<in> set (as_fixes st)" for f
  proof -
    obtain v where v: "text_label st (fx_label f) = Some v" using assms(2) f by blast
    have "branch_dest t f = int (unat (fx_off f)) + signed16 (nat ((int v - int (unat (fx_off f))) mod 65536))"
      using t(3) f v disp_value [OF text_label_bound [OF v]] by (simp add: branch_dest_def)
    then have "branch_dest t f = int v \<longleftrightarrow> signed16 (nat ((int v - int (unat (fx_off f))) mod 65536)) = int v - int (unat (fx_off f))" by linarith
    then show ?thesis using v signed16_exact [of "int v - int (unat (fx_off f))"] by simp
  qed
  then show ?thesis using t(1,2) by (intro exI [of _ t]) (simp add: resolve_fixups_def list_all_iff)
qed

section \<open>The whole text section\<close>

fun hw_target :: "hw \<Rightarrow> string list" where
  "hw_target (HBcc c l) = [l]" | "hw_target (HDbra r l) = [l]" | "hw_target i = []"

fun item_target :: "asm_item \<Rightarrow> string list" where
  "item_target (ILabel l) = []" | "item_target (IInsn i) = hw_target i"

lemma part_fixes:
  "next_word s = Some (n, s') \<Longrightarrow> s_fixes s' = s_fixes s"
  "next_long s = Some (k, s') \<Longrightarrow> s_fixes s' = s_fixes s"
  "next_imm w s = Some (v, s') \<Longrightarrow> s_fixes s' = s_fixes s"
  "decode_ea w m r s = Some (x, s') \<Longrightarrow> s_fixes s' = s_fixes s"
  "ea_then w m r s f = Some (i, s') \<Longrightarrow> s_fixes s' = s_fixes s \<and> (\<exists>x. i = f x)"
  "next_branch s = Some (l, s') \<Longrightarrow> map fx_label (s_fixes s) = l # map fx_label (s_fixes s')"
proof -
  have w: "next_word s = Some (n, s') \<Longrightarrow> s_fixes s' = s_fixes s" for s n s' by (auto simp: next_word_def split: list.splits)
  then have l: "next_long s = Some (k, s') \<Longrightarrow> s_fixes s' = s_fixes s" for s k s' by (auto simp: next_long_def bind_eq_Some_conv dest!: w)
  have i: "next_imm w s = Some (v, s') \<Longrightarrow> s_fixes s' = s_fixes s" for w s v s'
    by (auto simp: next_imm_def bind_eq_Some_conv dest!: w l split: width.splits if_splits)
  have e: "decode_ea w m r s = Some (x, s') \<Longrightarrow> s_fixes s' = s_fixes s" for w m r s x s'
    by (auto simp: decode_ea_def next_index_def next_abs_def bind_eq_Some_conv dest!: w l i split: if_splits list.splits)
  show "next_word s = Some (n, s') \<Longrightarrow> s_fixes s' = s_fixes s" "next_long s = Some (k, s') \<Longrightarrow> s_fixes s' = s_fixes s"
    "next_imm w s = Some (v, s') \<Longrightarrow> s_fixes s' = s_fixes s" "decode_ea w m r s = Some (x, s') \<Longrightarrow> s_fixes s' = s_fixes s"
    by (fact w l i e)+
  show "ea_then w m r s f = Some (i, s') \<Longrightarrow> s_fixes s' = s_fixes s \<and> (\<exists>x. i = f x)" by (auto simp: ea_then_def dest: e)
  show "next_branch s = Some (l, s') \<Longrightarrow> map fx_label (s_fixes s) = l # map fx_label (s_fixes s')"
    by (auto simp: next_branch_def dest!: w split: list.splits if_splits)
qed

lemma line_fixes:
  "line_move w r m a b s = Some (i, s') \<Longrightarrow> map fx_label (s_fixes s) = hw_target i @ map fx_label (s_fixes s')"
  "line_0 r m a b s = Some (i, s') \<Longrightarrow> map fx_label (s_fixes s) = hw_target i @ map fx_label (s_fixes s')"
  "line_4 r m a b s = Some (i, s') \<Longrightarrow> map fx_label (s_fixes s) = hw_target i @ map fx_label (s_fixes s')"
  "line_5 r m a b s = Some (i, s') \<Longrightarrow> map fx_label (s_fixes s) = hw_target i @ map fx_label (s_fixes s')"
  "line_6 r m a b s = Some (i, s') \<Longrightarrow> map fx_label (s_fixes s) = hw_target i @ map fx_label (s_fixes s')"
  "line_E r m a b s = Some (i, s') \<Longrightarrow> map fx_label (s_fixes s) = hw_target i @ map fx_label (s_fixes s')"
  "line_arith p r m a b s = Some (i, s') \<Longrightarrow> map fx_label (s_fixes s) = hw_target i @ map fx_label (s_fixes s')"
  by (auto simp: line_move_def line_0_def line_4_def line_5_def line_6_def line_E_def line_arith_def bind_eq_Some_conv Let_def
      dest!: part_fixes split: if_splits)

lemma decode_fixes: "decode_insn s = Some (i, s') \<Longrightarrow> map fx_label (s_fixes s) = hw_target i @ map fx_label (s_fixes s')"
  by (auto simp: decode_insn_def decode_fields_def bind_eq_Some_conv dest!: part_fixes(1) line_fixes split: if_splits)

lemma clean_target [simp]: "hw_target (clean_hw i) = hw_target i" by (cases i) simp_all

lemma reads_fixes: "reads L xs s = Some s' \<Longrightarrow> map fx_label (s_fixes s) = concat (map item_target xs) @ map fx_label (s_fixes s')"
proof (induction xs arbitrary: s)
  case (Cons x xs)
  then show ?case by (cases x) (auto split: if_splits option.splits dest!: decode_fixes)
qed simp


lemma labels_defined:
  assumes "reads L xs s = Some s'" "l \<in> set (concat (map item_label xs))"
  shows "L l \<noteq> None"
  using assms
proof (induction xs arbitrary: s)
  case (Cons x xs)
  then show ?case by (cases x) (auto split: if_splits option.splits)
qed simp

definition code_start :: asm_state where "code_start = asm_init\<lparr>as_sec := S_TEXT\<rparr>"

text \<open>The finished text section as the decoder sees it.\<close>

definition text_stream :: "asm_state \<Rightarrow> stream" where
  "text_stream st = \<lparr>s_pos = 0, s_bytes = as_text st, s_rels = as_rels st, s_fixes = as_fixes st\<rparr>"

text \<open>The branch at a fixup goes to its label, when the distance fits.\<close>

definition branch_ok :: "asm_state \<Rightarrow> asm_fix \<Rightarrow> bool" where
  "branch_ok st f = (case text_label st (fx_label f) of None \<Rightarrow> False
     | Some v \<Rightarrow> (branch_dest (as_text st) f = int v) = (- 32768 \<le> int v - int (unat (fx_off f)) \<and> int v - int (unat (fx_off f)) < 32768))"

definition assembled_program :: "asm_item list \<Rightarrow> asm_error + asm_state" where
  "assembled_program xs = bind_res (assemble_lines (''  .code'' # map item_line xs) asm_init) resolve_fixups"

definition program_ok :: "asm_item list \<Rightarrow> bool" where
  "program_ok xs \<longleftrightarrow> list_all item_ok xs \<and> distinct (concat (map item_label xs)) \<and>
     set (concat (map item_target xs)) \<subseteq> set (concat (map item_label xs)) \<and> length xs \<le> 214000000"

lemma assembled_program_reads:
  assumes "program_ok xs"
  shows "case assembled_program xs of Inl e \<Rightarrow> False
    | Inr st \<Rightarrow> reads (text_label st) xs (text_stream st) = Some \<lparr>s_pos = length (as_text st), s_bytes = [], s_rels = [], s_fixes = []\<rparr> \<and>
        list_all (branch_ok st) (as_fixes st)"
proof -
  have code: "assemble_line ''  .code'' asm_init = Inr code_start" by (simp add: code_start_def) code_simp
  obtain st where st: "assemble_lines (map item_line xs) code_start = Inr st" "assembles code_start xs st"
    using program_assembles [of xs code_start] assms by (auto simp: program_ok_def code_start_def asm_init_def)
  have z: "as_text code_start = []" "as_rels code_start = []" "as_fixes code_start = []" by (simp_all add: code_start_def asm_init_def)
  obtain c rs fs where b: "as_text st = c" "as_rels st = rs" "as_fixes st = fs" "fixes_in 0 (length c) fs"
    "\<And>p rs' fs' c'. patched 0 fs c c' \<Longrightarrow> reads (text_label st) xs (stream_at code_start (c' @ p) (rs @ rs') (fs @ fs')) = Some (stream_at st p rs' fs')"
    using st(2) unfolding assembles_def by (simp add: z)
  note a = b(1-4) b(5) [of _ "[]" "[]" "[]"]
  have s: "stream_at code_start b r f = \<lparr>s_pos = 0, s_bytes = b, s_rels = r, s_fixes = f\<rparr>" for b r f
    by (simp add: stream_at_def z)
  have fx: "map fx_label fs = concat (map item_target xs)"
    using reads_fixes [OF a(5) [OF patched_refl]] by (simp add: s stream_at_def)
  have "text_label st (fx_label f) \<noteq> None" if "f \<in> set fs" for f
  proof -
    have "fx_label f \<in> set (concat (map item_target xs))" using that fx by (metis image_eqI list.set_map)
    then have "fx_label f \<in> set (concat (map item_label xs))" using assms unfolding program_ok_def by blast
    then show ?thesis by (rule labels_defined [OF a(5) [OF patched_refl]])
  qed
  then obtain t where t: "resolve_fixups st = Inr (st\<lparr>as_text := t\<rparr>)" "patched 0 fs c t"
    "list_all (\<lambda>f. case text_label st (fx_label f) of None \<Rightarrow> False
      | Some v \<Rightarrow> (branch_dest t f = int v \<longleftrightarrow> - 32768 \<le> int v - int (unat (fx_off f)) \<and> int v - int (unat (fx_off f)) < 32768)) fs"
    using resolved_branches [of st] a by blast
  have l: "length t = length c" using t(2) by (simp add: patched_def)
  have "reads (text_label st) xs \<lparr>s_pos = 0, s_bytes = t, s_rels = rs, s_fixes = fs\<rparr> = Some \<lparr>s_pos = length t, s_bytes = [], s_rels = [], s_fixes = []\<rparr>"
    using a(5) [OF t(2)] a(1) l by (simp add: stream_at_def z)
  moreover have "text_label (st\<lparr>as_text := t\<rparr>) = text_label st" by (rule ext) simp
  moreover have "list_all (branch_ok (st\<lparr>as_text := t\<rparr>)) fs"
    using t(3) by (auto simp: branch_ok_def list_all_iff split: option.splits)
  ultimately show ?thesis using code st(1) t(1) a(2,3)
    by (simp add: assembled_program_def text_stream_def)
qed

text \<open> C31: A program of instructions and labels survives printing, assembling and resolving its branches: assembling its
  lines succeeds, and the finished text section, read with the recorded relocations by a decoder written from the
  opcode map of the processor, is exactly the instructions of the program with every label at its place, nothing
  left over. Every branch leads to its label if and only if the distance fits sixteen bits.\<close>

theorem program_roundtrip:
  assumes "program_ok xs"
  shows "case assembled_program xs of Inl e \<Rightarrow> False
    | Inr st \<Rightarrow> reads (text_label st) xs (text_stream st) = Some \<lparr>s_pos = length (as_text st), s_bytes = [], s_rels = [], s_fixes = []\<rparr> \<and>
        list_all (branch_ok st) (as_fixes st)"
  by (rule assembled_program_reads [OF assms])

definition demo_program :: "asm_item list" where
  "demo_program = [IInsn (HLink 6 (- 8)), ILabel ''.L1'', IInsn (HArithI Ar_cmp SzL 10 (ODn 0)), IInsn (HBcc 12 ''.L2''),
     IInsn (HMove SzW (ODisp (- 4) 6) (OAbs ''_x##'' 2)), IInsn (HBcc 0 ''.L1''), ILabel ''.L2'', IInsn (HUnlk 6), IInsn HRts]"

lemma demo_program_ok: "program_ok demo_program"
  by (simp add: program_ok_def demo_program_def good_name_def name_char_def is_alpha_def is_lower_def is_digit_def cur_char_def)

lemma program_roundtrip_witness:
  "program_ok demo_program \<and> (case assembled_program demo_program of Inl e \<Rightarrow> False
    | Inr st \<Rightarrow> reads (text_label st) demo_program (text_stream st) = Some \<lparr>s_pos = length (as_text st), s_bytes = [], s_rels = [], s_fixes = []\<rparr> \<and>
        list_all (branch_ok st) (as_fixes st))"
  using program_roundtrip [OF demo_program_ok] demo_program_ok by blast


section \<open>Labels that are not there\<close>

lemma resolve_loop_error:
  "case find (\<lambda>f. text_label st (fx_label f) = None) fs of
     Some f \<Rightarrow> resolve_loop fs st = asm_err ''emit_elf: branch to undefined local label '' (fx_label f)
   | None \<Rightarrow> \<exists>t. resolve_loop fs st = Inr (st\<lparr>as_text := t\<rparr>)"
proof (induction fs arbitrary: st)
  case Nil
  then show ?case by (auto intro: exI [of _ "as_text st"])
next
  case (Cons f fs)
  show ?case
  proof (cases "sym_find st (fx_label f)")
    case None
    then show ?thesis by (simp add: text_label_def)
  next
    case (Some y)
    show ?thesis
    proof (cases "sy_shndx y = S_TEXT")
      case True
      then show ?thesis using Some Cons.IH [of "st\<lparr>as_text := put16_at (as_text st) (unat (fx_off f)) (sy_value y - fx_off f)\<rparr>"]
        by (auto simp: text_label_def [of st "fx_label f"] split: option.splits)
    qed (use Some in \<open>simp add: text_label_def\<close>)
  qed
qed

text \<open> C33: Branches are resolved unless a label is missing: the error names the label of the first branch whose label no line
  of the text section defines; otherwise every branch is resolved and nothing but the text changes, whatever the
  distances are.\<close>

theorem resolve_fixups_error:
  "case find (\<lambda>f. text_label st (fx_label f) = None) (as_fixes st) of
     Some f \<Rightarrow> resolve_fixups st = asm_err ''emit_elf: branch to undefined local label '' (fx_label f)
   | None \<Rightarrow> \<exists>t. resolve_fixups st = Inr (st\<lparr>as_text := t\<rparr>)"
  unfolding resolve_fixups_def by (rule resolve_loop_error)

end
