(* ===== verification/Asm_Compiled.thy ===== *)
theory Asm_Compiled
  imports Asm_Program
begin

text \<open>
  The instruction selector and the integrated assembler together: the text printed for the selector's instructions
  assembles to machine code that decodes to them.
\<close>

section \<open>The code of the instruction selector\<close>

fun oper_of :: "(string \<Rightarrow> string) \<Rightarrow> operand \<Rightarrow> oper" where
  "oper_of sr (Imm c) = OImm (sint c)"
| "oper_of sr (Reg r) = (if r < 8 then ODn r else OAn (r - 8))"
| "oper_of sr (Frame d) = ODisp d 6"
| "oper_of sr (Sym n) = OAbs (sr n) 0"
| "oper_of sr (AtReg r) = OInd (r - 8)"
| "oper_of sr (PostInc r) = OPost (r - 8)"
| "oper_of sr (Indexed a i) = OIdx (a - 8) i"

text \<open>The selector never names A7, and uses address registers where they are needed.\<close>

fun operand_plain :: "operand \<Rightarrow> bool" where
  "operand_plain (Reg r) \<longleftrightarrow> r < 15"
| "operand_plain (AtReg r) \<longleftrightarrow> 8 \<le> r \<and> r < 15"
| "operand_plain (PostInc r) \<longleftrightarrow> 8 \<le> r \<and> r < 15"
| "operand_plain (Indexed a i) \<longleftrightarrow> 8 \<le> a \<and> a < 15"
| "operand_plain _ \<longleftrightarrow> True"

lemma oper_of_text: "operand_plain x \<Longrightarrow> oper_text (oper_of sr x) = operand_text sr x"
proof -
  have "areg_text 6 = ''a6''" by code_simp
  then show "operand_plain x \<Longrightarrow> ?thesis" by (cases x) (auto simp: areg_text_def reg_text_def)
qed

fun arith_of :: "alu \<Rightarrow> arith" where
  "arith_of Op_add = Ar_add" | "arith_of Op_sub = Ar_sub" | "arith_of Op_and = Ar_and" | "arith_of Op_or = Ar_or" | "arith_of Op_eor = Ar_eor"

fun cond_num :: "cond \<Rightarrow> nat" where
  "cond_num C_eq = 7" | "cond_num C_ne = 6" | "cond_num C_cs = 5" | "cond_num C_cc = 4" | "cond_num C_hi = 2" | "cond_num C_ls = 3"
| "cond_num C_lt = 13" | "cond_num C_ge = 12" | "cond_num C_gt = 14" | "cond_num C_le = 15" | "cond_num C_pl = 10"

definition arith_insn :: "arith \<Rightarrow> oper \<Rightarrow> hw" where
  "arith_insn a x = (case x of OImm v \<Rightarrow> HArithI a SzL v (ODn 0) | ODn r \<Rightarrow> (if a = Ar_eor then HEor SzL r (ODn 0) else HArith a SzL x 0) | _ \<Rightarrow> HArith a SzL x 0)"

fun item_of :: "(string \<Rightarrow> string) \<Rightarrow> instr \<Rightarrow> asm_item" where
  "item_of sr (I_label l) = ILabel l"
| "item_of sr (I_moveq n r) = IInsn (HMoveq n r)"
| "item_of sr (I_loadimm n) = IInsn (HMove SzL (OImm n) (ODn 0))"
| "item_of sr (I_move w a b) = IInsn (HMove w (oper_of sr a) (oper_of sr b))"
| "item_of sr (I_movea a r) = IInsn (HMove SzL (oper_of sr a) (OAn (r - 8)))"
| "item_of sr (I_lea a r) = IInsn (HLea (oper_of sr a) (r - 8))"
| "item_of sr (I_alu op a) = IInsn (arith_insn (arith_of op) (oper_of sr a))"
| "item_of sr (I_addq c) = IInsn (HQuick False SzL (unat c) (ODn 0))"
| "item_of sr (I_subq c) = IInsn (HQuick True SzL (unat c) (ODn 0))"
| "item_of sr (I_alui op c) = IInsn (HArithI (arith_of op) SzL (sint c) (ODn 0))"
| "item_of sr (I_cmp a) = IInsn (arith_insn Ar_cmp (oper_of sr a))"
| "item_of sr I_tst = IInsn (HUnary Un_tst SzL (ODn 0))"
| "item_of sr (I_scc c) = IInsn (HScc (cond_num c) (ODn 0))"
| "item_of sr (I_bcc c l) = IInsn (HBcc (cond_num c) l)"
| "item_of sr (I_bra l) = IInsn (HBcc 0 l)"
| "item_of sr I_neg = IInsn (HUnary Un_neg SzL (ODn 0))"
| "item_of sr I_not = IInsn (HUnary Un_not SzL (ODn 0))"
| "item_of sr I_extw = IInsn (HExt SzW 0)"
| "item_of sr I_extl = IInsn (HExt SzL 0)"
| "item_of sr (I_shift s a) = IInsn (case a of Reg r \<Rightarrow> HShiftR s SzL r 0 | Imm c \<Rightarrow> HShiftI s SzL (unat c) 0 | _ \<Rightarrow> HNop)"
| "item_of sr (I_clr w a) = IInsn (HUnary Un_clr w (oper_of sr a))"
| "item_of sr (I_dbra r l) = IInsn (HDbra r l)"
| "item_of sr I_push = IInsn (HMove SzL (ODn 0) (OPre 7))"
| "item_of sr (I_pop r) = IInsn (HMove SzL (OPost 7) (if r < 8 then ODn r else OAn (r - 8)))"
| "item_of sr (I_addsp n) = IInsn (if 1 \<le> n \<and> n \<le> 8 then HQuick False SzW (nat n) (OAn 7) else HAdda False SzW (OImm n) 7)"
| "item_of sr (I_jsr_rt f) = IInsn (HJsr (OAbs (f @ ''##'') 0))"
| "item_of sr (I_jsr_sym f n) = IInsn (HJsr (OAbs (sr f) 0))"
| "item_of sr (I_jsr_ind r n) = IInsn (HJsr (OInd (r - 8)))"

fun instr_plain :: "instr \<Rightarrow> bool" where
  "instr_plain (I_moveq n r) \<longleftrightarrow> r < 8"
| "instr_plain (I_move w a b) \<longleftrightarrow> operand_plain a \<and> operand_plain b \<and> (case b of Reg r \<Rightarrow> r < 8 | _ \<Rightarrow> True)"
| "instr_plain (I_movea a r) \<longleftrightarrow> operand_plain a \<and> 8 \<le> r \<and> r < 15"
| "instr_plain (I_lea a r) \<longleftrightarrow> operand_plain a \<and> 8 \<le> r \<and> r < 15"
| "instr_plain (I_alu op a) \<longleftrightarrow> operand_plain a"
| "instr_plain (I_addq c) \<longleftrightarrow> unat c \<le> 8"
| "instr_plain (I_subq c) \<longleftrightarrow> unat c \<le> 8"
| "instr_plain (I_alui op c) \<longleftrightarrow> op \<noteq> Op_add \<and> op \<noteq> Op_sub"
| "instr_plain (I_cmp a) \<longleftrightarrow> operand_plain a"
| "instr_plain (I_shift s a) \<longleftrightarrow> (case a of Reg r \<Rightarrow> r < 8 | Imm c \<Rightarrow> unat c \<le> 8 | _ \<Rightarrow> False)"
| "instr_plain (I_clr w a) \<longleftrightarrow> operand_plain a"
| "instr_plain (I_dbra r l) \<longleftrightarrow> r < 8"
| "instr_plain (I_pop r) \<longleftrightarrow> r < 15"
| "instr_plain (I_jsr_ind r n) \<longleftrightarrow> 8 \<le> r \<and> r < 15"
| "instr_plain i \<longleftrightarrow> True"


lemma assemble_two:
  assumes "mnemonic m" "word_text a" "word_text b"
  shows "assemble_line (''  '' @ m @ '' '' @ a @ '','' @ b) st = encode_insn m (Some a) (Some b) st"
  using assemble_words [of m "[a, b]" st] assms by (simp add: first_operand_def second_operand_def)

lemma lower_words: "list_all is_lower m \<Longrightarrow> m \<noteq> [] \<Longrightarrow> hd m \<noteq> CHR ''d'' \<Longrightarrow> mnemonic (m @ ''.l'')" "list_all is_lower m \<Longrightarrow> m \<noteq> [] \<Longrightarrow> hd m \<noteq> CHR ''d'' \<Longrightarrow> mnemonic (m @ ''.w'')"
  using mnemonic_sized [of m SzL] mnemonic_sized [of m SzW] by (simp_all add: sized_def)

text \<open>Three mnemonics that the selector prints and the listing does not: the assembler takes them for others.\<close>

lemma alias_movea:
  assumes "word_text a" "word_text b"
  shows "assemble_line (''  move.l '' @ a @ '','' @ b) st = assemble_line (''  movea.l '' @ a @ '','' @ b) st"
proof -
  have "mnemonic ''move.l''" "mnemonic ''movea.l''" using lower_words(1) [of "''move''"] lower_words(1) [of "''movea''"] by (simp_all add: is_lower_def)
  then show ?thesis using assemble_two [of "''move.l''" a b st] assemble_two [of "''movea.l''" a b st] assms
    by (simp add: encode_insn_def split_size_def)
qed

lemma show_nat_0: "show_nat 0 = ''0''" by code_simp

lemma alias_alui:
  assumes "op \<noteq> Op_add" "op \<noteq> Op_sub" "imm_ok SzL v"
  shows "assemble_line (''  '' @ alu_text op @ ''i.l #'' @ show_int v @ '',d0'') st = assemble_line (''  '' @ alu_text op @ ''.l #'' @ show_int v @ '',d0'') st"
proof -
  have w: "word_text ''d0''" using dn_word [of 0] by (simp add: show_nat_0)
  have "mnemonic ((alu_text op @ ''i'') @ ''.l'')" "mnemonic (alu_text op @ ''.l'')"
    by (rule lower_words(1); cases op; simp add: is_lower_def)+
  then have m: "mnemonic (alu_text op @ ''i.l'')" "mnemonic (alu_text op @ ''.l'')" by simp_all
  have p: "parse_ea (Some (CHR ''#'' # show_int v)) 4 = Inr (ea_of SzL (OImm v))" using assms(3) parse_oper4 [of "OImm v"] by simp
  have i: "ea_is_imm (ea_of SzL (OImm v))" by (simp add: ea_of_def)
  have "encode_insn (alu_text op @ ''i.l'') (Some (CHR ''#'' # show_int v)) (Some ''d0'') st = encode_insn (alu_text op @ ''.l'') (Some (CHR ''#'' # show_int v)) (Some ''d0'') st"
    using assms(1,2) i by (cases op) (auto simp: encode_insn_def split_size_def is_arith_def with2_def p enc_arith_def imm_code_def)
  then show ?thesis
    using assemble_two [OF m(1) imm_word w, of v st] assemble_two [OF m(2) imm_word w, of v st] by simp
qed

lemma alias_addsp:
  assumes "1 \<le> n" "n \<le> 8"
  shows "assemble_line (''  adda.w #'' @ show_int n @ '',sp'') st = assemble_line (''  addq.w #'' @ show_int n @ '',sp'') st"
proof -
  have w: "word_text ''sp''" using oper_word [of SzL "OAn 7"] by (simp add: areg_text_def)
  have m: "mnemonic ''adda.w''" "mnemonic ''addq.w''" using lower_words(2) [of "''adda''"] lower_words(2) [of "''addq''"] by (simp_all add: is_lower_def)
  have p: "parse_ea (Some (CHR ''#'' # show_int n)) 2 = Inr (ea_of SzW (OImm n))" "parse_ea (Some ''sp'') 2 = Inr (ea_of SzW (OAn 7))"
    using assms parse_oper [of SzW "OImm n"] parse_oper [of SzW "OAn 7"] by (simp_all add: areg_text_def)
  have "sint (of_int n :: u64) = n" using assms by (intro sint_of_int64) auto
  then have "encode_insn ''adda.w'' (Some (CHR ''#'' # show_int n)) (Some ''sp'') st = encode_insn ''addq.w'' (Some (CHR ''#'' # show_int n)) (Some ''sp'') st"
    using assms by (simp add: encode_insn_def split_size_def is_arith_def with2_def p enc_adda_def cur_char_def)
      (simp add: ea_of_def ea_field_def emit_ext_def put_text_def)
  then show ?thesis using assemble_two [OF m(1) imm_word w, of n st] assemble_two [OF m(2) imm_word w, of n st] by simp
qed


lemma dn0 [simp]: "oper_text (ODn 0) = ''d0''" by (simp add: show_nat_0)

lemma cond_nums:
  "CHR ''b'' # cond_text (cond_num c) = bcc_text c" "CHR ''s'' # set_text (cond_num c) = scc_text c"
  by (cases c; simp add: cond_text_def set_text_def)+

lemma sint_small: "unat c \<le> 8 \<Longrightarrow> sint c = int (unat (c :: u32))"
proof -
  assume "unat c \<le> 8"
  then have "int (unat c) \<le> 8" by linarith
  then have u: "uint c < 2 ^ 31" by simp
  have "sint c = signed_take_bit (LENGTH(32) - Suc 0) (uint c)" by (rule sint_uint)
  also have "\<dots> = uint c"
  proof (rule signed_take_bit_int_eq_self)
    show "uint c < 2 ^ (LENGTH(32) - Suc 0)" using u by simp
    have "0 \<le> uint c" by simp
    then show "- (2 ^ (LENGTH(32) - Suc 0)) \<le> uint c" by (rule order_trans [rotated]) simp
  qed
  finally show ?thesis by simp
qed

lemma line_two: "hw_parts i = (m, [a, b]) \<Longrightarrow> hw_line i = ''  '' @ m @ '' '' @ a @ '','' @ b"
  by (simp add: hw_line_def)

lemma line_one: "hw_parts i = (m, [a]) \<Longrightarrow> hw_line i = ''  '' @ m @ '' '' @ a"
  by (simp add: hw_line_def)

lemmas hw_lines = line_two line_one

lemma arith_text:
  assumes "operand_plain a" "op = Ar_eor \<longrightarrow> (case oper_of sr a of ODn r \<Rightarrow> True | OImm v \<Rightarrow> True | _ \<Rightarrow> False)"
  shows "hw_line (arith_insn op (oper_of sr a)) = ''  '' @ arith_text op @ ''.l '' @ operand_text sr a @ '',d0''"
proof -
  have "hw_parts (arith_insn op (oper_of sr a)) = (sized (arith_text op) SzL, [oper_text (oper_of sr a), ''d0''])"
    using assms(2) by (simp add: arith_insn_def show_nat_0 split: oper.splits)
  then show ?thesis using oper_of_text [OF assms(1), of sr] by (simp add: line_two sized_def)
qed

definition same_line :: "string \<Rightarrow> string \<Rightarrow> bool" where
  "same_line s t \<longleftrightarrow> (\<forall>st. assemble_line s st = assemble_line t st)"

lemma plain_line:
  assumes "instr_plain i" "item_ok (item_of sr i)"
  shows "same_line (asm_text sr i) (item_line (item_of sr i))"
proof (cases i)
  case (I_alui op c)
  have a: "arith_text (arith_of op) = alu_text op" by (cases op) simp_all
  have "imm_ok SzL (sint c)" using assms I_alui by simp
  then show ?thesis using assms I_alui alias_alui [of op "sint c"] a
    by (simp add: same_line_def hw_line_def sized_def show_nat_0)
next
  case (I_addsp n)
  have s: "areg_text 7 = ''sp''" by (simp add: areg_text_def)
  show ?thesis
  proof (cases "1 \<le> n \<and> n \<le> 8")
    case True
    then show ?thesis using I_addsp alias_addsp [of n] by (simp add: same_line_def hw_line_def sized_def s)
  next
    case False
    then show ?thesis using I_addsp by (auto simp: same_line_def hw_line_def sized_def s)
  qed
next
  case (I_pop r)
  show ?thesis
  proof (cases "r < 8")
    case True
    then show ?thesis using I_pop by (simp add: same_line_def hw_line_def sized_def areg_text_def reg_text_def)
  next
    case False
    then have "word_text (oper_text (OPost 7))" "word_text (oper_text (OAn (r - 8)))" using assms I_pop by (auto intro!: oper_word [of SzL] simp del: oper_text.simps)
    note a = alias_movea [OF this]
    have "asm_text sr i = ''  move.l '' @ oper_text (OPost 7) @ '','' @ oper_text (OAn (r - 8))"
      "item_line (item_of sr i) = ''  movea.l '' @ oper_text (OPost 7) @ '','' @ oper_text (OAn (r - 8))"
      using I_pop False assms by (simp_all add: hw_line_def sized_def areg_text_def reg_text_def)
    then show ?thesis using a by (simp only: same_line_def) simp
  qed
next
  case (I_move w a b)
  have "oper_of sr b \<noteq> OAn r" for r using assms I_move by (cases b) (auto split: if_splits)
  then have "hw_parts (HMove w (oper_of sr a) (oper_of sr b)) = (sized ''move'' w, [oper_text (oper_of sr a), oper_text (oper_of sr b)])"
    by (cases "oper_of sr b") auto
  then show ?thesis using assms I_move by (simp add: same_line_def line_two sized_def oper_of_text)
next
  case (I_alu op a)
  have "item_ok (IInsn (arith_insn (arith_of op) (oper_of sr a)))" using assms I_alu by simp
  then have "arith_of op = Ar_eor \<longrightarrow> (case oper_of sr a of ODn r \<Rightarrow> True | OImm v \<Rightarrow> True | _ \<Rightarrow> False)"
    by (auto simp: arith_insn_def split: oper.splits)
  moreover have "arith_text (arith_of op) = alu_text op" by (cases op) simp_all
  ultimately show ?thesis using assms I_alu by (simp add: same_line_def arith_text)
next
  case (I_cmp a)
  then show ?thesis using assms by (simp add: same_line_def arith_text)
next
  case (I_shift s a)
  have t: "shift_text s = sized (shift_base s) SzL" by (cases s) (simp_all add: sized_def)
  show ?thesis using assms I_shift
    by (cases a) (auto simp: same_line_def hw_line_def t show_nat_0 reg_text_def sint_small)
next
  case (I_scc c)
  then show ?thesis using cond_nums(2) [of c] by (simp add: same_line_def hw_line_def set_text_def show_nat_0)
next
  case (I_bcc c l)
  then show ?thesis using cond_nums(1) [of c] by (simp add: same_line_def hw_line_def)
qed (use assms in \<open>auto simp: same_line_def hw_line_def sized_def oper_of_text show_nat_0 sint_small areg_text_def reg_text_def cond_text_def simp del: operand_text.simps\<close>)


lemma plain_lines:
  assumes "list_all instr_plain is" "list_all item_ok (map (item_of sr) is)"
  shows "assemble_lines (map (asm_text sr) is) st = assemble_lines (map item_line (map (item_of sr) is)) st"
  using assms
proof (induction "is" arbitrary: st)
  case (Cons i "is")
  then have "assemble_line (asm_text sr i) st = assemble_line (item_line (item_of sr i)) st"
    using plain_line [of i sr] by (simp add: same_line_def)
  then show ?case using Cons by (cases "assemble_line (item_line (item_of sr i)) st") (simp_all add: Cons.IH)
qed simp

definition assembled_code :: "(string \<Rightarrow> string) \<Rightarrow> instr list \<Rightarrow> asm_error + asm_state" where
  "assembled_code sr is = bind_res (assemble_lines (''  .code'' # map (asm_text sr) is) asm_init) resolve_fixups"

text \<open> C32: The integrated assembler understands the instruction selector: whatever code of the selector's instructions, the
  text printed for it assembles, and the text section decodes to one instruction for each, with the operands, the
  labels and the branch targets of the code. The text may use the short forms (\<open>andi\<close>, \<open>move.l\<close> into an address register,
  \<open>adda\<close> of a small number), which become the instructions that they stand for.\<close>

theorem selected_code_assembles:
  assumes "list_all instr_plain is" "program_ok (map (item_of sr) is)"
  shows "case assembled_code sr is of Inl e \<Rightarrow> False
    | Inr st \<Rightarrow> reads (text_label st) (map (item_of sr) is) (text_stream st) = Some \<lparr>s_pos = length (as_text st), s_bytes = [], s_rels = [], s_fixes = []\<rparr> \<and>
        list_all (branch_ok st) (as_fixes st)"
proof -
  have "list_all item_ok (map (item_of sr) is)" using assms(2) by (simp add: program_ok_def)
  then have "assemble_lines (map (asm_text sr) is) = assemble_lines (map item_line (map (item_of sr) is))"
    by (intro ext plain_lines [OF assms(1)])
  then have "assembled_code sr is = assembled_program (map (item_of sr) is)"
    by (simp add: assembled_code_def assembled_program_def)
  then show ?thesis using assembled_program_reads [OF assms(2)] by simp
qed


definition demo_code :: "instr list" where
  "demo_code = [I_move SzL (Frame (- 4)) (Reg 0), I_alui Op_and 255, I_bcc C_ge ''.L1'', I_movea (Reg 0) 8, I_jsr_sym ''_f'' 1, I_addsp 4,
     I_label ''.L1'', I_push, I_pop 9]"

lemma demo_code_ok: "list_all instr_plain demo_code \<and> program_ok (map (item_of (\<lambda>n. n @ ''##'')) demo_code)"
  by (simp add: program_ok_def demo_code_def good_name_def name_char_def is_alpha_def is_lower_def is_digit_def cur_char_def)

lemma selected_code_assembles_witness:
  "case assembled_code (\<lambda>n. n @ ''##'') demo_code of Inl e \<Rightarrow> False
    | Inr st \<Rightarrow> reads (text_label st) (map (item_of (\<lambda>n. n @ ''##'')) demo_code) (text_stream st) = Some \<lparr>s_pos = length (as_text st), s_bytes = [], s_rels = [], s_fixes = []\<rparr> \<and>
        list_all (branch_ok st) (as_fixes st)"
  using selected_code_assembles [of demo_code "\<lambda>n. n @ ''##''"] demo_code_ok by blast

text \<open>
  A frame larger than 32K is allocated with its size reduced modulo 64K: the assembler encodes the same bytes for
  \<open>link a6,#-40000\<close> and \<open>link a6,#25536\<close>.
\<close>

lemma link_truncates:
  "encode_insn ''link'' (Some ''a6'') (Some ''#-40000'') st = encode_insn ''link'' (Some ''a6'') (Some ''#25536'') st"
proof -
  have "parse_num (show_int (- 40000)) = of_int (- 40000)" "parse_num (show_int 25536) = of_int 25536" by (rule parse_show_int; simp)+
  moreover have "show_int (- 40000) = ''-40000''" "show_int 25536 = ''25536''"
    by (simp_all add: show_int_def show_nat.simps digit_char_def char_of_def bit_iff_odd)
  ultimately show ?thesis by (simp add: encode_insn_def split_size_def is_arith_def is_unary_def is_shift_def skip1_def)
qed

end
