(* ===== verification/Elf_Write.thy ===== *)
theory Elf_Write
  imports Asm_Line
begin

text \<open>
  The ELF32 big-endian relocatable object (\<open>build_debug\<close> and the second half of \<open>assemble_to_elf\<close> in
  \<open>src/emit_elf.c\<close>): symbol binding and order, relocation sections, DWARF line numbers, section headers,
  file offsets and the bytes of the file.
\<close>

section \<open>Debug sections\<close>

record debug_info =
  di_abbrev :: bytes
  di_info :: bytes
  di_line :: bytes
  di_abbrev_off :: nat
  di_lowpc_off :: nat
  di_stmt_off :: nat
  di_line_addr_off :: nat

definition dbg_name :: "asm_state \<Rightarrow> string" where
  "dbg_name st = (case as_dbg_file st of Some f \<Rightarrow> f | None \<Rightarrow> ''a.c'')"

definition debug_abbrev :: bytes where
  "debug_abbrev = concat (map uleb [1, 0x11]) @ [0] @
     concat (map uleb [0x25, 0x08, 0x13, 0x0B, 0x03, 0x08, 0x11, 0x01, 0x12, 0x06, 0x10, 0x17, 0, 0, 0])"

text \<open>The length of a unit, put in front of it.\<close>

definition with_length :: "bytes \<Rightarrow> bytes" where "with_length b = b32 (of_nat (length b)) @ b"

definition info_head :: "bytes" where "info_head = b16 4"

definition info_tail :: "string \<Rightarrow> bytes" where
  "info_tail fname = [4] @ uleb 1 @ put_cstr ''c68k'' @ [0x0C] @ put_cstr fname"

definition debug_info_bytes :: "asm_state \<Rightarrow> bytes" where
  "debug_info_bytes st =
     with_length (info_head @ b32 0 @ info_tail (dbg_name st) @ b32 0 @ b32 (text_len st) @ b32 0)"

definition line_files :: "string \<Rightarrow> bytes" where
  "line_files fname = [1, 1, 1, - 5, 14, 13, 0, 1, 1, 1, 1, 0, 0, 0, 1, 0, 0, 1] @ [0] @ put_cstr fname @ concat (map uleb [0, 0, 0]) @ [0]"

text \<open>The rows: the address and the line so far, and the rows to come.\<close>

fun line_rows :: "u32 \<Rightarrow> u32 \<Rightarrow> (u32 \<times> u32) list \<Rightarrow> u32 \<times> bytes" where
  "line_rows addr line [] = (addr, [])"
| "line_rows addr line ((a, l) # rs) =
     (case line_rows a l rs of (e, bs) \<Rightarrow>
        (e, (if a \<noteq> addr then 2 # uleb (ucast (a - addr)) else []) @
            (if l \<noteq> line then 3 # sleb (scast (l - line)) else []) @ [1] @ bs))"

definition line_head :: "string \<Rightarrow> bytes" where
  "line_head fname = b16 4 @ with_length (line_files fname) @ [0] @ uleb 5 @ [2]"

definition line_program :: "asm_state \<Rightarrow> bytes" where
  "line_program st =
     (case line_rows 0 1 (as_lrows st) of (addr, bs) \<Rightarrow>
        bs @ (if addr < text_len st then 2 # uleb (ucast (text_len st - addr)) else []) @ [0] @ uleb 1 @ [1])"

definition build_debug :: "asm_state \<Rightarrow> debug_info" where
  "build_debug st =
     \<lparr>di_abbrev = debug_abbrev, di_info = debug_info_bytes st,
      di_line = with_length (line_head (dbg_name st) @ b32 0 @ line_program st),
      di_abbrev_off = 4 + length info_head,
      di_lowpc_off = 8 + length info_head + length (info_tail (dbg_name st)),
      di_stmt_off = 16 + length info_head + length (info_tail (dbg_name st)),
      di_line_addr_off = 4 + length (line_head (dbg_name st))\<rparr>"

section \<open>Symbols\<close>

definition STB_GLOBAL :: u32 where "STB_GLOBAL = 1"

definition bind_symbol :: "asm_state \<Rightarrow> asm_sym \<Rightarrow> asm_sym" where
  "bind_symbol st s =
     s\<lparr>sy_bind := (if sy_shndx s = S_NULL \<or> sy_name s \<in> set (as_public st) \<or> sy_name s \<in> set (as_extern st) then STB_GLOBAL else 0)\<rparr>"

definition section_sym :: "nat \<Rightarrow> asm_sym" where
  "section_sym shndx = (new_sym '''')\<lparr>sy_is_section := True, sy_shndx := shndx\<rparr>"

record symtab =
  st_next :: nat
  st_strtab :: bytes
  st_symtab :: bytes

definition sym_entry :: "string list \<Rightarrow> asm_sym \<Rightarrow> bytes" where
  "sym_entry funcs s =
     (let typ = (if sy_is_section s then 3 else if sy_name s \<in> set funcs then 2 else 0)
      in b32 (of_nat (sy_nameoff s)) @ b32 (sy_value s) @ b32 (sy_size s) @ [ucast (push_bit 4 (sy_bind s) OR typ), 0] @ b16 (of_nat (sy_shndx s)))"

text \<open>One pass over the symbols of one binding.\<close>

fun symbol_pass :: "string list \<Rightarrow> u32 \<Rightarrow> asm_sym list \<Rightarrow> symtab \<Rightarrow> asm_sym list \<times> symtab" where
  "symbol_pass funcs want [] t = ([], t)"
| "symbol_pass funcs want (s # ss) t =
     (if sy_bind s \<noteq> want then (case symbol_pass funcs want ss t of (ss', t') \<Rightarrow> (s # ss', t'))
      else
        (let s' = s\<lparr>sy_index := st_next t, sy_nameoff := (if sy_is_section s then 0 else length (st_strtab t))\<rparr>;
             t1 = \<lparr>st_next = Suc (st_next t), st_strtab = (if sy_is_section s then st_strtab t else st_strtab t @ put_cstr (sy_name s)),
                   st_symtab = st_symtab t @ sym_entry funcs s'\<rparr>
         in case symbol_pass funcs want ss t1 of (ss', t') \<Rightarrow> (s' # ss', t')))"

definition empty_symtab :: symtab where
  "empty_symtab = \<lparr>st_next = 1, st_strtab = [0], st_symtab = replicate 16 0\<rparr>"

text \<open>The symbols with their indices, the first global index and the tables.\<close>

definition order_symbols :: "string list \<Rightarrow> asm_sym list \<Rightarrow> asm_sym list \<times> nat \<times> symtab" where
  "order_symbols funcs ss =
     (case symbol_pass funcs 0 ss empty_symtab of (ss1, t1) \<Rightarrow>
      case symbol_pass funcs STB_GLOBAL ss1 t1 of (ss2, t2) \<Rightarrow> (ss2, st_next t1, t2))"

section \<open>Relocations\<close>

definition rela_entry :: "u32 \<Rightarrow> u32 \<Rightarrow> u32 \<Rightarrow> bytes" where
  "rela_entry off index add = b32 off @ b32 (push_bit 8 index OR R_68K_32) @ b32 add"

definition rel_bytes :: "asm_sym list \<Rightarrow> asm_rel \<Rightarrow> asm_error + bytes" where
  "rel_bytes ss r =
     (case find (\<lambda>s. sy_name s = rl_sym r) ss of
        None \<Rightarrow> asm_err ''emit_elf: relocation against unknown symbol '' (rl_sym r)
      | Some s \<Rightarrow> Inr (b32 (rl_off r) @ b32 (push_bit 8 (of_nat (sy_index s)) OR rl_type r) @ b32 (rl_add r)))"

text \<open>The entries for \<open>.rela.text\<close> and \<open>.rela.data\<close>; what is not in \<open>.data\<close> goes to the first.\<close>

fun rela_sections :: "asm_sym list \<Rightarrow> asm_rel list \<Rightarrow> asm_error + (bytes \<times> bytes)" where
  "rela_sections ss [] = Inr ([], [])"
| "rela_sections ss (r # rs) =
     bind_res (rel_bytes ss r) (\<lambda>b. bind_res (rela_sections ss rs) (\<lambda>(t, d).
       Inr (if rl_sec r = S_DATA then (t, b @ d) else (b @ t, d))))"

section \<open>Sections and the file\<close>

record shdr =
  sh_name :: "string option"
  sh_type :: u32
  sh_flags :: u32
  sh_link :: nat
  sh_info :: nat
  sh_entsize :: u32
  sh_align :: u32
  sh_data :: bytes
  sh_size :: u32
  sh_offset :: u32
  sh_nameoff :: nat

definition shdr_null :: shdr where
  "shdr_null = \<lparr>sh_name = None, sh_type = 0, sh_flags = 0, sh_link = 0, sh_info = 0, sh_entsize = 0, sh_align = 0,
     sh_data = [], sh_size = 0, sh_offset = 0, sh_nameoff = 0\<rparr>"

definition progbits :: "string \<Rightarrow> u32 \<Rightarrow> u32 \<Rightarrow> bytes \<Rightarrow> shdr" where
  "progbits name flags al d = shdr_null\<lparr>sh_name := Some name, sh_type := 1, sh_flags := flags, sh_align := al, sh_data := d, sh_size := of_nat (length d)\<rparr>"

definition rela_hdr :: "string \<Rightarrow> nat \<Rightarrow> nat \<Rightarrow> bytes \<Rightarrow> shdr" where
  "rela_hdr name link info d = (progbits name 0 4 d)\<lparr>sh_type := 4, sh_link := link, sh_info := info, sh_entsize := 12\<rparr>"

fun name_offsets :: "bytes \<Rightarrow> shdr list \<Rightarrow> shdr list \<times> bytes" where
  "name_offsets b [] = ([], b)"
| "name_offsets b (h # hs) =
     (case (case sh_name h of None \<Rightarrow> (0, b) | Some n \<Rightarrow> add_str b n) of (o1, b1) \<Rightarrow>
      case name_offsets b1 hs of (hs', b2) \<Rightarrow> (h\<lparr>sh_nameoff := o1\<rparr> # hs', b2))"

text \<open>A section without bytes in the file.\<close>

definition no_bytes :: "nat \<Rightarrow> shdr \<Rightarrow> bool" where "no_bytes i h \<longleftrightarrow> sh_type h = 8 \<or> sh_size h = 0 \<or> i = 0"

fun layout :: "nat \<Rightarrow> u32 \<Rightarrow> shdr list \<Rightarrow> shdr list \<times> u32" where
  "layout i off [] = ([], off)"
| "layout i off (h # hs) =
     (if no_bytes i h then (case layout (Suc i) off hs of (hs', e) \<Rightarrow> (h\<lparr>sh_offset := off\<rparr> # hs', e))
      else
        (let o1 = (if 1 < sh_align h then (off + sh_align h - 1) div sh_align h * sh_align h else off)
         in case layout (Suc i) (o1 + sh_size h) hs of (hs', e) \<Rightarrow> (h\<lparr>sh_offset := o1\<rparr> # hs', e)))"

definition fill :: "u32 \<Rightarrow> u32 \<Rightarrow> bytes" where "fill pos off = (if pos < off then replicate (unat (off - pos)) 0 else [])"

fun write_data :: "nat \<Rightarrow> u32 \<Rightarrow> shdr list \<Rightarrow> bytes \<times> u32" where
  "write_data i pos [] = ([], pos)"
| "write_data i pos (h # hs) =
     (if no_bytes i h then write_data (Suc i) pos hs
      else
        (let p1 = (if pos < sh_offset h then sh_offset h else pos)
         in case write_data (Suc i) (p1 + sh_size h) hs of (bs, e) \<Rightarrow> (fill pos (sh_offset h) @ sh_data h @ bs, e)))"

definition shdr_bytes :: "nat \<Rightarrow> shdr \<Rightarrow> bytes" where
  "shdr_bytes i h =
     b32 (of_nat (sh_nameoff h)) @ b32 (sh_type h) @ b32 (sh_flags h) @ b32 0 @ b32 (sh_offset h) @
     b32 (if i = 0 then 0 else sh_size h) @ b32 (of_nat (sh_link h)) @ b32 (of_nat (sh_info h)) @ b32 (sh_align h) @ b32 (sh_entsize h)"

definition elf_header :: "u32 \<Rightarrow> nat \<Rightarrow> nat \<Rightarrow> bytes" where
  "elf_header shoff nsh shstrndx =
     [0x7F, 69, 76, 70, 1, 2, 1] @ replicate 9 0 @ b16 1 @ b16 4 @ b32 1 @ b32 0 @ b32 0 @ b32 shoff @ b32 0x1000000 @
     b16 52 @ b16 0 @ b16 0 @ b16 40 @ b16 (of_nat nsh) @ b16 (of_nat shstrndx)"

definition write_elf :: "shdr list \<Rightarrow> bytes" where
  "write_elf hs0 =
     (case layout 0 52 hs0 of (hs, off) \<Rightarrow>
      let shoff = (off + 3) AND NOT 3
      in case write_data 0 52 hs of (bs, pos) \<Rightarrow>
           elf_header shoff (length hs) (length hs - 1) @ bs @ fill pos shoff @
           concat (map (\<lambda>(i, h). shdr_bytes i h) (enumerate 0 hs)))"

definition debug_headers :: "nat \<Rightarrow> nat \<Rightarrow> debug_info \<Rightarrow> (nat \<Rightarrow> nat) \<Rightarrow> shdr list" where
  "debug_headers next idx_symtab d ix =
     [progbits ''.debug_abbrev'' 0 1 (di_abbrev d), progbits ''.debug_info'' 0 1 (di_info d), progbits ''.debug_line'' 0 1 (di_line d),
      rela_hdr ''.rela.debug_info'' idx_symtab (next + 1)
        (rela_entry (of_nat (di_abbrev_off d)) (of_nat (ix 1)) 0 @ rela_entry (of_nat (di_lowpc_off d)) (of_nat (ix 0)) 0 @
         rela_entry (of_nat (di_stmt_off d)) (of_nat (ix 2)) 0),
      rela_hdr ''.rela.debug_line'' idx_symtab (next + 2) (rela_entry (of_nat (di_line_addr_off d)) (of_nat (ix 0)) 0)]"

text \<open>The section list and the file, from the state after the fixups.\<close>

definition elf_sections :: "asm_state \<Rightarrow> asm_error + shdr list" where
  "elf_sections st =
     (let have_rd = list_ex (\<lambda>r. rl_sec r = S_DATA) (as_rels st);
          have_rt = list_ex (\<lambda>r. rl_sec r \<noteq> S_DATA) (as_rels st);
          have_dbg = (as_lrows st \<noteq> []);
          next = S_RODATA + 1 + (if have_rt then 1 else 0) + (if have_rd then 1 else 0);
          idx_symtab = next + (if have_dbg then 5 else 0);
          ss0 = map (bind_symbol st) (as_syms st);
          ss1 = ss0 @ (if have_dbg then map section_sym [S_TEXT, next, next + 2] else [])
      in case order_symbols (as_funcs st) ss1 of (ss, first_global, t) \<Rightarrow>
         bind_res (rela_sections ss (as_rels st)) (\<lambda>(rt, rd).
           let hs = [shdr_null, progbits ''.text'' 6 4 (as_text st), progbits ''.data'' 3 4 (as_data st),
                     (progbits ''.bss'' 3 4 [])\<lparr>sh_type := 8, sh_size := as_bss st\<rparr>, progbits ''.rodata'' 2 4 (as_rodata st)] @
                  (if have_rt then [rela_hdr ''.rela.text'' idx_symtab S_TEXT rt] else []) @
                  (if have_rd then [rela_hdr ''.rela.data'' idx_symtab S_DATA rd] else []) @
                  (if have_dbg then debug_headers next idx_symtab (build_debug st) (\<lambda>k. sy_index (ss ! (length ss0 + k))) else []) @
                  [(progbits ''.symtab'' 0 4 (st_symtab t))\<lparr>sh_type := 2, sh_link := idx_symtab + 1, sh_info := first_global, sh_entsize := 16\<rparr>,
                   (progbits ''.strtab'' 0 1 (st_strtab t))\<lparr>sh_type := 3\<rparr>, (progbits ''.shstrtab'' 0 1 [])\<lparr>sh_type := 3\<rparr>]
           in case name_offsets [0] hs of (hs', shstr) \<Rightarrow>
                Inr (butlast hs' @ [(last hs')\<lparr>sh_data := shstr, sh_size := of_nat (length shstr)\<rparr>])))"

definition assemble_to_elf :: "string \<Rightarrow> asm_error + bytes" where
  "assemble_to_elf s =
     bind_res (assemble_lines (asm_lines s) asm_init) (\<lambda>st.
     bind_res (resolve_fixups st) (\<lambda>st'. bind_res (elf_sections st') (\<lambda>hs. Inr (write_elf hs))))"

end
