(* ===== verification/Elf_Spec.thy ===== *)
theory Elf_Spec
  imports Elf_Write Asm_Roundtrip
begin

text \<open>
  What a reader of the object file finds: the line table, the sections and the symbols.
\<close>

section \<open>The line table\<close>

lemma uleb_shorter: "uleb_value p = Some (v, q) \<Longrightarrow> length q < length p"
  by (induction p arbitrary: v q) (force split: if_splits)+

lemma sleb_shorter: "sleb_value p = Some (v, q) \<Longrightarrow> length q < length p"
  by (induction p arbitrary: v q) (force split: if_splits)+

text \<open>The line number machine of DWARF on the opcodes of the compiler: the rows, and the address of the end.\<close>

function line_machine :: "u32 \<Rightarrow> u32 \<Rightarrow> bytes \<Rightarrow> ((u32 \<times> u32) list \<times> u32) option" where
  "line_machine a l [] = None"
| "line_machine a l (b # p) =
     (if b = 1 then map_option (\<lambda>(rs, e). ((a, l) # rs, e)) (line_machine a l p)
      else if b = 2 then (case uleb_value p of None \<Rightarrow> None | Some (v, q) \<Rightarrow> line_machine (a + of_nat v) l q)
      else if b = 3 then (case sleb_value p of None \<Rightarrow> None | Some (v, q) \<Rightarrow> line_machine a (l + of_int v) q)
      else if b = 0 \<and> p = [1, 1] then Some ([], a) else None)"
  by pat_completeness auto
termination
proof (relation "measure (\<lambda>(a, l, p). length p)")
  fix l a :: u32 and b :: u8 and p q v x
  show "uleb_value p = Some x \<Longrightarrow> (v, q) = x \<Longrightarrow> ((a + of_nat v, l, q), a, l, b # p) \<in> measure (\<lambda>(a, l, p). length p)"
    using uleb_shorter [of p v q] by auto
next
  fix l a :: u32 and b :: u8 and p q v x
  show "sleb_value p = Some x \<Longrightarrow> (v, q) = x \<Longrightarrow> ((a, l + of_int v, q), a, l, b # p) \<in> measure (\<lambda>(a, l, p). length p)"
    using sleb_shorter [of p v q] by auto
qed auto

declare line_machine.simps(2) [simp del]

lemma machine_advance: "line_machine a l ((if b \<noteq> a then 2 # uleb (ucast (b - a)) else []) @ p) = line_machine b l p"
proof -
  have "unat (ucast (b - a) :: u64) = unat (b - a)" by (simp add: unsigned_ucast_eq take_bit_nat_eq_self_iff less_le_trans [OF unsigned_less])
  then show ?thesis by (simp add: line_machine.simps(2) [of _ _ 2] uleb_inverse)
qed

lemma machine_line: "line_machine a l ((if k \<noteq> l then 3 # sleb (scast (k - l)) else []) @ p) = line_machine a k p"
proof -
  have "sint (scast (k - l) :: u64) = sint (k - l)" by (simp add: sint_up_scast is_up)
  then show ?thesis by (simp add: line_machine.simps(2) [of _ _ 3] sleb_inverse)
qed

lemma machine_rows:
  "line_machine a l (snd (line_rows a l rs) @ p) = map_option (\<lambda>(r, e). (rs @ r, e)) (line_machine (fst (line_rows a l rs)) (if rs = [] then l else snd (last rs)) p)"
proof (induction a l rs rule: line_rows.induct)
  case (2 addr line a l rs)
  obtain e bs where r: "line_rows a l rs = (e, bs)" by fastforce
  have "line_machine addr line (snd (line_rows addr line ((a, l) # rs)) @ p) =
      map_option (\<lambda>(rs, e). ((a, l) # rs, e)) (line_machine a l (bs @ p))"
    by (simp add: r machine_advance machine_line line_machine.simps(2) [of _ _ 1])
  then show ?case using 2 r by (simp add: option.map_comp o_def case_prod_unfold)
qed (simp add: case_prod_unfold option.map_ident)

lemma rows_end: "fst (line_rows a l rs) = (if rs = [] then a else fst (last rs))"
  by (induction a l rs rule: line_rows.induct) (auto split: prod.splits)

lemma uleb_one: "uleb 1 = [1]" by (simp add: uleb.simps)

text \<open> C34: The line table of the object file can be read back: the line number machine of DWARF, run on the line program that
  the assembler writes, yields exactly the rows that the \<open>loc\<close> directives recorded, addresses and line numbers in any
  order, and the sequence ends at the end of the text (or at the last row, if that lies beyond).\<close>

theorem line_program_roundtrip:
  "line_machine 0 1 (line_program st) =
     Some (as_lrows st, max (text_len st) (if as_lrows st = [] then 0 else fst (last (as_lrows st))))"
proof -
  obtain e bs where r: "line_rows 0 1 (as_lrows st) = (e, bs)" by fastforce
  have e: "e = (if as_lrows st = [] then 0 else fst (last (as_lrows st)))" using rows_end [of 0 1 "as_lrows st"] r by simp
  have z: "line_machine a l [0, 1, 1] = Some ([], a)" for a l by (simp add: line_machine.simps(2))
  have p: "line_program st = bs @ (if e < text_len st then 2 # uleb (ucast (text_len st - e)) else []) @ [0, 1, 1]"
    by (simp add: line_program_def r uleb_one)
  have "line_machine e k ((if e < text_len st then 2 # uleb (ucast (text_len st - e)) else []) @ [0, 1, 1]) = Some ([], max (text_len st) e)" for k
  proof (cases "e < text_len st")
    case True
    then have "text_len st \<noteq> e" by simp
    then show ?thesis using machine_advance [of e k "text_len st" "[0, 1, 1]"] z True by (simp add: max_def)
  qed (auto simp: z max_def not_less)
  then show ?thesis using machine_rows [of 0 1 "as_lrows st"] r p e by simp
qed

section \<open>File offsets\<close>

definition round_up :: "nat \<Rightarrow> nat \<Rightarrow> nat" where "round_up n a = (if 1 < a then (n + a - 1) div a * a else n)"

lemma round_up_props: "n \<le> round_up n a" "0 < a \<Longrightarrow> round_up n a < n + a" "0 < a \<Longrightarrow> round_up n a mod a = 0"
proof -
  show "0 < a \<Longrightarrow> round_up n a mod a = 0" by (auto simp: round_up_def) (cases a; simp)
  have d: "(n + a - 1) mod a + (n + a - 1) div a * a = n + a - 1" by simp
  show "n \<le> round_up n a"
  proof (cases "1 < a")
    case True
    then have "(n + a - 1) mod a < a" by simp
    then have "(n + a - 1) mod a \<le> a - 1" by linarith
    then have "n \<le> (n + a - 1) div a * a" using d True by linarith
    then show ?thesis using True by (simp add: round_up_def)
  qed (simp add: round_up_def)
  show "0 < a \<Longrightarrow> round_up n a < n + a"
  proof -
    assume "0 < a"
    then have "(n + a - 1) div a * a < n + a" using d by linarith
    then show ?thesis using \<open>0 < a\<close> by (simp add: round_up_def)
  qed
qed

lemma round_up_le: "round_up n a \<le> n + a"
  using round_up_props(2) [of a n] by (cases "0 < a") (auto simp: round_up_def)

lemma round_up_word:
  assumes "n + unat al < 2 ^ 32"
  shows "(if 1 < al then (of_nat n + al - 1) div al * al else of_nat n) = (of_nat (round_up n (unat al)) :: u32)"
proof (cases "1 < al")
  case True
  then have a: "1 < unat al" by (simp add: word_less_nat_alt)
  have "of_nat n + al - 1 = (of_nat (n + unat al - 1) :: u32)" using a by (simp add: of_nat_diff)
  moreover have "of_nat (n + unat al - 1) div al = (of_nat ((n + unat al - 1) div unat al) :: u32)"
    using assms by (simp add: word_arith_nat_div unat_of_nat take_bit_nat_eq_self)
  ultimately show ?thesis using True a by (simp add: round_up_def)
next
  case False
  then have "\<not> 1 < unat al" by (simp add: word_less_nat_alt)
  then show ?thesis using False by (simp add: round_up_def)
qed


definition shdr_ok :: "shdr \<Rightarrow> bool" where
  "shdr_ok h \<longleftrightarrow> sh_type h = 8 \<or> sh_size h = of_nat (length (sh_data h)) \<and> length (sh_data h) < 2 ^ 32"

text \<open>An upper bound of the file size.\<close>

definition file_room :: "shdr list \<Rightarrow> nat" where
  "file_room hs = (\<Sum>h \<leftarrow> hs. length (sh_data h) + unat (sh_align h))"

definition placed :: "bytes \<Rightarrow> nat \<Rightarrow> nat \<Rightarrow> shdr \<Rightarrow> bool" where
  "placed b o1 i h \<longleftrightarrow> no_bytes i h \<or> (o1 \<le> unat (sh_offset h) \<and> unat (sh_offset h) mod max 1 (unat (sh_align h)) = 0 \<and>
     unat (sh_offset h) - o1 + length (sh_data h) \<le> length b \<and> take (length (sh_data h)) (drop (unat (sh_offset h) - o1) b) = sh_data h)"

lemma no_bytes_offset [simp]: "no_bytes i (h\<lparr>sh_offset := x\<rparr>) = no_bytes i h" by (simp add: no_bytes_def)

lemma placed_later: "placed b (o1 + length a) i h \<Longrightarrow> placed (a @ b) o1 i h"
  by (auto simp: placed_def)

lemma fill_length: "unat off = n + k \<Longrightarrow> unat pos = n \<Longrightarrow> fill pos off = replicate k 0"
proof -
  assume a: "unat off = n + k" "unat pos = n"
  show ?thesis
  proof (cases "pos < off")
    case True
    then have "unat (off - pos) = k" using a by (simp add: unat_sub)
    then show ?thesis using True by (simp add: fill_def)
  next
    case False
    then have "k = 0" using a by (simp add: word_less_nat_alt)
    then show ?thesis using False by (simp add: fill_def)
  qed
qed

lemma enumerate_shift: "enumerate (n + m) xs = map (\<lambda>(k, h). (n + k, h)) (enumerate m xs)"
proof (induction xs arbitrary: m)
  case (Cons x xs)
  then show ?case using Cons [of "Suc m"] by simp
qed simp

lemma write_layout:
  assumes "list_all shdr_ok hs" "n + file_room hs < 2 ^ 32" "layout i (of_nat n) hs = (hs', e)" "write_data i (of_nat n) hs' = (b, p)"
  shows "p = e \<and> unat e = n + length b \<and> length b \<le> file_room hs \<and> length hs' = length hs \<and> list_all (\<lambda>(k, h). placed b n (i + k) h) (enumerate 0 hs')"
  using assms
proof (induction hs arbitrary: i n hs' b)
  case Nil
  then show ?case by (auto simp: unat_of_nat take_bit_nat_eq_self file_room_def)
next
  case (Cons h hs)
  have un: "unat (of_nat n :: u32) = n" using Cons.prems(2) by (simp add: unat_of_nat take_bit_nat_eq_self)
  note en = enumerate_shift [of 1 0, simplified]
  show ?case
  proof (cases "no_bytes i h")
    case True
    obtain hs1 where l: "layout (Suc i) (of_nat n) hs = (hs1, e)" "hs' = h\<lparr>sh_offset := of_nat n\<rparr> # hs1"
      using Cons.prems(3) True by (auto split: prod.splits)
    have w: "write_data (Suc i) (of_nat n) hs1 = (b, p)" using Cons.prems(4) l True by simp
    have "n + file_room hs < 2 ^ 32" using Cons.prems(2) by (simp add: file_room_def)
    from Cons.IH [OF _ this l(1) w] Cons.prems(1) show ?thesis
      using True l(2) by (auto simp: file_room_def en list.pred_map comp_def case_prod_unfold placed_def)
  next
    case False
    let ?o = "round_up n (unat (sh_align h))" and ?k = "length (sh_data h)"
    have size: "sh_size h = of_nat ?k" "sh_type h \<noteq> 8" using Cons.prems(1) False by (auto simp: shdr_ok_def no_bytes_def)
    have o: "(if 1 < sh_align h then (of_nat n + sh_align h - 1) div sh_align h * sh_align h else of_nat n) = (of_nat ?o :: u32)"
      by (rule round_up_word) (use Cons.prems(2) in \<open>simp add: file_room_def\<close>)
    have ob: "n \<le> ?o" "?o \<le> n + unat (sh_align h)" by (rule round_up_props(1), rule round_up_le)
    have fits: "?o + ?k + file_room hs < 2 ^ 32" using Cons.prems(2) ob by (simp add: file_room_def)
    have uo: "unat (of_nat ?o :: u32) = ?o" using fits by (simp add: unat_of_nat take_bit_nat_eq_self)
    obtain hs1 where l: "layout (Suc i) (of_nat ?o + sh_size h) hs = (hs1, e)" "hs' = h\<lparr>sh_offset := of_nat ?o\<rparr> # hs1"
      using Cons.prems(3) False o by (auto simp: Let_def split: prod.splits)
    have pos: "(if of_nat n < (of_nat ?o :: u32) then sh_offset (h\<lparr>sh_offset := of_nat ?o\<rparr>) else of_nat n) = (of_nat ?o :: u32)"
      using ob(1) un uo by (auto simp: word_less_nat_alt not_less)
    obtain bs where w: "write_data (Suc i) (of_nat ?o + sh_size h) hs1 = (bs, p)" "b = fill (of_nat n) (of_nat ?o) @ sh_data h @ bs"
      using Cons.prems(4) l False pos by (auto simp: Let_def split: prod.splits)
    have f: "fill (of_nat n) (of_nat ?o) = replicate (?o - n) 0" by (rule fill_length) (use un uo ob in auto)
    have "list_all shdr_ok hs" using Cons.prems(1) by simp
    from Cons.IH [OF this _ _ , of "?o + ?k" "Suc i" hs1 bs] fits l(1) w(1) size
    have ih: "p = e" "unat e = ?o + ?k + length bs" "length bs \<le> file_room hs" "length hs1 = length hs"
      "list_all (\<lambda>(k, h). placed bs (?o + ?k) (Suc i + k) h) (enumerate 0 hs1)" by auto
    have "placed b n i (h\<lparr>sh_offset := of_nat ?o\<rparr>)" using ob uo f w(2) round_up_props(3) [of "unat (sh_align h)" n]
      by (auto simp: placed_def max_def)
    moreover have "list_all (\<lambda>(k, h). placed b n (Suc i + k) h) (enumerate 0 hs1)"
    proof -
      have "placed bs (?o + ?k) j g \<Longrightarrow> placed b n j g" for j g
        using placed_later [of bs n "fill (of_nat n) (of_nat ?o) @ sh_data h" j g] f w(2) ob by simp
      then show ?thesis using ih(5) by (auto simp: list_all_iff)
    qed
    ultimately show ?thesis using ih(1-4) l(2) w(2) f ob
      by (auto simp: file_room_def en list.pred_map comp_def case_prod_unfold)
  qed
qed


text \<open>The file: the header, the sections, and the section headers where the header says.\<close>

lemma header_length: "length (elf_header a n k) = 52"
  by (simp add: elf_header_def)

lemma round4: "(off + 3) AND NOT 3 = (of_nat (round_up (unat off) 4) :: u32)" if "unat off + 4 < 2 ^ 32" for off :: u32
proof -
  have m: "(3 :: u32) = mask 2" by (simp add: mask_eq_exp_minus_1)
  have u: "unat (off + 3) = unat off + 3" using that by (subst unat_add_lem [THEN iffD1]) simp_all
  have "(off + 3) AND NOT 3 = push_bit 2 (drop_bit 2 (off + 3))" unfolding m by (rule bit_word_eqI) (auto simp: bit_simps not_less dest!: le_Suc_ex)
  then have "unat ((off + 3) AND NOT 3) = unat (push_bit 2 (drop_bit 2 (off + 3)))" by simp
  also have "\<dots> = take_bit 32 (push_bit 2 (drop_bit 2 (unat off + 3)))"
    by (simp only: unsigned_push_bit_eq unat_drop_bit_eq u) simp
  also have "\<dots> = (unat off + 3) div 4 * 4"
  proof -
    have "(unat off + 3) div 4 * 4 \<le> unat off + 3" by simp
    then have "(unat off + 3) div 4 * 4 < 2 ^ 32" using that by linarith
    then show ?thesis by (simp add: push_bit_eq_mult drop_bit_eq_div take_bit_nat_eq_self)
  qed
  finally have "unat ((off + 3) AND NOT 3) = round_up (unat off) 4" by (simp add: round_up_def)
  then have "(of_nat (unat ((off + 3) AND NOT 3)) :: u32) = of_nat (round_up (unat off) 4)" by simp
  then show ?thesis by simp
qed

definition sections_fit :: "shdr list \<Rightarrow> bool" where
  "sections_fit hs \<longleftrightarrow> list_all shdr_ok hs \<and> 60 + file_room hs < 2 ^ 32"

definition section_in :: "bytes \<Rightarrow> nat \<Rightarrow> shdr \<Rightarrow> bool" where
  "section_in file i h \<longleftrightarrow> no_bytes i h \<or>
     (unat (sh_offset h) mod max 1 (unat (sh_align h)) = 0 \<and> take (length (sh_data h)) (drop (unat (sh_offset h)) file) = sh_data h)"

lemma placed_in: "length pre = n \<Longrightarrow> placed b n i h \<Longrightarrow> section_in (pre @ b @ t) i h"
proof -
  assume l: "length pre = n" and p: "placed b n i h"
  show ?thesis
  proof (cases "no_bytes i h")
    case False
    then have q: "n \<le> unat (sh_offset h)" "unat (sh_offset h) mod max 1 (unat (sh_align h)) = 0" "unat (sh_offset h) - n + length (sh_data h) \<le> length b"
      "take (length (sh_data h)) (drop (unat (sh_offset h) - n) b) = sh_data h" using p by (auto simp: placed_def)
    then have "drop (unat (sh_offset h)) (pre @ b @ t) = drop (unat (sh_offset h) - n) b @ t" using l by simp
    then show ?thesis using q by (simp add: section_in_def)
  qed (simp add: section_in_def)
qed

text \<open>What the file says of itself: the section headers of the laid out sections, at the offset in the header.\<close>

definition be32_at :: "bytes \<Rightarrow> nat \<Rightarrow> nat" where
  "be32_at b k = 65536 * (256 * unat (b ! k) + unat (b ! (k + 1))) + (256 * unat (b ! (k + 2)) + unat (b ! (k + 3)))"

definition file_ok :: "bytes \<Rightarrow> shdr list \<Rightarrow> bool" where
  "file_ok file hs \<longleftrightarrow> list_all (\<lambda>(i, h). section_in file i h) (enumerate 0 hs) \<and>
     be32_at file 32 mod 4 = 0 \<and> drop (be32_at file 32) file = concat (map (\<lambda>(i, h). shdr_bytes i h) (enumerate 0 hs))"

lemma be32_value: "be32_at (b32 a @ p) 0 = unat a"
proof -
  have d: "drop_bit 8 (drop_bit 16 a) = drop_bit 24 a" by (simp add: drop_bit_drop_bit)
  have "be32_at (b32 a @ p) 0 = 65536 * (unat (drop_bit 16 a) mod 65536) + unat a mod 65536"
    using b16_value [of "drop_bit 16 a"] b16_value [of a] by (simp add: be32_at_def b32_def d)
  also have "unat (drop_bit 16 a) = unat a div 65536" by (simp only: unat_drop_bit_eq) (simp add: drop_bit_eq_div)
  also have "unat a div 65536 mod 65536 = unat a div 65536" 
  proof (rule mod_less)
    have "unat a < 2 ^ LENGTH(32)" by (rule unsigned_less)
    then show "unat a div 65536 < 65536" by (simp add: less_mult_imp_div_less)
  qed
  finally show ?thesis by simp
qed

lemma be32_shift: "length q = k \<Longrightarrow> be32_at (q @ b) k = be32_at b 0"
  by (simp add: be32_at_def nth_append numeral_2_eq_2 numeral_3_eq_3)

lemma header_shoff: "be32_at (elf_header a n k @ p) 32 = unat a"
proof -
  have "elf_header a n k @ p = ([0x7F, 69, 76, 70, 1, 2, 1] @ replicate 9 0 @ b16 1 @ b16 4 @ b32 1 @ b32 0 @ b32 0) @ b32 a @
    (b32 0x1000000 @ b16 52 @ b16 0 @ b16 0 @ b16 40 @ b16 (of_nat n) @ b16 (of_nat k)) @ p"
    by (simp add: elf_header_def)
  moreover have "length ([0x7F, 69, 76, 70, 1, 2, 1] @ replicate 9 0 @ b16 1 @ b16 4 @ b32 1 @ b32 0 @ b32 0) = 32" by simp
  ultimately show ?thesis by (simp only: be32_shift be32_value)
qed

lemma write_elf_layout_holds:
  assumes "sections_fit hs"
  shows "file_ok (write_elf hs) (fst (layout 0 52 hs))"
proof -
  obtain hs' e where l: "layout 0 52 hs = (hs', e)" by fastforce
  obtain b p where w: "write_data 0 52 hs' = (b, p)" by fastforce
  define sh where "sh = concat (map (\<lambda>(i, h). shdr_bytes i h) (enumerate 0 hs'))"
  have fit: "list_all shdr_ok hs" "52 + file_room hs < 2 ^ 32" using assms by (auto simp: sections_fit_def)
  have wl: "p = e" "unat e = 52 + length b" "length b \<le> file_room hs" "length hs' = length hs"
    "list_all (\<lambda>(k, h). placed b 52 (0 + k) h) (enumerate 0 hs')"
    using write_layout [OF fit, of 0 hs' e b p] l w by simp_all
  have r: "unat e + 4 < 2 ^ 32" using wl(2,3) assms by (simp add: sections_fit_def)
  let ?o = "round_up (unat e) 4"
  have o: "unat e \<le> ?o" "?o < unat e + 4" "?o mod 4 = 0" using round_up_props(1) [of "unat e" 4] round_up_props(2,3) [of 4 "unat e"] by simp_all
  have s: "(e + 3) AND NOT 3 = (of_nat ?o :: u32)" by (rule round4 [OF r])
  have us: "unat (of_nat ?o :: u32) = ?o" using o r by (simp add: unat_of_nat take_bit_nat_eq_self)
  have f: "fill e (of_nat ?o) = replicate (?o - unat e) 0" by (rule fill_length) (use us o in auto)
  have fl: "write_elf hs = elf_header (of_nat ?o) (length hs') (length hs' - 1) @ b @ replicate (?o - unat e) 0 @ sh"
    using l w wl(1) s f by (simp add: write_elf_def Let_def sh_def)
  have "be32_at (write_elf hs) 32 = ?o" unfolding fl header_shoff by (rule us)
  moreover have "drop ?o (write_elf hs) = sh" unfolding fl using o wl(2) by (simp add: header_length)
  moreover have "list_all (\<lambda>(i, h). section_in (write_elf hs) i h) (enumerate 0 hs')"
    using wl(5) placed_in [OF header_length] unfolding fl by (auto simp: list_all_iff)
  ultimately show ?thesis using o(3) l by (simp add: file_ok_def sh_def)
qed

section \<open>The symbol table\<close>

lemma sym_entry_length: "length (sym_entry funcs s) = 16"
  by (simp add: sym_entry_def Let_def)

text \<open>The entry of a symbol is at its index, and its name where the entry says.\<close>

definition entry_at :: "string list \<Rightarrow> symtab \<Rightarrow> asm_sym \<Rightarrow> bool" where
  "entry_at funcs t s \<longleftrightarrow>
     take 16 (drop (16 * sy_index s) (st_symtab t)) = sym_entry funcs s \<and> 16 * Suc (sy_index s) \<le> length (st_symtab t) \<and>
     (if sy_is_section s then sy_nameoff s = 0
      else sy_nameoff s + length (put_cstr (sy_name s)) \<le> length (st_strtab t) \<and>
        take (length (put_cstr (sy_name s))) (drop (sy_nameoff s) (st_strtab t)) = put_cstr (sy_name s))"

definition extends :: "symtab \<Rightarrow> symtab \<Rightarrow> bool" where
  "extends t u \<longleftrightarrow> (\<exists>x y. st_symtab u = st_symtab t @ x \<and> st_strtab u = st_strtab t @ y)"

lemma extends_refl: "extends t t" by (simp add: extends_def)

lemma extends_trans: "extends t u \<Longrightarrow> extends u v \<Longrightarrow> extends t v" by (auto simp: extends_def)

lemma take_drop_append: "n + k \<le> length b \<Longrightarrow> take k (drop n (b @ c)) = take k (drop n b)" by simp

lemma entry_extends: "entry_at funcs t s \<Longrightarrow> extends t u \<Longrightarrow> entry_at funcs u s"
  by (auto simp: entry_at_def extends_def)

text \<open>The index and the place of the name are all that changes.\<close>

definition same_sym :: "asm_sym \<Rightarrow> asm_sym \<Rightarrow> bool" where
  "same_sym s s' \<longleftrightarrow> s' = s\<lparr>sy_index := sy_index s', sy_nameoff := sy_nameoff s'\<rparr>"

lemma same_sym_simps: "same_sym s s" "same_sym s (s\<lparr>sy_index := i, sy_nameoff := o1\<rparr>)" "same_sym s s' \<Longrightarrow> sy_bind s' = sy_bind s"
  by (auto simp: same_sym_def) (metis asm_sym.select_convs(5) asm_sym.surjective asm_sym.update_convs(7,8))

lemma same_sym_trans: "same_sym s s' \<Longrightarrow> same_sym s' s'' \<Longrightarrow> same_sym s s''"
  by (cases s; cases s'; cases s'') (simp add: same_sym_def)

lemma symbol_pass_spec:
  "symbol_pass funcs want ss t = (ss', t') \<Longrightarrow> length (st_symtab t) = 16 * st_next t \<Longrightarrow>
     length (st_symtab t') = 16 * st_next t' \<and> extends t t' \<and> st_next t' = st_next t + length (filter (\<lambda>s. sy_bind s = want) ss) \<and>
     list_all2 (\<lambda>s s'. same_sym s s' \<and> (sy_bind s \<noteq> want \<longrightarrow> s' = s)) ss ss' \<and>
     (\<forall>s \<in> set ss'. sy_bind s = want \<longrightarrow> entry_at funcs t' s \<and> st_next t \<le> sy_index s \<and> sy_index s < st_next t') \<and>
     distinct (map sy_index (filter (\<lambda>s. sy_bind s = want) ss'))"
proof (induction ss arbitrary: t ss')
  case Nil
  then show ?case by (simp add: extends_refl)
next
  case (Cons s ss)
  show ?case
  proof (cases "sy_bind s = want")
    case False
    obtain r where r: "symbol_pass funcs want ss t = (r, t')" "ss' = s # r" using Cons.prems(1) False by (auto split: prod.splits)
    from Cons.IH [OF r(1) Cons.prems(2)] show ?thesis using False r(2) by (auto simp: same_sym_simps)
  next
    case True
    define s1 where "s1 = s\<lparr>sy_index := st_next t, sy_nameoff := (if sy_is_section s then 0 else length (st_strtab t))\<rparr>"
    define t1 where "t1 = \<lparr>st_next = Suc (st_next t), st_strtab = (if sy_is_section s then st_strtab t else st_strtab t @ put_cstr (sy_name s)),
                   st_symtab = st_symtab t @ sym_entry funcs s1\<rparr>"
    obtain r where r: "symbol_pass funcs want ss t1 = (r, t')" "ss' = s1 # r"
      using Cons.prems(1) True by (auto simp: Let_def s1_def t1_def split: prod.splits)
    have l1: "length (st_symtab t1) = 16 * st_next t1" using Cons.prems(2) by (simp add: t1_def sym_entry_length)
    have b: "sy_bind s1 = want" "sy_index s1 = st_next t" "same_sym s s1" using True by (auto simp: s1_def same_sym_simps)
    have e1: "entry_at funcs t1 s1" using Cons.prems(2) by (auto simp: entry_at_def t1_def s1_def sym_entry_length)
    have x1: "extends t t1" by (auto simp: extends_def t1_def)
    from Cons.IH [OF r(1) l1] have ih: "length (st_symtab t') = 16 * st_next t'" "extends t1 t'"
      "st_next t' = Suc (st_next t) + length (filter (\<lambda>s. sy_bind s = want) ss)"
      "list_all2 (\<lambda>s s'. same_sym s s' \<and> (sy_bind s \<noteq> want \<longrightarrow> s' = s)) ss r"
      "\<forall>s \<in> set r. sy_bind s = want \<longrightarrow> entry_at funcs t' s \<and> Suc (st_next t) \<le> sy_index s \<and> sy_index s < st_next t'"
      "distinct (map sy_index (filter (\<lambda>s. sy_bind s = want) r))"
      by (auto simp: t1_def)
    have "st_next t \<notin> sy_index ` set (filter (\<lambda>s. sy_bind s = want) r)" using ih(5) by fastforce
    then show ?thesis using ih b True r(2) entry_extends [OF e1 ih(2)] extends_trans [OF x1 ih(2)] by fastforce
  qed
qed

lemma distinct_split:
  "distinct (map f (filter P xs)) \<Longrightarrow> distinct (map f (filter (\<lambda>x. \<not> P x) xs)) \<Longrightarrow>
     f ` {x \<in> set xs. P x} \<inter> f ` {x \<in> set xs. \<not> P x} = {} \<Longrightarrow> distinct (map f xs)"
  by (induction xs) (auto split: if_splits)

lemma unchanged_filter:
  "list_all2 (\<lambda>s s'. same_sym s s' \<and> (sy_bind s \<noteq> w \<longrightarrow> s' = s)) ss ss' \<Longrightarrow> v \<noteq> w \<Longrightarrow>
     filter (\<lambda>s. sy_bind s = v) ss' = filter (\<lambda>s. sy_bind s = v) ss"
  by (induction rule: list_all2_induct) (auto simp: same_sym_simps)

lemma same_binds: "list_all2 (\<lambda>s s'. same_sym s s' \<and> Q s s') ss ss' \<Longrightarrow> map sy_bind ss' = map sy_bind ss"
  by (induction rule: list_all2_induct) (auto simp: same_sym_simps)

lemma count_binds: "map sy_bind ss' = map sy_bind ss \<Longrightarrow> length (filter (\<lambda>s. sy_bind s = v) ss') = length (filter (\<lambda>s. sy_bind s = v) ss)"
proof (induction ss arbitrary: ss')
  case (Cons s ss)
  then show ?case by (cases ss') auto
qed simp

text \<open>What the format asks of the table.\<close>

definition symtab_ok :: "string list \<Rightarrow> asm_sym list \<Rightarrow> asm_sym list \<times> nat \<times> symtab \<Rightarrow> bool" where
  "symtab_ok funcs ss r = (case r of (ss', g, t) \<Rightarrow>
     list_all2 same_sym ss ss' \<and> st_next t = 1 + length ss \<and> length (st_symtab t) = 16 * st_next t \<and> distinct (map sy_index ss') \<and>
     take 16 (st_symtab t) = replicate 16 0 \<and>
     list_all (\<lambda>s. entry_at funcs t s \<and> (if sy_bind s = 0 then 1 \<le> sy_index s \<and> sy_index s < g else g \<le> sy_index s \<and> sy_index s < st_next t)) ss')"

text \<open> C36: The symbol table of the object file is what the ELF format asks for: the first entry is null, every symbol has an index of
  its own with its entry there and its name in the string table at the offset in the entry, local symbols come before the
  global ones, the recorded first global index separates them, and nothing of a symbol changes but its index
  and the place of its name.\<close>

theorem symbol_table_ok:
  assumes "list_all (\<lambda>s. sy_bind s = 0 \<or> sy_bind s = STB_GLOBAL) ss"
  shows "symtab_ok funcs ss (order_symbols funcs ss)"
proof -
  obtain s1 t1 where p1: "symbol_pass funcs 0 ss empty_symtab = (s1, t1)" by fastforce
  obtain s2 t2 where p2: "symbol_pass funcs STB_GLOBAL s1 t1 = (s2, t2)" by fastforce
  have z: "length (st_symtab empty_symtab) = 16 * st_next empty_symtab" "st_next empty_symtab = 1" by (simp_all add: empty_symtab_def)
  have a: "length (st_symtab t1) = 16 * st_next t1" "extends empty_symtab t1" "st_next t1 = 1 + length (filter (\<lambda>s. sy_bind s = 0) ss)"
    "list_all2 (\<lambda>s s'. same_sym s s' \<and> (sy_bind s \<noteq> 0 \<longrightarrow> s' = s)) ss s1"
    "\<forall>s \<in> set s1. sy_bind s = 0 \<longrightarrow> entry_at funcs t1 s \<and> 1 \<le> sy_index s \<and> sy_index s < st_next t1"
    "distinct (map sy_index (filter (\<lambda>s. sy_bind s = 0) s1))"
    using symbol_pass_spec [OF p1 z(1)] z(2) by auto
  have b: "length (st_symtab t2) = 16 * st_next t2" "extends t1 t2" "st_next t2 = st_next t1 + length (filter (\<lambda>s. sy_bind s = STB_GLOBAL) s1)"
    "list_all2 (\<lambda>s s'. same_sym s s' \<and> (sy_bind s \<noteq> STB_GLOBAL \<longrightarrow> s' = s)) s1 s2"
    "\<forall>s \<in> set s2. sy_bind s = STB_GLOBAL \<longrightarrow> entry_at funcs t2 s \<and> st_next t1 \<le> sy_index s \<and> sy_index s < st_next t2"
    "distinct (map sy_index (filter (\<lambda>s. sy_bind s = STB_GLOBAL) s2))"
    using symbol_pass_spec [OF p2 a(1)] by auto
  have g: "(0 :: u32) \<noteq> STB_GLOBAL" "STB_GLOBAL \<noteq> 0" by (simp_all add: STB_GLOBAL_def)
  have bind: "map sy_bind s1 = map sy_bind ss" "map sy_bind s2 = map sy_bind ss" using same_binds [OF a(4)] same_binds [OF b(4)] by auto
  have "sy_bind ` set s2 = sy_bind ` set ss" using bind(2) by (metis list.set_map)
  then have cases: "sy_bind s = 0 \<or> sy_bind s = STB_GLOBAL" if "s \<in> set s2" for s
  proof -
    have "sy_bind s \<in> sy_bind ` set ss" using that \<open>sy_bind ` set s2 = sy_bind ` set ss\<close> by auto
    then show ?thesis using assms unfolding list_all_iff by auto
  qed
  have f0: "filter (\<lambda>s. sy_bind s = 0) s2 = filter (\<lambda>s. sy_bind s = 0) s1" by (rule unchanged_filter [OF b(4) g(1)])
  have locals: "entry_at funcs t2 s \<and> 1 \<le> sy_index s \<and> sy_index s < st_next t1" if "s \<in> set s2" "sy_bind s = 0" for s
  proof -
    have "s \<in> set (filter (\<lambda>s. sy_bind s = 0) s1)" using that f0 [symmetric] by simp
    then show ?thesis using a(5) entry_extends [OF _ b(2)] by auto
  qed
  have not0: "filter (\<lambda>s. sy_bind s \<noteq> 0) s2 = filter (\<lambda>s. sy_bind s = STB_GLOBAL) s2"
    using cases g by (intro filter_cong) auto
  have "distinct (map sy_index s2)"
  proof (rule distinct_split [where P = "\<lambda>s. sy_bind s = 0"])
    show "distinct (map sy_index (filter (\<lambda>s. sy_bind s = 0) s2))" using a(6) f0 by simp
    show "distinct (map sy_index (filter (\<lambda>s. \<not> sy_bind s = 0) s2))" using b(6) not0 by simp
    show "sy_index ` {s \<in> set s2. sy_bind s = 0} \<inter> sy_index ` {s \<in> set s2. \<not> sy_bind s = 0} = {}"
    proof (rule equals0I)
      fix i
      assume "i \<in> sy_index ` {s \<in> set s2. sy_bind s = 0} \<inter> sy_index ` {s \<in> set s2. \<not> sy_bind s = 0}"
      then obtain x y where xy: "x \<in> set s2" "sy_bind x = 0" "y \<in> set s2" "sy_bind y \<noteq> 0" "sy_index x = sy_index y" by auto
      then have "sy_bind y = STB_GLOBAL" using cases by blast
      then show False using locals [OF xy(1,2)] b(5) xy(3,5) by (auto simp: not_le)
    qed
  qed
  moreover have "st_next t2 = 1 + length ss"
  proof -
    have "filter (\<lambda>s. sy_bind s = STB_GLOBAL) ss = filter (\<lambda>s. \<not> sy_bind s = 0) ss"
      using assms g by (intro filter_cong) (auto simp: list_all_iff)
    then show ?thesis using a(3) b(3) count_binds [OF bind(1), of STB_GLOBAL] sum_length_filter_compl [of "\<lambda>s. sy_bind s = 0" ss] by simp
  qed
  moreover have "list_all2 same_sym ss s2"
    by (rule list_all2_trans [OF _ a(4) b(4)]) (auto intro: same_sym_trans)
  moreover have "take 16 (st_symtab t2) = replicate 16 0"
    using extends_trans [OF a(2) b(2)] by (auto simp: extends_def empty_symtab_def)
  moreover have "list_all (\<lambda>s. entry_at funcs t2 s \<and> (if sy_bind s = 0 then 1 \<le> sy_index s \<and> sy_index s < st_next t1 else st_next t1 \<le> sy_index s \<and> sy_index s < st_next t2)) s2"
    using locals b(5) cases by (auto simp: list_all_iff)
  ultimately show ?thesis using b(1) by (simp add: symtab_ok_def order_symbols_def p1 p2)
qed

definition demo_symbols :: "asm_sym list" where
  "demo_symbols = [(new_sym ''_main'')\<lparr>sy_bind := 1, sy_shndx := 1\<rparr>, (new_sym ''.L1'')\<lparr>sy_shndx := 1, sy_value := 4\<rparr>, (new_sym ''_puts'')\<lparr>sy_bind := 1\<rparr>, section_sym 1]"

lemma symbol_table_ok_witness: "symtab_ok [''_main''] demo_symbols (order_symbols [''_main''] demo_symbols)"
  by (rule symbol_table_ok) (simp add: demo_symbols_def STB_GLOBAL_def new_sym_def section_sym_def)

section \<open>The sections of an object\<close>

definition sized_ok :: "shdr \<Rightarrow> bool" where "sized_ok h \<longleftrightarrow> sh_type h = 8 \<or> sh_size h = of_nat (length (sh_data h))"

lemma progbits_sized: "sized_ok (progbits n f a d)" "sized_ok (rela_hdr n l i d)" "sized_ok shdr_null"
  by (simp_all add: sized_ok_def progbits_def rela_hdr_def shdr_null_def)

lemma sized_updates [simp]:
  "sized_ok (h\<lparr>sh_nameoff := x\<rparr>) = sized_ok h" "sized_ok (h\<lparr>sh_link := l\<rparr>) = sized_ok h" "sized_ok (h\<lparr>sh_info := l\<rparr>) = sized_ok h"
  "sized_ok (h\<lparr>sh_entsize := w\<rparr>) = sized_ok h"
  by (simp_all add: sized_ok_def)

lemma sized_retyped [simp]: "sized_ok ((progbits n f a d)\<lparr>sh_type := t\<rparr>)" "sized_ok (h\<lparr>sh_data := d, sh_size := of_nat (length d)\<rparr>)"
  by (simp_all add: sized_ok_def progbits_def)

lemma name_offsets_sized: "name_offsets b hs = (hs', b') \<Longrightarrow> list_all sized_ok hs' = list_all sized_ok hs"
  by (induction hs arbitrary: b hs') (auto split: prod.splits)

lemma name_offsets_data: "name_offsets b hs = (hs', b') \<Longrightarrow> map sh_data hs' = map sh_data hs \<and> map sh_name hs' = map sh_name hs"
  by (induction hs arbitrary: b hs') (auto split: prod.splits)

lemma debug_headers_sized: "list_all sized_ok (debug_headers n i d ix)"
  by (simp add: debug_headers_def progbits_sized)

lemma elf_sections_parts:
  assumes "elf_sections st = Inr hs"
  obtains mid hs' shstr syms strs names bss where
    "name_offsets [0] ([shdr_null, progbits ''.text'' 6 4 (as_text st), progbits ''.data'' 3 4 (as_data st), bss, progbits ''.rodata'' 2 4 (as_rodata st)] @ mid @ [syms, strs, names]) = (hs', shstr)"
    "hs = butlast hs' @ [(last hs')\<lparr>sh_data := shstr, sh_size := of_nat (length shstr)\<rparr>]" "list_all sized_ok (bss # syms # strs # names # mid)"
proof -
  have a: "sized_ok ((progbits ''.bss'' 3 4 [])\<lparr>sh_type := 8, sh_size := as_bss st\<rparr>)" by (simp add: sized_ok_def)
  have b: "sized_ok ((progbits ''.symtab'' 0 4 x)\<lparr>sh_type := 2, sh_link := l, sh_info := g, sh_entsize := 16\<rparr>)"
    "sized_ok ((progbits ''.strtab'' 0 1 x)\<lparr>sh_type := 3\<rparr>)" for x l g by (simp_all add: sized_ok_def progbits_def shdr_null_def)
  have c: "list_all sized_ok (if q then xs else [])" if "list_all sized_ok xs" for q xs using that by simp
  have glue: "[p, q, r, s, t] @ u @ v @ w @ z = [p, q, r, s, t] @ (u @ v @ w) @ z" for p q r s t :: shdr and u v w z by simp
  show ?thesis
    using assms unfolding elf_sections_def Let_def glue
    apply (simp only: case_prod_unfold bind_res_Inr_iff)
    apply (elim exE conjE)
    apply (rule that)
      prefer 2
      apply (rule sym, erule sum.inject(2) [THEN iffD1])
     apply (rule prod.collapse [symmetric])
    apply (simp add: a b c debug_headers_sized progbits_sized)
    done
qed


lemma elf_sections_sized:
  assumes "elf_sections st = Inr hs"
  shows "list_all sized_ok hs" "sh_data (hs ! 1) = as_text st" "sh_data (hs ! 2) = as_data st" "sh_data (hs ! 4) = as_rodata st" "4 < length hs"
proof -
  obtain mid hs' shstr syms strs names bss where
    n: "name_offsets [0] ([shdr_null, progbits ''.text'' 6 4 (as_text st), progbits ''.data'' 3 4 (as_data st), bss, progbits ''.rodata'' 2 4 (as_rodata st)] @ mid @ [syms, strs, names]) = (hs', shstr)"
    and hs: "hs = butlast hs' @ [(last hs')\<lparr>sh_data := shstr, sh_size := of_nat (length shstr)\<rparr>]" and ok: "list_all sized_ok (bss # syms # strs # names # mid)"
    by (rule elf_sections_parts [OF assms])
  note d = name_offsets_data [OF n]
  have "length (map sh_data hs') = 8 + length mid" unfolding conjunct1 [OF d] by simp
  then have l: "length hs' = 8 + length mid" by simp
  have nth: "sh_data (hs ! k) = map sh_data ([shdr_null, progbits ''.text'' 6 4 (as_text st), progbits ''.data'' 3 4 (as_data st), bss, progbits ''.rodata'' 2 4 (as_rodata st)] @ mid @ [syms, strs, names]) ! k"
    if "k < 7" for k
  proof -
    have "sh_data (hs ! k) = map sh_data hs' ! k" using l that by (simp add: hs nth_append nth_butlast)
    then show ?thesis unfolding conjunct1 [OF d] .
  qed
  show "4 < length hs" using l hs by simp
  show "sh_data (hs ! 1) = as_text st" "sh_data (hs ! 2) = as_data st" "sh_data (hs ! 4) = as_rodata st"
    using nth [of 1] nth [of 2] nth [of 4] by (simp_all add: progbits_def)
  have "list_all sized_ok hs'" using name_offsets_sized [OF n] ok by (simp add: progbits_sized)
  then show "list_all sized_ok hs" by (auto simp: hs list_all_iff dest: in_set_butlastD)
qed

text \<open>The sections of an object file are found in it, and the first ones are the sections of the assembler.\<close>

lemma room_member: "h \<in> set hs \<Longrightarrow> length (sh_data h) \<le> file_room hs"
  by (induction hs) (auto simp: file_room_def)

definition object_ok :: "asm_state \<Rightarrow> shdr list \<Rightarrow> bool" where
  "object_ok st hs \<longleftrightarrow> file_ok (write_elf hs) (fst (layout 0 52 hs)) \<and>
     sh_data (hs ! 1) = as_text st \<and> sh_data (hs ! 2) = as_data st \<and> sh_data (hs ! 4) = as_rodata st"

text \<open> C35: The object file has the layout that its headers describe: the section headers stand where the ELF header says, at
  a multiple of 4, one for each section in order, and the bytes of every section with contents are found in the file at
  the offset of its header, which is a multiple of the alignment; sections 1, 2 and 4 are the text, data and
  read-only data that were assembled.\<close>

theorem object_layout:
  assumes "elf_sections st = Inr hs" "60 + file_room hs < 2 ^ 32"
  shows "object_ok st hs"
proof -
  have "shdr_ok h" if "h \<in> set hs" for h
    using elf_sections_sized(1) [OF assms(1)] room_member [OF that] assms(2) that by (auto simp: shdr_ok_def sized_ok_def list_all_iff)
  then have "sections_fit hs" using assms(2) by (simp add: sections_fit_def list_all_iff)
  then show ?thesis using write_elf_layout_holds elf_sections_sized [OF assms(1)] by (simp add: object_ok_def)
qed


definition demo_object :: asm_state where
  "demo_object = asm_init\<lparr>as_text := [0x4E, 0x75], as_data := [1, 2, 3], as_syms := [(new_sym ''_f'')\<lparr>sy_shndx := 1\<rparr>], as_public := [''_f''],
     as_rels := [\<lparr>rl_sec = 2, rl_off = 0, rl_sym = ''_f'', rl_type = 1, rl_add = 0\<rparr>]\<rparr>"

lemma demo_object_room: "case elf_sections demo_object of Inl e \<Rightarrow> False | Inr hs \<Rightarrow> file_room hs \<le> 300"
  by code_simp

lemma object_layout_witness: "case elf_sections demo_object of Inl e \<Rightarrow> False | Inr hs \<Rightarrow> object_ok demo_object hs"
  using demo_object_room object_layout [of demo_object] by (auto split: sum.splits)

end
