(* ===== verification/Spec2Isabelle.thy ===== *)
theory Spec2Isabelle
  imports Main C68k_Prelude Hashmap C_Types Ast Ir Ir_Sem Ir_Fold Ir_Cfg Ir_Opt Tile_Emit Ra_Sound Ra_Order Pp_Number Const_Value Asm_Compiled Elf_Spec
begin

text \<open>
  A verification library for c68k, a C compiler for the Motorola 68000 that runs on a host or, compiled by itself,
  under CP/M-68K. All paths below are relative to the repository; \<open>src/\<close> is its directory of compiler sources.

  THE PROGRAM. \<open>src/main.c\<close> drives one translation unit through: reading and tokenizing
  (\<open>src/unicode.c\<close>, \<open>src/tokenize.c\<close>), preprocessing (\<open>src/preprocess.c\<close>), parsing and typing (\<open>src/parse.c\<close>,
  \<open>src/type.c\<close>), code generation by a tree walk (\<open>src/codegen68k.c\<close>) or, for function bodies that qualify, through an
  intermediate representation (\<open>src/ir68k.c\<close>), and the integrated assembler (\<open>src/emit_elf.c\<close>), which reads the assembler
  text and writes an ELF object. The hash table of \<open>src/hashmap.c\<close> serves the macro table, the keyword
  table, scopes and tags.

  THE MODEL, theory by theory, in the order of the code:

  \<^item> \<^theory_text>\<open>C68k_Prelude\<close>: results as sums, decimal printing, words and lists shared by the rest.
  \<^item> \<^theory_text>\<open>Unicode\<close>, \<^theory_text>\<open>Source_Text\<close>, \<^theory_text>\<open>Tokenize\<close>, \<^theory_text>\<open>Pp_Number\<close>: \<open>unicode.c\<close> and \<open>tokenize.c\<close>. A text is the list of its bytes; reading
    past the terminating NUL is an error value of its own, so that safety is a theorem. \<^theory_text>\<open>Tokenize_Spec\<close> shows that the
    tokens tile the text, and that a file never makes the tokenizer read past its end.
  \<^item> \<^theory_text>\<open>Pp_Token\<close>: the tokens, the state and the token-list operations of \<open>preprocess.c\<close>. \<^theory_text>\<open>Const_Expr\<close>: constant expressions of
    integer constants, from the recursive-descent functions of \<open>parse.c\<close> over \<open>add_type\<close> to \<open>eval\<close>. \<^theory_text>\<open>Const_Parse\<close> shows that this
    ends, \<^theory_text>\<open>Const_Grammar\<close> that the parser reads the sentences of an inductive grammar, and \<^theory_text>\<open>Const_Value\<close> that the result is the
    value that C11 gives it in the language proper, stated on mathematical integers, under conditions that name where it is not.
    For \<open>#if\<close> lines C11 asks for the widest types, which the code does not use.
  \<^item> \<^theory_text>\<open>Hashmap\<close>: \<open>hashmap.c\<close>, open addressing with tombstones over an explicit bucket array, refined to a finite map. The
    table is an interface (a locale of insert, delete and lookup) interpreted on the model.
  \<^item> \<^theory_text>\<open>C_Types\<close>, \<^theory_text>\<open>Ast\<close>: the types of \<open>type.c\<close> with their identities (compatibility follows \<open>origin\<close> pointers), and the
    syntax tree of \<open>c68k.h\<close> as the back end reads it.
  \<^item> \<^theory_text>\<open>Ir\<close>: eligibility, expression building and lowering to a flat item list; \<^theory_text>\<open>Ir_Sem\<close>: its meaning, a step relation on
    item lists over an expression semantics that is a set of outcomes (the order of evaluation of operands is open);
    \<^theory_text>\<open>Ir_Fold\<close>, \<^theory_text>\<open>Ir_Cfg\<close>, \<^theory_text>\<open>Ir_Opt\<close>: constant folding, the control-flow graph and the optimizer, each a refinement.
  \<^item> \<^theory_text>\<open>Ra_Collect\<close>, \<^theory_text>\<open>Ra_Live\<close>, \<^theory_text>\<open>Ra_Color\<close>: the register allocator: candidates, bit sets, liveness, interference, coloring. The walk
    over the uses and stores takes operands in an order that is not the one of the code. \<^theory_text>\<open>Ra_Sound\<close> proves, for items whose
    operand order does not matter, that a run with shared registers is a run with a register for each variable; \<^theory_text>\<open>Ra_Order\<close> carries
    this to the emitted code and shows that it fails where the order matters.
  \<^item> \<^theory_text>\<open>M68k\<close>, \<^theory_text>\<open>Ir_Tile\<close>: a model of the processor on the selector's instructions, and the instruction selector; the theories
    \<^theory_text>\<open>Tile_Arith\<close> to \<^theory_text>\<open>Tile_Emit\<close> prove by simulation that the emitted code runs as the item list.
  \<^item> \<^theory_text>\<open>Asm_Buf\<close>, \<^theory_text>\<open>Asm_Encode\<close>, \<^theory_text>\<open>Asm_Line\<close>, \<^theory_text>\<open>Elf_Write\<close>: the whole of \<open>emit_elf.c\<close>. \<^theory_text>\<open>Asm_Decode\<close> is its specification, the
    instructions with their text and a decoder written from the opcode map of the processor; \<^theory_text>\<open>Asm_Roundtrip\<close>, \<^theory_text>\<open>Asm_Insn\<close> and
    \<^theory_text>\<open>Asm_Program\<close> prove that decoding inverts assembling for operands, instructions, lines and programs with their branches;
    \<^theory_text>\<open>Asm_Compiled\<close> connects the selector's text to it; \<^theory_text>\<open>Elf_Spec\<close> reads the object file back.

  HOW STATE IS MODELLED. A C struct is a record and an enum a datatype. Static variables that a function updates are
  explicit state. A C \<open>int\<close> or \<open>uint32_t\<close> is a 32-bit word where the code can wrap, and an \<open>int\<close> or \<open>nat\<close> where the value is an index
  that the code bounds. \<open>error\<close> and \<open>error_tok\<close>, which end the process, are the left side of a sum. A pointer that the code compares (the
  identity of a type) is a number in the record.

  BOUNDS AND TERMINATION. Loops are structural recursions or functions with measures. The liveness loop is a partial function
  that is proved to return. The fixed arrays of 256 candidates and addresses are in the model as such. The fuel of the expression parser is four
  units for each token of the line and four more, and no list of tokens needs more. The
  round trip of a program asks for fewer than 214 million instructions, so that places in the text section fit 31 bits.

  LIMITS OF THE MACHINE MODEL. \<^theory_text>\<open>M68k\<close> computes an address from a frame displacement of any size, while the processor and the
  assembler have 16 bits: the simulation theorems say nothing of frames beyond that, and the theorem on the selected text has the limit
  as a condition. The size of a cleared object is assumed to be between 1 and 65536 (\<open>wf_expr\<close>).

  NOT MODELLED: \<open>main.c\<close> and \<open>compat.c\<close> (command line, processes and files), the expansion of macros and the directives, the rest of
  the parser (declarations, statements, initializers, names) and the tree-walking generator,
  which build and walk mutable linked structures of every construct of C, and the C library under \<open>libc/\<close>. Library calls of the
  host (files, message formatting, memory allocation that does not fail) are taken as given.
\<close>

end
